(* ===== verification/Prelude.thy ===== *)
theory Prelude
  imports Main "HOL-Library.Word" "HOL-Library.Multiset" "HOL-Library.Sublist"
begin

text \<open>
  Shared vocabulary of the lnxCAD development: C strings and C integers as the sources use them,
  the scanning idioms of the \<^verbatim>\<open>/proc\<close>, \<^verbatim>\<open>/etc/passwd\<close> and \<^verbatim>\<open>environ\<close> parsers
  (\<^verbatim>\<open>strchr\<close>, \<^verbatim>\<open>strstr\<close>, \<^verbatim>\<open>strncmp\<close>, line and NUL-separated splitting), and generic
  lemmas on lists that several components use.

  A C character array is a \<^typ>\<open>char list\<close> of the array's size; the C string it holds is the part
  before its first NUL (\<open>c_str\<close>). A read at or past the end of a list that stands for a
  string literal or for a buffer with its terminator returns NUL (\<open>cget\<close>).
\<close>

named_theorems cstr_simps \<open>content of C string buffers after each string operation\<close>
named_theorems clen_simps \<open>sizes of C buffers are kept by every string operation\<close>

abbreviation NUL :: char where
  "NUL \<equiv> CHR 0x00"

abbreviation LF :: char where
  "LF \<equiv> CHR 0x0A"

abbreviation TAB :: char where
  "TAB \<equiv> CHR 0x09"

definition INT_MAX :: int where
  "INT_MAX = 2147483647"

definition INT_MIN :: int where
  "INT_MIN = - 2147483648"

definition is_c_int :: "int \<Rightarrow> bool" where
  "is_c_int x \<longleftrightarrow> INT_MIN \<le> x \<and> x \<le> INT_MAX"

text \<open>A value stored into a C \<^verbatim>\<open>int\<close>: two's complement wrap-around, written out.\<close>

definition wrap_int :: "int \<Rightarrow> int" where
  "wrap_int x = (x + 2147483648) mod 4294967296 - 2147483648"

text \<open>C's integer division and remainder truncate towards zero.\<close>

definition cdiv :: "int \<Rightarrow> int \<Rightarrow> int" where
  "cdiv a b = sgn a * sgn b * (\<bar>a\<bar> div \<bar>b\<bar>)"

definition c_str :: "char list \<Rightarrow> string" where
  "c_str buf = takeWhile (\<lambda>c. c \<noteq> NUL) buf"

definition cget :: "char list \<Rightarrow> nat \<Rightarrow> char" where
  "cget s i = (if i < length s then s ! i else NUL)"

definition is_digit :: "char \<Rightarrow> bool" where
  "is_digit c \<longleftrightarrow> 48 \<le> (of_char c :: nat) \<and> (of_char c :: nat) \<le> 57"

definition digit_val :: "char \<Rightarrow> int" where
  "digit_val c = int (of_char c) - 48"

text \<open>The literal prefix test \<^verbatim>\<open>strncmp(s, lit, strlen(lit)) == 0\<close>.\<close>

definition starts_with :: "string \<Rightarrow> string \<Rightarrow> bool" where
  "starts_with s lit \<longleftrightarrow> take (length lit) s = lit"

text \<open>\<^verbatim>\<open>strstr(hay, needle) != NULL\<close>.\<close>

fun contains :: "string \<Rightarrow> string \<Rightarrow> bool" where
  "contains [] needle = (needle = [])"
| "contains (c # cs) needle = (starts_with (c # cs) needle \<or> contains cs needle)"

text \<open>
  \<^verbatim>\<open>strchr\<close> followed by cutting the string there: the part before the first \<open>c\<close>, and what
  follows it when there is one.
\<close>

fun cut_at :: "char \<Rightarrow> string \<Rightarrow> string \<times> string option" where
  "cut_at c [] = ([], None)"
| "cut_at c (x # xs) =
     (if x = c then ([], Some xs)
      else (case cut_at c xs of (a, b) \<Rightarrow> (x # a, b)))"

text \<open>Bool-valued C conditions stored in an \<^verbatim>\<open>int\<close>.\<close>

abbreviation b2i :: "bool \<Rightarrow> int" where
  "b2i b \<equiv> (if b then 1 else 0)"

subsection \<open>Integers\<close>

lemma wrap_int_range [simp]: "is_c_int (wrap_int x)"
  unfolding is_c_int_def wrap_int_def INT_MIN_def INT_MAX_def
  using pos_mod_bound [of 4294967296 "x + 2147483648"]
    pos_mod_sign [of 4294967296 "x + 2147483648"] by linarith

lemma wrap_int_id [simp]: "is_c_int x \<Longrightarrow> wrap_int x = x"
  by (simp add: is_c_int_def wrap_int_def INT_MIN_def INT_MAX_def)

lemma is_c_int_small [simp, intro]: "0 \<le> x \<Longrightarrow> x \<le> 2147483647 \<Longrightarrow> is_c_int x"
  by (simp add: is_c_int_def INT_MIN_def INT_MAX_def)

lemma cdiv_nonneg [simp]: "0 \<le> a \<Longrightarrow> 0 < b \<Longrightarrow> cdiv a b = a div b"
  by (cases "a = 0") (auto simp: cdiv_def)

subsection \<open>C strings\<close>

lemma c_str_no_nul [simp]: "NUL \<notin> set (c_str s)"
  unfolding c_str_def by (metis (mono_tags, lifting) set_takeWhileD)

lemma c_str_id [simp]: "NUL \<notin> set s \<Longrightarrow> c_str s = s"
  unfolding c_str_def by (rule takeWhile_eq_all_conv [THEN iffD2]) auto

lemma c_str_idem [simp]: "c_str (c_str s) = c_str s"
  by simp

lemma c_str_append_nul [simp]: "NUL \<notin> set s \<Longrightarrow> c_str (s @ NUL # t) = s"
  unfolding c_str_def by (induction s) auto

lemma c_str_length_le: "length (c_str s) \<le> length s"
  unfolding c_str_def by (rule length_takeWhile_le)

lemma cget_c_str: "i < length (c_str s) \<Longrightarrow> cget s i = c_str s ! i"
  using c_str_length_le [of s] by (simp add: cget_def c_str_def takeWhile_nth)

lemma cget_nul_iff: "i \<le> length (c_str s) \<Longrightarrow> cget s i = NUL \<longleftrightarrow> i = length (c_str s)"
proof
  assume i: "i \<le> length (c_str s)" and n: "cget s i = NUL"
  show "i = length (c_str s)"
  proof (rule ccontr)
    assume "i \<noteq> length (c_str s)"
    with i have lt: "i < length (c_str s)" by simp
    then have "cget s i \<in> set (c_str s)" by (simp add: cget_c_str)
    with n show False by simp
  qed
next
  assume "i = length (c_str s)"
  then show "cget s i = NUL"
    unfolding cget_def c_str_def using nth_length_takeWhile [of "\<lambda>c. c \<noteq> NUL" s] by auto
qed

lemma take_c_str_no_nul: "NUL \<notin> set (take n (c_str s))"
  using c_str_no_nul [of s] by (auto dest: in_set_takeD)

lemma starts_with_iff: "starts_with s lit \<longleftrightarrow> prefix lit s"
  unfolding starts_with_def by (metis append_eq_conv_conj append_take_drop_id prefix_def)

lemma contains_iff: "contains hay needle \<longleftrightarrow> (\<exists>u v. hay = u @ needle @ v)"
proof (induction hay needle rule: contains.induct)
  case (1 needle)
  then show ?case by auto
next
  case (2 c cs needle)
  show ?case
  proof
    assume "contains (c # cs) needle"
    then consider "starts_with (c # cs) needle" | "contains cs needle" by auto
    then show "\<exists>u v. c # cs = u @ needle @ v"
    proof cases
      case 1
      then show ?thesis by (metis append_Nil append_take_drop_id starts_with_def)
    next
      case 2
      with "2.IH" obtain u v where "cs = u @ needle @ v" by blast
      then have "c # cs = (c # u) @ needle @ v" by simp
      then show ?thesis by blast
    qed
  next
    assume "\<exists>u v. c # cs = u @ needle @ v"
    then obtain u v where uv: "c # cs = u @ needle @ v" by blast
    show "contains (c # cs) needle"
    proof (cases u)
      case Nil
      with uv have "starts_with (c # cs) needle" by (simp add: starts_with_def)
      then show ?thesis by simp
    next
      case (Cons d u')
      with uv have "cs = u' @ needle @ v" by simp
      with "2.IH" show ?thesis by auto
    qed
  qed
qed

lemma cut_at_notin: "c \<notin> set s \<Longrightarrow> cut_at c s = (s, None)"
  by (induction s) auto

lemma cut_at_append: "c \<notin> set a \<Longrightarrow> cut_at c (a @ c # b) = (a, Some b)"
  by (induction a) auto

lemma cut_at_cases:
  obtains "c \<notin> set s" "cut_at c s = (s, None)"
  | a b where "s = a @ c # b" "c \<notin> set a" "cut_at c s = (a, Some b)"
  using split_list_first [of c s] by (metis cut_at_append cut_at_notin)

lemma cut_at_None: "cut_at c s = (a, None) \<longleftrightarrow> c \<notin> set s \<and> a = s"
  by (rule cut_at_cases [of c s]) auto

lemma cut_at_Some: "cut_at c s = (a, Some b) \<longleftrightarrow> s = a @ c # b \<and> c \<notin> set a"
proof
  assume "cut_at c s = (a, Some b)"
  then show "s = a @ c # b \<and> c \<notin> set a" by (cases rule: cut_at_cases [of c s]) auto
next
  assume "s = a @ c # b \<and> c \<notin> set a"
  then show "cut_at c s = (a, Some b)" by (simp add: cut_at_append)
qed

lemma cut_at_length: "cut_at c s = (a, Some b) \<Longrightarrow> length b < length s"
  by (auto simp: cut_at_Some)

subsection \<open>Splitting a buffer\<close>

text \<open>
  The line loop of the parsers: \<^verbatim>\<open>while (line && *line) { next = strchr(line, '\n'); ... }\<close>.
  It stops at the end of the text, and an empty line in the middle is a line.
\<close>

function c_lines :: "string \<Rightarrow> string list" where
  "c_lines s =
     (if s = [] then []
      else (case cut_at LF s of
              (l, None) \<Rightarrow> [l]
            | (l, Some rest) \<Rightarrow> l # c_lines rest))"
  by pat_completeness auto
termination
  by (relation "measure length") (auto dest: cut_at_length [OF sym])

declare c_lines.simps [simp del]

text \<open>
  The environment loop: \<^verbatim>\<open>while (p < buf + n) { end = memchr(p, 0, ...); if (!end) break; ... }\<close>
  over the \<open>n\<close> bytes that were read; an entry cut off by the end of the buffer is not visited.
\<close>

function env_entries :: "char list \<Rightarrow> string list" where
  "env_entries s =
     (case cut_at NUL s of
        (l, None) \<Rightarrow> []
      | (l, Some rest) \<Rightarrow> l # env_entries rest)"
  by pat_completeness auto
termination
  by (relation "measure length") (auto dest: cut_at_length [OF sym])

declare env_entries.simps [simp del]

lemma c_lines_Nil [simp]: "c_lines [] = []"
  by (simp add: c_lines.simps)

lemma c_lines_line: "LF \<notin> set l \<Longrightarrow> c_lines (l @ LF # rest) = l # c_lines rest"
  by (subst c_lines.simps) (simp add: cut_at_append)

lemma c_lines_last: "LF \<notin> set l \<Longrightarrow> l \<noteq> [] \<Longrightarrow> c_lines l = [l]"
proof -
  assume "LF \<notin> set l" "l \<noteq> []"
  then have "cut_at LF l = (l, None)" by (simp add: cut_at_None)
  with \<open>l \<noteq> []\<close> show ?thesis by (subst c_lines.simps) simp
qed

lemma env_entries_Nil [simp]: "env_entries [] = []"
  by (subst env_entries.simps) simp

lemma env_entries_entry:
  "NUL \<notin> set e \<Longrightarrow> env_entries (e @ NUL # rest) = e # env_entries rest"
  by (subst env_entries.simps) (simp add: cut_at_append)

lemma env_entries_concat:
  "\<forall>e\<in>set es. NUL \<notin> set e \<Longrightarrow> env_entries (concat (map (\<lambda>e. e @ [NUL]) es)) = es"
  by (induction es) (auto simp: env_entries_entry)

lemma env_entries_no_nul: "e \<in> set (env_entries s) \<Longrightarrow> NUL \<notin> set e"
proof (induction s rule: env_entries.induct)
  case (1 s)
  show ?case
  proof (cases "cut_at NUL s")
    case (Pair l r)
    show ?thesis
    proof (cases r)
      case None
      with Pair "1.prems" show ?thesis by (simp add: env_entries.simps [of s])
    next
      case (Some rest)
      with Pair "1.prems" have "e = l \<or> e \<in> set (env_entries rest)"
        by (simp add: env_entries.simps [of s])
      moreover from Pair Some have "NUL \<notin> set l" by (simp add: cut_at_Some)
      moreover have "e \<in> set (env_entries rest) \<Longrightarrow> NUL \<notin> set e"
        using "1.IH" Pair Some by simp
      ultimately show ?thesis by blast
    qed
  qed
qed

subsection \<open>Lists\<close>

lemma nth_list_update_all:
  "i < length xs \<Longrightarrow> xs[i := v] ! j = (if j = i then v else xs ! j)"
  by (cases "i = j") auto

lemma take_Suc_update: "i < length xs \<Longrightarrow> take (Suc i) (xs[i := v]) = take i xs @ [v]"
  by (simp add: take_Suc_conv_app_nth)

lemma take_take_append: "take k (take k xs @ ys) = take k (xs @ ys)"
  by (simp add: min_def)

lemma filter_all_id: "\<forall>x\<in>set xs. P x \<Longrightarrow> filter P xs = xs"
  by (simp add: filter_id_conv)

end
