(* ===== verification/CStrings.thy ===== *)
theory CStrings
  imports Prelude
begin

text \<open>
  The string and number helpers that replace \<^verbatim>\<open>stdio\<close> in the recovery path
  (\<^verbatim>\<open>src/cad_rescue_gui.c\<close>: \<open>safe_copy\<close>, \<open>safe_concat\<close>, \<open>secure_clear_buffer\<close>,
  \<open>int_to_str\<close>, \<open>str_to_int\<close>, \<open>str_to_ull\<close>, and \<open>is_alphanumeric\<close> of
  \<^verbatim>\<open>src/cad_watchdog.c\<close>), modelled on the arrays they write, with their loops as recursion.
  A pointer that may be NULL is an option. The lemmas give the exact content of every buffer after
  each call, that bytes past the stated capacity are never written, and the round trip between
  \<open>int_to_str\<close> and \<open>str_to_int\<close>. The locale \<open>bounded_strings\<close> states the contract
  the path-building code of the other components relies on.
\<close>

section \<open>Definitions\<close>

subsection \<open>Copying and appending\<close>

text \<open>\<^verbatim>\<open>while (src && src[i] && i < max_len - 1) { dst[i] = src[i]; i++; }\<close>, started at \<open>at\<close>.\<close>

function copy_loop :: "char list \<Rightarrow> char list \<Rightarrow> nat \<Rightarrow> nat \<Rightarrow> nat \<Rightarrow> char list \<times> nat" where
  "copy_loop dst src at lim i =
     (if cget src i \<noteq> NUL \<and> at + i < lim
      then copy_loop (dst[at + i := cget src i]) src at lim (Suc i)
      else (dst, i))"
  by pat_completeness auto
termination
  by (relation "measure (\<lambda>(dst, src, at, lim, i). lim - (at + i))") auto

declare copy_loop.simps [simp del]

definition safe_copy :: "char list option \<Rightarrow> char list option \<Rightarrow> nat \<Rightarrow> char list option" where
  "safe_copy dst src max_len =
     (case dst of
        None \<Rightarrow> None
      | Some d \<Rightarrow>
          if max_len = 0 then Some d
          else (case src of
                  None \<Rightarrow> Some (d[0 := NUL])
                | Some s \<Rightarrow> (case copy_loop d s 0 (max_len - 1) 0 of
                    (d', i) \<Rightarrow> Some (d'[i := NUL]))))"

text \<open>\<^verbatim>\<open>while (dst[len] && len < max_len - 1) len++;\<close>\<close>

function scan_len :: "char list \<Rightarrow> nat \<Rightarrow> nat \<Rightarrow> nat" where
  "scan_len d lim len = (if cget d len \<noteq> NUL \<and> len < lim then scan_len d lim (Suc len) else len)"
  by pat_completeness auto
termination
  by (relation "measure (\<lambda>(d, lim, len). lim - len)") auto

declare scan_len.simps [simp del]

definition safe_concat :: "char list option \<Rightarrow> char list option \<Rightarrow> nat \<Rightarrow> char list option" where
  "safe_concat dst src max_len =
     (case dst of
        None \<Rightarrow> None
      | Some d \<Rightarrow>
          if max_len = 0 then Some d
          else (let len = scan_len d (max_len - 1) 0 in
                case src of
                  None \<Rightarrow> Some (d[len := NUL])
                | Some s \<Rightarrow> (case copy_loop d s len (max_len - 1) 0 of
                    (d', i) \<Rightarrow> Some (d'[len + i := NUL]))))"

text \<open>\<^verbatim>\<open>while (n--) *p++ = 0;\<close>\<close>

fun clear_loop :: "char list \<Rightarrow> nat \<Rightarrow> nat \<Rightarrow> char list" where
  "clear_loop p i 0 = p"
| "clear_loop p i (Suc n) = clear_loop (p[i := NUL]) (Suc i) n"

definition secure_clear_buffer :: "char list option \<Rightarrow> nat \<Rightarrow> char list option" where
  "secure_clear_buffer v n =
     (case v of None \<Rightarrow> None | Some p \<Rightarrow> if n = 0 then Some p else Some (clear_loop p 0 n))"

subsection \<open>Numbers\<close>

definition digit_char :: "nat \<Rightarrow> char" where
  "digit_char d = char_of (48 + d)"

text \<open>\<^verbatim>\<open>while (v > 0) { temp[i++] = (v % 10) + '0'; v /= 10; }\<close>\<close>

fun its_digits :: "nat \<Rightarrow> char list \<Rightarrow> nat \<Rightarrow> char list \<times> nat" where
  "its_digits v temp i =
     (if v > 0 then its_digits (v div 10) (temp[i := digit_char (v mod 10)]) (Suc i)
      else (temp, i))"

declare its_digits.simps [simp del]

text \<open>\<^verbatim>\<open>for (j = 0; j < i - start; j++) buf[start + j] = temp[i - 1 - j];\<close>\<close>

function its_copy :: "nat \<Rightarrow> nat \<Rightarrow> nat \<Rightarrow> char list \<Rightarrow> char list \<Rightarrow> char list" where
  "its_copy j start i temp buf =
     (if j < i - start
      then its_copy (Suc j) start i temp (buf[start + j := cget temp (i - 1 - j)])
      else buf)"
  by pat_completeness auto
termination
  by (relation "measure (\<lambda>(j, start, i, temp, buf). (i - start) - j)") auto

declare its_copy.simps [simp del]

definition int_to_str :: "int \<Rightarrow> char list \<Rightarrow> char list" where
  "int_to_str val buf =
     (if val = 0 then buf[0 := CHR ''0'', 1 := NUL]
      else (let (buf1, start) = (if val < 0 then (buf[0 := CHR ''-''], 1) else (buf, 0));
                (temp, i) = its_digits (nat \<bar>val\<bar>) (replicate 32 NUL) start;
                buf2 = its_copy 0 start i temp buf1
            in buf2[i := NUL]))"

text \<open>\<^verbatim>\<open>while (*s == ' ' || *s == '\t') s++;\<close>\<close>

fun skip_blanks :: "string \<Rightarrow> string" where
  "skip_blanks [] = []"
| "skip_blanks (c # cs) = (if c = CHR '' '' \<or> c = TAB then skip_blanks cs else c # cs)"

fun sti_loop :: "string \<Rightarrow> int \<Rightarrow> int \<Rightarrow> int" where
  "sti_loop [] sign res = wrap_int (res * sign)"
| "sti_loop (c # cs) sign res =
     (if is_digit c
      then (let res' = res * 10 + digit_val c in
            if res' > 2147483647 then (if sign = 1 then 2147483647 else - 2147483648)
            else sti_loop cs sign res')
      else wrap_int (res * sign))"

definition str_to_int :: "string option \<Rightarrow> int" where
  "str_to_int so =
     (case so of
        None \<Rightarrow> 0
      | Some s0 \<Rightarrow>
          (case skip_blanks s0 of
             [] \<Rightarrow> sti_loop [] 1 0
           | c # cs \<Rightarrow>
               if c = CHR ''-'' then sti_loop cs (-1) 0
               else if c = CHR ''+'' then sti_loop cs 1 0
               else sti_loop (c # cs) 1 0))"

fun skip_spaces :: "string \<Rightarrow> string" where
  "skip_spaces [] = []"
| "skip_spaces (c # cs) = (if c = CHR '' '' then skip_spaces cs else c # cs)"

fun stu_loop :: "string \<Rightarrow> 64 word \<Rightarrow> 64 word" where
  "stu_loop [] res = res"
| "stu_loop (c # cs) res =
     (if is_digit c then stu_loop cs (res * 10 + of_int (digit_val c)) else res)"

definition str_to_ull :: "string \<Rightarrow> 64 word" where
  "str_to_ull s = stu_loop (skip_spaces s) 0"

text \<open>\<^verbatim>\<open>is_alphanumeric\<close> of the watchdog: the session-id filter in front of \<^verbatim>\<open>loginctl\<close>.\<close>

definition is_alnum_char :: "char \<Rightarrow> bool" where
  "is_alnum_char c \<longleftrightarrow>
     (let n = (of_char c :: nat) in
        (97 \<le> n \<and> n \<le> 122) \<or> (65 \<le> n \<and> n \<le> 90) \<or> (48 \<le> n \<and> n \<le> 57))"

fun alnum_loop :: "string \<Rightarrow> bool" where
  "alnum_loop [] = True"
| "alnum_loop (c # cs) = (if c = NUL then True else if \<not> is_alnum_char c then False else alnum_loop cs)"

definition is_alphanumeric :: "string option \<Rightarrow> bool" where
  "is_alphanumeric so = (case so of None \<Rightarrow> False | Some s \<Rightarrow> cget s 0 \<noteq> NUL \<and> alnum_loop s)"

subsection \<open>String-level view\<close>

text \<open>
  What a fixed array of \<open>n\<close> bytes holds after \<open>safe_copy\<close> and a sequence of
  \<open>safe_concat\<close>: the components that only read the array as a C string use this view, which
  \<open>bounded_strings\<close> justifies.
\<close>

definition str_fit :: "nat \<Rightarrow> string \<Rightarrow> string" where
  "str_fit n s = take (n - 1) s"

text \<open>Decimal notation, the specification of \<open>int_to_str\<close>.\<close>

fun dec_nat :: "nat \<Rightarrow> string" where
  "dec_nat n = (if n < 10 then [digit_char n] else dec_nat (n div 10) @ [digit_char (n mod 10)])"

declare dec_nat.simps [simp del]

definition dec_string :: "int \<Rightarrow> string" where
  "dec_string v = (if v < 0 then CHR ''-'' # dec_nat (nat (- v)) else dec_nat (nat v))"

text \<open>The value of a digit string, and the C reading of a signed decimal prefix.\<close>

definition digits_value :: "string \<Rightarrow> int" where
  "digits_value ds = foldl (\<lambda>r c. r * 10 + digit_val c) 0 ds"

section \<open>Buffers\<close>

lemma copy_loop_spec:
  assumes "i \<le> length (c_str src)" "lim < length dst" "at + i \<le> lim"
    and "copy_loop dst src at lim i = (d', i')"
  shows "length d' = length dst \<and> i' = min (length (c_str src)) (lim - at)
    \<and> take (at + i') d' = take (at + i) dst @ drop i (take i' (c_str src))
    \<and> drop (Suc lim) d' = drop (Suc lim) dst \<and> i \<le> i'"
  using assms
proof (induction dst src at lim i arbitrary: d' i' rule: copy_loop.induct)
  case (1 dst src at lim i)
  let ?go = "cget src i \<noteq> NUL \<and> at + i < lim"
  show ?case
  proof (cases ?go)
    case True
    then have nz: "cget src i \<noteq> NUL" and lt: "at + i < lim" by auto
    from nz "1.prems"(1) have i: "i < length (c_str src)"
      using cget_nul_iff [of i src] by linarith
    let ?d = "dst[at + i := cget src i]"
    have eq: "copy_loop ?d src at lim (Suc i) = (d', i')"
      using "1.prems"(4) True by (subst (asm) copy_loop.simps) simp
    have IH: "length d' = length ?d \<and> i' = min (length (c_str src)) (lim - at)
      \<and> take (at + i') d' = take (at + Suc i) ?d @ drop (Suc i) (take i' (c_str src))
      \<and> drop (Suc lim) d' = drop (Suc lim) ?d \<and> Suc i \<le> i'"
      by (rule "1.IH" [OF True _ _ _ eq]) (use i lt "1.prems"(2) in auto)
    have t: "take (at + Suc i) ?d = take (at + i) dst @ [c_str src ! i]"
      using lt "1.prems"(2) i by (simp add: take_Suc_update cget_c_str)
    have "i < length (take i' (c_str src))" using IH i lt by auto
    then have "drop i (take i' (c_str src)) = c_str src ! i # drop (Suc i) (take i' (c_str src))"
      by (metis Cons_nth_drop_Suc IH Suc_le_eq nth_take)
    with t IH show ?thesis using lt by auto
  next
    case False
    have "copy_loop dst src at lim i = (dst, i)"
      using False by (subst copy_loop.simps) (rule if_not_P)
    then have d: "d' = dst" "i' = i" using "1.prems"(4) by simp_all
    from False "1.prems"(1,3) have "i = length (c_str src) \<or> at + i = lim"
      using cget_nul_iff [of i src] by auto
    with d "1.prems"(1,3) show ?thesis by auto
  qed
qed

lemma c_str_update_nul:
  "i < length d \<Longrightarrow> take i d = s \<Longrightarrow> NUL \<notin> set s \<Longrightarrow> c_str (d[i := NUL]) = s"
  by (simp add: upd_conv_take_nth_drop)

lemma safe_copy_result:
  assumes "0 < n" "n \<le> length d"
  obtains d' where "safe_copy (Some d) (Some s) n = Some d'" "length d' = length d"
    "c_str d' = take (n - 1) (c_str s)" "drop n d' = drop n d" "NUL \<in> set (take n d')"
proof -
  obtain e i where ei: "copy_loop d s 0 (n - 1) 0 = (e, i)" by fastforce
  have lim: "n - 1 < length d" using assms by simp
  have E: "length e = length d" "i = min (length (c_str s)) (n - 1)"
    "take i e = take i (c_str s)" "drop n e = drop n d"
    using copy_loop_spec [OF _ lim _ ei] assms by auto
  have i: "i < n" "i < length e" using E assms by auto
  have nn: "NUL \<notin> set (take i e)" using E by (simp add: take_c_str_no_nul)
  let ?d = "e[i := NUL]"
  have "c_str ?d = take i e" using i nn by (intro c_str_update_nul) auto
  also have "\<dots> = take (n - 1) (c_str s)" using E by (simp add: min_def)
  finally have c: "c_str ?d = take (n - 1) (c_str s)" .
  have "?d ! i = NUL" using i by simp
  then have "NUL \<in> set (take n ?d)" using i
    by (metis in_set_conv_nth length_list_update length_take min_less_iff_conj nth_take)
  moreover have r: "safe_copy (Some d) (Some s) n = Some ?d"
    using assms(1) ei by (simp add: safe_copy_def)
  ultimately show thesis by (intro that [OF r _ c]) (use E i in auto)
qed

lemma scan_len_eq:
  "len \<le> length (c_str d) \<Longrightarrow> len \<le> lim \<Longrightarrow> scan_len d lim len = min (length (c_str d)) lim"
proof (induction d lim len rule: scan_len.induct)
  case (1 d lim len)
  show ?case
    using "1.prems" "1.IH" cget_nul_iff [of len d] by (subst scan_len.simps) auto
qed

lemma safe_concat_result:
  assumes "0 < n" "n \<le> length d" "length (c_str d) < n"
  obtains d' where "safe_concat (Some d) (Some s) n = Some d'" "length d' = length d"
    "c_str d' = take (n - 1) (c_str d @ c_str s)" "drop n d' = drop n d"
proof -
  let ?l = "length (c_str d)"
  have sl: "scan_len d (n - 1) 0 = ?l" using assms by (simp add: scan_len_eq)
  obtain e i where ei: "copy_loop d s ?l (n - 1) 0 = (e, i)" by fastforce
  have lim: "n - 1 < length d" and l: "?l + 0 \<le> n - 1" using assms by auto
  have td: "take ?l d = c_str d" by (simp add: c_str_def takeWhile_eq_take [symmetric])
  have E: "length e = length d" "i = min (length (c_str s)) (n - 1 - ?l)"
    "take (?l + i) e = c_str d @ take i (c_str s)" "drop n e = drop n d"
    using copy_loop_spec [OF _ lim l ei] assms td by auto
  have i: "?l + i < n" "?l + i < length e" using E assms by auto
  have nn: "NUL \<notin> set (take (?l + i) e)" using E by (simp add: take_c_str_no_nul)
  let ?d = "e[?l + i := NUL]"
  have "c_str ?d = take (?l + i) e" using i nn by (intro c_str_update_nul) auto
  also have "\<dots> = take (n - 1) (c_str d @ c_str s)"
    using E assms by (simp add: min_def)
  finally have c: "c_str ?d = take (n - 1) (c_str d @ c_str s)" .
  have r: "safe_concat (Some d) (Some s) n = Some ?d"
    using assms(1) sl ei by (simp add: safe_concat_def Let_def)
  show thesis by (rule that [OF r _ c]) (use E i in auto)
qed

lemma clear_loop_eq:
  "i + n \<le> length p \<Longrightarrow> clear_loop p i n = take i p @ replicate n NUL @ drop (i + n) p"
proof (induction n arbitrary: p i)
  case 0
  then show ?case by simp
next
  case (Suc n)
  then have "clear_loop (p[i := NUL]) (Suc i) n =
      take (Suc i) (p[i := NUL]) @ replicate n NUL @ drop (Suc i + n) (p[i := NUL])"
    by simp
  also have "take (Suc i) (p[i := NUL]) = take i p @ [NUL]"
    using Suc.prems by (simp add: take_Suc_update)
  finally show ?case using Suc.prems by simp
qed

section \<open>The contract of the string builders\<close>

text \<open>
  What the path and label builders of the other components rely on: a buffer of capacity \<open>n\<close>
  holds, after one \<open>copy\<close> and any number of appends, the first \<open>n - 1\<close> characters of the
  concatenation.
\<close>

locale bounded_strings =
  fixes copy :: "'b \<Rightarrow> string \<Rightarrow> nat \<Rightarrow> 'b"
    and cat :: "'b \<Rightarrow> string \<Rightarrow> nat \<Rightarrow> 'b"
    and content :: "'b \<Rightarrow> string"
    and cap :: "'b \<Rightarrow> nat"
  assumes content_copy: "0 < n \<Longrightarrow> n \<le> cap b \<Longrightarrow> content (copy b s n) = take (n - 1) (c_str s)"
    and content_cat: "0 < n \<Longrightarrow> n \<le> cap b \<Longrightarrow> length (content b) < n \<Longrightarrow>
      content (cat b s n) = take (n - 1) (content b @ c_str s)"
    and cap_copy: "0 < n \<Longrightarrow> n \<le> cap b \<Longrightarrow> cap (copy b s n) = cap b"
    and cap_cat: "0 < n \<Longrightarrow> n \<le> cap b \<Longrightarrow> length (content b) < n \<Longrightarrow> cap (cat b s n) = cap b"
begin

lemma content_cats:
  assumes "0 < n" "n \<le> cap b" "length (content b) < n"
  shows "content (foldl (\<lambda>b s. cat b s n) b ss) = take (n - 1) (content b @ concat (map c_str ss))
    \<and> cap (foldl (\<lambda>b s. cat b s n) b ss) = cap b"
  using assms
proof (induction ss arbitrary: b)
  case Nil
  then show ?case by simp
next
  case (Cons s ss)
  let ?b = "cat b s n"
  have c: "content ?b = take (n - 1) (content b @ c_str s)" and k: "cap ?b = cap b"
    using content_cat cap_cat Cons.prems by auto
  have "length (content ?b) < n" using c Cons.prems(1) by simp
  then show ?case
    using Cons.IH [of ?b] Cons.prems c k
    by (simp add: take_take_append del: take_append)
qed

lemma content_build:
  assumes "0 < n" "n \<le> cap b"
  shows "content (foldl (\<lambda>b s. cat b s n) (copy b s0 n) ss) = str_fit n (concat (map c_str (s0 # ss)))"
proof -
  have "length (content (copy b s0 n)) < n" "n \<le> cap (copy b s0 n)"
    using assms by (simp_all add: content_copy cap_copy)
  then show ?thesis
    using content_cats [of n "copy b s0 n" ss] assms
    by (simp add: content_copy str_fit_def take_take_append del: take_append)
qed

end

definition buf_content :: "char list option \<Rightarrow> string" where
  "buf_content b = (case b of None \<Rightarrow> [] | Some d \<Rightarrow> c_str d)"

definition buf_cap :: "char list option \<Rightarrow> nat" where
  "buf_cap b = (case b of None \<Rightarrow> 0 | Some d \<Rightarrow> length d)"

lemma safe_copy_content:
  assumes "0 < n" "n \<le> buf_cap b"
  shows "buf_content (safe_copy b (Some s) n) = take (n - 1) (c_str s)
    \<and> buf_cap (safe_copy b (Some s) n) = buf_cap b"
proof (cases b)
  case None
  with assms show ?thesis by (simp add: buf_cap_def)
next
  case (Some d)
  then obtain d' where "safe_copy (Some d) (Some s) n = Some d'" "length d' = length d"
    "c_str d' = take (n - 1) (c_str s)"
    using assms safe_copy_result [of n d s] by (auto simp: buf_cap_def buf_content_def)
  then show ?thesis using Some by (simp add: buf_cap_def buf_content_def)
qed

lemma safe_concat_content:
  assumes "0 < n" "n \<le> buf_cap b" "length (buf_content b) < n"
  shows "buf_content (safe_concat b (Some s) n) = take (n - 1) (buf_content b @ c_str s)
    \<and> buf_cap (safe_concat b (Some s) n) = buf_cap b"
proof (cases b)
  case None
  with assms show ?thesis by (simp add: buf_cap_def)
next
  case (Some d)
  then obtain d' where "safe_concat (Some d) (Some s) n = Some d'" "length d' = length d"
    "c_str d' = take (n - 1) (c_str d @ c_str s)"
    using assms safe_concat_result [of n d s] by (auto simp: buf_cap_def buf_content_def)
  then show ?thesis using Some by (simp add: buf_cap_def buf_content_def)
qed

interpretation sbuf: bounded_strings
  "\<lambda>b s n. safe_copy b (Some s) n" "\<lambda>b s n. safe_concat b (Some s) n" buf_content buf_cap
  by unfold_locales (use safe_copy_content safe_concat_content in blast)+

section \<open>Decimal numbers\<close>

lemma digit_val_char [simp]: "d < 10 \<Longrightarrow> digit_val (digit_char d) = int d"
  by (simp add: digit_val_def digit_char_def of_char_of)

lemma is_digit_char [simp]: "d < 10 \<Longrightarrow> is_digit (digit_char d)"
  by (simp add: is_digit_def digit_char_def of_char_of)

lemma dec_nat_digits: "c \<in> set (dec_nat n) \<Longrightarrow> is_digit c"
  by (induction n rule: dec_nat.induct) (subst (asm) (2) dec_nat.simps, auto split: if_splits)

lemma dec_nat_nonempty [simp]: "dec_nat n \<noteq> []"
  by (subst dec_nat.simps) simp

lemma digits_value_snoc: "digits_value (ds @ [c]) = digits_value ds * 10 + digit_val c"
  by (simp add: digits_value_def)

lemma digits_value_dec_nat: "digits_value (dec_nat n) = int n"
proof (induction n rule: dec_nat.induct)
  case (1 n)
  show ?case
  proof (cases "n < 10")
    case True
    then show ?thesis by (subst dec_nat.simps) (simp add: digits_value_def)
  next
    case False
    then have "digits_value (dec_nat n) = int (n div 10) * 10 + int (n mod 10)"
      using "1.IH" by (subst dec_nat.simps) (simp add: digits_value_snoc)
    also have "\<dots> = int n" by (metis div_mult_mod_eq of_nat_add of_nat_mult of_nat_numeral)
    finally show ?thesis .
  qed
qed

lemma length_dec_nat: "n < 10 ^ k \<Longrightarrow> 0 < k \<Longrightarrow> length (dec_nat n) \<le> k"
proof (induction n arbitrary: k rule: dec_nat.induct)
  case (1 n)
  show ?case
  proof (cases "n < 10")
    case True
    with "1.prems" show ?thesis by (subst dec_nat.simps) simp
  next
    case False
    then obtain k' where k: "k = Suc k'" "0 < k'" using "1.prems"
      by (cases k; cases "k - 1") auto
    have "n div 10 < 10 ^ k'" using "1.prems"(1) k by (simp add: less_mult_imp_div_less mult.commute)
    then have "length (dec_nat (n div 10)) \<le> k'" using "1.IH" False k by simp
    then show ?thesis using False k by (subst dec_nat.simps) simp
  qed
qed

lemma rev_dec_nat: "0 < v \<Longrightarrow>
  rev (dec_nat v) = digit_char (v mod 10) # (if v div 10 = 0 then [] else rev (dec_nat (v div 10)))"
  by (subst dec_nat.simps) auto

lemma its_digits_spec:
  assumes "0 < v" "i + length (dec_nat v) \<le> length temp"
  shows "\<exists>temp'. its_digits v temp i = (temp', i + length (dec_nat v)) \<and> length temp' = length temp
    \<and> take (i + length (dec_nat v)) temp' = take i temp @ rev (dec_nat v)"
  using assms
proof (induction v temp i rule: its_digits.induct)
  case (1 v temp i)
  let ?t = "temp[i := digit_char (v mod 10)]"
  have step: "its_digits v temp i = its_digits (v div 10) ?t (Suc i)"
    using "1.prems"(1) by (subst its_digits.simps) simp
  have rv: "rev (dec_nat v) = digit_char (v mod 10) # (if v div 10 = 0 then [] else rev (dec_nat (v div 10)))"
    using "1.prems"(1) by (rule rev_dec_nat)
  from arg_cong [OF rv, of length] have len:
    "length (dec_nat v) = Suc (if v div 10 = 0 then 0 else length (dec_nat (v div 10)))" by simp
  have i: "i < length temp" using "1.prems"(2) len by simp
  show ?case
  proof (cases "v div 10 = 0")
    case True
    then have "its_digits v temp i = (?t, Suc i)" using step by (simp add: its_digits.simps)
    then show ?thesis using True rv len i by (simp add: take_Suc_update)
  next
    case False
    then have "0 < v div 10" "Suc i + length (dec_nat (v div 10)) \<le> length ?t"
      using "1.prems"(2) len by auto
    from "1.IH" [OF "1.prems"(1) this] show ?thesis
      using False rv len i step by (auto simp: take_Suc_update)
  qed
qed

lemma its_copy_spec:
  assumes "i \<le> length temp" "i \<le> length buf" "start \<le> i" "j \<le> i - start"
  shows "its_copy j start i temp buf =
    take (start + j) buf @ drop j (rev (drop start (take i temp))) @ drop i buf"
  using assms
proof (induction j start i temp buf rule: its_copy.induct)
  case (1 j start i temp buf)
  show ?case
  proof (cases "j < i - start")
    case True
    let ?r = "rev (drop start (take i temp))"
    let ?b = "buf[start + j := cget temp (i - 1 - j)]"
    have n: "?r ! j = cget temp (i - 1 - j)" and l: "j < length ?r"
      using True "1.prems" by (auto simp: rev_nth cget_def)
    have "its_copy j start i temp buf = its_copy (Suc j) start i temp ?b"
      using True by (subst its_copy.simps) simp
    also have "\<dots> = take (start + Suc j) ?b @ drop (Suc j) ?r @ drop i ?b"
      using True "1.prems" by (intro "1.IH") auto
    also have "take (start + Suc j) ?b = take (start + j) buf @ [?r ! j]"
      using True "1.prems" n by (simp add: take_Suc_update)
    finally show ?thesis using l True Cons_nth_drop_Suc [OF l, symmetric] by simp
  next
    case False
    then show ?thesis using "1.prems" by (subst its_copy.simps) simp
  qed
qed

lemma dec_string_digits: "c \<in> set (dec_string v) \<Longrightarrow> c = CHR ''-'' \<or> is_digit c"
  by (auto simp: dec_string_def dest: dec_nat_digits split: if_splits)

lemma dec_string_no_nul: "NUL \<notin> set (dec_string v)"
  using dec_string_digits [of NUL v] by (auto simp: is_digit_def)

lemma length_dec_string: "is_c_int v \<Longrightarrow> length (dec_string v) \<le> 11"
proof -
  assume "is_c_int v"
  then have "nat (- v) < 10 ^ 10" "nat v < 10 ^ 10"
    by (auto simp: is_c_int_def INT_MIN_def INT_MAX_def nat_less_iff)
  then have "length (dec_nat (nat (- v))) \<le> 10" "length (dec_nat (nat v)) \<le> 10"
    using length_dec_nat [of _ 10] by auto
  then show ?thesis by (simp add: dec_string_def)
qed

lemma int_to_str_result:
  assumes "is_c_int val" "length (dec_string val) < length buf"
  shows "int_to_str val buf = dec_string val @ NUL # drop (Suc (length (dec_string val))) buf"
proof (cases "val = 0")
  case True
  have "dec_string 0 = [CHR ''0'']" by code_simp
  then show ?thesis using True assms(2)
    by (cases buf; cases "tl buf") (auto simp: int_to_str_def)
next
  case False
  define v where "v = nat \<bar>val\<bar>"
  define start where "start = (if val < 0 then 1 else 0 :: nat)"
  define buf1 where "buf1 = (if val < 0 then buf[0 := CHR ''-''] else buf)"
  define sg where "sg = (if val < 0 then ''-'' else [])"
  let ?L = "length (dec_nat v)"
  have v0: "0 < v" using False by (simp add: v_def)
  have ds: "dec_string val = sg @ dec_nat v"
    using False by (simp add: dec_string_def v_def sg_def)
  have L: "start + ?L = length (dec_string val)" by (simp add: ds sg_def start_def)
  have "length (dec_string val) \<le> 11" using assms(1) by (rule length_dec_string)
  then have "start + ?L \<le> length (replicate 32 NUL)" using L by simp
  from its_digits_spec [OF v0 this] obtain temp where
    t: "its_digits v (replicate 32 NUL) start = (temp, start + ?L)" "length temp = 32"
    "take (start + ?L) temp = take start (replicate 32 NUL) @ rev (dec_nat v)" by auto
  have "buf \<noteq> []" "0 < ?L" using assms(2) by auto
  then have tk: "take start buf1 = sg" and lb: "length buf1 = length buf"
    and dr: "drop (start + ?L) buf1 = drop (start + ?L) buf"
    by (auto simp: buf1_def start_def sg_def neq_Nil_conv)
  have "its_copy 0 start (start + ?L) temp buf1 =
      sg @ rev (drop start (take (start + ?L) temp)) @ drop (start + ?L) buf"
    using t(2) L assms(2) lb tk dr \<open>length (dec_string val) \<le> 11\<close>
    by (subst its_copy_spec) auto
  also have "rev (drop start (take (start + ?L) temp)) = dec_nat v"
    using t(3) by (simp add: start_def)
  finally have "its_copy 0 start (start + ?L) temp buf1 = dec_string val @ drop (start + ?L) buf"
    using ds by simp
  then have "int_to_str val buf = (dec_string val @ drop (start + ?L) buf)[start + ?L := NUL]"
    using False t(1) by (simp add: int_to_str_def v_def buf1_def start_def split: if_splits)
  also have "\<dots> = dec_string val @ NUL # drop (Suc (start + ?L)) buf"
    using L assms(2) by (simp add: list_update_append Cons_nth_drop_Suc [symmetric])
  finally show ?thesis using L by simp
qed

definition c_clamp :: "int \<Rightarrow> int" where
  "c_clamp x = (if x > 2147483647 then 2147483647 else if x < - 2147483648 then - 2147483648 else x)"

lemma digit_val_range: "is_digit c \<Longrightarrow> 0 \<le> digit_val c \<and> digit_val c \<le> 9"
  by (simp add: is_digit_def digit_val_def)

lemma foldl_digits_mono:
  "\<forall>c\<in>set ds. is_digit c \<Longrightarrow> 0 \<le> r \<Longrightarrow> r \<le> foldl (\<lambda>r c. r * 10 + digit_val c) r ds"
proof (induction ds arbitrary: r)
  case Nil
  then show ?case by simp
next
  case (Cons c ds)
  then have d: "0 \<le> digit_val c" using digit_val_range by auto
  then have "r * 10 + digit_val c \<le> foldl (\<lambda>r c. r * 10 + digit_val c) (r * 10 + digit_val c) ds"
    using Cons by simp
  then show ?case using d Cons.prems(2) by (simp add: order_trans [rotated])
qed

lemma sti_loop_clamp:
  assumes "0 \<le> res" "res \<le> 2147483647" "sign = 1 \<or> sign = -1"
  shows "sti_loop s sign res =
    c_clamp (sign * foldl (\<lambda>r c. r * 10 + digit_val c) res (takeWhile is_digit s))"
  using assms
proof (induction s sign res rule: sti_loop.induct)
  case (1 sign res)
  then show ?case by (auto simp: c_clamp_def is_c_int_def INT_MIN_def INT_MAX_def)
next
  case (2 c cs sign res)
  show ?case
  proof (cases "is_digit c")
    case False
    with "2.prems" show ?thesis by (auto simp: c_clamp_def is_c_int_def INT_MIN_def INT_MAX_def)
  next
    case True
    let ?r = "res * 10 + digit_val c"
    let ?v = "foldl (\<lambda>r c. r * 10 + digit_val c) ?r (takeWhile is_digit cs)"
    have r: "0 \<le> ?r" using True digit_val_range "2.prems"(1) by simp
    have m: "?r \<le> ?v" using r by (intro foldl_digits_mono) (auto dest: set_takeWhileD)
    show ?thesis
    proof (cases "?r > 2147483647")
      case True
      then have "?v > 2147483647" using m by linarith
      then show ?thesis using True \<open>is_digit c\<close> "2.prems"(3) by (auto simp: c_clamp_def Let_def)
    next
      case False
      then have "sti_loop cs sign ?r = c_clamp (sign * ?v)"
        using "2.IH" [OF True refl] r "2.prems" by simp
      then show ?thesis using True False by (simp add: Let_def)
    qed
  qed
qed

lemma skip_blanks_append:
  "\<forall>c\<in>set bl. c = CHR '' '' \<or> c = TAB \<Longrightarrow> skip_blanks (bl @ s) = skip_blanks s"
  by (induction bl) auto

lemma digit_not_sign: "is_digit c \<Longrightarrow> c \<noteq> CHR ''-'' \<and> c \<noteq> CHR ''+'' \<and> c \<noteq> CHR '' '' \<and> c \<noteq> TAB \<and> c \<noteq> NUL"
  by (auto simp: is_digit_def)

lemma takeWhile_digits:
  "\<forall>c\<in>set ds. is_digit c \<Longrightarrow> rest = [] \<or> \<not> is_digit (hd rest) \<Longrightarrow> takeWhile is_digit (ds @ rest) = ds"
  by (cases rest) (auto simp: takeWhile_append)

lemma str_to_int_prefix:
  assumes "\<forall>c\<in>set bl. c = CHR '' '' \<or> c = TAB" "sg \<in> {'''', ''+'', ''-''}"
    and "ds \<noteq> []" "\<forall>c\<in>set ds. is_digit c" "rest = [] \<or> \<not> is_digit (hd rest)"
  shows "str_to_int (Some (bl @ sg @ ds @ rest)) =
    c_clamp ((if sg = ''-'' then -1 else 1) * digits_value ds)"
proof -
  obtain d ds' where d: "ds = d # ds'" using assms(3) by (cases ds) auto
  then have nd: "is_digit d" using assms(4) by simp
  have l: "sti_loop (ds @ rest) s 0 = c_clamp (s * digits_value ds)" if "s = 1 \<or> s = -1" for s
    using that takeWhile_digits [OF assms(4,5)] by (simp add: sti_loop_clamp digits_value_def)
  have "skip_blanks (sg @ ds @ rest) = sg @ ds @ rest"
    using assms(2) d digit_not_sign [OF nd] by auto
  then show ?thesis
    using assms(2) l [of 1] l [of "-1"] d digit_not_sign [OF nd]
    by (auto simp: str_to_int_def skip_blanks_append [OF assms(1)] simp del: sti_loop.simps)
qed

lemma c_clamp_id: "is_c_int v \<Longrightarrow> c_clamp v = v"
  by (simp add: c_clamp_def is_c_int_def INT_MIN_def INT_MAX_def)

lemma str_to_int_range: "is_c_int (str_to_int so)"
proof -
  have c: "is_c_int (c_clamp x)" for x
    by (simp add: c_clamp_def is_c_int_def INT_MIN_def INT_MAX_def)
  have "is_c_int (sti_loop s sg 0)" if "sg = 1 \<or> sg = -1" for s sg
    using that by (simp add: sti_loop_clamp c del: sti_loop.simps)
  then show ?thesis
    by (auto simp: str_to_int_def simp del: sti_loop.simps split: option.splits list.splits)
qed

lemma str_to_int_dec_string:
  assumes "is_c_int v" "rest = [] \<or> \<not> is_digit (hd rest)"
  shows "str_to_int (Some (dec_string v @ rest)) = v"
proof -
  have ds: "\<forall>c\<in>set (dec_nat n). is_digit c" for n by (auto dest: dec_nat_digits)
  show ?thesis
  proof (cases "v < 0")
    case True
    then show ?thesis
      using str_to_int_prefix [of "[]" "''-''" "dec_nat (nat (- v))" rest] assms ds
      by (simp add: dec_string_def digits_value_dec_nat c_clamp_id)
  next
    case False
    then show ?thesis
      using str_to_int_prefix [of "[]" "[]" "dec_nat (nat v)" rest] assms ds
      by (simp add: dec_string_def digits_value_dec_nat c_clamp_id)
  qed
qed

lemma stu_loop_value:
  "stu_loop s res = foldl (\<lambda>r c. r * 10 + of_int (digit_val c)) res (takeWhile is_digit s)"
  by (induction s arbitrary: res) auto

lemma foldl_digits_word:
  "foldl (\<lambda>r c. r * 10 + of_int (digit_val c)) (of_int r0 :: 64 word) ds =
   of_int (foldl (\<lambda>r c. r * 10 + digit_val c) r0 ds)"
proof (induction ds arbitrary: r0)
  case Nil
  then show ?case by simp
next
  case (Cons c ds)
  have "(of_int r0 * 10 + of_int (digit_val c) :: 64 word) = of_int (r0 * 10 + digit_val c)" by simp
  then show ?case using Cons by (simp del: of_int_add of_int_mult)
qed

lemma str_to_ull_value:
  assumes "\<forall>c\<in>set sp. c = CHR '' ''" "ds \<noteq> []" "\<forall>c\<in>set ds. is_digit c"
    and "rest = [] \<or> \<not> is_digit (hd rest)"
  shows "str_to_ull (sp @ ds @ rest) = of_int (digits_value ds)"
proof -
  have "skip_spaces (sp @ t) = skip_spaces t" for t using assms(1) by (induction sp) auto
  moreover have "skip_spaces (ds @ rest) = ds @ rest"
    using assms(2,3) digit_not_sign by (cases ds) auto
  ultimately show ?thesis
    using foldl_digits_word [of 0 ds] takeWhile_digits [OF assms(3,4)]
    by (simp add: str_to_ull_def stu_loop_value digits_value_def)
qed

lemma alnum_loop_iff: "alnum_loop s \<longleftrightarrow> (\<forall>c\<in>set (c_str s). is_alnum_char c)"
  by (induction s) (auto simp: c_str_def)

section \<open>Properties\<close>

text \<open>
  A path or label built in an array by one \<open>safe_copy\<close> and any sequence
  of \<open>safe_concat\<close> calls with the same limit \<open>n\<close> no larger than the array is a
  terminated C string that holds exactly the first \<open>n - 1\<close> characters of the concatenation.
\<close>

theorem safe_build_exact:
  assumes "0 < n" "n \<le> length d"
  shows "buf_content (foldl (\<lambda>b s. safe_concat b (Some s) n) (safe_copy (Some d) (Some s0) n) ss)
    = str_fit n (concat (map c_str (s0 # ss)))"
  using assms by (intro sbuf.content_build) (auto simp: buf_cap_def)

theorem safe_build_exact_witness:
  "buf_content (foldl (\<lambda>b s. safe_concat b (Some s) 9)
     (safe_copy (Some (replicate 32 CHR ''x'')) (Some ''/proc/'') 9) [''42'', ''/stat'']) = ''/proc/42''"
  using safe_build_exact [of 9 "replicate 32 CHR ''x''" "''/proc/''" "[''42'', ''/stat'']"]
  by (simp add: str_fit_def)

text \<open>
  For every C \<^verbatim>\<open>int\<close>, the most negative one included, \<open>int_to_str\<close>
  into a buffer of at least 12 bytes writes its decimal notation, leaves the buffer's size and
  everything past the twelfth byte alone, and \<open>str_to_int\<close> reads the value back.
\<close>

theorem int_str_roundtrip:
  assumes "is_c_int v" "12 \<le> length buf"
  shows "str_to_int (Some (c_str (int_to_str v buf))) = v
    \<and> c_str (int_to_str v buf) = dec_string v
    \<and> length (int_to_str v buf) = length buf
    \<and> drop 12 (int_to_str v buf) = drop 12 buf"
proof -
  let ?s = "dec_string v"
  have l: "length ?s \<le> 11" using assms(1) by (rule length_dec_string)
  then have r: "int_to_str v buf = ?s @ NUL # drop (Suc (length ?s)) buf"
    using assms by (intro int_to_str_result) auto
  then have c: "c_str (int_to_str v buf) = ?s" by (simp add: dec_string_no_nul)
  have "drop 12 (?s @ NUL # drop (Suc (length ?s)) buf) = drop 12 buf"
    using l by (simp add: drop_Cons')
  then show ?thesis
    using c r l assms str_to_int_dec_string [of v "[]"] by auto
qed

theorem int_str_roundtrip_witness:
  "str_to_int (Some (c_str (int_to_str (- 2147483648) (replicate 16 CHR ''#'')))) = - 2147483648"
  by (rule conjunct1 [OF int_str_roundtrip [of "- 2147483648" "replicate 16 CHR ''#''"]])
    (simp_all add: is_c_int_def INT_MIN_def INT_MAX_def)

text \<open>
  On any text with leading blanks, an optional sign and decimal digits,
  \<open>str_to_int\<close> returns the number those digits denote, clamped to the range of a C
  \<^verbatim>\<open>int\<close>: no input makes it overflow, and what follows the digits does not matter.
\<close>

theorem str_to_int_saturates:
  assumes "\<forall>c\<in>set bl. c = CHR '' '' \<or> c = TAB" "sg \<in> {'''', ''+'', ''-''}"
    and "ds \<noteq> []" "\<forall>c\<in>set ds. is_digit c" "rest = [] \<or> \<not> is_digit (hd rest)"
  shows "str_to_int (Some (bl @ sg @ ds @ rest)) =
      c_clamp ((if sg = ''-'' then -1 else 1) * digits_value ds)
    \<and> is_c_int (str_to_int (Some (bl @ sg @ ds @ rest)))"
  by (rule conjI [OF str_to_int_prefix [OF assms] str_to_int_range])

theorem str_to_int_saturates_witness:
  "str_to_int (Some '' -99999999999x'') = - 2147483648"
  using str_to_int_saturates [of "'' ''" "''-''" "''99999999999''" "''x''"]
  by (simp add: is_digit_def c_clamp_def digits_value_def digit_val_def)

end
