(* ===== verification/OS.thy ===== *)
theory OS
  imports CStrings
begin

text \<open>
  What the programs see of the operating system. The kernel, the C library's name service and the
  commands they run are not part of the repository: they are the fields of the record
  \<open>world\<close>, functions that the definitions of the other components take as an argument. A file
  is the sequence of bytes a reader gets (\<open>None\<close> when it cannot be opened), a directory the list
  of its entries in the order of \<^verbatim>\<open>readdir\<close>.

  This theory also holds the fragments that several components share: one \<^verbatim>\<open>read\<close> into a fixed
  buffer, the loop that collects a child's output, \<^verbatim>\<open>strtol\<close>, \<^verbatim>\<open>sscanf("%63s")\<close>, the fields of
  \<^verbatim>\<open>/etc/passwd\<close> lines and variables of a NUL-separated environment.
\<close>

section \<open>Processes and files\<close>

record passwd =
  pw_name :: string
  pw_uid :: int
  pw_gid :: int
  pw_dir :: string

text \<open>One outcome of \<^verbatim>\<open>read\<close> on a pipe; a list of outcomes that ends stands for end of file.\<close>

datatype read_result = RBytes string | REof | REintr | RError

text \<open>A program start: the file, its arguments, and the credentials and environment set before it.\<close>

record spawn =
  sp_file :: string
  sp_search :: bool
  sp_argv :: "string list"
  sp_cred :: "(int \<times> int \<times> string option) option"
  sp_env :: "string list option"

text \<open>
  A child's behaviour as its parent sees it: what the reads on the pipe return, and what
  \<^verbatim>\<open>waitpid\<close> finally gives, the exit status when the child exited (\<open>None\<close>: killed or an error).
\<close>

record child_result =
  ch_reads :: "read_result list"
  ch_exit :: "int option"

record world =
  w_getenv :: "string \<Rightarrow> string option"
  w_file :: "string \<Rightarrow> string option"
  w_dir :: "string \<Rightarrow> string list option"
  w_stat_uid :: "string \<Rightarrow> int option"
  w_getpwuid :: "int \<Rightarrow> passwd option"
  w_run :: "spawn \<Rightarrow> child_result option"

text \<open>
  \<^verbatim>\<open>n = read(fd, buf, size - 1); if (n > 0) { buf[n] = 0; ... }\<close>: the bytes of the buffer before
  that terminator, when there are any.
\<close>

definition read_buf :: "world \<Rightarrow> string \<Rightarrow> nat \<Rightarrow> string option" where
  "read_buf w path sz =
     (case w_file w path of
        None \<Rightarrow> None
      | Some s \<Rightarrow> (let b = take (sz - 1) s in if b = [] then None else Some b))"

text \<open>The loop over \<^verbatim>\<open>read\<close> that fills \<open>lim\<close> bytes at most; \<open>acc\<close> holds what is there.\<close>

fun capture_loop :: "read_result list \<Rightarrow> nat \<Rightarrow> string \<Rightarrow> string" where
  "capture_loop [] lim acc = acc"
| "capture_loop (r # rs) lim acc =
     (if length acc < lim
      then (case r of
              RBytes b \<Rightarrow> if b = [] then acc else capture_loop rs lim (acc @ take (lim - length acc) b)
            | REof \<Rightarrow> acc
            | REintr \<Rightarrow> capture_loop rs lim acc
            | RError \<Rightarrow> acc)
      else acc)"

text \<open>What the child wrote before the first end of file or error.\<close>

fun written :: "read_result list \<Rightarrow> string" where
  "written [] = []"
| "written (r # rs) =
     (case r of RBytes b \<Rightarrow> if b = [] then [] else b @ written rs
      | REof \<Rightarrow> [] | REintr \<Rightarrow> written rs | RError \<Rightarrow> [])"

lemma capture_loop_written: "length acc \<le> lim \<Longrightarrow> capture_loop rs lim acc = take lim (acc @ written rs)"
proof (induction rs lim acc rule: capture_loop.induct)
  case (1 lim acc)
  then show ?case by simp
next
  case (2 r rs lim acc)
  show ?case
  proof (cases "length acc < lim")
    case False
    then show ?thesis using "2.prems" by simp
  next
    case lt: True
    show ?thesis
    proof (cases r)
      case (RBytes b)
      show ?thesis
      proof (cases "b = []")
        case True
        then show ?thesis using RBytes lt by simp
      next
        case False
        let ?a = "acc @ take (lim - length acc) b"
        have "length ?a \<le> lim" using "2.prems" by simp
        then have "capture_loop rs lim ?a = take lim (?a @ written rs)"
          using "2.IH"(1) lt RBytes False by simp
        then show ?thesis using RBytes lt False "2.prems" by (auto simp: min_def)
      qed
    qed (use "2.IH" "2.prems" lt in auto)
  qed
qed

section \<open>Scanning\<close>

text \<open>
  \<^verbatim>\<open>strtol(s, NULL, 10)\<close> of the C library: white space, an optional sign, digits, clamped to the
  64-bit range.
\<close>

definition is_space :: "char \<Rightarrow> bool" where
  "is_space c \<longleftrightarrow> c = CHR '' '' \<or> (9 \<le> (of_char c :: nat) \<and> (of_char c :: nat) \<le> 13)"

definition clamp64 :: "int \<Rightarrow> int" where
  "clamp64 x = max (- 9223372036854775808) (min 9223372036854775807 x)"

definition c_strtol :: "string \<Rightarrow> int" where
  "c_strtol s0 =
     (case dropWhile is_space s0 of
        [] \<Rightarrow> 0
      | c # cs \<Rightarrow>
          if c = CHR ''-'' then clamp64 (- digits_value (takeWhile is_digit cs))
          else if c = CHR ''+'' then clamp64 (digits_value (takeWhile is_digit cs))
          else clamp64 (digits_value (takeWhile is_digit (c # cs))))"

text \<open>\<^verbatim>\<open>sscanf(line, "%63s", buf) == 1\<close>\<close>

definition scan_word :: "nat \<Rightarrow> string \<Rightarrow> string option" where
  "scan_word n line =
     (let t = take n (takeWhile (\<lambda>c. \<not> is_space c) (dropWhile is_space line))
      in if t = [] then None else Some t)"

text \<open>First entry of an environment block with a given prefix: what follows the prefix.\<close>

fun find_prefix :: "string \<Rightarrow> string list \<Rightarrow> string option" where
  "find_prefix pre [] = None"
| "find_prefix pre (e # es) =
     (if starts_with e pre then Some (drop (length pre) e) else find_prefix pre es)"

lemma find_prefix_None: "find_prefix pre es = None \<longleftrightarrow> (\<forall>e\<in>set es. \<not> starts_with e pre)"
  by (induction es) auto

lemma find_prefix_append:
  "\<forall>u\<in>set us. \<not> starts_with u pre \<Longrightarrow> find_prefix pre (us @ vs) = find_prefix pre vs"
  by (induction us) auto

lemma find_prefix_Some:
  "find_prefix pre es = Some v \<Longrightarrow>
   \<exists>us vs. es = us @ (pre @ v) # vs \<and> (\<forall>u\<in>set us. \<not> starts_with u pre)"
proof (induction es)
  case (Cons e es)
  show ?case
  proof (cases "starts_with e pre")
    case True
    then have "e = pre @ v" using Cons.prems by (metis append_take_drop_id find_prefix.simps(2) option.inject starts_with_def)
    then have "e # es = [] @ (pre @ v) # es" by simp
    then show ?thesis by (metis empty_iff empty_set)
  next
    case False
    then obtain us vs where "es = us @ (pre @ v) # vs" "\<forall>u\<in>set us. \<not> starts_with u pre"
      using Cons by auto
    then have "e # es = (e # us) @ (pre @ v) # vs \<and> (\<forall>u\<in>set (e # us). \<not> starts_with u pre)"
      using False by simp
    then show ?thesis by blast
  qed
qed simp

text \<open>
  Names of numbered directories of \<^verbatim>\<open>/proc\<close>: the programs only look at the first character.
\<close>

definition pid_name :: "string \<Rightarrow> bool" where
  "pid_name s \<longleftrightarrow> (let n = (of_char (cget s 0) :: nat) in 49 \<le> n \<and> n \<le> 57)"

end
