(* ===== verification/Watchdog.thy ===== *)
theory Watchdog
  imports OS
begin

text \<open>
  The daemon \<^verbatim>\<open>src/cad_watchdog.c\<close> up to the launch of the rescue GUI: language and keyboard
  detection, the commands it runs to find out whether the session is locked
  (\<open>is_screen_locked\<close>), the choice of the user the GUI is started for
  (\<open>detect_active_user\<close>), the key state machine of \<open>listen_for_cad\<close> and the main loop.

  Each function takes the \<open>world\<close> it looks at. \<open>is_screen_locked\<close> also returns the commands
  it ran, so that what reaches a command line can be stated.
\<close>

section \<open>Definitions\<close>

subsection \<open>Language\<close>

definition to_lower :: "char \<Rightarrow> char" where
  "to_lower c = (let n = (of_char c :: nat) in if 65 \<le> n \<and> n \<le> 90 then char_of (n + 32) else c)"

fun locale_conf_loop :: "string list \<Rightarrow> string option" where
  "locale_conf_loop [] = None"
| "locale_conf_loop (line0 # rest) =
     (let line = skip_blanks line0 in
      if starts_with line ''LANG=''
      then (let val0 = drop 5 line;
                val = (if cget val0 0 = CHR 0x22 \<or> cget val0 0 = CHR 0x27 then drop 1 val0 else val0)
            in if 2 \<le> length val then Some [to_lower (val ! 0), to_lower (val ! 1)]
               else locale_conf_loop rest)
      else locale_conf_loop rest)"

text \<open>
  A NUL byte in the file hides what follows it: \<^verbatim>\<open>strchr\<close> finds no newline behind it and the loop
  ends.
\<close>

definition detect_system_language :: "world \<Rightarrow> string" where
  "detect_system_language w =
     (case w_getenv w ''LANG'' of
        Some l \<Rightarrow>
          if 2 \<le> length l then [to_lower (l ! 0), to_lower (l ! 1)]
          else (case read_buf w ''/etc/locale.conf'' 256 of
                  None \<Rightarrow> ''en''
                | Some b \<Rightarrow> (case locale_conf_loop (c_lines (c_str b)) of None \<Rightarrow> ''en'' | Some l \<Rightarrow> l))
      | None \<Rightarrow>
          (case read_buf w ''/etc/locale.conf'' 256 of
             None \<Rightarrow> ''en''
           | Some b \<Rightarrow> (case locale_conf_loop (c_lines (c_str b)) of None \<Rightarrow> ''en'' | Some l \<Rightarrow> l)))"

subsection \<open>Keyboard\<close>

text \<open>
  Capabilities of an event device as the two \<^verbatim>\<open>EVIOCGBIT\<close> calls report them: the set bits of the
  event types and of the keys, or the failure of either call.
\<close>

record input_dev =
  dev_evbits :: "nat list option"
  dev_keybits :: "nat list option"

definition EV_KEY :: nat where "EV_KEY = 1"
definition KEY_LEFTCTRL :: nat where "KEY_LEFTCTRL = 29"
definition KEY_LEFTALT :: nat where "KEY_LEFTALT = 56"
definition KEY_RIGHTCTRL :: nat where "KEY_RIGHTCTRL = 97"
definition KEY_DELETE :: nat where "KEY_DELETE = 111"

definition is_cad_keyboard :: "input_dev \<Rightarrow> bool" where
  "is_cad_keyboard d =
     (case (dev_evbits d, dev_keybits d) of
        (Some ev, Some key) \<Rightarrow>
          EV_KEY \<in> set ev \<and> KEY_LEFTCTRL \<in> set key \<and> KEY_LEFTALT \<in> set key \<and> KEY_DELETE \<in> set key
      | _ \<Rightarrow> False)"

fun find_keyboard_loop :: "(string \<Rightarrow> input_dev option) \<Rightarrow> nat \<Rightarrow> string list \<Rightarrow> string option" where
  "find_keyboard_loop dev max_len [] = None"
| "find_keyboard_loop dev max_len (d_name # rest) =
     (if starts_with d_name ''event''
      then (let path = str_fit 512 (''/dev/input/'' @ d_name) in
            case dev path of
              Some d \<Rightarrow> if is_cad_keyboard d then Some (str_fit max_len path)
                        else find_keyboard_loop dev max_len rest
            | None \<Rightarrow> find_keyboard_loop dev max_len rest)
      else find_keyboard_loop dev max_len rest)"

definition find_keyboard :: "world \<Rightarrow> (string \<Rightarrow> input_dev option) \<Rightarrow> nat \<Rightarrow> string option" where
  "find_keyboard w dev max_len =
     (case w_dir w ''/dev/input'' of
        None \<Rightarrow> None
      | Some ents \<Rightarrow> find_keyboard_loop dev max_len ents)"

subsection \<open>Commands\<close>

text \<open>The parent's half of both functions: collect the output, wait, and accept exit status 0.\<close>

definition collect :: "child_result \<Rightarrow> nat \<Rightarrow> int \<times> string" where
  "collect ch out_len =
     (let out = capture_loop (ch_reads ch) (out_len - 1) [] in
      (if ch_exit ch = Some 0 then 0 else -1, out))"

definition run_cmd_capture ::
  "world \<Rightarrow> int \<Rightarrow> int \<Rightarrow> string option \<Rightarrow> string \<Rightarrow> string list \<Rightarrow> string option \<Rightarrow> nat \<Rightarrow> spawn \<times> (int \<times> string) option" where
  "run_cmd_capture w run_uid run_gid username path argv display out_len =
     (let cred = (if run_uid \<noteq> 0 then Some (run_uid, run_gid, username) else None);
          display_var = str_fit 128 (''DISPLAY='' @ (case display of None \<Rightarrow> '':0'' | Some d \<Rightarrow> d));
          home_var = (case w_getpwuid w run_uid of None \<Rightarrow> ''HOME=/''
                      | Some pw \<Rightarrow> str_fit 256 (''HOME='' @ pw_dir pw));
          user_var = (case w_getpwuid w run_uid of None \<Rightarrow> ''USER=nobody''
                      | Some pw \<Rightarrow> str_fit 128 (''USER='' @ pw_name pw));
          sp = \<lparr>sp_file = path, sp_search = False, sp_argv = argv, sp_cred = cred,
                sp_env = Some [display_var, home_var, user_var,
                               ''PATH=/usr/bin:/bin:/usr/sbin:/sbin:/opt/trinity/bin'']\<rparr>
      in (sp, map_option (\<lambda>ch. collect ch out_len) (w_run w sp)))"

definition run_cmd_search_capture ::
  "world \<Rightarrow> string \<Rightarrow> string list \<Rightarrow> nat \<Rightarrow> spawn \<times> (int \<times> string) option" where
  "run_cmd_search_capture w file argv out_len =
     (let sp = \<lparr>sp_file = file, sp_search = True, sp_argv = argv, sp_cred = None, sp_env = None\<rparr>
      in (sp, map_option (\<lambda>ch. collect ch out_len) (w_run w sp)))"

text \<open>The output when the function returns 0; a failed pipe or fork returns -1 like a bad exit.\<close>

definition cmd_ok :: "spawn \<times> (int \<times> string) option \<Rightarrow> string option" where
  "cmd_ok r = (case snd r of Some (rc, out) \<Rightarrow> if rc = 0 then Some (c_str out) else None | None \<Rightarrow> None)"

subsection \<open>Lock detection\<close>

definition lock_names :: "string list" where
  "lock_names = [''swaylock'', ''i3lock'', ''slock'', ''hyprlock'', ''xlock'', ''xsecurelock'', ''gtklock'',
     ''lxlock'', ''kscreenlocker_greet'', ''gnome-screensaver-dialog'', ''mate-screensaver-dialog'',
     ''xfce4-screensaver-dialog'', ''cinnamon-screensaver-dialog'', ''xscreensaver-auth'']"

text \<open>
  The process name: up to 255 bytes of \<^verbatim>\<open>comm\<close>, a final newline replaced by the terminator, read
  as a C string. \<open>None\<close> when the file cannot be opened or nothing is read.
\<close>

definition proc_comm :: "world \<Rightarrow> string \<Rightarrow> string option" where
  "proc_comm w d_name =
     (case read_buf w (str_fit 512 (''/proc/'' @ d_name @ ''/comm'')) 256 of
        None \<Rightarrow> None
      | Some b \<Rightarrow> Some (c_str (if last b = LF then butlast b else b)))"

fun locker_loop :: "world \<Rightarrow> string list \<Rightarrow> bool" where
  "locker_loop w [] = False"
| "locker_loop w (d_name # rest) =
     (if pid_name d_name
      then (case proc_comm w d_name of
              Some comm \<Rightarrow> if list_ex (contains comm) lock_names then True else locker_loop w rest
            | None \<Rightarrow> locker_loop w rest)
      else locker_loop w rest)"

fun kdesktop_loop :: "world \<Rightarrow> string list \<Rightarrow> (int \<times> int) option" where
  "kdesktop_loop w [] = None"
| "kdesktop_loop w (d_name # rest) =
     (if pid_name d_name \<and> proc_comm w d_name = Some ''kdesktop_lock''
      then Some (wrap_int (c_strtol d_name),
                 (case w_stat_uid w (str_fit 512 (''/proc/'' @ d_name)) of None \<Rightarrow> 0 | Some u \<Rightarrow> u))
      else kdesktop_loop w rest)"

definition tde_display :: "world \<Rightarrow> int \<Rightarrow> string" where
  "tde_display w tde_pid =
     (case read_buf w (str_fit 512 (''/proc/'' @ dec_string tde_pid @ ''/environ'')) 4096 of
        None \<Rightarrow> '':0''
      | Some b \<Rightarrow> (case find_prefix ''DISPLAY='' (env_entries b) of
                      None \<Rightarrow> '':0'' | Some v \<Rightarrow> str_fit 64 v))"

definition tde_locked :: "world \<Rightarrow> int \<Rightarrow> int \<Rightarrow> bool \<times> spawn list" where
  "tde_locked w tde_pid tde_uid =
     (case w_getpwuid w tde_uid of
        None \<Rightarrow> (False, [])
      | Some pw \<Rightarrow>
          (let r = run_cmd_capture w (pw_uid pw) (pw_gid pw) (Some (pw_name pw)) ''/opt/trinity/bin/dcop''
                     [''/opt/trinity/bin/dcop'', ''kdesktop'', ''KScreensaverIface'', ''isEnabled'']
                     (Some (tde_display w tde_pid)) 64
           in ((case cmd_ok r of Some out \<Rightarrow> contains out ''true'' | None \<Rightarrow> False), [fst r])))"

fun session_loop :: "world \<Rightarrow> string list \<Rightarrow> bool \<times> spawn list" where
  "session_loop w [] = (False, [])"
| "session_loop w (line # rest) =
     (case scan_word 63 line of
        Some sess_id \<Rightarrow>
          if is_alphanumeric (Some sess_id)
          then (let r = run_cmd_search_capture w ''loginctl''
                          [''loginctl'', ''show-session'', sess_id, ''-p'', ''LockedHint''] 256;
                    locked = (case cmd_ok r of Some out \<Rightarrow> contains out ''LockedHint=yes'' | None \<Rightarrow> False)
                in if locked then (True, [fst r])
                   else (case session_loop w rest of (l, cs) \<Rightarrow> (l, fst r # cs)))
          else session_loop w rest
      | None \<Rightarrow> session_loop w rest)"

text \<open>The second scan opens \<^verbatim>\<open>/proc\<close> anew; when that fails, it is left out.\<close>

definition tde_check :: "world \<Rightarrow> bool \<times> spawn list" where
  "tde_check w =
     (case w_dir w ''/proc'' of
        None \<Rightarrow> (False, [])
      | Some ents \<Rightarrow>
          (case kdesktop_loop w ents of
             Some (tde_pid, tde_uid) \<Rightarrow> if tde_uid > 0 then tde_locked w tde_pid tde_uid else (False, [])
           | None \<Rightarrow> (False, [])))"

text \<open>\<open>w\<close> is the world at the first scan, \<open>w2\<close> the one from the second scan on.\<close>

definition is_screen_locked :: "world \<Rightarrow> world \<Rightarrow> bool \<times> spawn list" where
  "is_screen_locked w w2 =
     (case w_dir w ''/proc'' of
        None \<Rightarrow> (False, [])
      | Some ents \<Rightarrow>
          if locker_loop w ents then (True, [])
          else
            (let tde = tde_check w2
             in if fst tde then tde
                else (let r = run_cmd_search_capture w2 ''loginctl''
                                [''loginctl'', ''list-sessions'', ''--no-legend''] 4096;
                          s = (case cmd_ok r of Some out \<Rightarrow> session_loop w2 (c_lines out)
                               | None \<Rightarrow> (False, []))
                      in (fst s, snd tde @ [fst r] @ snd s))))"

subsection \<open>Active user\<close>

text \<open>\<^verbatim>\<open>while (n > 0 && (name[n-1] == '\n' || name[n-1] == '\r')) name[--n] = 0;\<close>\<close>

definition strip_eol :: "string \<Rightarrow> string" where
  "strip_eol s = rev (dropWhile (\<lambda>c. c = LF \<or> c = CHR 0x0D) (rev s))"

definition active_vt_num :: "world \<Rightarrow> string" where
  "active_vt_num w =
     (case read_buf w ''/sys/class/tty/tty0/active'' 64 of
        None \<Rightarrow> []
      | Some b \<Rightarrow>
          (let active_name = c_str (strip_eol b) in
           if starts_with active_name ''tty'' then str_fit 16 (drop 3 active_name) else []))"

definition human_uid :: "int \<Rightarrow> bool" where
  "human_uid u \<longleftrightarrow> 1000 \<le> u \<and> u < 60000"

text \<open>
  Steps 2 and 3 are the same scan of \<^verbatim>\<open>/proc\<close> with another test on the entries of a process's
  environment: the user id of the first process of a human user with an entry that passes.
\<close>

fun proc_user_loop :: "world \<Rightarrow> (string \<Rightarrow> bool) \<Rightarrow> string list \<Rightarrow> int option" where
  "proc_user_loop w test [] = None"
| "proc_user_loop w test (d_name # rest) =
     (if pid_name d_name
      then (case w_stat_uid w (str_fit 512 (''/proc/'' @ d_name)) of
              Some u \<Rightarrow>
                if human_uid u
                then (case read_buf w (str_fit 512 (''/proc/'' @ d_name @ ''/environ'')) 4096 of
                        Some b \<Rightarrow> if list_ex test (env_entries b) then Some u
                                  else proc_user_loop w test rest
                      | None \<Rightarrow> proc_user_loop w test rest)
                else proc_user_loop w test rest
            | None \<Rightarrow> proc_user_loop w test rest)
      else proc_user_loop w test rest)"

definition vt_entry :: "string \<Rightarrow> string \<Rightarrow> bool" where
  "vt_entry vt_num p \<longleftrightarrow> p = str_fit 32 (''XDG_VTNR='' @ vt_num)"

definition display_entry :: "string \<Rightarrow> bool" where
  "display_entry p \<longleftrightarrow> starts_with p ''DISPLAY='' \<or> starts_with p ''WAYLAND_DISPLAY=''"

text \<open>Third field of a \<^verbatim>\<open>passwd\<close> line; a line with fewer than three colons is skipped.\<close>

definition passwd_uid_field :: "string \<Rightarrow> string option" where
  "passwd_uid_field line =
     (case cut_at CHR '':'' line of
        (_, None) \<Rightarrow> None
      | (_, Some p1) \<Rightarrow>
          (case cut_at CHR '':'' p1 of
             (_, None) \<Rightarrow> None
           | (_, Some p2) \<Rightarrow>
               (case cut_at CHR '':'' p2 of (_, None) \<Rightarrow> None | (uid_str, Some _) \<Rightarrow> Some uid_str)))"

fun passwd_user_loop :: "string list \<Rightarrow> int option" where
  "passwd_user_loop [] = None"
| "passwd_user_loop (line # rest) =
     (case passwd_uid_field line of
        None \<Rightarrow> passwd_user_loop rest
      | Some s \<Rightarrow>
          (let uid = wrap_int (c_strtol s) in
           if human_uid uid then Some uid else passwd_user_loop rest))"

definition find_active_uid :: "world \<Rightarrow> int option" where
  "find_active_uid w =
     (let vt_num = active_vt_num w;
          by_vt = (if vt_num \<noteq> []
                   then (case w_dir w ''/proc'' of None \<Rightarrow> None
                         | Some ents \<Rightarrow> proc_user_loop w (vt_entry vt_num) ents)
                   else None);
          by_display = (case by_vt of
                          Some u \<Rightarrow> Some u
                        | None \<Rightarrow> (case w_dir w ''/proc'' of None \<Rightarrow> None
                                   | Some ents \<Rightarrow> proc_user_loop w display_entry ents))
      in case by_display of
           Some u \<Rightarrow> Some u
         | None \<Rightarrow> (case read_buf w ''/etc/passwd'' 8192 of
                      None \<Rightarrow> None | Some b \<Rightarrow> passwd_user_loop (c_lines (c_str b))))"

definition detect_active_user :: "world \<Rightarrow> nat \<Rightarrow> string" where
  "detect_active_user w max_len =
     (let name = (case find_active_uid w of
                    Some u \<Rightarrow> (case w_getpwuid w u of Some pw \<Rightarrow> str_fit max_len (pw_name pw) | None \<Rightarrow> [])
                  | None \<Rightarrow> [])
      in if name = [] then str_fit max_len ''user'' else name)"

subsection \<open>Hardening\<close>

text \<open>What the system calls return; the result is which protections are in force afterwards.\<close>

record harden_env =
  he_mlockall :: bool
  he_oom_open :: bool
  he_oom_write :: int
  he_fifo :: bool
  he_setpriority :: bool

record protection =
  pr_locked :: bool
  pr_oom_immune :: bool
  pr_realtime :: bool
  pr_nice20 :: bool

definition harden_daemon :: "harden_env \<Rightarrow> protection" where
  "harden_daemon e =
     \<lparr>pr_locked = he_mlockall e,
      pr_oom_immune = (he_oom_open e \<and> he_oom_write e > 0),
      pr_realtime = he_fifo e,
      pr_nice20 = (\<not> he_fifo e \<and> he_setpriority e)\<rparr>"

subsection \<open>The key state machine\<close>

record input_event =
  ev_type :: nat
  ev_code :: nat
  ev_value :: int

record key_state =
  ctrl_pressed :: bool
  alt_pressed :: bool
  del_pressed :: bool

definition no_keys :: key_state where
  "no_keys = \<lparr>ctrl_pressed = False, alt_pressed = False, del_pressed = False\<rparr>"

definition key_update :: "input_event \<Rightarrow> key_state \<Rightarrow> key_state" where
  "key_update ev ks =
     (let is_pressed = (ev_value ev = 1 \<or> ev_value ev = 2) in
      if ev_code ev = KEY_LEFTCTRL \<or> ev_code ev = KEY_RIGHTCTRL then ks\<lparr>ctrl_pressed := is_pressed\<rparr>
      else if ev_code ev = KEY_LEFTALT then ks\<lparr>alt_pressed := is_pressed\<rparr>
      else if ev_code ev = KEY_DELETE then ks\<lparr>del_pressed := is_pressed\<rparr>
      else ks)"

text \<open>
  What the child does before and with \<^verbatim>\<open>exec\<close>: its two environment variables and the files it
  tries to execute, in order.
\<close>

datatype exec_target = ExecPath string | ExecFd int

record launch =
  la_lang :: string
  la_user :: string
  la_execs :: "exec_target list"

definition launch_gui :: "world \<Rightarrow> string \<Rightarrow> string \<Rightarrow> int \<Rightarrow> launch" where
  "launch_gui w detected_lang fallback_path gui_fd =
     \<lparr>la_lang = str_fit 32 (''CAD_LANG='' @ detected_lang),
      la_user = str_fit 128 (''CAD_USER='' @ detect_active_user w 64),
      la_execs = (if fallback_path \<noteq> [] then [ExecPath fallback_path]
                  else [ExecFd gui_fd, ExecPath (str_fit 64 (''/proc/self/fd/'' @ dec_string gui_fd))])\<rparr>"

text \<open>
  One turn of the listening loop gets the value of \<^verbatim>\<open>terminate_requested\<close> at the loop test, the
  outcomes of the reads that fill \<^verbatim>\<open>struct input_event\<close>, the event they make up, the value of \<^verbatim>\<open>terminate_requested\<close>
  at the return when they fail, the world at the first scan of the lock test and from the second on, and the result of \<^verbatim>\<open>fork\<close>.
\<close>

datatype ev_read = EvBytes nat | EvEof | EvEintr bool | EvError

record listen_turn =
  lt_terminate :: bool
  lt_reads :: "ev_read list"
  lt_event :: input_event
  lt_stop :: bool
  lt_world :: world
  lt_later :: world
  lt_fork :: int

text \<open>
  \<^verbatim>\<open>while (bytes_read < sizeof(ev))\<close>: the event is complete, the device is lost, or a read was
  interrupted after \<^verbatim>\<open>terminate_requested\<close> was set (\<open>EvEintr True\<close>). A list that ends is a lost
  device.
\<close>

definition sizeof_input_event :: nat where "sizeof_input_event = 24"

datatype ev_done = EvComplete | EvLost | EvTerminated

fun read_event :: "nat \<Rightarrow> ev_read list \<Rightarrow> ev_done" where
  "read_event bytes_read rs =
     (if bytes_read < sizeof_input_event
      then (case rs of
              [] \<Rightarrow> EvLost
            | EvBytes n # rest \<Rightarrow> if n = 0 then EvLost else read_event (bytes_read + n) rest
            | EvEof # rest \<Rightarrow> EvLost
            | EvEintr t # rest \<Rightarrow> if t then EvTerminated else read_event bytes_read rest
            | EvError # rest \<Rightarrow> EvLost)
      else EvComplete)"

declare read_event.simps [simp del]

datatype cad_action = CadRefused | CadLaunched launch | CadForkFailed

definition cad_react :: "string \<Rightarrow> string \<Rightarrow> int \<Rightarrow> listen_turn \<Rightarrow> cad_action" where
  "cad_react detected_lang fallback_path gui_fd t =
     (if fst (is_screen_locked (lt_world t) (lt_later t)) then CadRefused
      else if lt_fork t < 0 then CadForkFailed
      else CadLaunched (launch_gui (lt_later t) detected_lang fallback_path gui_fd))"

definition cad_complete :: "key_state \<Rightarrow> bool" where
  "cad_complete ks \<longleftrightarrow> ctrl_pressed ks \<and> alt_pressed ks \<and> del_pressed ks"

text \<open>The handling of one complete event: the new key state, and what was done about it.\<close>

definition listen_event ::
  "string \<Rightarrow> string \<Rightarrow> int \<Rightarrow> listen_turn \<Rightarrow> key_state \<Rightarrow> key_state \<times> cad_action option" where
  "listen_event detected_lang fallback_path gui_fd t ks =
     (if ev_type (lt_event t) = EV_KEY
      then (let ks1 = key_update (lt_event t) ks in
            if cad_complete ks1
            then (no_keys, Some (cad_react detected_lang fallback_path gui_fd t))
            else (ks1, None))
      else (ks, None))"

fun listen_loop ::
  "string \<Rightarrow> string \<Rightarrow> int \<Rightarrow> listen_turn list \<Rightarrow> key_state \<Rightarrow> (nat \<times> cad_action) list \<Rightarrow> nat \<Rightarrow> int \<times> (nat \<times> cad_action) list" where
  "listen_loop lang fb fd [] ks log i = (-1, log)"
| "listen_loop lang fb fd (t # ts) ks log i =
     (if lt_terminate t then (0, log)
      else (case read_event 0 (lt_reads t) of
              EvTerminated \<Rightarrow> (0, log)
            | EvLost \<Rightarrow> (if lt_stop t then 0 else -1, log)
            | EvComplete \<Rightarrow>
                (case listen_event lang fb fd t ks of
                   (ks', None) \<Rightarrow> listen_loop lang fb fd ts ks' log (Suc i)
                 | (ks', Some a) \<Rightarrow> listen_loop lang fb fd ts ks' (log @ [(i, a)]) (Suc i))))"

definition listen_for_cad ::
  "bool \<Rightarrow> string \<Rightarrow> string \<Rightarrow> int \<Rightarrow> listen_turn list \<Rightarrow> int \<times> (nat \<times> cad_action) list" where
  "listen_for_cad open_ok lang fb fd ts =
     (if \<not> open_ok then (-1, []) else listen_loop lang fb fd ts no_keys [] 0)"

subsection \<open>Main loop\<close>

text \<open>
  One turn of \<^verbatim>\<open>main\<close>'s loop: \<^verbatim>\<open>terminate_requested\<close> at the test, the world and devices that
  \<open>find_keyboard\<close> sees, whether the device opens, and the turns of the listening loop. The
  result collects the paths that were listened on with what happened there.
\<close>

record main_turn =
  mt_terminate :: bool
  mt_world :: world
  mt_dev :: "string \<Rightarrow> input_dev option"
  mt_open :: bool
  mt_turns :: "listen_turn list"
  mt_terminate_after :: bool

fun main_loop ::
  "string option \<Rightarrow> string \<Rightarrow> string \<Rightarrow> int \<Rightarrow> main_turn list \<Rightarrow> (string \<times> (nat \<times> cad_action) list) list" where
  "main_loop forced lang fb fd [] = []"
| "main_loop forced lang fb fd (m # ms) =
     (if mt_terminate m then []
      else
        (case (case forced of Some p \<Rightarrow> Some p | None \<Rightarrow> find_keyboard (mt_world m) (mt_dev m) 256) of
           None \<Rightarrow> main_loop forced lang fb fd ms
         | Some kbd_path \<Rightarrow>
             (case listen_for_cad (mt_open m) lang fb fd (mt_turns m) of
                (result, log) \<Rightarrow>
                  if result < 0 \<and> mt_terminate_after m then [(kbd_path, log)]
                  else (kbd_path, log) # main_loop forced lang fb fd ms)))"

text \<open>\<^verbatim>\<open>main\<close> after the preparation of the GUI image, which gives \<open>gui_fd\<close> and \<open>fallback_path\<close>.\<close>

definition watchdog_main ::
  "string list \<Rightarrow> world \<Rightarrow> int \<Rightarrow> string \<Rightarrow> main_turn list \<Rightarrow> int \<times> (string \<times> (nat \<times> cad_action) list) list" where
  "watchdog_main args w gui_fd fallback_path ms =
     (let lang = detect_system_language w;
          forced = (case args of _ # a # _ \<Rightarrow> Some (str_fit 256 a) | _ \<Rightarrow> None)
      in if gui_fd < 0 then (1, [])
         else (0, main_loop forced lang fallback_path gui_fd ms))"

text \<open>The exit handler removes the fallback file when there is one.\<close>

definition cleanup_on_exit :: "string \<Rightarrow> string list" where
  "cleanup_on_exit fallback_path = (if fallback_path \<noteq> [] then [fallback_path] else [])"

section \<open>Commands\<close>

lemma collect_result:
  "0 < out_len \<Longrightarrow> collect ch out_len =
     (if ch_exit ch = Some 0 then 0 else -1, take (out_len - 1) (written (ch_reads ch)))"
  by (simp add: collect_def capture_loop_written)

lemma cmd_ok_search:
  assumes "0 < n"
  shows "cmd_ok (run_cmd_search_capture w file argv n) = Some out \<longleftrightarrow>
    (\<exists>ch. w_run w (fst (run_cmd_search_capture w file argv n)) = Some ch \<and> ch_exit ch = Some 0
       \<and> out = c_str (take (n - 1) (written (ch_reads ch))))"
  using assms
  by (cases "w_run w (fst (run_cmd_search_capture w file argv n))")
    (auto simp: cmd_ok_def run_cmd_search_capture_def Let_def collect_result)

section \<open>Lock detection\<close>

definition locker_running :: "world \<Rightarrow> string \<Rightarrow> bool" where
  "locker_running w d \<longleftrightarrow>
     pid_name d \<and> (\<exists>c n. proc_comm w d = Some c \<and> n \<in> set lock_names \<and> contains c n)"

lemma locker_loop_iff: "locker_loop w ents \<longleftrightarrow> (\<exists>d\<in>set ents. locker_running w d)"
  by (induction ents) (auto simp: locker_running_def list_ex_iff split: option.splits)

definition show_session :: "world \<Rightarrow> string \<Rightarrow> spawn \<times> (int \<times> string) option" where
  "show_session w sid = run_cmd_search_capture w ''loginctl''
     [''loginctl'', ''show-session'', sid, ''-p'', ''LockedHint''] 256"

definition session_locked :: "world \<Rightarrow> string \<Rightarrow> bool" where
  "session_locked w line \<longleftrightarrow>
     (\<exists>sid out. scan_word 63 line = Some sid \<and> is_alphanumeric (Some sid)
        \<and> cmd_ok (show_session w sid) = Some out \<and> contains out ''LockedHint=yes'')"

lemma session_loop_iff: "fst (session_loop w ls) \<longleftrightarrow> (\<exists>l\<in>set ls. session_locked w l)"
  by (induction ls)
    (auto simp: session_locked_def show_session_def Let_def split: option.splits prod.splits)

definition safe_session_id :: "string \<Rightarrow> bool" where
  "safe_session_id s \<longleftrightarrow> s \<noteq> [] \<and> length s \<le> 63 \<and> (\<forall>c\<in>set s. is_alnum_char c)"

definition lock_command :: "spawn \<Rightarrow> bool" where
  "lock_command sp \<longleftrightarrow>
     (sp_search sp \<and> sp_file sp = ''loginctl'' \<and>
       (sp_argv sp = [''loginctl'', ''list-sessions'', ''--no-legend'']
        \<or> (\<exists>sid. safe_session_id sid \<and>
             sp_argv sp = [''loginctl'', ''show-session'', sid, ''-p'', ''LockedHint''])))
     \<or> (\<not> sp_search sp \<and> sp_file sp = ''/opt/trinity/bin/dcop''
        \<and> sp_argv sp = [''/opt/trinity/bin/dcop'', ''kdesktop'', ''KScreensaverIface'', ''isEnabled''])"

lemma scan_word_safe:
  assumes "scan_word 63 line = Some sid" "is_alphanumeric (Some sid)" "NUL \<notin> set line"
  shows "safe_session_id sid"
proof -
  let ?t = "take 63 (takeWhile (\<lambda>c. \<not> is_space c) (dropWhile is_space line))"
  have s: "sid = ?t" "sid \<noteq> []" using assms(1) by (auto simp: scan_word_def Let_def split: if_splits)
  have "set sid \<subseteq> set line" unfolding s(1)
    by (auto dest!: in_set_takeD set_takeWhileD set_dropWhileD)
  then have "c_str sid = sid" using assms(3) by (intro c_str_id) auto
  then have "\<forall>c\<in>set sid. is_alnum_char c"
    using assms(2) by (simp add: is_alphanumeric_def alnum_loop_iff)
  then show ?thesis using s by (simp add: safe_session_id_def)
qed

lemma session_loop_commands:
  "\<forall>l\<in>set ls. NUL \<notin> set l \<Longrightarrow> sp \<in> set (snd (session_loop w ls)) \<Longrightarrow> lock_command sp"
proof (induction ls)
  case Nil
  then show ?case by simp
next
  case (Cons line ls)
  show ?case
  proof (cases "sp \<in> set (snd (session_loop w ls))")
    case True
    then show ?thesis using Cons by simp
  next
    case False
    then obtain sid where "scan_word 63 line = Some sid" "is_alphanumeric (Some sid)"
      "sp = fst (show_session w sid)"
      using Cons.prems(2)
      by (auto simp: show_session_def Let_def split: option.splits if_splits prod.splits)
    then show ?thesis
      using scan_word_safe Cons.prems(1)
      by (auto simp: lock_command_def show_session_def run_cmd_search_capture_def Let_def)
  qed
qed

lemma c_lines_subset: "l \<in> set (c_lines s) \<Longrightarrow> set l \<subseteq> set s"
proof (induction s rule: c_lines.induct)
  case (1 s)
  show ?case
  proof (cases "s = []")
    case True
    then show ?thesis using "1.prems" by simp
  next
    case False
    then show ?thesis
    proof (cases rule: cut_at_cases [of LF s])
      case 1
      then show ?thesis using "1.prems" False by (simp add: c_lines.simps [of s])
    next
      case (2 a b)
      then have "l = a \<or> l \<in> set (c_lines b)" using "1.prems" c_lines_line [of a b] by simp
      moreover have "l \<in> set (c_lines b) \<Longrightarrow> set l \<subseteq> set b"
        using "1.IH" [OF False 2(3) [symmetric] refl] by simp
      ultimately show ?thesis using 2(1) by auto
    qed
  qed
qed

lemma is_screen_locked_unfold:
  assumes "w_dir w ''/proc'' = Some ents"
  shows "is_screen_locked w w2 =
    (if locker_loop w ents then (True, [])
     else if fst (tde_check w2) then tde_check w2
     else (let r = run_cmd_search_capture w2 ''loginctl''
                     [''loginctl'', ''list-sessions'', ''--no-legend''] 4096;
               s = (case cmd_ok r of Some out \<Rightarrow> session_loop w2 (c_lines out) | None \<Rightarrow> (False, []))
           in (fst s, snd (tde_check w2) @ [fst r] @ snd s)))"
  using assms by (simp add: is_screen_locked_def Let_def)

lemma tde_check_commands: "sp \<in> set (snd (tde_check w)) \<Longrightarrow> lock_command sp"
  by (auto simp: tde_check_def tde_locked_def run_cmd_capture_def lock_command_def Let_def
      split: option.splits if_splits)

section \<open>Keys held down\<close>

text \<open>
  The specification of a key: it is down after a sequence of events when its latest event is a press or a repeat. The
  combination is held when one of the two control keys is down, and the left alt key and the delete key.
\<close>

definition is_down :: "nat \<Rightarrow> input_event list \<Rightarrow> bool" where
  "is_down code h =
     (let es = filter (\<lambda>e. ev_type e = EV_KEY \<and> ev_code e = code) h
      in es \<noteq> [] \<and> (ev_value (last es) = 1 \<or> ev_value (last es) = 2))"

definition cad_held :: "input_event list \<Rightarrow> bool" where
  "cad_held h \<longleftrightarrow> (is_down KEY_LEFTCTRL h \<or> is_down KEY_RIGHTCTRL h) \<and> is_down KEY_LEFTALT h \<and> is_down KEY_DELETE h"

text \<open>Positions of the key events at which the combination is held; the history starts anew after each.\<close>

fun cad_positions :: "input_event list \<Rightarrow> nat \<Rightarrow> input_event list \<Rightarrow> nat list" where
  "cad_positions h i [] = []"
| "cad_positions h i (e # es) =
     (if ev_type e = EV_KEY \<and> cad_held (h @ [e]) then i # cad_positions [] (Suc i) es
      else cad_positions (h @ [e]) (Suc i) es)"

text \<open>The events touch only one of the two control keys.\<close>

definition key_codes :: "input_event list \<Rightarrow> nat list" where
  "key_codes es = map ev_code (filter (\<lambda>e. ev_type e = EV_KEY) es)"

definition one_ctrl :: "input_event list \<Rightarrow> bool" where
  "one_ctrl es \<longleftrightarrow> KEY_LEFTCTRL \<notin> set (key_codes es) \<or> KEY_RIGHTCTRL \<notin> set (key_codes es)"

lemmas key_code_defs = KEY_LEFTCTRL_def KEY_RIGHTCTRL_def KEY_LEFTALT_def KEY_DELETE_def

lemma is_down_snoc:
  "is_down code (h @ [e]) \<longleftrightarrow>
     (if ev_type e = EV_KEY \<and> ev_code e = code then ev_value e = 1 \<or> ev_value e = 2 else is_down code h)"
  by (simp add: is_down_def Let_def)

lemma is_down_append: "is_down code h \<Longrightarrow> is_down code (g @ h)"
  by (auto simp: is_down_def Let_def)

lemma is_down_Nil [simp]: "\<not> is_down code []"
  by (simp add: is_down_def)

text \<open>
  A flag that is set has its key down, for one of the two control keys. With one control key in use the flags are exactly the
  keys.
\<close>

definition flags_sound :: "key_state \<Rightarrow> input_event list \<Rightarrow> bool" where
  "flags_sound ks h \<longleftrightarrow>
     (ctrl_pressed ks \<longrightarrow> is_down KEY_LEFTCTRL h \<or> is_down KEY_RIGHTCTRL h) \<and>
     (alt_pressed ks \<longrightarrow> is_down KEY_LEFTALT h) \<and> (del_pressed ks \<longrightarrow> is_down KEY_DELETE h)"

definition flags_exact :: "key_state \<Rightarrow> input_event list \<Rightarrow> bool" where
  "flags_exact ks h \<longleftrightarrow>
     (ctrl_pressed ks \<longleftrightarrow> is_down KEY_LEFTCTRL h \<or> is_down KEY_RIGHTCTRL h) \<and>
     (alt_pressed ks \<longleftrightarrow> is_down KEY_LEFTALT h) \<and> (del_pressed ks \<longleftrightarrow> is_down KEY_DELETE h)"

lemma flags_sound_step:
  assumes "flags_sound ks h"
  shows "flags_sound (if ev_type e = EV_KEY then key_update e ks else ks) (h @ [e])"
  using assms by (auto simp: flags_sound_def key_update_def is_down_snoc Let_def key_code_defs)

lemma one_ctrl_subset: "one_ctrl es \<Longrightarrow> set ds \<subseteq> set es \<Longrightarrow> one_ctrl ds"
  by (auto simp: one_ctrl_def key_codes_def)

lemma is_down_code: "is_down c h \<Longrightarrow> c \<in> set (key_codes h)"
  by (auto simp: is_down_def key_codes_def Let_def filter_empty_conv)

lemma one_ctrl_down:
  assumes "one_ctrl (h @ [e])" "ev_type e = EV_KEY"
  shows "ev_code e = KEY_LEFTCTRL \<Longrightarrow> \<not> is_down KEY_RIGHTCTRL h" "ev_code e = KEY_RIGHTCTRL \<Longrightarrow> \<not> is_down KEY_LEFTCTRL h"
  using assms is_down_code [of _ h] by (auto simp: one_ctrl_def key_codes_def)

lemma flags_exact_step:
  assumes "flags_exact ks h" "one_ctrl (h @ [e])"
  shows "flags_exact (if ev_type e = EV_KEY then key_update e ks else ks) (h @ [e])"
  using assms(1) one_ctrl_down [OF assms(2)]
  by (auto simp: flags_exact_def key_update_def is_down_snoc Let_def key_code_defs)

lemma flags_start: "flags_sound no_keys h" "flags_exact no_keys []"
  by (simp_all add: flags_sound_def flags_exact_def no_keys_def)

lemma cad_complete_sound: "flags_sound ks h \<Longrightarrow> cad_complete ks \<Longrightarrow> cad_held h"
  by (auto simp: cad_complete_def cad_held_def flags_sound_def)

lemma cad_complete_exact: "flags_exact ks h \<Longrightarrow> cad_complete ks \<longleftrightarrow> cad_held h"
  by (auto simp: cad_complete_def cad_held_def flags_exact_def)

lemma cad_positions_ge: "k \<in> set (cad_positions h i es) \<Longrightarrow> i \<le> k"
proof (induction h i es rule: cad_positions.induct)
  case (2 h i e es)
  then show ?case by (cases "ev_type e = EV_KEY \<and> cad_held (h @ [e])") (auto dest: Suc_leD)
qed simp

definition live_turn :: "listen_turn \<Rightarrow> bool" where
  "live_turn t \<longleftrightarrow> \<not> lt_terminate t \<and> read_event 0 (lt_reads t) = EvComplete"

text \<open>What a reaction means: a turn of the loop whose event arrived, with the combination held.\<close>

definition reaction :: "string \<Rightarrow> string \<Rightarrow> int \<Rightarrow> listen_turn list \<Rightarrow> nat \<Rightarrow> cad_action \<Rightarrow> bool" where
  "reaction lang fb fd ts k a \<longleftrightarrow>
     k < length ts \<and> live_turn (ts ! k) \<and> ev_type (lt_event (ts ! k)) = EV_KEY
     \<and> cad_held (map lt_event (take (Suc k) ts)) \<and> a = cad_react lang fb fd (ts ! k)"

lemma listen_loop_sound:
  assumes "flags_sound ks (map lt_event pre)" "(k, a) \<in> set (snd (listen_loop lang fb fd ts ks log (length pre)))" "(k, a) \<notin> set log"
  shows "reaction lang fb fd (pre @ ts) k a"
  using assms
proof (induction ts arbitrary: pre ks log)
  case (Cons t ts)
  let ?ks = "if ev_type (lt_event t) = EV_KEY then key_update (lt_event t) ks else ks"
  let ?react = "ev_type (lt_event t) = EV_KEY \<and> cad_complete ?ks"
  let ?log = "if ?react then log @ [(length pre, cad_react lang fb fd t)] else log"
  have live: "live_turn t" using Cons.prems(2,3) by (auto simp: live_turn_def split: if_splits ev_done.splits)
  then have step: "listen_loop lang fb fd (t # ts) ks log (length pre)
      = listen_loop lang fb fd ts (if ?react then no_keys else ?ks) ?log (length (pre @ [t]))"
    by (auto simp: live_turn_def listen_event_def Let_def)
  have s: "flags_sound ?ks (map lt_event (pre @ [t]))" using flags_sound_step [OF Cons.prems(1)] by simp
  then have s': "flags_sound (if ?react then no_keys else ?ks) (map lt_event (pre @ [t]))" by (simp add: flags_start)
  show ?case
  proof (cases "(k, a) \<in> set ?log")
    case True
    then have "?react" "k = length pre" "a = cad_react lang fb fd t" using Cons.prems(3) by (auto split: if_splits)
    then show ?thesis using live cad_complete_sound [OF s] by (auto simp: reaction_def)
  next
    case False
    then show ?thesis using Cons.IH [OF s'] Cons.prems(2) step by simp
  qed
qed simp

lemma listen_loop_refines:
  assumes "\<forall>t\<in>set ts. live_turn t" "flags_exact ks h" "one_ctrl (h @ map lt_event ts)"
  shows "snd (listen_loop lang fb fd ts ks log i) =
    log @ map (\<lambda>k. (k, cad_react lang fb fd (ts ! (k - i)))) (cad_positions h i (map lt_event ts))"
  using assms
proof (induction ts arbitrary: h ks log i)
  case (Cons t ts)
  let ?e = "lt_event t"
  let ?ks = "if ev_type ?e = EV_KEY then key_update ?e ks else ks"
  have t: "\<not> lt_terminate t" "read_event 0 (lt_reads t) = EvComplete" and ts: "\<forall>t\<in>set ts. live_turn t"
    using Cons.prems by (auto simp: live_turn_def)
  have c: "one_ctrl (h @ [?e])" "one_ctrl ((h @ [?e]) @ map lt_event ts)" "one_ctrl ([] @ map lt_event ts)"
    by (rule one_ctrl_subset [OF Cons.prems(3)], auto)+
  have x: "flags_exact ?ks (h @ [?e])" using flags_exact_step [OF Cons.prems(2) c(1)] .
  have shift: "map (\<lambda>k. (k, cad_react lang fb fd (ts ! (k - Suc i)))) (cad_positions h' (Suc i) es)
      = map (\<lambda>k. (k, cad_react lang fb fd ((t # ts) ! (k - i)))) (cad_positions h' (Suc i) es)" for h' es
    by (intro map_cong refl) (auto dest: cad_positions_ge simp: nth_Cons')
  show ?case
  proof (cases "ev_type ?e = EV_KEY \<and> cad_held (h @ [?e])")
    case True
    then have "listen_event lang fb fd t ks = (no_keys, Some (cad_react lang fb fd t))"
      using cad_complete_exact [OF x] by (simp add: listen_event_def Let_def)
    then show ?thesis
      using True t Cons.IH [OF ts flags_start(2) c(3), of "log @ [(i, cad_react lang fb fd t)]" "Suc i"] shift by simp
  next
    case False
    then have "listen_event lang fb fd t ks = (?ks, None)"
      using cad_complete_exact [OF x] by (auto simp: listen_event_def Let_def)
    then show ?thesis
      using False t Cons.IH [OF ts x c(2), of log "Suc i"] shift by auto
  qed
qed simp

section \<open>Active user\<close>

lemma proc_user_loop_human: "proc_user_loop w test ents = Some u \<Longrightarrow> human_uid u"
  by (induction w test ents rule: proc_user_loop.induct) (auto split: if_splits option.splits)

lemma passwd_user_loop_human: "passwd_user_loop ls = Some u \<Longrightarrow> human_uid u"
  by (induction ls) (auto simp: Let_def split: if_splits option.splits)

lemma find_active_uid_human: "find_active_uid w = Some u \<Longrightarrow> human_uid u"
  by (auto simp: find_active_uid_def Let_def split: if_splits option.splits
      dest: proc_user_loop_human passwd_user_loop_human)

section \<open>Properties\<close>

text \<open>
  C26 (capture_exact). The output a command function hands to its caller is exactly the first
  \<^verbatim>\<open>out_len - 1\<close> bytes the child wrote, however the pipe splits them and however often the reads are
  interrupted; it returns 0 exactly when the child exits with status 0.
\<close>

theorem capture_exact:
  assumes "0 < out_len" "w_run w (fst (run_cmd_search_capture w file argv out_len)) = Some ch"
  shows "snd (run_cmd_search_capture w file argv out_len) =
    Some (if ch_exit ch = Some 0 then 0 else -1, take (out_len - 1) (written (ch_reads ch)))"
  using assms by (simp add: run_cmd_search_capture_def Let_def collect_result)

definition quiet_world :: world where
  "quiet_world =
     \<lparr>w_getenv = (\<lambda>_. None), w_file = (\<lambda>_. None), w_dir = (\<lambda>_. Some []), w_stat_uid = (\<lambda>_. None),
      w_getpwuid = (\<lambda>_. None),
      w_run = (\<lambda>_. Some \<lparr>ch_reads = [RBytes ''c1 1'', REintr, RBytes ''000 joe'', REof], ch_exit = Some 0\<rparr>)\<rparr>"

theorem capture_exact_witness:
  "snd (run_cmd_search_capture quiet_world ''loginctl'' [''loginctl''] 8) = Some (0, ''c1 1000'')"
  using capture_exact [of 8 quiet_world "''loginctl''" "[''loginctl'']"
      "\<lparr>ch_reads = [RBytes ''c1 1'', REintr, RBytes ''000 joe'', REof], ch_exit = Some 0\<rparr>"]
  by (simp add: quiet_world_def)

text \<open>
  C25 (lock_commands_safe). Every command that the lock test runs is one of three fixed command
  lines, and the only part that comes from outside, the session id, is a non-empty string of at
  most 63 letters and digits.
\<close>

theorem lock_commands_safe: "set (snd (is_screen_locked w w2)) \<subseteq> Collect lock_command"
proof (cases "w_dir w ''/proc''")
  case None
  then show ?thesis by (simp add: is_screen_locked_def)
next
  case (Some ents)
  let ?r = "run_cmd_search_capture w2 ''loginctl'' [''loginctl'', ''list-sessions'', ''--no-legend''] 4096"
  have r: "lock_command (fst ?r)" by (simp add: lock_command_def run_cmd_search_capture_def Let_def)
  have "lock_command sp" if "cmd_ok ?r = Some out" "sp \<in> set (snd (session_loop w2 (c_lines out)))" for out sp
  proof (rule session_loop_commands [OF _ that(2)])
    have "NUL \<notin> set out" using that(1) by (auto simp: cmd_ok_def split: option.splits if_splits)
    then show "\<forall>l\<in>set (c_lines out). NUL \<notin> set l" using c_lines_subset by blast
  qed
  then show ?thesis
    using r by (auto simp: is_screen_locked_unfold [OF Some] Let_def dest: tde_check_commands
        split: if_splits option.splits)
qed


definition key_turn :: "nat \<Rightarrow> int \<Rightarrow> listen_turn" where
  "key_turn code v = \<lparr>lt_terminate = False, lt_reads = [EvEintr False, EvBytes 24],
     lt_event = \<lparr>ev_type = 1, ev_code = code, ev_value = v\<rparr>, lt_stop = False, lt_world = quiet_world, lt_later = quiet_world,
     lt_fork = 77\<rparr>"


text \<open>
  With both control keys the loop can miss the combination: releasing one of them clears the flag the other one set.
\<close>

lemma ctrl_keys_share_flag:
  "cad_held (map lt_event [key_turn 29 1, key_turn 97 1, key_turn 97 0, key_turn 56 1, key_turn 111 1])"
  "snd (listen_for_cad True ''en'' [] 5 [key_turn 29 1, key_turn 97 1, key_turn 97 0, key_turn 56 1, key_turn 111 1]) = []"
  by (simp_all add: listen_for_cad_def key_turn_def read_event.simps sizeof_input_event_def listen_event_def no_keys_def key_update_def
      cad_complete_def cad_held_def is_down_def EV_KEY_def key_code_defs)

section \<open>Launches of the daemon\<close>

lemma listen_log:
  assumes "(k, a) \<in> set (snd (listen_for_cad op lang fb fd ts))"
  shows "op \<and> reaction lang fb fd ts k a"
  using assms listen_loop_sound [of no_keys "[]" k a lang fb fd ts "[]"]
  by (auto simp: listen_for_cad_def flags_start split: if_splits)

lemma reaction_outcome:
  assumes "reaction lang fb fd ts k a"
  shows "k < length ts \<and> cad_held (map lt_event (take (Suc k) ts))
    \<and> (a = CadRefused \<longleftrightarrow> fst (is_screen_locked (lt_world (ts ! k)) (lt_later (ts ! k))))
    \<and> (\<forall>l. a = CadLaunched l \<longrightarrow> l = launch_gui (lt_later (ts ! k)) lang fb fd)"
  using assms by (auto simp: reaction_def cad_react_def split: if_splits)

lemma listen_log_once: "distinct (map fst (snd (listen_loop lang fb fd ts ks log i)))"
  if "distinct (map fst log)" "\<forall>k\<in>set (map fst log). k < i"
  using that
proof (induction lang fb fd ts ks log i rule: listen_loop.induct)
  case (2 lang fb fd t ts ks log i)
  obtain ks' a where e: "listen_event lang fb fd t ks = (ks', a)" by fastforce
  show ?case
  proof (cases "\<not> lt_terminate t \<and> read_event 0 (lt_reads t) = EvComplete")
    case True
    then show ?thesis using "2.IH" [of ks' a] "2.prems" e by (cases a) (auto simp: less_Suc_eq)
  qed (use "2.prems" in \<open>auto split: ev_done.splits\<close>)
qed simp

lemma main_loop_logs:
  "(path, log) \<in> set (main_loop forced lang fb fd ms) \<Longrightarrow>
   \<exists>m\<in>set ms. log = snd (listen_for_cad (mt_open m) lang fb fd (mt_turns m))"
proof (induction ms)
  case (Cons m ms)
  obtain r l where l: "listen_for_cad (mt_open m) lang fb fd (mt_turns m) = (r, l)" by fastforce
  have "(path, log) \<in> set (main_loop forced lang fb fd ms) \<or> log = l"
    using Cons.prems l by (auto split: if_splits option.splits)
  then show ?case using Cons.IH l by (metis list.set_intros snd_conv)
qed simp

text \<open>
  C18 (launch_only_unlocked). Whatever happens during the whole run of the daemon, interruptions, lost devices and
  termination included: the log of a device has at most one reaction for a turn of its listening loop, and every reaction comes with the
  combination held. The screen is launched only in a turn whose own lock test found no lock, and a turn whose lock test
  found one is refused. A launch executes the image prepared at start for the user found in that turn.
\<close>

theorem launch_only_unlocked:
  assumes "(path, log) \<in> set (snd (watchdog_main args w gui_fd fallback_path ms))"
  shows "\<exists>m\<in>set ms. log = snd (listen_for_cad (mt_open m) (detect_system_language w) fallback_path gui_fd (mt_turns m))
    \<and> distinct (map fst log)
    \<and> (\<forall>(k, a)\<in>set log. k < length (mt_turns m) \<and> cad_held (map lt_event (take (Suc k) (mt_turns m)))
        \<and> (a = CadRefused \<longleftrightarrow> fst (is_screen_locked (lt_world (mt_turns m ! k)) (lt_later (mt_turns m ! k))))
        \<and> (\<forall>l. a = CadLaunched l \<longrightarrow>
             l = launch_gui (lt_later (mt_turns m ! k)) (detect_system_language w) fallback_path gui_fd))"
proof -
  obtain m where m: "m \<in> set ms" "log = snd (listen_for_cad (mt_open m) (detect_system_language w) fallback_path gui_fd (mt_turns m))"
    using assms main_loop_logs by (fastforce simp: watchdog_main_def Let_def split: if_splits)
  have "distinct (map fst log)" using m(2) listen_log_once [of "[]"] by (simp add: listen_for_cad_def)
  moreover have "reaction (detect_system_language w) fallback_path gui_fd (mt_turns m) k a" if "(k, a) \<in> set log" for k a
    using listen_log [of k a] that m(2) by blast
  then have "\<forall>(k, a)\<in>set log. k < length (mt_turns m) \<and> cad_held (map lt_event (take (Suc k) (mt_turns m)))
      \<and> (a = CadRefused \<longleftrightarrow> fst (is_screen_locked (lt_world (mt_turns m ! k)) (lt_later (mt_turns m ! k))))
      \<and> (\<forall>l. a = CadLaunched l \<longrightarrow> l = launch_gui (lt_later (mt_turns m ! k)) (detect_system_language w) fallback_path gui_fd)"
    using reaction_outcome by fast
  ultimately show ?thesis using m by blast
qed

definition cad_turn :: main_turn where
  "cad_turn = \<lparr>mt_terminate = False, mt_world = quiet_world, mt_dev = (\<lambda>_. None), mt_open = True,
     mt_turns = [key_turn 29 1, key_turn 56 1, key_turn 111 1], mt_terminate_after = False\<rparr>"

theorem launch_only_unlocked_witness:
  "(''/dev/input/event3'', [(2, CadLaunched (launch_gui quiet_world ''en'' [] 5))])
     \<in> set (snd (watchdog_main [''watchdog'', ''/dev/input/event3''] quiet_world 5 [] [cad_turn]))
   \<and> cad_held (map lt_event (mt_turns cad_turn)) \<and> \<not> fst (is_screen_locked quiet_world quiet_world)"
proof -
  let ?log = "[(2, CadLaunched (launch_gui quiet_world ''en'' [] 5))]"
  have u: "\<not> fst (is_screen_locked quiet_world quiet_world)" by code_simp
  have l: "detect_system_language quiet_world = ''en''" by (simp add: detect_system_language_def quiet_world_def read_buf_def)
  have m: "(''/dev/input/event3'', ?log) \<in> set (snd (watchdog_main [''watchdog'', ''/dev/input/event3''] quiet_world 5 [] [cad_turn]))"
    by (simp add: watchdog_main_def l cad_turn_def str_fit_def listen_for_cad_def key_turn_def read_event.simps sizeof_input_event_def
        listen_event_def no_keys_def key_update_def cad_complete_def EV_KEY_def key_code_defs cad_react_def u)
  have t: "mt_turns cad_turn ! 2 = key_turn 111 1" "take (Suc 2) (mt_turns cad_turn) = mt_turns cad_turn"
    by (simp_all add: cad_turn_def)
  have w: "lt_world (key_turn 111 1) = quiet_world" "lt_later (key_turn 111 1) = quiet_world" by (simp_all add: key_turn_def)
  from launch_only_unlocked [OF m] have "cad_held (map lt_event (take (Suc 2) (mt_turns cad_turn)))"
    and "\<not> fst (is_screen_locked (lt_world (mt_turns cad_turn ! 2)) (lt_later (mt_turns cad_turn ! 2)))"
    unfolding bex_simps by (simp_all del: take_Suc_Cons)
  with m show ?thesis unfolding t w by blast
qed

text \<open>
  The user name handed to the GUI is either \<^verbatim>\<open>user\<close> or the account name of
  a user id from 1000 to 59999, whichever of the four ways found it.
\<close>

theorem active_user_human:
  "detect_active_user w 64 = ''user''
   \<or> (\<exists>u pw. human_uid u \<and> w_getpwuid w u = Some pw \<and> detect_active_user w 64 = str_fit 64 (pw_name pw))"
proof (cases "detect_active_user w 64 = str_fit 64 ''user''")
  case True
  then show ?thesis by (simp add: str_fit_def)
next
  case False
  then obtain u pw where "find_active_uid w = Some u" "w_getpwuid w u = Some pw"
    "detect_active_user w 64 = str_fit 64 (pw_name pw)"
    by (auto simp: detect_active_user_def Let_def split: option.splits if_splits)
  then show ?thesis using find_active_uid_human by blast
qed

section \<open>What the lock test finds\<close>

text \<open>
  A desktop as Linux shows it. The directories of \<^verbatim>\<open>/proc\<close> whose names start with a digit from 1 to 9 are the processes, and \<^verbatim>\<open>comm\<close> holds the
  first 15 bytes of the name of the program with a newline. \<^verbatim>\<open>loginctl list-sessions\<close> prints a line for each session, which
  starts with its id, and \<^verbatim>\<open>show-session\<close> its hint. Trinity's \<^verbatim>\<open>kdesktop_lock\<close> belongs to a user with an account, and \<^verbatim>\<open>dcop\<close> prints
  the answer.
\<close>

definition comm_of :: "string \<Rightarrow> string" where
  "comm_of name = take 15 name"

definition shows_processes :: "(nat \<times> string) list \<Rightarrow> world \<Rightarrow> bool" where
  "shows_processes ps w \<longleftrightarrow>
     (\<exists>ents. w_dir w ''/proc'' = Some ents \<and> set (filter pid_name ents) = (\<lambda>(pid, name). dec_nat pid) ` set ps) \<and>
     (\<forall>(pid, name)\<in>set ps. length (dec_nat pid) \<le> 10 \<and> name \<noteq> [] \<and> NUL \<notin> set name
        \<and> w_file w (''/proc/'' @ dec_nat pid @ ''/comm'') = Some (comm_of name @ [LF]))"

definition answers :: "world \<Rightarrow> spawn \<Rightarrow> string \<Rightarrow> bool" where
  "answers w sp out \<longleftrightarrow> (\<exists>ch. w_run w sp = Some ch \<and> ch_exit ch = Some 0 \<and> written (ch_reads ch) = out)"

definition shows_trinity :: "(nat \<times> string) list \<Rightarrow> bool \<Rightarrow> world \<Rightarrow> bool" where
  "shows_trinity ps enabled w \<longleftrightarrow>
     (\<forall>(pid, name)\<in>set ps. comm_of name = ''kdesktop_lock'' \<longrightarrow>
        (\<exists>u pw. w_stat_uid w (''/proc/'' @ dec_nat pid) = Some u \<and> 0 < u \<and> w_getpwuid w u = Some pw)) \<and>
     (\<forall>sp. sp_file sp = ''/opt/trinity/bin/dcop'' \<longrightarrow> answers w sp (if enabled then ''true'' @ [LF] else ''false'' @ [LF]))"

definition loginctl :: "string list \<Rightarrow> spawn" where
  "loginctl args = \<lparr>sp_file = ''loginctl'', sp_search = True, sp_argv = ''loginctl'' # args, sp_cred = None, sp_env = None\<rparr>"

definition session_line :: "string \<times> string \<times> bool \<Rightarrow> string" where
  "session_line = (\<lambda>(sid, rest, locked). CHR '' '' # sid @ CHR '' '' # rest @ [LF])"

definition shows_sessions :: "(string \<times> string \<times> bool) list \<Rightarrow> world \<Rightarrow> bool" where
  "shows_sessions ss w \<longleftrightarrow>
     answers w (loginctl [''list-sessions'', ''--no-legend'']) (concat (map session_line ss)) \<and>
     length (concat (map session_line ss)) < 4096 \<and>
     (\<forall>(sid, rest, locked)\<in>set ss. safe_session_id sid \<and> NUL \<notin> set rest \<and> LF \<notin> set rest \<and>
        answers w (loginctl [''show-session'', sid, ''-p'', ''LockedHint''])
          (if locked then ''LockedHint=yes'' @ [LF] else ''LockedHint=no'' @ [LF]))"

lemma proc_comm_shown:
  assumes "shows_processes ps w" "(pid, name) \<in> set ps"
  shows "proc_comm w (dec_nat pid) = Some (comm_of name)"
proof -
  have n: "length (dec_nat pid) \<le> 10" "NUL \<notin> set name"
      "w_file w (''/proc/'' @ dec_nat pid @ ''/comm'') = Some (comm_of name @ [LF])"
    using assms by (auto simp: shows_processes_def)
  have "str_fit 512 (''/proc/'' @ dec_nat pid @ ''/comm'') = ''/proc/'' @ dec_nat pid @ ''/comm''" using n(1) by (simp add: str_fit_def)
  moreover have "c_str (take 15 name) = take 15 name" using n(2) by (intro c_str_id) (auto dest: in_set_takeD)
  ultimately show ?thesis using n(3) by (simp add: proc_comm_def read_buf_def comm_of_def Let_def)
qed

lemma shown_entry:
  assumes "shows_processes ps w" "w_dir w ''/proc'' = Some ents"
  shows "d \<in> set ents \<and> pid_name d \<longleftrightarrow> (\<exists>pid name. (pid, name) \<in> set ps \<and> d = dec_nat pid)"
proof -
  have "set (filter pid_name ents) = (\<lambda>(pid, name). dec_nat pid) ` set ps" using assms by (auto simp: shows_processes_def)
  then have "d \<in> set (filter pid_name ents) \<longleftrightarrow> d \<in> (\<lambda>(pid, name). dec_nat pid) ` set ps" by blast
  then show ?thesis by force
qed

lemma locker_loop_shown:
  assumes "shows_processes ps w" "w_dir w ''/proc'' = Some ents"
  shows "locker_loop w ents \<longleftrightarrow> (\<exists>(pid, name)\<in>set ps. \<exists>n\<in>set lock_names. contains (comm_of name) n)"
proof
  assume "locker_loop w ents"
  then obtain d c n where d: "d \<in> set ents" "pid_name d" "proc_comm w d = Some c" "n \<in> set lock_names" "contains c n"
    unfolding locker_loop_iff locker_running_def by blast
  then obtain pid name where p: "(pid, name) \<in> set ps" "d = dec_nat pid" using shown_entry [OF assms, of d] by blast
  then have "c = comm_of name" using d(3) proc_comm_shown [OF assms(1) p(1)] by simp
  then show "\<exists>(pid, name)\<in>set ps. \<exists>n\<in>set lock_names. contains (comm_of name) n" using p(1) d(4,5) by blast
next
  assume "\<exists>(pid, name)\<in>set ps. \<exists>n\<in>set lock_names. contains (comm_of name) n"
  then obtain pid name n where p: "(pid, name) \<in> set ps" "n \<in> set lock_names" "contains (comm_of name) n" by blast
  then have "dec_nat pid \<in> set ents \<and> pid_name (dec_nat pid)" using shown_entry [OF assms, of "dec_nat pid"] by blast
  then show "locker_loop w ents"
    unfolding locker_loop_iff locker_running_def using p proc_comm_shown [OF assms(1) p(1)] by blast
qed

text \<open>Of the fourteen names the code looks for, only those of at most 15 bytes can occur in \<^verbatim>\<open>comm\<close>.\<close>

definition found_lockers :: "string list" where
  "found_lockers = [''swaylock'', ''i3lock'', ''slock'', ''hyprlock'', ''xlock'', ''xsecurelock'', ''gtklock'', ''lxlock'']"

lemma short_lock_names: "filter (\<lambda>n. length n \<le> 15) lock_names = found_lockers"
  by (simp add: lock_names_def found_lockers_def)

lemma comm_contains_locker:
  "(\<exists>n\<in>set lock_names. contains (comm_of name) n) \<longleftrightarrow> (\<exists>n\<in>set found_lockers. sublist n (take 15 name))"
proof -
  have "length n \<le> 15" if c: "contains (comm_of name) n" for n
  proof -
    obtain u v where "comm_of name = u @ n @ v" using c unfolding contains_iff by blast
    then have "length n \<le> length (comm_of name)" by simp
    then show ?thesis by (simp add: comm_of_def)
  qed
  then have "(\<exists>n\<in>set lock_names. contains (comm_of name) n) \<longleftrightarrow> (\<exists>n\<in>set found_lockers. contains (comm_of name) n)"
    unfolding short_lock_names [symmetric] by auto
  then show ?thesis by (simp only: contains_iff sublist_def comm_of_def)
qed

lemma kdesktop_loop_None:
  "kdesktop_loop w ents = None \<longleftrightarrow> (\<forall>d\<in>set ents. \<not> (pid_name d \<and> proc_comm w d = Some ''kdesktop_lock''))"
  by (induction ents) auto

lemma kdesktop_loop_Some:
  "kdesktop_loop w ents = Some (p, u) \<Longrightarrow>
   \<exists>d\<in>set ents. pid_name d \<and> proc_comm w d = Some ''kdesktop_lock''
     \<and> u = (case w_stat_uid w (str_fit 512 (''/proc/'' @ d)) of None \<Rightarrow> 0 | Some u \<Rightarrow> u)"
  by (induction ents) (auto split: if_splits)

lemma answers_search:
  assumes "answers w \<lparr>sp_file = f, sp_search = True, sp_argv = argv, sp_cred = None, sp_env = None\<rparr> out" "length out < n"
  shows "cmd_ok (run_cmd_search_capture w f argv n) = Some (c_str out)"
  using assms by (auto simp: answers_def cmd_ok_def run_cmd_search_capture_def collect_result Let_def)

lemma answers_capture:
  assumes "answers w (fst (run_cmd_capture w uid gid user path argv disp n)) out" "length out < n"
  shows "cmd_ok (run_cmd_capture w uid gid user path argv disp n) = Some (c_str out)"
  using assms by (auto simp: answers_def cmd_ok_def run_cmd_capture_def collect_result Let_def)

lemma run_cmd_capture_file [simp]: "sp_file (fst (run_cmd_capture w uid gid user path argv disp n)) = path"
  by (simp add: run_cmd_capture_def Let_def)

lemma dcop_answer: "contains (c_str (if b then ''true'' @ [LF] else ''false'' @ [LF])) ''true'' \<longleftrightarrow> b"
  by (simp add: c_str_def starts_with_def)

lemma tde_check_shown:
  assumes "shows_processes ps w" "shows_trinity ps enabled w"
  shows "fst (tde_check w) \<longleftrightarrow> (\<exists>(pid, name)\<in>set ps. comm_of name = ''kdesktop_lock'') \<and> enabled"
proof -
  obtain ents where ents: "w_dir w ''/proc'' = Some ents" using assms(1) by (auto simp: shows_processes_def)
  show ?thesis
  proof (cases "kdesktop_loop w ents")
    case None
    have "comm_of name \<noteq> ''kdesktop_lock''" if "(pid, name) \<in> set ps" for pid name
      using None shown_entry [OF assms(1) ents, of "dec_nat pid"] proc_comm_shown [OF assms(1) that] that
      unfolding kdesktop_loop_None by fastforce
    then show ?thesis using None ents by (auto simp: tde_check_def)
  next
    case (Some r)
    obtain p u where r: "r = (p, u)" by fastforce
    obtain d where d: "d \<in> set ents" "pid_name d" "proc_comm w d = Some ''kdesktop_lock''"
        "u = (case w_stat_uid w (str_fit 512 (''/proc/'' @ d)) of None \<Rightarrow> 0 | Some u \<Rightarrow> u)"
      using kdesktop_loop_Some Some r by blast
    obtain pid name where e: "(pid, name) \<in> set ps" "d = dec_nat pid" using shown_entry [OF assms(1) ents, of d] d(1,2) by blast
    then have n: "comm_of name = ''kdesktop_lock''" using proc_comm_shown [OF assms(1) e(1)] d(3) by simp
    have "length (dec_nat pid) \<le> 10" using assms(1) e(1) by (auto simp: shows_processes_def)
    then have "str_fit 512 (''/proc/'' @ d) = ''/proc/'' @ dec_nat pid" using e(2) by (simp add: str_fit_def)
    moreover obtain pw where "w_stat_uid w (''/proc/'' @ dec_nat pid) = Some u" "0 < u" "w_getpwuid w u = Some pw"
      using assms(2) e(1) n d(4) calculation by (fastforce simp: shows_trinity_def)
    moreover have "answers w sp (if enabled then ''true'' @ [LF] else ''false'' @ [LF])" if "sp_file sp = ''/opt/trinity/bin/dcop''" for sp
      using assms(2) that by (simp add: shows_trinity_def)
    note a = this
    have "fst (tde_locked w p u) \<longleftrightarrow> enabled"
      using \<open>w_getpwuid w u = Some pw\<close> dcop_answer [of enabled]
      by (simp add: tde_locked_def Let_def answers_capture [OF a])
    then show ?thesis using Some r ents \<open>0 < u\<close> e(1) n by (auto simp: tde_check_def)
  qed
qed

lemma scan_session_line:
  assumes "safe_session_id sid"
  shows "scan_word 63 (CHR '' '' # sid @ CHR '' '' # rest) = Some sid" "is_alphanumeric (Some sid)"
proof -
  have s: "sid \<noteq> []" "length sid \<le> 63" "\<forall>c\<in>set sid. is_alnum_char c" using assms by (simp_all add: safe_session_id_def)
  have "\<not> is_space c \<and> c \<noteq> NUL" if "is_alnum_char c" for c using that by (auto simp: is_alnum_char_def is_space_def)
  then have n: "\<forall>c\<in>set sid. \<not> is_space c" "NUL \<notin> set sid" using s(3) by auto
  then have "dropWhile is_space (sid @ CHR '' '' # rest) = sid @ CHR '' '' # rest" using s(1) by (cases sid) auto
  moreover have "takeWhile (\<lambda>c. \<not> is_space c) (sid @ CHR '' '' # rest) = sid"
    using n(1) by (simp add: takeWhile_append2 is_space_def)
  ultimately show "scan_word 63 (CHR '' '' # sid @ CHR '' '' # rest) = Some sid"
    using s(1,2) by (simp add: scan_word_def is_space_def Let_def)
  show "is_alphanumeric (Some sid)" using s n(2) by (cases sid) (auto simp: is_alphanumeric_def alnum_loop_iff cget_def)
qed

lemma c_lines_sessions:
  assumes "shows_sessions ss w"
  shows "c_lines (concat (map session_line ss)) = map (\<lambda>(sid, rest, locked). CHR '' '' # sid @ CHR '' '' # rest) ss"
proof -
  have "LF \<notin> set sid" if "safe_session_id sid" for sid using that by (auto simp: safe_session_id_def is_alnum_char_def)
  then have n: "\<forall>(sid, rest, locked)\<in>set ss. LF \<notin> set sid \<and> LF \<notin> set rest" using assms by (auto simp: shows_sessions_def)
  then show ?thesis
  proof (induction ss)
    case (Cons s ss)
    obtain sid rest locked where s: "s = (sid, rest, locked)" by (cases s) auto
    have "LF \<notin> set (CHR '' '' # sid @ CHR '' '' # rest)" using Cons.prems s by auto
    from c_lines_line [OF this, of "concat (map session_line ss)"] show ?case using Cons s by (simp add: session_line_def)
  qed simp
qed

lemma show_session_shown:
  assumes "answers w (loginctl [''show-session'', sid, ''-p'', ''LockedHint'']) (if locked then ''LockedHint=yes'' @ [LF] else ''LockedHint=no'' @ [LF])"
  shows "(\<exists>out. cmd_ok (show_session w sid) = Some out \<and> contains out ''LockedHint=yes'') \<longleftrightarrow> locked"
proof -
  have "cmd_ok (show_session w sid) = Some (c_str (if locked then ''LockedHint=yes'' @ [LF] else ''LockedHint=no'' @ [LF]))"
    unfolding show_session_def using assms by (intro answers_search) (auto simp: loginctl_def)
  moreover have "contains (c_str (if locked then ''LockedHint=yes'' @ [LF] else ''LockedHint=no'' @ [LF])) ''LockedHint=yes'' \<longleftrightarrow> locked"
    by (simp add: c_str_def starts_with_def)
  ultimately show ?thesis by simp
qed

lemma sessions_shown:
  assumes "shows_sessions ss w"
  shows "\<exists>out. cmd_ok (run_cmd_search_capture w ''loginctl'' [''loginctl'', ''list-sessions'', ''--no-legend''] 4096) = Some out
    \<and> (fst (session_loop w (c_lines out)) \<longleftrightarrow> (\<exists>(sid, rest, locked)\<in>set ss. locked))"
proof -
  let ?out = "concat (map session_line ss)"
  have "NUL \<notin> set sid" if "safe_session_id sid" for sid using that by (auto simp: safe_session_id_def is_alnum_char_def)
  then have "NUL \<notin> set ?out" using assms by (auto simp: shows_sessions_def session_line_def)
  then have o: "c_str ?out = ?out" by (rule c_str_id)
  have "cmd_ok (run_cmd_search_capture w ''loginctl'' [''loginctl'', ''list-sessions'', ''--no-legend''] 4096) = Some (c_str ?out)"
    using assms by (intro answers_search) (auto simp: shows_sessions_def loginctl_def)
  moreover have "session_locked w (CHR '' '' # sid @ CHR '' '' # rest) \<longleftrightarrow> locked" if "(sid, rest, locked) \<in> set ss" for sid rest locked
  proof -
    have s: "safe_session_id sid" "answers w (loginctl [''show-session'', sid, ''-p'', ''LockedHint''])
        (if locked then ''LockedHint=yes'' @ [LF] else ''LockedHint=no'' @ [LF])"
      using assms that by (auto simp: shows_sessions_def)
    show ?thesis using scan_session_line [OF s(1)] show_session_shown [OF s(2)] by (auto simp: session_locked_def)
  qed
  then have "fst (session_loop w (c_lines ?out)) \<longleftrightarrow> (\<exists>(sid, rest, locked)\<in>set ss. locked)"
    unfolding session_loop_iff c_lines_sessions [OF assms] set_map bex_simps by (intro bex_cong refl) auto
  ultimately show ?thesis unfolding o by blast
qed


definition kde_world :: world where
  "kde_world = \<lparr>w_getenv = (\<lambda>_. None),
     w_file = (\<lambda>p. if p = ''/proc/812/comm'' then Some (take 15 ''kscreenlocker_greet'' @ [LF]) else None),
     w_dir = (\<lambda>_. Some [''self'', ''812'']), w_stat_uid = (\<lambda>_. None), w_getpwuid = (\<lambda>_. None),
     w_run = (\<lambda>sp. Some \<lparr>ch_reads = [RBytes (if sp_file sp = ''/opt/trinity/bin/dcop'' then ''false'' @ [LF]
        else if sp_argv sp = [''loginctl'', ''list-sessions'', ''--no-legend''] then '' c1 1000 joe'' @ [LF]
        else ''LockedHint=no'' @ [LF]), REof], ch_exit = Some 0\<rparr>)\<rparr>"

lemma kde_world_shown:
  "shows_processes [(812, ''kscreenlocker_greet'')] kde_world" "shows_trinity [(812, ''kscreenlocker_greet'')] False kde_world"
  "shows_sessions [(''c1'', ''1000 joe'', False)] kde_world"
proof -
  have d: "dec_nat 812 = ''812''" by (simp add: dec_nat.simps digit_char_def char_of_def bit_0)
  have p: "\<not> pid_name ''self''" "pid_name ''812''" by code_simp+
  show "shows_processes [(812, ''kscreenlocker_greet'')] kde_world"
    using p by (auto simp: shows_processes_def d kde_world_def comm_of_def)
  show "shows_trinity [(812, ''kscreenlocker_greet'')] False kde_world"
    by (simp add: shows_trinity_def comm_of_def answers_def kde_world_def)
  show "shows_sessions [(''c1'', ''1000 joe'', False)] kde_world"
    by (simp add: shows_sessions_def answers_def kde_world_def loginctl_def session_line_def safe_session_id_def is_alnum_char_def)
qed


end
