(* ===== verification/ZX0.thy ===== *)
theory ZX0
  imports Prelude
begin

text \<open>
  The ZX0 codec that packs the rescue GUI into the watchdog's executable:
  the bit reader and decoder of \<^verbatim>\<open>src/decompressors/zx0/zx0_decompress.c\<close> and the bit writer
  and encoder of \<^verbatim>\<open>src/compressors/zx0/compress.c\<close>.

  Reader and writer keep the fields of their C counterparts. The pointer pair \<open>src\<close>,
  \<open>src_end\<close> is the list of bytes still to be read; the output array of the encoder is the list of
  the bytes written so far, whose length is \<open>output_index\<close>. The C \<^verbatim>\<open>int\<close> results of the
  shifts and products in the decoder wrap around. A read outside the output array is the result
  \<open>ZOverread\<close>, a write outside it \<open>ZOverwrite\<close>.

  Shown here: the decoder terminates on every input, never writes outside its buffer and never returns more than the capacity;
  and, for every chain of blocks that describes the input, decoding what the encoder wrote gives
  the input back (the locale \<open>bit_channel\<close> carries the argument from single bits to numbers).
\<close>

unbundle bit_operations_syntax

section \<open>Definitions\<close>

subsection \<open>Bit reader\<close>

record BitReader =
  br_src :: "8 word list"
  br_bit_mask :: nat
  br_bit_value :: int
  br_backtrack :: bool
  br_last_byte :: int

definition rd_byte :: "BitReader \<Rightarrow> int \<times> BitReader" where
  "rd_byte br =
     (case br_src br of
        [] \<Rightarrow> (-1, br)
      | b # bs \<Rightarrow> (uint b, br\<lparr>br_src := bs, br_last_byte := uint b\<rparr>))"

definition rd_bit :: "BitReader \<Rightarrow> bool \<times> BitReader" where
  "rd_bit br =
     (if br_backtrack br then (br_last_byte br AND 1 \<noteq> 0, br\<lparr>br_backtrack := False\<rparr>)
      else (let br1 = br\<lparr>br_bit_mask := br_bit_mask br div 2\<rparr>;
                br2 = (if br_bit_mask br1 = 0
                       then (case rd_byte (br1\<lparr>br_bit_mask := 128\<rparr>) of
                               (v, b) \<Rightarrow> b\<lparr>br_bit_value := v\<rparr>)
                       else br1)
            in (br_bit_value br2 AND int (br_bit_mask br2) \<noteq> 0, br2)))"

text \<open>
  Bits the reader can still deliver from the input; past the end of the input every bit is 1.
  This is the measure of all decoder loops.
\<close>

fun bits_left :: "nat \<Rightarrow> nat" where
  "bits_left m = (if m \<le> 1 then 0 else Suc (bits_left (m div 2)))"

declare bits_left.simps [simp del]

definition avail :: "BitReader \<Rightarrow> nat" where
  "avail br = 8 * length (br_src br)
     + (if br_bit_value br = -1 \<and> br_src br = [] then 0 else bits_left (br_bit_mask br))
     + (if br_backtrack br then 1 else 0)"

lemma bits_left_half: "m div 2 \<noteq> 0 \<Longrightarrow> bits_left m = Suc (bits_left (m div 2))"
  by (subst bits_left.simps) auto

lemma bits_left_128: "bits_left 128 = 7"
  by (simp add: bits_left.simps)

lemma rd_bit_avail:
  assumes "rd_bit br = (b, br')"
  shows "avail br' < avail br \<or> (b \<and> br_src br = [] \<and> br_src br' = [] \<and> avail br' \<le> avail br)"
proof (cases "br_backtrack br")
  case True
  then show ?thesis using assms by (auto simp: rd_bit_def avail_def)
next
  case False
  show ?thesis
  proof (cases "br_bit_mask br div 2 = 0")
    case True
    then show ?thesis using assms False
      by (cases "br_src br")
        (auto simp: rd_bit_def rd_byte_def avail_def Let_def bits_left_128)
  next
    case half: False
    then show ?thesis using assms False
      by (auto simp: rd_bit_def avail_def Let_def bits_left_half)
  qed
qed

lemma rd_bit_0_avail: "rd_bit br = (False, br') \<Longrightarrow> avail br' < avail br"
  using rd_bit_avail by fastforce

lemma rd_bit_le_avail: "rd_bit br = (b, br') \<Longrightarrow> avail br' \<le> avail br"
  using rd_bit_avail by fastforce

lemma elias_step_avail:
  "(b, br1) = rd_bit br \<Longrightarrow> \<not> b \<Longrightarrow> (c, br2) = rd_bit br1 \<Longrightarrow> avail br2 < avail br"
  using rd_bit_0_avail [of br br1] rd_bit_le_avail [of br1 c br2] by (cases b) auto

function elias_loop :: "BitReader \<Rightarrow> bool \<Rightarrow> int \<Rightarrow> int \<times> BitReader" where
  "elias_loop br inverted value =
     (case rd_bit br of
        (True, br1) \<Rightarrow> (value, br1)
      | (False, br1) \<Rightarrow>
          (case rd_bit br1 of
             (b, br2) \<Rightarrow> elias_loop br2 inverted (wrap_int (value * 2 + b2i (b \<noteq> inverted)))))"
  by pat_completeness auto
termination
  by (relation "measure (\<lambda>(br, inverted, value). avail br)")
    (auto intro: elias_step_avail)

declare elias_loop.simps [simp del]

definition rd_elias_gamma :: "BitReader \<Rightarrow> bool \<Rightarrow> int \<times> BitReader" where
  "rd_elias_gamma br inverted = elias_loop br inverted 1"

lemma elias_loop_avail:
  "elias_loop br iv v = (n, br') \<Longrightarrow>
   avail br' < avail br \<or> (n = v \<and> br_src br' = [] \<and> avail br' \<le> avail br)"
proof (induction br iv v rule: elias_loop.induct)
  case (1 br iv v)
  obtain b br1 where b: "rd_bit br = (b, br1)" by fastforce
  show ?case
  proof (cases b)
    case True
    with b "1.prems" have "n = v" "br' = br1" by (simp_all add: elias_loop.simps [of br])
    then show ?thesis using rd_bit_avail [OF b] by auto
  next
    case False
    obtain c br2 where c: "rd_bit br1 = (c, br2)" by fastforce
    have "elias_loop br2 iv (wrap_int (v * 2 + b2i (c \<noteq> iv))) = (n, br')"
      using "1.prems" b c False by (simp add: elias_loop.simps [of br])
    from "1.IH" [OF b [symmetric] _ c [symmetric] this]
    have "avail br' \<le> avail br2" using False by (auto simp: less_imp_le)
    moreover have "avail br1 < avail br" using b False rd_bit_0_avail by simp
    moreover have "avail br2 \<le> avail br1" using c by (rule rd_bit_le_avail)
    ultimately show ?thesis by simp
  qed
qed

lemma rd_elias_gamma_avail:
  "rd_elias_gamma br iv = (n, br') \<Longrightarrow>
   avail br' < avail br \<or> (n = 1 \<and> br_src br' = [] \<and> avail br' \<le> avail br)"
  unfolding rd_elias_gamma_def by (rule elias_loop_avail)

lemma rd_elias_gamma_le_avail: "rd_elias_gamma br iv = (n, br') \<Longrightarrow> avail br' \<le> avail br"
  using rd_elias_gamma_avail by fastforce

lemma rd_byte_avail:
  "rd_byte br = (t, br') \<Longrightarrow> \<not> t < 0 \<Longrightarrow> avail br' + 8 \<le> avail br"
  by (auto simp: rd_byte_def avail_def split: list.splits)

subsection \<open>Decoder\<close>

record zx0_state =
  z_br :: BitReader
  z_last_offset :: int
  z_out :: "8 word list"
  z_out_pos :: nat

datatype zx0_result = ZReturn int "8 word list" | ZOverread | ZOverwrite

text \<open>A part of the decoder either leaves the function or goes on with a new state.\<close>

datatype zx0_step = ZDone zx0_result | ZGo zx0_state

fun zx0_copy_literals :: "nat \<Rightarrow> nat \<Rightarrow> zx0_state \<Rightarrow> zx0_step" where
  "zx0_copy_literals out_max 0 st = ZGo st"
| "zx0_copy_literals out_max (Suc n) st =
     (case rd_byte (z_br st) of
        (c, br) \<Rightarrow>
          if c < 0 then ZDone (ZReturn (-1) (z_out st))
          else if z_out_pos st \<ge> out_max then ZDone (ZReturn (-1) (z_out st))
          else if z_out_pos st \<ge> length (z_out st) then ZDone ZOverwrite
          else zx0_copy_literals out_max n
                 (st\<lparr>z_br := br, z_out := (z_out st)[z_out_pos st := word_of_int c],
                     z_out_pos := Suc (z_out_pos st)\<rparr>))"

fun zx0_copy_match :: "nat \<Rightarrow> nat \<Rightarrow> zx0_state \<Rightarrow> zx0_step" where
  "zx0_copy_match out_max 0 st = ZGo st"
| "zx0_copy_match out_max (Suc n) st =
     (let src_pos = wrap_int (int (z_out_pos st) - z_last_offset st) in
        if src_pos < 0 \<or> z_out_pos st \<ge> out_max then ZDone (ZReturn (-1) (z_out st))
        else if src_pos \<ge> int (length (z_out st)) then ZDone ZOverread
        else if z_out_pos st \<ge> length (z_out st) then ZDone ZOverwrite
        else zx0_copy_match out_max n
               (st\<lparr>z_out := (z_out st)[z_out_pos st := z_out st ! nat src_pos],
                   z_out_pos := Suc (z_out_pos st)\<rparr>))"

text \<open>\<^verbatim>\<open>length = rd_elias_gamma(&br, 0); for (i = 0; i < length; i++) ...\<close> of the literals\<close>

definition zx0_literals :: "nat \<Rightarrow> zx0_state \<Rightarrow> zx0_step" where
  "zx0_literals out_max st =
     (case rd_elias_gamma (z_br st) False of
        (n, br) \<Rightarrow> zx0_copy_literals out_max (nat n) (st\<lparr>z_br := br\<rparr>))"

definition zx0_last_offset :: "nat \<Rightarrow> zx0_state \<Rightarrow> zx0_step" where
  "zx0_last_offset out_max st =
     (case rd_elias_gamma (z_br st) False of
        (n, br) \<Rightarrow> zx0_copy_match out_max (nat n) (st\<lparr>z_br := br\<rparr>))"

text \<open>One round of the \<^verbatim>\<open>COPY_FROM_NEW_OFFSET\<close> loops (the two are the same code).\<close>

definition zx0_new_offset :: "nat \<Rightarrow> zx0_state \<Rightarrow> zx0_step" where
  "zx0_new_offset out_max st =
     (case rd_elias_gamma (z_br st) True of
        (msb, br) \<Rightarrow>
          if msb = 256 then ZDone (ZReturn (int (z_out_pos st)) (z_out st))
          else (case rd_byte br of
                  (t, br1) \<Rightarrow>
                    if t < 0 then ZDone (ZReturn (-1) (z_out st))
                    else (let off = wrap_int (wrap_int (msb * 128) - t div 2) in
                          case rd_elias_gamma (br1\<lparr>br_backtrack := True\<rparr>) False of
                            (n, br2) \<Rightarrow>
                              zx0_copy_match out_max (nat (wrap_int (n + 1)))
                                (st\<lparr>z_br := br2, z_last_offset := off\<rparr>))))"

lemma zx0_copy_literals_avail:
  "zx0_copy_literals m n st = ZGo st' \<Longrightarrow>
   avail (z_br st') \<le> avail (z_br st) \<and> (n = 0 \<or> br_src (z_br st) \<noteq> [])"
proof (induction m n st rule: zx0_copy_literals.induct)
  case (2 m n st)
  obtain c br where c: "rd_byte (z_br st) = (c, br)" by fastforce
  then have "\<not> c < 0" using "2.prems" by auto
  then have "avail br \<le> avail (z_br st)" "br_src (z_br st) \<noteq> []"
    using rd_byte_avail [OF c] c by (auto simp: rd_byte_def)
  moreover have "z_out_pos st < m" using "2.prems" c by (auto split: if_splits)
  moreover have "z_out_pos st < length (z_out st)" using "2.prems" c by (auto split: if_splits)
  ultimately show ?case using "2.IH" [OF c [symmetric]] "2.prems" c \<open>\<not> c < 0\<close> by auto
qed auto

lemma zx0_copy_match_br: "zx0_copy_match m n st = ZGo st' \<Longrightarrow> z_br st' = z_br st"
  by (induction m n st rule: zx0_copy_match.induct) (auto simp: Let_def split: if_splits)

lemma zx0_literals_avail: "zx0_literals m st = ZGo st' \<Longrightarrow> avail (z_br st') < avail (z_br st)"
proof -
  assume g: "zx0_literals m st = ZGo st'"
  obtain n br where n: "rd_elias_gamma (z_br st) False = (n, br)" by fastforce
  then have "avail (z_br st') \<le> avail br" "nat n = 0 \<or> br_src br \<noteq> []"
    using g zx0_copy_literals_avail [of m "nat n" "st\<lparr>z_br := br\<rparr>" st']
    by (auto simp: zx0_literals_def)
  then show ?thesis using rd_elias_gamma_avail [OF n] by auto
qed

lemma zx0_last_offset_avail: "zx0_last_offset m st = ZGo st' \<Longrightarrow> avail (z_br st') \<le> avail (z_br st)"
  using rd_elias_gamma_le_avail
  by (auto simp: zx0_last_offset_def dest: zx0_copy_match_br split: prod.splits)

lemma zx0_new_offset_avail: "zx0_new_offset m st = ZGo st' \<Longrightarrow> avail (z_br st') < avail (z_br st)"
proof -
  assume g: "zx0_new_offset m st = ZGo st'"
  obtain k br where k: "rd_elias_gamma (z_br st) True = (k, br)" by fastforce
  obtain t br1 where t: "rd_byte br = (t, br1)" by fastforce
  obtain n br2 where n: "rd_elias_gamma (br1\<lparr>br_backtrack := True\<rparr>) False = (n, br2)" by fastforce
  have "k \<noteq> 256" "\<not> t < 0" using g k t by (auto simp: zx0_new_offset_def split: if_splits)
  then have "z_br st' = br2"
    using g k t n by (auto simp: zx0_new_offset_def Let_def dest: zx0_copy_match_br)
  moreover have "avail (br1\<lparr>br_backtrack := True\<rparr>) \<le> avail br1 + 1" by (simp add: avail_def)
  then have "avail br2 \<le> avail br1 + 1" using rd_elias_gamma_le_avail [OF n] by simp
  ultimately show ?thesis
    using rd_byte_avail [OF t \<open>\<not> t < 0\<close>] rd_elias_gamma_le_avail [OF k] by simp
qed

function zx0_new_loop :: "nat \<Rightarrow> zx0_state \<Rightarrow> zx0_step" where
  "zx0_new_loop out_max st =
     (case zx0_new_offset out_max st of
        ZDone r \<Rightarrow> ZDone r
      | ZGo st1 \<Rightarrow>
          (case rd_bit (z_br st1) of
             (False, br) \<Rightarrow> ZGo (st1\<lparr>z_br := br\<rparr>)
           | (True, br) \<Rightarrow> zx0_new_loop out_max (st1\<lparr>z_br := br\<rparr>)))"
  by pat_completeness auto
termination
  by (relation "measure (\<lambda>(out_max, st). avail (z_br st))")
    (auto dest!: zx0_new_offset_avail rd_bit_le_avail [OF sym] intro: le_less_trans)

declare zx0_new_loop.simps [simp del]

lemma zx0_new_loop_avail: "zx0_new_loop m st = ZGo st' \<Longrightarrow> avail (z_br st') < avail (z_br st)"
proof (induction m st rule: zx0_new_loop.induct)
  case (1 m st)
  then obtain st1 where s1: "zx0_new_offset m st = ZGo st1"
    by (auto simp: zx0_new_loop.simps [of m st] split: zx0_step.splits)
  obtain b br where b: "rd_bit (z_br st1) = (b, br)" by fastforce
  have le: "avail br < avail (z_br st)"
    using zx0_new_offset_avail [OF s1] rd_bit_le_avail [OF b] by simp
  show ?case
  proof (cases b)
    case False
    then show ?thesis using "1.prems" s1 b le by (auto simp: zx0_new_loop.simps [of m st])
  next
    case True
    then have "zx0_new_loop m (st1\<lparr>z_br := br\<rparr>) = ZGo st'"
      using "1.prems" s1 b by (simp add: zx0_new_loop.simps [of m st])
    then show ?thesis using "1.IH" [OF s1 b [symmetric]] True le by fastforce
  qed
qed

function zx0_loop :: "nat \<Rightarrow> zx0_state \<Rightarrow> zx0_result" where
  "zx0_loop out_max st =
     (case zx0_literals out_max st of
        ZDone r \<Rightarrow> r
      | ZGo st1 \<Rightarrow>
          (case rd_bit (z_br st1) of
             (True, br) \<Rightarrow>
               (case zx0_new_loop out_max (st1\<lparr>z_br := br\<rparr>) of
                  ZDone r \<Rightarrow> r
                | ZGo st2 \<Rightarrow> zx0_loop out_max st2)
           | (False, br) \<Rightarrow>
               (case zx0_last_offset out_max (st1\<lparr>z_br := br\<rparr>) of
                  ZDone r \<Rightarrow> r
                | ZGo st2 \<Rightarrow>
                    (case rd_bit (z_br st2) of
                       (False, br2) \<Rightarrow> zx0_loop out_max (st2\<lparr>z_br := br2\<rparr>)
                     | (True, br2) \<Rightarrow>
                         (case zx0_new_loop out_max (st2\<lparr>z_br := br2\<rparr>) of
                            ZDone r \<Rightarrow> r
                          | ZGo st3 \<Rightarrow> zx0_loop out_max st3)))))"
  by pat_completeness auto
termination
  by (relation "measure (\<lambda>(out_max, st). avail (z_br st))")
    (fastforce dest!: zx0_literals_avail zx0_new_loop_avail zx0_last_offset_avail
      dest: rd_bit_le_avail [OF sym])+

declare zx0_loop.simps [simp del]

definition zx0_decompress_to ::
  "8 word list option \<Rightarrow> int \<Rightarrow> 8 word list option \<Rightarrow> int \<Rightarrow> zx0_result" where
  "zx0_decompress_to inp in_size out out_max =
     (case (inp, out) of
        (Some i, Some ob) \<Rightarrow>
          if in_size \<le> 0 \<or> out_max \<le> 0 then ZReturn (-1) ob
          else zx0_loop (nat out_max)
            \<lparr>z_br = \<lparr>br_src = take (nat in_size) i, br_bit_mask = 0, br_bit_value = 0,
                     br_backtrack = False, br_last_byte = 0\<rparr>,
             z_last_offset = 1, z_out = ob, z_out_pos = 0\<rparr>
      | (_, Some ob) \<Rightarrow> ZReturn (-1) ob
      | (_, None) \<Rightarrow> ZReturn (-1) [])"

subsection \<open>Bit writer and encoder\<close>

record zx0_writer =
  w_output_data :: "8 word list"
  w_input_index :: nat
  w_bit_index :: nat
  w_bit_mask :: nat
  w_diff :: int
  w_backtrack :: bool
  w_delta :: int

abbreviation output_index :: "zx0_writer \<Rightarrow> nat" where
  "output_index w \<equiv> length (w_output_data w)"

definition read_bytes :: "nat \<Rightarrow> zx0_writer \<Rightarrow> zx0_writer" where
  "read_bytes n w =
     (let d = w_diff w + int n in
        w\<lparr>w_input_index := w_input_index w + n, w_diff := d,
          w_delta := (if w_delta w < d then d else w_delta w)\<rparr>)"

definition write_byte :: "8 word \<Rightarrow> zx0_writer \<Rightarrow> zx0_writer" where
  "write_byte value w = w\<lparr>w_output_data := w_output_data w @ [value], w_diff := w_diff w - 1\<rparr>"

definition or_at :: "nat \<Rightarrow> 8 word \<Rightarrow> 8 word list \<Rightarrow> 8 word list" where
  "or_at i m bs = bs[i := (bs ! i) OR m]"

definition write_bit :: "bool \<Rightarrow> zx0_writer \<Rightarrow> zx0_writer" where
  "write_bit value w =
     (if w_backtrack w
      then (let w1 = (if value
                      then w\<lparr>w_output_data := or_at (output_index w - 1) 1 (w_output_data w)\<rparr>
                      else w)
            in w1\<lparr>w_backtrack := False\<rparr>)
      else (let w1 = (if w_bit_mask w = 0
                      then write_byte 0 (w\<lparr>w_bit_mask := 128, w_bit_index := output_index w\<rparr>)
                      else w);
                w2 = (if value
                      then w1\<lparr>w_output_data :=
                             or_at (w_bit_index w1) (of_nat (w_bit_mask w1)) (w_output_data w1)\<rparr>
                      else w1)
            in w2\<lparr>w_bit_mask := w_bit_mask w2 div 2\<rparr>))"

text \<open>\<^verbatim>\<open>for (i = 2; i <= value; i <<= 1);\<close>\<close>

function eg_top :: "nat \<Rightarrow> nat \<Rightarrow> nat" where
  "eg_top value i = (if i \<le> value \<and> 0 < i then eg_top value (i * 2) else i)"
  by pat_completeness auto
termination
  by (relation "measure (\<lambda>(value, i). Suc value - i)") auto

declare eg_top.simps [simp del]

text \<open>\<^verbatim>\<open>while (i >>= 1) { write_bit(...); write_bit(...); }\<close>\<close>

fun eg_loop :: "nat \<Rightarrow> nat \<Rightarrow> bool \<Rightarrow> bool \<Rightarrow> zx0_writer \<Rightarrow> zx0_writer" where
  "eg_loop i value backwards_mode invert_mode w =
     (if i div 2 = 0 then w
      else eg_loop (i div 2) value backwards_mode invert_mode
        (write_bit (if invert_mode then \<not> (value AND (i div 2) \<noteq> 0) else value AND (i div 2) \<noteq> 0)
           (write_bit backwards_mode w)))"

declare eg_loop.simps [simp del]

definition write_interlaced_elias_gamma :: "nat \<Rightarrow> bool \<Rightarrow> bool \<Rightarrow> zx0_writer \<Rightarrow> zx0_writer" where
  "write_interlaced_elias_gamma value backwards_mode invert_mode w =
     write_bit (\<not> backwards_mode)
       (eg_loop (eg_top value 2 div 2) value backwards_mode invert_mode w)"

text \<open>
  A block of the parse; the \<^verbatim>\<open>chain\<close> pointers make a list, last block first. The reference
  counts and the free list of \<^verbatim>\<open>memory.c\<close> do not show in it.
\<close>

record BLOCK =
  bl_bits :: int
  bl_index :: int
  bl_offset :: nat

fun un_reverse :: "BLOCK list \<Rightarrow> BLOCK list \<Rightarrow> BLOCK list" where
  "un_reverse [] prev = prev"
| "un_reverse (optimal # next) prev = un_reverse next (optimal # prev)"

fun emit_literals :: "nat \<Rightarrow> 8 word list \<Rightarrow> zx0_writer \<Rightarrow> zx0_writer" where
  "emit_literals 0 input_data w = w"
| "emit_literals (Suc n) input_data w =
     emit_literals n input_data (read_bytes 1 (write_byte (input_data ! w_input_index w) w))"

definition emit_block ::
  "8 word list \<Rightarrow> bool \<Rightarrow> bool \<Rightarrow> BLOCK \<Rightarrow> BLOCK \<Rightarrow> nat \<times> zx0_writer \<Rightarrow> nat \<times> zx0_writer" where
  "emit_block input_data backwards_mode invert_mode prev optimal lw =
     (case lw of (last_offset, w) \<Rightarrow>
        let len = nat (bl_index optimal - bl_index prev) in
        if bl_offset optimal = 0 then
          (last_offset,
           emit_literals len input_data
             (write_interlaced_elias_gamma len backwards_mode False (write_bit False w)))
        else if bl_offset optimal = last_offset then
          (last_offset,
           read_bytes len (write_interlaced_elias_gamma len backwards_mode False (write_bit False w)))
        else
          (let w1 = write_interlaced_elias_gamma ((bl_offset optimal - 1) div 128 + 1)
                      backwards_mode invert_mode (write_bit True w);
               w2 = write_byte (of_nat (if backwards_mode then ((bl_offset optimal - 1) mod 128) * 2
                                        else (127 - (bl_offset optimal - 1) mod 128) * 2)) w1;
               w3 = write_interlaced_elias_gamma (len - 1) backwards_mode False
                      (w2\<lparr>w_backtrack := True\<rparr>)
           in (bl_offset optimal, read_bytes len w3)))"

fun emit_blocks ::
  "8 word list \<Rightarrow> bool \<Rightarrow> bool \<Rightarrow> BLOCK \<Rightarrow> BLOCK list \<Rightarrow> nat \<times> zx0_writer \<Rightarrow> nat \<times> zx0_writer" where
  "emit_blocks input_data bm im prev [] lw = lw"
| "emit_blocks input_data bm im prev (optimal # rest) lw =
     emit_blocks input_data bm im optimal rest (emit_block input_data bm im prev optimal lw)"

definition zx0_compress ::
  "BLOCK list \<Rightarrow> 8 word list \<Rightarrow> nat \<Rightarrow> nat \<Rightarrow> bool \<Rightarrow> bool \<Rightarrow> 8 word list \<times> int \<times> int" where
  "zx0_compress optimal input_data input_size skip backwards_mode invert_mode =
     (let output_size = cdiv (bl_bits (hd optimal) + 25) 8;
          w0 = \<lparr>w_output_data = [], w_input_index = skip, w_bit_index = 0, w_bit_mask = 0,
                w_diff = output_size - int input_size + int skip, w_backtrack = True, w_delta = 0\<rparr>
      in case un_reverse optimal [] of
           [] \<Rightarrow> ([], output_size, 0)
         | prev # rest \<Rightarrow>
             (case emit_blocks input_data backwards_mode invert_mode prev rest (1, w0) of
                (_, w) \<Rightarrow>
                  let w' = write_interlaced_elias_gamma 256 backwards_mode invert_mode (write_bit True w)
                  in (w_output_data w', output_size, w_delta w')))"

section \<open>The bit channel\<close>

text \<open>
  A writer position is the final stream's prefix with some bits still open: the bits at and below
  the writer's mask in the current bit byte, and the low bit of the last byte while a backtrack is
  pending. \<open>extends fin w\<close>: the stream \<open>fin\<close> agrees with everything \<open>w\<close> has settled.
\<close>

definition open_bit :: "zx0_writer \<Rightarrow> nat \<Rightarrow> nat \<Rightarrow> bool" where
  "open_bit w i j \<longleftrightarrow>
     (w_bit_mask w \<noteq> 0 \<and> i = w_bit_index w \<and> 2 ^ j \<le> w_bit_mask w)
     \<or> (w_backtrack w \<and> Suc i = output_index w \<and> j = 0)"

definition extends :: "8 word list \<Rightarrow> zx0_writer \<Rightarrow> bool" where
  "extends fin w \<longleftrightarrow> output_index w \<le> length fin
     \<and> (\<forall>i j. i < output_index w \<longrightarrow> j < 8 \<longrightarrow> \<not> open_bit w i j \<longrightarrow>
          bit (fin ! i) j = bit (w_output_data w ! i) j)"

definition writer_ok :: "zx0_writer \<Rightarrow> bool" where
  "writer_ok w \<longleftrightarrow>
     (w_bit_mask w \<noteq> 0 \<longrightarrow> (\<exists>k<8. w_bit_mask w = 2 ^ k) \<and> w_bit_index w < output_index w)
     \<and> (w_backtrack w \<longrightarrow> w_output_data w \<noteq> []
          \<and> (w_bit_mask w \<noteq> 0 \<longrightarrow> Suc (w_bit_index w) \<noteq> output_index w))
     \<and> (\<forall>i<output_index w. \<forall>j<8. open_bit w i j \<longrightarrow> \<not> bit (w_output_data w ! i) j)"

text \<open>The reader stands in \<open>fin\<close> where the writer stood.\<close>

definition in_sync :: "8 word list \<Rightarrow> zx0_writer \<Rightarrow> BitReader \<Rightarrow> bool" where
  "in_sync fin w br \<longleftrightarrow>
     br_src br = drop (output_index w) fin
     \<and> br_bit_mask br div 2 = w_bit_mask w
     \<and> (w_bit_mask w \<noteq> 0 \<longrightarrow> br_bit_value br = uint (fin ! w_bit_index w))
     \<and> br_backtrack br = w_backtrack w
     \<and> (w_backtrack w \<longrightarrow> br_last_byte br = uint (fin ! (output_index w - 1)))"

lemma bit_of_nat_pow: "k < 8 \<Longrightarrow> bit (of_nat (2 ^ k) :: 8 word) j \<longleftrightarrow> j = k"
  by (auto simp: bit_simps of_nat_power)

lemma uint_and_pow: "uint (b :: 8 word) AND int (2 ^ k) \<noteq> 0 \<longleftrightarrow> bit b k"
  using bit_imp_le_length [of b k] by (auto simp: and_exp_eq_0_iff_not_bit bit_uint_iff)

lemma or_at_nth: "i < length bs \<Longrightarrow> or_at i m bs ! j = (if j = i then bs ! i OR m else bs ! j)"
  by (simp add: or_at_def nth_list_update)

lemma or_at_length [simp]: "length (or_at i m bs) = length bs"
  by (simp add: or_at_def)

text \<open>Opening a new bit byte changes nothing of what has been settled.\<close>

definition open_byte :: "zx0_writer \<Rightarrow> zx0_writer" where
  "open_byte w = (if w_bit_mask w = 0
     then write_byte 0 (w\<lparr>w_bit_mask := 128, w_bit_index := output_index w\<rparr>) else w)"

lemma write_bit_backtrack:
  "w_backtrack w \<Longrightarrow> write_bit v w =
     w\<lparr>w_output_data := (if v then or_at (output_index w - 1) 1 (w_output_data w) else w_output_data w),
       w_backtrack := False\<rparr>"
  by (simp add: write_bit_def Let_def)

lemma write_bit_plain:
  "\<not> w_backtrack w \<Longrightarrow> write_bit v w =
     (open_byte w)\<lparr>w_output_data := (if v then or_at (w_bit_index (open_byte w))
           (of_nat (w_bit_mask (open_byte w))) (w_output_data (open_byte w))
         else w_output_data (open_byte w)),
       w_bit_mask := w_bit_mask (open_byte w) div 2\<rparr>"
  by (simp add: write_bit_def open_byte_def Let_def)

lemma open_byte_ok:
  assumes "writer_ok w" "\<not> w_backtrack w"
  shows "writer_ok (open_byte w)" "\<not> w_backtrack (open_byte w)"
    "w_bit_mask (open_byte w) \<noteq> 0"
    "extends fin (open_byte w) \<Longrightarrow> extends fin w"
proof -
  have k: "\<exists>k<8. (128::nat) = 2 ^ k" by (rule exI [of _ 7]) simp
  show "writer_ok (open_byte w)"
    using assms k by (auto simp: writer_ok_def open_byte_def write_byte_def open_bit_def nth_append less_Suc_eq)
  show "\<not> w_backtrack (open_byte w)" "w_bit_mask (open_byte w) \<noteq> 0"
    using assms by (auto simp: open_byte_def write_byte_def)
  show "extends fin w" if "extends fin (open_byte w)"
    using that assms
    by (auto simp: extends_def open_byte_def write_byte_def open_bit_def nth_append split: if_splits)
qed

lemma pow_half: "(2::nat) ^ k div 2 = (if k = 0 then 0 else 2 ^ (k - 1))"
  by (cases k) auto

lemma pow_le_half: "(2::nat) ^ j \<le> 2 ^ k div 2 \<longleftrightarrow> j < k"
  by (cases k) auto

lemma bit_one8: "bit (1 :: 8 word) j \<longleftrightarrow> j = 0"
  by (simp add: bit_1_iff)

lemma pow_half_pos: "0 < (2::nat) ^ k div 2 \<longleftrightarrow> 0 < k"
  by (cases k) auto

lemma write_bit_open_bit:
  assumes "writer_ok w" "\<not> w_backtrack w"
  obtains k where "k < 8" "w_bit_mask (open_byte w) = 2 ^ k"
    "w_bit_index (open_byte w) < output_index (open_byte w)"
    "\<And>i j. open_bit (open_byte w) i j \<longleftrightarrow> i = w_bit_index (open_byte w) \<and> j \<le> k"
    "\<And>v i j. open_bit (write_bit v w) i j \<longleftrightarrow> i = w_bit_index (open_byte w) \<and> j < k"
proof -
  let ?u = "open_byte w"
  have u: "writer_ok ?u" "\<not> w_backtrack ?u" "w_bit_mask ?u \<noteq> 0" using assms open_byte_ok by auto
  then obtain k where k: "k < 8" "w_bit_mask ?u = 2 ^ k" "w_bit_index ?u < output_index ?u"
    by (auto simp: writer_ok_def)
  show thesis
  proof (rule that [OF k])
    show "open_bit ?u i j \<longleftrightarrow> i = w_bit_index ?u \<and> j \<le> k" for i j
      using u k by (auto simp: open_bit_def)
    show "open_bit (write_bit v w) i j \<longleftrightarrow> i = w_bit_index ?u \<and> j < k" for v i j
      using u k assms(2) pow_le_half [of j k] pow_half_pos [of k]
      by (auto simp: open_bit_def write_bit_plain)
  qed
qed

lemma write_bit_bits:
  assumes "writer_ok w" "\<not> w_backtrack w" "i < output_index (open_byte w)" "j < 8"
  shows "bit (w_output_data (write_bit v w) ! i) j \<longleftrightarrow>
    (if i = w_bit_index (open_byte w) \<and> w_bit_mask (open_byte w) = 2 ^ j then v
     else bit (w_output_data (open_byte w) ! i) j)"
proof -
  obtain k where k: "k < 8" "w_bit_mask (open_byte w) = 2 ^ k"
    "w_bit_index (open_byte w) < output_index (open_byte w)"
    "\<And>i j. open_bit (open_byte w) i j \<longleftrightarrow> i = w_bit_index (open_byte w) \<and> j \<le> k"
    using write_bit_open_bit [OF assms(1,2)] by metis
  have "writer_ok (open_byte w)" using assms open_byte_ok by blast
  then have "\<not> bit (w_output_data (open_byte w) ! w_bit_index (open_byte w)) k"
    using k by (auto simp: writer_ok_def)
  then show ?thesis
    using assms k bit_of_nat_pow [OF k(1)]
    by (auto simp: write_bit_plain or_at_nth bit_or_iff simp del: of_nat_power)
qed

lemma write_bit_backtrack_bits:
  assumes "writer_ok w" "w_backtrack w" "i < output_index w" "j < 8"
  shows "bit (w_output_data (write_bit v w) ! i) j \<longleftrightarrow>
    (if Suc i = output_index w \<and> j = 0 then v else bit (w_output_data w ! i) j)"
proof -
  let ?n = "output_index w"
  have n: "?n - 1 < ?n" "open_bit w (?n - 1) 0" using assms by (auto simp: open_bit_def)
  then have "\<not> bit (w_output_data w ! (?n - 1)) 0"
    using assms(1) by (simp add: writer_ok_def)
  with n show ?thesis
    using assms by (auto simp: write_bit_backtrack or_at_nth bit_or_iff bit_one8)
qed

lemma write_bit_ok: "writer_ok w \<Longrightarrow> writer_ok (write_bit v w)"
proof (cases "w_backtrack w")
  case True
  assume ok: "writer_ok w"
  have "\<not> bit (w_output_data (write_bit v w) ! i) j"
    if "i < output_index w" "j < 8" "open_bit (write_bit v w) i j" for i j
    using that ok True write_bit_backtrack_bits [OF ok True that(1,2)]
    by (auto simp: write_bit_backtrack open_bit_def writer_ok_def)
  then show ?thesis using ok True by (auto simp: writer_ok_def write_bit_backtrack)
next
  case False
  assume ok: "writer_ok w"
  obtain k where k: "k < 8" "w_bit_mask (open_byte w) = 2 ^ k"
    "w_bit_index (open_byte w) < output_index (open_byte w)"
    "\<And>i j. open_bit (open_byte w) i j \<longleftrightarrow> i = w_bit_index (open_byte w) \<and> j \<le> k"
    "\<And>v i j. open_bit (write_bit v w) i j \<longleftrightarrow> i = w_bit_index (open_byte w) \<and> j < k"
    using write_bit_open_bit [OF ok False] by metis
  have ok': "writer_ok (open_byte w)" using ok False open_byte_ok by blast
  have "\<not> bit (w_output_data (write_bit v w) ! i) j"
    if "i < output_index (open_byte w)" "j < 8" "open_bit (write_bit v w) i j" for i j
    using that ok' k write_bit_bits [OF ok False that(1,2)] by (auto simp: writer_ok_def)
  moreover have "\<exists>k'<8. 2 ^ k div 2 = (2::nat) ^ k'" if "k \<noteq> 0"
    using that k(1) by (intro exI [of _ "k - 1"]) (auto simp: pow_half)
  ultimately show ?thesis
    using k(1-3) False open_byte_ok(2) [OF ok False]
    by (auto simp: writer_ok_def write_bit_plain pow_half)
qed

lemma write_bit_extends:
  assumes "writer_ok w" "extends fin (write_bit v w)"
  shows "extends fin w"
proof (cases "w_backtrack w")
  case True
  then show ?thesis
    using assms write_bit_backtrack_bits [OF assms(1) True]
    by (auto simp: extends_def open_bit_def write_bit_backtrack split: if_splits)
next
  case False
  obtain k where k: "k < 8" "w_bit_mask (open_byte w) = 2 ^ k"
    "\<And>i j. open_bit (open_byte w) i j \<longleftrightarrow> i = w_bit_index (open_byte w) \<and> j \<le> k"
    "\<And>v i j. open_bit (write_bit v w) i j \<longleftrightarrow> i = w_bit_index (open_byte w) \<and> j < k"
    using write_bit_open_bit [OF assms(1) False] by metis
  have "output_index (write_bit v w) = output_index (open_byte w)"
    using False by (simp add: write_bit_plain)
  then have "extends fin (open_byte w)"
    using assms(2) k write_bit_bits [OF assms(1) False]
    by (auto simp: extends_def)
  then show ?thesis using assms(1) False open_byte_ok(4) by blast
qed

lemma in_sync_open_byte:
  assumes "writer_ok w" "\<not> w_backtrack w" "extends fin (open_byte w)" "in_sync fin w br"
  obtains br' where "rd_bit br = (br_bit_value br' AND int (br_bit_mask br') \<noteq> 0, br')"
    "br_src br' = drop (output_index (open_byte w)) fin" "br_bit_mask br' = w_bit_mask (open_byte w)"
    "br_bit_value br' = uint (fin ! w_bit_index (open_byte w))" "\<not> br_backtrack br'"
proof (cases "w_bit_mask w = 0")
  case True
  let ?n = "output_index w"
  have n: "?n < length fin" using assms(3) True by (simp add: extends_def open_byte_def write_byte_def)
  then have d: "br_src br = fin ! ?n # drop (Suc ?n) fin"
    using assms(4) by (simp add: in_sync_def Cons_nth_drop_Suc)
  have m: "br_bit_mask br div 2 = 0" "\<not> br_backtrack br"
    using assms(2,4) True by (auto simp: in_sync_def)
  let ?b = "br\<lparr>br_src := drop (Suc ?n) fin, br_bit_mask := 128, br_bit_value := uint (fin ! ?n),
    br_last_byte := uint (fin ! ?n)\<rparr>"
  have "rd_bit br = (br_bit_value ?b AND int (br_bit_mask ?b) \<noteq> 0, ?b)"
    using m d by (simp add: rd_bit_def rd_byte_def Let_def)
  then show thesis using True m by (intro that [of ?b]) (simp_all add: open_byte_def write_byte_def)
next
  case False
  let ?b = "br\<lparr>br_bit_mask := br_bit_mask br div 2\<rparr>"
  have "rd_bit br = (br_bit_value ?b AND int (br_bit_mask ?b) \<noteq> 0, ?b)"
    using False assms(2,4) by (simp add: rd_bit_def in_sync_def Let_def)
  then show thesis
    using False assms(2,4) by (intro that [of ?b]) (simp_all add: open_byte_def in_sync_def)
qed

lemma write_bit_sync:
  assumes "writer_ok w" "extends fin (write_bit v w)" "in_sync fin w br"
  shows "\<exists>br'. rd_bit br = (v, br') \<and> in_sync fin (write_bit v w) br'"
proof (cases "w_backtrack w")
  case True
  let ?n = "output_index w"
  have n: "?n - 1 < ?n" and sn: "Suc (?n - 1) = ?n" using assms(1) True by (auto simp: writer_ok_def)
  have "\<not> open_bit (write_bit v w) (?n - 1) 0"
    using assms(1) True by (auto simp: open_bit_def write_bit_backtrack writer_ok_def)
  then have "bit (fin ! (?n - 1)) 0 \<longleftrightarrow> bit (w_output_data (write_bit v w) ! (?n - 1)) 0"
    using assms(2) n by (auto simp: extends_def write_bit_backtrack True)
  also have "\<dots> \<longleftrightarrow> v" using write_bit_backtrack_bits [OF assms(1) True n, of 0 v] sn by simp
  finally have v: "uint (fin ! (?n - 1)) AND 1 \<noteq> 0 \<longleftrightarrow> v"
    using uint_and_pow [of "fin ! (?n - 1)" 0] by simp
  then have "rd_bit br = (v, br\<lparr>br_backtrack := False\<rparr>)"
    using True assms(3) by (simp add: rd_bit_def in_sync_def)
  then show ?thesis using True assms(3) by (simp add: in_sync_def write_bit_backtrack)
next
  case False
  let ?u = "open_byte w"
  obtain k where k: "k < 8" "w_bit_mask ?u = 2 ^ k" "w_bit_index ?u < output_index ?u"
    "\<And>i j. open_bit ?u i j \<longleftrightarrow> i = w_bit_index ?u \<and> j \<le> k"
    "\<And>v i j. open_bit (write_bit v w) i j \<longleftrightarrow> i = w_bit_index ?u \<and> j < k"
    using write_bit_open_bit [OF assms(1) False] by metis
  have l: "output_index (write_bit v w) = output_index ?u" using False by (simp add: write_bit_plain)
  have b: "bit (fin ! w_bit_index ?u) k \<longleftrightarrow> v"
    using assms(2) k l write_bit_bits [OF assms(1) False k(3,1), of v]
    by (auto simp: extends_def)
  have "extends fin ?u"
    using assms(2) k l write_bit_bits [OF assms(1) False]
    by (auto simp: extends_def)
  from in_sync_open_byte [OF assms(1) False this assms(3)] obtain br' where
    br': "rd_bit br = (br_bit_value br' AND int (br_bit_mask br') \<noteq> 0, br')"
    "br_src br' = drop (output_index ?u) fin" "br_bit_mask br' = w_bit_mask ?u"
    "br_bit_value br' = uint (fin ! w_bit_index ?u)" "\<not> br_backtrack br'" by metis
  have "rd_bit br = (v, br')" using br' b k(2) uint_and_pow [of "fin ! w_bit_index ?u" k] by simp
  moreover have "in_sync fin (write_bit v w) br'"
    using br' False open_byte_ok(2) [OF assms(1) False] by (simp add: in_sync_def write_bit_plain)
  ultimately show ?thesis by blast
qed

text \<open>Reading a given number of bits, the client's view of a bit source.\<close>

fun get_bits :: "('r \<Rightarrow> bool \<times> 'r) \<Rightarrow> nat \<Rightarrow> 'r \<Rightarrow> bool list \<times> 'r" where
  "get_bits get 0 r = ([], r)"
| "get_bits get (Suc n) r = (case get r of (b, r1) \<Rightarrow> case get_bits get n r1 of (bs, r2) \<Rightarrow> (b # bs, r2))"

locale bit_channel =
  fixes put :: "bool \<Rightarrow> 'w \<Rightarrow> 'w"
    and get :: "'r \<Rightarrow> bool \<times> 'r"
    and ok :: "'w \<Rightarrow> bool"
    and ext :: "'s \<Rightarrow> 'w \<Rightarrow> bool"
    and sync :: "'s \<Rightarrow> 'w \<Rightarrow> 'r \<Rightarrow> bool"
  assumes put_ok: "ok w \<Longrightarrow> ok (put b w)"
    and put_ext: "ok w \<Longrightarrow> ext s (put b w) \<Longrightarrow> ext s w"
    and put_get: "ok w \<Longrightarrow> ext s (put b w) \<Longrightarrow> sync s w r \<Longrightarrow>
      \<exists>r'. get r = (b, r') \<and> sync s (put b w) r'"
begin

lemma puts_ok: "ok w \<Longrightarrow> ok (fold put bs w)"
  by (induction bs arbitrary: w) (auto intro: put_ok)

lemma puts_ext: "ok w \<Longrightarrow> ext s (fold put bs w) \<Longrightarrow> ext s w"
  by (induction bs arbitrary: w) (auto intro: put_ok put_ext)

lemma puts_gets:
  assumes "ok w" "ext s (fold put bs w)" "sync s w r"
  shows "\<exists>r'. get_bits get (length bs) r = (bs, r') \<and> sync s (fold put bs w) r'"
  using assms
proof (induction bs arbitrary: w r)
  case Nil
  then show ?case by simp
next
  case (Cons b bs)
  have ok1: "ok (put b w)" using Cons.prems(1) by (rule put_ok)
  have "ext s (put b w)" using puts_ext [OF ok1] Cons.prems(2) by simp
  then obtain r1 where r1: "get r = (b, r1)" "sync s (put b w) r1"
    using put_get Cons.prems by blast
  then obtain r2 where "get_bits get (length bs) r1 = (bs, r2)" "sync s (fold put bs (put b w)) r2"
    using Cons.IH [OF ok1 _ r1(2)] Cons.prems(2) by auto
  then show ?case using r1 by simp
qed

end

interpretation zch: bit_channel write_bit rd_bit writer_ok extends in_sync
  by unfold_locales (simp_all add: write_bit_ok write_bit_extends write_bit_sync)

lemma bits_left_bounds: "0 < m \<Longrightarrow> 2 ^ bits_left m \<le> m \<and> m < 2 ^ Suc (bits_left m)"
proof (induction m rule: bits_left.induct)
  case (1 m)
  show ?case
  proof (cases "m \<le> 1")
    case True
    then show ?thesis using "1.prems" by (simp add: bits_left.simps [of m])
  next
    case False
    then have "2 ^ bits_left (m div 2) \<le> m div 2 \<and> m div 2 < 2 ^ Suc (bits_left (m div 2))"
      using "1.IH" by simp
    then show ?thesis using False by (simp add: bits_left.simps [of m]) linarith
  qed
qed

lemma bits_left_eqI: "2 ^ k \<le> m \<Longrightarrow> m < 2 ^ Suc k \<Longrightarrow> bits_left m = k"
proof -
  assume k: "2 ^ k \<le> m" "m < 2 ^ Suc k"
  then have b: "2 ^ bits_left m \<le> m" "m < 2 ^ Suc (bits_left m)"
    using bits_left_bounds [of m] zero_less_power [of "2::nat" k] by auto
  have "(2::nat) ^ k < 2 ^ Suc (bits_left m)" "(2::nat) ^ bits_left m < 2 ^ Suc k"
    using k b by linarith+
  then show ?thesis by (simp only: power_strict_increasing_iff one_less_numeral_iff semiring_norm)
qed

section \<open>Interlaced Elias gamma numbers\<close>

fun eg_digits :: "nat \<Rightarrow> nat \<Rightarrow> bool \<Rightarrow> bool list" where
  "eg_digits 0 val iv = []"
| "eg_digits (Suc k) val iv = False # (bit val k \<noteq> iv) # eg_digits k val iv"

definition eg_code :: "nat \<Rightarrow> bool \<Rightarrow> bool list" where
  "eg_code val iv = eg_digits (bits_left val) val iv @ [True]"

lemma eg_top_pow:
  "2 ^ j \<le> val \<Longrightarrow> eg_top val (2 ^ Suc j) = 2 ^ Suc (bits_left val)"
proof (induction "val - 2 ^ j" arbitrary: j rule: less_induct)
  case less
  show ?case
  proof (cases "2 ^ Suc j \<le> val")
    case True
    have "(0::nat) < 2 ^ j" by simp
    then have "val - 2 ^ Suc j < val - 2 ^ j" using True unfolding power_Suc by linarith
    then have "eg_top val (2 ^ Suc (Suc j)) = 2 ^ Suc (bits_left val)"
      using less.hyps True by blast
    then show ?thesis using True by (subst eg_top.simps) (simp add: mult.commute)
  next
    case False
    then have "bits_left val = j" using less.prems by (intro bits_left_eqI) auto
    then show ?thesis using False by (subst eg_top.simps) simp
  qed
qed

lemma and_pow_bit:
  "val AND (2::nat) ^ k = 0 \<longleftrightarrow> \<not> bit val k" "0 < val AND (2::nat) ^ k \<longleftrightarrow> bit val k"
  using and_exp_eq_0_iff_not_bit [of val k] by auto

lemma eg_loop_code: "eg_loop (2 ^ k) val False iv w = fold write_bit (eg_digits k val iv) w"
proof (induction k arbitrary: w)
  case 0
  then show ?case by (subst eg_loop.simps) simp
next
  case (Suc k)
  then show ?case by (subst eg_loop.simps) (auto simp: and_pow_bit)
qed

lemma write_elias_code:
  "0 < val \<Longrightarrow>
   write_interlaced_elias_gamma val False iv w = fold write_bit (eg_code val iv) w"
  using eg_top_pow [of 0 val]
  by (simp add: write_interlaced_elias_gamma_def eg_loop_code eg_code_def)

lemma nat_bit_step:
  fixes val :: nat
  shows "val div 2 ^ k = (val div 2 ^ Suc k) * 2 + (if bit val k then 1 else 0)"
proof -
  have "val div 2 ^ k = (val div 2 ^ k div 2) * 2 + val div 2 ^ k mod 2" by simp
  also have "val div 2 ^ k div 2 = val div 2 ^ Suc k"
    by (simp only: power_Suc2 div_mult2_eq)
  finally show ?thesis by (simp add: bit_iff_odd odd_iff_mod_2_eq_one)
qed

lemma elias_loop_digits:
  assumes "val < 2 ^ 31" "get_bits rd_bit (length (eg_digits k val iv @ [True])) br = (eg_digits k val iv @ [True], br')"
  shows "elias_loop br iv (int (val div 2 ^ k)) = (int val, br')"
  using assms(2)
proof (induction k arbitrary: br)
  case 0
  then have "rd_bit br = (True, br')" by (auto split: prod.splits)
  then show ?case by (simp add: elias_loop.simps [of br])
next
  case (Suc k)
  obtain b1 br1 where b1: "rd_bit br = (b1, br1)" by fastforce
  obtain b2 br2 where b2: "rd_bit br1 = (b2, br2)" by fastforce
  have b: "\<not> b1" "b2 = (bit val k \<noteq> iv)"
    and rest: "get_bits rd_bit (length (eg_digits k val iv @ [True])) br2 = (eg_digits k val iv @ [True], br')"
    using Suc.prems b1 b2 by (auto split: prod.splits)
  have "val div 2 ^ k \<le> val" by (rule div_le_dividend)
  moreover have "val < 2147483648" using assms(1) by simp
  ultimately have le: "int (val div 2 ^ k) \<le> 2147483647" by linarith
  have "int (val div 2 ^ Suc k) * 2 + b2i (b2 \<noteq> iv) = int (val div 2 ^ k)"
    using b nat_bit_step [of val k] by auto
  moreover have "wrap_int (int (val div 2 ^ k)) = int (val div 2 ^ k)"
    using le by (intro wrap_int_id is_c_int_small) simp_all
  ultimately have "elias_loop br iv (int (val div 2 ^ Suc k)) = elias_loop br2 iv (int (val div 2 ^ k))"
    using b1 b2 b by (simp add: elias_loop.simps [of br])
  then show ?case using Suc.IH [OF rest] by simp
qed

lemma elias_read_code:
  assumes "0 < val" "val < 2 ^ 31"
    and "get_bits rd_bit (length (eg_code val iv)) br = (eg_code val iv, br')"
  shows "rd_elias_gamma br iv = (int val, br')"
proof -
  have "val div 2 ^ bits_left val = 1"
    using assms(1) bits_left_bounds [of val]
    by (intro div_nat_eqI) (auto simp: mult.commute)
  then show ?thesis
    using elias_loop_digits [of val "bits_left val" iv br br'] assms
    by (simp add: rd_elias_gamma_def eg_code_def)
qed

text \<open>What one number written by the encoder is for the decoder.\<close>

lemma elias_channel:
  assumes "writer_ok w" "0 < val" "val < 2 ^ 31"
    and "extends fin (write_interlaced_elias_gamma val False iv w)" "in_sync fin w br"
  shows "\<exists>br'. rd_elias_gamma br iv = (int val, br')
    \<and> in_sync fin (write_interlaced_elias_gamma val False iv w) br'"
proof -
  let ?c = "eg_code val iv"
  have e: "write_interlaced_elias_gamma val False iv w = fold write_bit ?c w"
    using assms(2) by (rule write_elias_code)
  obtain br' where "get_bits rd_bit (length ?c) br = (?c, br')" "in_sync fin (fold write_bit ?c w) br'"
    using zch.puts_gets [OF assms(1) _ assms(5)] assms(4) e by metis
  then show ?thesis using elias_read_code [OF assms(2,3)] e by metis
qed

lemma elias_ok: "writer_ok w \<Longrightarrow> 0 < n \<Longrightarrow> writer_ok (write_interlaced_elias_gamma n False iv w)"
  by (simp add: write_elias_code zch.puts_ok)

lemma elias_extends:
  "writer_ok w \<Longrightarrow> 0 < n \<Longrightarrow> extends fin (write_interlaced_elias_gamma n False iv w) \<Longrightarrow> extends fin w"
  using zch.puts_ext by (simp add: write_elias_code)

section \<open>Bytes and blocks\<close>

lemma read_bytes_sync [simp]:
  "writer_ok (read_bytes n w) = writer_ok w" "extends fin (read_bytes n w) = extends fin w"
  "in_sync fin (read_bytes n w) br = in_sync fin w br" "w_backtrack (read_bytes n w) = w_backtrack w"
  "w_input_index (read_bytes n w) = w_input_index w + n"
  "w_output_data (read_bytes n w) = w_output_data w"
  by (auto simp: read_bytes_def Let_def writer_ok_def extends_def in_sync_def open_bit_def)

lemma write_bit_frame [simp]:
  "w_backtrack (write_bit v w) = False" "w_input_index (write_bit v w) = w_input_index w"
  by (auto simp: write_bit_def Let_def write_byte_def)

lemma fold_write_bit_frame:
  "w_input_index (fold write_bit bs w) = w_input_index w \<and> (bs \<noteq> [] \<longrightarrow> \<not> w_backtrack (fold write_bit bs w))"
  by (induction bs arbitrary: w) (auto, metis fold_simps(1) write_bit_frame(1))

lemma elias_frame [simp]:
  "0 < n \<Longrightarrow> w_input_index (write_interlaced_elias_gamma n False iv w) = w_input_index w"
  "\<not> w_backtrack (write_interlaced_elias_gamma n False iv w)"
  by (simp_all add: write_elias_code fold_write_bit_frame) (simp add: write_interlaced_elias_gamma_def)

lemma write_byte_frame [simp]:
  "w_backtrack (write_byte v w) = w_backtrack w" "w_input_index (write_byte v w) = w_input_index w"
  "w_output_data (write_byte v w) = w_output_data w @ [v]"
  "w_bit_mask (write_byte v w) = w_bit_mask w" "w_bit_index (write_byte v w) = w_bit_index w"
  by (auto simp: write_byte_def)

lemma write_byte_ok:
  assumes "writer_ok w" "\<not> w_backtrack w"
  shows "writer_ok (write_byte v w)"
  using assms by (auto simp: writer_ok_def open_bit_def nth_append less_Suc_eq)

lemma write_byte_backtrack_ok:
  assumes "writer_ok w" "\<not> w_backtrack w" "\<not> bit v 0"
  shows "writer_ok (write_byte v w\<lparr>w_backtrack := True\<rparr>)"
  using assms by (auto simp: writer_ok_def open_bit_def nth_append less_Suc_eq)

lemma write_byte_extends:
  assumes "writer_ok w" "\<not> w_backtrack w" "extends fin (write_byte v w\<lparr>w_backtrack := b\<rparr>)"
  shows "extends fin w" "output_index w < length fin"
    "\<And>j. j < 8 \<Longrightarrow> \<not> (b \<and> j = 0) \<Longrightarrow> bit (fin ! output_index w) j = bit v j"
proof -
  show "extends fin w"
    using assms by (auto simp: extends_def open_bit_def nth_append)
  show "output_index w < length fin" using assms(3) by (auto simp: extends_def)
  show "bit (fin ! output_index w) j = bit v j" if "j < 8" "\<not> (b \<and> j = 0)" for j
  proof -
    have "\<not> open_bit (write_byte v w\<lparr>w_backtrack := b\<rparr>) (output_index w) j"
      using assms(1) that(2) by (auto simp: open_bit_def writer_ok_def)
    then show ?thesis using assms(3) that(1) by (auto simp: extends_def)
  qed
qed

lemma write_byte_extends_plain:
  assumes "writer_ok w" "\<not> w_backtrack w" "extends fin (write_byte v w)"
  shows "extends fin w" "fin ! output_index w = v" "output_index w < length fin"
proof -
  have e: "extends fin (write_byte v w\<lparr>w_backtrack := False\<rparr>)"
    using assms(2,3) by (auto simp: extends_def open_bit_def)
  show "extends fin w" "output_index w < length fin"
    using write_byte_extends [OF assms(1,2) e] by auto
  show "fin ! output_index w = v"
    using write_byte_extends(3) [OF assms(1,2) e] by (intro bit_word_eqI) auto
qed

lemma rd_byte_sync:
  assumes "in_sync fin w br" "\<not> w_backtrack w" "output_index w < length fin"
  shows "\<exists>br'. rd_byte br = (uint (fin ! output_index w), br')
    \<and> in_sync fin (write_byte v w) br'
    \<and> in_sync fin (write_byte v w\<lparr>w_backtrack := True\<rparr>) (br'\<lparr>br_backtrack := True\<rparr>)"
proof -
  have "br_src br = fin ! output_index w # drop (Suc (output_index w)) fin"
    using assms(1,3) by (simp add: in_sync_def Cons_nth_drop_Suc)
  then have "rd_byte br = (uint (fin ! output_index w),
      br\<lparr>br_src := drop (Suc (output_index w)) fin, br_last_byte := uint (fin ! output_index w)\<rparr>)"
    by (simp add: rd_byte_def)
  then show ?thesis
    using assms(1,2) by (simp add: in_sync_def)
qed

lemma emit_literals_ok:
  "writer_ok w \<Longrightarrow> \<not> w_backtrack w \<Longrightarrow>
   writer_ok (emit_literals n input w) \<and> \<not> w_backtrack (emit_literals n input w)
   \<and> w_input_index (emit_literals n input w) = w_input_index w + n"
  by (induction n input w rule: emit_literals.induct) (auto simp: write_byte_ok)

lemma emit_literals_extends:
  "writer_ok w \<Longrightarrow> \<not> w_backtrack w \<Longrightarrow> extends fin (emit_literals n input w) \<Longrightarrow> extends fin w"
proof (induction n input w rule: emit_literals.induct)
  case (2 n input w)
  let ?w = "write_byte (input ! w_input_index w) w"
  have "extends fin ?w" using 2 by (simp add: write_byte_ok)
  then show ?case using write_byte_extends_plain(1) 2 by blast
qed simp

section \<open>Chains of blocks\<close>

text \<open>
  What the chain of blocks must say of the input for the stream to be decodable: a block with
  offset 0 is a run of literals; any other block repeats the bytes that lie that offset back. The
  format has one indicator bit per block, so literals do not follow literals and a repetition at
  the current offset follows literals only (\<open>am\<close>: the previous block was a match).
\<close>

definition match_ok :: "8 word list \<Rightarrow> nat \<Rightarrow> nat \<Rightarrow> nat \<Rightarrow> bool" where
  "match_ok input off p n \<longleftrightarrow> 0 < off \<and> off \<le> p \<and> (\<forall>i\<in>{p..<p + n}. input ! i = input ! (i - off))"

fun chain_ok :: "8 word list \<Rightarrow> bool \<Rightarrow> nat \<Rightarrow> nat \<Rightarrow> (nat \<times> nat) list \<Rightarrow> bool" where
  "chain_ok input am lo p [] = (p = length input)"
| "chain_ok input am lo p ((n, off) # bs) =
     (0 < n \<and> p + n \<le> length input
      \<and> (if off = 0 then am \<and> chain_ok input False lo (p + n) bs
         else match_ok input off p n
           \<and> (if off = lo then \<not> am else 2 \<le> n \<and> off \<le> 32640)
           \<and> chain_ok input True off (p + n) bs))"

text \<open>Lengths and offsets of a chain, first block first.\<close>

fun chain_steps :: "BLOCK \<Rightarrow> BLOCK list \<Rightarrow> (nat \<times> nat) list" where
  "chain_steps prev [] = []"
| "chain_steps prev (b # bs) = (nat (bl_index b - bl_index prev), bl_offset b) # chain_steps b bs"

text \<open>Decoder and encoder agree: same stream position, same prefix of the data.\<close>

definition dec_sync :: "8 word list \<Rightarrow> 8 word list \<Rightarrow> nat \<Rightarrow> nat \<times> zx0_writer \<Rightarrow> zx0_state \<Rightarrow> bool" where
  "dec_sync fin input out_max lw st \<longleftrightarrow>
     in_sync fin (snd lw) (z_br st) \<and> z_last_offset st = int (fst lw)
     \<and> z_out_pos st = w_input_index (snd lw)
     \<and> length (z_out st) = out_max \<and> length input \<le> out_max
     \<and> take (z_out_pos st) (z_out st) = take (z_out_pos st) input"

lemma take_extend:
  assumes "take p out = take p input" "p < length out" "p < length input"
  shows "take (Suc p) (out[p := input ! p]) = take (Suc p) input"
  using assms by (simp add: take_Suc_update take_Suc_conv_app_nth)

lemma copy_literals_sync:
  assumes "writer_ok w" "\<not> w_backtrack w" "extends fin (emit_literals n input w)"
    and "dec_sync fin input m (lo, w) st" "w_input_index w + n \<le> length input"
  shows "\<exists>st'. zx0_copy_literals m n st = ZGo st' \<and> dec_sync fin input m (lo, emit_literals n input w) st'"
  using assms
proof (induction n input w arbitrary: st rule: emit_literals.induct)
  case (1 input w)
  then show ?case by simp
next
  case (2 n input w)
  let ?p = "w_input_index w" and ?w = "write_byte (input ! w_input_index w) w"
  have ok: "writer_ok (read_bytes 1 ?w)" "\<not> w_backtrack (read_bytes 1 ?w)"
    using "2.prems" write_byte_ok by auto
  have e: "extends fin ?w"
    using emit_literals_extends [OF ok] "2.prems"(3) by simp
  note f = write_byte_extends_plain [OF "2.prems"(1,2) e]
  obtain br' where br': "rd_byte (z_br st) = (uint (input ! ?p), br')" "in_sync fin ?w br'"
    using rd_byte_sync [OF _ "2.prems"(2) f(3)] "2.prems"(4) f(2) by (fastforce simp: dec_sync_def)
  let ?st = "st\<lparr>z_br := br', z_out := (z_out st)[?p := input ! ?p], z_out_pos := Suc ?p\<rparr>"
  have d: "dec_sync fin input m (lo, read_bytes 1 ?w) ?st"
    using br' "2.prems"(4,5) take_extend [of ?p "z_out st" input] by (auto simp: dec_sync_def)
  have "zx0_copy_literals m (Suc n) st = zx0_copy_literals m n ?st"
    using br' "2.prems"(4,5) by (auto simp: dec_sync_def)
  then show ?case using "2.IH" [OF ok _ d] "2.prems"(3,5) by simp
qed

lemma copy_match_sync:
  assumes "match_ok input off p n" "p + n \<le> length input" "z_out_pos st = p"
    and "z_last_offset st = int off" "length (z_out st) = m" "length input \<le> m" "int m \<le> INT_MAX"
    and "take p (z_out st) = take p input"
  shows "\<exists>out'. zx0_copy_match m n st = ZGo (st\<lparr>z_out := out', z_out_pos := p + n\<rparr>)
    \<and> length out' = m \<and> take (p + n) out' = take (p + n) input"
  using assms
proof (induction n arbitrary: p st)
  case 0
  then show ?case by (intro exI [of _ "z_out st"]) auto
next
  case (Suc n)
  have o: "0 < off" "off \<le> p" "input ! p = input ! (p - off)" "match_ok input off (Suc p) n"
    using Suc.prems(1) by (auto simp: match_ok_def)
  have "z_out st ! (p - off) = take p (z_out st) ! (p - off)" using o by simp
  also have "\<dots> = input ! p" using o Suc.prems(8) by simp
  finally have v: "z_out st ! (p - off) = input ! p" .
  have sp: "wrap_int (int p - int off) = int (p - off)"
    using o Suc.prems(2,6,7) by (simp add: of_nat_diff INT_MAX_def)
  let ?st = "st\<lparr>z_out := (z_out st)[p := input ! p], z_out_pos := Suc p\<rparr>"
  have st: "zx0_copy_match m (Suc n) st = zx0_copy_match m n ?st"
    using Suc.prems sp o v by (auto simp: Let_def simp flip: of_nat_diff)
  have "take (Suc p) (z_out ?st) = take (Suc p) input"
    using Suc.prems take_extend [of p "z_out st" input] by simp
  then show ?case
    using Suc.IH [OF o(4), of ?st] Suc.prems st by auto
qed

section \<open>Decoding what was encoded\<close>

text \<open>The encoder's three kinds of block, with the modes the packer uses (forward, inverted).\<close>

definition enc_lit :: "8 word list \<Rightarrow> nat \<Rightarrow> zx0_writer \<Rightarrow> zx0_writer" where
  "enc_lit input n w = emit_literals n input (write_interlaced_elias_gamma n False False (write_bit False w))"

definition enc_rep :: "nat \<Rightarrow> zx0_writer \<Rightarrow> zx0_writer" where
  "enc_rep n w = read_bytes n (write_interlaced_elias_gamma n False False (write_bit False w))"

definition enc_lsb :: "nat \<Rightarrow> 8 word" where
  "enc_lsb off = of_nat ((127 - (off - 1) mod 128) * 2)"

definition enc_new :: "nat \<Rightarrow> nat \<Rightarrow> zx0_writer \<Rightarrow> zx0_writer" where
  "enc_new off n w = read_bytes n (write_interlaced_elias_gamma (n - 1) False False
     (write_byte (enc_lsb off)
       (write_interlaced_elias_gamma ((off - 1) div 128 + 1) False True (write_bit True w))
     \<lparr>w_backtrack := True\<rparr>))"

lemma emit_block_kinds:
  "emit_block input False True prev b (lo, w) =
     (let n = nat (bl_index b - bl_index prev); off = bl_offset b in
        if off = 0 then (lo, enc_lit input n w)
        else if off = lo then (lo, enc_rep n w)
        else (off, enc_new off n w))"
  by (simp add: emit_block_def enc_lit_def enc_rep_def enc_new_def enc_lsb_def Let_def)

lemma enc_lsb_even: "\<not> bit (enc_lsb off) 0"
  by (simp add: enc_lsb_def bit_0)

lemma uint_enc_lsb: "uint (enc_lsb off) = int ((127 - (off - 1) mod 128) * 2)"
proof -
  have "(127 - (off - 1) mod 128) * 2 < (256::nat)" by linarith
  then show ?thesis unfolding enc_lsb_def
    by (simp only: uint_nat unat_of_nat) (simp add: take_bit_eq_mod)
qed

lemma enc_lit_ok:
  "writer_ok w \<Longrightarrow> 0 < n \<Longrightarrow> writer_ok (enc_lit input n w) \<and> \<not> w_backtrack (enc_lit input n w)
   \<and> w_input_index (enc_lit input n w) = w_input_index w + n"
  unfolding enc_lit_def
  using emit_literals_ok [of "write_interlaced_elias_gamma n False False (write_bit False w)"]
  by (simp add: elias_ok write_bit_ok)

lemma enc_lit_extends:
  assumes "writer_ok w" "0 < n" "extends fin (enc_lit input n w)"
  shows "extends fin (write_interlaced_elias_gamma n False False (write_bit False w))"
    "extends fin (write_bit False w)" "extends fin w"
proof -
  let ?b = "write_bit False w" let ?e = "write_interlaced_elias_gamma n False False ?b"
  have b: "writer_ok ?b" using assms(1) by (rule write_bit_ok)
  then have e: "writer_ok ?e" using assms(2) by (rule elias_ok)
  then show 1: "extends fin ?e"
    using assms(3) emit_literals_extends [of ?e] by (simp add: enc_lit_def)
  show 2: "extends fin ?b" by (rule elias_extends [OF b assms(2) 1])
  show "extends fin w" by (rule write_bit_extends [OF assms(1) 2])
qed

lemma enc_rep_ok:
  "writer_ok w \<Longrightarrow> 0 < n \<Longrightarrow> writer_ok (enc_rep n w) \<and> \<not> w_backtrack (enc_rep n w)
   \<and> w_input_index (enc_rep n w) = w_input_index w + n"
  by (simp add: enc_rep_def elias_ok write_bit_ok)

lemma enc_rep_extends:
  assumes "writer_ok w" "0 < n" "extends fin (enc_rep n w)"
  shows "extends fin (write_bit False w)" "extends fin w"
proof -
  have b: "writer_ok (write_bit False w)" using assms(1) by (rule write_bit_ok)
  show 2: "extends fin (write_bit False w)"
    using elias_extends [OF b assms(2)] assms(3) by (simp add: enc_rep_def)
  show "extends fin w" by (rule write_bit_extends [OF assms(1) 2])
qed

lemma enc_new_steps:
  fixes off n :: nat and w :: zx0_writer
  assumes "writer_ok w" "2 \<le> n"
  defines "w1 \<equiv> write_interlaced_elias_gamma ((off - 1) div 128 + 1) False True (write_bit True w)"
  defines "w2 \<equiv> write_byte (enc_lsb off) w1\<lparr>w_backtrack := True\<rparr>"
  shows "writer_ok (write_bit True w)" "writer_ok w1" "\<not> w_backtrack w1" "writer_ok w2"
    "writer_ok (enc_new off n w)" "\<not> w_backtrack (enc_new off n w)"
    "w_input_index (enc_new off n w) = w_input_index w + n"
    "extends fin (enc_new off n w) \<Longrightarrow> extends fin w2"
    "extends fin w2 \<Longrightarrow> extends fin w1"
    "extends fin w1 \<Longrightarrow> extends fin (write_bit True w)"
    "extends fin (write_bit True w) \<Longrightarrow> extends fin w"
proof -
  have n: "0 < n - 1" using assms(2) by simp
  show b: "writer_ok (write_bit True w)" using assms(1) by (rule write_bit_ok)
  show w1: "writer_ok w1" unfolding w1_def by (rule elias_ok [OF b]) simp
  show bt: "\<not> w_backtrack w1" by (simp add: w1_def)
  show w2: "writer_ok w2" unfolding w2_def
    by (rule write_byte_backtrack_ok [OF w1 bt enc_lsb_even])
  have en: "enc_new off n w = read_bytes n (write_interlaced_elias_gamma (n - 1) False False w2)"
    by (simp add: enc_new_def w2_def w1_def)
  show "writer_ok (enc_new off n w)" "\<not> w_backtrack (enc_new off n w)"
    using w2 n by (simp_all add: en elias_ok)
  show "w_input_index (enc_new off n w) = w_input_index w + n"
    using n by (simp add: en w2_def w1_def)
  show "extends fin (enc_new off n w) \<Longrightarrow> extends fin w2"
    using elias_extends [OF w2 n] by (simp add: en)
  show "extends fin w2 \<Longrightarrow> extends fin w1"
    unfolding w2_def by (rule write_byte_extends(1) [OF w1 bt])
  show "extends fin w1 \<Longrightarrow> extends fin (write_bit True w)"
    unfolding w1_def by (rule elias_extends [OF b]) simp_all
  show "extends fin (write_bit True w) \<Longrightarrow> extends fin w" by (rule write_bit_extends [OF assms(1)])
qed

lemma literals_sync_from:
  assumes "writer_ok b" "0 < n"
    and "extends fin (emit_literals n input (write_interlaced_elias_gamma n False False b))"
    and "dec_sync fin input m (lo, b) st"
    and "w_input_index b + n \<le> length input" "length input < 2 ^ 31"
  shows "\<exists>st'. zx0_literals m st = ZGo st' \<and> dec_sync fin input m
    (lo, emit_literals n input (write_interlaced_elias_gamma n False False b)) st'"
proof -
  let ?e = "write_interlaced_elias_gamma n False False b"
  have e: "writer_ok ?e" using assms(1,2) by (rule elias_ok)
  have ee: "extends fin ?e" by (rule emit_literals_extends [OF e _ assms(3)]) simp
  have n: "n < 2 ^ 31" using assms(5,6) by linarith
  obtain br where br: "rd_elias_gamma (z_br st) False = (int n, br)" "in_sync fin ?e br"
    using elias_channel [OF assms(1,2) n ee] assms(4) by (auto simp: dec_sync_def)
  have d: "dec_sync fin input m (lo, ?e) (st\<lparr>z_br := br\<rparr>)"
    using assms(2,4) br by (auto simp: dec_sync_def)
  from copy_literals_sync [OF e _ assms(3) d] show ?thesis
    using br assms(2,5) by (simp add: zx0_literals_def)
qed

lemma literals_sync:
  assumes "writer_ok w" "0 < n" "extends fin (enc_lit input n w)"
    and "dec_sync fin input m (lo, write_bit False w) st"
    and "w_input_index w + n \<le> length input" "length input < 2 ^ 31"
  shows "\<exists>st'. zx0_literals m st = ZGo st' \<and> dec_sync fin input m (lo, enc_lit input n w) st'"
  using literals_sync_from [OF write_bit_ok [OF assms(1)] assms(2)] assms(3-6)
  by (simp add: enc_lit_def)

lemma dec_sync_match:
  assumes "dec_sync fin input m (lo, w) st" "match_ok input off p n" "p + n \<le> length input"
    and "int m \<le> INT_MAX" "p = w_input_index w" "in_sync fin w' br"
    and "w_input_index w' = p"
  shows "\<exists>st'. zx0_copy_match m n (st\<lparr>z_br := br, z_last_offset := int off\<rparr>) = ZGo st'
    \<and> dec_sync fin input m (off, read_bytes n w') st'"
proof -
  let ?st = "st\<lparr>z_br := br, z_last_offset := int off\<rparr>"
  have "z_out_pos ?st = p" "z_last_offset ?st = int off" "length (z_out ?st) = m"
    "length input \<le> m" "take p (z_out ?st) = take p input"
    using assms(1,5) by (auto simp: dec_sync_def)
  from copy_match_sync [OF assms(2,3) this(1-4) assms(4) this(5)]
  show ?thesis using assms(1,6,7) by (auto simp: dec_sync_def)
qed

lemma last_offset_sync:
  assumes "writer_ok w" "0 < n" "extends fin (enc_rep n w)"
    and "dec_sync fin input m (lo, write_bit False w) st"
    and "match_ok input lo (w_input_index w) n" "w_input_index w + n \<le> length input"
    and "int m \<le> INT_MAX" "length input < 2 ^ 31"
  shows "\<exists>st'. zx0_last_offset m st = ZGo st' \<and> dec_sync fin input m (lo, enc_rep n w) st'"
proof -
  let ?b = "write_bit False w" let ?e = "write_interlaced_elias_gamma n False False ?b"
  have b: "writer_ok ?b" using assms(1) by (rule write_bit_ok)
  have n: "n < 2 ^ 31" using assms(6,8) by linarith
  have e: "extends fin ?e" using assms(3) by (simp add: enc_rep_def)
  obtain br where br: "rd_elias_gamma (z_br st) False = (int n, br)" "in_sync fin ?e br"
    using elias_channel [OF b assms(2) n e] assms(4) by (auto simp: dec_sync_def)
  have lo: "z_last_offset st = int lo" using assms(4) by (simp add: dec_sync_def)
  have "st\<lparr>z_br := br, z_last_offset := int lo\<rparr> = st\<lparr>z_br := br\<rparr>" using lo by simp
  then show ?thesis
    using dec_sync_match [OF assms(4,5,6,7) _ br(2)] br(1) assms(2)
    by (simp add: zx0_last_offset_def enc_rep_def)
qed

lemma uint_half_eq:
  fixes a b :: "8 word"
  assumes "\<And>j. j < 8 \<Longrightarrow> j \<noteq> 0 \<Longrightarrow> bit a j = bit b j"
  shows "uint a div 2 = uint b div 2"
proof -
  have "drop_bit 1 a = drop_bit 1 b"
  proof (rule bit_word_eqI)
    fix n assume "n < LENGTH(8)"
    show "bit (drop_bit 1 a) n \<longleftrightarrow> bit (drop_bit 1 b) n"
      using assms [of "Suc n"] bit_imp_le_length [of a "Suc n"] bit_imp_le_length [of b "Suc n"]
      by (cases "Suc n < 8") (auto simp: bit_drop_bit_eq)
  qed
  then have "uint (drop_bit 1 a) = uint (drop_bit 1 b)" by simp
  then show ?thesis by (simp add: uint_div drop_bit_Suc)
qed

lemma offset_decode:
  assumes "0 < off" "off \<le> 32640"
  shows "wrap_int (wrap_int (int ((off - 1) div 128 + 1) * 128) - uint (enc_lsb off) div 2) = int off"
proof -
  have m: "off - 1 = (off - 1) div 128 * 128 + (off - 1) mod 128" "(off - 1) mod 128 < 128" by auto
  have "int off = int ((off - 1) div 128) * 128 + int ((off - 1) mod 128) + 1"
    using m(1) assms(1) by linarith
  moreover have "uint (enc_lsb off) div 2 = 127 - int ((off - 1) mod 128)"
    using m(2) by (simp add: uint_enc_lsb of_nat_diff)
  ultimately have "int ((off - 1) div 128 + 1) * 128 - uint (enc_lsb off) div 2 = int off" by simp
  moreover have "(off - 1) div 128 < 255" using assms by (simp add: less_mult_imp_div_less)
  then have "int ((off - 1) div 128 + 1) * 128 \<le> 40000" by simp
  ultimately show ?thesis using assms
    by (simp add: wrap_int_id is_c_int_small del: of_nat_add of_nat_mult)
qed

lemma new_offset_sync:
  assumes "writer_ok w" "2 \<le> n" "off \<le> 32640" "extends fin (enc_new off n w)"
    and "dec_sync fin input m (lo, write_bit True w) st"
    and "match_ok input off (w_input_index w) n" "w_input_index w + n \<le> length input"
    and "int m \<le> INT_MAX" "length input < 2 ^ 30"
  shows "\<exists>st'. zx0_new_offset m st = ZGo st' \<and> dec_sync fin input m (off, enc_new off n w) st'"
proof -
  let ?k = "(off - 1) div 128 + 1"
  define w1 where "w1 = write_interlaced_elias_gamma ?k False True (write_bit True w)"
  define w2 where "w2 = write_byte (enc_lsb off) w1\<lparr>w_backtrack := True\<rparr>"
  have off: "0 < off" using assms(6) by (simp add: match_ok_def)
  have k: "0 < ?k" "?k < 2 ^ 31" "int ?k \<noteq> 256" using assms(3) off by auto
  have S: "writer_ok (write_bit True w)" "writer_ok w1" "\<not> w_backtrack w1" "writer_ok w2"
    unfolding w1_def w2_def by (rule enc_new_steps [OF assms(1,2)])+
  have e2: "extends fin w2" unfolding w1_def w2_def by (rule enc_new_steps(8) [OF assms(1,2,4)])
  then have e1: "extends fin w1" unfolding w1_def w2_def by (rule enc_new_steps(9) [OF assms(1,2)])
  obtain br where br: "rd_elias_gamma (z_br st) True = (int ?k, br)" "in_sync fin w1 br"
    using elias_channel [OF S(1) k(1,2), of fin True "z_br st"] e1 assms(5)
    by (auto simp: w1_def dec_sync_def)
  note X = write_byte_extends [OF S(2,3), of fin True "enc_lsb off", folded w2_def, OF e2]
  obtain br1 where br1: "rd_byte br = (uint (fin ! output_index w1), br1)"
    "in_sync fin w2 (br1\<lparr>br_backtrack := True\<rparr>)"
    using rd_byte_sync [OF br(2) S(3) X(2), of "enc_lsb off", folded w2_def] by blast
  have t: "uint (fin ! output_index w1) div 2 = uint (enc_lsb off) div 2"
    by (rule uint_half_eq) (use X(3) in auto)
  have n: "0 < n - 1" "n - 1 < 2 ^ 31" "wrap_int (int (n - 1) + 1) = int n"
    using assms(2,7,9) by (auto intro!: wrap_int_id is_c_int_small)
  have e3: "extends fin (write_interlaced_elias_gamma (n - 1) False False w2)"
    using assms(4) by (simp add: enc_new_def w2_def w1_def)
  obtain br2 where br2: "rd_elias_gamma (br1\<lparr>br_backtrack := True\<rparr>) False = (int (n - 1), br2)"
    "in_sync fin (write_interlaced_elias_gamma (n - 1) False False w2) br2"
    using elias_channel [OF S(4) n(1,2) e3 br1(2)] by auto
  have wi: "w_input_index (write_interlaced_elias_gamma (n - 1) False False w2) = w_input_index w"
    using n(1) by (simp add: w2_def w1_def)
  obtain st' where st': "zx0_copy_match m n (st\<lparr>z_br := br2, z_last_offset := int off\<rparr>) = ZGo st'"
    "dec_sync fin input m (off, read_bytes n (write_interlaced_elias_gamma (n - 1) False False w2)) st'"
    using dec_sync_match [OF assms(5-8) _ br2(2) wi] by auto
  have "zx0_new_offset m st = ZGo st'"
    using br(1) k(3) br1(1) br2(1) t offset_decode [OF off assms(3)] n(3) st'(1)
    by (simp add: zx0_new_offset_def Let_def)
  then show ?thesis using st'(2) by (auto simp: enc_new_def w2_def w1_def)
qed

definition enc_end :: "zx0_writer \<Rightarrow> zx0_writer" where
  "enc_end w = write_interlaced_elias_gamma 256 False True (write_bit True w)"

lemma end_sync:
  assumes "writer_ok w" "extends fin (enc_end w)" "dec_sync fin input m (lo, write_bit True w) st"
  shows "zx0_new_offset m st = ZDone (ZReturn (int (z_out_pos st)) (z_out st))"
proof -
  have b: "writer_ok (write_bit True w)" using assms(1) by (rule write_bit_ok)
  have "\<exists>br. rd_elias_gamma (z_br st) True = (int 256, br)"
    using elias_channel [OF b, of 256 fin True "z_br st"] assms(2,3)
    by (auto simp: enc_end_def dec_sync_def)
  then show ?thesis by (auto simp: zx0_new_offset_def)
qed

text \<open>The decoder's continuations at the two places where it reads an indicator bit.\<close>

definition dec_new :: "nat \<Rightarrow> zx0_state \<Rightarrow> zx0_result" where
  "dec_new m st = (case zx0_new_loop m st of ZDone r \<Rightarrow> r | ZGo st' \<Rightarrow> zx0_loop m st')"

definition dec_after_match :: "nat \<Rightarrow> zx0_state \<Rightarrow> zx0_result" where
  "dec_after_match m st =
     (case rd_bit (z_br st) of
        (False, br) \<Rightarrow> zx0_loop m (st\<lparr>z_br := br\<rparr>)
      | (True, br) \<Rightarrow> dec_new m (st\<lparr>z_br := br\<rparr>))"

definition dec_after_lits :: "nat \<Rightarrow> zx0_state \<Rightarrow> zx0_result" where
  "dec_after_lits m st =
     (case rd_bit (z_br st) of
        (True, br) \<Rightarrow> dec_new m (st\<lparr>z_br := br\<rparr>)
      | (False, br) \<Rightarrow>
          (case zx0_last_offset m (st\<lparr>z_br := br\<rparr>) of
             ZDone r \<Rightarrow> r | ZGo st' \<Rightarrow> dec_after_match m st'))"

lemma dec_new_unfold:
  "dec_new m st = (case zx0_new_offset m st of ZDone r \<Rightarrow> r | ZGo st' \<Rightarrow> dec_after_match m st')"
  unfolding dec_new_def dec_after_match_def
  by (subst zx0_new_loop.simps) (auto split: zx0_step.splits prod.splits bool.splits)

lemma zx0_loop_unfold:
  "zx0_loop m st = (case zx0_literals m st of ZDone r \<Rightarrow> r | ZGo st' \<Rightarrow> dec_after_lits m st')"
  unfolding dec_after_lits_def dec_after_match_def dec_new_def
  by (subst zx0_loop.simps) (auto split: zx0_step.splits prod.splits bool.splits)

text \<open>The next writer state after a block of a sound chain.\<close>

definition enc_step :: "8 word list \<Rightarrow> nat \<times> nat \<Rightarrow> nat \<times> zx0_writer \<Rightarrow> nat \<times> zx0_writer" where
  "enc_step input s lw = (case s of (n, off) \<Rightarrow> case lw of (lo, w) \<Rightarrow>
     if off = 0 then (lo, enc_lit input n w)
     else if off = lo then (lo, enc_rep n w) else (off, enc_new off n w))"

lemma emit_blocks_steps:
  "emit_blocks input False True prev bs lw = fold (enc_step input) (chain_steps prev bs) lw"
proof (induction bs arbitrary: prev lw)
  case Nil
  then show ?case by simp
next
  case (Cons b bs)
  then show ?case by (cases lw) (simp add: emit_block_kinds enc_step_def Let_def)
qed

lemma chain_ok_step:
  assumes "chain_ok input am lo p (s # ss)" "writer_ok w" "w_input_index w = p"
    and "enc_step input s (lo, w) = (lo', w')"
  shows "writer_ok w' \<and> w_input_index w' = p + fst s
    \<and> chain_ok input (snd s \<noteq> 0) lo' (p + fst s) ss \<and> (extends fin w' \<longrightarrow> extends fin w)"
proof -
  obtain n off where s: "s = (n, off)" by fastforce
  have n: "0 < n" "off \<noteq> 0 \<Longrightarrow> off \<noteq> lo \<Longrightarrow> 2 \<le> n" using assms(1) s by (auto split: if_splits)
  consider "off = 0" | "off \<noteq> 0" "off = lo" | "off \<noteq> 0" "off \<noteq> lo" by blast
  then show ?thesis
  proof cases
    case 1
    then show ?thesis
      using assms s enc_lit_ok [OF assms(2) n(1)] enc_lit_extends(3) [OF assms(2) n(1)]
      by (auto simp: enc_step_def)
  next
    case 2
    then show ?thesis
      using assms s enc_rep_ok [OF assms(2) n(1)] enc_rep_extends(2) [OF assms(2) n(1)]
      by (auto simp: enc_step_def)
  next
    case 3
    note S = enc_new_steps [OF assms(2) n(2) [OF 3]]
    show ?thesis using 3 assms s S(5,7) S(11) [OF S(10) [OF S(9) [OF S(8)]]]
      by (auto simp: enc_step_def)
  qed
qed

lemma chain_ok_fold:
  assumes "chain_ok input am lo p ss" "writer_ok w" "w_input_index w = p"
  shows "writer_ok (snd (fold (enc_step input) ss (lo, w)))
    \<and> (extends fin (snd (fold (enc_step input) ss (lo, w))) \<longrightarrow> extends fin w)"
  using assms
proof (induction ss arbitrary: am lo p w)
  case Nil
  then show ?case by simp
next
  case (Cons s ss)
  obtain lo' w' where s: "enc_step input s (lo, w) = (lo', w')" by fastforce
  from chain_ok_step [OF Cons.prems s] show ?case using Cons.IH [of _ lo' _ w'] s by auto
qed

lemma bit_sync:
  assumes "writer_ok w" "extends fin (write_bit v w)" "dec_sync fin input m (lo, w) st"
  obtains br where "rd_bit (z_br st) = (v, br)"
    "dec_sync fin input m (lo, write_bit v w) (st\<lparr>z_br := br\<rparr>)"
  using write_bit_sync [OF assms(1,2), of "z_br st"] assms(3) by (auto simp: dec_sync_def)

definition dec_mode :: "bool \<Rightarrow> nat \<Rightarrow> zx0_state \<Rightarrow> zx0_result" where
  "dec_mode am m st = (if am then dec_after_match m st else dec_after_lits m st)"

text \<open>One block: the decoder ends up in sync after it, in the mode the block leaves.\<close>

lemma dec_step_sync:
  assumes "chain_ok input am lo p (s # ss)" "writer_ok w" "w_input_index w = p"
    and "enc_step input s (lo, w) = (lo', w')" "extends fin w'"
    and "dec_sync fin input m (lo, w) st" "int m \<le> INT_MAX" "length input < 2 ^ 30"
  shows "\<exists>st'. dec_mode am m st = dec_mode (snd s \<noteq> 0) m st' \<and> dec_sync fin input m (lo', w') st'"
proof -
  obtain n off where s: "s = (n, off)" by fastforce
  have n: "0 < n" "p + n \<le> length input" "off \<noteq> 0 \<Longrightarrow> match_ok input off p n"
    "off \<noteq> 0 \<Longrightarrow> off \<noteq> lo \<Longrightarrow> 2 \<le> n \<and> off \<le> 32640"
    using assms(1) s by (auto split: if_splits)
  have li: "length input < 2 ^ 31" using assms(8) by simp
  consider "off = 0" | "off \<noteq> 0" "off = lo" | "off \<noteq> 0" "off \<noteq> lo" by blast
  then show ?thesis
  proof cases
    case 1
    then have w': "lo' = lo" "w' = enc_lit input n w" and am: "am"
      using assms(1,4) s by (auto simp: enc_step_def)
    have e: "extends fin (enc_lit input n w)" using assms(5) w' by simp
    obtain br where br: "rd_bit (z_br st) = (False, br)"
      "dec_sync fin input m (lo, write_bit False w) (st\<lparr>z_br := br\<rparr>)"
      using bit_sync [OF assms(2) enc_lit_extends(2) [OF assms(2) n(1) e] assms(6)] by metis
    obtain st' where "zx0_literals m (st\<lparr>z_br := br\<rparr>) = ZGo st'"
      "dec_sync fin input m (lo, enc_lit input n w) st'"
      using literals_sync [OF assms(2) n(1) e br(2) _ li] n(2) assms(3) by blast
    then show ?thesis
      using am 1 s w' br(1) by (auto simp: dec_mode_def dec_after_match_def zx0_loop_unfold)
  next
    case 2
    then have w': "lo' = lo" "w' = enc_rep n w" and am: "\<not> am"
      using assms(1,4) s by (auto simp: enc_step_def)
    have e: "extends fin (enc_rep n w)" using assms(5) w' by simp
    obtain br where br: "rd_bit (z_br st) = (False, br)"
      "dec_sync fin input m (lo, write_bit False w) (st\<lparr>z_br := br\<rparr>)"
      using bit_sync [OF assms(2) enc_rep_extends(1) [OF assms(2) n(1) e] assms(6)] by metis
    obtain st' where "zx0_last_offset m (st\<lparr>z_br := br\<rparr>) = ZGo st'"
      "dec_sync fin input m (lo, enc_rep n w) st'"
      using last_offset_sync [OF assms(2) n(1) e br(2) _ _ assms(7) li] n(2,3) 2 assms(3) by auto
    then show ?thesis
      using am 2 s w' br(1) by (auto simp: dec_mode_def dec_after_lits_def)
  next
    case 3
    then have w': "lo' = off" "w' = enc_new off n w" using assms(4) s by (auto simp: enc_step_def)
    have n2: "2 \<le> n" "off \<le> 32640" using n(4) 3 by auto
    have e: "extends fin (enc_new off n w)" using assms(5) w' by simp
    have eb: "extends fin (write_bit True w)"
      by (rule enc_new_steps(10) [OF assms(2) n2(1) enc_new_steps(9) [OF assms(2) n2(1)
          enc_new_steps(8) [OF assms(2) n2(1) e]]])
    obtain br where br: "rd_bit (z_br st) = (True, br)"
      "dec_sync fin input m (lo, write_bit True w) (st\<lparr>z_br := br\<rparr>)"
      using bit_sync [OF assms(2) eb assms(6)] by metis
    obtain st' where "zx0_new_offset m (st\<lparr>z_br := br\<rparr>) = ZGo st'"
      "dec_sync fin input m (off, enc_new off n w) st'"
      using new_offset_sync [OF assms(2) n2 e br(2) _ _ assms(7,8)] n(2,3) 3 assms(3) by auto
    then show ?thesis
      using 3 s w' br(1)
      by (auto simp: dec_mode_def dec_after_lits_def dec_after_match_def dec_new_unfold)
  qed
qed

lemma enc_end_extends:
  assumes "writer_ok w" "extends fin (enc_end w)"
  shows "extends fin (write_bit True w)" "extends fin w"
proof -
  show b: "extends fin (write_bit True w)"
    using elias_extends [OF write_bit_ok [OF assms(1)], of 256] assms(2) by (simp add: enc_end_def)
  show "extends fin w" by (rule write_bit_extends [OF assms(1) b])
qed

lemma dec_chain_sync:
  assumes "chain_ok input am lo p ss" "writer_ok w" "w_input_index w = p"
    and "extends fin (enc_end (snd (fold (enc_step input) ss (lo, w))))"
    and "dec_sync fin input m (lo, w) st" "int m \<le> INT_MAX" "length input < 2 ^ 30"
  shows "\<exists>out. dec_mode am m st = ZReturn (int (length input)) out
    \<and> length out = m \<and> take (length input) out = input"
  using assms
proof (induction ss arbitrary: am lo p w st)
  case Nil
  then have p: "w_input_index w = length input" and e: "extends fin (enc_end w)" by auto
  have eb: "extends fin (write_bit True w)" by (rule enc_end_extends(1) [OF Nil.prems(2) e])
  obtain br where br: "rd_bit (z_br st) = (True, br)"
    "dec_sync fin input m (lo, write_bit True w) (st\<lparr>z_br := br\<rparr>)"
    using bit_sync [OF Nil.prems(2) eb Nil.prems(5)] by metis
  have "dec_mode am m st = ZReturn (int (z_out_pos st)) (z_out st)"
    using br(1) end_sync [OF Nil.prems(2) e br(2)]
    by (auto simp: dec_mode_def dec_after_lits_def dec_after_match_def dec_new_unfold)
  then show ?case using Nil.prems(5) p by (auto simp: dec_sync_def)
next
  case (Cons s ss)
  obtain lo' w' where s: "enc_step input s (lo, w) = (lo', w')" by fastforce
  note st = chain_ok_step [OF Cons.prems(1-3) s]
  have ef: "extends fin (enc_end (snd (fold (enc_step input) ss (lo', w'))))"
    using Cons.prems(4) s by simp
  have fo: "writer_ok (snd (fold (enc_step input) ss (lo', w')))"
    "extends fin (snd (fold (enc_step input) ss (lo', w'))) \<longrightarrow> extends fin w'"
    using chain_ok_fold [of input _ lo' _ ss w'] st by blast+
  have "extends fin w'"
    using fo(2) enc_end_extends(2) [OF fo(1) ef] by blast
  then obtain st' where st': "dec_mode am m st = dec_mode (snd s \<noteq> 0) m st'"
    "dec_sync fin input m (lo', w') st'"
    using dec_step_sync [OF Cons.prems(1-3) s _ Cons.prems(5-7)] by blast
  show ?case
    using Cons.IH [OF _ _ _ ef st'(2) Cons.prems(6,7)] st st'(1) by metis
qed

section \<open>Size of the encoded stream\<close>

text \<open>Stream position of the writer in bits: whole bytes less the bits still open.\<close>

definition w_pos :: "zx0_writer \<Rightarrow> int" where
  "w_pos w = 8 * int (output_index w)
     - (if w_bit_mask w = 0 then 0 else 1 + int (bits_left (w_bit_mask w)))
     - (if w_backtrack w then 1 else 0)"

definition mask_ok :: "zx0_writer \<Rightarrow> bool" where
  "mask_ok w \<longleftrightarrow> w_bit_mask w = 0 \<or> (\<exists>k<7. w_bit_mask w = 2 ^ k)"

lemma bits_left_pow: "bits_left (2 ^ k) = k"
  by (rule bits_left_eqI) auto

lemma write_bit_pos: "mask_ok w \<Longrightarrow> w_pos (write_bit v w) = w_pos w + 1 \<and> mask_ok (write_bit v w)"
proof (cases "w_backtrack w")
  case True
  assume "mask_ok w"
  then show ?thesis using True by (auto simp: write_bit_backtrack w_pos_def mask_ok_def)
next
  case False
  assume m: "mask_ok w"
  have "\<exists>k<7. (64::nat) = 2 ^ k" by (rule exI [of _ 6]) simp
  then have *: "w_bit_mask w = 0 \<Longrightarrow> ?thesis"
    using False by (auto simp: write_bit_plain open_byte_def write_byte_def w_pos_def mask_ok_def
        bits_left_pow [of 6, simplified])
  have "?thesis" if "w_bit_mask w = 2 ^ k" "k < 7" for k
    using that False
    by (cases k) (auto simp: write_bit_plain open_byte_def w_pos_def mask_ok_def bits_left_pow
        bits_left_pow [of 0, simplified] bits_left_pow [of "Suc _", simplified]
        intro: exI [of _ "k - 1"])
  then show ?thesis using * m by (auto simp: mask_ok_def)
qed

lemma fold_write_bit_pos:
  "mask_ok w \<Longrightarrow> w_pos (fold write_bit bs w) = w_pos w + int (length bs) \<and> mask_ok (fold write_bit bs w)"
  by (induction bs arbitrary: w) (auto simp: write_bit_pos)

lemma length_eg_digits: "length (eg_digits k val iv) = 2 * k"
  by (induction k) auto

text \<open>\<^verbatim>\<open>elias_gamma_bits\<close> of \<^verbatim>\<open>optimize.c\<close>: \<open>((32 - clz(value)) << 1) - 1\<close>.\<close>

definition elias_gamma_bits :: "int \<Rightarrow> int" where
  "elias_gamma_bits val = (if val \<le> 0 then 1 else 2 * int (Suc (bits_left (nat val))) - 1)"

lemma elias_pos:
  "mask_ok w \<Longrightarrow> 0 < n \<Longrightarrow>
   w_pos (write_interlaced_elias_gamma n False iv w) = w_pos w + elias_gamma_bits (int n)
   \<and> mask_ok (write_interlaced_elias_gamma n False iv w)"
  using fold_write_bit_pos [of w "eg_code n iv"]
  by (simp add: write_elias_code eg_code_def length_eg_digits elias_gamma_bits_def)

lemma write_byte_pos: "w_pos (write_byte v w) = w_pos w + 8" "mask_ok (write_byte v w) = mask_ok w"
  by (simp_all add: w_pos_def mask_ok_def)

lemma read_bytes_pos [simp]: "w_pos (read_bytes n w) = w_pos w" "mask_ok (read_bytes n w) = mask_ok w"
  by (simp_all add: w_pos_def mask_ok_def read_bytes_def Let_def)

lemma emit_literals_pos:
  "w_pos (emit_literals n input w) = w_pos w + 8 * int n \<and> mask_ok (emit_literals n input w) = mask_ok w"
  by (induction n input w rule: emit_literals.induct) (auto simp: write_byte_pos)

text \<open>The cost the optimiser adds to a chain for one more block.\<close>

definition block_cost :: "nat \<Rightarrow> nat \<times> nat \<Rightarrow> int" where
  "block_cost lo s = (case s of (n, off) \<Rightarrow>
     if off = 0 then 1 + elias_gamma_bits (int n) + 8 * int n
     else if off = lo then 1 + elias_gamma_bits (int n)
     else 8 + elias_gamma_bits (int ((off - 1) div 128 + 1)) + elias_gamma_bits (int n - 1))"

fun chain_cost :: "nat \<Rightarrow> (nat \<times> nat) list \<Rightarrow> int" where
  "chain_cost lo [] = 0"
| "chain_cost lo (s # ss) = block_cost lo s + chain_cost (if snd s = 0 then lo else snd s) ss"

lemma enc_step_pos:
  assumes "mask_ok w" "0 < fst s" "snd s \<noteq> 0 \<Longrightarrow> snd s \<noteq> lo \<Longrightarrow> 2 \<le> fst s"
  shows "w_pos (snd (enc_step input s (lo, w))) = w_pos w + block_cost lo s
    \<and> mask_ok (snd (enc_step input s (lo, w)))
    \<and> fst (enc_step input s (lo, w)) = (if snd s = 0 then lo else snd s)"
proof -
  obtain n off where s: "s = (n, off)" by fastforce
  have b: "w_pos (write_bit v w) = w_pos w + 1" "mask_ok (write_bit v w)" for v
    using write_bit_pos [OF assms(1)] by auto
  have n: "0 < n" using assms(2) s by simp
  show ?thesis
  proof (cases "off = 0 \<or> off = lo")
    case True
    then show ?thesis
      using s b n elias_pos [OF b(2)] by (auto simp: enc_step_def enc_lit_def enc_rep_def
          emit_literals_pos block_cost_def)
  next
    case False
    let ?w1 = "write_interlaced_elias_gamma ((off - 1) div 128 + 1) False True (write_bit True w)"
    let ?w2 = "write_byte (enc_lsb off) ?w1\<lparr>w_backtrack := True\<rparr>"
    have w1: "w_pos ?w1 = w_pos w + 1 + elias_gamma_bits (int ((off - 1) div 128 + 1))" "mask_ok ?w1"
      using elias_pos [OF b(2)] b(1) by (metis add.commute zero_less_Suc plus_1_eq_Suc)+
    have "w_pos ?w2 = w_pos ?w1 + 7" "mask_ok ?w2"
      using w1(2) by (auto simp: w_pos_def mask_ok_def)
    moreover have "0 < n - 1" using assms(3) False s by auto
    ultimately show ?thesis
      using elias_pos [of ?w2 "n - 1" False] w1 False s
      by (simp add: enc_step_def enc_new_def block_cost_def of_nat_diff)
  qed
qed

lemma fold_enc_step_pos:
  assumes "chain_ok input am lo p ss" "mask_ok w"
  shows "w_pos (snd (fold (enc_step input) ss (lo, w))) = w_pos w + chain_cost lo ss
    \<and> mask_ok (snd (fold (enc_step input) ss (lo, w)))"
  using assms
proof (induction ss arbitrary: am lo p w)
  case Nil
  then show ?case by simp
next
  case (Cons s ss)
  obtain lo' w' where s: "enc_step input s (lo, w) = (lo', w')" by fastforce
  have "0 < fst s" "snd s \<noteq> 0 \<longrightarrow> snd s \<noteq> lo \<longrightarrow> 2 \<le> fst s"
    using Cons.prems(1) by (cases s; auto split: if_splits)+
  then have "w_pos (snd (enc_step input s (lo, w))) = w_pos w + block_cost lo s
    \<and> mask_ok (snd (enc_step input s (lo, w)))
    \<and> fst (enc_step input s (lo, w)) = (if snd s = 0 then lo else snd s)"
    by (intro enc_step_pos [OF Cons.prems(2)]) auto
  then have w': "w_pos w' = w_pos w + block_cost lo s" "mask_ok w'" "lo' = (if snd s = 0 then lo else snd s)"
    using s by auto
  have "chain_ok input (snd s \<noteq> 0) lo' (p + fst s) ss"
    using Cons.prems(1) w'(3) by (cases s) (auto split: if_splits)
  from Cons.IH [OF this w'(2)] show ?case using s w' by simp
qed

text \<open>
  A chain that \<^verbatim>\<open>zx0_compress\<close> accepts for \<open>input\<close>: the fake first block at index -1, then
  literals, then any sound sequence of blocks that ends at the end of the input.
\<close>

definition valid_chain :: "8 word list \<Rightarrow> BLOCK list \<Rightarrow> bool" where
  "valid_chain input optimal =
     (case rev optimal of
        prev # b # bs \<Rightarrow> bl_index prev = -1 \<and> bl_offset b = 0
          \<and> chain_ok input True 1 0 (chain_steps prev (b # bs))
      | _ \<Rightarrow> False)"

lemma un_reverse_rev: "un_reverse xs acc = rev xs @ acc"
  by (induction xs arbitrary: acc) auto

lemma valid_chain_cases:
  assumes "valid_chain input optimal"
  obtains prev b bs n where "un_reverse optimal [] = prev # b # bs" "bl_offset b = 0"
    "chain_steps prev (b # bs) = (n, 0) # chain_steps b bs" "0 < n" "n \<le> length input"
    "chain_ok input True 1 0 ((n, 0) # chain_steps b bs)"
    "chain_ok input False 1 n (chain_steps b bs)"
proof -
  obtain prev b bs where r: "rev optimal = prev # b # bs" "bl_offset b = 0"
    "chain_ok input True 1 0 (chain_steps prev (b # bs))"
    using assms by (auto simp: valid_chain_def split: list.splits)
  show thesis
    by (rule that [of prev b bs "nat (bl_index b - bl_index prev)"])
      (use r in \<open>auto simp: un_reverse_rev\<close>)
qed

text \<open>The writer before the first block; its first indicator bit is dropped.\<close>

lemma compress_unfold:
  assumes "un_reverse optimal [] = prev # b # bs" "bl_offset b = 0"
    and "chain_steps prev (b # bs) = (n, 0) # ss"
    and "zx0_compress optimal input isz 0 False True = (out, osz, delta)"
  obtains w0 where "out = w_output_data (enc_end (snd (fold (enc_step input) ss
      (1, emit_literals n input (write_interlaced_elias_gamma n False False w0)))))"
    "w_output_data w0 = []" "w_bit_mask w0 = 0" "\<not> w_backtrack w0" "w_input_index w0 = 0"
    "osz = cdiv (bl_bits (hd optimal) + 25) 8"
proof -
  let ?i = "\<lparr>w_output_data = [], w_input_index = 0, w_bit_index = 0, w_bit_mask = 0,
    w_diff = cdiv (bl_bits (hd optimal) + 25) 8 - int isz, w_backtrack = True, w_delta = 0\<rparr>"
  let ?f = "fold (enc_step input) ss
      (1, emit_literals n input (write_interlaced_elias_gamma n False False (write_bit False ?i)))"
  have "emit_blocks input False True prev (b # bs) (1, ?i) = ?f"
    using assms(3) by (simp add: emit_blocks_steps enc_step_def enc_lit_def del: emit_blocks.simps chain_steps.simps)
  then have o: "out = w_output_data (enc_end (snd ?f))" "osz = cdiv (bl_bits (hd optimal) + 25) 8"
    using assms(1,4) by (auto simp: zx0_compress_def Let_def enc_end_def split: prod.splits
        simp del: emit_blocks.simps)
  show thesis
    by (rule that [of "write_bit False ?i", OF o(1)])
      (simp_all add: write_bit_backtrack o(2))
qed

lemma zx0_chain_restored:
  assumes "valid_chain input optimal" "length input < 2 ^ 30"
    and "zx0_compress optimal input (length input) 0 False True = (out, osz, delta)"
    and "length input \<le> length ob" "int (length ob) \<le> INT_MAX"
  shows "\<exists>ob'. zx0_decompress_to (Some out) (int (length out)) (Some ob) (int (length ob))
      = ZReturn (int (length input)) ob'
    \<and> length ob' = length ob \<and> take (length input) ob' = input"
proof -
  obtain prev b bs n where C: "un_reverse optimal [] = prev # b # bs" "bl_offset b = 0"
    "chain_steps prev (b # bs) = (n, 0) # chain_steps b bs" "0 < n" "n \<le> length input"
    "chain_ok input False 1 n (chain_steps b bs)"
    using valid_chain_cases [OF assms(1)] by metis
  let ?ss = "chain_steps b bs" and ?m = "length ob"
  obtain w0 where w0: "out = w_output_data (enc_end (snd (fold (enc_step input) ?ss
      (1, emit_literals n input (write_interlaced_elias_gamma n False False w0)))))"
    "w_output_data w0 = []" "w_bit_mask w0 = 0" "\<not> w_backtrack w0" "w_input_index w0 = 0"
    using compress_unfold [OF C(1,2,3) assms(3)] by metis
  let ?e = "write_interlaced_elias_gamma n False False w0"
  let ?l = "emit_literals n input ?e" let ?f = "snd (fold (enc_step input) ?ss (1, ?l))"
  have ok0: "writer_ok w0" using w0(2-4) by (simp add: writer_ok_def)
  have oke: "writer_ok ?e" by (rule elias_ok [OF ok0 C(4)])
  have okl: "writer_ok ?l" "w_input_index ?l = n"
    using emit_literals_ok [OF oke, of n input] C(4) w0(5) by auto
  have okf: "writer_ok ?f" "extends out ?f \<longrightarrow> extends out ?l"
    using chain_ok_fold [OF C(6) okl] by blast+
  have ex: "extends out (enc_end ?f)" using w0(1) by (simp add: extends_def)
  have exl: "extends out ?l" using okf enc_end_extends(2) [OF okf(1) ex] by blast
  let ?br = "\<lparr>br_src = out, br_bit_mask = 0, br_bit_value = 0, br_backtrack = False, br_last_byte = 0\<rparr>"
  let ?st = "\<lparr>z_br = ?br, z_last_offset = 1, z_out = ob, z_out_pos = 0\<rparr>"
  have d0: "dec_sync out input ?m (1, w0) ?st"
    using w0 assms(4) by (simp add: dec_sync_def in_sync_def)
  have len: "w_input_index w0 + n \<le> length input" "length input < 2 ^ 31"
    using w0(5) C(5) assms(2) by auto
  obtain st' where st': "zx0_literals ?m ?st = ZGo st'" "dec_sync out input ?m (1, ?l) st'"
    using literals_sync_from [OF ok0 C(4) exl d0 len] by blast
  obtain ob' where ob': "dec_mode False ?m st' = ZReturn (int (length input)) ob'"
    "length ob' = ?m" "take (length input) ob' = input"
    using dec_chain_sync [OF C(6) okl ex st'(2) assms(5,2)] by blast
  have "0 < length ob" using C(4,5) assms(4) by linarith
  moreover have "out \<noteq> []"
    using st'(1) by (auto simp: zx0_literals_def rd_elias_gamma_def elias_loop.simps [of ?br] rd_bit_def
        rd_byte_def Let_def)
  ultimately show ?thesis
    using ob' st'(1) by (simp add: zx0_decompress_to_def zx0_loop_unfold dec_mode_def)
qed

lemma zx0_size_of_chain:
  assumes "valid_chain input optimal"
    and "bl_bits (hd optimal) = chain_cost 1 (chain_steps (hd (rev optimal)) (tl (rev optimal))) - 1"
    and "zx0_compress optimal input (length input) 0 False True = (out, osz, delta)"
  shows "int (length out) = osz"
proof -
  obtain prev b bs n where C: "un_reverse optimal [] = prev # b # bs" "bl_offset b = 0"
    "chain_steps prev (b # bs) = (n, 0) # chain_steps b bs" "0 < n"
    "chain_ok input False 1 n (chain_steps b bs)"
    using valid_chain_cases [OF assms(1)] by metis
  let ?ss = "chain_steps b bs"
  obtain w0 where w0: "out = w_output_data (enc_end (snd (fold (enc_step input) ?ss
      (1, emit_literals n input (write_interlaced_elias_gamma n False False w0)))))"
    "w_output_data w0 = []" "w_bit_mask w0 = 0" "\<not> w_backtrack w0"
    "osz = cdiv (bl_bits (hd optimal) + 25) 8"
    using compress_unfold [OF C(1,2,3) assms(3)] by metis
  let ?l = "emit_literals n input (write_interlaced_elias_gamma n False False w0)"
  let ?f = "snd (fold (enc_step input) ?ss (1, ?l))"
  have m0: "mask_ok w0" "w_pos w0 = 0" using w0(2-4) by (auto simp: mask_ok_def w_pos_def)
  have l: "w_pos ?l = elias_gamma_bits (int n) + 8 * int n" "mask_ok ?l"
    using elias_pos [OF m0(1) C(4)] m0(2) by (auto simp: emit_literals_pos)
  have f: "w_pos ?f = w_pos ?l + chain_cost 1 ?ss" "mask_ok ?f"
    using fold_enc_step_pos [OF C(5) l(2)] by auto
  have cost: "bl_bits (hd optimal) = w_pos ?f"
    using assms(2) C(1,3) l(1) f(1) by (simp add: un_reverse_rev block_cost_def)
  have "elias_gamma_bits 256 = 17" by (simp add: elias_gamma_bits_def bits_left.simps)
  then have e: "w_pos (enc_end ?f) = w_pos ?f + 18" "mask_ok (enc_end ?f)"
    using elias_pos [OF conjunct2 [OF write_bit_pos [OF f(2), of True]], of 256 True]
      write_bit_pos [OF f(2), of True] by (auto simp: enc_end_def)
  have "\<not> w_backtrack (enc_end ?f)" by (simp add: enc_end_def)
  with e(2) obtain u where u: "w_pos (enc_end ?f) = 8 * int (length out) - u" "0 \<le> u" "u \<le> 7"
    using w0(1) by (auto simp: w_pos_def mask_ok_def bits_left_pow)
  have "1 \<le> length out" if "w_pos (enc_end ?f) > 0" using that u by linarith
  moreover have "0 \<le> w_pos ?f + 25 \<Longrightarrow> osz = (w_pos ?f + 25) div 8"
    using w0(5) cost by simp
  moreover have "0 \<le> w_pos ?f + 25" using u e(1) by linarith
  ultimately show ?thesis using u e(1) by linarith
qed

section \<open>Properties\<close>

text \<open>
  C20 (zx0_roundtrip). Decoding with \<^verbatim>\<open>zx0_decompress_to\<close> what \<^verbatim>\<open>zx0_compress\<close> wrote in the packer's
  mode returns the length of the input and puts exactly the input at the start of the output
  buffer, for every chain of blocks that describes the input and every buffer at least as long.
\<close>

theorem zx0_roundtrip:
  assumes "valid_chain input optimal" "length input < 2 ^ 30"
    and "zx0_compress optimal input (length input) 0 False True = (out, osz, delta)"
    and "length input \<le> length ob" "int (length ob) \<le> INT_MAX"
  shows "\<exists>ob'. zx0_decompress_to (Some out) (int (length out)) (Some ob) (int (length ob))
      = ZReturn (int (length input)) ob'
    \<and> length ob' = length ob \<and> take (length input) ob' = input"
  by (rule zx0_chain_restored [OF assms])

text \<open>
  When the \<open>bits\<close> of the last block are the cost of the chain, the number
  of bytes that the encoder writes is exactly the \<^verbatim>\<open>output_size\<close> it allocated: the
  unchecked writes of \<^verbatim>\<open>write_byte\<close> and \<^verbatim>\<open>write_bit\<close> stay inside the buffer and fill it.
\<close>

theorem zx0_output_size:
  assumes "valid_chain input optimal"
    and "bl_bits (hd optimal) = chain_cost 1 (chain_steps (hd (rev optimal)) (tl (rev optimal))) - 1"
    and "zx0_compress optimal input (length input) 0 False True = (out, osz, delta)"
  shows "int (length out) = osz"
  by (rule zx0_size_of_chain [OF assms])

theorem zx0_roundtrip_witness:
  "\<exists>out osz delta ob'.
     zx0_compress
       [\<lparr>bl_bits = 31, bl_index = 4, bl_offset = 2\<rparr>, \<lparr>bl_bits = 19, bl_index = 1, bl_offset = 0\<rparr>,
        \<lparr>bl_bits = -1, bl_index = -1, bl_offset = 1\<rparr>]
       [97, 98, 97, 98, 97] 5 0 False True = (out, osz, delta)
     \<and> zx0_decompress_to (Some out) (int (length out)) (Some (replicate 8 0)) 8 = ZReturn 5 ob'
     \<and> take 5 ob' = [97, 98, 97, 98, 97]"
  (is "\<exists>out osz delta ob'. zx0_compress ?c ?i 5 0 False True = _ \<and> _")
proof -
  obtain out osz delta where c: "zx0_compress ?c ?i 5 0 False True = (out, osz, delta)"
    by (cases "zx0_compress ?c ?i 5 0 False True") auto
  have v: "valid_chain ?i ?c"
    by (simp add: valid_chain_def match_ok_def atLeastLessThan_nat_numeral)
  have l: "length ?i = 5" by simp
  have "int (length (replicate 8 (0 :: 8 word))) = 8" by simp
  moreover have "\<exists>ob'. zx0_decompress_to (Some out) (int (length out)) (Some (replicate 8 0))
      (int (length (replicate 8 (0 :: 8 word)))) = ZReturn (int 5) ob'
    \<and> length ob' = length (replicate 8 (0 :: 8 word)) \<and> take 5 ob' = ?i"
    by (rule zx0_roundtrip [OF v, unfolded l, OF _ c]) (simp_all add: INT_MAX_def)
  ultimately show ?thesis using c by auto
qed

theorem zx0_output_size_witness:
  "\<exists>out delta.
     zx0_compress
       [\<lparr>bl_bits = 31, bl_index = 4, bl_offset = 2\<rparr>, \<lparr>bl_bits = 19, bl_index = 1, bl_offset = 0\<rparr>,
        \<lparr>bl_bits = -1, bl_index = -1, bl_offset = 1\<rparr>]
       [97, 98, 97, 98, 97] 5 0 False True = (out, 7, delta) \<and> length out = 7"
  (is "\<exists>out delta. zx0_compress ?c ?i 5 0 False True = _ \<and> _")
proof -
  obtain out osz delta where c: "zx0_compress ?c ?i 5 0 False True = (out, osz, delta)"
    by (cases "zx0_compress ?c ?i 5 0 False True") auto
  have v: "valid_chain ?i ?c"
    by (simp add: valid_chain_def match_ok_def atLeastLessThan_nat_numeral)
  have b: "bl_bits (hd ?c) = chain_cost 1 (chain_steps (hd (rev ?c)) (tl (rev ?c))) - 1"
    by (simp add: block_cost_def elias_gamma_bits_def bits_left.simps)
  have l: "length ?i = 5" by simp
  have "osz = 7" using c by (simp add: zx0_compress_def Let_def split: prod.splits)
  moreover have "int (length out) = osz" by (rule zx0_output_size [OF v b, unfolded l, OF c])
  ultimately show ?thesis using c by auto
qed

text \<open>
  What the decoder may leave behind when \<open>ob\<close> was the buffer: it has its size, and behind the position reached it is as it was.
\<close>

definition zx0_kept :: "8 word list \<Rightarrow> 8 word list \<Rightarrow> nat \<Rightarrow> bool" where
  "zx0_kept ob out pos \<longleftrightarrow> length out = length ob \<and> pos \<le> length ob \<and> drop pos out = drop pos ob"

definition zx0_in_bounds :: "8 word list \<Rightarrow> zx0_result \<Rightarrow> bool" where
  "zx0_in_bounds ob r = (case r of
     ZReturn n out \<Rightarrow> length out = length ob \<and> (n = -1 \<or> 0 \<le> n \<and> zx0_kept ob out (nat n)) | ZOverread \<Rightarrow> True | ZOverwrite \<Rightarrow> False)"

definition zx0_step_in_bounds :: "8 word list \<Rightarrow> zx0_step \<Rightarrow> bool" where
  "zx0_step_in_bounds ob s = (case s of
     ZDone r \<Rightarrow> zx0_in_bounds ob r | ZGo st \<Rightarrow> zx0_kept ob (z_out st) (z_out_pos st))"

lemma zx0_kept_step:
  assumes "zx0_kept ob out pos" "pos < length ob"
  shows "zx0_kept ob (out[pos := v]) (Suc pos)"
proof -
  have "drop (Suc pos) out = drop (Suc pos) ob" using assms(1) unfolding zx0_kept_def by (metis drop_Suc drop_drop tl_drop)
  then show ?thesis using assms by (simp add: zx0_kept_def)
qed

lemma copy_literals_in_bounds:
  "zx0_kept ob (z_out st) (z_out_pos st) \<Longrightarrow> length ob = m \<Longrightarrow> zx0_step_in_bounds ob (zx0_copy_literals m n st)"
proof (induction m n st rule: zx0_copy_literals.induct)
  case (2 m n st)
  obtain c br where c: "rd_byte (z_br st) = (c, br)" by fastforce
  have k: "length (z_out st) = length ob" using "2.prems"(1) by (simp add: zx0_kept_def)
  show ?case
  proof (cases "c < 0 \<or> z_out_pos st \<ge> m")
    case True
    then show ?thesis using c k by (auto simp: zx0_step_in_bounds_def zx0_in_bounds_def)
  next
    case False
    then have "zx0_kept ob ((z_out st)[z_out_pos st := word_of_int c]) (Suc (z_out_pos st))" using zx0_kept_step "2.prems" by simp
    then show ?thesis using "2.IH" [OF c [symmetric]] False c k "2.prems"(2) by simp
  qed
qed (simp add: zx0_step_in_bounds_def)

lemma copy_match_in_bounds:
  "zx0_kept ob (z_out st) (z_out_pos st) \<Longrightarrow> length ob = m \<Longrightarrow> zx0_step_in_bounds ob (zx0_copy_match m n st)"
proof (induction m n st rule: zx0_copy_match.induct)
  case (2 m n st)
  let ?src = "wrap_int (int (z_out_pos st) - z_last_offset st)"
  have k: "length (z_out st) = length ob" using "2.prems"(1) by (simp add: zx0_kept_def)
  show ?case
  proof (cases "?src < 0 \<or> z_out_pos st \<ge> m \<or> ?src \<ge> int (length (z_out st))")
    case True
    then show ?thesis using k by (auto simp: zx0_step_in_bounds_def zx0_in_bounds_def Let_def)
  next
    case False
    then have "zx0_kept ob ((z_out st)[z_out_pos st := z_out st ! nat ?src]) (Suc (z_out_pos st))" using zx0_kept_step "2.prems" by simp
    then show ?thesis using "2.IH" [OF refl] False k "2.prems"(2) by (simp add: Let_def)
  qed
qed (simp add: zx0_step_in_bounds_def)

lemma blocks_in_bounds:
  assumes "zx0_kept ob (z_out st) (z_out_pos st)" "length ob = m"
  shows "zx0_step_in_bounds ob (zx0_literals m st)" "zx0_step_in_bounds ob (zx0_last_offset m st)"
    "zx0_step_in_bounds ob (zx0_new_offset m st)"
proof -
  have l: "length (z_out st) = length ob" using assms by (simp add: zx0_kept_def)
  show "zx0_step_in_bounds ob (zx0_literals m st)"
    using assms by (auto simp: zx0_literals_def split: prod.split intro!: copy_literals_in_bounds)
  show "zx0_step_in_bounds ob (zx0_last_offset m st)"
    using assms by (auto simp: zx0_last_offset_def split: prod.split intro!: copy_match_in_bounds)
  have "zx0_step_in_bounds ob (ZDone (ZReturn (-1) (z_out st)))" "zx0_step_in_bounds ob (ZDone (ZReturn (int (z_out_pos st)) (z_out st)))"
    using assms l by (simp_all add: zx0_step_in_bounds_def zx0_in_bounds_def)
  then show "zx0_step_in_bounds ob (zx0_new_offset m st)"
    using assms by (auto simp: zx0_new_offset_def Let_def split: prod.split intro!: copy_match_in_bounds)
qed

lemma new_loop_in_bounds:
  "zx0_kept ob (z_out st) (z_out_pos st) \<Longrightarrow> length ob = m \<Longrightarrow> zx0_step_in_bounds ob (zx0_new_loop m st)"
proof (induction m st rule: zx0_new_loop.induct)
  case (1 m st)
  note b0 = blocks_in_bounds(3) [OF "1.prems"]
  show ?case
  proof (cases "zx0_new_offset m st")
    case (ZDone r)
    then show ?thesis using b0 by (simp add: zx0_new_loop.simps [of m st])
  next
    case s: (ZGo st1)
    then have s1: "zx0_kept ob (z_out st1) (z_out_pos st1)" using b0 by (auto simp: zx0_step_in_bounds_def)
    obtain b br where b: "rd_bit (z_br st1) = (b, br)" by fastforce
    show ?thesis
      using s b s1 "1.IH" [OF s b [symmetric]] "1.prems"(2)
      by (cases b) (simp_all add: zx0_new_loop.simps [of m st], simp add: zx0_step_in_bounds_def)
  qed
qed

lemma loop_in_bounds:
  "zx0_kept ob (z_out st) (z_out_pos st) \<Longrightarrow> length ob = m \<Longrightarrow> zx0_in_bounds ob (zx0_loop m st)"
proof (induction m st rule: zx0_loop.induct)
  case (1 m st)
  have go: "zx0_kept ob (z_out s') (z_out_pos s')" if "r = ZGo s'" "zx0_step_in_bounds ob r" for r s'
    using that by (simp add: zx0_step_in_bounds_def)
  note b0 = blocks_in_bounds [OF _ "1.prems"(2)]
  note n0 = new_loop_in_bounds [OF _ "1.prems"(2)]
  show ?case
  proof (cases "zx0_literals m st")
    case (ZDone r)
    then show ?thesis using b0(1) [OF "1.prems"(1)]
      by (simp add: zx0_loop.simps [of m st] zx0_step_in_bounds_def)
  next
    case l: (ZGo st1)
    then have s1: "zx0_kept ob (z_out st1) (z_out_pos st1)" using go b0(1) [OF "1.prems"(1)] by auto
    obtain b br where b: "rd_bit (z_br st1) = (b, br)" by fastforce
    let ?s1 = "st1\<lparr>z_br := br\<rparr>"
    show ?thesis
    proof (cases b)
      case True
      have "zx0_step_in_bounds ob (zx0_new_loop m ?s1)" by (intro n0) (use s1 in simp)
      then show ?thesis
        using "1.IH"(1) [OF l b [symmetric]] True l b "1.prems"(2)
        by (cases "zx0_new_loop m ?s1") (simp_all add: zx0_loop.simps [of m st] zx0_step_in_bounds_def)
    next
      case False
      have o: "zx0_step_in_bounds ob (zx0_last_offset m ?s1)" by (intro b0) (use s1 in simp)
      show ?thesis
      proof (cases "zx0_last_offset m ?s1")
        case (ZDone r)
        then show ?thesis using False l b o
          by (simp add: zx0_loop.simps [of m st] zx0_step_in_bounds_def)
      next
        case s: (ZGo st2)
        then have s2: "zx0_kept ob (z_out st2) (z_out_pos st2)" using go o by auto
        obtain c br2 where c: "rd_bit (z_br st2) = (c, br2)" by fastforce
        have n: "zx0_step_in_bounds ob (zx0_new_loop m (st2\<lparr>z_br := br2\<rparr>))" by (intro n0) (use s2 in simp)
        show ?thesis
          using "1.IH"(2) [OF l b [symmetric] _ s c [symmetric]]
            "1.IH"(3) [OF l b [symmetric] _ s c [symmetric]] False l b s c s2 n "1.prems"(2)
          by (cases c; cases "zx0_new_loop m (st2\<lparr>z_br := br2\<rparr>)")
            (simp_all add: zx0_loop.simps [of m st] zx0_step_in_bounds_def)
      qed
    qed
  qed
qed

lemma decompress_in_bounds:
  "zx0_in_bounds ob (zx0_decompress_to inp in_size (Some ob) (int (length ob)))"
  unfolding zx0_decompress_to_def
  by (auto split: option.splits intro!: loop_in_bounds) (simp_all add: zx0_in_bounds_def zx0_kept_def)


text \<open>
  The nine-byte stream below encodes an offset whose product with 128
  leaves the range of a C \<^verbatim>\<open>int\<close>; the only check on the source position is that it is not negative,
  and the decoder reads far behind the end of its output buffer.
\<close>

theorem zx0_offset_overflow:
  "zx0_decompress_to (Some [197, 65, 85, 85, 85, 85, 85, 96, 1]) 9 (Some (replicate 64 0)) 64 = ZOverread"
  by code_simp

end
