(* ===== verification/ZX0Opt.thy ===== *)
theory ZX0Opt
  imports ZX0
begin

text \<open>
  The search for the blocks (\<^verbatim>\<open>optimize.c\<close>): for every position the cheapest chain that reaches it, over
  all offsets. The arrays are functions of the index; a null pointer is the empty chain. The blocks
  are values, so the reference counts of \<^verbatim>\<open>memory.c\<close>, which only recycle blocks that no chain uses, do
  not show.

  The main result is that the chain always describes the input and carries its exact cost, so that
  the round trip of the encoder holds without a condition on the chain.
\<close>

section \<open>Model\<close>

definition offset_ceiling :: "nat \<Rightarrow> nat \<Rightarrow> nat" where
  "offset_ceiling index offset_limit =
     (if index > offset_limit then offset_limit else if index < 1 then 1 else index)"

record OffsetData =
  last_literal :: "BLOCK list"
  last_match :: "BLOCK list"
  match_length :: nat

definition zx0_allocate :: "int \<Rightarrow> int \<Rightarrow> nat \<Rightarrow> BLOCK list \<Rightarrow> BLOCK list" where
  "zx0_allocate bits index offset chain = \<lparr>bl_bits = bits, bl_index = index, bl_offset = offset\<rparr> # chain"

abbreviation c_bits :: "BLOCK list \<Rightarrow> int" where "c_bits c \<equiv> bl_bits (hd c)"
abbreviation c_index :: "BLOCK list \<Rightarrow> int" where "c_index c \<equiv> bl_index (hd c)"

record opt_state =
  op_od :: "nat \<Rightarrow> OffsetData"
  op_optimal :: "nat \<Rightarrow> BLOCK list"
  op_best :: "nat \<Rightarrow> nat"
  op_size :: nat

text \<open>\<^verbatim>\<open>if (!optimal[index] || optimal[index]->bits > bits) zx0_assign(&optimal[index], chain);\<close>\<close>

definition offer :: "nat \<Rightarrow> BLOCK list \<Rightarrow> opt_state \<Rightarrow> opt_state" where
  "offer index c s =
     (if op_optimal s index = [] \<or> c_bits (op_optimal s index) > c_bits c
      then s\<lparr>op_optimal := (op_optimal s)(index := c)\<rparr> else s)"

definition copy_last_offset :: "nat \<Rightarrow> nat \<Rightarrow> opt_state \<Rightarrow> opt_state" where
  "copy_last_offset index offset s =
     (let od = op_od s offset in
      if last_literal od = [] then s
      else (let length = int index - c_index (last_literal od);
                bits = c_bits (last_literal od) + 1 + elias_gamma_bits length;
                c = zx0_allocate bits (int index) offset (last_literal od)
            in offer index c (s\<lparr>op_od := (op_od s)(offset := od\<lparr>last_match := c\<rparr>)\<rparr>)))"

text \<open>The loop that extends the table of the best lengths; \<open>k\<close> is the number of rounds left.\<close>

fun best_loop :: "(nat \<Rightarrow> BLOCK list) \<Rightarrow> nat \<Rightarrow> nat \<Rightarrow> int \<Rightarrow> nat \<Rightarrow> (nat \<Rightarrow> nat) \<Rightarrow> (nat \<Rightarrow> nat)" where
  "best_loop optimal index 0 bits sz best = best"
| "best_loop optimal index (Suc k) bits sz best =
     (let bits2 = c_bits (optimal (index - Suc sz)) + elias_gamma_bits (int sz) in
      if bits2 \<le> bits then best_loop optimal index k bits2 (Suc sz) (best(Suc sz := Suc sz))
      else best_loop optimal index k bits (Suc sz) (best(Suc sz := best sz)))"

definition extend_best :: "nat \<Rightarrow> nat \<Rightarrow> opt_state \<Rightarrow> opt_state" where
  "extend_best index n s =
     (if op_size s < n
      then (let b = op_best s (op_size s);
                bits = c_bits (op_optimal s (index - b)) + elias_gamma_bits (int b - 1)
            in s\<lparr>op_best := best_loop (op_optimal s) index (n - op_size s) bits (op_size s) (op_best s), op_size := n\<rparr>)
      else s)"

definition copy_new_offset :: "nat \<Rightarrow> nat \<Rightarrow> opt_state \<Rightarrow> opt_state" where
  "copy_new_offset index offset s =
     (let n = Suc (match_length (op_od s offset));
          s1 = s\<lparr>op_od := (op_od s)(offset := (op_od s offset)\<lparr>match_length := n\<rparr>)\<rparr> in
      if n > 1
      then (let s2 = extend_best index n s1;
                length = op_best s2 n;
                chain = op_optimal s2 (index - length);
                offset_msb = (offset - 1) div 128;
                bits = c_bits chain + 8 + elias_gamma_bits (int (offset_msb + 1)) + elias_gamma_bits (int length - 1);
                od = op_od s2 offset
            in if last_match od = [] \<or> c_index (last_match od) \<noteq> int index \<or> c_bits (last_match od) > bits
               then (let c = zx0_allocate bits (int index) offset chain
                     in offer index c (s2\<lparr>op_od := (op_od s2)(offset := od\<lparr>last_match := c\<rparr>)\<rparr>))
               else s2)
      else s1)"

definition copy_literals :: "nat \<Rightarrow> nat \<Rightarrow> opt_state \<Rightarrow> opt_state" where
  "copy_literals index offset s =
     (let od = (op_od s offset)\<lparr>match_length := 0\<rparr> in
      if last_match od = [] then s\<lparr>op_od := (op_od s)(offset := od)\<rparr>
      else (let length = int index - c_index (last_match od);
                bits = c_bits (last_match od) + 1 + elias_gamma_bits length + length * 8;
                c = zx0_allocate bits (int index) 0 (last_match od)
            in offer index c (s\<lparr>op_od := (op_od s)(offset := od\<lparr>last_literal := c\<rparr>)\<rparr>)))"

definition try_offset :: "8 word list \<Rightarrow> nat \<Rightarrow> nat \<Rightarrow> opt_state \<Rightarrow> nat \<Rightarrow> opt_state" where
  "try_offset input skip index s offset =
     (if index \<noteq> skip \<and> input ! index = input ! (index - offset)
      then copy_new_offset index offset (copy_last_offset index offset s)
      else copy_literals index offset s)"

definition try_index :: "8 word list \<Rightarrow> nat \<Rightarrow> nat \<Rightarrow> opt_state \<Rightarrow> nat \<Rightarrow> opt_state" where
  "try_index input skip offset_limit s index =
     foldl (try_offset input skip index) (s\<lparr>op_size := 2\<rparr>) [1..<Suc (offset_ceiling index offset_limit)]"

text \<open>\<open>junk\<close> is what the uninitialised table of lengths holds.\<close>

definition opt_start :: "nat \<Rightarrow> nat \<Rightarrow> (nat \<Rightarrow> nat) \<Rightarrow> opt_state" where
  "opt_start input_size skip junk =
     \<lparr>op_od = (\<lambda>_. \<lparr>last_literal = [], last_match = [], match_length = 0\<rparr>)
        (1 := \<lparr>last_literal = [], last_match = zx0_allocate (-1) (int skip - 1) 1 [], match_length = 0\<rparr>),
      op_optimal = (\<lambda>_. []), op_best = (if input_size > 2 then junk(2 := 2) else junk), op_size = 0\<rparr>"

definition zx0_optimize :: "(nat \<Rightarrow> nat) \<Rightarrow> 8 word list \<Rightarrow> nat \<Rightarrow> nat \<Rightarrow> BLOCK list" where
  "zx0_optimize junk input skip offset_limit =
     op_optimal (foldl (try_index input skip offset_limit) (opt_start (length input) skip junk) [skip..<length input])
       (length input - 1)"

section \<open>Chains under construction\<close>

fun last_off :: "BLOCK list \<Rightarrow> nat" where
  "last_off [] = 1"
| "last_off (b # c) = (if bl_offset b = 0 then last_off c else bl_offset b)"

definition fake :: BLOCK where
  "fake = \<lparr>bl_bits = -1, bl_index = -1, bl_offset = 1\<rparr>"

text \<open>The block \<open>b\<close> continues the chain \<open>c\<close> and carries its cost.\<close>

definition step_ok :: "8 word list \<Rightarrow> BLOCK list \<Rightarrow> BLOCK \<Rightarrow> bool" where
  "step_ok input c b \<longleftrightarrow>
     (let n = nat (bl_index b - c_index c) in
      0 < n \<and> bl_index b < int (length input) \<and> bl_bits b = c_bits c + block_cost (last_off c) (n, bl_offset b)
      \<and> (if bl_offset b = 0 then bl_offset (hd c) \<noteq> 0
         else match_ok input (bl_offset b) (nat (c_index c + 1)) n
           \<and> (if bl_offset b = last_off c then bl_offset (hd c) = 0 else 2 \<le> n \<and> bl_offset b \<le> 32640)))"

fun gchain :: "8 word list \<Rightarrow> BLOCK list \<Rightarrow> bool" where
  "gchain input [] = False"
| "gchain input (b # c) = (if c = [] then b = fake else gchain input c \<and> step_ok input c b)"

abbreviation steps_of :: "BLOCK list \<Rightarrow> (nat \<times> nat) list" where
  "steps_of c \<equiv> chain_steps (hd (rev c)) (tl (rev c))"

lemma gchain_Cons: "gchain input (b # c) \<Longrightarrow> c \<noteq> [] \<Longrightarrow> gchain input c \<and> step_ok input c b"
  by simp

lemma gchain_not_Nil: "gchain input c \<Longrightarrow> c \<noteq> []"
  by auto

lemma gchain_index: "gchain input c \<Longrightarrow> -1 \<le> c_index c \<and> (tl c \<noteq> [] \<longrightarrow> c_index (tl c) < c_index c \<and> c_index c < int (length input))"
  by (induction c) (auto simp: fake_def step_ok_def Let_def split: if_splits)

lemma chain_steps_snoc: "chain_steps p (xs @ [b]) = chain_steps p xs @ [(nat (bl_index b - bl_index (last (p # xs))), bl_offset b)]"
  by (induction xs arbitrary: p) auto

lemma steps_of_Cons:
  assumes "c \<noteq> []"
  shows "steps_of (b # c) = steps_of c @ [(nat (bl_index b - c_index c), bl_offset b)]"
proof -
  obtain x xs where x: "rev c = x # xs" using assms by (cases "rev c") auto
  have "last (x # xs) = hd c" using x by (metis assms hd_rev last_rev rev_rev_ident)
  then show ?thesis using x chain_steps_snoc [of x xs b] by simp
qed

lemma gchain_chain_ok:
  assumes "gchain input c" "chain_ok input (bl_offset (hd c) \<noteq> 0) (last_off c) (nat (c_index c + 1)) ss"
  shows "chain_ok input True 1 0 (steps_of c @ ss)"
  using assms
proof (induction c arbitrary: ss)
  case (Cons b c)
  show ?case
  proof (cases "c = []")
    case True
    then show ?thesis using Cons.prems by (simp add: fake_def)
  next
    case False
    have g: "gchain input c" "step_ok input c b" using gchain_Cons [OF Cons.prems(1) False] by auto
    let ?n = "nat (bl_index b - c_index c)"
    have i: "-1 \<le> c_index c" using gchain_index [OF g(1)] by simp
    have n: "0 < ?n" "nat (c_index c + 1) + ?n = nat (bl_index b + 1)" "nat (c_index c + 1) + ?n \<le> length input"
      using g(2) i by (auto simp: step_ok_def Let_def)
    have "chain_ok input (bl_offset (hd c) \<noteq> 0) (last_off c) (nat (c_index c + 1)) ((?n, bl_offset b) # ss)"
      using g(2) Cons.prems(2) n by (auto simp: step_ok_def Let_def)
    from Cons.IH [OF g(1) this] show ?thesis using steps_of_Cons [OF False, of b] by simp
  qed
qed simp

lemma chain_cost_append:
  "chain_cost lo (xs @ [s]) = chain_cost lo xs + block_cost (foldl (\<lambda>l s. if snd s = 0 then l else snd s) lo xs) s"
  by (induction xs arbitrary: lo) auto

lemma gchain_cost:
  assumes "gchain input c"
  shows "c_bits c = chain_cost 1 (steps_of c) - 1 \<and> foldl (\<lambda>l s. if snd s = 0 then l else snd s) 1 (steps_of c) = last_off c"
  using assms
proof (induction c)
  case (Cons b c)
  show ?case
  proof (cases "c = []")
    case False
    then show ?thesis
      using Cons.IH gchain_Cons [OF Cons.prems False] steps_of_Cons [OF False, of b]
      by (auto simp: chain_cost_append step_ok_def Let_def)
  qed (use Cons.prems in \<open>simp add: fake_def\<close>)
qed simp

lemma gchain_first: "gchain input c \<Longrightarrow> hd (rev c) = fake"
proof (induction c)
  case (Cons b c)
  then show ?case by (cases "c = []") (auto simp: hd_append)
qed simp

lemma gchain_valid:
  assumes "gchain input c" "c_index c = int (length input) - 1" "input \<noteq> []"
  shows "valid_chain input c" "bl_bits (hd c) = chain_cost 1 (steps_of c) - 1"
proof -
  have ok: "chain_ok input True 1 0 (steps_of c)"
    using gchain_chain_ok [OF assms(1), of "[]"] assms(2) by simp
  have "tl c \<noteq> []"
  proof
    assume "tl c = []"
    then have "c = [fake]" using assms(1) by (cases c) auto
    then show False using assms(2,3) by (simp add: fake_def)
  qed
  then obtain b bs where r: "rev c = fake # b # bs"
    using gchain_first [OF assms(1)] gchain_not_Nil [OF assms(1)]
    by (metis append_butlast_last_id append_self_conv2 butlast_rev hd_Cons_tl last_rev list.sel(1) rev_is_Nil_conv tl_Nil)
  then show "valid_chain input c"
    using ok by (auto simp: valid_chain_def match_ok_def fake_def split: if_splits)
  show "bl_bits (hd c) = chain_cost 1 (steps_of c) - 1" using gchain_cost [OF assms(1)] by simp
qed

section \<open>Costs\<close>

lemma bits_left_double: "0 < n \<Longrightarrow> bits_left (2 * n) = Suc (bits_left n)"
  by (subst bits_left.simps) simp

lemma bits_left_mono: "m \<le> n \<Longrightarrow> bits_left m \<le> bits_left n"
proof (induction n arbitrary: m rule: bits_left.induct)
  case (1 n)
  have "bits_left (m div 2) \<le> bits_left (n div 2)" if "1 < n" using 1 that by (simp add: div_le_mono)
  then show ?case using "1.prems" by (simp add: bits_left.simps [of n] bits_left.simps [of m])
qed

lemma eg_double: "0 < a \<Longrightarrow> elias_gamma_bits (2 * a) = elias_gamma_bits a + 2"
proof -
  assume "0 < a"
  then have "nat (2 * a) = 2 * nat a" "0 < nat a" by auto
  then show ?thesis using \<open>0 < a\<close> bits_left_double by (simp add: elias_gamma_bits_def)
qed

lemma eg_mono: "a \<le> b \<Longrightarrow> elias_gamma_bits a \<le> elias_gamma_bits b"
  using bits_left_mono [of "nat a" "nat b"] by (auto simp: elias_gamma_bits_def nat_mono)

lemma eg_pos: "1 \<le> elias_gamma_bits a"
  by (simp add: elias_gamma_bits_def)

lemma eg_sum:
  assumes "0 < a" "0 < b" "x \<le> 4 * max a b"
  shows "elias_gamma_bits x \<le> elias_gamma_bits a + elias_gamma_bits b + 3"
proof -
  have "elias_gamma_bits x \<le> elias_gamma_bits (2 * (2 * max a b))" using assms(3) by (intro eg_mono) simp
  also have "\<dots> = elias_gamma_bits (max a b) + 4" using assms(1,2) eg_double [of "2 * max a b"] eg_double [of "max a b"] by simp
  also have "\<dots> \<le> elias_gamma_bits a + elias_gamma_bits b + 3"
    using eg_pos [of a] eg_pos [of b] by (cases "a \<le> b") (simp_all add: max_def)
  finally show ?thesis .
qed

section \<open>Runs of repeated bytes\<close>

text \<open>How many bytes before position \<open>i\<close> repeat the bytes that lie \<open>off\<close> back; the first byte never counts.\<close>

fun run :: "8 word list \<Rightarrow> nat \<Rightarrow> nat \<Rightarrow> nat" where
  "run input off 0 = 0"
| "run input off (Suc k) = (if 0 < k \<and> off \<le> k \<and> input ! k = input ! (k - off) then Suc (run input off k) else 0)"

lemma run_less: "run input off i \<le> i - 1"
  by (induction i) (auto split: if_splits)

lemma run_bytes: "i - run input off i \<le> k \<Longrightarrow> k < i \<Longrightarrow> 0 < k \<and> off \<le> k \<and> input ! k = input ! (k - off)"
proof (induction i)
  case (Suc i)
  then show ?case by (cases "k = i") (auto split: if_splits)
qed simp

lemma run_ge: "p \<le> i \<Longrightarrow> (\<And>k. p \<le> k \<Longrightarrow> k < i \<Longrightarrow> 0 < k \<and> off \<le> k \<and> input ! k = input ! (k - off)) \<Longrightarrow> i - p \<le> run input off i"
proof (induction i)
  case (Suc i)
  show ?case
  proof (cases "p = Suc i")
    case False
    then have "i - p \<le> run input off i" "0 < i \<and> off \<le> i \<and> input ! i = input ! (i - off)"
      using Suc by (auto simp: le_Suc_eq)
    then show ?thesis by auto
  qed simp
qed simp

lemma run_match_ok:
  assumes "n \<le> run input off i" "0 < off" "0 < n"
  shows "match_ok input off (i - n) n"
proof -
  have l: "n \<le> i" using assms(1) run_less [of input off i] by simp
  have "off \<le> i - n" using run_bytes [of i input off "i - n"] assms l by simp
  moreover have "input ! k = input ! (k - off)" if "i - n \<le> k" "k < i" for k
    using run_bytes [of i input off k] assms(1) that by simp
  ultimately show ?thesis using assms(2) l by (simp add: match_ok_def)
qed

lemma match_ok_run:
  assumes "match_ok input off p n"
  shows "n \<le> run input off (p + n)"
  using run_ge [of p "p + n" off input] assms by (auto simp: match_ok_def)

section \<open>The table of best lengths\<close>

text \<open>The cost of reaching the start of a match of length \<open>m\<close>, with its length.\<close>

definition reach :: "(nat \<Rightarrow> BLOCK list) \<Rightarrow> nat \<Rightarrow> nat \<Rightarrow> int" where
  "reach optimal index m = c_bits (optimal (index - m)) + elias_gamma_bits (int m - 1)"

text \<open>\<open>b\<close> is the best length up to \<open>m\<close>, the longest one of equal cost.\<close>

definition best_ok :: "(nat \<Rightarrow> BLOCK list) \<Rightarrow> nat \<Rightarrow> nat \<Rightarrow> nat \<Rightarrow> bool" where
  "best_ok optimal index m b \<longleftrightarrow> 2 \<le> b \<and> b \<le> m
     \<and> (\<forall>k. 2 \<le> k \<longrightarrow> k \<le> m \<longrightarrow> reach optimal index b \<le> reach optimal index k)
     \<and> (\<forall>k. b < k \<longrightarrow> k \<le> m \<longrightarrow> reach optimal index b < reach optimal index k)"

lemma best_ok_2: "best_ok optimal index 2 2"
  by (auto simp: best_ok_def dest: le_antisym)

lemma best_loop_ok:
  assumes "2 \<le> sz" "\<And>m. 2 \<le> m \<Longrightarrow> m \<le> sz \<Longrightarrow> best_ok optimal index m (best m)" "bits = reach optimal index (best sz)"
  shows "(\<forall>m. 2 \<le> m \<longrightarrow> m \<le> sz + k \<longrightarrow> best_ok optimal index m (best_loop optimal index k bits sz best m))
    \<and> (\<forall>m \<le> sz. best_loop optimal index k bits sz best m = best m)"
  using assms
proof (induction k arbitrary: bits sz best)
  case (Suc k)
  have r: "c_bits (optimal (index - Suc sz)) + elias_gamma_bits (int sz) = reach optimal index (Suc sz)"
    by (simp add: reach_def)
  have b: "best_ok optimal index sz (best sz)" using Suc.prems by simp
  show ?case
  proof (cases "reach optimal index (Suc sz) \<le> bits")
    case True
    have n: "best_ok optimal index (Suc sz) (Suc sz)"
      using b True Suc.prems(1,3) by (fastforce simp: best_ok_def le_Suc_eq)
    have "best_ok optimal index m ((best(Suc sz := Suc sz)) m)" if "2 \<le> m" "m \<le> Suc sz" for m
      using n Suc.prems(2) that by (cases "m = Suc sz") auto
    then have "(\<forall>m. 2 \<le> m \<longrightarrow> m \<le> Suc sz + k \<longrightarrow> best_ok optimal index m
        (best_loop optimal index k (reach optimal index (Suc sz)) (Suc sz) (best(Suc sz := Suc sz)) m))
      \<and> (\<forall>m \<le> Suc sz. best_loop optimal index k (reach optimal index (Suc sz)) (Suc sz) (best(Suc sz := Suc sz)) m
          = (best(Suc sz := Suc sz)) m)"
      using Suc.prems(1) by (intro Suc.IH) simp_all
    then show ?thesis using True r by simp
  next
    case False
    have n: "best_ok optimal index (Suc sz) (best sz)"
      using b False Suc.prems by (auto simp: best_ok_def le_Suc_eq)
    have "best_ok optimal index m ((best(Suc sz := best sz)) m)" if "2 \<le> m" "m \<le> Suc sz" for m
      using n Suc.prems(2) that by (cases "m = Suc sz") auto
    then have "(\<forall>m. 2 \<le> m \<longrightarrow> m \<le> Suc sz + k \<longrightarrow> best_ok optimal index m
        (best_loop optimal index k bits (Suc sz) (best(Suc sz := best sz)) m))
      \<and> (\<forall>m \<le> Suc sz. best_loop optimal index k bits (Suc sz) (best(Suc sz := best sz)) m = (best(Suc sz := best sz)) m)"
      using Suc.prems(1,3) by (intro Suc.IH) simp_all
    then show ?thesis using False r by simp
  qed
qed simp

section \<open>Invariant\<close>

text \<open>What the data of offset \<open>off\<close> say when the positions before \<open>t\<close> have been tried with it.\<close>

definition od_inv :: "8 word list \<Rightarrow> nat \<Rightarrow> nat \<Rightarrow> OffsetData \<Rightarrow> bool" where
  "od_inv input t off d \<longleftrightarrow> match_length d = run input off t
     \<and> (last_match d \<noteq> [] \<longrightarrow> gchain input (last_match d) \<and> bl_offset (hd (last_match d)) = off
          \<and> c_index (last_match d) < int t)
     \<and> (last_literal d \<noteq> [] \<longrightarrow> last_match d \<noteq> [] \<and> 0 < t \<and> off \<le> max 1 (t - 1)
          \<and> gchain input (last_literal d) \<and> bl_offset (hd (last_literal d)) = 0
          \<and> last_off (last_literal d) = off \<and> c_index (last_literal d) = int t - 1 - int (run input off t))"

text \<open>
  Where the chain \<open>c\<close> for position \<open>k\<close> comes from. While every byte since repeats at its offset, the
  literals it ends with, or that its last match follows, are still the offset's last literals; a
  match at a new offset follows the best chain of its start. \<open>tm\<close> is the position each offset has
  reached.
\<close>

definition prov :: "8 word list \<Rightarrow> nat \<Rightarrow> (nat \<Rightarrow> nat) \<Rightarrow> (nat \<Rightarrow> OffsetData) \<Rightarrow> (nat \<Rightarrow> BLOCK list) \<Rightarrow> nat \<Rightarrow> BLOCK list \<Rightarrow> bool" where
  "prov input lim tm od opt k c \<longleftrightarrow>
     (let off = last_off c in
      gchain input c \<and> c_index c = int k \<and> 1 \<le> off \<and> off \<le> lim \<and> k < tm off
      \<and> (if bl_offset (hd c) = 0
         then (tm off - 1 - k \<le> run input off (tm off) \<longrightarrow> last_literal (od off) = c)
         else if last_off (tl c) = off
         then (tm off - 1 - k \<le> run input off (tm off) \<longrightarrow> last_literal (od off) = tl c)
         else 0 \<le> c_index (tl c) \<and> tl c = opt (nat (c_index (tl c)))))"

definition opt_inv :: "8 word list \<Rightarrow> nat \<Rightarrow> nat \<Rightarrow> (nat \<Rightarrow> nat) \<Rightarrow> (nat \<Rightarrow> OffsetData) \<Rightarrow> (nat \<Rightarrow> BLOCK list) \<Rightarrow> bool" where
  "opt_inv input lim i tm od opt \<longleftrightarrow>
     (\<forall>x\<in>{1..lim}. od_inv input (tm x) x (od x))
     \<and> (\<forall>k. opt k \<noteq> [] \<longrightarrow> prov input lim tm od opt k (opt k))
     \<and> (\<forall>k<i. opt k \<noteq> []) \<and> (\<forall>k>i. opt k = [])
     \<and> last_match (od 1) \<noteq> [] \<and> (0 < tm 1 \<longrightarrow> last_literal (od 1) \<noteq> [])"

definition best_inv :: "8 word list \<Rightarrow> nat \<Rightarrow> (nat \<Rightarrow> BLOCK list) \<Rightarrow> nat \<Rightarrow> (nat \<Rightarrow> nat) \<Rightarrow> bool" where
  "best_inv input i opt sz best \<longleftrightarrow> 2 \<le> sz \<and> (i = 0 \<longrightarrow> sz = 2)
     \<and> (2 < length input \<longrightarrow> best 2 = 2 \<and> (\<forall>m. 2 \<le> m \<longrightarrow> m \<le> sz \<longrightarrow> best_ok opt i m (best m)))"

definition offer_fn :: "nat \<Rightarrow> BLOCK list \<Rightarrow> (nat \<Rightarrow> BLOCK list) \<Rightarrow> (nat \<Rightarrow> BLOCK list)" where
  "offer_fn i c opt = (if opt i = [] \<or> c_bits (opt i) > c_bits c then opt(i := c) else opt)"

lemma offer_simps [simp]:
  "op_optimal (offer i c s) = offer_fn i c (op_optimal s)" "op_od (offer i c s) = op_od s"
  "op_best (offer i c s) = op_best s" "op_size (offer i c s) = op_size s"
  by (simp_all add: offer_def offer_fn_def)

lemma offer_fn_other: "k \<noteq> i \<Longrightarrow> offer_fn i c opt k = opt k"
  by (simp add: offer_fn_def)

lemma offer_fn_set: "c \<noteq> [] \<Longrightarrow> offer_fn i c opt i \<noteq> []"
  by (simp add: offer_fn_def)

lemma prov_opt_cong:
  assumes "prov input lim tm od opt k c" "k \<le> i" "\<And>j. j < i \<Longrightarrow> opt' j = opt j"
  shows "prov input lim tm od opt' k c"
proof -
  have "nat (c_index (tl c)) < i" if "bl_offset (hd c) \<noteq> 0" "last_off (tl c) \<noteq> last_off c" "0 \<le> c_index (tl c)"
  proof -
    have g: "gchain input c" "c_index c = int k" using assms(1) by (simp_all add: prov_def Let_def)
    have "tl c \<noteq> []"
    proof
      assume "tl c = []"
      then have "c = [fake]" using g(1) by (cases c) auto
      then show False using g(2) by (simp add: fake_def)
    qed
    then show ?thesis using gchain_index [OF g(1)] g(2) assms(2) that(3) by auto
  qed
  then show ?thesis using assms(1,3) by (auto simp: prov_def Let_def)
qed

lemma opt_inv_offer:
  assumes "opt_inv input lim i tm od opt" "prov input lim tm od opt i c"
  shows "opt_inv input lim i tm od (offer_fn i c opt)"
proof -
  let ?o = "offer_fn i c opt"
  have e: "?o j = opt j" if "j < i" for j using that by (simp add: offer_fn_other)
  have "prov input lim tm od ?o k (?o k)" if "?o k \<noteq> []" for k
  proof -
    have k: "k \<le> i" using that assms(1) by (metis linorder_not_le offer_fn_other opt_inv_def order_less_irrefl)
    have "prov input lim tm od opt k (?o k)"
      using that assms by (auto simp: offer_fn_def opt_inv_def)
    then show ?thesis by (rule prov_opt_cong [OF _ k e])
  qed
  moreover have "c \<noteq> []" using assms(2) gchain_not_Nil by (auto simp: prov_def Let_def)
  ultimately show ?thesis using assms(1) by (auto simp: opt_inv_def offer_fn_def)
qed

text \<open>One offset has been tried: its data are new, and its last literals are the old ones if the byte repeats.\<close>

lemma opt_inv_update:
  assumes "opt_inv input lim i tm od opt" "1 \<le> off" "off \<le> lim" "tm off = i" "od_inv input (Suc i) off d"
    and "0 < run input off (Suc i) \<Longrightarrow> last_literal d = last_literal (od off)"
    and "off = 1 \<Longrightarrow> last_match d \<noteq> [] \<and> last_literal d \<noteq> []"
  shows "opt_inv input lim i (tm(off := Suc i)) (od(off := d)) opt"
proof -
  let ?tm = "tm(off := Suc i)" and ?od = "od(off := d)"
  have "prov input lim ?tm ?od opt k (opt k)" if "opt k \<noteq> []" for k
  proof (cases "last_off (opt k) = off")
    case False
    then show ?thesis using assms(1) that by (simp add: opt_inv_def prov_def Let_def)
  next
    case True
    have p: "prov input lim tm od opt k (opt k)" using assms(1) that by (simp add: opt_inv_def)
    then have k: "k < i" using True assms(4) by (simp add: prov_def Let_def)
    have "last_literal d = last_literal (od off) \<and> i - 1 - k \<le> run input off i" if "i - k \<le> run input off (Suc i)"
      using that k assms(6) by (auto split: if_splits)
    then show ?thesis using p True assms(4) k by (auto simp: prov_def Let_def)
  qed
  then show ?thesis using assms by (auto simp: opt_inv_def)
qed

section \<open>One offset at one position\<close>

text \<open>
  Where the best chain already ends with this offset, continuing it is at least as cheap as a match
  at a new offset; so such a match is never taken.
\<close>

lemma new_offset_dearer:
  assumes "opt_inv input lim i tm od opt" "1 \<le> off" "off \<le> lim" "tm off = i" "0 < run input off (Suc i)"
    and "best_ok opt i (run input off (Suc i)) n" "last_off (opt (i - n)) = off"
  shows "last_literal (od off) \<noteq> [] \<and>
    c_bits (last_literal (od off)) + 1 + elias_gamma_bits (int i - c_index (last_literal (od off)))
      \<le> c_bits (opt (i - n)) + 8 + elias_gamma_bits (int ((off - 1) div 128 + 1)) + elias_gamma_bits (int n - 1)"
proof -
  let ?c = "opt (i - n)" and ?L = "last_literal (od off)"
  have r: "run input off (Suc i) = Suc (run input off i)" using assms(5) by (auto split: if_splits)
  have n: "2 \<le> n" "n \<le> Suc (run input off i)" "n \<le> i"
    using assms(6) r run_less [of input off "Suc i"] by (auto simp: best_ok_def)
  have "?c \<noteq> []" using assms(1) n by (simp add: opt_inv_def)
  then have p: "prov input lim tm od opt (i - n) ?c" using assms(1) by (simp add: opt_inv_def)
  have g: "gchain input ?c" "c_index ?c = int i - int n"
    using p n(3) by (simp_all add: prov_def Let_def of_nat_diff)
  have l: "i - 1 - (i - n) \<le> run input off i" using n by linarith
  have m: "1 \<le> elias_gamma_bits (int ((off - 1) div 128 + 1))" by (rule eg_pos)
  consider "bl_offset (hd ?c) = 0" | "bl_offset (hd ?c) \<noteq> 0" "last_off (tl ?c) = off"
    | "bl_offset (hd ?c) \<noteq> 0" "last_off (tl ?c) \<noteq> off" by blast
  then show ?thesis
  proof cases
    case 1
    then have L: "?L = ?c" using p l assms(4,7) by (simp add: prov_def Let_def)
    have "elias_gamma_bits (int n) \<le> elias_gamma_bits (2 * (int n - 1))" using n(1) by (intro eg_mono) simp
    also have "\<dots> = elias_gamma_bits (int n - 1) + 2" using n(1) by (intro eg_double) simp
    finally show ?thesis using L \<open>?c \<noteq> []\<close> g(2) m by simp
  next
    case 2
    then have L: "?L = tl ?c" using p l assms(4,7) by (simp add: prov_def Let_def)
    obtain b t where c: "?c = b # t" using \<open>?c \<noteq> []\<close> by (cases ?c) auto
    have t: "t \<noteq> []" using g c n(3) by (auto simp: fake_def)
    have b: "bl_offset b = off" using c 2(1) assms(7) by simp
    have s: "step_ok input t b" using g(1) c gchain_Cons [OF _ t] by auto
    let ?m = "bl_index b - c_index t"
    have "0 < ?m" using s by (simp add: step_ok_def Let_def)
    then have bits: "bl_bits b = c_bits t + 1 + elias_gamma_bits ?m"
      using s 2 b c assms(2) by (simp add: step_ok_def Let_def block_cost_def)
    have "elias_gamma_bits (int i - c_index t) \<le> elias_gamma_bits ?m + elias_gamma_bits (int n - 1) + 3"
      using \<open>0 < ?m\<close> n g(2) c by (intro eg_sum) (auto simp: max_def)
    then show ?thesis using L c bits t m by simp
  next
    case 3
    obtain b t where c: "?c = b # t" using \<open>?c \<noteq> []\<close> by (cases ?c) auto
    have t: "t \<noteq> []" using g c n(3) by (auto simp: fake_def)
    have b: "bl_offset b = off" using c 3(1) assms(7) by simp
    have s: "step_ok input t b" using g(1) c gchain_Cons [OF _ t] by auto
    have j: "0 \<le> c_index t" "t = opt (nat (c_index t))" using p 3 c assms(7) by (simp_all add: prov_def Let_def)
    define m where "m = nat (bl_index b - c_index t)"
    have m2: "2 \<le> m" "match_ok input off (nat (c_index t + 1)) m"
      using s 3 b c assms(2) by (auto simp: step_ok_def Let_def m_def)
    have bits: "c_bits ?c = c_bits t + 8 + elias_gamma_bits (int ((off - 1) div 128 + 1)) + elias_gamma_bits (int m - 1)"
      using s 3 b c assms(2) by (simp add: step_ok_def Let_def block_cost_def m_def)
    have e: "nat (c_index t + 1) = Suc i - (n + m)" "n + m \<le> i" "nat (c_index t) = i - (n + m)"
      using j(1) g(2) c m2(1) n(3) by (auto simp: m_def)
    have "n + m \<le> run input off (Suc i)"
    proof -
      have "0 < k \<and> off \<le> k \<and> input ! k = input ! (k - off)" if k: "Suc i - (n + m) \<le> k" "k < Suc i" for k
      proof (cases "k < Suc i - n")
        case True
        then show ?thesis using m2 e k by (auto simp: match_ok_def)
      next
        case False
        then show ?thesis using run_bytes [of "Suc i" input off k] k n(2) r by simp
      qed
      then show ?thesis using run_ge [of "Suc i - (n + m)" "Suc i" off input] e(2) by simp
    qed
    then have "reach opt i n < reach opt i (n + m)" using assms(6) m2(1) by (auto simp: best_ok_def)
    moreover have "elias_gamma_bits (int (n + m) - 1) \<le> elias_gamma_bits (int n - 1) + elias_gamma_bits (int m - 1) + 3"
      using n(1) m2(1) by (intro eg_sum) (auto simp: max_def)
    ultimately have False using bits j(2) e(3) m by (simp add: reach_def)
    then show ?thesis ..
  qed
qed

lemma best_inv_cong:
  assumes "best_inv input i opt sz best" "\<And>j. j < i \<Longrightarrow> opt' j = opt j"
  shows "best_inv input i opt' sz best"
proof (cases "i = 0")
  case True
  have "best_ok opt' 0 m (best m)" if "2 \<le> m" "m \<le> 2" "best 2 = 2" for m
    using that best_ok_2 by (cases "m = 2") auto
  then show ?thesis using assms(1) True by (auto simp: best_inv_def)
next
  case False
  then have "reach opt' i k = reach opt i k" if "2 \<le> k" for k
    using assms(2) that by (simp add: reach_def)
  then have "best_ok opt' i m b = best_ok opt i m b" for m b
    by (auto simp: best_ok_def)
  then show ?thesis using assms(1) by (simp add: best_inv_def)
qed

lemma extend_best_ok:
  assumes "best_inv input i (op_optimal s) (op_size s) (op_best s)" "2 \<le> n" "n \<le> i" "i < length input"
  defines "s' \<equiv> extend_best i n s"
  shows "best_inv input i (op_optimal s) (op_size s') (op_best s')" "best_ok (op_optimal s) i n (op_best s' n)"
    "op_od s' = op_od s" "op_optimal s' = op_optimal s"
proof -
  have b: "best_ok (op_optimal s) i m (op_best s m)" if "2 \<le> m" "m \<le> op_size s" for m
    using assms(1-4) that by (simp add: best_inv_def)
  have z: "2 \<le> op_size s" "op_best s 2 = 2" using assms(1-4) by (simp_all add: best_inv_def)
  let ?bits = "reach (op_optimal s) i (op_best s (op_size s))"
  have l: "(\<forall>m. 2 \<le> m \<longrightarrow> m \<le> op_size s + (n - op_size s) \<longrightarrow>
        best_ok (op_optimal s) i m (best_loop (op_optimal s) i (n - op_size s) ?bits (op_size s) (op_best s) m))
    \<and> (\<forall>m \<le> op_size s. best_loop (op_optimal s) i (n - op_size s) ?bits (op_size s) (op_best s) m = op_best s m)"
    using z(1) b by (intro best_loop_ok) simp_all
  show "best_inv input i (op_optimal s) (op_size s') (op_best s')" "best_ok (op_optimal s) i n (op_best s' n)"
    using l z b assms(1-4) by (auto simp: s'_def extend_best_def Let_def reach_def best_inv_def)
  show "op_od s' = op_od s" "op_optimal s' = op_optimal s"
    by (simp_all add: s'_def extend_best_def Let_def)
qed

text \<open>The two matches that end at position \<open>i\<close>: at the offset's last literals and after the best chain.\<close>

lemma last_offset_chain:
  assumes "od_inv input i off d" "1 \<le> off" "i < length input" "0 < run input off (Suc i)" "last_literal d \<noteq> []"
  defines "c \<equiv> zx0_allocate (c_bits (last_literal d) + 1 + elias_gamma_bits (int i - c_index (last_literal d)))
                 (int i) off (last_literal d)"
  shows "gchain input c"
proof -
  let ?L = "last_literal d" and ?n = "run input off (Suc i)"
  have r: "?n = Suc (run input off i)" using assms(4) by (auto split: if_splits)
  have L: "gchain input ?L" "bl_offset (hd ?L) = 0" "last_off ?L = off" "c_index ?L = int i - int ?n"
    using assms(1,5) r by (auto simp: od_inv_def)
  have n: "?n \<le> i" using run_less [of input off "Suc i"] by simp
  then have "nat (c_index ?L + 1) = Suc i - ?n" using L(4) by (simp add: of_nat_diff nat_diff_distrib)
  then have "match_ok input off (nat (c_index ?L + 1)) ?n"
    using run_match_ok [of ?n input off "Suc i"] assms(2,4) by simp
  then have "step_ok input ?L \<lparr>bl_bits = c_bits ?L + 1 + elias_gamma_bits (int ?n), bl_index = int i, bl_offset = off\<rparr>"
    using L assms(2-4) by (simp add: step_ok_def Let_def block_cost_def del: run.simps)
  then show ?thesis using L(1,4) assms(5) by (simp add: c_def zx0_allocate_def del: run.simps)
qed

lemma new_offset_chain:
  assumes "gchain input c" "c_index c = int i - int n" "last_off c \<noteq> off" "1 \<le> off" "off \<le> 32640"
    and "2 \<le> n" "n \<le> run input off (Suc i)" "i < length input"
  shows "gchain input (zx0_allocate (c_bits c + 8 + elias_gamma_bits (int ((off - 1) div 128 + 1)) + elias_gamma_bits (int n - 1))
           (int i) off c)"
proof -
  have n: "n \<le> i" using assms(7) run_less [of input off "Suc i"] by simp
  then have "nat (c_index c + 1) = Suc i - n" using assms(2) by (simp add: of_nat_diff nat_diff_distrib)
  then have "match_ok input off (nat (c_index c + 1)) n"
    using run_match_ok [of n input off "Suc i"] assms(4,6,7) by simp
  then show ?thesis
    using assms gchain_not_Nil [OF assms(1)] by (simp add: step_ok_def Let_def block_cost_def zx0_allocate_def del: run.simps)
qed

declare run.simps [simp del]

lemma opt_inv_relink:
  assumes "opt_inv input lim i tm od opt" "gchain input c" "bl_offset (hd c) = off" "c_index c < int (tm off)"
  shows "opt_inv input lim i tm (od(off := (od off)\<lparr>last_match := c\<rparr>)) opt"
  using assms gchain_not_Nil [OF assms(2)] by (auto simp: opt_inv_def od_inv_def prov_def Let_def)

lemma match_update:
  assumes "opt_inv input lim i tm od opt" "1 \<le> off" "off \<le> lim" "tm off = i" "0 < run input off (Suc i)"
    and "last_literal d = last_literal (od off)" "match_length d = run input off (Suc i)"
    and "gchain input (last_match d) \<and> bl_offset (hd (last_match d)) = off \<and> c_index (last_match d) \<le> int i
      \<or> last_match d = last_match (od off) \<and> last_literal (od off) = []"
  shows "opt_inv input lim i (tm(off := Suc i)) (od(off := d)) opt"
proof (rule opt_inv_update [OF assms(1-4)])
  have d: "od_inv input i off (od off)" using assms(1-4) by (auto simp: opt_inv_def)
  have r: "run input off (Suc i) = Suc (run input off i)" "0 < i" "off \<le> i" using assms(5) by (auto simp: run.simps split: if_splits)
  show "od_inv input (Suc i) off d"
    using d assms(6-8) r gchain_not_Nil by (auto simp: od_inv_def)
  show "off = 1 \<Longrightarrow> last_match d \<noteq> [] \<and> last_literal d \<noteq> []"
    using assms(1,4,6,8) r(2) gchain_not_Nil by (auto simp: opt_inv_def)
qed (use assms(6) in simp)

text \<open>The invariant once the length of the match, which the code counts later, is set as well.\<close>

lemma copy_last_offset_ok:
  assumes I: "opt_inv input lim i tm (op_od s) (op_optimal s)" "1 \<le> off" "off \<le> lim" "tm off = i" "0 < run input off (Suc i)"
    and l: "i < length input"
  defines "s' \<equiv> copy_last_offset i off s" and "L \<equiv> last_literal (op_od s off)"
  shows "opt_inv input lim i (tm(off := Suc i))
      ((op_od s')(off := (op_od s' off)\<lparr>match_length := run input off (Suc i)\<rparr>)) (op_optimal s')
    \<and> last_literal (op_od s' off) = L \<and> match_length (op_od s' off) = run input off i
    \<and> (L \<noteq> [] \<longrightarrow> last_match (op_od s' off) \<noteq> [] \<and> c_index (last_match (op_od s' off)) = int i
          \<and> c_bits (last_match (op_od s' off)) = c_bits L + 1 + elias_gamma_bits (int i - c_index L))
    \<and> (\<forall>j<i. op_optimal s' j = op_optimal s j) \<and> (\<forall>x. x \<noteq> off \<longrightarrow> op_od s' x = op_od s x)
    \<and> op_size s' = op_size s \<and> op_best s' = op_best s"
proof -
  let ?n = "run input off (Suc i)"
  have d: "od_inv input i off (op_od s off)" using I by (auto simp: opt_inv_def)
  then have ml: "match_length (op_od s off) = run input off i" by (simp add: od_inv_def)
  show ?thesis
  proof (cases "L = []")
    case True
    have "opt_inv input lim i (tm(off := Suc i)) ((op_od s)(off := (op_od s off)\<lparr>match_length := ?n\<rparr>)) (op_optimal s)"
      using True by (intro match_update [OF I]) (simp_all add: L_def)
    then show ?thesis using True ml by (simp add: s'_def L_def copy_last_offset_def Let_def)
  next
    case False
    define c where "c = zx0_allocate (c_bits L + 1 + elias_gamma_bits (int i - c_index L)) (int i) off L"
    have g: "gchain input c" using last_offset_chain [OF d I(2) l I(5)] False by (simp add: c_def L_def)
    let ?od = "(op_od s)(off := (op_od s off)\<lparr>last_match := c, match_length := ?n\<rparr>)"
    have "opt_inv input lim i (tm(off := Suc i)) ?od (op_optimal s)"
      using g by (intro match_update [OF I]) (simp_all add: L_def c_def zx0_allocate_def del: gchain.simps)
    moreover have "last_off L = off" using d False by (simp add: od_inv_def L_def)
    then have "prov input lim (tm(off := Suc i)) ?od (op_optimal s) i c"
      using g I(2,3) False by (simp add: prov_def Let_def c_def zx0_allocate_def L_def)
    ultimately have "opt_inv input lim i (tm(off := Suc i)) ?od (offer_fn i c (op_optimal s))" by (rule opt_inv_offer)
    moreover have "s' = offer i c (s\<lparr>op_od := (op_od s)(off := (op_od s off)\<lparr>last_match := c\<rparr>)\<rparr>)"
      using False by (simp add: s'_def L_def c_def copy_last_offset_def Let_def)
    ultimately show ?thesis
      using ml by (simp add: L_def c_def zx0_allocate_def offer_fn_other)
  qed
qed

lemma copy_match_ok:
  assumes I: "opt_inv input lim i tm (op_od s) (op_optimal s)" "1 \<le> off" "off \<le> lim" "tm off = i" "0 < run input off (Suc i)"
    and l: "i < length input" "lim \<le> 32640" and B: "best_inv input i (op_optimal s) (op_size s) (op_best s)"
  defines "s' \<equiv> copy_new_offset i off (copy_last_offset i off s)"
  shows "opt_inv input lim i (tm(off := Suc i)) (op_od s') (op_optimal s')
    \<and> best_inv input i (op_optimal s') (op_size s') (op_best s')"
proof -
  let ?n = "run input off (Suc i)" and ?L = "last_literal (op_od s off)"
  define s1 where "s1 = copy_last_offset i off s"
  define d1 where "d1 = (op_od s1 off)\<lparr>match_length := ?n\<rparr>"
  define s2 where "s2 = s1\<lparr>op_od := (op_od s1)(off := d1)\<rparr>"
  note C = copy_last_offset_ok [OF I l(1), folded s1_def]
  have r: "?n = Suc (run input off i)" "?n \<le> i" using I(5) run_less [of input off "Suc i"] by (auto simp: run.simps split: if_splits)
  have I2: "opt_inv input lim i (tm(off := Suc i)) (op_od s2) (op_optimal s2)" using C by (simp add: s2_def d1_def)
  have o: "op_optimal s2 j = op_optimal s j" if "j < i" for j using C that by (simp add: s2_def)
  have B2: "best_inv input i (op_optimal s2) (op_size s2) (op_best s2)"
    using best_inv_cong [OF B o] C by (simp add: s2_def)
  have ml: "Suc (match_length (op_od s1 off)) = ?n" using C r(1) by (simp)
  show ?thesis
  proof (cases "?n > 1")
    case False
    then have "s' = s2" using ml by (simp add: s'_def copy_new_offset_def Let_def s1_def [symmetric] s2_def d1_def)
    then show ?thesis using I2 B2 by simp
  next
    case True
    define s3 where "s3 = extend_best i ?n s2"
    have "2 \<le> ?n" using True by simp
    note E = extend_best_ok [OF B2 this r(2) l(1), folded s3_def]
    define m where "m = op_best s3 ?n"
    define chain where "chain = op_optimal s3 (i - m)"
    define bits where "bits = c_bits chain + 8 + elias_gamma_bits (int ((off - 1) div 128 + 1)) + elias_gamma_bits (int m - 1)"
    define c where "c = zx0_allocate bits (int i) off chain"
    have m: "2 \<le> m" "m \<le> ?n" "m \<le> i" using E(2) r(2) by (simp_all add: m_def best_ok_def)
    have ch: "chain = op_optimal s (i - m)" using E(4) o m by (simp add: chain_def)
    have s': "s' = (if last_match d1 = [] \<or> c_index (last_match d1) \<noteq> int i \<or> c_bits (last_match d1) > bits
        then offer i c (s3\<lparr>op_od := (op_od s3)(off := d1\<lparr>last_match := c\<rparr>)\<rparr>) else s3)"
      using True ml E(3) by (simp add: s'_def copy_new_offset_def Let_def s1_def [symmetric] s2_def d1_def s3_def
          m_def chain_def bits_def c_def)
    show ?thesis
    proof (cases "last_match d1 = [] \<or> c_index (last_match d1) \<noteq> int i \<or> c_bits (last_match d1) > bits")
      case False
      then show ?thesis using s' I2 E by simp
    next
      case fire: True
      have bo: "best_ok (op_optimal s) i ?n m"
        using E(2) o m I(5) r(2) by (auto simp: best_ok_def reach_def m_def)
      have "last_off chain \<noteq> off"
      proof
        assume "last_off chain = off"
        then have "?L \<noteq> [] \<and> c_bits ?L + 1 + elias_gamma_bits (int i - c_index ?L) \<le> bits"
          using new_offset_dearer [OF I bo] ch by (simp add: bits_def)
        then show False using fire C by (auto simp: d1_def)
      qed
      have "op_optimal s (i - m) \<noteq> []" using I(1) m by (simp add: opt_inv_def)
      then have p: "prov input lim tm (op_od s) (op_optimal s) (i - m) chain" using I(1) ch by (simp add: opt_inv_def)
      then have g: "gchain input chain" "c_index chain = int i - int m" using m(3) by (simp_all add: prov_def Let_def of_nat_diff)
      have gc: "gchain input c"
        using new_offset_chain [OF g \<open>last_off chain \<noteq> off\<close> I(2) _ m(1,2) l(1)] I(3) l(2) by (simp add: c_def bits_def)
      let ?od = "(op_od s2)(off := d1\<lparr>last_match := c\<rparr>)" and ?tm = "tm(off := Suc i)"
      have "opt_inv input lim i ?tm ?od (op_optimal s2)"
        using opt_inv_relink [OF I2 gc] by (simp add: c_def zx0_allocate_def s2_def)
      moreover have "prov input lim ?tm ?od (op_optimal s2) i c"
        using gc g I(2,3) m(3) ch o [of "i - m"] m(1) \<open>last_off chain \<noteq> off\<close> E(4)
        by (simp add: prov_def Let_def c_def zx0_allocate_def nat_diff_distrib del: gchain.simps)
      ultimately have "opt_inv input lim i ?tm ?od (offer_fn i c (op_optimal s2))" by (rule opt_inv_offer)
      moreover have "best_inv input i (offer_fn i c (op_optimal s2)) (op_size s3) (op_best s3)"
        by (rule best_inv_cong [OF E(1)]) (simp add: offer_fn_other)
      ultimately show ?thesis using s' fire E(3,4) by simp
    qed
  qed
qed

lemma copy_literals_ok:
  assumes I: "opt_inv input lim i tm (op_od s) (op_optimal s)" "1 \<le> off" "off \<le> lim" "tm off = i"
    and l: "i < length input" "run input off (Suc i) = 0" "off \<le> max 1 i"
    and B: "best_inv input i (op_optimal s) (op_size s) (op_best s)"
  defines "s' \<equiv> copy_literals i off s"
  shows "opt_inv input lim i (tm(off := Suc i)) (op_od s') (op_optimal s')
    \<and> best_inv input i (op_optimal s') (op_size s') (op_best s')
    \<and> (off = 1 \<or> op_optimal s i \<noteq> [] \<longrightarrow> op_optimal s' i \<noteq> [])"
proof -
  let ?M = "last_match (op_od s off)" and ?tm = "tm(off := Suc i)"
  have d: "od_inv input i off (op_od s off)" using I by (auto simp: opt_inv_def)
  show ?thesis
  proof (cases "?M = []")
    case True
    then have "opt_inv input lim i ?tm ((op_od s)(off := (op_od s off)\<lparr>match_length := 0\<rparr>)) (op_optimal s)"
      using I(1) d l(2) by (intro opt_inv_update [OF I]) (auto simp: od_inv_def opt_inv_def)
    then show ?thesis using True B I(1) by (auto simp: s'_def copy_literals_def Let_def opt_inv_def)
  next
    case False
    define n where "n = int i - c_index ?M"
    define c where "c = zx0_allocate (c_bits ?M + 1 + elias_gamma_bits n + n * 8) (int i) 0 ?M"
    have M: "gchain input ?M" "bl_offset (hd ?M) = off" "c_index ?M < int i" using d False by (simp_all add: od_inv_def)
    have lo: "last_off ?M = off" using M(2) I(2) False by (cases ?M) auto
    have "gchain input c"
      using M I(2) l(1) False by (simp add: c_def n_def zx0_allocate_def step_ok_def Let_def block_cost_def)
    let ?od = "(op_od s)(off := (op_od s off)\<lparr>match_length := 0, last_literal := c\<rparr>)"
    have "opt_inv input lim i ?tm ?od (op_optimal s)"
      using d M lo \<open>gchain input c\<close> l(2,3) False
      by (intro opt_inv_update [OF I]) (simp_all add: od_inv_def c_def zx0_allocate_def del: gchain.simps)
    moreover have "prov input lim ?tm ?od (op_optimal s) i c"
      using \<open>gchain input c\<close> lo I(2,3) by (simp add: prov_def Let_def c_def zx0_allocate_def del: gchain.simps)
    ultimately have "opt_inv input lim i ?tm ?od (offer_fn i c (op_optimal s))" by (rule opt_inv_offer)
    moreover have "best_inv input i (offer_fn i c (op_optimal s)) (op_size s) (op_best s)"
      by (rule best_inv_cong [OF B]) (simp add: offer_fn_other)
    moreover have "s' = offer i c (s\<lparr>op_od := ?od\<rparr>)"
      using False by (simp add: s'_def c_def n_def copy_literals_def Let_def)
    ultimately show ?thesis by (simp add: offer_fn_set c_def zx0_allocate_def)
  qed
qed

lemma zx0_allocate_not_Nil [simp]: "zx0_allocate b i off c \<noteq> []"
  by (simp add: zx0_allocate_def)

lemma offer_fn_keeps: "opt k \<noteq> [] \<Longrightarrow> c \<noteq> [] \<Longrightarrow> offer_fn i c opt k \<noteq> []"
  by (simp add: offer_fn_def)

lemma copy_last_offset_reaches:
  assumes "op_optimal s i \<noteq> [] \<or> last_literal (op_od s off) \<noteq> []"
  shows "op_optimal (copy_last_offset i off s) i \<noteq> []"
  using assms by (auto simp: copy_last_offset_def Let_def offer_fn_set)

lemma extend_best_simps [simp]: "op_optimal (extend_best i n s) = op_optimal s" "op_od (extend_best i n s) = op_od s"
  by (simp_all add: extend_best_def Let_def)

lemma copy_new_offset_keeps: "op_optimal s i \<noteq> [] \<Longrightarrow> op_optimal (copy_new_offset i off s) i \<noteq> []"
  by (simp add: copy_new_offset_def Let_def offer_fn_keeps)

lemma try_offset_ok:
  assumes I: "opt_inv input lim i tm (op_od s) (op_optimal s)" "1 \<le> off" "off \<le> lim" "tm off = i"
    and l: "i < length input" "lim \<le> 32640" "off \<le> max 1 i"
    and B: "best_inv input i (op_optimal s) (op_size s) (op_best s)"
  defines "s' \<equiv> try_offset input 0 i s off"
  shows "opt_inv input lim i (tm(off := Suc i)) (op_od s') (op_optimal s')
    \<and> best_inv input i (op_optimal s') (op_size s') (op_best s')
    \<and> (off = 1 \<or> op_optimal s i \<noteq> [] \<longrightarrow> op_optimal s' i \<noteq> [])"
proof (cases "i \<noteq> 0 \<and> input ! i = input ! (i - off)")
  case True
  then have r: "0 < run input off (Suc i)" using l(3) by (simp add: run.simps)
  have "off = 1 \<Longrightarrow> last_literal (op_od s off) \<noteq> []" using I(1,4) True by (auto simp: opt_inv_def)
  then show ?thesis
    using copy_match_ok [OF I r l(1,2) B] copy_last_offset_reaches [of s i off] copy_new_offset_keeps True
    by (simp add: s'_def try_offset_def) blast
next
  case False
  then have r: "run input off (Suc i) = 0" by (auto simp: run.simps)
  have "s' = copy_literals i off s" using False by (auto simp: s'_def try_offset_def)
  then show ?thesis using copy_literals_ok [OF I l(1) r l(3) B] by simp
qed

section \<open>All positions\<close>

definition index_inv :: "8 word list \<Rightarrow> nat \<Rightarrow> nat \<Rightarrow> opt_state \<Rightarrow> bool" where
  "index_inv input lim i s \<longleftrightarrow> opt_inv input lim i (\<lambda>_. i) (op_od s) (op_optimal s) \<and> (2 < length input \<longrightarrow> op_best s 2 = 2)"

lemma offsets_ok:
  assumes "index_inv input lim i s" "i < length input" "1 \<le> lim" "lim \<le> 32640" "j \<le> offset_ceiling i lim"
  defines "s' \<equiv> foldl (try_offset input 0 i) (s\<lparr>op_size := 2\<rparr>) [1..<Suc j]"
  shows "opt_inv input lim i (\<lambda>x. if 1 \<le> x \<and> x \<le> j then Suc i else i) (op_od s') (op_optimal s')
    \<and> best_inv input i (op_optimal s') (op_size s') (op_best s') \<and> (1 \<le> j \<longrightarrow> op_optimal s' i \<noteq> [])"
  using assms(5) unfolding s'_def
proof (induction j)
  case 0
  have "best_ok (op_optimal s) i m (op_best s m)" if "2 \<le> m" "m \<le> 2" "op_best s 2 = 2" for m
    using that best_ok_2 by (cases "m = 2") auto
  moreover have "(\<lambda>x::nat. if 1 \<le> x \<and> x \<le> 0 then Suc i else i) = (\<lambda>_. i)" by auto
  ultimately show ?case using assms(1) by (auto simp: index_inv_def best_inv_def simp del: One_nat_def)
next
  case (Suc j)
  let ?s = "foldl (try_offset input 0 i) (s\<lparr>op_size := 2\<rparr>) [1..<Suc j]"
  let ?tm = "\<lambda>x. if 1 \<le> x \<and> x \<le> j then Suc i else i"
  have c: "Suc j \<le> lim" "Suc j \<le> max 1 i" using Suc.prems assms(3) by (auto simp: offset_ceiling_def split: if_splits)
  have s: "opt_inv input lim i ?tm (op_od ?s) (op_optimal ?s)" "best_inv input i (op_optimal ?s) (op_size ?s) (op_best ?s)"
    "1 \<le> j \<longrightarrow> op_optimal ?s i \<noteq> []" using Suc.IH Suc.prems by simp_all
  have "?tm(Suc j := Suc i) = (\<lambda>x. if 1 \<le> x \<and> x \<le> Suc j then Suc i else i)" by auto
  then show ?case
    using try_offset_ok [OF s(1) _ c(1) _ assms(2,4) c(2) s(2)] s(3) by (cases "j = 0") (simp_all del: upt_Suc add: upt_Suc_append)
qed

text \<open>The offsets beyond the ceiling cannot repeat the byte and have seen nothing.\<close>

lemma opt_inv_skip:
  assumes "opt_inv input lim i (\<lambda>x. if 1 \<le> x \<and> x \<le> j then Suc i else i) od opt" "max 1 i < Suc j" "Suc j \<le> lim"
  shows "opt_inv input lim i (\<lambda>x. if 1 \<le> x \<and> x \<le> Suc j then Suc i else i) od opt"
proof -
  let ?tm = "\<lambda>x. if 1 \<le> x \<and> x \<le> j then Suc i else i"
  have "\<forall>x\<in>{1..lim}. od_inv input (?tm x) x (od x)" using assms(1) by (simp add: opt_inv_def)
  from bspec [OF this, of "Suc j"] have d: "od_inv input i (Suc j) (od (Suc j))" using assms(3) by simp
  have r: "run input (Suc j) (Suc i) = 0" using assms(2) by (simp add: run.simps)
  have z: "run input (Suc j) i = 0" using assms(2) by (cases i) (simp_all add: run.simps)
  have "opt_inv input lim i (?tm(Suc j := Suc i)) (od(Suc j := od (Suc j))) opt"
    using assms(2) by (intro opt_inv_update [OF assms(1) _ assms(3)]) (use d r z in \<open>auto simp: od_inv_def max_def split: if_splits\<close>)
  moreover have "?tm(Suc j := Suc i) = (\<lambda>x. if 1 \<le> x \<and> x \<le> Suc j then Suc i else i)" by auto
  ultimately show ?thesis by simp
qed

lemma opt_inv_all:
  assumes "opt_inv input lim i (\<lambda>x. if 1 \<le> x \<and> x \<le> offset_ceiling i lim then Suc i else i) od opt" "1 \<le> lim"
  shows "opt_inv input lim i (\<lambda>x. if 1 \<le> x \<and> x \<le> lim then Suc i else i) od opt"
proof -
  have c: "offset_ceiling i lim \<le> lim" "offset_ceiling i lim = lim \<or> offset_ceiling i lim = max 1 i"
    using assms(2) by (auto simp: offset_ceiling_def)
  have "opt_inv input lim i (\<lambda>x. if 1 \<le> x \<and> x \<le> offset_ceiling i lim + k then Suc i else i) od opt"
    if "offset_ceiling i lim + k \<le> lim" for k
    using that
  proof (induction k)
    case (Suc k)
    then show ?case using opt_inv_skip [of input lim i "offset_ceiling i lim + k" od opt] c(2) by fastforce
  qed (use assms(1) in simp)
  from this [of "lim - offset_ceiling i lim"] show ?thesis using c(1) by simp
qed

lemma opt_inv_next:
  assumes "opt_inv input lim i (\<lambda>x. if 1 \<le> x \<and> x \<le> lim then Suc i else i) od opt" "opt i \<noteq> []" "1 \<le> lim"
  shows "opt_inv input lim (Suc i) (\<lambda>_. Suc i) od opt"
proof -
  have "prov input lim (\<lambda>_. Suc i) od opt k (opt k)" if "opt k \<noteq> []" for k
    using assms(1) that by (auto simp: opt_inv_def prov_def Let_def)
  then show ?thesis using assms by (auto simp: opt_inv_def less_Suc_eq)
qed

lemma try_index_ok:
  assumes "index_inv input lim i s" "i < length input" "1 \<le> lim" "lim \<le> 32640"
  shows "index_inv input lim (Suc i) (try_index input 0 lim s i)"
proof -
  have "1 \<le> offset_ceiling i lim" using assms(3) by (auto simp: offset_ceiling_def)
  then show ?thesis
    using offsets_ok [OF assms order_refl] opt_inv_next [OF opt_inv_all] assms(3)
    by (simp add: index_inv_def try_index_def best_inv_def del: upt_Suc)
qed

lemma opt_start_inv: "index_inv input lim 0 (opt_start (length input) 0 junk)"
  by (auto simp: index_inv_def opt_start_def opt_inv_def od_inv_def run.simps zx0_allocate_def fake_def)

lemma indices_ok:
  assumes "1 \<le> lim" "lim \<le> 32640" "n \<le> length input"
  shows "index_inv input lim n (foldl (try_index input 0 lim) (opt_start (length input) 0 junk) [0..<n])"
  using assms(3)
proof (induction n)
  case 0
  then show ?case using opt_start_inv by simp
next
  case (Suc n)
  then show ?case using try_index_ok [OF _ _ assms(1,2)] by simp
qed

lemma zx0_optimize_gchain:
  assumes "input \<noteq> []" "1 \<le> lim" "lim \<le> 32640"
  shows "gchain input (zx0_optimize junk input 0 lim)" "c_index (zx0_optimize junk input 0 lim) = int (length input) - 1"
proof -
  let ?s = "foldl (try_index input 0 lim) (opt_start (length input) 0 junk) [0..<length input]" and ?k = "length input - 1"
  have "opt_inv input lim (length input) (\<lambda>_. length input) (op_od ?s) (op_optimal ?s)"
    using indices_ok [OF assms(2,3) order_refl] by (simp add: index_inv_def)
  moreover have "?k < length input" using assms(1) by simp
  ultimately have "prov input lim (\<lambda>_. length input) (op_od ?s) (op_optimal ?s) ?k (op_optimal ?s ?k)"
    by (simp add: opt_inv_def)
  then show "gchain input (zx0_optimize junk input 0 lim)" "c_index (zx0_optimize junk input 0 lim) = int (length input) - 1"
    using assms(1) by (simp_all add: prov_def Let_def zx0_optimize_def of_nat_diff Suc_leI)
qed

section \<open>The cost fits an int\<close>

lemma bits_left_less: "0 < n \<Longrightarrow> bits_left n < n"
proof (induction n rule: bits_left.induct)
  case (1 n)
  show ?case
  proof (cases "1 < n")
    case True
    then have "bits_left (n div 2) < n div 2" using 1 by simp
    then show ?thesis using True by (subst bits_left.simps) simp
  qed (use "1.prems" in \<open>simp add: bits_left.simps\<close>)
qed

lemma eg_le: "0 < a \<Longrightarrow> elias_gamma_bits a \<le> 2 * a - 1"
  using bits_left_less [of "nat a"] by (simp add: elias_gamma_bits_def)

lemma eg_255: "a \<le> 255 \<Longrightarrow> elias_gamma_bits a \<le> 15"
proof -
  assume "a \<le> 255"
  then have "elias_gamma_bits a \<le> elias_gamma_bits 255" by (rule eg_mono)
  also have "\<dots> = 15" by (simp add: elias_gamma_bits_def bits_left.simps)
  finally show ?thesis .
qed

lemma step_cost_le:
  assumes "step_ok input c b"
  shows "bl_bits b \<le> c_bits c + 12 * (bl_index b - c_index c)"
proof -
  let ?n = "bl_index b - c_index c"
  have n: "0 < ?n" "bl_bits b = c_bits c + block_cost (last_off c) (nat ?n, bl_offset b)"
    using assms by (simp_all add: step_ok_def Let_def)
  have "bl_offset b \<noteq> 0 \<Longrightarrow> bl_offset b \<noteq> last_off c \<Longrightarrow> 2 \<le> ?n \<and> bl_offset b \<le> 32640"
    using assms by (auto simp: step_ok_def Let_def)
  moreover have "elias_gamma_bits (int ((bl_offset b - 1) div 128 + 1)) \<le> 15" if "bl_offset b \<le> 32640"
    using that by (intro eg_255) linarith
  moreover have "2 \<le> ?n \<Longrightarrow> elias_gamma_bits (?n - 1) \<le> 2 * ?n - 3" using eg_le [of "?n - 1"] by simp
  ultimately show ?thesis using n eg_le [of ?n] by (auto simp: block_cost_def)
qed

lemma gchain_cost_le: "gchain input c \<Longrightarrow> c_bits c \<le> 12 * (c_index c + 1) - 1"
proof (induction c)
  case (Cons b c)
  then show ?case using step_cost_le [of input c b] by (cases "c = []") (auto simp: fake_def)
qed simp

section \<open>Properties\<close>

text \<open>
  C8 (zx0_optimize_correct). For every input the search returns a chain of blocks that describes the
  input: literals and matches alternate as the format wants, every match repeats the bytes it
  covers, a new offset is only used where it differs from the last one and fits the format. The cost
  it carries is the exact number of bits of the encoding, and it is at most twelve bits a byte, so that it
  fits an \<^verbatim>\<open>int\<close> for inputs below 128 MiB. What the uninitialised table of lengths held does not matter.
\<close>

theorem zx0_optimize_correct:
  assumes "zx0_optimize junk input 0 offset_limit = c" "input \<noteq> []" "1 \<le> offset_limit" "offset_limit \<le> 32640"
  shows "valid_chain input c \<and> bl_bits (hd c) = chain_cost 1 (chain_steps (hd (rev c)) (tl (rev c))) - 1
    \<and> bl_bits (hd c) < 12 * int (length input)"
  using gchain_valid [OF zx0_optimize_gchain [OF assms(2-4)] assms(2), of junk]
    gchain_cost_le [OF zx0_optimize_gchain(1) [OF assms(2-4)], of junk] zx0_optimize_gchain(2) [OF assms(2-4), of junk] assms(1)
  by simp

theorem zx0_optimize_correct_witness:
  "valid_chain [97, 98, 97, 98, 97]
     [\<lparr>bl_bits = 31, bl_index = 4, bl_offset = 2\<rparr>, \<lparr>bl_bits = 19, bl_index = 1, bl_offset = 0\<rparr>,
      \<lparr>bl_bits = -1, bl_index = -1, bl_offset = 1\<rparr>]"
  (is "valid_chain ?i ?c")
proof -
  have "zx0_optimize (\<lambda>_. 9) ?i 0 8 = ?c" by code_simp
  from zx0_optimize_correct [OF this] show ?thesis by simp
qed

end
