(* ===== verification/LZ4.thy ===== *)
theory LZ4
  imports Prelude
begin

text \<open>
  The LZ4 block decoder of \<^verbatim>\<open>src/decompressors/lz4/codec_lz4.c\<close>, the alternative to ZX0 for
  unpacking the rescue GUI. Pointers are indices: \<open>ip\<close> into the source array, \<open>op\<close> into
  the destination. \<open>compressedSize\<close> and \<open>dstCapacity\<close> are what the caller states; the arrays
  may be of another size, and a read or write outside them is the result \<open>LOutside\<close>. The lengths are \<^verbatim>\<open>int\<close>s; a sum
  above the type is the result \<open>LOverflow\<close>.

  The decoder is compared with the sequence semantics of the block format: a list of sequences
  (literals, offset, match length) and the last literals stand for the data that \<open>lz4_expand\<close>
  gives, and \<open>lz4_stream\<close> is their byte encoding.
\<close>

unbundle bit_operations_syntax

section \<open>Definitions\<close>

datatype lz4_result = LReturn int "8 word list" | LOutside | LOverflow

fun lz4_copy_bytes :: "8 word list \<Rightarrow> nat \<Rightarrow> 8 word list \<Rightarrow> nat \<Rightarrow> nat \<Rightarrow> 8 word list option" where
  "lz4_copy_bytes d di s si 0 = Some d"
| "lz4_copy_bytes d di s si (Suc n) =
     (if di < length d \<and> si < length s
      then lz4_copy_bytes (d[di := s ! si]) (Suc di) s (Suc si) n else None)"

text \<open>The same copy when source and destination are the same array.\<close>

fun lz4_copy_within :: "8 word list \<Rightarrow> nat \<Rightarrow> nat \<Rightarrow> nat \<Rightarrow> 8 word list option" where
  "lz4_copy_within d di si 0 = Some d"
| "lz4_copy_within d di si (Suc n) =
     (if di < length d \<and> si < length d
      then lz4_copy_within (d[di := d ! si]) (Suc di) (Suc si) n else None)"

definition LZ4_read16 :: "8 word list \<Rightarrow> nat \<Rightarrow> nat" where
  "LZ4_read16 src ip = unat (src ! ip) + 256 * unat (src ! Suc ip)"

text \<open>
  The length extension \<^verbatim>\<open>do { if (ip >= iend) return -1; len = *ip++; n += len; } while (len == 255);\<close>
  \<open>LenEnd\<close> is the return of -1. Read from the list of bytes that remain before \<open>iend\<close>.
\<close>

datatype lz4_len = LenEnd | LenOverflow | LenOk nat nat

fun lz4_ext_length :: "8 word list \<Rightarrow> nat \<Rightarrow> nat \<Rightarrow> lz4_len" where
  "lz4_ext_length [] ip n = LenEnd"
| "lz4_ext_length (len # rest) ip n =
     (if n + unat len > 2147483647 then LenOverflow
      else if len = 255 then lz4_ext_length rest (Suc ip) (n + unat len)
      else LenOk (Suc ip) (n + unat len))"

definition lz4_length :: "8 word list \<Rightarrow> nat \<Rightarrow> nat \<Rightarrow> nat \<Rightarrow> lz4_len" where
  "lz4_length src iend ip nib =
     (if nib = 15 then lz4_ext_length (drop ip (take iend src)) ip 15 else LenOk ip nib)"

datatype lz4_step = LDone lz4_result | LNext nat nat "8 word list"

text \<open>One round of the decoder's loop.\<close>

definition lz4_round :: "8 word list \<Rightarrow> nat \<Rightarrow> nat \<Rightarrow> nat \<Rightarrow> nat \<Rightarrow> 8 word list \<Rightarrow> lz4_step" where
  "lz4_round src iend oend ip op dst =
     (if ip \<ge> iend then LDone (LReturn (int op) dst)
      else if ip \<ge> length src then LDone LOutside
      else
        let token = src ! ip in
        case lz4_length src iend (Suc ip) (unat token div 16) of
          LenEnd \<Rightarrow> LDone (LReturn (-1) dst)
        | LenOverflow \<Rightarrow> LDone LOverflow
        | LenOk ip1 literalLength \<Rightarrow>
            let litEnd = op + literalLength in
            if litEnd > oend then LDone (LReturn (-1) dst)
            else case lz4_copy_bytes dst op src ip1 literalLength of
              None \<Rightarrow> LDone LOutside
            | Some dst1 \<Rightarrow>
                let ip2 = ip1 + literalLength in
                if ip2 \<ge> iend then LDone (LReturn (int litEnd) dst1)
                else if ip2 + 2 > iend then LDone (LReturn (-1) dst1)
                else if ip2 + 2 > length src then LDone LOutside
                else
                  let offset = LZ4_read16 src ip2; ip3 = ip2 + 2 in
                  if offset = 0 then LDone (LReturn (-1) dst1)
                  else if litEnd < offset then LDone (LReturn (-1) dst1)
                  else case lz4_length src iend ip3 (unat token mod 16) of
                    LenEnd \<Rightarrow> LDone (LReturn (-1) dst1)
                  | LenOverflow \<Rightarrow> LDone LOverflow
                  | LenOk ip4 ml \<Rightarrow>
                      let matchLength = ml + 4; matchEnd = litEnd + matchLength in
                      if matchLength > 2147483647 then LDone LOverflow
                      else if matchEnd > oend then LDone (LReturn (-1) dst1)
                      else case lz4_copy_within dst1 litEnd (litEnd - offset) matchLength of
                        None \<Rightarrow> LDone LOutside
                      | Some dst2 \<Rightarrow> LNext ip4 matchEnd dst2)"

lemma lz4_ext_length_grow: "lz4_ext_length bs ip n = LenOk ip' n' \<Longrightarrow> ip < ip'"
  by (induction bs ip n rule: lz4_ext_length.induct) (auto split: if_splits dest: Suc_lessD)

lemma lz4_length_grow: "lz4_length src iend ip nib = LenOk ip' n \<Longrightarrow> ip \<le> ip'"
  by (auto simp: lz4_length_def dest: lz4_ext_length_grow split: if_splits)

lemma lz4_round_grow: "lz4_round src iend oend ip op dst = LNext ip' op' dst' \<Longrightarrow> ip < ip' \<and> ip < iend"
  unfolding lz4_round_def
  by (auto simp: Let_def split: if_splits option.splits lz4_len.splits dest!: lz4_length_grow)

function lz4_loop :: "8 word list \<Rightarrow> nat \<Rightarrow> nat \<Rightarrow> nat \<Rightarrow> nat \<Rightarrow> 8 word list \<Rightarrow> lz4_result" where
  "lz4_loop src iend oend ip op dst =
     (case lz4_round src iend oend ip op dst of
        LDone r \<Rightarrow> r
      | LNext ip' op' dst' \<Rightarrow> lz4_loop src iend oend ip' op' dst')"
  by pat_completeness auto
termination
  by (relation "measure (\<lambda>(src, iend, oend, ip, op, dst). iend - ip)")
    (auto dest!: lz4_round_grow)

declare lz4_loop.simps [simp del]

definition lz4_decompress :: "8 word list \<Rightarrow> 8 word list \<Rightarrow> int \<Rightarrow> int \<Rightarrow> lz4_result" where
  "lz4_decompress src dst compressedSize dstCapacity =
     (if compressedSize \<le> 0 \<or> dstCapacity \<le> 0 then LReturn (-1) dst
      else lz4_loop src (nat compressedSize) (nat dstCapacity) 0 0 dst)"

subsection \<open>Sequence semantics\<close>

record lz4_seq =
  ls_lits :: "8 word list"
  ls_offset :: nat
  ls_match :: nat

fun lz4_repeat :: "8 word list \<Rightarrow> nat \<Rightarrow> nat \<Rightarrow> 8 word list" where
  "lz4_repeat out off 0 = out"
| "lz4_repeat out off (Suc n) = lz4_repeat (out @ [out ! (length out - off)]) off n"

fun lz4_expand :: "lz4_seq list \<Rightarrow> 8 word list \<Rightarrow> 8 word list \<Rightarrow> 8 word list" where
  "lz4_expand [] lst out = out @ lst"
| "lz4_expand (s # ss) lst out =
     lz4_expand ss lst (lz4_repeat (out @ ls_lits s) (ls_offset s) (ls_match s))"

definition lz4_nibble :: "nat \<Rightarrow> nat" where
  "lz4_nibble n = (if n < 15 then n else 15)"

definition lz4_len_bytes :: "nat \<Rightarrow> 8 word list" where
  "lz4_len_bytes n = (if n < 15 then [] else replicate ((n - 15) div 255) 255 @ [of_nat ((n - 15) mod 255)])"

definition lz4_seq_bytes :: "lz4_seq \<Rightarrow> 8 word list" where
  "lz4_seq_bytes s =
     (let l = length (ls_lits s); m = ls_match s - 4 in
        of_nat (lz4_nibble l * 16 + lz4_nibble m) # lz4_len_bytes l @ ls_lits s
        @ [of_nat (ls_offset s mod 256), of_nat (ls_offset s div 256)] @ lz4_len_bytes m)"

definition lz4_last_bytes :: "8 word list \<Rightarrow> 8 word list" where
  "lz4_last_bytes lst = of_nat (lz4_nibble (length lst) * 16) # lz4_len_bytes (length lst) @ lst"

definition lz4_stream :: "lz4_seq list \<Rightarrow> 8 word list \<Rightarrow> 8 word list" where
  "lz4_stream ss lst = concat (map lz4_seq_bytes ss) @ lz4_last_bytes lst"

text \<open>A sequence that may follow \<open>n\<close> bytes of output.\<close>

fun lz4_seqs_ok :: "nat \<Rightarrow> lz4_seq list \<Rightarrow> bool" where
  "lz4_seqs_ok n [] = True"
| "lz4_seqs_ok n (s # ss) =
     (0 < ls_offset s \<and> ls_offset s < 65536 \<and> ls_offset s \<le> n + length (ls_lits s) \<and> 4 \<le> ls_match s
      \<and> lz4_seqs_ok (n + length (ls_lits s) + ls_match s) ss)"

section \<open>Copies\<close>

lemma lz4_copy_bytes_take:
  "di + n \<le> length d \<Longrightarrow> si + n \<le> length s \<Longrightarrow>
   lz4_copy_bytes d di s si n = Some (take di d @ take n (drop si s) @ drop (di + n) d)"
proof (induction d di s si n rule: lz4_copy_bytes.induct)
  case (2 d di s si n)
  then have "lz4_copy_bytes (d[di := s ! si]) (Suc di) s (Suc si) n
    = Some (take (Suc di) (d[di := s ! si]) @ take n (drop (Suc si) s) @ drop (Suc di + n) (d[di := s ! si]))"
    by simp
  then show ?case using 2 by (simp add: take_Suc_update Cons_nth_drop_Suc [of si s, symmetric])
qed simp

lemma lz4_copy_within_repeat:
  assumes "length out + n \<le> length d" "take (length out) d = out" "0 < off" "off \<le> length out"
  shows "\<exists>d'. lz4_copy_within d (length out) (length out - off) n = Some d' \<and> length d' = length d
    \<and> take (length out + n) d' = lz4_repeat out off n"
  using assms
proof (induction n arbitrary: out d)
  case 0
  then show ?case by simp
next
  case (Suc n)
  let ?k = "length out" and ?v = "out ! (length out - off)"
  have "take ?k d ! (?k - off) = d ! (?k - off)" using Suc.prems(3,4) by (intro nth_take) simp
  then have v: "d ! (?k - off) = ?v" by (simp only: Suc.prems(2))
  have t: "take (length (out @ [?v])) (d[?k := ?v]) = out @ [?v]"
    using Suc.prems by (simp add: take_Suc_update)
  have "\<exists>d'. lz4_copy_within (d[?k := ?v]) (length (out @ [?v])) (length (out @ [?v]) - off) n = Some d'
    \<and> length d' = length (d[?k := ?v]) \<and> take (length (out @ [?v]) + n) d' = lz4_repeat (out @ [?v]) off n"
    by (rule Suc.IH [OF _ t]) (use Suc.prems in auto)
  then show ?case using Suc.prems v by (auto simp: Suc_diff_le)
qed

lemma length_lz4_repeat: "length (lz4_repeat out off n) = length out + n"
  by (induction out off n rule: lz4_repeat.induct) auto

section \<open>Decoding a stream\<close>

lemma lz4_ext_length_bytes:
  assumes "r < 255"
  shows "n + 255 * k + r \<le> 2147483647 \<Longrightarrow>
    lz4_ext_length (replicate k 255 @ of_nat r # rest) ip n = LenOk (ip + k + 1) (n + 255 * k + r)"
proof (induction k arbitrary: ip n)
  case 0
  have "of_nat r \<noteq> (255 :: 8 word)"
  proof
    assume "of_nat r = (255 :: 8 word)"
    then have "unat (of_nat r :: 8 word) = 255" by simp
    then show False using assms by (simp add: unat_of_nat)
  qed
  moreover have "unat (of_nat r :: 8 word) = r" using assms by (simp add: unat_of_nat)
  ultimately show ?case using 0 by simp
next
  case (Suc k)
  then show ?case by simp
qed

lemma lz4_length_bytes:
  assumes "drop ip (take iend src) = lz4_len_bytes n @ rest" "n \<le> 2147483647"
  shows "lz4_length src iend ip (lz4_nibble n) = LenOk (ip + length (lz4_len_bytes n)) n"
proof (cases "n < 15")
  case True
  then show ?thesis by (simp add: lz4_length_def lz4_nibble_def lz4_len_bytes_def)
next
  case False
  let ?k = "(n - 15) div 255" and ?r = "(n - 15) mod 255"
  have e: "15 + 255 * ?k + ?r = n" using False by simp
  have "lz4_ext_length (replicate ?k 255 @ of_nat ?r # rest) ip 15 = LenOk (ip + ?k + 1) (15 + 255 * ?k + ?r)"
    by (rule lz4_ext_length_bytes) (use e assms(2) in simp_all)
  then show ?thesis
    using False assms(1) e by (simp add: lz4_length_def lz4_nibble_def lz4_len_bytes_def)
qed

lemma lz4_token:
  assumes "a \<le> 15" "b \<le> 15"
  shows "unat (of_nat (a * 16 + b) :: 8 word) div 16 = a" "unat (of_nat (a * 16 + b) :: 8 word) mod 16 = b"
proof -
  have "a * 16 + b < 256" using assms by simp
  then have "unat (of_nat (a * 16 + b) :: 8 word) = a * 16 + b"
    by (simp add: unat_of_nat take_bit_eq_mod del: of_nat_add of_nat_mult)
  then show "unat (of_nat (a * 16 + b) :: 8 word) div 16 = a"
    "unat (of_nat (a * 16 + b) :: 8 word) mod 16 = b" using assms by simp_all
qed

lemma lz4_nibble_le: "lz4_nibble n \<le> 15"
  by (simp add: lz4_nibble_def)

lemma lz4_read16_bytes:
  assumes "drop ip src = of_nat (off mod 256) # of_nat (off div 256) # rest" "off < 65536"
  shows "LZ4_read16 src ip = off"
proof -
  have "src ! ip = of_nat (off mod 256)" "src ! Suc ip = of_nat (off div 256)"
    using assms(1) by (metis hd_drop_conv_nth list.sel(1) not_less drop_all list.distinct(1),
      metis drop_Suc tl_drop list.sel nth_via_drop)
  moreover have "off div 256 < 256" using assms(2) by (simp add: less_mult_imp_div_less)
  ultimately show ?thesis
    by (simp add: LZ4_read16_def unat_of_nat take_bit_eq_mod)
qed

text \<open>The decoder between two sequences: \<open>out\<close> has been produced, \<open>rest\<close> is left to read.\<close>

definition lz4_at :: "8 word list \<Rightarrow> nat \<Rightarrow> 8 word list \<Rightarrow> 8 word list \<Rightarrow> 8 word list \<Rightarrow> bool" where
  "lz4_at src ip rest out dst \<longleftrightarrow> drop ip src = rest \<and> length out \<le> length dst \<and> take (length out) dst = out"

lemma lz4_literals_step:
  assumes "lz4_at src ip (lits @ rest) out dst" "length out + length lits \<le> length dst"
  shows "\<exists>dst'. lz4_copy_bytes dst (length out) src ip (length lits) = Some dst' \<and> length dst' = length dst
    \<and> lz4_at src (ip + length lits) rest (out @ lits) dst'"
proof -
  have "length (drop ip src) = length (lits @ rest)" using assms(1) by (simp add: lz4_at_def)
  then have l: "lits = [] \<or> ip + length lits \<le> length src" by (cases lits) auto
  have d: "take (length lits) (drop ip src) = lits" using assms(1) by (simp add: lz4_at_def)
  have r: "drop (ip + length lits) src = rest"
    using assms(1) by (simp add: lz4_at_def) (metis add.commute append_eq_conv_conj drop_drop)
  show ?thesis
  proof (cases "lits = []")
    case True
    then show ?thesis using assms r by (auto simp: lz4_at_def)
  next
    case False
    then have "lz4_copy_bytes dst (length out) src ip (length lits)
        = Some (take (length out) dst @ lits @ drop (length out + length lits) dst)"
      using lz4_copy_bytes_take [OF assms(2), of ip src] l d by simp
    then show ?thesis using assms r by (auto simp: lz4_at_def)
  qed
qed

lemma lz4_at_len_bytes:
  assumes "lz4_at src ip (lz4_len_bytes n @ rest) out dst" "n \<le> 2147483647"
  shows "lz4_length src (length src) ip (lz4_nibble n) = LenOk (ip + length (lz4_len_bytes n)) n"
    "lz4_at src (ip + length (lz4_len_bytes n)) rest out dst"
proof -
  show "lz4_length src (length src) ip (lz4_nibble n) = LenOk (ip + length (lz4_len_bytes n)) n"
    using assms by (intro lz4_length_bytes) (simp_all add: lz4_at_def)
  show "lz4_at src (ip + length (lz4_len_bytes n)) rest out dst"
    using assms by (simp add: lz4_at_def) (metis add.commute append_eq_conv_conj drop_drop)
qed

lemma lz4_at_Cons:
  assumes "lz4_at src ip (b # rest) out dst"
  shows "ip < length src" "src ! ip = b" "lz4_at src (Suc ip) rest out dst"
proof -
  have d: "drop ip src = b # rest" using assms by (simp add: lz4_at_def)
  show ip: "ip < length src" using d by (metis drop_all list.distinct(1) not_less)
  show "src ! ip = b" "lz4_at src (Suc ip) rest out dst"
    using assms d Cons_nth_drop_Suc [OF ip] by (auto simp: lz4_at_def)
qed

lemma lz4_round_seq:
  assumes "lz4_at src ip (lz4_seq_bytes s @ rest) out dst"
    and "0 < ls_offset s" "ls_offset s < 65536" "ls_offset s \<le> length out + length (ls_lits s)" "4 \<le> ls_match s"
    and "length out + length (ls_lits s) + ls_match s \<le> length dst" "length dst \<le> 2147483647"
  shows "\<exists>ip' dst'. lz4_round src (length src) (length dst) ip (length out) dst
      = LNext ip' (length out + length (ls_lits s) + ls_match s) dst' \<and> length dst' = length dst
    \<and> lz4_at src ip' rest (lz4_repeat (out @ ls_lits s) (ls_offset s) (ls_match s)) dst'"
proof -
  let ?l = "length (ls_lits s)" and ?m = "ls_match s - 4" and ?o = "ls_offset s"
  let ?tok = "of_nat (lz4_nibble ?l * 16 + lz4_nibble ?m) :: 8 word"
  have st: "lz4_seq_bytes s @ rest = ?tok # lz4_len_bytes ?l @ ls_lits s
      @ of_nat (?o mod 256) # of_nat (?o div 256) # lz4_len_bytes ?m @ rest"
    by (simp add: lz4_seq_bytes_def Let_def)
  note a0 = lz4_at_Cons [OF assms(1) [unfolded st]]
  have lm: "?l \<le> 2147483647" "?m \<le> 2147483647" using assms(6,7) by simp_all
  note a1 = lz4_at_len_bytes [OF a0(3) lm(1)]
  let ?ip1 = "Suc ip + length (lz4_len_bytes ?l)"
  obtain d1 where d1: "lz4_copy_bytes dst (length out) src ?ip1 ?l = Some d1" "length d1 = length dst"
    "lz4_at src (?ip1 + ?l) (of_nat (?o mod 256) # of_nat (?o div 256) # lz4_len_bytes ?m @ rest) (out @ ls_lits s) d1"
    using lz4_literals_step [OF a1(2)] assms(6) by auto
  note a2 = lz4_at_Cons [OF d1(3)]
  note a3 = lz4_at_Cons [OF a2(3)]
  have off: "LZ4_read16 src (?ip1 + ?l) = ?o"
    using d1(3) assms(3) by (intro lz4_read16_bytes) (auto simp: lz4_at_def)
  note a4 = lz4_at_len_bytes [OF a3(3) lm(2)]
  let ?ip4 = "Suc (Suc (?ip1 + ?l)) + length (lz4_len_bytes ?m)"
  have "\<exists>d2. lz4_copy_within d1 (length (out @ ls_lits s)) (length (out @ ls_lits s) - ?o) (ls_match s) = Some d2
    \<and> length d2 = length d1
    \<and> take (length (out @ ls_lits s) + ls_match s) d2 = lz4_repeat (out @ ls_lits s) ?o (ls_match s)"
    by (rule lz4_copy_within_repeat) (use assms d1 in \<open>auto simp: lz4_at_def\<close>)
  then obtain d2 where d2: "lz4_copy_within d1 (length out + ?l) (length out + ?l - ?o) (ls_match s) = Some d2"
    "length d2 = length dst" "take (length out + ?l + ls_match s) d2 = lz4_repeat (out @ ls_lits s) ?o (ls_match s)"
    using d1(2) by auto
  have at: "lz4_at src ?ip4 rest (lz4_repeat (out @ ls_lits s) ?o (ls_match s)) d2"
    using a4(2) d2 assms(6) by (simp add: lz4_at_def length_lz4_repeat)
  have "lz4_round src (length src) (length dst) ip (length out) dst
      = LNext ?ip4 (length out + ?l + ls_match s) d2"
    unfolding lz4_round_def using a0(1,2) a1(1) d1(1) a2(1) a3(1) off a4(1) d2(1) assms(2-7)
      lz4_token [OF lz4_nibble_le lz4_nibble_le, of ?l ?m]
    by (simp add: Let_def del: of_nat_add of_nat_mult)
  then show ?thesis using d2(2) at by blast
qed

lemma lz4_round_last:
  assumes "lz4_at src ip (lz4_last_bytes lst) out dst" "length out + length lst \<le> length dst" "length dst \<le> 2147483647"
  shows "\<exists>dst'. lz4_round src (length src) (length dst) ip (length out) dst
      = LDone (LReturn (int (length out + length lst)) dst') \<and> length dst' = length dst
    \<and> take (length out + length lst) dst' = out @ lst"
proof -
  let ?l = "length lst"
  have st: "lz4_last_bytes lst = of_nat (lz4_nibble ?l * 16 + 0) # lz4_len_bytes ?l @ lst @ []"
    by (simp add: lz4_last_bytes_def)
  note a0 = lz4_at_Cons [OF assms(1) [unfolded st]]
  have "?l \<le> 2147483647" using assms(2,3) by simp
  note a1 = lz4_at_len_bytes [OF a0(3) this]
  let ?ip1 = "Suc ip + length (lz4_len_bytes ?l)"
  obtain d1 where d1: "lz4_copy_bytes dst (length out) src ?ip1 ?l = Some d1" "length d1 = length dst"
    "lz4_at src (?ip1 + ?l) [] (out @ lst) d1"
    using lz4_literals_step [OF a1(2)] assms(2) by auto
  have "?ip1 + ?l \<ge> length src" using d1(3) by (auto simp: lz4_at_def)
  then have "lz4_round src (length src) (length dst) ip (length out) dst
      = LDone (LReturn (int (length out + ?l)) d1)"
    unfolding lz4_round_def using a0(1,2) a1(1) d1(1) assms(2)
      lz4_token(1) [OF lz4_nibble_le [of ?l], of 0]
    by (simp add: Let_def del: of_nat_add of_nat_mult)
  then show ?thesis using d1(2,3) by (auto simp: lz4_at_def)
qed

lemma lz4_expand_length:
  "length (lz4_expand ss lst out) = length out + sum_list (map (\<lambda>s. length (ls_lits s) + ls_match s) ss) + length lst"
  by (induction ss lst out rule: lz4_expand.induct) (auto simp: length_lz4_repeat)

lemma lz4_loop_stream:
  assumes "lz4_at src ip (lz4_stream ss lst) out dst" "lz4_seqs_ok (length out) ss"
    and "length (lz4_expand ss lst out) \<le> length dst" "length dst \<le> 2147483647"
  shows "\<exists>dst'. lz4_loop src (length src) (length dst) ip (length out) dst
      = LReturn (int (length (lz4_expand ss lst out))) dst'
    \<and> length dst' = length dst \<and> take (length (lz4_expand ss lst out)) dst' = lz4_expand ss lst out"
  using assms
proof (induction ss arbitrary: ip out dst)
  case Nil
  have "\<exists>dst'. lz4_round src (length src) (length dst) ip (length out) dst
      = LDone (LReturn (int (length out + length lst)) dst') \<and> length dst' = length dst
    \<and> take (length out + length lst) dst' = out @ lst"
    by (rule lz4_round_last) (use Nil.prems in \<open>auto simp: lz4_stream_def\<close>)
  then show ?case by (subst lz4_loop.simps) auto
next
  case (Cons s ss)
  let ?out = "lz4_repeat (out @ ls_lits s) (ls_offset s) (ls_match s)"
  have lo: "length ?out = length out + length (ls_lits s) + ls_match s" by (simp add: length_lz4_repeat)
  have fit: "length ?out \<le> length dst" using Cons.prems(3) by (simp add: lz4_expand_length lo)
  have at: "lz4_at src ip (lz4_seq_bytes s @ lz4_stream ss lst) out dst"
    using Cons.prems(1) by (simp add: lz4_stream_def)
  obtain ip' dst' where r: "lz4_round src (length src) (length dst) ip (length out) dst
      = LNext ip' (length ?out) dst'" "length dst' = length dst"
    "lz4_at src ip' (lz4_stream ss lst) ?out dst'"
    using lz4_round_seq [OF at] Cons.prems(2,4) fit lo by auto
  have "\<exists>d. lz4_loop src (length src) (length dst') ip' (length ?out) dst'
      = LReturn (int (length (lz4_expand ss lst ?out))) d
    \<and> length d = length dst' \<and> take (length (lz4_expand ss lst ?out)) d = lz4_expand ss lst ?out"
    by (rule Cons.IH [OF r(3)]) (use Cons.prems r(2) lo in \<open>auto simp: add.commute\<close>)
  then show ?case
    using r(1,2) by (subst lz4_loop.simps) simp
qed

section \<open>Properties\<close>

text \<open>
  C21 (lz4_decodes_stream). The decoder applied to the byte encoding of any admissible list of
  sequences returns the length of the data the sequences stand for and leaves exactly these data
  at the start of the destination, whether or not matches overlap, provided that the data fit into the destination and
  the sizes of source and destination are values of \<^verbatim>\<open>int\<close>. No length overflows then.
\<close>

theorem lz4_decodes_stream:
  assumes "lz4_seqs_ok 0 ss" "src = lz4_stream ss lst"
    and "length (lz4_expand ss lst []) \<le> length dst" "dst \<noteq> []" "int (length src) \<le> INT_MAX" "int (length dst) \<le> INT_MAX"
  shows "\<exists>dst'. lz4_decompress src dst (int (length src)) (int (length dst))
      = LReturn (int (length (lz4_expand ss lst []))) dst'
    \<and> length dst' = length dst \<and> take (length (lz4_expand ss lst [])) dst' = lz4_expand ss lst []"
proof -
  have "src \<noteq> []" using assms(2) by (simp add: lz4_stream_def lz4_last_bytes_def)
  moreover have "lz4_at src 0 (lz4_stream ss lst) [] dst" using assms(2) by (simp add: lz4_at_def)
  from lz4_loop_stream [OF this _ assms(3)] assms(1,6)
  have "\<exists>dst'. lz4_loop src (length src) (length dst) 0 0 dst
      = LReturn (int (length (lz4_expand ss lst []))) dst'
    \<and> length dst' = length dst \<and> take (length (lz4_expand ss lst [])) dst' = lz4_expand ss lst []"
    by (simp add: INT_MAX_def)
  ultimately show ?thesis using assms(4) by (simp add: lz4_decompress_def)
qed

theorem lz4_decodes_stream_witness:
  "\<exists>dst'. lz4_decompress (lz4_stream [\<lparr>ls_lits = [1, 2], ls_offset = 2, ls_match = 6\<rparr>] [9])
      (replicate 16 0) 7 16 = LReturn 9 dst' \<and> take 9 dst' = [1, 2, 1, 2, 1, 2, 1, 2, 9]"
proof -
  let ?ss = "[\<lparr>ls_lits = [1, 2], ls_offset = 2, ls_match = 6\<rparr>] :: lz4_seq list"
  have e: "lz4_expand ?ss [9] [] = [1, 2, 1, 2, 1, 2, 1, 2, 9]" by (simp add: numeral_eq_Suc)
  have l: "int (length (lz4_stream ?ss [9])) = 7"
    by (simp add: lz4_stream_def lz4_seq_bytes_def lz4_last_bytes_def lz4_len_bytes_def)
  have n: "length [1, 2, 1, 2, 1, 2, 1, 2, 9 :: 8 word] = 9" "length (replicate 16 (0 :: 8 word)) = 16"
    by simp_all
  have "lz4_seqs_ok 0 ?ss" "replicate 16 (0 :: 8 word) \<noteq> []" by simp_all
  moreover have "(7 :: int) \<le> INT_MAX" "int 16 \<le> INT_MAX" by (simp_all add: INT_MAX_def)
  ultimately have "\<exists>dst'. lz4_decompress (lz4_stream ?ss [9]) (replicate 16 0) 7 (int 16) = LReturn (int 9) dst'
      \<and> length dst' = 16 \<and> take 9 dst' = [1, 2, 1, 2, 1, 2, 1, 2, 9]"
    by (intro lz4_decodes_stream [of ?ss _ "[9]" "replicate 16 0", OF _ refl, unfolded e l n]) simp_all
  then show ?thesis by auto
qed

text \<open>
  The literal copy checks the destination but not the source: a
  two-byte block that announces fourteen literals reads behind the end of its input.
\<close>

theorem lz4_literal_overread:
  "lz4_decompress [0xE0, 65] (replicate 32 0) 2 32 = LOutside"
  by code_simp

end
