(* ===== verification/Payload.thy ===== *)
theory Payload
  imports Watchdog ZX0Opt LZ4
begin

text \<open>
  The rescue GUI's way into the watchdog: \<^verbatim>\<open>src/bin_packer.c\<close> compresses the executable and writes it
  as a C header, \<open>prepare_gui_memfd\<close> of \<^verbatim>\<open>src/cad_watchdog.c\<close> unpacks it at start into a sealed
  memory file, or into a temporary file when there is no \<^verbatim>\<open>memfd_create\<close>. LZ4's compressor is
  third-party code and a parameter of the packer.

  What the system calls return is the record \<open>gui_env\<close>; the result \<open>gui_image\<close> is the returned
  descriptor with everything the function leaves behind: the bytes in the file, whether it is
  sealed, the fallback path and the paths it removed.
\<close>

section \<open>Definitions\<close>

subsection \<open>Unpacking\<close>

datatype write_result = WBytes nat | WEintr | WError

record gui_env =
  ge_memfd :: int
  ge_pid :: int
  ge_open :: "string \<Rightarrow> int"
  ge_malloc :: bool
  ge_writes :: "write_result list"
  ge_seal :: bool

record gui_image =
  gi_fd :: int
  gi_content :: "8 word list"
  gi_sealed :: bool
  gi_fallback :: string
  gi_unlinked :: "string list"

text \<open>
  \<^verbatim>\<open>while (written < dec_sz)\<close>: the bytes that reach the file, \<open>None\<close> on a write error. A list of
  outcomes that ends early stands for a write that never returns.
\<close>

fun write_all :: "write_result list \<Rightarrow> 8 word list \<Rightarrow> nat \<Rightarrow> 8 word list option" where
  "write_all rs buf written_n =
     (if written_n < length buf
      then (case rs of
              [] \<Rightarrow> None
            | WBytes n # rest \<Rightarrow>
                map_option (\<lambda>out. take n (drop written_n buf) @ out)
                  (write_all rest buf (written_n + min n (length buf - written_n)))
            | WEintr # rest \<Rightarrow> write_all rest buf written_n
            | WError # rest \<Rightarrow> None)
      else Some [])"

declare write_all.simps [simp del]

text \<open>The decompressor chosen at build time; \<open>None\<close> when it read outside its buffers or a length overflowed.\<close>

definition decode_payload :: "bool \<Rightarrow> 8 word list \<Rightarrow> nat \<Rightarrow> (int \<times> 8 word list) option" where
  "decode_payload use_zx0 payload size_n =
     (if use_zx0
      then (case zx0_decompress_to (Some payload) (int (length payload)) (Some (replicate size_n 0)) (int size_n) of
              ZReturn n out \<Rightarrow> Some (n, out) | ZOverread \<Rightarrow> None | ZOverwrite \<Rightarrow> None)
      else (case lz4_decompress payload (replicate size_n 0) (int (length payload)) (int size_n) of
              LReturn n out \<Rightarrow> Some (n, out) | LOutside \<Rightarrow> None | LOverflow \<Rightarrow> None))"

definition gui_failed :: "string \<Rightarrow> gui_image" where
  "gui_failed fb = \<lparr>gi_fd = -1, gi_content = [], gi_sealed = False, gi_fallback = fb,
     gi_unlinked = (if fb \<noteq> [] then [fb] else [])\<rparr>"

text \<open>Lines 663 to 680: the descriptor, whether it is a memory file, and \<^verbatim>\<open>fallback_path\<close>.\<close>

definition open_gui_file :: "gui_env \<Rightarrow> int \<times> bool \<times> string" where
  "open_gui_file e =
     (if ge_memfd e \<ge> 0 then (ge_memfd e, True, [])
      else (let p1 = str_fit 256 (''/dev/shm/lnxcad_rescue_gui.'' @ dec_string (ge_pid e));
                p2 = str_fit 256 (''/tmp/lnxcad_rescue_gui.'' @ dec_string (ge_pid e))
            in if ge_open e p1 \<ge> 0 then (ge_open e p1, False, p1) else (ge_open e p2, False, p2)))"

definition prepare_gui_memfd :: "bool \<Rightarrow> 8 word list \<Rightarrow> nat \<Rightarrow> gui_env \<Rightarrow> gui_image option" where
  "prepare_gui_memfd use_zx0 payload size_n e =
     (case open_gui_file e of
        (fd, is_memfd, fb) \<Rightarrow>
          if fd < 0 then Some ((gui_failed fb)\<lparr>gi_unlinked := []\<rparr>)
          else if \<not> ge_malloc e then Some (gui_failed fb)
          else (case decode_payload use_zx0 payload size_n of
                  None \<Rightarrow> None
                | Some (dec_sz, dec_buf) \<Rightarrow>
                    if dec_sz \<noteq> int size_n then Some (gui_failed fb)
                    else (case write_all (ge_writes e) (take (nat dec_sz) dec_buf) 0 of
                            None \<Rightarrow> Some (gui_failed fb)
                          | Some out \<Rightarrow>
                              if is_memfd
                              then (if ge_seal e
                                    then Some \<lparr>gi_fd = fd, gi_content = out, gi_sealed = True,
                                               gi_fallback = fb, gi_unlinked = []\<rparr>
                                    else Some ((gui_failed fb)\<lparr>gi_unlinked := []\<rparr>))
                              else Some \<lparr>gi_fd = fd, gi_content = out, gi_sealed = False,
                                         gi_fallback = fb, gi_unlinked = []\<rparr>)))"

subsection \<open>Packing\<close>

definition MAX_OFFSET_ZX0 :: nat where
  "MAX_OFFSET_ZX0 = 32640"

text \<open>\<open>mal\<close> says whether the copy of the input can be allocated; \<open>junk\<close> is the uninitialised table of the search.\<close>

definition zx0_compress_c ::
  "bool \<Rightarrow> (nat \<Rightarrow> nat) \<Rightarrow> 8 word list option \<Rightarrow> (8 word list) option" where
  "zx0_compress_c mal junk inp =
     (case inp of
        None \<Rightarrow> None
      | Some data \<Rightarrow>
          if data = [] \<or> \<not> mal then None
          else (case zx0_compress (zx0_optimize junk data 0 MAX_OFFSET_ZX0) data (length data) 0 False True of
                  (compressed, out_size_i, delta) \<Rightarrow>
                    if out_size_i \<le> 0 then None else Some (take (nat out_size_i) compressed)))"

definition lz4_compress_c ::
  "bool \<Rightarrow> (nat \<Rightarrow> int) \<Rightarrow> (8 word list \<Rightarrow> int \<Rightarrow> 8 word list option) \<Rightarrow> 8 word list option \<Rightarrow> (8 word list) option" where
  "lz4_compress_c mal compress_bound compress_hc inp =
     (case inp of
        None \<Rightarrow> None
      | Some data \<Rightarrow>
          if data = [] then None
          else if compress_bound (length data) \<le> 0 \<or> \<not> mal then None
          else (case compress_hc data (compress_bound (length data)) of
                  Some out \<Rightarrow> if out = [] then None else Some out
                | None \<Rightarrow> None))"

text \<open>The generated header: the two sizes and the bytes of the array.\<close>

record payload_header =
  ph_decompressed_size :: nat
  ph_compressed_size :: nat
  ph_data :: string

definition hex_digit :: "nat \<Rightarrow> char" where
  "hex_digit d = char_of (if d < 10 then 48 + d else 87 + d)"

fun print_bytes :: "8 word list \<Rightarrow> nat \<Rightarrow> nat \<Rightarrow> string" where
  "print_bytes [] i n = []"
| "print_bytes (b # bs) i n =
     ''0x'' @ [hex_digit (unat b div 16), hex_digit (unat b mod 16)]
     @ (if i < n - 1 then '', '' else [])
     @ (if (i + 1) mod 12 = 0 then [LF] else [])
     @ print_bytes bs (Suc i) n"

text \<open>Whether the input buffer can be allocated and filled and the header be opened.\<close>

record packer_env =
  pk_malloc :: bool
  pk_fread :: bool
  pk_out :: bool

definition packer_main ::
  "packer_env \<Rightarrow> (8 word list option \<Rightarrow> (8 word list) option) \<Rightarrow> (8 word list option \<Rightarrow> (8 word list) option)
   \<Rightarrow> string list \<Rightarrow> (string \<Rightarrow> 8 word list option) \<Rightarrow> (int \<times> (string \<times> payload_header) option)" where
  "packer_main pe zx0_c lz4_c argv files =
     (if length argv < 4 then (1, None)
      else
        let mode = argv ! 1; source_path = argv ! 2; output_path = argv ! 3 in
        if mode \<noteq> ''zx0'' \<and> mode \<noteq> ''lz4'' then (1, None)
        else case files source_path of
          None \<Rightarrow> (1, None)
        | Some in_buf \<Rightarrow>
            if in_buf = [] \<or> \<not> pk_malloc pe \<or> \<not> pk_fread pe then (1, None)
            else case (if mode = ''zx0'' then zx0_c (Some in_buf) else lz4_c (Some in_buf)) of
              None \<Rightarrow> (1, None)
            | Some out_buf \<Rightarrow>
                if out_buf = [] \<or> \<not> pk_out pe then (1, None)
                else (0, Some (output_path,
                       \<lparr>ph_decompressed_size = length in_buf, ph_compressed_size = length out_buf,
                        ph_data = print_bytes out_buf 0 (length out_buf)\<rparr>)))"

text \<open>How a C compiler reads the initialiser: hexadecimal constants between separators.\<close>

definition hex_val :: "char \<Rightarrow> nat option" where
  "hex_val c = (let n = (of_char c :: nat) in
     if 48 \<le> n \<and> n \<le> 57 then Some (n - 48) else if 97 \<le> n \<and> n \<le> 102 then Some (n - 87) else None)"

fun parse_bytes :: "string \<Rightarrow> 8 word list option" where
  "parse_bytes [] = Some []"
| "parse_bytes (c # cs) =
     (if c = CHR '','' \<or> c = CHR '' '' \<or> c = LF then parse_bytes cs
      else case c # cs of
        z # x # h # l # rest \<Rightarrow>
          if z = CHR ''0'' \<and> x = CHR ''x''
          then (case (hex_val h, hex_val l) of
                  (Some a, Some b) \<Rightarrow> map_option (\<lambda>bs. of_nat (a * 16 + b) # bs) (parse_bytes rest)
                | _ \<Rightarrow> None)
          else None
      | _ \<Rightarrow> None)"

section \<open>Lemmas\<close>

lemma hex_val_digit: "d < 16 \<Longrightarrow> hex_val (hex_digit d) = Some d"
  by (auto simp: hex_val_def hex_digit_def of_char_of Let_def)

lemma parse_print: "parse_bytes (print_bytes bs i n) = Some bs"
proof (induction bs i n rule: print_bytes.induct)
  case (1 i n)
  then show ?case by simp
next
  case (2 b bs i n)
  have "unat b < 2 ^ LENGTH(8)" by (rule unsigned_less)
  then have "unat b div 16 < 16" by simp
  moreover have "(of_nat (unat b div 16 * 16 + unat b mod 16) :: 8 word) = b" by simp
  ultimately show ?case using 2 by (simp add: hex_val_digit del: of_nat_add of_nat_mult)
qed

lemma write_all_complete: "write_all rs buf k = Some out \<Longrightarrow> k \<le> length buf \<Longrightarrow> out = drop k buf"
proof (induction rs buf k arbitrary: out rule: write_all.induct)
  case (1 rs buf k)
  show ?case
  proof (cases "k < length buf")
    case False
    then show ?thesis using "1.prems" by (simp add: write_all.simps [of rs])
  next
    case True
    then obtain r rest where rs: "rs = r # rest"
      using "1.prems"(1) by (cases rs) (auto simp: write_all.simps [of "[]" buf k])
    show ?thesis
    proof (cases r)
      case (WBytes n)
      let ?k = "k + min n (length buf - k)"
      obtain o' where o': "write_all rest buf ?k = Some o'" "out = take n (drop k buf) @ o'"
        using "1.prems"(1) True rs WBytes by (auto simp: write_all.simps [of _ buf k])
      have "o' = drop ?k buf" using "1.IH"(1) [OF True rs WBytes o'(1)] True by simp
      also have "\<dots> = drop n (drop k buf)"
        using True by (cases "n \<le> length buf - k") (auto simp: add.commute)
      finally show ?thesis using o'(2) append_take_drop_id [of n "drop k buf"] by (simp only:)
    qed (use "1.prems" "1.IH"(2) True rs in \<open>auto simp: write_all.simps [of _ buf k]\<close>)
  qed
qed

text \<open>A list of write outcomes that makes progress: no error, and enough bytes in all.\<close>

fun writes_cover :: "write_result list \<Rightarrow> nat \<Rightarrow> bool" where
  "writes_cover rs n =
     (n = 0 \<or> (case rs of
        [] \<Rightarrow> False | WBytes k # rest \<Rightarrow> writes_cover rest (n - k)
      | WEintr # rest \<Rightarrow> writes_cover rest n | WError # rest \<Rightarrow> False))"

declare writes_cover.simps [simp del]

lemma write_all_total:
  "writes_cover rs (length buf - k) \<Longrightarrow> k \<le> length buf \<Longrightarrow> write_all rs buf k = Some (drop k buf)"
proof (induction rs buf k rule: write_all.induct)
  case (1 rs buf k)
  have "\<exists>out. write_all rs buf k = Some out"
  proof (cases "k < length buf")
    case False
    then show ?thesis by (simp add: write_all.simps [of rs])
  next
    case True
    then obtain r rest where rs: "rs = r # rest"
      using "1.prems"(1) by (cases rs) (auto simp: writes_cover.simps [of "[]"])
    show ?thesis
    proof (cases r)
      case (WBytes n)
      have "length buf - (k + min n (length buf - k)) = length buf - k - n" by simp
      then have "writes_cover rest (length buf - (k + min n (length buf - k)))"
        using "1.prems"(1) True rs WBytes writes_cover.simps [of "WBytes n # rest" "length buf - k"] by simp
      then show ?thesis
        using "1.IH"(1) [OF True rs WBytes] True rs WBytes by (simp add: write_all.simps [of _ buf k])
    qed (use "1.prems" "1.IH"(2) True rs in \<open>auto simp: write_all.simps [of _ buf k] writes_cover.simps [of "_ # _"]\<close>)
  qed
  then show ?case using write_all_complete "1.prems"(2) by blast
qed

lemma zx0_compress_c_restored:
  assumes "img \<noteq> []" "length img < 2 ^ 27"
  shows "\<exists>payload. zx0_compress_c True junk (Some img) = Some payload \<and> payload \<noteq> []
    \<and> decode_payload True payload (length img) = Some (int (length img), img)"
proof -
  let ?n = "length img" and ?c = "zx0_optimize junk img 0 MAX_OFFSET_ZX0"
  have l: "(1::nat) \<le> MAX_OFFSET_ZX0" "MAX_OFFSET_ZX0 \<le> 32640" by (simp_all add: MAX_OFFSET_ZX0_def)
  note v = gchain_valid [OF zx0_optimize_gchain [OF assms(1) l] assms(1), of junk]
  obtain out osz delta where c: "zx0_compress ?c img ?n 0 False True = (out, osz, delta)"
    by (cases "zx0_compress ?c img ?n 0 False True") auto
  have o: "int (length out) = osz" by (rule zx0_size_of_chain [OF v c])
  have b: "int (length (replicate ?n (0 :: 8 word))) \<le> INT_MAX" "?n < 2 ^ 30"
    using assms(2) by (simp_all add: INT_MAX_def)
  obtain ob' where r: "zx0_decompress_to (Some out) (int (length out)) (Some (replicate ?n 0)) (int ?n)
      = ZReturn (int ?n) ob'" "length ob' = ?n" "take ?n ob' = img"
    using zx0_chain_restored [OF v(1) b(2) c _ b(1)] by auto
  have "out \<noteq> []" using r(1) by (auto simp: zx0_decompress_to_def)
  then have "zx0_compress_c True junk (Some img) = Some out"
    using assms(1) c o by (auto simp: zx0_compress_c_def)
  moreover have "decode_payload True out ?n = Some (int ?n, img)" using r by (simp add: decode_payload_def)
  ultimately show ?thesis using \<open>out \<noteq> []\<close> by blast
qed

section \<open>Properties\<close>

text \<open>
  When the packer succeeds, its header states the true sizes and its
  array initialiser denotes, byte for byte, the compressed data.
\<close>

theorem packer_header_exact:
  assumes "packer_main pe zx0_c lz4_c argv files = (0, Some (path, h))"
  shows "\<exists>in_buf out_buf. files (argv ! 2) = Some in_buf \<and> path = argv ! 3
    \<and> (if argv ! 1 = ''zx0'' then zx0_c else lz4_c) (Some in_buf) = Some out_buf
    \<and> ph_decompressed_size h = length in_buf \<and> ph_compressed_size h = length out_buf
    \<and> parse_bytes (ph_data h) = Some out_buf"
  using assms
  by (auto simp: packer_main_def Let_def parse_print split: if_splits option.splits)

theorem packer_header_exact_witness:
  "packer_main \<lparr>pk_malloc = True, pk_fread = True, pk_out = True\<rparr> (\<lambda>_. None) (\<lambda>d. d) [''bin_packer'', ''lz4'', ''gui'', ''gui.h''] (\<lambda>_. Some [7, 255])
     = (0, Some (''gui.h'', \<lparr>ph_decompressed_size = 2, ph_compressed_size = 2, ph_data = ''0x07, 0xff''\<rparr>))
   \<and> parse_bytes ''0x07, 0xff'' = Some [7, 255]"
  (is "?p \<and> _")
proof -
  have p: ?p by code_simp
  from packer_header_exact [OF p] show ?thesis using p by auto
qed

text \<open>
  C23 (gui_image_all_or_nothing). A descriptor is returned only when the decompressor produced the
  announced number of bytes and all of them were written; a memory file is sealed by then. On any
  failure after the file was created the result is -1 and a temporary file has been removed.
\<close>

theorem gui_image_all_or_nothing:
  assumes "prepare_gui_memfd z payload n e = Some gi"
  shows "(0 \<le> gi_fd gi \<longrightarrow>
      (\<exists>buf. decode_payload z payload n = Some (int n, buf) \<and> gi_content gi = take n buf)
      \<and> (0 \<le> ge_memfd e \<longrightarrow> gi_sealed gi \<and> gi_fallback gi = []))
    \<and> (gi_fd gi < 0 \<longrightarrow> gi_fd gi = -1
      \<and> (0 \<le> fst (open_gui_file e) \<longrightarrow> set (gi_unlinked gi) = set (cleanup_on_exit (gi_fallback gi))))"
proof -
  obtain fd m fb where o: "open_gui_file e = (fd, m, fb)" by (cases "open_gui_file e") auto
  have m: "0 \<le> ge_memfd e \<Longrightarrow> m \<and> fb = []" "m \<Longrightarrow> fb = []"
    using o by (auto simp: open_gui_file_def Let_def split: if_splits)
  show ?thesis
    using assms o m
    by (auto simp: prepare_gui_memfd_def gui_failed_def cleanup_on_exit_def split: if_splits option.splits
        dest!: write_all_complete)
qed

theorem gui_image_all_or_nothing_witness:
  "\<exists>gi. prepare_gui_memfd False (lz4_stream [] [1, 2, 3]) 3
      \<lparr>ge_memfd = -1, ge_pid = 42, ge_open = (\<lambda>_. 6), ge_malloc = True,
       ge_writes = [WBytes 2, WError], ge_seal = True\<rparr> = Some gi
    \<and> gi_unlinked gi = [''/dev/shm/lnxcad_rescue_gui.42'']"
proof -
  let ?e = "\<lparr>ge_memfd = -1, ge_pid = 42, ge_open = (\<lambda>_. 6), ge_malloc = True,
       ge_writes = [WBytes 2, WError], ge_seal = True\<rparr>"
  let ?g = "gui_failed ''/dev/shm/lnxcad_rescue_gui.42''"
  have p: "prepare_gui_memfd False (lz4_stream [] [1, 2, 3]) 3 ?e = Some ?g" by code_simp
  from gui_image_all_or_nothing [OF p] show ?thesis
    using p by (auto simp: gui_failed_def cleanup_on_exit_def)
qed

text \<open>
  C2 (packed_image_restored). The image that the watchdog executes is the image that was packed:
  with the ZX0 build, for every executable below 128 MiB the packer succeeds when it gets its memory and can read and write its files,
  and when the system calls of the watchdog succeed the sealed memory file it makes from the generated header holds exactly the
  bytes of the executable. The search, the encoder, the header and the decoder are the code's own.
\<close>

theorem packed_image_restored:
  assumes "files src = Some img" "img \<noteq> []" "length img < 2 ^ 27" "pk_malloc pe" "pk_fread pe" "pk_out pe"
    and "0 \<le> ge_memfd e" "ge_malloc e" "ge_seal e" "writes_cover (ge_writes e) (length img)"
  shows "\<exists>h payload. packer_main pe (zx0_compress_c True junk) lz4_c [prog, ''zx0'', src, dst] files = (0, Some (dst, h))
    \<and> parse_bytes (ph_data h) = Some payload
    \<and> prepare_gui_memfd True payload (ph_decompressed_size h) e =
      Some \<lparr>gi_fd = ge_memfd e, gi_content = img, gi_sealed = True, gi_fallback = [], gi_unlinked = []\<rparr>"
proof -
  obtain payload where p: "zx0_compress_c True junk (Some img) = Some payload" "payload \<noteq> []"
    and d: "decode_payload True payload (length img) = Some (int (length img), img)"
    using zx0_compress_c_restored [OF assms(2,3)] by blast
  have "write_all (ge_writes e) img 0 = Some img"
    using write_all_total [of "ge_writes e" img 0] assms(10) by simp
  then have "prepare_gui_memfd True payload (length img) e =
      Some \<lparr>gi_fd = ge_memfd e, gi_content = img, gi_sealed = True, gi_fallback = [], gi_unlinked = []\<rparr>"
    using assms(7-9) d by (simp add: prepare_gui_memfd_def open_gui_file_def)
  then show ?thesis using p assms(1,2,4-6) by (simp add: packer_main_def parse_print)
qed

theorem packed_image_restored_witness:
  "\<exists>h payload. packer_main \<lparr>pk_malloc = True, pk_fread = True, pk_out = True\<rparr> (zx0_compress_c True (\<lambda>_. 5)) (\<lambda>_. None) [''bin_packer'', ''zx0'', ''gui'', ''gui.h'']
        (\<lambda>_. Some [97, 98, 97, 98, 97]) = (0, Some (''gui.h'', h))
    \<and> parse_bytes (ph_data h) = Some payload
    \<and> prepare_gui_memfd True payload (ph_decompressed_size h)
        \<lparr>ge_memfd = 3, ge_pid = 1, ge_open = (\<lambda>_. -1), ge_malloc = True,
         ge_writes = [WBytes 2, WEintr, WBytes 9], ge_seal = True\<rparr>
      = Some \<lparr>gi_fd = 3, gi_content = [97, 98, 97, 98, 97], gi_sealed = True, gi_fallback = [], gi_unlinked = []\<rparr>"
proof -
  let ?i = "[97, 98, 97, 98, 97 :: 8 word]"
  let ?e = "\<lparr>ge_memfd = 3, ge_pid = 1, ge_open = (\<lambda>_. -1), ge_malloc = True,
         ge_writes = [WBytes 2, WEintr, WBytes 9], ge_seal = True\<rparr>"
  have w: "writes_cover (ge_writes ?e) (length ?i)" by (simp add: writes_cover.simps)
  from packed_image_restored [where files = "\<lambda>_. Some ?i" and src = "''gui''" and img = ?i and pe = "\<lparr>pk_malloc = True, pk_fread = True, pk_out = True\<rparr>", OF _ _ _ _ _ _ _ _ _ w]
  show ?thesis by simp
qed

end
