(* ===== verification/ZX0Mem.thy ===== *)
theory ZX0Mem
  imports ZX0
begin

text \<open>
  The blocks in memory (\<^verbatim>\<open>src/compressors/zx0/memory.c\<close>): \<open>zx0_allocate\<close> takes a block from the list of
  ghosts, whose references have all gone, or from an array of 100000 blocks; \<open>zx0_assign\<close> makes a
  variable refer to a block and counts the references. The heap is a function of the address, an
  address the number of the array and the position in it. The variables that hold references
  (\<open>optimal[index]\<close>, \<open>last_literal\<close> and \<open>last_match\<close> of an offset) are numbered.

  The locale \<open>block_store\<close> states what the search relies on: a variable holds the chain that was
  assigned to it, whatever is allocated later. The interpretation shows that recycling respects
  this, which is why the search can be modelled on values.
\<close>

section \<open>Definitions\<close>

record cell =
  ce_block :: BLOCK
  ce_chain :: "nat option"
  ce_references :: int
  ce_ghost_chain :: "nat option"

record block_mem =
  bm_heap :: "nat \<Rightarrow> cell"
  bm_ghost_root :: "nat option"
  bm_arrays :: nat
  bm_dead_array_size :: nat

definition QTY_BLOCKS :: nat where
  "QTY_BLOCKS = 100000"

definition set_cell :: "nat \<Rightarrow> (cell \<Rightarrow> cell) \<Rightarrow> block_mem \<Rightarrow> block_mem" where
  "set_cell a f m = m\<lparr>bm_heap := (bm_heap m)(a := f (bm_heap m a))\<rparr>"

definition add_reference :: "nat \<Rightarrow> block_mem \<Rightarrow> block_mem" where
  "add_reference a = set_cell a (\<lambda>c. c\<lparr>ce_references := ce_references c + 1\<rparr>)"

text \<open>\<^verbatim>\<open>if (!--b->references) { b->ghost_chain = ghost_root; ghost_root = b; }\<close>\<close>

definition drop_reference :: "nat \<Rightarrow> block_mem \<Rightarrow> block_mem" where
  "drop_reference a m =
     (let m1 = set_cell a (\<lambda>c. c\<lparr>ce_references := ce_references c - 1\<rparr>) m in
      if ce_references (bm_heap m1 a) = 0
      then (set_cell a (\<lambda>c. c\<lparr>ce_ghost_chain := bm_ghost_root m1\<rparr>) m1)\<lparr>bm_ghost_root := Some a\<rparr>
      else m1)"

definition take_ghost :: "nat \<Rightarrow> block_mem \<Rightarrow> block_mem" where
  "take_ghost p m =
     (let m1 = m\<lparr>bm_ghost_root := ce_ghost_chain (bm_heap m p)\<rparr> in
      case ce_chain (bm_heap m p) of None \<Rightarrow> m1 | Some q \<Rightarrow> drop_reference q m1)"

text \<open>\<open>mal\<close> says which calls of \<^verbatim>\<open>malloc\<close> succeed; without memory the program exits.\<close>

definition take_dead :: "(nat \<Rightarrow> bool) \<Rightarrow> block_mem \<Rightarrow> (nat \<times> block_mem) option" where
  "take_dead mal m =
     (if bm_dead_array_size m = 0
      then (if mal (bm_arrays m)
            then Some (bm_arrays m * QTY_BLOCKS + (QTY_BLOCKS - 1),
                       m\<lparr>bm_arrays := Suc (bm_arrays m), bm_dead_array_size := QTY_BLOCKS - 1\<rparr>)
            else None)
      else Some ((bm_arrays m - 1) * QTY_BLOCKS + (bm_dead_array_size m - 1),
                 m\<lparr>bm_dead_array_size := bm_dead_array_size m - 1\<rparr>))"

definition fill_block :: "nat \<Rightarrow> BLOCK \<Rightarrow> nat option \<Rightarrow> block_mem \<Rightarrow> block_mem" where
  "fill_block p b chain m =
     set_cell p (\<lambda>c. c\<lparr>ce_chain := chain, ce_references := 0\<rparr>)
       (case chain of Some q \<Rightarrow> add_reference q (set_cell p (\<lambda>c. c\<lparr>ce_block := b\<rparr>) m)
        | None \<Rightarrow> set_cell p (\<lambda>c. c\<lparr>ce_block := b\<rparr>) m)"

definition allocate :: "(nat \<Rightarrow> bool) \<Rightarrow> BLOCK \<Rightarrow> nat option \<Rightarrow> block_mem \<Rightarrow> (nat \<times> block_mem) option" where
  "allocate mal b chain m =
     map_option (\<lambda>(p, m1). (p, fill_block p b chain m1))
       (case bm_ghost_root m of Some p \<Rightarrow> Some (p, take_ghost p m) | None \<Rightarrow> take_dead mal m)"

definition assign :: "nat \<Rightarrow> nat \<Rightarrow> (nat \<Rightarrow> nat option) \<times> block_mem \<Rightarrow> (nat \<Rightarrow> nat option) \<times> block_mem" where
  "assign v p s =
     (case s of (vars, m) \<Rightarrow>
        if vars v = Some p then s
        else (vars(v := Some p),
              case vars v of None \<Rightarrow> add_reference p m | Some old \<Rightarrow> drop_reference old (add_reference p m)))"

text \<open>
  What the search does with its variables: \<^verbatim>\<open>zx0_assign(&v, zx0_allocate(bits, index, offset, chain))\<close>
  with the chain of a variable or none, and \<^verbatim>\<open>zx0_assign(&v, w)\<close>, which fails on a null pointer.
\<close>

type_synonym store = "(nat \<Rightarrow> nat option) \<times> block_mem"

definition assign_new :: "(nat \<Rightarrow> bool) \<Rightarrow> nat \<Rightarrow> BLOCK \<Rightarrow> nat option \<Rightarrow> store \<Rightarrow> store option" where
  "assign_new mal v b src s =
     (case s of (vars, m) \<Rightarrow>
        map_option (\<lambda>(p, m'). assign v p (vars, m'))
          (allocate mal b (case src of None \<Rightarrow> None | Some w \<Rightarrow> vars w) m))"

definition assign_var :: "nat \<Rightarrow> nat \<Rightarrow> store \<Rightarrow> store option" where
  "assign_var v w s = (case fst s w of None \<Rightarrow> None | Some p \<Rightarrow> Some (assign v p s))"

definition empty_store :: store where
  "empty_store = (\<lambda>_. None, \<lparr>bm_heap = (\<lambda>_. \<lparr>ce_block = \<lparr>bl_bits = 0, bl_index = 0, bl_offset = 0\<rparr>, ce_chain = None,
     ce_references = 0, ce_ghost_chain = None\<rparr>), bm_ghost_root = None, bm_arrays = 0, bm_dead_array_size = 0\<rparr>)"

datatype store_step = New nat BLOCK "nat option" | Var nat nat

section \<open>Interface\<close>

text \<open>What a step does to the values of the variables; copying an unset variable has no value.\<close>

fun value_step :: "store_step \<Rightarrow> (nat \<Rightarrow> BLOCK list) \<Rightarrow> (nat \<Rightarrow> BLOCK list) option" where
  "value_step (New v b src) f = Some (f(v := b # (case src of None \<Rightarrow> [] | Some w \<Rightarrow> f w)))"
| "value_step (Var v w) f = (if f w = [] then None else Some (f(v := f w)))"

fun run_steps :: "('s \<Rightarrow> store_step \<Rightarrow> 's option) \<Rightarrow> 's \<Rightarrow> store_step list \<Rightarrow> 's option" where
  "run_steps step s [] = Some s"
| "run_steps step s (x # xs) = (case step s x of None \<Rightarrow> None | Some s' \<Rightarrow> run_steps step s' xs)"

locale block_store =
  fixes step :: "'s \<Rightarrow> store_step \<Rightarrow> 's option" and holds :: "(nat \<Rightarrow> BLOCK list) \<Rightarrow> 's \<Rightarrow> bool"
  assumes step_holds: "holds f s \<Longrightarrow> step s x = Some s' \<Longrightarrow> \<exists>f'. value_step x f = Some f' \<and> holds f' s'"
begin

lemma run_holds:
  "holds f s \<Longrightarrow> run_steps step s xs = Some s' \<Longrightarrow>
   \<exists>f'. run_steps (\<lambda>f x. value_step x f) f xs = Some f' \<and> holds f' s'"
proof (induction xs arbitrary: f s)
  case (Cons x xs)
  obtain s1 where s1: "step s x = Some s1" "run_steps step s1 xs = Some s'"
    using Cons.prems(2) by (auto split: option.splits)
  then show ?case using step_holds [OF Cons.prems(1) s1(1)] Cons.IH by fastforce
qed simp

end

text \<open>With enough memory a step fails only where it has no value.\<close>

locale ample_block_store = block_store +
  assumes step_defined: "holds f s \<Longrightarrow> value_step x f \<noteq> None \<Longrightarrow> step s x \<noteq> None"
begin

lemma run_exact:
  assumes "holds f s"
  shows "rel_option holds (run_steps (\<lambda>f x. value_step x f) f xs) (run_steps step s xs)"
  using assms
proof (induction xs arbitrary: f s)
  case (Cons x xs)
  show ?case
  proof (cases "step s x")
    case None
    then have "value_step x f = None" using step_defined [OF Cons.prems, of x] by blast
    then show ?thesis using None by simp
  next
    case (Some s')
    then obtain f' where "value_step x f = Some f'" "holds f' s'" using step_holds [OF Cons.prems Some] by blast
    then show ?thesis using Some Cons.IH by simp
  qed
qed simp

end

definition store_do :: "(nat \<Rightarrow> bool) \<Rightarrow> store \<Rightarrow> store_step \<Rightarrow> store option" where
  "store_do mal s x = (case x of New v b src \<Rightarrow> assign_new mal v b src s | Var v w \<Rightarrow> assign_var v w s)"

section \<open>Reference counts and ghosts\<close>

fun ghosts :: "(nat \<Rightarrow> cell) \<Rightarrow> nat option \<Rightarrow> nat list \<Rightarrow> bool" where
  "ghosts h r [] = (r = None)"
| "ghosts h r (g # gs) = (r = Some g \<and> ghosts h (ce_ghost_chain (h g)) gs)"

text \<open>The blocks \<open>A\<close> carry the counts \<open>N\<close>; those without references are ghosts, except the blocks \<open>T\<close> being made.\<close>

definition ref_inv :: "nat set \<Rightarrow> (nat \<Rightarrow> int) \<Rightarrow> nat list \<Rightarrow> nat set \<Rightarrow> block_mem \<Rightarrow> bool" where
  "ref_inv A N gs T m \<longleftrightarrow> (\<forall>x\<in>A. ce_references (bm_heap m x) = N x \<and> 0 \<le> N x)
     \<and> ghosts (bm_heap m) (bm_ghost_root m) gs \<and> distinct gs \<and> set gs = {x\<in>A. N x = 0} - T"

text \<open>Blocks and chains are the same; only counts and ghosts changed.\<close>

definition same_blocks :: "block_mem \<Rightarrow> block_mem \<Rightarrow> bool" where
  "same_blocks m m' \<longleftrightarrow> (\<forall>x. ce_block (bm_heap m' x) = ce_block (bm_heap m x) \<and> ce_chain (bm_heap m' x) = ce_chain (bm_heap m x))
     \<and> bm_arrays m' = bm_arrays m \<and> bm_dead_array_size m' = bm_dead_array_size m"

lemma ghosts_cong: "(\<And>x. x \<in> set gs \<Longrightarrow> ce_ghost_chain (h' x) = ce_ghost_chain (h x)) \<Longrightarrow> ghosts h' r gs = ghosts h r gs"
  by (induction gs arbitrary: r) auto

lemma add_reference_ok:
  assumes "ref_inv A N gs T m" "a \<in> A" "0 < N a \<or> a \<in> T"
  shows "ref_inv A (N(a := N a + 1)) gs (T - {a}) (add_reference a m)" "same_blocks m (add_reference a m)"
proof -
  have "ghosts (bm_heap (add_reference a m)) (bm_ghost_root m) gs = ghosts (bm_heap m) (bm_ghost_root m) gs"
    by (rule ghosts_cong) (simp add: add_reference_def set_cell_def)
  moreover have "bm_ghost_root (add_reference a m) = bm_ghost_root m" by (simp add: add_reference_def set_cell_def)
  moreover have "{x\<in>A. (N(a := N a + 1)) x = 0} - (T - {a}) = {x\<in>A. N x = 0} - T"
    using assms by (auto simp: ref_inv_def)
  ultimately show "ref_inv A (N(a := N a + 1)) gs (T - {a}) (add_reference a m)"
    using assms by (auto simp: ref_inv_def add_reference_def set_cell_def)
  show "same_blocks m (add_reference a m)" by (simp add: same_blocks_def add_reference_def set_cell_def)
qed

lemma drop_reference_ok:
  assumes "ref_inv A N gs T m" "a \<in> A" "0 < N a" "a \<notin> T"
  shows "\<exists>gs'. ref_inv A (N(a := N a - 1)) gs' T (drop_reference a m)" "same_blocks m (drop_reference a m)"
proof -
  have g: "a \<notin> set gs" "ce_references (bm_heap m a) = N a" using assms by (auto simp: ref_inv_def)
  show "\<exists>gs'. ref_inv A (N(a := N a - 1)) gs' T (drop_reference a m)"
  proof (cases "N a = 1")
    case True
    have "ghosts (bm_heap (drop_reference a m)) (bm_ghost_root m) gs = ghosts (bm_heap m) (bm_ghost_root m) gs"
      using g(1) by (intro ghosts_cong) (auto simp: drop_reference_def Let_def set_cell_def)
    then have "ref_inv A (N(a := N a - 1)) (a # gs) T (drop_reference a m)"
      using assms g True by (auto simp: ref_inv_def drop_reference_def Let_def set_cell_def)
    then show ?thesis ..
  next
    case False
    have "ghosts (bm_heap (drop_reference a m)) (bm_ghost_root m) gs = ghosts (bm_heap m) (bm_ghost_root m) gs"
      using g(1) by (intro ghosts_cong) (auto simp: drop_reference_def Let_def set_cell_def)
    then have "ref_inv A (N(a := N a - 1)) gs T (drop_reference a m)"
      using assms g False by (auto simp: ref_inv_def drop_reference_def Let_def set_cell_def)
    then show ?thesis ..
  qed
  show "same_blocks m (drop_reference a m)" by (auto simp: same_blocks_def drop_reference_def Let_def set_cell_def)
qed

text \<open>The count a block should carry: the variables that refer to it and the blocks that continue it.\<close>

definition refs :: "(nat \<Rightarrow> nat option) \<Rightarrow> (nat \<Rightarrow> nat option) \<Rightarrow> nat set \<Rightarrow> nat \<Rightarrow> int" where
  "refs vars chain A x = int (card {v. vars v = Some x}) + int (card {y\<in>A. chain y = Some x})"

abbreviation chains :: "block_mem \<Rightarrow> nat \<Rightarrow> nat option" where
  "chains m x \<equiv> ce_chain (bm_heap m x)"

definition vars_ok :: "(nat \<Rightarrow> nat option) \<Rightarrow> (nat \<Rightarrow> nat option) \<Rightarrow> nat set \<Rightarrow> bool" where
  "vars_ok vars chain A \<longleftrightarrow> finite A \<and> finite (dom vars) \<and> ran vars \<subseteq> A \<and> (\<forall>x\<in>A. \<forall>y. chain x = Some y \<longrightarrow> y \<in> A)"

lemma vars_finite: "finite (dom vars) \<Longrightarrow> finite {v. vars v = Some x}"
  by (rule finite_subset [of _ "dom vars"]) auto

lemma refs_var_pos: "vars_ok vars chain A \<Longrightarrow> vars v = Some x \<Longrightarrow> 0 < refs vars chain A x"
  using vars_finite [of vars x] by (auto simp: refs_def vars_ok_def card_gt_0_iff intro!: add_pos_nonneg)

lemma refs_chain_pos: "vars_ok vars chain A \<Longrightarrow> y \<in> A \<Longrightarrow> chain y = Some x \<Longrightarrow> 0 < refs vars chain A x"
  by (auto simp: refs_def vars_ok_def card_gt_0_iff intro!: add_nonneg_pos)

lemma refs_zero:
  assumes "vars_ok vars chain A" "refs vars chain A x = 0"
  shows "vars v \<noteq> Some x" "y \<in> A \<Longrightarrow> chain y \<noteq> Some x"
  using refs_var_pos [OF assms(1)] refs_chain_pos [OF assms(1)] assms(2) by force+

lemma card_update_set:
  assumes "finite {v. f v = Some x}"
  shows "int (card {v. (f(a := Some p)) v = Some x}) =
    int (card {v. f v = Some x}) + of_bool (p = x) - of_bool (f a = Some x)"
proof -
  have e: "{v. (f(a := Some p)) v = Some x} = (if p = x then insert a ({v. f v = Some x} - {a}) else {v. f v = Some x} - {a})"
    by auto
  have c: "f a = Some x \<Longrightarrow> 0 < card {v. f v = Some x}" using assms by (auto simp: card_gt_0_iff)
  show ?thesis unfolding e using assms c by (auto simp: card_Diff_singleton_if of_nat_diff Suc_leI card_insert_if insert_absorb)
qed

lemma refs_assign:
  assumes "finite (dom vars)"
  shows "refs (vars(v := Some p)) chain A x = refs vars chain A x + of_bool (p = x) - of_bool (vars v = Some x)"
  using card_update_set [OF vars_finite [OF assms], of v p x] by (simp only: refs_def)

lemma card_update_chain:
  assumes "finite A" "p \<in> A"
  shows "int (card {y\<in>A. (chain(p := c)) y = Some x}) =
    int (card {y\<in>A - {p}. chain y = Some x}) + of_bool (c = Some x)"
proof -
  have "{y\<in>A. (chain(p := c)) y = Some x} = (if c = Some x then insert p {y\<in>A - {p}. chain y = Some x} else {y\<in>A - {p}. chain y = Some x})"
    using assms(2) by auto
  then show ?thesis using assms(1) by (auto simp: card_insert_if)
qed

lemma refs_relink:
  assumes "finite A" "p \<in> A"
  shows "refs vars (chain(p := c)) A x = refs vars chain (A - {p}) x + of_bool (c = Some x)"
  using card_update_chain [OF assms, of chain c x] by (simp only: refs_def)

lemma refs_without:
  assumes "finite A" "p \<in> A"
  shows "refs vars chain (A - {p}) x = refs vars chain A x - of_bool (chain p = Some x)"
  using refs_relink [OF assms, of vars chain "chain p" x] by simp

section \<open>Assignment\<close>

lemma same_blocks_trans: "same_blocks m m' \<Longrightarrow> same_blocks m' m'' \<Longrightarrow> same_blocks m m''"
  by (simp add: same_blocks_def)

lemma same_blocks_chains: "same_blocks m m' \<Longrightarrow> chains m' = chains m"
  by (auto simp: same_blocks_def)

lemma assign_ok:
  assumes "vars_ok vars (chains m) A" "ref_inv A (refs vars (chains m) A) gs T m" "p \<in> A"
    and "T = {} \<and> 0 < refs vars (chains m) A p \<or> T = {p} \<and> refs vars (chains m) A p = 0"
    and "assign v p (vars, m) = (vars', m')"
  shows "vars' = vars(v := Some p) \<and> same_blocks m m' \<and> (\<exists>gs'. ref_inv A (refs vars' (chains m) A) gs' {} m')"
proof (cases "vars v = Some p")
  case True
  then have "T = {}" using assms(4) refs_var_pos [OF assms(1) True] by auto
  then show ?thesis using True assms(2,5) by (auto simp: assign_def same_blocks_def)
next
  case False
  let ?N = "refs vars (chains m) A" and ?m = "add_reference p m"
  have fin: "finite (dom vars)" using assms(1) by (simp add: vars_ok_def)
  have a: "ref_inv A (?N(p := ?N p + 1)) gs {} ?m" "same_blocks m ?m"
    using add_reference_ok [OF assms(2,3)] assms(4) by auto
  show ?thesis
  proof (cases "vars v")
    case None
    then have "refs (vars(v := Some p)) (chains m) A = ?N(p := ?N p + 1)"
      by (auto simp: refs_assign [OF fin])
    then show ?thesis using a False None assms(5) by (auto simp: assign_def)
  next
    case (Some old)
    have o: "old \<noteq> p" "old \<in> A" "0 < ?N old" 
      using Some False assms(1) refs_var_pos [OF assms(1) Some] by (auto simp: vars_ok_def ran_def)
    then have d: "\<exists>gs'. ref_inv A ((?N(p := ?N p + 1))(old := ?N old - 1)) gs' {} (drop_reference old ?m)"
      "same_blocks ?m (drop_reference old ?m)"
      using drop_reference_ok [OF a(1) o(2)] by auto
    have "refs (vars(v := Some p)) (chains m) A = (?N(p := ?N p + 1))(old := ?N old - 1)"
      using Some o(1) by (auto simp: refs_assign [OF fin])
    then show ?thesis using d a(2) same_blocks_trans False Some assms(5) by (auto simp: assign_def)
  qed
qed

section \<open>Allocation\<close>

definition addresses :: "block_mem \<Rightarrow> nat set" where
  "addresses m = {a. a < bm_arrays m * QTY_BLOCKS \<and>
     \<not> ((bm_arrays m - 1) * QTY_BLOCKS \<le> a \<and> a < (bm_arrays m - 1) * QTY_BLOCKS + bm_dead_array_size m)}"

definition arrays_ok :: "block_mem \<Rightarrow> bool" where
  "arrays_ok m \<longleftrightarrow> bm_dead_array_size m \<le> QTY_BLOCKS \<and> (bm_arrays m = 0 \<longrightarrow> bm_dead_array_size m = 0)"

lemma take_dead_ok:
  assumes "take_dead mal m = Some (p, m')" "arrays_ok m"
  shows "p \<notin> addresses m" "addresses m' = insert p (addresses m)" "arrays_ok m'"
    "bm_heap m' = bm_heap m" "bm_ghost_root m' = bm_ghost_root m"
proof -
  have q: "0 < QTY_BLOCKS" by (simp add: QTY_BLOCKS_def)
  show "bm_heap m' = bm_heap m" "bm_ghost_root m' = bm_ghost_root m" "arrays_ok m'"
    using assms q by (auto simp: take_dead_def arrays_ok_def split: if_splits)
  have "p \<notin> addresses m \<and> addresses m' = insert p (addresses m)"
  proof (cases "bm_dead_array_size m = 0")
    case True
    then have "p = bm_arrays m * QTY_BLOCKS + (QTY_BLOCKS - 1)"
      "m' = m\<lparr>bm_arrays := Suc (bm_arrays m), bm_dead_array_size := QTY_BLOCKS - 1\<rparr>"
      using assms(1) by (auto simp: take_dead_def split: if_splits)
    then show ?thesis using True q by (auto simp: addresses_def)
  next
    case False
    then obtain k where k: "bm_arrays m = Suc k" using assms(2) by (cases "bm_arrays m") (auto simp: arrays_ok_def)
    have "p = k * QTY_BLOCKS + (bm_dead_array_size m - 1)" "m' = m\<lparr>bm_dead_array_size := bm_dead_array_size m - 1\<rparr>"
      using assms(1) False k by (auto simp: take_dead_def)
    then show ?thesis using False k assms(2) by (auto simp: addresses_def arrays_ok_def)
  qed
  then show "p \<notin> addresses m" "addresses m' = insert p (addresses m)" by auto
qed

lemma take_ghost_ok:
  assumes "vars_ok vars (chains m) A" "ref_inv A (refs vars (chains m) A) gs {} m" "bm_ghost_root m = Some p"
  shows "p \<in> A \<and> refs vars (chains m) A p = 0 \<and> same_blocks m (take_ghost p m)
    \<and> (\<exists>gs'. ref_inv (A - {p}) (refs vars (chains m) (A - {p})) gs' {} (take_ghost p m))"
proof -
  let ?N = "refs vars (chains m) A" and ?m = "m\<lparr>bm_ghost_root := ce_ghost_chain (bm_heap m p)\<rparr>"
  obtain gs' where gs: "gs = p # gs'" using assms(2,3) by (cases gs) (auto simp: ref_inv_def)
  have p: "p \<in> A" "?N p = 0" "finite A" using assms(1,2) gs by (auto simp: ref_inv_def vars_ok_def)
  have r: "ref_inv (A - {p}) ?N gs' {} ?m" using assms(2) gs by (auto simp: ref_inv_def)
  show ?thesis
  proof (cases "chains m p")
    case None
    then have "refs vars (chains m) (A - {p}) = ?N" using refs_without [OF p(3,1), of vars "chains m"] by (simp add: fun_eq_iff)
    then show ?thesis using r p None by (auto simp: take_ghost_def same_blocks_def)
  next
    case (Some q)
    have q: "0 < ?N q" "q \<in> A" using refs_chain_pos [OF assms(1) p(1) Some] assms(1) p(1) Some by (auto simp: vars_ok_def)
    then have "q \<in> A - {p}" using p(2) by auto
    note d = drop_reference_ok [OF r this q(1)]
    have "refs vars (chains m) (A - {p}) = ?N(q := ?N q - 1)"
      using refs_without [OF p(3,1), of vars "chains m"] Some by (auto simp: fun_eq_iff)
    moreover have "same_blocks m ?m" by (simp add: same_blocks_def)
    ultimately show ?thesis using d p Some same_blocks_trans by (auto simp: take_ghost_def)
  qed
qed

lemma ref_inv_other:
  assumes "ref_inv A N gs T m" "p \<notin> A"
  shows "ref_inv A N gs T (set_cell p f m)"
proof -
  have "ghosts (bm_heap (set_cell p f m)) (bm_ghost_root m) gs = ghosts (bm_heap m) (bm_ghost_root m) gs"
    using assms by (intro ghosts_cong) (auto simp: set_cell_def ref_inv_def)
  then show ?thesis using assms by (auto simp: ref_inv_def set_cell_def)
qed

lemma fill_block_simps:
  assumes "chain \<noteq> Some p"
  shows "chains (fill_block p b chain m) = (chains m)(p := chain)" "ce_block (bm_heap (fill_block p b chain m) p) = b"
    "x \<noteq> p \<Longrightarrow> ce_block (bm_heap (fill_block p b chain m) x) = ce_block (bm_heap m x)"
    "bm_arrays (fill_block p b chain m) = bm_arrays m" "bm_dead_array_size (fill_block p b chain m) = bm_dead_array_size m"
    "ce_references (bm_heap (fill_block p b chain m) p) = 0"
  using assms by (auto simp: fill_block_def set_cell_def add_reference_def fun_eq_iff split: option.splits)

lemma fill_block_ok:
  assumes R: "ref_inv (A - {p}) (refs vars chn (A - {p})) gs {} m" and "finite A" "p \<in> A"
    and c: "\<And>q. chain = Some q \<Longrightarrow> q \<in> A - {p} \<and> 0 < refs vars chn (A - {p}) q"
    and z: "refs vars (chn(p := chain)) A p = 0"
  shows "ref_inv A (refs vars (chn(p := chain)) A) gs {p} (fill_block p b chain m)"
proof -
  let ?B = "A - {p}" and ?m2 = "set_cell p (\<lambda>c. c\<lparr>ce_block := b\<rparr>) m"
  let ?N = "refs vars (chn(p := chain)) A"
  have m2: "ref_inv ?B (refs vars chn ?B) gs {} ?m2" by (rule ref_inv_other [OF R]) simp
  have "ref_inv ?B ?N gs {} (case chain of Some q \<Rightarrow> add_reference q ?m2 | None \<Rightarrow> ?m2)"
  proof (cases chain)
    case None
    then have "?N = refs vars chn ?B" using refs_relink [OF assms(2,3), of vars chn chain] by (simp add: fun_eq_iff)
    then show ?thesis using m2 None by simp
  next
    case (Some q)
    have "?N = (refs vars chn ?B)(q := refs vars chn ?B q + 1)"
      using refs_relink [OF assms(2,3), of vars chn chain] Some by (auto simp: fun_eq_iff)
    then show ?thesis using add_reference_ok(1) [OF m2, of q] c [OF Some] Some by auto
  qed
  then have "ref_inv ?B ?N gs {} (fill_block p b chain m)" unfolding fill_block_def by (rule ref_inv_other) simp
  moreover have "chain \<noteq> Some p" using c by auto
  then have "ce_references (bm_heap (fill_block p b chain m) p) = 0" by (rule fill_block_simps)
  ultimately show ?thesis using z by (auto simp: ref_inv_def)
qed

lemma allocate_ok:
  assumes V: "vars_ok vars (chains m) A" and R: "ref_inv A (refs vars (chains m) A) gs {} m"
    and A: "A = addresses m" "arrays_ok m" and c: "\<forall>q. chain = Some q \<longrightarrow> (\<exists>w. vars w = Some q)"
    and a: "allocate mal b chain m = Some (p, m')"
  shows "addresses m' = insert p A \<and> arrays_ok m' \<and> vars_ok vars (chains m') (insert p A)
    \<and> refs vars (chains m') (insert p A) p = 0
    \<and> (\<exists>gs'. ref_inv (insert p A) (refs vars (chains m') (insert p A)) gs' {p} m')
    \<and> chains m' = (chains m)(p := chain) \<and> ce_block (bm_heap m' p) = b
    \<and> (\<forall>x. x \<noteq> p \<longrightarrow> ce_block (bm_heap m' x) = ce_block (bm_heap m x)) \<and> (p \<in> A \<longrightarrow> refs vars (chains m) A p = 0)"
proof -
  let ?B = "A - {p}" and ?A = "insert p A"
  obtain m1 where t: "(case bm_ghost_root m of Some p \<Rightarrow> Some (p, take_ghost p m) | None \<Rightarrow> take_dead mal m) = Some (p, m1)"
    and m': "m' = fill_block p b chain m1"
    using a by (auto simp: allocate_def)
  have one: "addresses m1 = ?A \<and> arrays_ok m1 \<and> chains m1 = chains m \<and> (p \<in> A \<longrightarrow> refs vars (chains m) A p = 0)
    \<and> (\<forall>x. ce_block (bm_heap m1 x) = ce_block (bm_heap m x))
    \<and> (\<exists>gs'. ref_inv ?B (refs vars (chains m) ?B) gs' {} m1)"
  proof (cases "bm_ghost_root m")
    case None
    then have "take_dead mal m = Some (p, m1)" using t by simp
    note d = take_dead_ok [OF this A(2)]
    have "ref_inv A (refs vars (chains m) A) gs {} m1" using R d(4,5) by (simp add: ref_inv_def)
    then show ?thesis using d A(1) by auto
  next
    case (Some g)
    then have "g = p" "m1 = take_ghost p m" using t by auto
    then show ?thesis
      using take_ghost_ok [OF V R] Some A by (auto simp: same_blocks_def addresses_def arrays_ok_def)
  qed
  then obtain gs1 where g1: "ref_inv ?B (refs vars (chains m) ?B) gs1 {} m1" by blast
  have V': "finite A" "\<And>x y. x \<in> A \<Longrightarrow> chains m x = Some y \<Longrightarrow> y \<in> A" "ran vars \<subseteq> A" using V by (auto simp: vars_ok_def)
  have np: "vars w \<noteq> Some p" "y \<in> A \<Longrightarrow> chains m y \<noteq> Some p" for w y
    using one refs_zero [OF V] V' by (auto simp: ran_def)
  have ch: "q \<in> A \<and> q \<noteq> p \<and> 0 < refs vars (chains m) ?B q" if "chain = Some q" for q
  proof -
    from c that obtain w where w: "vars w = Some q" by blast
    have "vars_ok vars (\<lambda>_. None) A" using V by (simp add: vars_ok_def)
    from refs_var_pos [OF this w] have "0 < refs vars (chains m) ?B q" by (simp add: refs_def)
    then show ?thesis using w np V'(3) by (auto simp: ran_def)
  qed
  then have cp: "chain \<noteq> Some p" by auto
  have z: "refs vars ((chains m)(p := chain)) ?A p = 0"
  proof -
    have "{y \<in> ?A. ((chains m)(p := chain)) y = Some p} = {}" "{v. vars v = Some p} = {}" using np cp by auto
    then show ?thesis by (simp only: refs_def) simp
  qed
  have "ref_inv ?A (refs vars ((chains m)(p := chain)) ?A) gs1 {p} m'"
    unfolding m' by (rule fill_block_ok) (use g1 V'(1) ch z in \<open>auto simp: insert_Diff_if\<close>)
  moreover have "vars_ok vars ((chains m)(p := chain)) ?A" using V ch by (auto simp: vars_ok_def)
  ultimately show ?thesis
    using one z fill_block_simps [OF cp] by (auto simp: m' addresses_def arrays_ok_def)
qed

section \<open>Values\<close>

fun holds_chain :: "(nat \<Rightarrow> cell) \<Rightarrow> nat option \<Rightarrow> BLOCK list \<Rightarrow> bool" where
  "holds_chain h a [] = (a = None)"
| "holds_chain h a (b # bs) = (\<exists>p. a = Some p \<and> ce_block (h p) = b \<and> holds_chain h (ce_chain (h p)) bs)"

lemma holds_chain_frame:
  assumes "holds_chain h a bs" "\<And>p. a = Some p \<Longrightarrow> p \<in> L"
    and "\<And>x. x \<in> L \<Longrightarrow> ce_block (h' x) = ce_block (h x) \<and> ce_chain (h' x) = ce_chain (h x)"
    and "\<And>x y. x \<in> L \<Longrightarrow> ce_chain (h x) = Some y \<Longrightarrow> y \<in> L"
  shows "holds_chain h' a bs"
  using assms(1,2)
proof (induction bs arbitrary: a)
  case (Cons b bs)
  then obtain p where p: "a = Some p" "ce_block (h p) = b" "holds_chain h (ce_chain (h p)) bs" "p \<in> L" by auto
  then have "holds_chain h' (ce_chain (h p)) bs" using Cons.IH assms(4) by blast
  then show ?case using p assms(3) by simp
qed simp

lemma holds_chain_same: "same_blocks m m' \<Longrightarrow> holds_chain (bm_heap m) a bs \<Longrightarrow> holds_chain (bm_heap m') a bs"
  by (rule holds_chain_frame [where L = UNIV]) (auto simp: same_blocks_def)

text \<open>The variables hold the chains \<open>f\<close>.\<close>

definition store_holds :: "(nat \<Rightarrow> BLOCK list) \<Rightarrow> store \<Rightarrow> bool" where
  "store_holds f s \<longleftrightarrow> (case s of (vars, m) \<Rightarrow>
     arrays_ok m \<and> vars_ok vars (chains m) (addresses m)
     \<and> (\<exists>gs. ref_inv (addresses m) (refs vars (chains m) (addresses m)) gs {} m)
     \<and> (\<forall>v. holds_chain (bm_heap m) (vars v) (f v)))"

lemma store_holds_assign:
  assumes V: "vars_ok vars (chains m) (addresses m)" and A: "arrays_ok m" "p \<in> addresses m"
    and R: "ref_inv (addresses m) (refs vars (chains m) (addresses m)) gs T m"
    and T: "T = {} \<and> 0 < refs vars (chains m) (addresses m) p \<or> T = {p} \<and> refs vars (chains m) (addresses m) p = 0"
    and f: "\<And>v. holds_chain (bm_heap m) (vars v) (f v)" "holds_chain (bm_heap m) (Some p) bs"
  shows "store_holds (f(v := bs)) (assign v p (vars, m))"
proof -
  obtain vars' m' where s: "assign v p (vars, m) = (vars', m')" by (cases "assign v p (vars, m)") auto
  have a: "vars' = vars(v := Some p)" "same_blocks m m'" "\<exists>gs'. ref_inv (addresses m) (refs vars' (chains m) (addresses m)) gs' {} m'"
    using assign_ok [OF V R A(2) T s] by auto
  have e: "addresses m' = addresses m" "arrays_ok m'" "chains m' = chains m"
    using a(2) A(1) by (auto simp: same_blocks_def addresses_def arrays_ok_def)
  have "vars_ok vars' (chains m) (addresses m)" using V A(2) a(1) by (auto simp: vars_ok_def ran_def)
  then show ?thesis using s e a f holds_chain_same [OF a(2)] by (simp add: store_holds_def)
qed

lemma assign_var_holds:
  assumes "store_holds f s" "assign_var v w s = Some s'"
  shows "f w \<noteq> [] \<and> store_holds (f(v := f w)) s'"
proof -
  obtain vars m p where s: "s = (vars, m)" "vars w = Some p" "s' = assign v p (vars, m)"
    using assms(2) by (cases s) (auto simp: assign_var_def split: option.splits)
  have h: "arrays_ok m" "vars_ok vars (chains m) (addresses m)"
    "\<exists>gs. ref_inv (addresses m) (refs vars (chains m) (addresses m)) gs {} m" "\<And>v. holds_chain (bm_heap m) (vars v) (f v)"
    using assms(1) s(1) by (simp_all add: store_holds_def)
  have "f w \<noteq> []" using h(4) [of w] s(2) by (cases "f w") auto
  moreover have "p \<in> addresses m" using h(2) s(2) by (auto simp: vars_ok_def ran_def)
  ultimately show ?thesis
    using store_holds_assign [OF h(2,1), of p] h(3,4) h(4) [of w] s refs_var_pos [OF h(2) s(2)] by auto
qed

lemma assign_new_holds:
  assumes "store_holds f s" "assign_new mal v b src s = Some s'"
  shows "store_holds (f(v := b # (case src of None \<Rightarrow> [] | Some w \<Rightarrow> f w))) s'"
proof -
  obtain vars m where s: "s = (vars, m)" by (cases s)
  let ?A = "addresses m" and ?N = "refs vars (chains m) (addresses m)"
  let ?c = "case src of None \<Rightarrow> None | Some w \<Rightarrow> vars w" and ?bs = "case src of None \<Rightarrow> [] | Some w \<Rightarrow> f w"
  obtain p m' where a: "allocate mal b ?c m = Some (p, m')" "s' = assign v p (vars, m')"
    using assms(2) s by (auto simp: assign_new_def)
  have h: "arrays_ok m" "vars_ok vars (chains m) ?A" "\<And>v. holds_chain (bm_heap m) (vars v) (f v)"
    using assms(1) s by (simp_all add: store_holds_def)
  obtain gs where gs: "ref_inv ?A ?N gs {} m" using assms(1) s by (auto simp: store_holds_def)
  have "\<forall>q. ?c = Some q \<longrightarrow> (\<exists>w. vars w = Some q)" by (cases src) auto
  note l = allocate_ok [OF h(2) gs refl h(1) this a(1)]
  from l have "chains m' = (chains m)(p := ?c)" by blast
  from fun_cong [OF this] have lc: "chains m' x = ((chains m)(p := ?c)) x" for x .
  have lb: "x \<noteq> p \<and> ce_block (bm_heap m' x) = ce_block (bm_heap m x)" if "x \<in> ?A" "0 < ?N x" for x
    using that l by (cases "x = p") simp_all
  have live: "holds_chain (bm_heap m') a bs" if "holds_chain (bm_heap m) a bs" "\<And>q. a = Some q \<Longrightarrow> \<exists>w. vars w = Some q" for a bs
    using that(1)
  proof (rule holds_chain_frame [where L = "{x \<in> ?A. 0 < ?N x}"])
    show "q \<in> {x \<in> ?A. 0 < ?N x}" if "a = Some q" for q
      using \<open>\<And>q. a = Some q \<Longrightarrow> \<exists>w. vars w = Some q\<close> [OF that] refs_var_pos [OF h(2)] h(2) by (auto simp: vars_ok_def ran_def)
    show "ce_block (bm_heap m' x) = ce_block (bm_heap m x) \<and> chains m' x = chains m x" if "x \<in> {x \<in> ?A. 0 < ?N x}" for x
      using that lb lc by auto
    show "y \<in> {x \<in> ?A. 0 < ?N x}" if "x \<in> {x \<in> ?A. 0 < ?N x}" "chains m x = Some y" for x y
      using that h(2) refs_chain_pos [OF h(2)] by (auto simp: vars_ok_def)
  qed
  have "holds_chain (bm_heap m') ?c ?bs" using h(3) live by (cases src) auto
  then have n: "holds_chain (bm_heap m') (Some p) (b # ?bs)" using l lc by simp
  have "holds_chain (bm_heap m') (vars v) (f v)" for v using live h(3) by blast
  with n show ?thesis using store_holds_assign [of vars m' p] l a(2) by auto
qed

lemma empty_store_holds: "store_holds (\<lambda>_. []) empty_store"
  by (auto simp: store_holds_def empty_store_def arrays_ok_def addresses_def vars_ok_def refs_def ref_inv_def intro!: exI [of _ "[]"])

interpretation mem: block_store "store_do mal" store_holds for mal
proof unfold_locales
  show "\<exists>f'. value_step x f = Some f' \<and> store_holds f' s'"
    if "store_holds f s" "store_do mal s x = Some s'" for f s x s'
    using that assign_new_holds [of f s] assign_var_holds [of f s] by (cases x) (auto simp: store_do_def)
qed

interpretation ample: ample_block_store "store_do (\<lambda>_. True)" store_holds
proof unfold_locales
  show "store_do (\<lambda>_. True) s x \<noteq> None" if "store_holds f s" "value_step x f \<noteq> None" for f s x
  proof (cases x)
    case (New v b src)
    then show ?thesis
      by (cases s) (simp add: store_do_def assign_new_def allocate_def take_dead_def split: option.splits)
  next
    case (Var v w)
    then have "f w \<noteq> []" using that(2) by (simp split: if_splits)
    moreover have "holds_chain (bm_heap (snd s)) (fst s w) (f w)" using that(1) by (simp add: store_holds_def split: prod.splits)
    ultimately have "fst s w \<noteq> None" by (cases "f w") auto
    then show ?thesis using Var by (auto simp: store_do_def assign_var_def)
  qed
qed

section \<open>Properties\<close>

text \<open>
  C10 (recycled_blocks_unused). Whatever the search assigns to its variables in whatever order, each variable
  keeps the chain that was assigned to it: the allocator never hands out a block that a variable still
  reaches, and the counts send a block to the ghosts only when nothing refers to it. The program
  stops early only when there is no memory or when an unset variable is copied.
\<close>

theorem recycled_blocks_unused:
  "case run_steps (store_do mal) empty_store xs of
     Some (vars, m) \<Rightarrow> \<exists>f. run_steps (\<lambda>f x. value_step x f) (\<lambda>_. []) xs = Some f
       \<and> (\<forall>v. holds_chain (bm_heap m) (vars v) (f v))
   | None \<Rightarrow> (\<exists>k. \<not> mal k) \<or> run_steps (\<lambda>f x. value_step x f) (\<lambda>_. []) xs = None"
proof (cases "run_steps (store_do mal) empty_store xs")
  case None
  have "run_steps (\<lambda>f x. value_step x f) (\<lambda>_. []) xs = None" if "mal = (\<lambda>_. True)"
    using ample.run_exact [OF empty_store_holds, of xs] None that by (simp add: option_rel_Some2)
  then have "(\<exists>k. \<not> mal k) \<or> run_steps (\<lambda>f x. value_step x f) (\<lambda>_. []) xs = None"
    by (cases "\<exists>k. \<not> mal k") (simp_all add: fun_eq_iff)
  then show ?thesis using None by simp
next
  case (Some s)
  then show ?thesis using mem.run_holds [OF empty_store_holds Some] by (cases s) (auto simp: store_holds_def)
qed

text \<open>A block is really recycled: the third one takes the place of the first.\<close>

lemma first_block_recycled:
  "map_option (\<lambda>s. fst s 1) (run_steps (store_do mal) empty_store
     [New 0 \<lparr>bl_bits = 1, bl_index = 1, bl_offset = 1\<rparr> None, New 0 \<lparr>bl_bits = 2, bl_index = 2, bl_offset = 1\<rparr> None,
      New 1 \<lparr>bl_bits = 3, bl_index = 3, bl_offset = 0\<rparr> (Some 0)]) = (if mal 0 then Some (Some 99999) else None)"
  by (simp add: store_do_def assign_new_def allocate_def take_dead_def take_ghost_def empty_store_def fill_block_def
      assign_def set_cell_def add_reference_def drop_reference_def Let_def QTY_BLOCKS_def)

end
