(* ===== verification/ZX0Search.thy ===== *)
theory ZX0Search
  imports ZX0Opt ZX0Mem
begin

text \<open>
  The search of \<^verbatim>\<open>optimize.c\<close> together with the allocator of \<^verbatim>\<open>memory.c\<close>: the calls of \<^verbatim>\<open>zx0_allocate\<close> and \<^verbatim>\<open>zx0_assign\<close> that the
  search makes, in their order, and the result that executing them on the heap, with recycled blocks,
  leaves in \<^verbatim>\<open>optimal[input_size - 1]\<close> the chain that the search on values returns.
\<close>

section \<open>Definitions\<close>

text \<open>The variables: \<^verbatim>\<open>optimal[index]\<close>, \<^verbatim>\<open>offset_data[offset].last_literal\<close> and \<^verbatim>\<open>offset_data[offset].last_match\<close>.\<close>

definition v_optimal :: "nat \<Rightarrow> nat" where "v_optimal i = 3 * i"
definition v_literal :: "nat \<Rightarrow> nat" where "v_literal i = 3 * i + 1"
definition v_match :: "nat \<Rightarrow> nat" where "v_match i = 3 * i + 2"

definition calls_offer :: "nat \<Rightarrow> nat \<Rightarrow> int \<Rightarrow> opt_state \<Rightarrow> store_step list" where
  "calls_offer index v bits s =
     (if op_optimal s index = [] \<or> c_bits (op_optimal s index) > bits then [Var (v_optimal index) v] else [])"

definition calls_last_offset :: "nat \<Rightarrow> nat \<Rightarrow> opt_state \<Rightarrow> store_step list" where
  "calls_last_offset index offset s =
     (let l = last_literal (op_od s offset) in
      if l = [] then []
      else (let bits = c_bits l + 1 + elias_gamma_bits (int index - c_index l)
            in New (v_match offset) \<lparr>bl_bits = bits, bl_index = int index, bl_offset = offset\<rparr> (Some (v_literal offset))
               # calls_offer index (v_match offset) bits s))"

definition calls_new_offset :: "nat \<Rightarrow> nat \<Rightarrow> opt_state \<Rightarrow> store_step list" where
  "calls_new_offset index offset s =
     (let n = Suc (match_length (op_od s offset)) in
      if n > 1
      then (let s2 = extend_best index n s;
                length = op_best s2 n;
                chain = op_optimal s2 (index - length);
                bits = c_bits chain + 8 + elias_gamma_bits (int ((offset - 1) div 128 + 1)) + elias_gamma_bits (int length - 1);
                lm = last_match (op_od s2 offset)
            in if lm = [] \<or> c_index lm \<noteq> int index \<or> c_bits lm > bits
               then New (v_match offset) \<lparr>bl_bits = bits, bl_index = int index, bl_offset = offset\<rparr> (Some (v_optimal (index - length)))
                    # calls_offer index (v_match offset) bits s2
               else [])
      else [])"

definition calls_literals :: "nat \<Rightarrow> nat \<Rightarrow> opt_state \<Rightarrow> store_step list" where
  "calls_literals index offset s =
     (let lm = last_match (op_od s offset) in
      if lm = [] then []
      else (let length = int index - c_index lm;
                bits = c_bits lm + 1 + elias_gamma_bits length + length * 8
            in New (v_literal offset) \<lparr>bl_bits = bits, bl_index = int index, bl_offset = 0\<rparr> (Some (v_match offset))
               # calls_offer index (v_literal offset) bits s))"

definition calls_offset :: "8 word list \<Rightarrow> nat \<Rightarrow> nat \<Rightarrow> opt_state \<Rightarrow> nat \<Rightarrow> store_step list" where
  "calls_offset input skip index s offset =
     (if index \<noteq> skip \<and> input ! index = input ! (index - offset)
      then calls_last_offset index offset s @ calls_new_offset index offset (copy_last_offset index offset s)
      else calls_literals index offset s)"

text \<open>The calls of a loop whose body changes the state by \<open>f\<close> and makes the calls \<open>g\<close>.\<close>

fun calls_loop :: "('s \<Rightarrow> 'a \<Rightarrow> 's) \<Rightarrow> ('s \<Rightarrow> 'a \<Rightarrow> store_step list) \<Rightarrow> 's \<Rightarrow> 'a list \<Rightarrow> store_step list" where
  "calls_loop f g s [] = []"
| "calls_loop f g s (x # xs) = g s x @ calls_loop f g (f s x) xs"

definition calls_index :: "8 word list \<Rightarrow> nat \<Rightarrow> nat \<Rightarrow> opt_state \<Rightarrow> nat \<Rightarrow> store_step list" where
  "calls_index input skip offset_limit s index =
     calls_loop (try_offset input skip index) (calls_offset input skip index) (s\<lparr>op_size := 2\<rparr>)
       [1..<Suc (offset_ceiling index offset_limit)]"

definition calls_optimize :: "(nat \<Rightarrow> nat) \<Rightarrow> 8 word list \<Rightarrow> nat \<Rightarrow> nat \<Rightarrow> store_step list" where
  "calls_optimize junk input skip offset_limit =
     New (v_match 1) \<lparr>bl_bits = -1, bl_index = int skip - 1, bl_offset = 1\<rparr> None
     # calls_loop (try_index input skip offset_limit) (calls_index input skip offset_limit)
         (opt_start (length input) skip junk) [skip..<length input]"

section \<open>Lemmas\<close>

text \<open>The values of the variables.\<close>

definition var_values :: "opt_state \<Rightarrow> nat \<Rightarrow> BLOCK list" where
  "var_values s v =
     (if v mod 3 = 0 then op_optimal s (v div 3)
      else if v mod 3 = 1 then last_literal (op_od s (v div 3)) else last_match (op_od s (v div 3)))"

lemma var_values_at [simp]:
  "var_values s (v_optimal i) = op_optimal s i" "var_values s (v_literal i) = last_literal (op_od s i)"
  "var_values s (v_match i) = last_match (op_od s i)"
proof -
  have "(3 * i + 1) div 3 = i" "(3 * i + 1) mod 3 = 1" "(3 * i + 2) div 3 = i" "(3 * i + 2) mod 3 = 2" by simp_all presburger+
  then show "var_values s (v_optimal i) = op_optimal s i" "var_values s (v_literal i) = last_literal (op_od s i)"
    "var_values s (v_match i) = last_match (op_od s i)"
    by (simp_all add: var_values_def v_optimal_def v_literal_def v_match_def)
qed

lemma var_cases:
  obtains i where "v = v_optimal i" | i where "v = v_literal i" | i where "v = v_match i"
proof -
  have "v = 3 * (v div 3) + v mod 3" "v mod 3 < 3" by simp_all
  then consider "v = 3 * (v div 3)" | "v = 3 * (v div 3) + 1" | "v = 3 * (v div 3) + 2" by linarith
  then show thesis using that by cases (simp_all add: v_optimal_def v_literal_def v_match_def)
qed

lemma var_distinct [simp]:
  "v_optimal i = v_optimal j \<longleftrightarrow> i = j" "v_literal i = v_literal j \<longleftrightarrow> i = j" "v_match i = v_match j \<longleftrightarrow> i = j"
  "v_optimal i \<noteq> v_literal j" "v_literal j \<noteq> v_optimal i" "v_optimal i \<noteq> v_match j" "v_match j \<noteq> v_optimal i"
  "v_literal i \<noteq> v_match j" "v_match j \<noteq> v_literal i"
  by (simp_all add: v_optimal_def v_literal_def v_match_def) presburger+

lemma var_values_eqI:
  assumes "\<And>i. f (v_optimal i) = op_optimal s i" "\<And>i. f (v_literal i) = last_literal (op_od s i)"
    "\<And>i. f (v_match i) = last_match (op_od s i)"
  shows "f = var_values s"
proof
  fix v show "f v = var_values s v" by (cases v rule: var_cases) (simp_all add: assms)
qed

abbreviation run_values :: "(nat \<Rightarrow> BLOCK list) \<Rightarrow> store_step list \<Rightarrow> (nat \<Rightarrow> BLOCK list) option" where
  "run_values f xs \<equiv> run_steps (\<lambda>f x. value_step x f) f xs"

lemma run_steps_append:
  "run_steps step s (xs @ ys) = (case run_steps step s xs of None \<Rightarrow> None | Some s' \<Rightarrow> run_steps step s' ys)"
  by (induction xs arbitrary: s) (auto split: option.splits)

text \<open>Two states with the same blocks have the same values.\<close>

lemma var_values_cong:
  "op_optimal s = op_optimal t \<Longrightarrow> (\<And>i. last_literal (op_od s i) = last_literal (op_od t i) \<and> last_match (op_od s i) = last_match (op_od t i))
   \<Longrightarrow> var_values s = var_values t"
  by (rule var_values_eqI) simp_all

lemma calls_offer_values:
  assumes "var_values t v = c" "c \<noteq> []" "op_optimal t = op_optimal s" "bits = c_bits c"
  shows "run_values (var_values t) (calls_offer i v bits s) = Some (var_values (offer i c t))"
proof -
  have "(var_values t)(v_optimal i := c) = var_values (t\<lparr>op_optimal := (op_optimal t)(i := c)\<rparr>)"
    by (rule var_values_eqI) simp_all
  then show ?thesis using assms by (simp add: calls_offer_def offer_def)
qed

lemma new_match_values:
  assumes "c = b # var_values s w" "last_match d = c" "last_literal d = last_literal (op_od s off)"
  shows "(var_values s)(v_match off := b # var_values s w) = var_values (s\<lparr>op_od := (op_od s)(off := d)\<rparr>)"
  by (rule var_values_eqI) (use assms in simp_all)

lemma new_literal_values:
  assumes "c = b # var_values s w" "last_literal d = c" "last_match d = last_match (op_od s off)"
  shows "(var_values s)(v_literal off := b # var_values s w) = var_values (s\<lparr>op_od := (op_od s)(off := d)\<rparr>)"
  by (rule var_values_eqI) (use assms in simp_all)

lemma calls_last_offset_values:
  "run_values (var_values s) (calls_last_offset i off s) = Some (var_values (copy_last_offset i off s))"
proof (cases "last_literal (op_od s off) = []")
  case True
  then show ?thesis by (simp add: calls_last_offset_def copy_last_offset_def)
next
  case False
  let ?l = "last_literal (op_od s off)"
  define bits where "bits = c_bits ?l + 1 + elias_gamma_bits (int i - c_index ?l)"
  define b where "b = \<lparr>bl_bits = bits, bl_index = int i, bl_offset = off\<rparr>"
  define t where "t = s\<lparr>op_od := (op_od s)(off := (op_od s off)\<lparr>last_match := b # ?l\<rparr>)\<rparr>"
  have n: "(var_values s)(v_match off := b # ?l) = var_values t"
    using new_match_values [of "b # ?l" b s "v_literal off" "(op_od s off)\<lparr>last_match := b # ?l\<rparr>" off] by (simp add: t_def)
  have "run_values (var_values t) (calls_offer i (v_match off) bits s) = Some (var_values (offer i (b # ?l) t))"
    by (rule calls_offer_values) (simp_all add: t_def b_def)
  then show ?thesis
    using False n by (simp add: calls_last_offset_def copy_last_offset_def zx0_allocate_def Let_def bits_def [symmetric] b_def [symmetric] t_def)
qed

lemma calls_literals_values:
  "run_values (var_values s) (calls_literals i off s) = Some (var_values (copy_literals i off s))"
proof (cases "last_match (op_od s off) = []")
  case True
  have "var_values (copy_literals i off s) = var_values s"
    using True by (intro var_values_cong) (auto simp: copy_literals_def Let_def)
  then show ?thesis using True by (simp add: calls_literals_def)
next
  case False
  let ?m = "last_match (op_od s off)"
  define bits where "bits = c_bits ?m + 1 + elias_gamma_bits (int i - c_index ?m) + (int i - c_index ?m) * 8"
  define b where "b = \<lparr>bl_bits = bits, bl_index = int i, bl_offset = 0\<rparr>"
  define t where "t = s\<lparr>op_od := (op_od s)(off := (op_od s off)\<lparr>match_length := 0, last_literal := b # ?m\<rparr>)\<rparr>"
  have n: "(var_values s)(v_literal off := b # ?m) = var_values t"
    using new_literal_values [of "b # ?m" b s "v_match off" "(op_od s off)\<lparr>match_length := 0, last_literal := b # ?m\<rparr>" off] by (simp add: t_def)
  have "run_values (var_values t) (calls_offer i (v_literal off) bits s) = Some (var_values (offer i (b # ?m) t))"
    by (rule calls_offer_values) (simp_all add: t_def b_def)
  then show ?thesis
    using False n by (simp add: calls_literals_def copy_literals_def zx0_allocate_def Let_def bits_def [symmetric] b_def [symmetric] t_def
        del: left_diff_distrib_numeral)
qed

lemma calls_new_offset_values:
  "run_values (var_values s) (calls_new_offset i off s) = Some (var_values (copy_new_offset i off s))"
proof -
  define n where "n = Suc (match_length (op_od s off))"
  define s1 where "s1 = s\<lparr>op_od := (op_od s)(off := (op_od s off)\<lparr>match_length := n\<rparr>)\<rparr>"
  have v1: "var_values s1 = var_values s" by (rule var_values_cong) (auto simp: s1_def)
  show ?thesis
  proof (cases "n > 1")
    case False
    then show ?thesis using v1 by (simp add: calls_new_offset_def copy_new_offset_def n_def [symmetric] s1_def)
  next
    case True
    define s2 where "s2 = extend_best i n s1"
    define len where "len = op_best s2 n"
    define chain where "chain = op_optimal s2 (i - len)"
    define bits where "bits = c_bits chain + 8 + elias_gamma_bits (int ((off - 1) div 128 + 1)) + elias_gamma_bits (int len - 1)"
    define b where "b = \<lparr>bl_bits = bits, bl_index = int i, bl_offset = off\<rparr>"
    let ?lm = "last_match (op_od s off)"
    let ?fire = "?lm = [] \<or> c_index ?lm \<noteq> int i \<or> c_bits ?lm > bits"
    define t where "t = s2\<lparr>op_od := (op_od s2)(off := (op_od s2 off)\<lparr>last_match := b # chain\<rparr>)\<rparr>"
    have x: "op_best (extend_best i n s) = op_best s2" by (simp add: s2_def s1_def extend_best_def Let_def)
    have o: "op_optimal s2 = op_optimal s" "op_od s2 = op_od s1" "last_match (op_od s2 off) = ?lm" by (simp_all add: s2_def s1_def)
    have v2: "var_values s2 = var_values s" using v1 by (metis var_values_cong s2_def extend_best_simps)
    have c: "calls_new_offset i off s = (if ?fire then New (v_match off) b (Some (v_optimal (i - len))) # calls_offer i (v_match off) bits s2 else [])"
      using True o by (simp add: calls_new_offset_def n_def [symmetric] x Let_def calls_offer_def len_def [symmetric] chain_def [symmetric]
          bits_def [symmetric] b_def) (simp add: bits_def chain_def)
    have p: "copy_new_offset i off s = (if ?fire then offer i (b # chain) t else s2)"
      using True o(3) by (simp add: copy_new_offset_def n_def [symmetric] s1_def [symmetric] s2_def [symmetric] Let_def
          len_def chain_def bits_def zx0_allocate_def b_def t_def)
    show ?thesis
    proof (cases ?fire)
      case False
      then show ?thesis using c p v2 by simp
    next
      case fire: True
      have n: "(var_values s)(v_match off := b # chain) = var_values t"
        using new_match_values [of "b # chain" b s2 "v_optimal (i - len)" "(op_od s2 off)\<lparr>last_match := b # chain\<rparr>" off] v2
        by (simp add: t_def chain_def o)
      have "run_values (var_values t) (calls_offer i (v_match off) bits s2) = Some (var_values (offer i (b # chain) t))"
        by (rule calls_offer_values) (simp_all add: t_def b_def)
      moreover have "var_values s (v_optimal (i - len)) = chain" using v2 by (metis chain_def var_values_at(1))
      ultimately show ?thesis using c p fire n by simp
    qed
  qed
qed

lemma calls_offset_values:
  "run_values (var_values s) (calls_offset input skip i s off) = Some (var_values (try_offset input skip i s off))"
  by (simp add: calls_offset_def try_offset_def run_steps_append calls_last_offset_values calls_new_offset_values calls_literals_values)

lemma calls_loop_values:
  assumes "\<And>s x. run_values (var_values s) (g s x) = Some (var_values (f s x))"
  shows "run_values (var_values s) (calls_loop f g s xs) = Some (var_values (foldl f s xs))"
  by (induction xs arbitrary: s) (simp_all add: run_steps_append assms)

lemma calls_index_values:
  "run_values (var_values s) (calls_index input skip lim s i) = Some (var_values (try_index input skip lim s i))"
proof -
  have "var_values s = var_values (s\<lparr>op_size := 2\<rparr>)" by (rule var_values_cong) simp_all
  then show ?thesis using calls_loop_values [OF calls_offset_values] by (simp add: calls_index_def try_index_def del: upt_Suc)
qed

lemma calls_optimize_values:
  "\<exists>f. run_values (\<lambda>_. []) (calls_optimize junk input skip lim) = Some f
     \<and> f (v_optimal (length input - 1)) = zx0_optimize junk input skip lim"
proof -
  have "(\<lambda>_. [])(v_match 1 := [\<lparr>bl_bits = -1, bl_index = int skip - 1, bl_offset = 1\<rparr>]) = var_values (opt_start (length input) skip junk)"
    (is "_ = var_values ?s") by (rule var_values_eqI) (simp_all add: opt_start_def zx0_allocate_def)
  moreover have "run_values (var_values ?s) (calls_loop (try_index input skip lim) (calls_index input skip lim) ?s [skip..<length input]) =
      Some (var_values (foldl (try_index input skip lim) ?s [skip..<length input]))"
    by (rule calls_loop_values [OF calls_index_values])
  ultimately show ?thesis by (simp add: calls_optimize_def zx0_optimize_def)
qed

section \<open>Properties\<close>

text \<open>
  C9 (search_in_memory). Executing the search with its blocks in memory, allocated, counted and
  recycled as in the code, ends with \<^verbatim>\<open>optimal[input_size - 1]\<close> pointing to exactly the chain that the search on
  values returns, for every input; only a lack of memory can end it earlier.
\<close>

theorem search_in_memory:
  "case run_steps (store_do mal) empty_store (calls_optimize junk input skip offset_limit) of
     Some (vars, m) \<Rightarrow>
       holds_chain (bm_heap m) (vars (v_optimal (length input - 1))) (zx0_optimize junk input skip offset_limit)
   | None \<Rightarrow> \<exists>k. \<not> mal k"
proof -
  let ?xs = "calls_optimize junk input skip offset_limit"
  obtain f where f: "run_values (\<lambda>_. []) ?xs = Some f" "f (v_optimal (length input - 1)) = zx0_optimize junk input skip offset_limit"
    using calls_optimize_values by blast
  show ?thesis
  proof (cases "run_steps (store_do mal) empty_store ?xs")
    case None
    have "mal \<noteq> (\<lambda>_. True)" using ample.run_exact [OF empty_store_holds, of ?xs] None f(1) by auto
    then show ?thesis using None by (auto simp: fun_eq_iff)
  next
    case (Some s)
    then show ?thesis
      using mem.run_holds [OF empty_store_holds Some] f by (cases s) (auto simp: store_holds_def dest: spec [of _ "v_optimal (length input - 1)"])
  qed
qed

end
