(* ===== verification/ProcStat.thy ===== *)
theory ProcStat
  imports OS
begin

text \<open>
  Reading \<^verbatim>\<open>/proc\<close> in \<^verbatim>\<open>src/cad_rescue_gui.c\<close>: the scanner of \<^verbatim>\<open>/proc/<pid>/stat\<close> lines that
  \<open>scan_processes\<close> and \<open>scan_sessions\<close> share (a process name may itself contain spaces and
  parentheses, so the name ends at the last closing one), and the user name cache
  \<open>get_username_by_uid\<close>. Texts are C strings: lists of characters without the terminator.
\<close>

section \<open>Definitions\<close>

subsection \<open>Stat lines\<close>

text \<open>The loop that remembers the last \<^verbatim>\<open>')'\<close>: what lies before and after it.\<close>

fun split_last :: "char \<Rightarrow> string \<Rightarrow> (string \<times> string) option" where
  "split_last c [] = None"
| "split_last c (x # xs) =
     (case split_last c xs of
        Some (a, b) \<Rightarrow> Some (x # a, b)
      | None \<Rightarrow> if x = c then Some ([], xs) else None)"

text \<open>Name (at most \<open>lim\<close> characters) and the text behind it, spaces skipped.\<close>

definition stat_name :: "nat \<Rightarrow> string \<Rightarrow> string \<times> string" where
  "stat_name lim buf =
     (case cut_at CHR ''('' buf of
        (_, None) \<Rightarrow> ([], [])
      | (_, Some ptr) \<Rightarrow>
          (case split_last CHR '')'' ptr of
             None \<Rightarrow> ([], skip_spaces ptr)
           | Some (a, b) \<Rightarrow> (take lim a, skip_spaces b)))"

text \<open>\<^verbatim>\<open>while (*ptr && spaces < n) { if (*ptr == ' ') spaces++; ptr++; }\<close>\<close>

fun skip_fields :: "nat \<Rightarrow> string \<Rightarrow> string" where
  "skip_fields n [] = []"
| "skip_fields n (c # cs) =
     (if n = 0 then c # cs else skip_fields (if c = CHR '' '' then n - 1 else n) cs)"

text \<open>\<^verbatim>\<open>while (*ptr && *ptr != ' ') ptr++; while (*ptr == ' ') ptr++;\<close>\<close>

definition skip_word :: "string \<Rightarrow> string" where
  "skip_word s = skip_spaces (dropWhile (\<lambda>c. c \<noteq> CHR '' '') s)"

definition stat_state :: "string \<Rightarrow> char" where
  "stat_state ptr = (case ptr of [] \<Rightarrow> CHR ''?'' | c # _ \<Rightarrow> c)"

definition stat_cpu_time :: "string \<Rightarrow> 64 word" where
  "stat_cpu_time ptr =
     (let ptr_cpu = skip_fields 11 ptr in
      if ptr_cpu = [] then 0
      else (let t = str_to_ull ptr_cpu in
            case dropWhile (\<lambda>c. c \<noteq> CHR '' '') ptr_cpu of
              [] \<Rightarrow> t
            | _ # rest \<Rightarrow> t + str_to_ull rest))"

definition stat_rss :: "string \<Rightarrow> int" where
  "stat_rss ptr = (case skip_fields 21 ptr of [] \<Rightarrow> 0 | s \<Rightarrow> str_to_int (Some s))"

definition stat_tty_nr :: "string \<Rightarrow> int" where
  "stat_tty_nr ptr = str_to_int (Some (skip_word (skip_word (skip_word (skip_word ptr)))))"

subsection \<open>User names\<close>

record uid_cache_entry =
  uc_uid :: int
  uc_username :: string

definition UID_CACHE_MAX :: nat where "UID_CACHE_MAX = 128"

fun cache_find :: "uid_cache_entry list \<Rightarrow> int \<Rightarrow> string option" where
  "cache_find [] uid = None"
| "cache_find (e # es) uid = (if uc_uid e = uid then Some (uc_username e) else cache_find es uid)"

text \<open>User name and user id of a \<^verbatim>\<open>passwd\<close> line, when it has three colons.\<close>

definition passwd_fields :: "string \<Rightarrow> (string \<times> string) option" where
  "passwd_fields line =
     (case cut_at CHR '':'' line of
        (_, None) \<Rightarrow> None
      | (user, Some p1) \<Rightarrow>
          (case cut_at CHR '':'' p1 of
             (_, None) \<Rightarrow> None
           | (_, Some p2) \<Rightarrow>
               (case cut_at CHR '':'' p2 of (_, None) \<Rightarrow> None | (uid_str, Some _) \<Rightarrow> Some (user, uid_str))))"

definition cache_add :: "uid_cache_entry list \<Rightarrow> int \<Rightarrow> string \<Rightarrow> uid_cache_entry list" where
  "cache_add cache uid user =
     (if length cache < UID_CACHE_MAX
      then cache @ [\<lparr>uc_uid = uid, uc_username = str_fit 32 user\<rparr>] else cache)"

fun passwd_cache_loop ::
  "string list \<Rightarrow> int \<Rightarrow> nat \<Rightarrow> uid_cache_entry list \<Rightarrow> string \<Rightarrow> uid_cache_entry list \<times> string" where
  "passwd_cache_loop [] uid max_len cache out = (cache, out)"
| "passwd_cache_loop (line # rest) uid max_len cache out =
     (case passwd_fields line of
        None \<Rightarrow> passwd_cache_loop rest uid max_len cache out
      | Some (user, uid_str) \<Rightarrow>
          (let line_uid = str_to_int (Some uid_str);
               cache' = (if cache_find cache line_uid = None then cache_add cache line_uid user else cache);
               out' = (if line_uid = uid then str_fit max_len user else out)
           in passwd_cache_loop rest uid max_len cache' out'))"

definition get_username_by_uid ::
  "world \<Rightarrow> int \<Rightarrow> nat \<Rightarrow> uid_cache_entry list \<Rightarrow> uid_cache_entry list \<times> string" where
  "get_username_by_uid w uid max_len cache =
     (case cache_find cache uid of
        Some u \<Rightarrow> (cache, str_fit max_len u)
      | None \<Rightarrow>
          (let (cache1, out) =
                 (case read_buf w ''/etc/passwd'' 8192 of
                    None \<Rightarrow> (cache, [])
                  | Some b \<Rightarrow> passwd_cache_loop (c_lines (c_str b)) uid max_len cache [])
           in if out = [] then (cache_add cache1 uid (dec_string uid), dec_string uid)
              else (cache1, out)))"

section \<open>Stat lines\<close>

lemma split_last_None: "split_last c s = None \<longleftrightarrow> c \<notin> set s"
  by (induction s) (auto split: option.splits)

lemma split_last_append: "c \<notin> set b \<Longrightarrow> split_last c (a @ c # b) = Some (a, b)"
proof (induction a)
  case Nil
  then have "split_last c b = None" by (simp add: split_last_None)
  then show ?case by simp
next
  case (Cons x a)
  then show ?case by simp
qed

text \<open>The fields of a stat line, separated by single spaces.\<close>

fun join_fields :: "string list \<Rightarrow> string" where
  "join_fields [] = []"
| "join_fields [f] = f"
| "join_fields (f # fs) = f @ CHR '' '' # join_fields fs"

definition plain_field :: "string \<Rightarrow> bool" where
  "plain_field f \<longleftrightarrow> f \<noteq> [] \<and> CHR '' '' \<notin> set f \<and> CHR '')'' \<notin> set f"

lemma skip_fields_word:
  "CHR '' '' \<notin> set f \<Longrightarrow> skip_fields (Suc n) (f @ CHR '' '' # rest) = skip_fields n rest"
  by (induction f) auto

lemma skip_fields_0: "skip_fields 0 s = s"
  by (cases s) auto

lemma join_fields_Cons: "fs \<noteq> [] \<Longrightarrow> join_fields (f # fs) = f @ CHR '' '' # join_fields fs"
  by (cases fs) auto

lemma skip_fields_join:
  "n < length fs \<Longrightarrow> \<forall>f\<in>set fs. plain_field f \<Longrightarrow> skip_fields n (join_fields fs) = join_fields (drop n fs)"
proof (induction n arbitrary: fs)
  case 0
  then show ?case by (simp add: skip_fields_0)
next
  case (Suc n)
  obtain f gs where fs: "fs = f # gs" "gs \<noteq> []" using Suc.prems(1) by (cases fs; cases "tl fs") auto
  then show ?case using Suc by (simp add: join_fields_Cons skip_fields_word plain_field_def)
qed

lemma join_fields_hd:
  assumes "fs \<noteq> []" "\<forall>f\<in>set fs. plain_field f"
  obtains rest where "join_fields fs = hd fs @ rest" "rest = [] \<or> hd rest = CHR '' ''"
    "tl fs \<noteq> [] \<longrightarrow> rest = CHR '' '' # join_fields (tl fs)"
  using assms that [of "[]"] that [of "CHR '' '' # join_fields (tl fs)"]
  by (cases fs; cases "tl fs") auto

lemma skip_spaces_plain: "plain_field f \<Longrightarrow> skip_spaces (f @ rest) = f @ rest"
  by (cases f) (auto simp: plain_field_def)

lemma join_fields_no_paren: "\<forall>f\<in>set fs. plain_field f \<Longrightarrow> CHR '')'' \<notin> set (join_fields fs)"
  by (induction fs rule: join_fields.induct) (auto simp: plain_field_def)

lemma drop_to_space:
  "CHR '' '' \<notin> set f \<Longrightarrow> dropWhile (\<lambda>c. c \<noteq> CHR '' '') (f @ rest) = dropWhile (\<lambda>c. c \<noteq> CHR '' '') rest"
  by (induction f) auto

lemma skip_word_join:
  assumes "1 < length fs" "\<forall>f\<in>set fs. plain_field f"
  shows "skip_word (join_fields fs) = join_fields (tl fs)"
proof -
  obtain f gs where fs: "fs = f # gs" "gs \<noteq> []" using assms(1) by (cases fs) auto
  obtain r where r: "join_fields gs = hd gs @ r"
    using join_fields_hd [of gs] assms(2) fs by auto
  have "plain_field (hd gs)" "plain_field f" using fs assms(2) by auto
  then show ?thesis
    using fs r skip_spaces_plain [of "hd gs" r] drop_to_space [of f]
    by (simp add: skip_word_def join_fields_Cons plain_field_def)
qed

definition digit_field :: "string \<Rightarrow> bool" where
  "digit_field f \<longleftrightarrow> f \<noteq> [] \<and> (\<forall>c\<in>set f. is_digit c)"

lemma digit_field_plain: "digit_field f \<Longrightarrow> plain_field f"
  by (auto simp: digit_field_def plain_field_def is_digit_def)

lemma str_to_ull_field:
  "digit_field f \<Longrightarrow> rest = [] \<or> hd rest = CHR '' '' \<Longrightarrow> str_to_ull (f @ rest) = of_int (digits_value f)"
  using str_to_ull_value [of "[]" f rest] by (auto simp: digit_field_def is_digit_def)

lemma str_to_int_field:
  "digit_field f \<Longrightarrow> rest = [] \<or> hd rest = CHR '' '' \<Longrightarrow> str_to_int (Some (f @ rest)) = c_clamp (digits_value f)"
  using str_to_int_prefix [of "[]" "[]" f rest] by (auto simp: digit_field_def is_digit_def)

lemma stat_name_line:
  assumes "CHR ''('' \<notin> set pre" "fs \<noteq> []" "\<forall>f\<in>set fs. plain_field f"
  shows "stat_name lim (pre @ CHR ''('' # name @ CHR '')'' # CHR '' '' # join_fields fs)
    = (take lim name, join_fields fs)"
proof -
  let ?b = "CHR '' '' # join_fields fs"
  have "CHR '')'' \<notin> set ?b" using join_fields_no_paren [OF assms(3)] by simp
  then have s: "split_last CHR '')'' (name @ CHR '')'' # ?b) = Some (name, ?b)"
    by (rule split_last_append)
  obtain r where r: "join_fields fs = hd fs @ r" using join_fields_hd [OF assms(2,3)] by metis
  have "plain_field (hd fs)" using assms(2,3) by (cases fs) auto
  then have "skip_spaces ?b = join_fields fs" using r skip_spaces_plain [of "hd fs" r] by simp
  then show ?thesis using s assms(1) by (simp add: stat_name_def cut_at_append)
qed

section \<open>Properties\<close>

text \<open>
  C30 (stat_line_fields). On every well-formed stat line, whatever spaces and parentheses the
  process name contains, the scanner finds the name (cut at the size of its array), the state, the
  sum of fields 14 and 15 (the times), field 24 (the resident pages) and field 7 (the terminal).
\<close>

theorem stat_line_fields:
  assumes "CHR ''('' \<notin> set pre" "22 \<le> length fs" "\<forall>f\<in>set fs. plain_field f"
    and "digit_field (fs ! 11)" "digit_field (fs ! 12)" "digit_field (fs ! 21)" "digit_field (fs ! 4)"
    and "line = pre @ CHR ''('' # name @ CHR '')'' # CHR '' '' # join_fields fs"
  shows "fst (stat_name 31 line) = take 31 name
    \<and> stat_state (snd (stat_name 31 line)) = hd (hd fs)
    \<and> stat_cpu_time (snd (stat_name 31 line)) =
        of_int (digits_value (fs ! 11)) + of_int (digits_value (fs ! 12))
    \<and> stat_rss (snd (stat_name 31 line)) = c_clamp (digits_value (fs ! 21))
    \<and> stat_tty_nr (snd (stat_name 31 line)) = c_clamp (digits_value (fs ! 4))"
proof -
  have ne: "fs \<noteq> []" using assms(2) by auto
  have n: "stat_name 31 line = (take 31 name, join_fields fs)"
    unfolding assms(8) by (rule stat_name_line [OF assms(1) ne assms(3)])
  obtain r0 where "join_fields fs = hd fs @ r0" using join_fields_hd [OF ne assms(3)] by metis
  moreover have "hd fs \<noteq> []" using ne assms(3) by (cases fs) (auto simp: plain_field_def)
  ultimately have st: "stat_state (join_fields fs) = hd (hd fs)"
    by (cases "hd fs") (auto simp: stat_state_def)
  have pl: "\<forall>f\<in>set (drop k fs). plain_field f" for k using assms(3) by (meson in_set_dropD)
  have s11: "skip_fields 11 (join_fields fs) = join_fields (drop 11 fs)"
    "skip_fields 21 (join_fields fs) = join_fields (drop 21 fs)"
    using assms(2,3) by (auto intro!: skip_fields_join)
  have d: "drop 11 fs = fs ! 11 # fs ! 12 # drop 13 fs" "drop 21 fs = fs ! 21 # drop 22 fs"
    "drop 12 fs = fs ! 12 # drop 13 fs"
    using assms(2) Cons_nth_drop_Suc [of 11 fs] Cons_nth_drop_Suc [of 12 fs] Cons_nth_drop_Suc [of 21 fs]
    by auto
  obtain r1 where r1: "join_fields (drop 12 fs) = fs ! 12 @ r1" "r1 = [] \<or> hd r1 = CHR '' ''"
    using join_fields_hd [OF _ pl [of 12]] d(3) by (metis list.sel(1) list.distinct(1))
  have c: "join_fields (drop 11 fs) = fs ! 11 @ CHR '' '' # fs ! 12 @ r1"
    using d(1,3) r1(1) join_fields_Cons [of "drop 12 fs" "fs ! 11"] by simp
  have sp: "CHR '' '' \<notin> set (fs ! 11)" using digit_field_plain [OF assms(4)] by (simp add: plain_field_def)
  have cpu: "stat_cpu_time (join_fields fs) = of_int (digits_value (fs ! 11)) + of_int (digits_value (fs ! 12))"
    using s11(1) c sp str_to_ull_field [OF assms(4), of "CHR '' '' # fs ! 12 @ r1"]
      str_to_ull_field [OF assms(5) r1(2)] drop_to_space [OF sp, of "CHR '' '' # fs ! 12 @ r1"]
    by (simp add: stat_cpu_time_def Let_def)
  obtain r2 where r2: "join_fields (drop 21 fs) = fs ! 21 @ r2" "r2 = [] \<or> hd r2 = CHR '' ''"
    using join_fields_hd [OF _ pl [of 21]] d(2) by (metis list.sel(1) list.distinct(1))
  have "fs ! 21 @ r2 \<noteq> []" using assms(6) by (simp add: digit_field_def)
  then have rss: "stat_rss (join_fields fs) = c_clamp (digits_value (fs ! 21))"
    using s11(2) r2(1) str_to_int_field [OF assms(6) r2(2)]
    by (cases "fs ! 21 @ r2") (simp_all add: stat_rss_def)
  have w: "skip_word (join_fields (drop k fs)) = join_fields (drop (Suc k) fs)" if "k \<le> 3" for k
    using skip_word_join [OF _ pl [of k]] that assms(2) by (simp add: drop_Suc tl_drop)
  have tty: "stat_tty_nr (join_fields fs) = str_to_int (Some (join_fields (drop 4 fs)))"
    using w [of 0] w [of 1] w [of 2] w [of 3] by (simp add: stat_tty_nr_def numeral_eq_Suc)
  have "drop 4 fs = fs ! 4 # drop 5 fs" using assms(2) Cons_nth_drop_Suc [of 4 fs] by simp
  then obtain r3 where r3: "join_fields (drop 4 fs) = fs ! 4 @ r3" "r3 = [] \<or> hd r3 = CHR '' ''"
    using join_fields_hd [OF _ pl [of 4]] by (metis list.sel(1) list.distinct(1))
  show ?thesis using n st cpu rss tty r3(1) str_to_int_field [OF assms(7) r3(2)] by simp
qed

theorem stat_line_fields_witness:
  "let line = ''7 (a) b (c) S 1 7 7 34816 '' @ join_fields (replicate 6 ''0'' @ [''30'', ''12''] @ replicate 8 ''0'' @ [''512''])
   in fst (stat_name 31 line) = ''a) b (c'' \<and> stat_cpu_time (snd (stat_name 31 line)) = 42
      \<and> stat_rss (snd (stat_name 31 line)) = 512 \<and> stat_tty_nr (snd (stat_name 31 line)) = 34816"
proof -
  let ?r = "replicate 6 ''0'' @ [''30'', ''12''] @ replicate 8 ''0'' @ [''512'']"
  let ?fs = "''S'' # ''1'' # ''7'' # ''7'' # ''34816'' # ?r"
  let ?l = "''7 '' @ CHR ''('' # ''a) b (c'' @ CHR '')'' # CHR '' '' # join_fields ?fs"
  have l: "''7 (a) b (c) S 1 7 7 34816 '' @ join_fields ?r = ?l" by (simp add: numeral_eq_Suc)
  have p: "\<forall>f\<in>set ?fs. plain_field f" by (simp add: plain_field_def)
  have d: "digit_field (?fs ! 11)" "digit_field (?fs ! 12)" "digit_field (?fs ! 21)" "digit_field (?fs ! 4)"
    by (simp_all add: digit_field_def is_digit_def nth_append)
  from stat_line_fields [OF _ _ p d refl, of "''7 ''" "''a) b (c''"] show ?thesis
    unfolding Let_def l
    by (simp add: nth_append digits_value_def digit_val_def c_clamp_def)
qed

section \<open>User names\<close>

text \<open>The account names that \<^verbatim>\<open>passwd\<close> lines give a user id, in the order of the file.\<close>

fun uid_users :: "string list \<Rightarrow> int \<Rightarrow> string list" where
  "uid_users [] uid = []"
| "uid_users (line # rest) uid =
     (case passwd_fields line of
        Some (user, s) \<Rightarrow> if str_to_int (Some s) = uid then user # uid_users rest uid else uid_users rest uid
      | None \<Rightarrow> uid_users rest uid)"

lemma passwd_cache_loop_out:
  "snd (passwd_cache_loop ls uid m cache out) =
     (if uid_users ls uid = [] then out else str_fit m (last (uid_users ls uid)))"
  by (induction ls uid m cache out rule: passwd_cache_loop.induct) (auto simp: Let_def split: option.splits)

lemma cache_find_add:
  "length cache < UID_CACHE_MAX \<Longrightarrow>
   cache_find (cache_add cache u n) v =
     (case cache_find cache v of Some x \<Rightarrow> Some x | None \<Rightarrow> if u = v then Some (str_fit 32 n) else None)"
proof -
  have "cache_find (cache @ [\<lparr>uc_uid = u, uc_username = str_fit 32 n\<rparr>]) v =
     (case cache_find cache v of Some x \<Rightarrow> Some x | None \<Rightarrow> if u = v then Some (str_fit 32 n) else None)"
    by (induction cache) auto
  then show "length cache < UID_CACHE_MAX \<Longrightarrow> ?thesis" by (simp add: cache_add_def)
qed

lemma cache_add_length: "length (cache_add cache u n) \<le> Suc (length cache)"
  by (simp add: cache_add_def)

lemma passwd_cache_loop_cache:
  assumes "length cache + length ls < UID_CACHE_MAX"
  shows "cache_find (fst (passwd_cache_loop ls uid m cache out)) v =
    (case cache_find cache v of
       Some x \<Rightarrow> Some x
     | None \<Rightarrow> (case uid_users ls v of [] \<Rightarrow> None | n # _ \<Rightarrow> Some (str_fit 32 n)))"
  using assms
proof (induction ls uid m cache out rule: passwd_cache_loop.induct)
  case (1 uid m cache out)
  then show ?case by (auto split: option.splits)
next
  case (2 line rest uid m cache out)
  show ?case
  proof (cases "passwd_fields line")
    case None
    then show ?thesis using 2 by (cases "cache_find cache v") simp_all
  next
    case (Some p)
    obtain user s where p: "p = (user, s)" by fastforce
    let ?u = "str_to_int (Some s)"
    let ?c = "if cache_find cache ?u = None then cache_add cache ?u user else cache"
    have "length ?c + length rest < UID_CACHE_MAX"
      using "2.prems" cache_add_length [of cache ?u user] by (auto split: if_splits)
    from "2.IH"(2) [OF Some p [symmetric] refl refl refl this] show ?thesis
      using Some p "2.prems" by (auto simp: Let_def cache_find_add split: option.splits)
  qed
qed

text \<open>
  Asked for a user id for the first time, the cache answers with
  the last matching account of \<^verbatim>\<open>/etc/passwd\<close>; asked again, with the first one. Both calls
  agree for every id that only one account has.
\<close>

theorem username_cold_then_cached:
  assumes "read_buf w ''/etc/passwd'' 8192 = Some b" "ms = uid_users (c_lines (c_str b)) uid"
    and "ms \<noteq> []" "last ms \<noteq> []" "cache_find cache uid = None"
    and "length cache + length (c_lines (c_str b)) < UID_CACHE_MAX"
  shows "snd (get_username_by_uid w uid 32 cache) = str_fit 32 (last ms)
    \<and> snd (get_username_by_uid w uid 32 (fst (get_username_by_uid w uid 32 cache))) = str_fit 32 (hd ms)"
proof -
  let ?ls = "c_lines (c_str b)"
  obtain c1 o1 where l: "passwd_cache_loop ?ls uid 32 cache [] = (c1, o1)" by fastforce
  have o1: "o1 = str_fit 32 (last ms)"
    using passwd_cache_loop_out [of ?ls uid 32 cache "[]"] l assms(2,3) by simp
  have "o1 \<noteq> []" using o1 assms(4) by (cases "last ms") (auto simp: str_fit_def)
  then have g: "get_username_by_uid w uid 32 cache = (c1, o1)"
    using assms(1,5) l by (simp add: get_username_by_uid_def)
  have "cache_find c1 uid = Some (str_fit 32 (hd ms))"
    using passwd_cache_loop_cache [OF assms(6), of uid 32 "[]" uid] l assms(2,3,5)
    by (auto split: list.splits)
  then have "snd (get_username_by_uid w uid 32 c1) = str_fit 32 (str_fit 32 (hd ms))"
    by (simp add: get_username_by_uid_def)
  then show ?thesis using g o1 by (simp add: str_fit_def min_def)
qed

definition passwd_world :: "string \<Rightarrow> world" where
  "passwd_world s = \<lparr>w_getenv = (\<lambda>_. None), w_file = (\<lambda>p. if p = ''/etc/passwd'' then Some s else None),
     w_dir = (\<lambda>_. None), w_stat_uid = (\<lambda>_. None), w_getpwuid = (\<lambda>_. None), w_run = (\<lambda>_. None)\<rparr>"

theorem username_cold_then_cached_witness:
  "snd (get_username_by_uid (passwd_world ''joe:x:1000:1000:\<newline>toor:x:1000:0:\<newline>'') 1000 32 []) = ''toor''"
proof -
  let ?s = "''joe:x:1000:1000:\<newline>toor:x:1000:0:\<newline>''"
  let ?w = "passwd_world ?s"
  have r: "read_buf ?w ''/etc/passwd'' 8192 = Some ?s" by (simp add: read_buf_def passwd_world_def)
  have m: "[''joe'', ''toor''] = uid_users (c_lines (c_str ?s)) 1000" by code_simp
  have l: "length (c_lines (c_str ?s)) = 2" by code_simp
  from username_cold_then_cached [OF r m, of "[]"] l show ?thesis by (simp add: UID_CACHE_MAX_def str_fit_def)
qed

end
