(* ===== verification/Tables.thy ===== *)
theory Tables
  imports Prelude
begin

text \<open>
  The two fixed-size data structures of the task manager (\<^verbatim>\<open>src/cad_rescue_gui.c\<close>), which allocates
  nothing: the open-addressing table that remembers the processor time of each process between two
  scans, and the ranked arrays of the top processes with their insertion code.

  The locale \<open>pid_map\<close> is what the scan relies on from the table, the locale \<open>ranking\<close> the
  contract of the insertion code for any ranking key; both are interpreted on the model.
\<close>

section \<open>Process time table\<close>

text \<open>
  A slot holds a process id, 0 when it is free, and a time. Probing starts at \<^verbatim>\<open>pid % HIST_SIZE\<close>
  and goes round; the argument \<open>n\<close> counts the slots not visited yet, so that the test
  \<^verbatim>\<open>slot == start_slot\<close> is \<open>n = 0\<close>.
\<close>

type_synonym hist = "(int \<times> 64 word) list"

definition HIST_SIZE :: nat where "HIST_SIZE = 16384"

definition hist_home :: "hist \<Rightarrow> int \<Rightarrow> nat" where
  "hist_home tbl pid = nat pid mod length tbl"

fun hist_find_loop :: "hist \<Rightarrow> int \<Rightarrow> nat \<Rightarrow> nat \<Rightarrow> 64 word option" where
  "hist_find_loop tbl pid slot 0 = None"
| "hist_find_loop tbl pid slot (Suc n) =
     (if fst (tbl ! slot) = 0 then None
      else if fst (tbl ! slot) = pid then Some (snd (tbl ! slot))
      else hist_find_loop tbl pid (Suc slot mod length tbl) n)"

definition hist_find :: "hist \<Rightarrow> int \<Rightarrow> 64 word option" where
  "hist_find tbl pid = hist_find_loop tbl pid (hist_home tbl pid) (length tbl)"

fun hist_free_loop :: "hist \<Rightarrow> nat \<Rightarrow> nat \<Rightarrow> nat option" where
  "hist_free_loop tbl slot 0 = None"
| "hist_free_loop tbl slot (Suc n) =
     (if fst (tbl ! slot) = 0 then Some slot
      else hist_free_loop tbl (Suc slot mod length tbl) n)"

definition hist_insert :: "hist \<Rightarrow> int \<Rightarrow> 64 word \<Rightarrow> hist" where
  "hist_insert tbl pid t =
     (case hist_free_loop tbl (hist_home tbl pid) (length tbl) of
        None \<Rightarrow> tbl
      | Some slot \<Rightarrow> tbl[slot := (pid, t)])"

definition hist_clear :: "hist \<Rightarrow> hist" where
  "hist_clear tbl = map (\<lambda>(p, t). (0, t)) tbl"

subsection \<open>Invariant\<close>

text \<open>
  Every stored process is reached from its home slot through occupied slots, and no process is
  stored twice.
\<close>

definition probe_at :: "hist \<Rightarrow> nat \<Rightarrow> nat \<Rightarrow> int" where
  "probe_at tbl h k = fst (tbl ! ((h + k) mod length tbl))"

definition hist_ok :: "hist \<Rightarrow> bool" where
  "hist_ok tbl \<longleftrightarrow> tbl \<noteq> []
     \<and> (\<forall>s<length tbl. fst (tbl ! s) \<noteq> 0 \<longrightarrow>
          (\<exists>k<length tbl. s = (hist_home tbl (fst (tbl ! s)) + k) mod length tbl
             \<and> (\<forall>j<k. probe_at tbl (hist_home tbl (fst (tbl ! s))) j \<noteq> 0)))
     \<and> (\<forall>s<length tbl. \<forall>s'<length tbl. fst (tbl ! s) \<noteq> 0 \<longrightarrow> fst (tbl ! s) = fst (tbl ! s') \<longrightarrow> s = s')"

definition hist_room :: "hist \<Rightarrow> nat" where
  "hist_room tbl = length (filter (\<lambda>e. fst e = 0) tbl)"

lemma hist_home_lt: "tbl \<noteq> [] \<Longrightarrow> hist_home tbl p < length tbl"
  by (simp add: hist_home_def)

lemma slot_lt:
  assumes "(h :: nat) < length tbl"
  shows "x mod length tbl < length tbl"
proof -
  have "0 < length tbl" using assms by linarith
  then show ?thesis by (rule mod_less_divisor)
qed

lemma probe_distinct:
  fixes h :: nat
  assumes "j < k" "k < n"
  shows "(h + j) mod n \<noteq> (h + k) mod n"
proof
  assume "(h + j) mod n = (h + k) mod n"
  then have "n dvd (h + k) - (h + j)" using assms(1) mod_eq_dvd_iff_nat [of "h + j" "h + k" n] by simp
  then show False using assms by (auto dest: dvd_imp_le)
qed

lemma probe_at_Suc: "probe_at tbl (Suc h mod length tbl) k = probe_at tbl h (Suc k)"
  by (simp add: probe_at_def mod_simps)

lemma probe_at_0: "h < length tbl \<Longrightarrow> probe_at tbl h 0 = fst (tbl ! h)"
  by (simp add: probe_at_def)

lemma hist_find_loop_hit:
  assumes "h < length tbl" "k < n" "probe_at tbl h k = p" "\<forall>j<k. probe_at tbl h j \<noteq> 0 \<and> probe_at tbl h j \<noteq> p" "p \<noteq> 0"
  shows "hist_find_loop tbl p h n = Some (snd (tbl ! ((h + k) mod length tbl)))"
  using assms
proof (induction n arbitrary: h k)
  case 0
  then show ?case by simp
next
  case (Suc n)
  show ?case
  proof (cases k)
    case 0
    then show ?thesis using Suc.prems by (simp add: probe_at_0)
  next
    case (Suc k')
    let ?h = "Suc h mod length tbl"
    have "probe_at tbl h 0 \<noteq> 0 \<and> probe_at tbl h 0 \<noteq> p" using Suc.prems(4) Suc by blast
    then have n0: "fst (tbl ! h) \<noteq> 0" "fst (tbl ! h) \<noteq> p" using Suc.prems(1) by (simp_all add: probe_at_0)
    have "hist_find_loop tbl p ?h n = Some (snd (tbl ! ((?h + k') mod length tbl)))"
    proof (rule Suc.IH)
      show "\<forall>j<k'. probe_at tbl ?h j \<noteq> 0 \<and> probe_at tbl ?h j \<noteq> p"
        using Suc.prems(4) Suc by (auto simp: probe_at_Suc)
    qed (use Suc.prems Suc in \<open>auto simp: probe_at_Suc slot_lt\<close>)
    then show ?thesis using n0 Suc by (simp add: mod_simps)
  qed
qed

lemma hist_find_loop_miss:
  "h < length tbl \<Longrightarrow> \<forall>s<length tbl. fst (tbl ! s) \<noteq> p \<Longrightarrow> hist_find_loop tbl p h n = None"
  by (induction n arbitrary: h) (auto simp: slot_lt)

lemma hist_find_stored:
  assumes "hist_ok tbl" "s < length tbl" "fst (tbl ! s) = p" "p \<noteq> 0"
  shows "hist_find tbl p = Some (snd (tbl ! s))"
proof -
  let ?h = "hist_home tbl p"
  obtain k where k: "k < length tbl" "s = (?h + k) mod length tbl" "\<forall>j<k. probe_at tbl ?h j \<noteq> 0"
    using assms by (auto simp: hist_ok_def)
  have uniq: "s' = s" if "s' < length tbl" "fst (tbl ! s') = p" for s'
    using assms that unfolding hist_ok_def by metis
  have "probe_at tbl ?h j \<noteq> p" if "j < k" for j
  proof
    assume "probe_at tbl ?h j = p"
    then have "(?h + j) mod length tbl = (?h + k) mod length tbl"
      using uniq [of "(?h + j) mod length tbl"] k(2) slot_lt [OF assms(2)] by (simp add: probe_at_def)
    then show False using probe_distinct [OF that k(1)] by simp
  qed
  then have "hist_find_loop tbl p ?h (length tbl) = Some (snd (tbl ! ((?h + k) mod length tbl)))"
    using k assms by (intro hist_find_loop_hit) (auto simp: hist_home_lt hist_ok_def probe_at_def)
  then show ?thesis using k(2) by (simp add: hist_find_def)
qed

lemma hist_find_absent:
  assumes "tbl \<noteq> []" "\<forall>s<length tbl. fst (tbl ! s) \<noteq> p"
  shows "hist_find tbl p = None"
  unfolding hist_find_def by (rule hist_find_loop_miss [OF hist_home_lt [OF assms(1)] assms(2)])

lemma hist_find_iff:
  assumes "hist_ok tbl" "p \<noteq> 0"
  shows "hist_find tbl p = Some t \<longleftrightarrow> (\<exists>s<length tbl. tbl ! s = (p, t))"
proof (cases "\<exists>s<length tbl. fst (tbl ! s) = p")
  case True
  then obtain s where s: "s < length tbl" "fst (tbl ! s) = p" by blast
  have "s' = s" if "s' < length tbl" "fst (tbl ! s') = p" for s'
    using assms s that unfolding hist_ok_def by metis
  then show ?thesis using hist_find_stored [OF assms(1) s assms(2)] s by (metis fst_conv prod.collapse snd_conv option.inject)
next
  case False
  then have "hist_find tbl p = None" using assms(1) by (intro hist_find_absent) (auto simp: hist_ok_def)
  then show ?thesis using False by (metis fst_conv option.distinct(1))
qed

lemma hist_free_loop_spec:
  assumes "h < length tbl" "hist_free_loop tbl h n = Some s"
  shows "\<exists>k<n. s = (h + k) mod length tbl \<and> probe_at tbl h k = 0 \<and> (\<forall>j<k. probe_at tbl h j \<noteq> 0)"
  using assms
proof (induction n arbitrary: h)
  case 0
  then show ?case by simp
next
  case (Suc n)
  show ?case
  proof (cases "fst (tbl ! h) = 0")
    case True
    then show ?thesis using Suc.prems by (intro exI [of _ 0]) (auto simp: probe_at_0)
  next
    case False
    then have "hist_free_loop tbl (Suc h mod length tbl) n = Some s" using Suc.prems by simp
    then obtain k where k: "k < n" "s = (Suc h mod length tbl + k) mod length tbl"
      "probe_at tbl h (Suc k) = 0" "\<forall>j<k. probe_at tbl h (Suc j) \<noteq> 0"
      using Suc.IH [OF slot_lt [OF Suc.prems(1), of "Suc h"]] by (auto simp: probe_at_Suc)
    have "\<forall>j<Suc k. probe_at tbl h j \<noteq> 0"
      using k(4) False probe_at_0 [OF Suc.prems(1)] by (metis less_Suc_eq_0_disj)
    then show ?thesis using k by (intro exI [of _ "Suc k"]) (auto simp: mod_simps)
  qed
qed

lemma hist_free_loop_None:
  "h < length tbl \<Longrightarrow> hist_free_loop tbl h n = None \<Longrightarrow> j < n \<Longrightarrow> probe_at tbl h j \<noteq> 0"
proof (induction n arbitrary: h j)
  case (Suc n)
  then show ?case
    using Suc.IH [of "Suc h mod length tbl" "j - 1"] slot_lt [of h tbl "Suc h"]
    by (cases j) (auto simp: probe_at_0 probe_at_Suc split: if_splits)
qed simp

lemma hist_insert_slot:
  assumes "hist_ok tbl" "0 < hist_room tbl"
  obtains k where "k < length tbl" "probe_at tbl (hist_home tbl p) k = 0"
    "\<forall>j<k. probe_at tbl (hist_home tbl p) j \<noteq> 0"
    "hist_insert tbl p t = tbl[(hist_home tbl p + k) mod length tbl := (p, t)]"
proof -
  let ?h = "hist_home tbl p"
  have ne: "tbl \<noteq> []" using assms(1) by (simp add: hist_ok_def)
  have h: "?h < length tbl" using ne by (rule hist_home_lt)
  show thesis
  proof (cases "hist_free_loop tbl ?h (length tbl)")
    case (Some s)
    from hist_free_loop_spec [OF h Some] show ?thesis
      using Some by (auto intro: that simp: hist_insert_def)
  next
    case None
    obtain e where "e \<in> set tbl" "fst e = 0" using assms(2) by (auto simp: hist_room_def filter_empty_conv)
    then obtain s where s: "s < length tbl" "fst (tbl ! s) = 0" by (metis in_set_conv_nth)
    define j where "j = (s + length tbl - ?h) mod length tbl"
    have "(?h + j) mod length tbl = (?h + (s + length tbl - ?h)) mod length tbl"
      by (simp add: j_def mod_simps)
    also have "\<dots> = s" using s h by simp
    finally have "probe_at tbl ?h j = 0" using s by (simp add: probe_at_def)
    moreover have "j < length tbl" using slot_lt [OF h] by (simp add: j_def)
    ultimately show ?thesis using hist_free_loop_None [OF h None] by blast
  qed
qed

lemma hist_home_update [simp]: "hist_home (tbl[s := v]) p = hist_home tbl p"
  by (simp add: hist_home_def)

lemma probe_at_update:
  "s < length tbl \<Longrightarrow> probe_at (tbl[s := (p, t)]) h k =
     (if (h + k) mod length tbl = s then p else probe_at tbl h k)"
  by (auto simp: probe_at_def nth_list_update)

lemma hist_insert_ok:
  assumes "hist_ok tbl" "0 < hist_room tbl" "p \<noteq> 0" "hist_find tbl p = None"
  shows "hist_ok (hist_insert tbl p t)
    \<and> (\<exists>s<length tbl. fst (tbl ! s) = 0 \<and> hist_insert tbl p t = tbl[s := (p, t)])"
proof -
  let ?h = "hist_home tbl p"
  obtain k where k: "k < length tbl" "probe_at tbl ?h k = 0" "\<forall>j<k. probe_at tbl ?h j \<noteq> 0"
    "hist_insert tbl p t = tbl[(?h + k) mod length tbl := (p, t)]"
    using hist_insert_slot [OF assms(1,2)] by metis
  let ?s = "(?h + k) mod length tbl" let ?n = "tbl[?s := (p, t)]"
  have s: "?s < length tbl" "fst (tbl ! ?s) = 0" using slot_lt [OF k(1)] k(2) by (simp_all add: probe_at_def)
  have absent: "\<forall>s'<length tbl. fst (tbl ! s') \<noteq> p"
    using hist_find_stored [OF assms(1) _ _ assms(3)] assms(4) by force
  have keep: "probe_at ?n h j \<noteq> 0" if "probe_at tbl h j \<noteq> 0" for h j
    using that assms(3) by (simp add: probe_at_update [OF s(1)])
  have reach: "\<exists>k'<length tbl. s' = (hist_home tbl (fst (?n ! s')) + k') mod length tbl
      \<and> (\<forall>j<k'. probe_at ?n (hist_home tbl (fst (?n ! s'))) j \<noteq> 0)"
    if "s' < length tbl" "fst (?n ! s') \<noteq> 0" for s'
  proof (cases "s' = ?s")
    case True
    then show ?thesis using k(1,3) s(1) keep by (intro exI [of _ k]) auto
  next
    case False
    then have "?n ! s' = tbl ! s'" by simp
    moreover then have "\<exists>k'<length tbl. s' = (hist_home tbl (fst (tbl ! s')) + k') mod length tbl
        \<and> (\<forall>j<k'. probe_at tbl (hist_home tbl (fst (tbl ! s'))) j \<noteq> 0)"
      using assms(1) that by (auto simp: hist_ok_def)
    ultimately show ?thesis using keep by metis
  qed
  have uniq: "s1 = s2" if "s1 < length tbl" "s2 < length tbl" "fst (?n ! s1) \<noteq> 0" "fst (?n ! s1) = fst (?n ! s2)" for s1 s2
  proof -
    have "fst (?n ! x) = (if x = ?s then p else fst (tbl ! x))" if "x < length tbl" for x
      using that by (simp add: nth_list_update)
    then show ?thesis using that absent assms(1) unfolding hist_ok_def by (metis (no_types, lifting))
  qed
  have "hist_ok ?n" unfolding hist_ok_def
    using reach uniq k(1) by (auto simp del: nth_list_update_eq nth_list_update)
  then show ?thesis using k(4) s by auto
qed

lemma hist_room_insert:
  assumes "s < length tbl" "fst (tbl ! s) = 0" "p \<noteq> 0"
  shows "Suc (hist_room (tbl[s := (p, t)])) = hist_room tbl"
proof -
  have tb: "tbl = take s tbl @ tbl ! s # drop (Suc s) tbl" using assms(1) by (simp add: id_take_nth_drop)
  have "hist_room (tbl[s := (p, t)]) = hist_room (take s tbl) + hist_room (drop (Suc s) tbl)"
    using assms by (simp add: upd_conv_take_nth_drop hist_room_def)
  moreover have "hist_room tbl = hist_room (take s tbl) + Suc (hist_room (drop (Suc s) tbl))"
    using assms(2) by (subst tb) (simp add: hist_room_def del: append_take_drop_id)
  ultimately show ?thesis by simp
qed

subsection \<open>The table as a map\<close>

text \<open>What the process scan needs of the table, and what follows for a whole scan.\<close>

locale pid_map =
  fixes find :: "'t \<Rightarrow> int \<Rightarrow> 'v option"
    and ins :: "'t \<Rightarrow> int \<Rightarrow> 'v \<Rightarrow> 't"
    and ok :: "'t \<Rightarrow> bool"
    and room :: "'t \<Rightarrow> nat"
  assumes ins_ok: "ok t \<Longrightarrow> 0 < room t \<Longrightarrow> p \<noteq> 0 \<Longrightarrow> find t p = None \<Longrightarrow> ok (ins t p v)"
    and ins_room: "ok t \<Longrightarrow> 0 < room t \<Longrightarrow> p \<noteq> 0 \<Longrightarrow> find t p = None \<Longrightarrow> Suc (room (ins t p v)) = room t"
    and find_ins: "ok t \<Longrightarrow> 0 < room t \<Longrightarrow> p \<noteq> 0 \<Longrightarrow> find t p = None \<Longrightarrow> q \<noteq> 0 \<Longrightarrow>
      find (ins t p v) q = (if q = p then Some v else find t q)"
begin

lemma find_fold_ins:
  assumes "ok t" "length kvs \<le> room t" "distinct (map fst kvs)" "0 \<notin> fst ` set kvs"
    and "\<forall>p\<in>fst ` set kvs. find t p = None" "q \<noteq> 0"
  shows "find (foldl (\<lambda>t (p, v). ins t p v) t kvs) q =
    (case map_of kvs q of Some v \<Rightarrow> Some v | None \<Rightarrow> find t q)"
  using assms
proof (induction kvs arbitrary: t)
  case Nil
  then show ?case by simp
next
  case (Cons kv kvs)
  obtain p v where kv: "kv = (p, v)" by fastforce
  have p: "p \<noteq> 0" "find t p = None" "0 < room t" using Cons.prems kv by auto
  have f: "find (ins t p v) r = (if r = p then Some v else find t r)" if "r \<noteq> 0" for r
    using find_ins [OF Cons.prems(1) p(3,1,2) that] .
  have "find (foldl (\<lambda>t (p, v). ins t p v) (ins t p v) kvs) q =
      (case map_of kvs q of Some v \<Rightarrow> Some v | None \<Rightarrow> find (ins t p v) q)"
  proof (rule Cons.IH)
    show "ok (ins t p v)" using ins_ok Cons.prems(1) p by blast
    show "length kvs \<le> room (ins t p v)" using ins_room [OF Cons.prems(1) p(3,1,2), of v] Cons.prems(2) by simp
    show "\<forall>r\<in>fst ` set kvs. find (ins t p v) r = None"
    proof
      fix r assume r: "r \<in> fst ` set kvs"
      have "r \<noteq> 0" "r \<noteq> p" "find t r = None" using Cons.prems(3,4,5) kv r by (auto simp: image_iff)
      then show "find (ins t p v) r = None" using f by simp
    qed
  qed (use Cons.prems in auto)
  moreover have "map_of kvs p = None" using Cons.prems(3) kv by (simp add: map_of_eq_None_iff)
  ultimately show ?case using kv f [OF Cons.prems(6)] by (auto split: option.splits)
qed

end

interpretation hist: pid_map hist_find hist_insert hist_ok hist_room
proof
  fix t :: hist and p q :: int and v :: "64 word"
  assume a: "hist_ok t" "0 < hist_room t" "p \<noteq> 0" "hist_find t p = None"
  obtain s where s: "s < length t" "fst (t ! s) = 0" "hist_insert t p v = t[s := (p, v)]"
    and ok: "hist_ok (hist_insert t p v)" using hist_insert_ok [OF a] by blast
  show "hist_ok (hist_insert t p v)" by (rule ok)
  show "Suc (hist_room (hist_insert t p v)) = hist_room t" using s a(3) by (simp add: hist_room_insert)
  assume q: "q \<noteq> 0"
  show "hist_find (hist_insert t p v) q = (if q = p then Some v else hist_find t q)"
  proof (cases "q = p")
    case True
    then show ?thesis using hist_find_iff [OF ok q, of v] s(1,3) by auto
  next
    case False
    have "(\<exists>i<length t. t[s := (p, v)] ! i = (q, x)) \<longleftrightarrow> (\<exists>i<length t. t ! i = (q, x))" for x
      using s(1,2) q False by (metis fst_conv nth_list_update)
    then have "hist_find (hist_insert t p v) q = Some x \<longleftrightarrow> hist_find t q = Some x" for x
      using hist_find_iff [OF ok q, of x] hist_find_iff [OF a(1) q, of x] s(3) by simp
    then show ?thesis using False by (cases "hist_find t q") auto
  qed
qed

lemma hist_clear_ok:
  assumes "tbl \<noteq> []"
  shows "hist_ok (hist_clear tbl) \<and> hist_room (hist_clear tbl) = length tbl \<and> hist_find (hist_clear tbl) p = None"
proof -
  have z: "fst (hist_clear tbl ! s) = 0" if "s < length tbl" for s
    using that by (simp add: hist_clear_def split: prod.splits)
  have l: "length (hist_clear tbl) = length tbl" by (simp add: hist_clear_def)
  have "hist_clear tbl \<noteq> []" using assms by (simp add: hist_clear_def)
  then have "fst (hist_clear tbl ! hist_home (hist_clear tbl) p) = 0"
    using z hist_home_lt [of "hist_clear tbl" p] l by simp
  then have "hist_find (hist_clear tbl) p = None"
    by (cases "length (hist_clear tbl)") (auto simp: hist_find_def)
  moreover have "hist_room (hist_clear tbl) = length tbl"
    by (simp add: hist_room_def hist_clear_def filter_id_conv case_prod_unfold o_def filter_map)
  moreover have "hist_ok (hist_clear tbl)" using z l assms by (auto simp: hist_ok_def hist_clear_def)
  ultimately show ?thesis by simp
qed

section \<open>Ranked arrays\<close>

definition MAX_TOP_PROCS :: nat where "MAX_TOP_PROCS = 15"

text \<open>\<^verbatim>\<open>while (insert_idx > 0 && key(p) > key(scan[insert_idx - 1])) insert_idx--;\<close>\<close>

fun rank_idx :: "('a \<Rightarrow> int) \<Rightarrow> 'a \<Rightarrow> 'a list \<Rightarrow> nat \<Rightarrow> nat" where
  "rank_idx key p xs 0 = 0"
| "rank_idx key p xs (Suc i) = (if key p > key (xs ! i) then rank_idx key p xs i else Suc i)"

text \<open>\<^verbatim>\<open>for (i = MAX_TOP_PROCS - 1; i > insert_idx; i--) scan[i] = scan[i - 1];\<close>\<close>

fun shift_down :: "nat \<Rightarrow> nat \<Rightarrow> 'a list \<Rightarrow> 'a list" where
  "shift_down idx 0 xs = xs"
| "shift_down idx (Suc i) xs = (if Suc i > idx then shift_down idx i (xs[Suc i := xs ! i]) else xs)"

definition top_insert :: "('a \<Rightarrow> int) \<Rightarrow> 'a \<Rightarrow> 'a list \<times> nat \<Rightarrow> 'a list \<times> nat" where
  "top_insert key p xn =
     (case xn of (xs, num) \<Rightarrow>
        if key p > key (xs ! (length xs - 1))
        then (let idx = rank_idx key p xs (length xs - 1)
              in ((shift_down idx (length xs - 1) xs)[idx := p],
                  if num < length xs then Suc num else num))
        else (xs, num))"

subsection \<open>Specification\<close>

text \<open>Insertion behind all entries with at least the same key, in a list ordered by falling key.\<close>

fun rank_in :: "('a \<Rightarrow> int) \<Rightarrow> 'a \<Rightarrow> 'a list \<Rightarrow> 'a list" where
  "rank_in key p [] = [p]"
| "rank_in key p (x # xs) = (if key p > key x then p # x # xs else x # rank_in key p xs)"

text \<open>All of \<open>ps\<close> ordered by falling key, equal keys in the order of arrival.\<close>

definition ranked :: "('a \<Rightarrow> int) \<Rightarrow> 'a list \<Rightarrow> 'a list" where
  "ranked key ps = foldl (\<lambda>xs p. rank_in key p xs) [] ps"

lemma shift_down_eq:
  assumes "idx \<le> i" "i < length xs"
  shows "shift_down idx i xs = take (Suc idx) xs @ take (i - idx) (drop idx xs) @ drop (Suc i) xs"
  using assms
proof (induction idx i xs rule: shift_down.induct)
  case (1 idx xs)
  then show ?case by simp
next
  case (2 idx i xs)
  show ?case
  proof (cases "idx \<le> i")
    case True
    let ?xs = "xs[Suc i := xs ! i]"
    have "shift_down idx i ?xs = take (Suc idx) ?xs @ take (i - idx) (drop idx ?xs) @ drop (Suc i) ?xs"
      using "2.IH" True "2.prems" by simp
    also have "take (Suc idx) ?xs = take (Suc idx) xs" using True by simp
    also have "take (i - idx) (drop idx ?xs) = take (i - idx) (drop idx xs)"
      using True by (simp add: drop_update_swap)
    also have "drop (Suc i) ?xs = xs ! i # drop (Suc (Suc i)) xs"
      using "2.prems" by (simp add: drop_update_swap Cons_nth_drop_Suc [symmetric])
    finally have "shift_down idx (Suc i) xs = take (Suc idx) xs
        @ (take (i - idx) (drop idx xs) @ [xs ! i]) @ drop (Suc (Suc i)) xs" using True by simp
    moreover have "take (i - idx) (drop idx xs) @ [xs ! i] = take (Suc i - idx) (drop idx xs)"
      using True "2.prems" by (simp add: Suc_diff_le take_Suc_conv_app_nth)
    ultimately show ?thesis by simp
  next
    case False
    then have "idx = Suc i" using "2.prems" by simp
    then show ?thesis by simp
  qed
qed

abbreviation falling :: "('a \<Rightarrow> int) \<Rightarrow> 'a list \<Rightarrow> bool" where
  "falling key xs \<equiv> sorted_wrt (\<lambda>x y. key x \<ge> key y) xs"

lemma rank_in_split:
  "falling key xs \<Longrightarrow> rank_in key p xs =
     takeWhile (\<lambda>x. key x \<ge> key p) xs @ p # dropWhile (\<lambda>x. key x \<ge> key p) xs"
  by (induction xs) auto

lemma set_rank_in [simp]: "set (rank_in key p xs) = insert p (set xs)"
  by (induction xs) auto

lemma length_rank_in [simp]: "length (rank_in key p xs) = Suc (length xs)"
  by (induction xs) auto

lemma falling_rank_in: "falling key xs \<Longrightarrow> falling key (rank_in key p xs)"
  by (induction xs) auto

lemma rank_idx_spec:
  assumes "falling key xs" "i \<le> length xs"
  shows "rank_idx key p xs i = min i (length (takeWhile (\<lambda>x. key x \<ge> key p) xs))"
  using assms(2)
proof (induction i)
  case 0
  then show ?case by simp
next
  case (Suc i)
  let ?w = "takeWhile (\<lambda>x. key x \<ge> key p) xs"
  show ?case
  proof (cases "key p > key (xs ! i)")
    case True
    then have "length ?w \<le> i"
      by (metis linorder_not_le nth_mem set_takeWhileD takeWhile_nth)
    then show ?thesis using True Suc by simp
  next
    case False
    have "i < length ?w"
    proof (rule ccontr)
      assume "\<not> i < length ?w"
      then have l: "length ?w \<le> i" "length ?w < length xs" using Suc.prems by auto
      then have "\<not> key (xs ! length ?w) \<ge> key p" using nth_length_takeWhile [of _ xs] by blast
      moreover have "key (xs ! i) \<le> key (xs ! length ?w)"
        using assms(1) l Suc.prems by (cases "length ?w = i") (auto simp: sorted_wrt_iff_nth_less)
      ultimately show False using False by simp
    qed
    then show ?thesis using False by simp
  qed
qed

lemma rank_idx_below: "rank_idx key p xs i \<le> i"
  by (induction i) auto

lemma top_insert_rank:
  assumes "falling key xs" "xs \<noteq> []"
  shows "fst (top_insert key p (xs, num)) = take (length xs) (rank_in key p xs)"
proof -
  let ?n = "length xs" and ?w = "takeWhile (\<lambda>x. key x \<ge> key p) xs"
  have sp: "rank_in key p xs = ?w @ p # drop (length ?w) xs"
    using rank_in_split [OF assms(1)] by (simp add: dropWhile_eq_drop)
  have tw: "take (length ?w) xs = ?w" by (simp add: takeWhile_eq_take [symmetric])
  show ?thesis
  proof (cases "key p > key (xs ! (?n - 1))")
    case True
    have lt: "length ?w < ?n"
    proof (rule ccontr)
      assume "\<not> length ?w < ?n"
      then have "?w = xs" using length_takeWhile_le [of _ xs] by (metis le_antisym not_le takeWhile_eq_take take_all)
      then have "key p \<le> key (xs ! (?n - 1))"
        using assms(2) by (metis diff_less length_greater_0_conv nth_mem set_takeWhileD zero_less_one)
      then show False using True by simp
    qed
    have idx: "rank_idx key p xs (?n - 1) = length ?w"
      using rank_idx_spec [OF assms(1), of "?n - 1" p] lt by simp
    let ?i = "length ?w"
    have "shift_down ?i (?n - 1) xs = take (Suc ?i) xs @ take (?n - 1 - ?i) (drop ?i xs)"
      using shift_down_eq [of ?i "?n - 1" xs] lt by simp
    then have "(shift_down ?i (?n - 1) xs)[?i := p] = take ?i xs @ p # take (?n - 1 - ?i) (drop ?i xs)"
      using lt by (simp add: take_Suc_conv_app_nth list_update_append)
    also have "\<dots> = take ?n (rank_in key p xs)"
      using lt tw sp by (simp add: take_Cons' Suc_diff_Suc)
    finally show ?thesis using True idx by (simp add: top_insert_def)
  next
    case False
    have "?w = xs"
    proof (rule takeWhile_eq_all_conv [THEN iffD2], rule ballI)
      fix x assume "x \<in> set xs"
      then obtain j where j: "j < ?n" "x = xs ! j" by (metis in_set_conv_nth)
      have "key (xs ! (?n - 1)) \<le> key (xs ! j)"
        using assms j by (cases "j = ?n - 1") (auto simp: sorted_wrt_iff_nth_less)
      then show "key x \<ge> key p" using False j by simp
    qed
    then have "rank_in key p xs = xs @ [p]" using sp by (simp only:) simp
    then show ?thesis using False by (simp add: top_insert_def)
  qed
qed

lemma take_rank_in:
  assumes "falling key ys"
  shows "take n (rank_in key p (take n ys)) = take n (rank_in key p ys)"
proof (induction ys arbitrary: n)
  case Nil
  then show ?case by simp
next
  case (Cons y ys)
  then show ?case by (cases n) (auto simp: take_Cons')
qed

lemma rank_in_bottoms:
  "\<forall>y\<in>set bs. key p > key y \<Longrightarrow> rank_in key p (ys @ bs) = rank_in key p ys @ bs"
  by (induction ys) (auto split: list.splits, cases bs, auto)

lemma ranked_snoc: "ranked key (ps @ [p]) = rank_in key p (ranked key ps)"
  by (simp add: ranked_def)

lemma falling_ranked: "falling key (ranked key ps)"
  by (induction ps rule: rev_induct) (auto simp: ranked_snoc falling_rank_in, simp add: ranked_def)

lemma mset_rank_in [simp]: "mset (rank_in key p xs) = add_mset p (mset xs)"
  by (induction xs) auto

lemma mset_ranked: "mset (ranked key ps) = mset ps"
  by (induction ps rule: rev_induct) (auto simp: ranked_snoc, simp add: ranked_def)

lemma length_ranked [simp]: "length (ranked key ps) = length ps"
  by (metis mset_ranked size_mset)

text \<open>
  The contract of an array with its insertion code: entries hold a marker of rank -1 until they
  are used. The interpretations are the memory and the processor rankings of the task manager.
\<close>

locale ranking =
  fixes key :: "'a \<Rightarrow> int" and bottom :: 'a
  assumes key_bottom: "key bottom = -1"
begin

lemma top_insert_ranked:
  assumes "0 < n" "\<forall>q\<in>set ps. -1 < key q"
  shows "top_insert key p (take n (ranked key ps @ replicate n bottom), min n (length ps)) =
    (if -1 < key p
     then (take n (ranked key (ps @ [p]) @ replicate n bottom), min n (Suc (length ps)))
     else (take n (ranked key ps @ replicate n bottom), min n (length ps)))"
proof -
  let ?r = "ranked key ps" and ?bs = "replicate n bottom"
  let ?xs = "take n (?r @ ?bs)"
  have "set ?r = set ps" by (metis mset_ranked set_mset_mset)
  then have pos: "\<forall>q\<in>set ?r. -1 < key q" using assms(2) by simp
  have "falling key ?bs" by (induction n) auto
  then have f: "falling key (?r @ ?bs)"
    using falling_ranked [of key ps] key_bottom pos by (fastforce simp: sorted_wrt_append)
  have lx: "length ?xs = n" by simp
  then have lne: "?xs \<noteq> []" using assms(1) by (metis length_0_conv less_numeral_extra(3))
  have fx: "falling key ?xs" using f by (rule sorted_wrt_take)
  have fst: "fst (top_insert key p (?xs, num)) = take n (rank_in key p (?r @ ?bs))" for num
    using top_insert_rank [OF fx lne, of p num] unfolding lx take_rank_in [OF f] .
  have lastx: "?xs ! (n - 1) = (if n \<le> length ps then ?r ! (n - 1) else bottom)"
    using assms(1) by (auto simp: nth_append)
  show ?thesis
  proof (cases "-1 < key p")
    case True
    have r: "rank_in key p (?r @ ?bs) = ranked key (ps @ [p]) @ ?bs"
      using True key_bottom by (simp add: rank_in_bottoms ranked_snoc)
    have "snd (top_insert key p (?xs, min n (length ps))) = min n (Suc (length ps))"
      using True lx lastx key_bottom assms(1) by (auto simp: top_insert_def Let_def min_def)
    then show ?thesis using True fst [of "min n (length ps)"] r by (metis prod.collapse)
  next
    case False
    have "-1 \<le> key (?xs ! (n - 1))"
      using lastx pos key_bottom assms(1) by (auto intro: order.strict_implies_order simp: nth_mem)
    then show ?thesis using False lx by (simp add: top_insert_def)
  qed
qed

lemma top_scan:
  assumes "0 < n"
  shows "foldl (\<lambda>xn p. top_insert key p xn) (replicate n bottom, 0) ps =
    (take n (ranked key (filter (\<lambda>q. -1 < key q) ps) @ replicate n bottom),
     min n (length (filter (\<lambda>q. -1 < key q) ps)))"
proof (induction ps rule: rev_induct)
  case Nil
  then show ?case by (simp add: ranked_def)
next
  case (snoc p ps)
  let ?qs = "filter (\<lambda>q. -1 < key q) ps"
  have "\<forall>q\<in>set ?qs. -1 < key q" by simp
  from top_insert_ranked [OF assms this, of p] snoc show ?case by simp
qed

end

end
