(* ===== verification/TaskMgr.thy ===== *)
theory TaskMgr
  imports ProcStat Tables
begin

text \<open>
  The task manager's data (\<^verbatim>\<open>src/cad_rescue_gui.c\<close>): the list of processes it never shows
  (\<open>is_process_blacklisted\<close>), memory and processor totals (\<open>scan_sysinfo\<close>) and the scan of all
  processes into the three ranked arrays (\<open>scan_processes\<close>).

  Counters are 64-bit words as in the source. The stack arrays of the scan are not initialised
  except for the ranking key, so their other content is the argument \<open>junk\<close>.
\<close>

section \<open>Definitions\<close>

definition blacklist :: "string list" where
  "blacklist = [''systemd'', ''kthread'', ''sd-pam'', ''dbus'', ''Xorg'', ''Xwayland'', ''kworker'',
     ''pulseaudio'', ''pipewire'']"

definition is_process_blacklisted :: "string \<Rightarrow> bool" where
  "is_process_blacklisted name = list_ex (contains name) blacklist"

subsection \<open>System totals\<close>

record sysinfo =
  total_ram_mb :: "64 word"
  used_ram_mb :: "64 word"
  total_swap_mb :: "64 word"
  used_swap_mb :: "64 word"
  global_cpu_percent :: int
  prev_cpu_total :: "64 word"
  prev_cpu_idle :: "64 word"
  logical_cores :: int

record meminfo =
  m_total :: "64 word"
  m_free :: "64 word"
  m_buf :: "64 word"
  m_cache :: "64 word"
  s_total :: "64 word"
  s_free :: "64 word"

definition meminfo_line :: "meminfo \<Rightarrow> string \<Rightarrow> meminfo" where
  "meminfo_line m p =
     (if starts_with p ''MemTotal:'' then m\<lparr>m_total := str_to_ull (drop 9 p)\<rparr>
      else if starts_with p ''MemFree:'' then m\<lparr>m_free := str_to_ull (drop 8 p)\<rparr>
      else if starts_with p ''Buffers:'' then m\<lparr>m_buf := str_to_ull (drop 8 p)\<rparr>
      else if starts_with p ''Cached:'' then m\<lparr>m_cache := str_to_ull (drop 7 p)\<rparr>
      else if starts_with p ''SwapTotal:'' then m\<lparr>s_total := str_to_ull (drop 10 p)\<rparr>
      else if starts_with p ''SwapFree:'' then m\<lparr>s_free := str_to_ull (drop 9 p)\<rparr>
      else m)"

definition scan_meminfo :: "string \<Rightarrow> sysinfo \<Rightarrow> sysinfo" where
  "scan_meminfo buf s =
     (let m = foldl meminfo_line \<lparr>m_total = 0, m_free = 0, m_buf = 0, m_cache = 0, s_total = 0, s_free = 0\<rparr>
                (c_lines buf);
          mem_avail = m_free m + m_buf m + m_cache m
      in s\<lparr>total_ram_mb := m_total m div 1024,
           used_ram_mb := (if m_total m > mem_avail then (m_total m - mem_avail) div 1024 else 0),
           total_swap_mb := s_total m div 1024,
           used_swap_mb := (if s_total m > s_free m then (s_total m - s_free m) div 1024 else 0)\<rparr>)"

text \<open>\<^verbatim>\<open>x = str_to_ull(p); while (*p == ' ') p++; while (digit(*p)) p++;\<close>, \<open>n\<close> times.\<close>

fun read_numbers :: "nat \<Rightarrow> string \<Rightarrow> 64 word list" where
  "read_numbers 0 p = []"
| "read_numbers (Suc n) p = str_to_ull p # read_numbers n (dropWhile is_digit (skip_spaces p))"

definition cpu_update :: "64 word \<Rightarrow> 64 word \<Rightarrow> sysinfo \<Rightarrow> sysinfo" where
  "cpu_update current_total current_idle s =
     (let s1 = (if current_total > prev_cpu_total s
                then (let totald = current_total - prev_cpu_total s;
                          idled = current_idle - prev_cpu_idle s
                      in s\<lparr>global_cpu_percent := wrap_int (uint (((totald - idled) * 100) div totald))\<rparr>)
                else s)
      in s1\<lparr>prev_cpu_total := current_total, prev_cpu_idle := current_idle\<rparr>)"

definition scan_cpu_line :: "string \<Rightarrow> sysinfo \<Rightarrow> sysinfo" where
  "scan_cpu_line buf s =
     (if starts_with buf ''cpu ''
      then (let v = read_numbers 8 (drop 4 buf);
                current_idle = v ! 3 + v ! 4;
                current_non_idle = v ! 0 + v ! 1 + v ! 2 + v ! 5 + v ! 6 + v ! 7
            in cpu_update (current_idle + current_non_idle) current_idle s)
      else s)"

definition scan_sysinfo :: "world \<Rightarrow> int \<Rightarrow> sysinfo \<Rightarrow> sysinfo" where
  "scan_sysinfo w nproc s =
     (let s1 = (if logical_cores s = 0
                then s\<lparr>logical_cores := (if wrap_int nproc \<le> 0 then 1 else wrap_int nproc)\<rparr> else s);
          s2 = (case read_buf w ''/proc/meminfo'' 2048 of None \<Rightarrow> s1 | Some b \<Rightarrow> scan_meminfo (c_str b) s1)
      in case read_buf w ''/proc/stat'' 512 of None \<Rightarrow> s2 | Some b \<Rightarrow> scan_cpu_line (c_str b) s2)"

subsection \<open>Processes\<close>

record process_info =
  pi_pid :: int
  pi_name :: string
  pi_rss_pages :: int
  pi_cpu_percent :: int
  pi_state :: char
  pi_uid :: int
  pi_username :: string

record tm_state =
  tm_sys :: sysinfo
  tm_cache :: "uid_cache_entry list"
  tm_current_hist :: hist
  tm_prev_hist :: hist
  tm_prev_scan_ms :: "64 word"
  tm_mem :: "process_info list \<times> nat"
  tm_cpu :: "process_info list \<times> nat"
  tm_search :: "process_info list \<times> nat"
  tm_sort_mode :: int
  tm_search_buffer :: string
  tm_search_len :: nat

definition c_tolower :: "char \<Rightarrow> char" where
  "c_tolower c = (let n = (of_char c :: nat) in if 65 \<le> n \<and> n \<le> 90 then char_of (n + 32) else c)"

text \<open>\<^verbatim>\<open>strcasestr(hay, needle) != NULL\<close>\<close>

definition contains_nocase :: "string \<Rightarrow> string \<Rightarrow> bool" where
  "contains_nocase hay needle = contains (map c_tolower hay) (map c_tolower needle)"

definition cpu_share :: "64 word \<Rightarrow> 64 word \<Rightarrow> 64 word \<Rightarrow> 64 word \<Rightarrow> int \<Rightarrow> int" where
  "cpu_share prev_scan_ms delta_ms prev_time current_time cores =
     (let delta_ticks = (if prev_scan_ms \<noteq> 0 \<and> current_time \<ge> prev_time then current_time - prev_time else 0);
          pct = wrap_int (uint ((delta_ticks * 1000) div delta_ms))
      in if cores > 0 then cdiv pct cores else pct)"

text \<open>
  One directory entry: \<open>None\<close> when it is not a process, is the program itself, or cannot be read;
  else its data, its processor time, and the user name cache as it is afterwards.
\<close>

definition sample ::
  "world \<Rightarrow> int \<Rightarrow> hist \<Rightarrow> 64 word \<Rightarrow> 64 word \<Rightarrow> int \<Rightarrow> uid_cache_entry list \<Rightarrow> string
   \<Rightarrow> (process_info \<times> 64 word) option \<times> uid_cache_entry list" where
  "sample w my_pid prev_hist prev_scan_ms delta_ms cores cache d_name =
     (let pid = str_to_int (Some d_name) in
      if \<not> is_digit (cget d_name 0) \<or> pid = my_pid \<or> pid = 0 then (None, cache)
      else (case read_buf w (str_fit 256 (''/proc/'' @ d_name @ ''/stat'')) 1024 of
              None \<Rightarrow> (None, cache)
            | Some b \<Rightarrow>
                (let (uid, username, cache') =
                       (case w_stat_uid w (str_fit 256 (''/proc/'' @ d_name)) of
                          Some u \<Rightarrow> (case get_username_by_uid w u 32 cache of (c, n) \<Rightarrow> (u, n, c))
                        | None \<Rightarrow> (0, ''root'', cache));
                     (name, ptr) = stat_name 31 (c_str b);
                     t = stat_cpu_time ptr;
                     prev_time = (case hist_find prev_hist pid of Some x \<Rightarrow> x | None \<Rightarrow> 0)
                 in (Some (\<lparr>pi_pid = pid, pi_name = name, pi_rss_pages = stat_rss ptr,
                            pi_cpu_percent = cpu_share prev_scan_ms delta_ms prev_time t cores,
                            pi_state = stat_state ptr, pi_uid = uid, pi_username = username\<rparr>, t),
                     cache'))))"

definition search_matches :: "tm_state \<Rightarrow> process_info \<Rightarrow> bool" where
  "search_matches st p \<longleftrightarrow> tm_sort_mode st = 2 \<and> 3 \<le> tm_search_len st
     \<and> contains_nocase (pi_name p) (tm_search_buffer st)"

text \<open>What the scan does with one sampled process.\<close>

definition record_process :: "process_info \<Rightarrow> 64 word \<Rightarrow> tm_state \<Rightarrow> tm_state" where
  "record_process p t st =
     (let st1 = st\<lparr>tm_current_hist := hist_insert (tm_current_hist st) (pi_pid p) t\<rparr> in
      if is_process_blacklisted (pi_name p) then st1
      else (let st2 = st1\<lparr>tm_mem := top_insert pi_rss_pages p (tm_mem st1),
                          tm_cpu := top_insert pi_cpu_percent p (tm_cpu st1)\<rparr>
            in if search_matches st2 p
               then st2\<lparr>tm_search := top_insert pi_rss_pages p (tm_search st2)\<rparr> else st2))"

fun scan_loop :: "world \<Rightarrow> int \<Rightarrow> 64 word \<Rightarrow> string list \<Rightarrow> tm_state \<Rightarrow> tm_state" where
  "scan_loop w my_pid delta_ms [] st = st"
| "scan_loop w my_pid delta_ms (d # ds) st =
     (case sample w my_pid (tm_prev_hist st) (tm_prev_scan_ms st) delta_ms (logical_cores (tm_sys st)) (tm_cache st) d of
        (None, c) \<Rightarrow> scan_loop w my_pid delta_ms ds (st\<lparr>tm_cache := c\<rparr>)
      | (Some (p, t), c) \<Rightarrow> scan_loop w my_pid delta_ms ds (record_process p t (st\<lparr>tm_cache := c\<rparr>)))"

text \<open>Lines 2950 to 2975: empty arrays, the two tables exchanged and the new one cleared.\<close>

definition scan_start :: "process_info \<Rightarrow> tm_state \<Rightarrow> tm_state" where
  "scan_start junk st =
     st\<lparr>tm_mem := (replicate MAX_TOP_PROCS (junk\<lparr>pi_rss_pages := -1\<rparr>), 0),
        tm_cpu := (replicate MAX_TOP_PROCS (junk\<lparr>pi_cpu_percent := -1\<rparr>), 0),
        tm_search := (replicate MAX_TOP_PROCS (junk\<lparr>pi_rss_pages := -1\<rparr>), 0),
        tm_prev_hist := tm_current_hist st,
        tm_current_hist := hist_clear (tm_prev_hist st)\<rparr>"

definition scan_delta :: "64 word \<Rightarrow> tm_state \<Rightarrow> 64 word" where
  "scan_delta current_ms st =
     (let delta_ms = current_ms - tm_prev_scan_ms st in if delta_ms = 0 then 1 else delta_ms)"

definition scan_processes ::
  "world \<Rightarrow> int \<Rightarrow> int \<Rightarrow> 64 word \<Rightarrow> process_info \<Rightarrow> tm_state \<Rightarrow> tm_state" where
  "scan_processes w nproc my_pid current_ms junk st =
     (let st0 = st\<lparr>tm_sys := scan_sysinfo w nproc (tm_sys st)\<rparr> in
      case w_dir w ''/proc'' of
        None \<Rightarrow> st0
      | Some ents \<Rightarrow>
          (scan_loop w my_pid (scan_delta current_ms st0) ents (scan_start junk st0))
            \<lparr>tm_prev_scan_ms := current_ms\<rparr>)"

section \<open>Rankings\<close>

interpretation mem_rank: ranking pi_rss_pages "j\<lparr>pi_rss_pages := -1\<rparr>" for j
  by unfold_locales simp

interpretation cpu_rank: ranking pi_cpu_percent "j\<lparr>pi_cpu_percent := -1\<rparr>" for j
  by unfold_locales simp

text \<open>The processes a scan samples, in directory order, with their times.\<close>

fun samples ::
  "world \<Rightarrow> int \<Rightarrow> hist \<Rightarrow> 64 word \<Rightarrow> 64 word \<Rightarrow> int \<Rightarrow> uid_cache_entry list \<Rightarrow> string list \<Rightarrow> (process_info \<times> 64 word) list" where
  "samples w me ph ms dm cores cache [] = []"
| "samples w me ph ms dm cores cache (d # ds) =
     (case sample w me ph ms dm cores cache d of
        (None, c) \<Rightarrow> samples w me ph ms dm cores c ds
      | (Some pt, c) \<Rightarrow> pt # samples w me ph ms dm cores c ds)"

definition shown :: "(process_info \<times> 64 word) list \<Rightarrow> process_info list" where
  "shown xs = filter (\<lambda>p. \<not> is_process_blacklisted (pi_name p)) (map fst xs)"

definition st_samples :: "world \<Rightarrow> int \<Rightarrow> 64 word \<Rightarrow> tm_state \<Rightarrow> string list \<Rightarrow> (process_info \<times> 64 word) list" where
  "st_samples w me dm st ds =
     samples w me (tm_prev_hist st) (tm_prev_scan_ms st) dm (logical_cores (tm_sys st)) (tm_cache st) ds"

lemma record_process_frame:
  "tm_sys (record_process p t st) = tm_sys st" "tm_cache (record_process p t st) = tm_cache st"
  "tm_prev_hist (record_process p t st) = tm_prev_hist st"
  "tm_prev_scan_ms (record_process p t st) = tm_prev_scan_ms st"
  "tm_sort_mode (record_process p t st) = tm_sort_mode st"
  "tm_search_buffer (record_process p t st) = tm_search_buffer st"
  "tm_search_len (record_process p t st) = tm_search_len st"
  "tm_current_hist (record_process p t st) = hist_insert (tm_current_hist st) (pi_pid p) t"
  by (auto simp: record_process_def Let_def)

lemma record_process_tables:
  "tm_mem (record_process p t st) =
     (if is_process_blacklisted (pi_name p) then tm_mem st else top_insert pi_rss_pages p (tm_mem st))"
  "tm_cpu (record_process p t st) =
     (if is_process_blacklisted (pi_name p) then tm_cpu st else top_insert pi_cpu_percent p (tm_cpu st))"
  "tm_search (record_process p t st) =
     (if \<not> is_process_blacklisted (pi_name p) \<and> search_matches st p
      then top_insert pi_rss_pages p (tm_search st) else tm_search st)"
  by (auto simp: record_process_def Let_def search_matches_def)

lemma scan_loop_tables:
  "tm_mem (scan_loop w me dm ds st) = foldl (\<lambda>xn p. top_insert pi_rss_pages p xn) (tm_mem st) (shown (st_samples w me dm st ds))
    \<and> tm_cpu (scan_loop w me dm ds st) = foldl (\<lambda>xn p. top_insert pi_cpu_percent p xn) (tm_cpu st) (shown (st_samples w me dm st ds))
    \<and> tm_search (scan_loop w me dm ds st) =
        foldl (\<lambda>xn p. top_insert pi_rss_pages p xn) (tm_search st) (filter (search_matches st) (shown (st_samples w me dm st ds)))
    \<and> tm_current_hist (scan_loop w me dm ds st) =
        foldl (\<lambda>h (p, t). hist_insert h p t) (tm_current_hist st) (map (\<lambda>(p, t). (pi_pid p, t)) (st_samples w me dm st ds))"
proof (induction ds arbitrary: st)
  case Nil
  then show ?case by (simp add: st_samples_def shown_def)
next
  case (Cons d ds)
  obtain r c where s: "sample w me (tm_prev_hist st) (tm_prev_scan_ms st) dm (logical_cores (tm_sys st)) (tm_cache st) d = (r, c)"
    by fastforce
  show ?case
  proof (cases r)
    case None
    have m: "search_matches (st\<lparr>tm_cache := c\<rparr>) = search_matches st" by (auto simp: search_matches_def)
    show ?thesis using Cons [of "st\<lparr>tm_cache := c\<rparr>"] s None by (simp add: st_samples_def m)
  next
    case (Some pt)
    obtain p t where pt: "pt = (p, t)" by fastforce
    let ?st = "record_process p t (st\<lparr>tm_cache := c\<rparr>)"
    have m: "search_matches ?st = search_matches st" "search_matches (st\<lparr>tm_cache := c\<rparr>) = search_matches st"
      by (auto simp: search_matches_def record_process_frame)
    show ?thesis using Cons [of ?st] s Some pt
      by (simp add: st_samples_def record_process_frame record_process_tables m shown_def)
  qed
qed

text \<open>The samples of one call of \<open>scan_processes\<close>.\<close>

definition scan_samples :: "world \<Rightarrow> int \<Rightarrow> int \<Rightarrow> 64 word \<Rightarrow> process_info \<Rightarrow> tm_state \<Rightarrow> string list \<Rightarrow> (process_info \<times> 64 word) list" where
  "scan_samples w nproc me ms junk st ents =
     (let st0 = st\<lparr>tm_sys := scan_sysinfo w nproc (tm_sys st)\<rparr>
      in st_samples w me (scan_delta ms st0) (scan_start junk st0) ents)"

section \<open>Properties\<close>


text \<open>
  C19 (scan_remembers_times). When a scan sees at most as many processes as the table has slots,
  all with different ids, the table afterwards gives for each of them exactly the processor time
  that was read, and nothing for any other id, whatever collisions the probing met.
\<close>

theorem scan_remembers_times:
  assumes "w_dir w ''/proc'' = Some ents"
    and "xs = map (\<lambda>(p, t). (pi_pid p, t)) (scan_samples w nproc me ms junk st ents)"
    and "tm_prev_hist st \<noteq> []" "length xs \<le> length (tm_prev_hist st)"
    and "distinct (map fst xs)" "0 \<notin> set (map fst xs)" "q \<noteq> 0"
  shows "hist_find (tm_current_hist (scan_processes w nproc me ms junk st)) q = map_of xs q"
proof -
  let ?st = "scan_start junk (st\<lparr>tm_sys := scan_sysinfo w nproc (tm_sys st)\<rparr>)"
  let ?h = "hist_clear (tm_prev_hist st)"
  note c = hist_clear_ok [OF assms(3)]
  have "tm_current_hist ?st = ?h" by (simp add: scan_start_def)
  then have "tm_current_hist (scan_processes w nproc me ms junk st) = foldl (\<lambda>h (p, t). hist_insert h p t) ?h xs"
    using assms(1,2) scan_loop_tables [of w me "scan_delta ms (st\<lparr>tm_sys := scan_sysinfo w nproc (tm_sys st)\<rparr>)" ents ?st]
    by (simp add: scan_processes_def Let_def scan_samples_def)
  also have "hist_find \<dots> q = (case map_of xs q of Some v \<Rightarrow> Some v | None \<Rightarrow> hist_find ?h q)"
    using c assms(4-7) by (intro hist.find_fold_ins) auto
  finally show ?thesis using c by (simp split: option.splits)
qed

text \<open>
  When the idle counter has not run backwards and has grown by no more
  than the total, and the difference times hundred fits 64 bits, the displayed processor load is
  between 0 and 100, and it is the exact rounded-down percentage of the busy time.
\<close>

theorem cpu_percent_bounds:
  assumes "prev_cpu_total s < tot" "prev_cpu_idle s \<le> idle"
    and "idle - prev_cpu_idle s \<le> tot - prev_cpu_total s"
    and "uint (tot - prev_cpu_total s) * 100 < 2 ^ 64"
  shows "global_cpu_percent (cpu_update tot idle s) =
      ((uint tot - uint (prev_cpu_total s)) - (uint idle - uint (prev_cpu_idle s))) * 100
        div (uint tot - uint (prev_cpu_total s))
    \<and> 0 \<le> global_cpu_percent (cpu_update tot idle s) \<and> global_cpu_percent (cpu_update tot idle s) \<le> 100"
proof -
  let ?t = "tot - prev_cpu_total s" and ?i = "idle - prev_cpu_idle s"
  have t: "uint ?t = uint tot - uint (prev_cpu_total s)" using assms(1) by (simp add: uint_sub_if' word_less_def)
  have i: "uint ?i = uint idle - uint (prev_cpu_idle s)" using assms(2) by (simp add: uint_sub_if' word_le_def)
  have b: "uint (?t - ?i) = uint ?t - uint ?i" using assms(3) by (simp add: uint_sub_if' word_le_def)
  have pos: "0 < uint ?t" using t assms(1) by (simp add: word_less_def)
  have le: "0 \<le> uint ?t - uint ?i" "uint ?t - uint ?i \<le> uint ?t" using assms(3) by (simp_all add: word_le_def)
  have "(uint ?t - uint ?i) * 100 \<le> uint ?t * 100" using le(2) by (rule mult_right_mono) simp
  then have "(uint ?t - uint ?i) * 100 < 2 ^ 64" using assms(4) by (rule le_less_trans)
  then have "uint (?t - ?i) * uint (100 :: 64 word) < 2 ^ LENGTH(64)" using b by simp
  then have "uint ((?t - ?i) * 100) = (uint ?t - uint ?i) * 100"
    using uint_mult_lem [of "?t - ?i" "100 :: 64 word"] b by simp
  then have q: "uint (((?t - ?i) * 100) div ?t) = (uint ?t - uint ?i) * 100 div uint ?t"
    by (simp add: uint_div)
  have r: "0 \<le> (uint ?t - uint ?i) * 100 div uint ?t" "(uint ?t - uint ?i) * 100 div uint ?t \<le> 100"
  proof -
    show "0 \<le> (uint ?t - uint ?i) * 100 div uint ?t" using le pos by (simp add: pos_imp_zdiv_nonneg_iff)
    have "(uint ?t - uint ?i) * 100 div uint ?t \<le> uint ?t * 100 div uint ?t"
      using le pos by (intro zdiv_mono1) auto
    then show "(uint ?t - uint ?i) * 100 div uint ?t \<le> 100" using pos by simp
  qed
  have "global_cpu_percent (cpu_update tot idle s) = (uint ?t - uint ?i) * 100 div uint ?t"
    using assms(1) q r by (simp add: cpu_update_def Let_def)
  then show ?thesis using r t i by simp
qed

definition start_sys :: sysinfo where
  "start_sys = \<lparr>total_ram_mb = 0, used_ram_mb = 0, total_swap_mb = 0, used_swap_mb = 0,
     global_cpu_percent = 0, prev_cpu_total = 1000, prev_cpu_idle = 600, logical_cores = 2\<rparr>"

theorem cpu_percent_bounds_witness:
  "global_cpu_percent (cpu_update 1200 650 start_sys) = 75"
  using cpu_percent_bounds [of start_sys 1200 650] by (simp add: start_sys_def)

text \<open>
  The kernel documents that the \<^verbatim>\<open>iowait\<close> part of the idle counter may
  decrease; then the unsigned difference wraps and the load shown exceeds 100.
\<close>

theorem cpu_percent_iowait:
  "global_cpu_percent (cpu_update 1010 590 start_sys) = 200"
  by (simp add: cpu_update_def start_sys_def Let_def uint_word_ariths)

definition proc_world :: world where
  "proc_world =
     \<lparr>w_getenv = (\<lambda>_. None),
      w_file = (\<lambda>p. if p = ''/proc/12/stat'' then Some ''12 (vim) S 0 0 0 0 0 0 0 0 0 0 5 2 0 0 0 0 0 0 0 0 300''
                    else if p = ''/proc/13/stat'' then Some ''13 (dbus-daemon) S 0 0 0 0 0 0 0 0 0 0 1 1 0 0 0 0 0 0 0 0 900''
                    else if p = ''/proc/14/stat'' then Some ''14 (gcc) R 0 0 0 0 0 0 0 0 0 0 9 9 0 0 0 0 0 0 0 0 700''
                    else None),
      w_dir = (\<lambda>_. Some [''.'', ''12'', ''13'', ''14'']), w_stat_uid = (\<lambda>_. None),
      w_getpwuid = (\<lambda>_. None), w_run = (\<lambda>_. None)\<rparr>"

definition start_tm :: tm_state where
  "start_tm = \<lparr>tm_sys = start_sys, tm_cache = [], tm_current_hist = replicate 4 (0, 0),
     tm_prev_hist = replicate 4 (0, 0), tm_prev_scan_ms = 0, tm_mem = ([], 0), tm_cpu = ([], 0),
     tm_search = ([], 0), tm_sort_mode = 0, tm_search_buffer = [], tm_search_len = 0\<rparr>"

definition junk_proc :: process_info where
  "junk_proc = \<lparr>pi_pid = 7, pi_name = ''x'', pi_rss_pages = 5, pi_cpu_percent = 5, pi_state = CHR ''x'',
     pi_uid = 5, pi_username = ''x''\<rparr>"

definition proc_samples :: "(process_info \<times> 64 word) list" where
  "proc_samples = scan_samples proc_world 2 99 50 junk_proc start_tm [''.'', ''12'', ''13'', ''14'']"


theorem scan_remembers_times_witness:
  "hist_find (tm_current_hist (scan_processes proc_world 2 99 50 junk_proc start_tm)) 14 = Some 18"
proof -
  let ?xs = "map (\<lambda>(p, t). (pi_pid p, t)) proc_samples"
  have d: "w_dir proc_world ''/proc'' = Some [''.'', ''12'', ''13'', ''14'']" by (simp add: proc_world_def)
  have x: "?xs = [(12, 7), (13, 2), (14, 18)]" by code_simp
  from scan_remembers_times [OF d refl, of start_tm 2 99 50 junk_proc 14, folded proc_samples_def, unfolded x]
  show ?thesis by (simp add: start_tm_def)
qed

end
