(* ===== verification/Session.thy ===== *)
theory Session
  imports ProcStat Watchdog "HOL-Library.Monad_Syntax"
begin

text \<open>
  User sessions in the rescue GUI (\<^verbatim>\<open>src/cad_rescue_gui.c\<close>): who the screen belongs to
  (\<open>detect_user_session\<close>, \<open>init_static_info\<close>), how commands run on that user's behalf
  (\<open>drop_privs_to_user\<close>, \<open>execute_command_safe\<close>), and the sessions on the virtual terminals
  (\<open>scan_sessions\<close>).

  The kernel's handling of credentials is a parameter: the three calls that change them are
  functions that may fail or do anything; the program's own checks afterwards are what counts.
\<close>

unbundle bit_operations_syntax

section \<open>Definitions\<close>

subsection \<open>The active user's session\<close>

record user_session =
  us_uid :: int
  us_gid :: int
  us_username :: string
  us_home :: string
  us_display :: string
  us_xauthority :: string
  us_xdg_runtime_dir :: string
  us_wayland_display :: string
  us_dbus_addr :: string
  us_de_name :: string
  us_session_id :: string
  us_lock_cmd :: string
  us_raw_env :: string

definition no_session :: user_session where
  "no_session = \<lparr>us_uid = 0, us_gid = 0, us_username = [], us_home = [], us_display = [], us_xauthority = [],
     us_xdg_runtime_dir = [], us_wayland_display = [], us_dbus_addr = [], us_de_name = [],
     us_session_id = [], us_lock_cmd = [], us_raw_env = []\<rparr>"

definition no_user :: "string option \<Rightarrow> bool" where
  "no_user username = (case username of None \<Rightarrow> True | Some u \<Rightarrow> u = [] \<or> u = ''root'')"

text \<open>Lines 1108 to 1169: the first human user with a process on the active virtual terminal.\<close>

definition uid_by_vt :: "world \<Rightarrow> int option" where
  "uid_by_vt w =
     (let vt_num = active_vt_num w in
      if vt_num = [] then None
      else (case w_dir w ''/proc'' of None \<Rightarrow> None | Some ents \<Rightarrow> proc_user_loop w (vt_entry vt_num) ents))"

text \<open>Lines 1171 to 1210: the first human user with a graphical process.\<close>

definition uid_by_display :: "world \<Rightarrow> int option" where
  "uid_by_display w =
     (case w_dir w ''/proc'' of None \<Rightarrow> None | Some ents \<Rightarrow> proc_user_loop w display_entry ents)"

definition target_uid :: "world \<Rightarrow> string option \<Rightarrow> int option" where
  "target_uid w username =
     (if no_user username
      then (case uid_by_vt w of Some u \<Rightarrow> Some u | None \<Rightarrow> uid_by_display w) else None)"

text \<open>The colon-separated fields before the last one looked at: user, uid, gid and home.\<close>

fun cut_fields :: "nat \<Rightarrow> string \<Rightarrow> string list option" where
  "cut_fields 0 s = Some []"
| "cut_fields (Suc n) s =
     (case cut_at CHR '':'' s of
        (_, None) \<Rightarrow> None
      | (f, Some rest) \<Rightarrow> map_option (\<lambda>fs. f # fs) (cut_fields n rest))"

definition passwd_match :: "int option \<Rightarrow> string option \<Rightarrow> string \<Rightarrow> int \<Rightarrow> bool" where
  "passwd_match target username user uid =
     (case target of
        Some t \<Rightarrow> uid = t
      | None \<Rightarrow>
          (case username of
             Some u \<Rightarrow> (u \<noteq> [] \<and> user = u) \<or> ((u = [] \<or> u = ''root'') \<and> human_uid uid)
           | None \<Rightarrow> human_uid uid))"

fun passwd_session_loop :: "int option \<Rightarrow> string option \<Rightarrow> string list \<Rightarrow> user_session \<Rightarrow> user_session" where
  "passwd_session_loop target username [] s = s"
| "passwd_session_loop target username (line # rest) s =
     (case cut_fields 6 line of
        Some [user, _, uid_str, gid_str, _, home] \<Rightarrow>
          (let uid = str_to_int (Some uid_str) in
           if passwd_match target username user uid
           then s\<lparr>us_uid := uid, us_gid := str_to_int (Some gid_str),
                  us_username := str_fit 64 user, us_home := str_fit 256 home\<rparr>
           else passwd_session_loop target username rest s)
      | _ \<Rightarrow> passwd_session_loop target username rest s)"

definition resolve_user :: "world \<Rightarrow> string option \<Rightarrow> user_session \<Rightarrow> user_session" where
  "resolve_user w username s =
     (let s1 = (case read_buf w ''/etc/passwd'' 8192 of
                  None \<Rightarrow> s
                | Some b \<Rightarrow> passwd_session_loop (target_uid w username) username (c_lines (c_str b)) s)
      in if us_uid s1 = 0
         then s1\<lparr>us_uid := 1000, us_gid := 1000, us_username := ''user'', us_home := ''/home/user''\<rparr>
         else s1)"

text \<open>One variable of the graphical process's environment.\<close>

definition take_env :: "user_session \<Rightarrow> string \<Rightarrow> user_session" where
  "take_env s p =
     (if starts_with p ''DISPLAY='' then s\<lparr>us_display := str_fit 64 (drop 8 p)\<rparr>
      else if starts_with p ''XAUTHORITY='' then s\<lparr>us_xauthority := str_fit 256 (drop 11 p)\<rparr>
      else if starts_with p ''WAYLAND_DISPLAY='' then s\<lparr>us_wayland_display := str_fit 64 (drop 16 p)\<rparr>
      else if starts_with p ''DBUS_SESSION_BUS_ADDRESS='' then s\<lparr>us_dbus_addr := str_fit 512 (drop 25 p)\<rparr>
      else if starts_with p ''XDG_CURRENT_DESKTOP='' then s\<lparr>us_de_name := str_fit 64 (drop 20 p)\<rparr>
      else if starts_with p ''DESKTOP_SESSION='' \<and> us_de_name s = [] then s\<lparr>us_de_name := str_fit 64 (drop 16 p)\<rparr>
      else if starts_with p ''XDG_RUNTIME_DIR='' then s\<lparr>us_xdg_runtime_dir := str_fit 256 (drop 16 p)\<rparr>
      else if starts_with p ''XDG_SESSION_ID='' then s\<lparr>us_session_id := str_fit 32 (drop 15 p)\<rparr>
      else s)"

fun graphical_loop :: "world \<Rightarrow> string list \<Rightarrow> user_session \<Rightarrow> user_session" where
  "graphical_loop w [] s = s"
| "graphical_loop w (d # ds) s =
     (if pid_name d \<and> w_stat_uid w (str_fit 256 (''/proc/'' @ d)) = Some (us_uid s)
      then (case read_buf w (str_fit 256 (''/proc/'' @ d @ ''/environ'')) 32768 of
              Some env \<Rightarrow>
                if list_ex display_entry (env_entries env)
                then (foldl take_env s (env_entries env))\<lparr>us_raw_env := env\<rparr>
                else graphical_loop w ds s
            | None \<Rightarrow> graphical_loop w ds s)
      else graphical_loop w ds s)"

definition lock_command_for :: "string \<Rightarrow> string" where
  "lock_command_for de =
     (if contains de ''TDE'' \<or> contains de ''Trinity'' then ''dcop kdesktop KScreensaverIface lock''
      else if contains de ''KDE'' \<or> contains de ''PLASMA''
      then ''qdbus org.freedesktop.ScreenSaver /ScreenSaver Lock''
      else if contains de ''GNOME'' \<or> contains de ''UNITY'' then ''gnome-screensaver-command -l''
      else if contains de ''XFCE'' then ''xflock4''
      else if contains de ''LXQT'' then ''lxqt-lockscreen''
      else if contains de ''LXDE'' then ''lxlock''
      else if contains de ''MATE'' then ''mate-screensaver-command -l''
      else if contains de ''CINNAMON'' then ''cinnamon-screensaver-command -l''
      else if contains de ''PANTHEON'' then ''dm-tool lock''
      else if contains de ''ENLIGHTENMENT'' then ''enlightenment_remote -screen-lock''
      else if contains de ''sway'' then ''swaylock''
      else if contains de ''Hyprland'' then ''hyprlock''
      else ''xdg-screensaver lock'')"

definition detect_user_session :: "world \<Rightarrow> string option \<Rightarrow> user_session \<Rightarrow> user_session" where
  "detect_user_session w username s =
     (let s1 = resolve_user w username s;
          s2 = (case w_dir w ''/proc'' of None \<Rightarrow> s1 | Some ents \<Rightarrow> graphical_loop w ents s1)
      in s2\<lparr>us_lock_cmd := lock_command_for (us_de_name s2)\<rparr>)"

subsection \<open>Privileges and commands\<close>

record cred =
  c_uid :: int
  c_euid :: int
  c_gid :: int
  c_egid :: int
  c_groups :: "int list"
  c_no_new_privs :: bool

text \<open>The kernel: each call may fail (\<open>None\<close>) or change the credentials.\<close>

record cred_ops =
  k_setgroups0 :: "cred \<Rightarrow> cred option"
  k_initgroups :: "string \<Rightarrow> int \<Rightarrow> cred \<Rightarrow> cred option"
  k_setgid :: "int \<Rightarrow> cred \<Rightarrow> cred option"
  k_setuid :: "int \<Rightarrow> cred \<Rightarrow> cred option"

definition drop_checked :: "cred_ops \<Rightarrow> user_session \<Rightarrow> (cred \<Rightarrow> cred option) \<Rightarrow> cred \<Rightarrow> cred option" where
  "drop_checked k s groups c =
     do {
       c1 \<leftarrow> (if c_uid c = 0 then groups c else Some c);
       c2 \<leftarrow> k_setgid k (us_gid s) c1;
       c3 \<leftarrow> k_setuid k (us_uid s) c2;
       (if c_uid c3 \<noteq> us_uid s \<or> c_euid c3 \<noteq> us_uid s then None
        else if c_gid c3 \<noteq> us_gid s \<or> c_egid c3 \<noteq> us_gid s then None
        else Some c3)
     }"

text \<open>
  \<open>None\<close> is the exit of the child with status 126. The last call, \<^verbatim>\<open>prctl(PR_SET_NO_NEW_PRIVS, 1, 0, 0, 0)\<close>, has
  no failure on a kernel that knows the option (Linux 3.5 and later); its result is not looked at.
\<close>

definition drop_privs_to_user :: "cred_ops \<Rightarrow> user_session \<Rightarrow> cred \<Rightarrow> cred option" where
  "drop_privs_to_user k s c =
     map_option (\<lambda>c'. c'\<lparr>c_no_new_privs := True\<rparr>) (drop_checked k s (k_setgroups0 k) c)"

definition drop_privs_to_user_passwd :: "cred_ops \<Rightarrow> user_session \<Rightarrow> cred \<Rightarrow> cred option" where
  "drop_privs_to_user_passwd k s c = drop_checked k s (k_setgroups0 k) c"

definition drop_privs_to_user_with_groups :: "cred_ops \<Rightarrow> user_session \<Rightarrow> cred \<Rightarrow> cred option" where
  "drop_privs_to_user_with_groups k s c = drop_checked k s (k_initgroups k (us_username s) (us_gid s)) c"

text \<open>\<^verbatim>\<open>while (p < raw_env + raw_env_len) { ...; p += strlen(p) + 1; }\<close>\<close>

function raw_entries :: "string \<Rightarrow> string list" where
  "raw_entries s =
     (if s = [] then []
      else (case cut_at NUL s of (l, None) \<Rightarrow> [l] | (l, Some rest) \<Rightarrow> l # raw_entries rest))"
  by pat_completeness auto
termination
  by (relation "measure length") (auto dest: cut_at_length [OF sym])

declare raw_entries.simps [simp del]

definition command_path :: string where
  "command_path =
     ''PATH=/usr/local/bin:/usr/bin:/bin:/usr/local/sbin:/usr/sbin:/sbin:/opt/trinity/bin:/opt/tde/bin''"

definition command_env :: "user_session \<Rightarrow> bool \<Rightarrow> string list" where
  "command_env s as_root =
     [str_fit 512 (''HOME='' @ (if as_root then ''/root'' else us_home s)), command_path]
     @ (if as_root then []
        else take 508 (filter (\<lambda>p. \<not> starts_with p ''HOME='' \<and> \<not> starts_with p ''PATH='')
                        (raw_entries (us_raw_env s))))"

text \<open>A program image that the child asks the kernel to run, with its credentials.\<close>

record exec_call =
  ex_target :: exec_target
  ex_argv :: "string list"
  ex_env :: "string list"
  ex_cred :: cred

definition execute_command_safe ::
  "cred_ops \<Rightarrow> user_session \<Rightarrow> int \<Rightarrow> cred \<Rightarrow> string option \<Rightarrow> bool \<Rightarrow> exec_call list" where
  "execute_command_safe k s busybox_memfd c cmd as_root =
     (case cmd of
        None \<Rightarrow> []
      | Some cm \<Rightarrow>
          if cm = [] then []
          else (case (if as_root then Some c else drop_privs_to_user k s c) of
                  None \<Rightarrow> []
                | Some c' \<Rightarrow>
                    (if busybox_memfd \<ge> 0
                     then [\<lparr>ex_target = ExecFd busybox_memfd, ex_argv = [''sh'', ''-c'', cm],
                            ex_env = command_env s as_root, ex_cred = c'\<rparr>] else [])
                    @ [\<lparr>ex_target = ExecPath ''/bin/sh'', ex_argv = [''/bin/sh'', ''-c'', cm],
                        ex_env = command_env s as_root, ex_cred = c'\<rparr>]))"

definition execute_as_user :: "cred_ops \<Rightarrow> user_session \<Rightarrow> int \<Rightarrow> cred \<Rightarrow> string option \<Rightarrow> exec_call list" where
  "execute_as_user k s busybox_memfd c cmd = execute_command_safe k s busybox_memfd c cmd False"

subsection \<open>System information line\<close>

text \<open>
  The interfaces of \<^verbatim>\<open>/proc/net/wireless\<close>; \<open>essid\<close> is what the wireless \<^verbatim>\<open>ioctl\<close> reports for a name
  of at most 15 characters (\<open>None\<close> when the socket or the call fails), in a buffer of 32.
\<close>

fun wifi_loop :: "(string \<Rightarrow> string option) \<Rightarrow> nat \<Rightarrow> string list \<Rightarrow> string" where
  "wifi_loop essid max_len [] = []"
| "wifi_loop essid max_len (line # rest) =
     (case cut_at CHR '':'' line of
        (_, None) \<Rightarrow> wifi_loop essid max_len rest
      | (before, Some _) \<Rightarrow>
          (let iface = skip_blanks before in
           if iface = [] then wifi_loop essid max_len rest
           else (case essid (take 15 iface) of
                   Some e \<Rightarrow> if c_str (take 32 e) \<noteq> [] then str_fit max_len (c_str (take 32 e))
                             else wifi_loop essid max_len rest
                 | None \<Rightarrow> wifi_loop essid max_len rest)))"

definition get_wifi_ssid :: "world \<Rightarrow> (string \<Rightarrow> string option) \<Rightarrow> nat \<Rightarrow> string" where
  "get_wifi_ssid w essid max_len =
     (case read_buf w ''/proc/net/wireless'' 1024 of
        None \<Rightarrow> [] | Some b \<Rightarrow> wifi_loop essid max_len (c_lines (c_str b)))"

text \<open>The user named by the environment: \<^verbatim>\<open>CAD_USER\<close> first, else the loop over the others.\<close>

fun other_user_loop :: "string list \<Rightarrow> string option \<Rightarrow> string option" where
  "other_user_loop [] user = user"
| "other_user_loop (e # es) user =
     (if starts_with e ''SUDO_USER='' then Some (drop 10 e)
      else if starts_with e ''USER='' \<and> (user = None \<or> user = Some ''root'')
      then other_user_loop es (Some (drop 5 e))
      else other_user_loop es user)"

definition env_user :: "string list \<Rightarrow> string" where
  "env_user env =
     (case find_prefix ''CAD_USER='' env of
        Some u \<Rightarrow> u
      | None \<Rightarrow> (case other_user_loop env None of Some u \<Rightarrow> u | None \<Rightarrow> ''root''))"

text \<open>Address of the first interface that is not the loopback, in dotted notation.\<close>

fun first_ip :: "(string \<times> 32 word) list \<Rightarrow> string" where
  "first_ip [] = []"
| "first_ip ((name, addr) # rest) =
     (if name \<noteq> ''lo''
      then str_fit 32 (dec_string (uint (drop_bit 24 addr AND 255)) @ ''.'' @ dec_string (uint (drop_bit 16 addr AND 255))
             @ ''.'' @ dec_string (uint (drop_bit 8 addr AND 255)) @ ''.'' @ dec_string (uint (addr AND 255)))
      else first_ip rest)"

definition init_static_info ::
  "world \<Rightarrow> string option \<Rightarrow> string list \<Rightarrow> (string \<times> 32 word) list \<Rightarrow> (string \<Rightarrow> string option) \<Rightarrow> user_session
   \<Rightarrow> user_session \<times> string" where
  "init_static_info w nodename env ifs essid s =
     (let hostname = (case nodename of None \<Rightarrow> ''unknown'' | Some n \<Rightarrow> str_fit 256 n);
          s' = detect_user_session w (Some (env_user env)) s;
          user_host = str_fit 256 (us_username s' @ '' @ '' @ hostname);
          ip = first_ip ifs;
          ssid = get_wifi_ssid w essid 33
      in (s',
          if ip \<noteq> []
          then str_fit 256 (user_host @ '' : '' @ ip @ (if ssid \<noteq> [] then '' ('' @ ssid @ '')'' else []))
          else user_host))"

subsection \<open>Sessions on the virtual terminals\<close>

record session_info =
  si_vt :: int
  si_is_graphical :: bool
  si_is_dm :: bool
  si_uid :: int
  si_username :: string
  si_proc_name :: string
  si_priority :: int

definition MAX_SESSIONS :: nat where "MAX_SESSIONS = 32"

text \<open>
  The descriptor links of a process, as \<^verbatim>\<open>readlink\<close> gives them, in directory order; \<open>None\<close> when the
  directory cannot be opened.
\<close>

fun fds_loop :: "(string \<times> string option) list \<Rightarrow> int" where
  "fds_loop [] = -1"
| "fds_loop ((d_name, target) # rest) =
     (if cget d_name 0 \<noteq> CHR ''.''
      then (case target of
              Some t \<Rightarrow>
                (let t' = c_str (take 511 t) in
                 if starts_with t' ''/dev/tty'' \<and> is_digit (cget t' 8) then str_to_int (Some (drop 8 t'))
                 else fds_loop rest)
            | None \<Rightarrow> fds_loop rest)
      else fds_loop rest)"

definition get_vt_from_fds :: "(int \<Rightarrow> (string \<times> string option) list option) \<Rightarrow> int \<Rightarrow> int" where
  "get_vt_from_fds links pid = (case links pid of None \<Rightarrow> -1 | Some ls \<Rightarrow> fds_loop ls)"

text \<open>
  This environment loop also stops at an empty entry, and it visits an entry that the buffer cuts
  off.
\<close>

fun vtnr_loop :: "string list \<Rightarrow> int" where
  "vtnr_loop [] = -1"
| "vtnr_loop (e # es) =
     (if e = [] then -1
      else if starts_with e ''XDG_VTNR=''
      then (let vt = str_to_int (Some (drop 9 e)) in if 1 \<le> vt \<and> vt \<le> 63 then vt else vtnr_loop es)
      else vtnr_loop es)"

definition get_vt_from_environ :: "world \<Rightarrow> int \<Rightarrow> int" where
  "get_vt_from_environ w pid =
     (case read_buf w (str_fit 256 (''/proc/'' @ dec_string pid @ ''/environ'')) 4096 of
        None \<Rightarrow> -1 | Some b \<Rightarrow> vtnr_loop (raw_entries b))"

definition display_servers :: "string list" where
  "display_servers = [''Xorg'', ''X'', ''gnome-shell'', ''kwin_wayland'', ''sway'', ''hyprland'', ''weston'',
     ''wayfire'', ''labwc'', ''kwin'']"

definition display_managers :: "string list" where
  "display_managers = [''lightdm'', ''gdm'', ''gdm-simple-gree'', ''sddm'', ''sddm-greeter'',
     ''lightdm-gtk-gre'', ''tdm'']"

definition desktops :: "string list" where
  "desktops = [''kicker'', ''plasma-shell'', ''gnome-panel'', ''xfce4-panel'', ''mate-panel'', ''tdeinit'', ''kdesktop'']"

definition shells :: "string list" where
  "shells = [''bash'', ''zsh'', ''sh'', ''dash'', ''fish'', ''ksh'', ''tcsh'', ''csh'', ''login'']"

text \<open>Priority, graphical or not, display manager or not.\<close>

definition classify :: "string \<Rightarrow> int \<times> bool \<times> bool" where
  "classify name =
     (if name \<in> set display_servers then (4, True, False)
      else if name \<in> set display_managers then (3, True, True)
      else if name \<in> set desktops then (2, True, False)
      else if name \<in> set shells then (1, False, False)
      else (0, False, False))"

fun find_session :: "session_info list \<Rightarrow> int \<Rightarrow> nat \<Rightarrow> nat option" where
  "find_session [] vt i = None"
| "find_session (s # ss) vt i = (if si_vt s = vt then Some i else find_session ss vt (Suc i))"

definition merge_session :: "session_info \<Rightarrow> int \<Rightarrow> string \<Rightarrow> string \<Rightarrow> int \<times> bool \<times> bool \<Rightarrow> session_info" where
  "merge_session old uid username name cls =
     (case cls of (priority, is_graphical, is_dm) \<Rightarrow>
        let s1 = (if (uid \<ge> 1000 \<and> si_uid old < 1000) \<or> (uid \<noteq> 0 \<and> si_uid old = 0)
                  then old\<lparr>si_uid := uid, si_username := str_fit 32 username\<rparr> else old);
            s2 = (if is_graphical then s1\<lparr>si_is_graphical := True\<rparr> else s1);
            s3 = (if is_dm then s2\<lparr>si_is_dm := True\<rparr> else s2)
        in if priority > si_priority s3
           then s3\<lparr>si_proc_name := str_fit 64 name, si_priority := priority\<rparr> else s3)"

definition add_session ::
  "int \<Rightarrow> int \<Rightarrow> string \<Rightarrow> string \<Rightarrow> int \<times> bool \<times> bool \<Rightarrow> session_info list \<Rightarrow> session_info list" where
  "add_session vt uid username name cls ss =
     (case find_session ss vt 0 of
        None \<Rightarrow>
          if length ss < MAX_SESSIONS
          then ss @ [\<lparr>si_vt = vt, si_is_graphical = fst (snd cls), si_is_dm = snd (snd cls), si_uid = uid,
                      si_username = str_fit 32 username, si_proc_name = str_fit 64 name,
                      si_priority = fst cls\<rparr>]
          else ss
      | Some i \<Rightarrow> ss[i := merge_session (ss ! i) uid username name cls])"

text \<open>One directory entry of \<^verbatim>\<open>/proc\<close>.\<close>

definition scan_session_entry ::
  "world \<Rightarrow> (int \<Rightarrow> (string \<times> string option) list option) \<Rightarrow> int \<Rightarrow> int \<Rightarrow> string
   \<Rightarrow> session_info list \<times> uid_cache_entry list \<Rightarrow> session_info list \<times> uid_cache_entry list" where
  "scan_session_entry w links my_pid rescue_vt d_name sc =
     (case sc of (ss, cache) \<Rightarrow>
        let pid = str_to_int (Some d_name) in
        if \<not> is_digit (cget d_name 0) \<or> pid \<le> 0 \<or> pid = my_pid then (ss, cache)
        else case w_stat_uid w (str_fit 256 (''/proc/'' @ d_name)) of
          None \<Rightarrow> (ss, cache)
        | Some uid \<Rightarrow>
            (case read_buf w (str_fit 256 (''/proc/'' @ d_name @ ''/stat'')) 1024 of
               None \<Rightarrow> (ss, cache)
             | Some b \<Rightarrow>
                 let (name, ptr) = stat_name 63 (c_str b) in
                 if ptr = [] then (ss, cache)
                 else
                   let tty_nr = stat_tty_nr ptr;
                       vt0 = (if 1025 \<le> tty_nr \<and> tty_nr \<le> 1087 then tty_nr - 1024 else -1);
                       cls = classify name;
                       vt = (if vt0 = -1 \<and> 1 \<le> fst cls
                             then (let v = get_vt_from_environ w pid
                                   in if v = -1 \<and> 2 \<le> fst cls then get_vt_from_fds links pid else v)
                             else vt0)
                   in if 1 \<le> fst cls \<and> 1 \<le> vt \<and> vt \<le> 63 \<and> vt \<noteq> rescue_vt
                      then (case get_username_by_uid w uid 32 cache of
                              (cache', username) \<Rightarrow> (add_session vt uid username name cls ss, cache'))
                      else (ss, cache)))"

text \<open>The exchange sort by terminal number that ends the scan.\<close>

fun sort_inner :: "nat \<Rightarrow> nat \<Rightarrow> session_info list \<Rightarrow> session_info list" where
  "sort_inner i 0 ss = ss"
| "sort_inner i (Suc n) ss =
     (let j = length ss - Suc n in
      sort_inner i n (if si_vt (ss ! i) > si_vt (ss ! j) then ss[i := ss ! j, j := ss ! i] else ss))"

fun sort_outer :: "nat \<Rightarrow> session_info list \<Rightarrow> session_info list" where
  "sort_outer 0 ss = ss"
| "sort_outer (Suc n) ss =
     (let i = length ss - Suc (Suc n) in sort_outer n (sort_inner i (length ss - Suc i) ss))"

definition sort_sessions :: "session_info list \<Rightarrow> session_info list" where
  "sort_sessions ss = sort_outer (length ss - 1) ss"

definition scan_sessions ::
  "world \<Rightarrow> (int \<Rightarrow> (string \<times> string option) list option) \<Rightarrow> int \<Rightarrow> int \<Rightarrow> uid_cache_entry list
   \<Rightarrow> session_info list \<times> uid_cache_entry list" where
  "scan_sessions w links my_pid rescue_vt cache =
     (case w_dir w ''/proc'' of
        None \<Rightarrow> ([], cache)
      | Some ents \<Rightarrow>
          (case foldl (\<lambda>sc d. scan_session_entry w links my_pid rescue_vt d sc) ([], cache) ents of
             (ss, cache') \<Rightarrow> (sort_sessions ss, cache')))"

section \<open>Lemmas\<close>

lemma take_env_uid [simp]: "us_uid (take_env s p) = us_uid s" "us_gid (take_env s p) = us_gid s"
  "us_username (take_env s p) = us_username s" "us_home (take_env s p) = us_home s"
  by (simp_all add: take_env_def)

lemma foldl_take_env_uid [simp]: "us_uid (foldl take_env s ps) = us_uid s"
  by (induction ps arbitrary: s) auto

lemma graphical_loop_uid [simp]: "us_uid (graphical_loop w ds s) = us_uid s"
  by (induction w ds s rule: graphical_loop.induct) (auto split: option.splits)

lemma resolve_user_not_root: "us_uid (resolve_user w u s) \<noteq> 0"
  by (simp add: resolve_user_def Let_def)

lemma detect_user_session_not_root: "us_uid (detect_user_session w u s) \<noteq> 0"
  using resolve_user_not_root [of w u s] by (simp add: detect_user_session_def Let_def split: option.splits)

lemma drop_checked_result:
  "drop_checked k s g c = Some c' \<Longrightarrow>
   c_uid c' = us_uid s \<and> c_euid c' = us_uid s \<and> c_gid c' = us_gid s \<and> c_egid c' = us_gid s"
  by (auto simp: drop_checked_def Option.bind_eq_Some_conv split: if_splits)

lemma drop_privs_result:
  "drop_privs_to_user k s c = Some c' \<Longrightarrow>
   c_uid c' = us_uid s \<and> c_euid c' = us_uid s \<and> c_gid c' = us_gid s \<and> c_egid c' = us_gid s \<and> c_no_new_privs c'"
  using drop_checked_result by (auto simp: drop_privs_to_user_def)

subsection \<open>Exchange sort\<close>

definition least_from :: "nat \<Rightarrow> nat \<Rightarrow> session_info list \<Rightarrow> bool" where
  "least_from i j ss \<longleftrightarrow> (\<forall>k. i < k \<longrightarrow> k < j \<longrightarrow> si_vt (ss ! i) \<le> si_vt (ss ! k))"

lemma sort_inner_spec:
  assumes "n \<le> length ss - Suc i" "i < length ss" "least_from i (length ss - n) ss"
  shows "length (sort_inner i n ss) = length ss \<and> mset (sort_inner i n ss) = mset ss
    \<and> take i (sort_inner i n ss) = take i ss \<and> least_from i (length ss) (sort_inner i n ss)"
  using assms
proof (induction i n ss rule: sort_inner.induct)
  case (1 i ss)
  then show ?case by simp
next
  case (2 i n ss)
  let ?j = "length ss - Suc n"
  let ?ss = "if si_vt (ss ! i) > si_vt (ss ! ?j) then ss[i := ss ! ?j, ?j := ss ! i] else ss"
  have j: "i < ?j" "?j < length ss" "length ss - n = Suc ?j" using "2.prems" by auto
  have l: "length ?ss = length ss" by simp
  have m: "mset ?ss = mset ss" using j "2.prems"(2) by (simp add: mset_swap)
  have t: "take i ?ss = take i ss" using j by simp
  have "least_from i (Suc ?j) ?ss"
    unfolding least_from_def
  proof (intro allI impI)
    fix k assume k: "i < k" "k < Suc ?j"
    have old: "k \<noteq> ?j \<Longrightarrow> si_vt (ss ! i) \<le> si_vt (ss ! k)"
      using "2.prems"(3) k by (simp add: least_from_def)
    show "si_vt (?ss ! i) \<le> si_vt (?ss ! k)"
      using k j old by (cases "k = ?j") (auto simp: nth_list_update)
  qed
  then have "length (sort_inner i n ?ss) = length ?ss \<and> mset (sort_inner i n ?ss) = mset ?ss
      \<and> take i (sort_inner i n ?ss) = take i ?ss \<and> least_from i (length ?ss) (sort_inner i n ?ss)"
    using "2.IH" [OF refl] "2.prems" j l by simp
  then show ?case using l m t by (simp add: Let_def)
qed

lemma set_drop_of_take:
  assumes "mset xs = mset ys" "take i xs = take i ys"
  shows "set (drop i xs) = set (drop i ys)"
proof -
  have "mset (take i xs) + mset (drop i xs) = mset (take i ys) + mset (drop i ys)"
    using assms(1) by (metis append_take_drop_id mset_append)
  then have "mset (drop i xs) = mset (drop i ys)" using assms(2) by simp
  then show ?thesis by (metis set_mset_mset)
qed

lemma sort_outer_spec:
  assumes "n < length ss" "i = length ss - Suc n"
    and "sorted (map si_vt (take i ss))" "\<forall>x\<in>set (take i ss). \<forall>y\<in>set (drop i ss). si_vt x \<le> si_vt y"
  shows "mset (sort_outer n ss) = mset ss \<and> sorted (map si_vt (sort_outer n ss))"
  using assms
proof (induction n ss arbitrary: i rule: sort_outer.induct)
  case (1 ss)
  then have i: "i < length ss" "Suc i = length ss" by auto
  then have d: "drop i ss = [ss ! i]" by (simp add: Cons_nth_drop_Suc [symmetric])
  have "map si_vt ss = map si_vt (take i ss) @ [si_vt (ss ! i)]"
    using i take_Suc_conv_app_nth [of i ss] by (metis list.simps(8,9) map_append take_all order_refl)
  moreover have "sorted (map si_vt (take i ss) @ [si_vt (ss ! i)])"
    using "1.prems"(3,4) d by (auto simp: sorted_append)
  ultimately show ?case by simp
next
  case (2 n ss)
  let ?r = "sort_inner i (length ss - Suc i) ss"
  have i: "i = length ss - Suc (Suc n)" "i < length ss" using "2.prems" by auto
  have r: "length ?r = length ss" "mset ?r = mset ss" "take i ?r = take i ss" "least_from i (length ss) ?r"
    using sort_inner_spec [of "length ss - Suc i" ss i] i by (auto simp: least_from_def)
  have sd: "set (drop i ?r) = set (drop i ss)" using r(2,3) by (rule set_drop_of_take)
  have ri: "?r ! i \<in> set (drop i ?r)" using i r(1) by (metis Cons_nth_drop_Suc list.set_intros(1))
  have tk: "take (Suc i) ?r = take i ss @ [?r ! i]" using i r by (simp add: take_Suc_conv_app_nth)
  have so: "sorted (map si_vt (take (Suc i) ?r))"
    using tk "2.prems"(3,4) sd ri by (auto simp: sorted_append)
  have "si_vt (?r ! i) \<le> si_vt y" if "y \<in> set (drop (Suc i) ?r)" for y
  proof -
    obtain k where "k < length (drop (Suc i) ?r)" "y = drop (Suc i) ?r ! k"
      using \<open>y \<in> set (drop (Suc i) ?r)\<close> by (metis in_set_conv_nth)
    then show ?thesis using r(1,4) by (auto simp: least_from_def)
  qed
  moreover have "set (drop (Suc i) ?r) \<subseteq> set (drop i ss)"
    using sd by (metis drop_Suc set_drop_subset_set_drop le_SucI order_refl)
  ultimately have le: "\<forall>x\<in>set (take (Suc i) ?r). \<forall>y\<in>set (drop (Suc i) ?r). si_vt x \<le> si_vt y"
    using tk "2.prems"(4) by auto
  have "mset (sort_outer n ?r) = mset ?r \<and> sorted (map si_vt (sort_outer n ?r))"
  proof (rule "2.IH" [OF i(1), of "Suc i"])
    show "n < length ?r" "Suc i = length ?r - Suc n" using i r(1) "2.prems"(1) by simp_all
    show "sorted (map si_vt (take (Suc i) ?r))" by (rule so)
    show "\<forall>x\<in>set (take (Suc i) ?r). \<forall>y\<in>set (drop (Suc i) ?r). si_vt x \<le> si_vt y" by (rule le)
  qed
  then show ?case using r(2) i by (simp add: Let_def)
qed

lemma sort_sessions_spec: "mset (sort_sessions ss) = mset ss \<and> sorted (map si_vt (sort_sessions ss))"
proof (cases "ss = []")
  case True
  then show ?thesis by (simp add: sort_sessions_def)
next
  case False
  then show ?thesis using sort_outer_spec [where n = "length ss - 1" and ss = ss and i = 0] unfolding sort_sessions_def by simp
qed

subsection \<open>Sessions found\<close>

definition sessions_ok :: "int \<Rightarrow> session_info list \<Rightarrow> bool" where
  "sessions_ok rescue_vt ss \<longleftrightarrow> length ss \<le> MAX_SESSIONS \<and> distinct (map si_vt ss)
     \<and> (\<forall>s\<in>set ss. 1 \<le> si_vt s \<and> si_vt s \<le> 63 \<and> si_vt s \<noteq> rescue_vt \<and> 1 \<le> si_priority s)"

lemma find_session_None: "find_session ss vt i = None \<longleftrightarrow> vt \<notin> si_vt ` set ss"
  by (induction ss arbitrary: i) auto

lemma find_session_Some:
  "find_session ss vt i = Some k \<Longrightarrow> i \<le> k \<and> k - i < length ss \<and> si_vt (ss ! (k - i)) = vt"
proof (induction ss arbitrary: i)
  case (Cons s ss)
  then show ?case using Cons.IH [of "Suc i"] by (fastforce simp: nth_Cons' split: if_splits)
qed simp

lemma merge_session_vt [simp]: "si_vt (merge_session s u n p c) = si_vt s"
  by (simp add: merge_session_def Let_def split: prod.splits)

lemma merge_session_priority: "si_priority (merge_session s u n p c) = max (fst c) (si_priority s)"
  by (auto simp: merge_session_def Let_def split: prod.splits)

lemma add_session_ok:
  assumes "sessions_ok rv ss" "1 \<le> vt" "vt \<le> 63" "vt \<noteq> rv" "1 \<le> fst cls"
  shows "sessions_ok rv (add_session vt uid un name cls ss)"
proof (cases "find_session ss vt 0")
  case None
  then have "vt \<notin> si_vt ` set ss" by (simp add: find_session_None)
  then show ?thesis using None assms by (auto simp: add_session_def sessions_ok_def MAX_SESSIONS_def)
next
  case (Some i)
  then have i: "i < length ss" "si_vt (ss ! i) = vt" using find_session_Some [OF Some] by auto
  let ?m = "merge_session (ss ! i) uid un name cls"
  have "map si_vt (ss[i := ?m]) = map si_vt ss" using i by (simp add: map_update list_update_same_conv)
  moreover have "1 \<le> si_priority ?m" using assms(5) by (simp add: merge_session_priority)
  ultimately show ?thesis
    using Some i assms unfolding add_session_def sessions_ok_def
    by (auto simp del: map_update dest!: set_update_subset_insert [THEN subsetD])
qed

lemma scan_session_entry_ok:
  assumes "sessions_ok rv ss"
  shows "sessions_ok rv (fst (scan_session_entry w links me rv d (ss, cache)))"
  using assms
  by (auto simp: scan_session_entry_def Let_def intro: add_session_ok split: option.splits prod.splits)

lemma scan_fold_ok:
  "sessions_ok rv (fst sc) \<Longrightarrow>
   sessions_ok rv (fst (foldl (\<lambda>sc d. scan_session_entry w links me rv d sc) sc ents))"
proof (induction ents arbitrary: sc)
  case (Cons d ents)
  then show ?case by (cases sc) (simp add: scan_session_entry_ok)
qed simp

lemma filter_take_filter_none:
  assumes "\<And>p. Q p \<Longrightarrow> \<not> P p"
  shows "filter P (take n (filter Q xs)) = []"
  using assms by (auto simp: filter_empty_conv dest: in_set_takeD)

lemma length_take_le: "length (take n xs) \<le> n"
  by simp

section \<open>Properties\<close>

text \<open>
  C5 (user_commands_unprivileged). Every program the GUI starts on behalf of the detected user
  runs with that user's real and effective ids, which are never root's, and without the means to
  regain privileges, whatever the credential calls of the kernel do; when they fail nothing runs.
\<close>

theorem user_commands_unprivileged:
  assumes "s = detect_user_session w u s0" "e \<in> set (execute_as_user k s bb c cmd)"
  shows "c_uid (ex_cred e) = us_uid s \<and> c_euid (ex_cred e) = us_uid s \<and> us_uid s \<noteq> 0
    \<and> c_gid (ex_cred e) = us_gid s \<and> c_egid (ex_cred e) = us_gid s \<and> c_no_new_privs (ex_cred e)"
  using assms detect_user_session_not_root [of w u s0] drop_privs_result
  by (auto simp: execute_as_user_def execute_command_safe_def split: option.splits if_splits)

definition linux_cred_ops :: cred_ops where
  "linux_cred_ops =
     \<lparr>k_setgroups0 = (\<lambda>c. if c_euid c = 0 then Some (c\<lparr>c_groups := []\<rparr>) else None),
      k_initgroups = (\<lambda>u g c. if c_euid c = 0 then Some (c\<lparr>c_groups := [g]\<rparr>) else None),
      k_setgid = (\<lambda>g c. if c_euid c = 0 then Some (c\<lparr>c_gid := g, c_egid := g\<rparr>) else None),
      k_setuid = (\<lambda>u c. if c_euid c = 0 then Some (c\<lparr>c_uid := u, c_euid := u\<rparr>) else None)\<rparr>"

definition root_cred :: cred where
  "root_cred = \<lparr>c_uid = 0, c_euid = 0, c_gid = 0, c_egid = 0, c_groups = [0], c_no_new_privs = False\<rparr>"

theorem user_commands_unprivileged_witness:
  "\<exists>e\<in>set (execute_as_user linux_cred_ops (detect_user_session (passwd_world '''') (Some ''ann'') no_session) 7 root_cred (Some ''xflock4'')).
     c_uid (ex_cred e) = 1000 \<and> c_egid (ex_cred e) = 1000"
proof -
  let ?w = "passwd_world ''''"
  define s where "s = detect_user_session ?w (Some ''ann'') no_session"
  have "resolve_user ?w (Some ''ann'') no_session =
      no_session\<lparr>us_uid := 1000, us_gid := 1000, us_username := ''user'', us_home := ''/home/user''\<rparr>"
    by (simp add: resolve_user_def read_buf_def passwd_world_def no_session_def)
  then have s: "us_uid s = 1000" "us_gid s = 1000"
    unfolding s_def detect_user_session_def Let_def by (simp_all add: passwd_world_def)
  let ?l = "execute_as_user linux_cred_ops s 7 root_cred (Some ''xflock4'')"
  have ne: "hd ?l \<in> set ?l"
    by (simp add: execute_as_user_def execute_command_safe_def drop_privs_to_user_def drop_checked_def
        linux_cred_ops_def root_cred_def s)
  from user_commands_unprivileged [OF s_def ne] s ne show ?thesis unfolding s_def [symmetric] by metis
qed

text \<open>
  The environment of a command has exactly one \<^verbatim>\<open>HOME\<close> and one \<^verbatim>\<open>PATH\<close>
  entry, the program's own, at most 510 entries in all, and for commands run as root nothing of
  the user's environment.
\<close>

theorem command_env_trusted:
  "filter (\<lambda>p. starts_with p ''PATH='') (command_env s as_root) = [command_path]
   \<and> filter (\<lambda>p. starts_with p ''HOME='') (command_env s as_root) =
     [str_fit 512 (''HOME='' @ (if as_root then ''/root'' else us_home s))]
   \<and> length (command_env s as_root) \<le> 510
   \<and> command_env s True = [''HOME=/root'', command_path]"
proof -
  let ?r = "take 508 (filter (\<lambda>p. \<not> starts_with p ''HOME='' \<and> \<not> starts_with p ''PATH='') (raw_entries (us_raw_env s)))"
  have r: "filter (\<lambda>p. starts_with p ''PATH='') ?r = []" "filter (\<lambda>p. starts_with p ''HOME='') ?r = []"
    by (rule filter_take_filter_none, blast)+
  have rl: "length ?r \<le> 508" by (rule length_take_le)
  have h: "starts_with (str_fit 512 (''HOME='' @ x)) ''HOME=''"
    "\<not> starts_with (str_fit 512 (''HOME='' @ x)) ''PATH=''" for x
    by (simp_all add: starts_with_def str_fit_def)
  have p: "starts_with command_path ''PATH=''" "\<not> starts_with command_path ''HOME=''"
    by (simp_all add: starts_with_def command_path_def)
  have x: "str_fit 512 (''HOME='' @ ''/root'') = ''HOME=/root''" by (simp add: str_fit_def)
  define home where "home = str_fit 512 (''HOME='' @ (if as_root then ''/root'' else us_home s))"
  define rest where "rest = (if as_root then [] else ?r)"
  have env: "command_env s as_root = [home, command_path] @ rest"
    unfolding command_env_def home_def rest_def by (rule refl)
  have hm: "starts_with home ''HOME=''" "\<not> starts_with home ''PATH=''" unfolding home_def by (rule h)+
  have rs: "filter (\<lambda>p. starts_with p ''PATH='') rest = []" "filter (\<lambda>p. starts_with p ''HOME='') rest = []"
    using r unfolding rest_def by (simp_all only: filter.simps simp_thms split: if_split)
  have rsl: "length rest \<le> 508"
    using rl unfolding rest_def by (simp only: list.size le0 simp_thms split: if_split)
  have a: "filter (\<lambda>p. starts_with p ''PATH='') (command_env s as_root) = [command_path]"
    unfolding env filter_append using rs(1) hm(2) p(1) by simp
  have b: "filter (\<lambda>p. starts_with p ''HOME='') (command_env s as_root) = [home]"
    unfolding env filter_append using rs(2) hm(1) p(2) by simp
  have c: "length (command_env s as_root) \<le> 510" unfolding env using rsl by simp
  have d: "command_env s True = [''HOME=/root'', command_path]"
    unfolding command_env_def if_True x by (rule append_Nil2)
  show ?thesis using a b c d unfolding home_def by (intro conjI)
qed

text \<open>
  C29 (sessions_sorted_distinct). The session list has at most 32 entries, one per virtual
  terminal, in the order of the terminal numbers, which are from 1 to 63 and never the terminal
  the rescue screen itself occupies.
\<close>

theorem sessions_sorted_distinct:
  "sessions_ok rescue_vt (fst (scan_sessions w links me rescue_vt cache))
   \<and> sorted (map si_vt (fst (scan_sessions w links me rescue_vt cache)))"
proof (cases "w_dir w ''/proc''")
  case None
  then show ?thesis by (simp add: scan_sessions_def sessions_ok_def)
next
  case (Some ents)
  obtain ss c where f: "foldl (\<lambda>sc d. scan_session_entry w links me rescue_vt d sc) ([], cache) ents = (ss, c)"
    by fastforce
  have ok: "sessions_ok rescue_vt ss"
    using scan_fold_ok [of rescue_vt "([], cache)" w links me ents] f by (simp add: sessions_ok_def)
  have m: "mset (sort_sessions ss) = mset ss" "sorted (map si_vt (sort_sessions ss))"
    using sort_sessions_spec by auto
  have "length (sort_sessions ss) = length ss" "set (sort_sessions ss) = set ss"
    using m(1) by (metis size_mset, metis set_mset_mset)
  moreover have "distinct (map si_vt (sort_sessions ss)) \<longleftrightarrow> distinct (map si_vt ss)"
    using m(1) by (metis mset_eq_imp_distinct_iff mset_map)
  ultimately show ?thesis using ok m(2) f Some by (auto simp: scan_sessions_def sessions_ok_def)
qed

end
