(* ===== verification/Auth.thy ===== *)
theory Auth
  imports Session
begin

text \<open>
  Passwords: the checks of the root password through \<^verbatim>\<open>su\<close>, \<^verbatim>\<open>sudo\<close> and \<^verbatim>\<open>/etc/shadow\<close>, and the
  dialogue with \<^verbatim>\<open>passwd\<close> that changes the user's own password.

  The programs on the other side of the pseudo-terminal are not part of the repository. Each is a
  value of the type \<open>pty\<close>: a tree whose branches are what the parent's next \<^verbatim>\<open>select\<close> and \<^verbatim>\<open>read\<close>
  give and which depends, after every text, on the line the parent typed. Every node carries the
  exit status \<^verbatim>\<open>waitpid\<close> reports if the parent closes the terminal there (\<open>None\<close> when the program was
  killed or cannot be waited for). The tree is well-founded: a program that never stops writing
  would keep the parent reading.
\<close>

section \<open>Model\<close>

datatype pty =
    Eof "int option"
  | Quiet "int option" pty
  | Intr "int option" pty
  | Say "int option" string "string option \<Rightarrow> pty"

primrec hup :: "pty \<Rightarrow> int option" where
  "hup (Eof h) = h"
| "hup (Quiet h p) = h"
| "hup (Intr h p) = h"
| "hup (Say h t k) = h"

text \<open>
  What the checks depend on: whether \<^verbatim>\<open>forkpty\<close> succeeds, the program that an argument list starts
  under given credentials, and \<^verbatim>\<open>crypt\<close>.
\<close>

record auth_env =
  ae_forkpty :: "string list \<Rightarrow> bool"
  ae_program :: "string list \<Rightarrow> cred \<Rightarrow> pty"
  ae_crypt :: "string \<Rightarrow> string \<Rightarrow> string option"
  ae_glibc :: bool

subsection \<open>Checks through a terminal\<close>

text \<open>The buffer after one read of at most 1023 bytes.\<close>

definition pty_buf :: "string \<Rightarrow> string" where
  "pty_buf t = c_str (take 1023 t)"

definition password_prompt :: "string \<Rightarrow> bool" where
  "password_prompt buf \<longleftrightarrow>
     list_ex (contains buf) [''assword'', ''passe'', ''contrase'', ''Contrase'', ''Kennwort'', ''kennwort'',
       ''senha'', ''Senha'', ''Parola'', ''parola'']"

text \<open>The lines typed before the loop ends, and what the program is then.\<close>

primrec prompt_phase :: "string \<Rightarrow> pty \<Rightarrow> string list \<times> pty" where
  "prompt_phase pw (Eof h) = ([], Eof h)"
| "prompt_phase pw (Quiet h p) = ([], p)"
| "prompt_phase pw (Intr h p) = ([], p)"
| "prompt_phase pw (Say h t k) =
     (if t = [] then ([], k None)
      else if password_prompt (pty_buf t) then ([pw], k (Some pw))
      else prompt_phase pw (k None))"

text \<open>The loop that reads until nothing comes for a tenth of a second, and the exit status.\<close>

primrec drain :: "pty \<Rightarrow> int option" where
  "drain (Eof h) = h"
| "drain (Quiet h p) = h"
| "drain (Intr h p) = h"
| "drain (Say h t k) = (if t = [] then hup (k None) else drain (k None))"

text \<open>The child: it gives up root for the session's user before the program, exiting with 126 when it cannot.\<close>

definition pty_child ::
  "auth_env \<Rightarrow> (cred \<Rightarrow> cred option) \<Rightarrow> user_session \<Rightarrow> cred \<Rightarrow> string list \<Rightarrow> pty" where
  "pty_child e drop_privs s c argv =
     (if c_uid c = 0 \<and> us_uid s > 0
      then (case drop_privs c of None \<Rightarrow> Eof (Some 126) | Some c' \<Rightarrow> ae_program e argv c')
      else ae_program e argv c)"

definition verify_root_password_pty ::
  "auth_env \<Rightarrow> cred_ops \<Rightarrow> user_session \<Rightarrow> cred \<Rightarrow> string list \<Rightarrow> string \<Rightarrow> int \<times> string list" where
  "verify_root_password_pty e k s c argv password =
     (if \<not> ae_forkpty e argv then (-1, [])
      else (case prompt_phase password (pty_child e (drop_privs_to_user_with_groups k s) s c argv) of
              (sent, p) \<Rightarrow>
                (if drain p = Some 0 then 1 else if drain p = Some 127 then -1 else 0, sent)))"

definition su_argv :: "string list" where
  "su_argv = [''su'', ''-c'', ''true'']"

definition sudo_argv :: "string list" where
  "sudo_argv = [''sudo'', ''-k'', ''-S'', ''true'']"

definition verify_root_password_pty_su ::
  "auth_env \<Rightarrow> cred_ops \<Rightarrow> user_session \<Rightarrow> cred \<Rightarrow> string \<Rightarrow> int \<times> string list" where
  "verify_root_password_pty_su e k s c password = verify_root_password_pty e k s c su_argv password"

definition verify_root_password_pty_sudo ::
  "auth_env \<Rightarrow> cred_ops \<Rightarrow> user_session \<Rightarrow> cred \<Rightarrow> string \<Rightarrow> int \<times> string list" where
  "verify_root_password_pty_sudo e k s c password = verify_root_password_pty e k s c sudo_argv password"

subsection \<open>The shadow file\<close>

fun shadow_loop :: "(string \<Rightarrow> string \<Rightarrow> string option) \<Rightarrow> string \<Rightarrow> string list \<Rightarrow> int" where
  "shadow_loop crypt password [] = -1"
| "shadow_loop crypt password (line # rest) =
     (if starts_with line ''root:''
      then (case cut_at CHR '':'' (drop 5 line) of
              (_, None) \<Rightarrow> -1
            | (h, Some _) \<Rightarrow> if crypt password h = Some h then 1 else 0)
      else shadow_loop crypt password rest)"

definition verify_root_password_shadow :: "auth_env \<Rightarrow> world \<Rightarrow> string \<Rightarrow> int" where
  "verify_root_password_shadow e w password =
     (if ae_glibc e
      then (case read_buf w ''/etc/shadow'' 8192 of
              None \<Rightarrow> -1
            | Some b \<Rightarrow> shadow_loop (ae_crypt e) password (c_lines (c_str b)))
      else -1)"

text \<open>The result, and the lines typed into \<^verbatim>\<open>su\<close> and into \<^verbatim>\<open>sudo\<close>.\<close>

definition verify_root_password ::
  "auth_env \<Rightarrow> world \<Rightarrow> cred_ops \<Rightarrow> user_session \<Rightarrow> cred \<Rightarrow> string \<Rightarrow> int \<times> string list \<times> string list" where
  "verify_root_password e w k s c password =
     (case verify_root_password_pty_su e k s c password of
        (r, sent) \<Rightarrow>
          if r = 1 then (1, sent, [])
          else (case verify_root_password_pty_sudo e k s c password of
                  (r', sent') \<Rightarrow>
                    if r' = 1 then (1, sent, sent')
                    else (verify_root_password_shadow e w password, sent, sent')))"

subsection \<open>Changing the password\<close>

record pwd_trans =
  err_pwd_short_simple :: string
  err_pwd_incorrect :: string
  msg_pwd_changed :: string
  err_pwd_change_failed :: string

definition is_current :: "string \<Rightarrow> bool" where
  "is_current buf \<longleftrightarrow>
     list_ex (contains buf) [''current'', ''Current'', ''actuel'', ''Actuel'', ''courant'', ''Courant'',
       ''aktuelle'', ''Aktuelle'', ''actual'', ''Actual'', ''attuale'', ''Attuale'']"

text \<open>The accented words are in UTF-8, two bytes for each accented letter.\<close>

definition is_retype :: "string \<Rightarrow> bool" where
  "is_retype buf \<longleftrightarrow>
     list_ex (contains buf) [''retype'', ''Retype'', ''confirm'', ''Confirm'', ''ressaisissez'', ''Ressaisissez'',
       ''confirmez'', ''Confirmez'', ''repetez'', ''R'' @ [CHR 0xC3, CHR 0xA9] @ ''p'' @ [CHR 0xC3, CHR 0xA9] @ ''tez'',
       ''wiederholen'', ''Wiederholen'', ''best'' @ [CHR 0xC3, CHR 0xA4] @ ''tigen'',
       ''Best'' @ [CHR 0xC3, CHR 0xA4] @ ''tigen'', ''bestaetigen'', ''Bestaetigen'', ''repita'', ''Repita'',
       ''confirme'', ''Confirme'', ''vuelva'', ''Vuelva'', ''reinserisci'', ''Reinserisci'', ''conferma'',
       ''Conferma'', ''ripeti'', ''Ripeti'']"

definition is_new :: "string \<Rightarrow> bool" where
  "is_new buf \<longleftrightarrow>
     list_ex (contains buf) [''new'', ''New'', ''nouveau'', ''Nouveau'', ''nouvelle'', ''Nouvelle'', ''neue'',
       ''Neue'', ''neues'', ''Neues'', ''nueva'', ''Nueva'', ''nuevo'', ''Nuevo'', ''nuova'', ''Nuova'']
     \<and> \<not> is_retype buf"

record pwd_dialogue =
  oldpass_sent :: bool
  newpass_sent :: bool
  confirm_sent :: bool
  pd_msg :: "string option"
  pd_typed :: "string list"

text \<open>The line typed in answer to a text, if any.\<close>

definition pwd_reply :: "string \<Rightarrow> string \<Rightarrow> string \<Rightarrow> pwd_dialogue \<Rightarrow> pwd_dialogue \<times> string option" where
  "pwd_reply oldpass newpass buf d =
     (if is_current buf \<and> \<not> oldpass_sent d
      then (if oldpass \<noteq> [] then (d\<lparr>oldpass_sent := True\<rparr>, Some oldpass) else (d, None))
      else if is_new buf \<and> \<not> newpass_sent d then (d\<lparr>newpass_sent := True\<rparr>, Some newpass)
      else if is_retype buf \<and> \<not> confirm_sent d then (d\<lparr>confirm_sent := True\<rparr>, Some newpass)
      else (d, None))"

definition pwd_message :: "pwd_trans \<Rightarrow> nat \<Rightarrow> string \<Rightarrow> string option \<Rightarrow> string option" where
  "pwd_message tr outlen buf m =
     (let m1 = (if contains buf ''You must choose a longer password'' \<or> contains buf ''too short''
                   \<or> contains buf ''too simple''
                then Some (str_fit outlen (err_pwd_short_simple tr)) else m);
          m2 = (if contains buf ''Authentication token manipulation error'' \<or> contains buf ''Incorrect password''
                   \<or> contains buf ''Wrong password'' \<or> contains buf ''Authentication failure''
                then Some (str_fit outlen (err_pwd_incorrect tr)) else m1)
      in if contains buf ''password updated successfully'' \<or> contains buf ''successfully updated''
         then Some (str_fit outlen (msg_pwd_changed tr)) else m2)"

definition pwd_text ::
  "pwd_trans \<Rightarrow> nat \<Rightarrow> string \<Rightarrow> string \<Rightarrow> string \<Rightarrow> pwd_dialogue \<Rightarrow> pwd_dialogue \<times> string option" where
  "pwd_text tr outlen oldpass newpass buf d =
     (case pwd_reply oldpass newpass buf d of
        (d', l) \<Rightarrow>
          (d'\<lparr>pd_msg := pwd_message tr outlen buf (pd_msg d'),
              pd_typed := pd_typed d' @ (case l of None \<Rightarrow> [] | Some x \<Rightarrow> [x])\<rparr>, l))"

primrec change_loop ::
  "pwd_trans \<Rightarrow> nat \<Rightarrow> string \<Rightarrow> string \<Rightarrow> pty \<Rightarrow> pwd_dialogue \<Rightarrow> pwd_dialogue \<times> int option" where
  "change_loop tr outlen old new (Eof h) d = (d, h)"
| "change_loop tr outlen old new (Quiet h p) d = (d, h)"
| "change_loop tr outlen old new (Intr h p) d = change_loop tr outlen old new p d"
| "change_loop tr outlen old new (Say h t k) d =
     (if t = [] then (d, hup (k None))
      else (let (d', l) = pwd_text tr outlen old new (pty_buf t) d
            in change_loop tr outlen old new (k l) d'))"

definition passwd_argv :: "string list" where
  "passwd_argv = [''passwd'']"

text \<open>The result, the message shown (\<open>None\<close>: the buffer is left alone) and the lines typed.\<close>

definition change_own_password ::
  "auth_env \<Rightarrow> pwd_trans \<Rightarrow> cred_ops \<Rightarrow> user_session \<Rightarrow> cred \<Rightarrow> string \<Rightarrow> string \<Rightarrow> nat
   \<Rightarrow> int \<times> string option \<times> string list" where
  "change_own_password e tr k s c oldpass newpass outlen =
     (if \<not> ae_forkpty e passwd_argv then (-1, None, [])
      else (case change_loop tr outlen oldpass newpass
                   (pty_child e (drop_privs_to_user_passwd k s) s c passwd_argv)
                   \<lparr>oldpass_sent = False, newpass_sent = False, confirm_sent = False, pd_msg = None, pd_typed = []\<rparr> of
              (d, st) \<Rightarrow>
                if st = Some 0 then (0, Some (str_fit outlen (msg_pwd_changed tr)), pd_typed d)
                else (-1, Some (case pd_msg d of None \<Rightarrow> str_fit outlen (err_pwd_change_failed tr) | Some m \<Rightarrow> m),
                      pd_typed d)))"

section \<open>Lemmas\<close>

text \<open>A program that never ends with status 0 while all lines typed into it are from a given set.\<close>

primrec refuses :: "string set \<Rightarrow> pty \<Rightarrow> bool" where
  "refuses A (Eof h) = (h \<noteq> Some 0)"
| "refuses A (Quiet h p) = (h \<noteq> Some 0 \<and> refuses A p)"
| "refuses A (Intr h p) = (h \<noteq> Some 0 \<and> refuses A p)"
| "refuses A (Say h t k) =
     (h \<noteq> Some 0 \<and> refuses A (k None) \<and> (\<forall>l\<in>A. refuses A (k (Some l))))"

text \<open>
  A program that guards a secret: once a wrong line was typed into it, it ends with status 0 only
  after the secret. Nothing is said of a program into which no line was typed.
\<close>

primrec guards :: "string \<Rightarrow> pty \<Rightarrow> bool" where
  "guards secret (Eof h) = True"
| "guards secret (Quiet h p) = guards secret p"
| "guards secret (Intr h p) = guards secret p"
| "guards secret (Say h t k) =
     (guards secret (k None) \<and> (\<forall>l. l \<noteq> secret \<longrightarrow> refuses (- {secret}) (k (Some l))))"

lemma refuses_hup: "refuses A p \<Longrightarrow> hup p \<noteq> Some 0"
  by (cases p) auto

lemma refuses_drain: "refuses A p \<Longrightarrow> drain p \<noteq> Some 0"
  by (induction p) (auto simp: refuses_hup)

lemma guards_prompt:
  "guards secret p \<Longrightarrow> pw \<noteq> secret \<Longrightarrow> fst (prompt_phase pw p) \<noteq> []
   \<Longrightarrow> refuses (- {secret}) (snd (prompt_phase pw p))"
  by (induction p) (auto split: if_splits)

lemma unasked_prompt:
  "refuses {} p \<Longrightarrow> fst (prompt_phase pw p) = [] \<Longrightarrow> refuses {} (snd (prompt_phase pw p))"
  by (induction p) (auto split: if_splits)

lemma prompt_phase_sent: "fst (prompt_phase pw p) \<in> {[], [pw]}"
  by (induction p) auto

lemma with_groups_result:
  "drop_privs_to_user_with_groups k s c = Some c' \<Longrightarrow> c_uid c' = us_uid s \<and> c_euid c' = us_uid s"
  using drop_checked_result by (auto simp: drop_privs_to_user_with_groups_def)

lemma dropped_child:
  assumes "c_uid c = 0" "us_uid s > 0"
    and "pty_child e (drop_privs_to_user_with_groups k s) s c argv = p"
  shows "p = Eof (Some 126)
    \<or> (\<exists>c'. c_uid c' = us_uid s \<and> c_euid c' = us_uid s \<and> p = ae_program e argv c')"
  using assms by (auto simp: pty_child_def dest: with_groups_result split: option.splits)

text \<open>Acceptance by one program: its password, or a program that ends well without any line.\<close>

lemma verify_pty_sound:
  assumes "c_uid c = 0" "us_uid s > 0"
    and g: "\<And>c'. c_uid c' = us_uid s \<Longrightarrow> c_euid c' = us_uid s \<Longrightarrow> guards secret (ae_program e argv c')"
    and v: "verify_root_password_pty e k s c argv pw = (1, sent)"
  shows "pw = secret
    \<or> sent = [] \<and> (\<exists>c'. c_uid c' = us_uid s \<and> c_euid c' = us_uid s \<and> \<not> refuses {} (ae_program e argv c'))"
proof (rule ccontr)
  assume n: "\<not> ?thesis"
  let ?p = "pty_child e (drop_privs_to_user_with_groups k s) s c argv"
  have d: "drain (snd (prompt_phase pw ?p)) = Some 0" "fst (prompt_phase pw ?p) = sent"
    using v by (auto simp: verify_root_password_pty_def split: prod.splits if_splits)
  have p: "guards secret ?p" "sent = [] \<Longrightarrow> refuses {} ?p"
    using dropped_child [OF assms(1,2) refl, of e k argv] g n by auto
  show False
  proof (cases "sent = []")
    case True
    then show ?thesis using unasked_prompt [OF p(2)] refuses_drain d by blast
  next
    case False
    then show ?thesis using guards_prompt [OF p(1)] refuses_drain n d by blast
  qed
qed

lemma verify_pty_sent: "snd (verify_root_password_pty e k s c argv pw) \<in> {[], [pw]}"
  using prompt_phase_sent [of pw "pty_child e (drop_privs_to_user_with_groups k s) s c argv"]
  by (auto simp: verify_root_password_pty_def split: prod.splits)

text \<open>The hash field of the account \<^verbatim>\<open>root\<close>.\<close>

fun root_hash :: "string list \<Rightarrow> string option" where
  "root_hash [] = None"
| "root_hash (line # rest) =
     (if starts_with line ''root:''
      then (if CHR '':'' \<in> set (drop 5 line) then Some (takeWhile (\<lambda>c. c \<noteq> CHR '':'') (drop 5 line)) else None)
      else root_hash rest)"

lemma takeWhile_cut: "c \<notin> set a \<Longrightarrow> takeWhile (\<lambda>x. x \<noteq> c) (a @ c # b) = a"
  by (induction a) auto

lemma shadow_loop_accepts:
  "shadow_loop crypt pw lines = 1 \<longleftrightarrow> (\<exists>h. root_hash lines = Some h \<and> crypt pw h = Some h)"
proof (induction lines)
  case (Cons line rest)
  obtain a r where c: "cut_at CHR '':'' (drop 5 line) = (a, r)" by fastforce
  show ?case
  proof (cases r)
    case None
    then have "CHR '':'' \<notin> set (drop 5 line)" using c by (simp add: cut_at_None)
    then show ?thesis using c None Cons by simp
  next
    case (Some b)
    then have "drop 5 line = a @ CHR '':'' # b" "CHR '':'' \<notin> set a" using c by (auto simp: cut_at_Some)
    then have "takeWhile (\<lambda>x. x \<noteq> CHR '':'') (drop 5 line) = a" "CHR '':'' \<in> set (drop 5 line)"
      by (simp_all add: takeWhile_cut)
    then show ?thesis using c Some Cons by auto
  qed
qed simp

lemma pwd_typed_bound:
  assumes "mset (pd_typed d) + (if oldpass_sent d then {#} else {#old#})
      + (if newpass_sent d then {#} else {#new#}) + (if confirm_sent d then {#} else {#new#}) \<subseteq># {#old, new, new#}"
  shows "mset (pd_typed (fst (change_loop tr n old new p d))) \<subseteq># {#old, new, new#}"
  using assms
proof (induction p arbitrary: d)
  case (Say h t k)
  show ?case
  proof (cases "t = []")
    case True
    then show ?thesis using Say.prems by (auto elim!: subset_mset.order_trans [rotated] simp: add.assoc)
  next
    case False
    obtain d' l where d': "pwd_text tr n old new (pty_buf t) d = (d', l)" by fastforce
    have "mset (pd_typed d') + (if oldpass_sent d' then {#} else {#old#})
        + (if newpass_sent d' then {#} else {#new#}) + (if confirm_sent d' then {#} else {#new#})
      = mset (pd_typed d) + (if oldpass_sent d then {#} else {#old#})
        + (if newpass_sent d then {#} else {#new#}) + (if confirm_sent d then {#} else {#new#})"
      using d' by (auto simp: pwd_text_def pwd_reply_def split: prod.splits if_splits)
    then show ?thesis using Say.IH [of "k l" d'] Say.prems d' False by simp
  qed
qed (auto elim!: subset_mset.order_trans [rotated] simp: add.assoc)

subsection \<open>The dialogue of \<^verbatim>\<open>passwd\<close>\<close>

text \<open>
  What is relied on of \<^verbatim>\<open>passwd\<close> under \<^verbatim>\<open>LC_ALL=C\<close>. It asks for the current password, for the new
  one and for the new one again, each time with a prompt that reaches the terminal in one piece and
  with a line typed into it; between the prompts it may write any texts that no prompt is recognised
  in. After a wrong current password it never succeeds; a new password it finds too weak it does not
  accept when typed again (it may ask again); after the same acceptable one twice it ends with 0.
  Which passwords are acceptable is left open.
\<close>

definition remark :: "string \<Rightarrow> bool" where
  "remark t \<longleftrightarrow> t \<noteq> [] \<and> \<not> is_current (pty_buf t) \<and> \<not> is_new (pty_buf t) \<and> \<not> is_retype (pty_buf t)"

definition prompts :: "string \<Rightarrow> string \<Rightarrow> bool" where
  "prompts t q \<longleftrightarrow> (\<exists>before. t = before @ q) \<and> length t \<le> 1023 \<and> NUL \<notin> set t"

datatype passwd_stage = AskOld | AskNew | AskAgain string | Told

inductive passwd_dialogue :: "string \<Rightarrow> (string \<Rightarrow> bool) \<Rightarrow> passwd_stage \<Rightarrow> pty \<Rightarrow> bool"
  for stored and acceptable where
  pd_intr: "passwd_dialogue stored acceptable st (Intr h p)" if "passwd_dialogue stored acceptable st p"
| pd_remark: "passwd_dialogue stored acceptable st (Say h t k)"
    if "remark t" "passwd_dialogue stored acceptable st (k None)"
| pd_old: "passwd_dialogue stored acceptable AskOld (Say h t k)"
    if "prompts t ''Current password: ''" "passwd_dialogue stored acceptable AskNew (k (Some stored))"
      "\<And>l. l \<noteq> stored \<Longrightarrow> refuses UNIV (k (Some l))"
| pd_new: "passwd_dialogue stored acceptable AskNew (Say h t k)"
    if "prompts t ''New password: ''" "\<not> is_retype t"
      "\<And>l. acceptable l \<Longrightarrow> passwd_dialogue stored acceptable (AskAgain l) (k (Some l))"
      "\<And>l. \<not> acceptable l \<Longrightarrow> refuses {l} (k (Some l))"
| pd_again: "passwd_dialogue stored acceptable (AskAgain l) (Say h t k)"
    if "prompts t ''Retype new password: ''" "passwd_dialogue stored acceptable Told (k (Some l))"
| pd_told: "passwd_dialogue stored acceptable Told (Eof (Some 0))"

lemma prompts_buf: "prompts t q \<Longrightarrow> pty_buf t = t \<and> contains t q"
  by (auto simp: prompts_def pty_buf_def contains_iff) (metis append.right_neutral)

lemma contains_trans: "contains t q \<Longrightarrow> contains q r \<Longrightarrow> contains t r"
  by (auto simp: contains_iff) (metis append.assoc)

lemma prompt_words:
  "contains ''Current password: '' ''Current''" "contains ''New password: '' ''New''"
  "contains ''Retype new password: '' ''Retype''"
  by code_simp+

lemma prompts_word: "prompts t q \<Longrightarrow> contains q r \<Longrightarrow> contains (pty_buf t) r \<and> (r \<noteq> [] \<longrightarrow> t \<noteq> [])"
proof -
  assume "prompts t q" "contains q r"
  then have "contains t r" "pty_buf t = t" using prompts_buf contains_trans by blast+
  then show ?thesis by (auto simp: contains_iff)
qed

lemma prompt_old:
  assumes "prompts t ''Current password: ''"
  shows "t \<noteq> [] \<and> is_current (pty_buf t)"
  unfolding is_current_def using prompts_word [OF assms prompt_words(1)] by simp

lemma prompt_new:
  assumes "prompts t ''New password: ''" "\<not> is_retype t"
  shows "t \<noteq> [] \<and> is_new (pty_buf t)"
  unfolding is_new_def using prompts_word [OF assms(1) prompt_words(2)] prompts_buf [OF assms(1)] assms(2) by simp

lemma prompt_again:
  assumes "prompts t ''Retype new password: ''"
  shows "t \<noteq> [] \<and> is_retype (pty_buf t)"
  unfolding is_retype_def using prompts_word [OF assms prompt_words(3)] by simp

lemma change_loop_answer:
  "t \<noteq> [] \<Longrightarrow> pwd_text tr n old new (pty_buf t) d = (d', l)
   \<Longrightarrow> change_loop tr n old new (Say h t k) d = change_loop tr n old new (k l) d'"
  by simp

text \<open>The flags of the loop at a stage of the dialogue.\<close>

fun at_stage :: "string \<Rightarrow> string \<Rightarrow> passwd_stage \<Rightarrow> pwd_dialogue \<Rightarrow> bool" where
  "at_stage old new AskOld d = (\<not> oldpass_sent d \<and> \<not> newpass_sent d \<and> \<not> confirm_sent d \<and> pd_typed d = [])"
| "at_stage old new AskNew d = (oldpass_sent d \<and> \<not> newpass_sent d \<and> \<not> confirm_sent d \<and> pd_typed d = [old])"
| "at_stage old new (AskAgain l) d =
     (l = new \<and> oldpass_sent d \<and> newpass_sent d \<and> \<not> confirm_sent d \<and> pd_typed d = [old, new])"
| "at_stage old new Told d =
     (oldpass_sent d \<and> newpass_sent d \<and> confirm_sent d \<and> pd_typed d = [old, new, new])"

lemma pwd_text_remark:
  "remark t \<Longrightarrow> at_stage old new st d \<Longrightarrow>
   \<exists>d'. pwd_text tr n old new (pty_buf t) d = (d', None) \<and> at_stage old new st d'"
  by (cases st) (auto simp: remark_def pwd_text_def pwd_reply_def)

lemma refused_loop:
  "refuses A p \<Longrightarrow> (oldpass_sent d \<or> old \<in> A) \<Longrightarrow> (newpass_sent d \<and> confirm_sent d \<or> new \<in> A)
   \<Longrightarrow> snd (change_loop tr n old new p d) \<noteq> Some 0"
proof (induction p arbitrary: d)
  case (Say h t k)
  obtain d' l where d': "pwd_text tr n old new (pty_buf t) d = (d', l)" by fastforce
  then have "refuses A (k l)" "oldpass_sent d' \<or> old \<in> A" "newpass_sent d' \<and> confirm_sent d' \<or> new \<in> A"
    using Say.prems by (auto simp: pwd_text_def pwd_reply_def split: prod.splits if_splits)
  then show ?case using Say d' refuses_hup by (cases "t = []") auto
qed auto

lemma passwd_loop:
  assumes "passwd_dialogue stored acceptable st p" "at_stage old new st d" "old \<noteq> []"
    and "st = AskOld \<or> old = stored" "st = Told \<or> st = AskAgain new \<longrightarrow> acceptable new"
  shows "(snd (change_loop tr n old new p d) = Some 0 \<longleftrightarrow> old = stored \<and> acceptable new)
    \<and> (old = stored \<and> acceptable new \<longrightarrow> pd_typed (fst (change_loop tr n old new p d)) = [old, new, new])"
  using assms
proof (induction arbitrary: d)
  case (pd_remark t st k h)
  obtain d' where "pwd_text tr n old new (pty_buf t) d = (d', None)" "at_stage old new st d'"
    using pwd_text_remark [OF pd_remark.hyps(1) pd_remark.prems(1)] by blast
  then show ?case using pd_remark by (auto simp: remark_def)
next
  case (pd_old t k h)
  let ?d = "fst (pwd_text tr n old new (pty_buf t) d)"
  note p = prompt_old [OF pd_old.hyps(1)]
  have t: "pwd_text tr n old new (pty_buf t) d = (?d, Some old)" "at_stage old new AskNew ?d"
    using p pd_old.prems by (auto simp: pwd_text_def pwd_reply_def)
  note step = change_loop_answer [OF conjunct1 [OF p] t(1)]
  show ?case
  proof (cases "old = stored")
    case True
    then show ?thesis unfolding step using pd_old.IH [of ?d] pd_old.prems(2) t(2) by blast
  next
    case False
    then show ?thesis unfolding step using refused_loop [OF pd_old.hyps(3), of old ?d old new] by simp
  qed
next
  case (pd_new t k h)
  let ?d = "fst (pwd_text tr n old new (pty_buf t) d)"
  note p = prompt_new [OF pd_new.hyps(1,2)]
  have t: "pwd_text tr n old new (pty_buf t) d = (?d, Some new)" "at_stage old new (AskAgain new) ?d"
    using p pd_new.prems by (auto simp: pwd_text_def pwd_reply_def)
  note step = change_loop_answer [OF conjunct1 [OF p] t(1)]
  show ?case
  proof (cases "acceptable new")
    case True
    then show ?thesis unfolding step using pd_new.IH [of new ?d] pd_new.prems t(2) by blast
  next
    case False
    then show ?thesis unfolding step using refused_loop [OF pd_new.hyps(4), of new ?d old new] t(2) by simp
  qed
next
  case (pd_again t k l h)
  let ?d = "fst (pwd_text tr n old new (pty_buf t) d)"
  note p = prompt_again [OF pd_again.hyps(1)]
  have t: "pwd_text tr n old new (pty_buf t) d = (?d, Some new)" "at_stage old new Told ?d" "l = new"
    using p pd_again.prems by (auto simp: pwd_text_def pwd_reply_def is_new_def)
  show ?case unfolding change_loop_answer [OF conjunct1 [OF p] t(1)]
    using pd_again.IH [of ?d] pd_again.prems t(2,3) by auto
qed auto

section \<open>Properties\<close>

text \<open>
  C4 (root_password_sound). Let \<^verbatim>\<open>su\<close> guard root's password and \<^verbatim>\<open>sudo\<close> the user's (after a wrong line
  they succeed only for the right one), and let \<^verbatim>\<open>crypt\<close> reproduce root's stored hash only from root's
  password. When the check of the rescue screen, which runs as root, accepts a password, it is root's
  or the user's, or \<^verbatim>\<open>su\<close> or \<^verbatim>\<open>sudo\<close>, run with the session user's ids, ended with success although no line
  was typed into it, which a configuration that asks for no password (\<^verbatim>\<open>NOPASSWD\<close>) makes it do. The
  password is typed at most once into each program.
\<close>

theorem root_password_sound:
  assumes "c_uid c = 0" "us_uid s > 0"
    and "\<And>c'. c_uid c' = us_uid s \<Longrightarrow> c_euid c' = us_uid s \<Longrightarrow> guards root_pw (ae_program e su_argv c')"
    and "\<And>c'. c_uid c' = us_uid s \<Longrightarrow> c_euid c' = us_uid s \<Longrightarrow> guards user_pw (ae_program e sudo_argv c')"
    and "\<And>b h. w_file w ''/etc/shadow'' = Some b \<Longrightarrow> root_hash (c_lines (c_str (take 8191 b))) = Some h
           \<Longrightarrow> ae_crypt e pw h = Some h \<Longrightarrow> pw = root_pw"
    and "verify_root_password e w k s c pw = (r, su_lines, sudo_lines)"
  shows "(r = 1 \<longrightarrow> pw = root_pw \<or> pw = user_pw
       \<or> (\<exists>c'. c_uid c' = us_uid s \<and> c_euid c' = us_uid s
            \<and> (su_lines = [] \<and> \<not> refuses {} (ae_program e su_argv c')
               \<or> sudo_lines = [] \<and> \<not> refuses {} (ae_program e sudo_argv c'))))
    \<and> su_lines \<in> {[], [pw]} \<and> sudo_lines \<in> {[], [pw]}"
proof -
  note defs = verify_root_password_def verify_root_password_pty_su_def verify_root_password_pty_sudo_def
  obtain r1 l1 where v1: "verify_root_password_pty e k s c su_argv pw = (r1, l1)" by fastforce
  obtain r2 l2 where v2: "verify_root_password_pty e k s c sudo_argv pw = (r2, l2)" by fastforce
  have su: "r1 = 1 \<Longrightarrow> pw = root_pw \<or> l1 = [] \<and>
      (\<exists>c'. c_uid c' = us_uid s \<and> c_euid c' = us_uid s \<and> \<not> refuses {} (ae_program e su_argv c'))"
    using verify_pty_sound [OF assms(1-3)] v1 by simp
  have sudo: "r2 = 1 \<Longrightarrow> pw = user_pw \<or> l2 = [] \<and>
      (\<exists>c'. c_uid c' = us_uid s \<and> c_euid c' = us_uid s \<and> \<not> refuses {} (ae_program e sudo_argv c'))"
    using verify_pty_sound [OF assms(1,2,4)] v2 by simp
  have shadow: "verify_root_password_shadow e w pw = 1 \<Longrightarrow> pw = root_pw"
    using assms(5) by (auto simp: verify_root_password_shadow_def read_buf_def Let_def shadow_loop_accepts
        split: if_splits option.splits)
  have r: "r = 1 \<and> r1 = 1 \<and> su_lines = l1 \<and> sudo_lines = []
      \<or> r = 1 \<and> r2 = 1 \<and> su_lines = l1 \<and> sudo_lines = l2
      \<or> r = verify_root_password_shadow e w pw \<and> su_lines = l1 \<and> sudo_lines = l2"
    using assms(6) v1 v2 by (auto simp: defs split: if_splits)
  have l: "l1 \<in> {[], [pw]}" "l2 \<in> {[], [pw]}"
    using verify_pty_sent [of e k s c su_argv pw] verify_pty_sent [of e k s c sudo_argv pw] v1 v2 by auto
  show ?thesis using r
  proof (elim disjE)
    assume "r = 1 \<and> r1 = 1 \<and> su_lines = l1 \<and> sudo_lines = []"
    then show ?thesis using su l by blast
  next
    assume "r = 1 \<and> r2 = 1 \<and> su_lines = l1 \<and> sudo_lines = l2"
    then show ?thesis using sudo l by blast
  next
    assume "r = verify_root_password_shadow e w pw \<and> su_lines = l1 \<and> sudo_lines = l2"
    then show ?thesis using shadow l by auto
  qed
qed

text \<open>\<^verbatim>\<open>su\<close> or \<^verbatim>\<open>sudo\<close> asking once for a password, which root is not asked for.\<close>

definition asking :: "string \<Rightarrow> cred \<Rightarrow> pty" where
  "asking secret c =
     (if c_uid c = 0 then Eof (Some 0)
      else Say None ''Password: ''
             (\<lambda>l. case l of None \<Rightarrow> Quiet None (Eof None)
                  | Some x \<Rightarrow> if x = secret then Eof (Some 0) else Eof (Some 1)))"

definition asking_env :: auth_env where
  "asking_env = \<lparr>ae_forkpty = (\<lambda>_. True),
     ae_program = (\<lambda>argv c. asking (if argv = su_argv then ''toor'' else ''hunter2'') c),
     ae_crypt = (\<lambda>p h. Some p), ae_glibc = True\<rparr>"

definition ann :: user_session where
  "ann = no_session\<lparr>us_uid := 1001, us_gid := 100\<rparr>"

theorem root_password_sound_witness:
  "fst (verify_root_password asking_env (passwd_world []) linux_cred_ops ann root_cred ''toor'') = 1
   \<and> fst (verify_root_password asking_env (passwd_world []) linux_cred_ops ann root_cred ''guess'') \<noteq> 1"
proof
  show "fst (verify_root_password asking_env (passwd_world []) linux_cred_ops ann root_cred ''toor'') = 1"
    by code_simp
next
  obtain r l l' where v: "verify_root_password asking_env (passwd_world []) linux_cred_ops ann root_cred ''guess'' = (r, l, l')"
    by (metis prod_cases3)
  have h: "guards ''toor'' (ae_program asking_env su_argv c')" "guards ''hunter2'' (ae_program asking_env sudo_argv c')"
    "refuses {} (ae_program asking_env su_argv c')" "refuses {} (ae_program asking_env sudo_argv c')"
    if "c_uid c' = us_uid ann" "c_euid c' = us_uid ann" for c'
    using that by (simp_all add: asking_env_def asking_def ann_def su_argv_def sudo_argv_def)
  have "r = 1 \<longrightarrow> ''guess'' = ''toor'' \<or> ''guess'' = ''hunter2''"
    using root_password_sound [OF _ _ h(1) h(2) _ v] h(3,4) by (auto simp: root_cred_def ann_def passwd_world_def)
  then have "r \<noteq> 1" by simp
  then show "fst (verify_root_password asking_env (passwd_world []) linux_cred_ops ann root_cred ''guess'') \<noteq> 1"
    using v by simp
qed

text \<open>
  A \<^verbatim>\<open>sudo\<close> that lets the user run commands without a password makes
  the check accept every password for root, the empty one included: nothing ties the acceptance to a
  prompt having been answered.
\<close>

theorem root_password_nopasswd:
  "verify_root_password
     (asking_env\<lparr>ae_program := (\<lambda>argv c. if argv = sudo_argv then Eof (Some 0) else Eof (Some 1))\<rparr>)
     w linux_cred_ops ann root_cred pw = (1, [], [])"
  by (simp add: verify_root_password_def verify_root_password_pty_su_def verify_root_password_pty_sudo_def
      verify_root_password_pty_def asking_env_def pty_child_def drop_privs_to_user_with_groups_def
      drop_checked_def linux_cred_ops_def root_cred_def ann_def su_argv_def sudo_argv_def)

text \<open>
  Whatever the program that changes the password writes, it is
  given the old password at most once and the new one at most twice, and nothing else; success is
  reported exactly when the program exits with 0.
\<close>

theorem password_dialogue_bounded:
  "(case change_own_password e tr k s c old new n of
      (r, m, typed) \<Rightarrow> mset typed \<subseteq># {#old, new, new#}
        \<and> (r = 0 \<and> m = Some (str_fit n (msg_pwd_changed tr)) \<or> r = -1)
        \<and> (r = 0 \<longleftrightarrow> ae_forkpty e passwd_argv
             \<and> snd (change_loop tr n old new (pty_child e (drop_privs_to_user_passwd k s) s c passwd_argv)
                 \<lparr>oldpass_sent = False, newpass_sent = False, confirm_sent = False, pd_msg = None, pd_typed = []\<rparr>)
               = Some 0))"
proof -
  let ?d = "\<lparr>oldpass_sent = False, newpass_sent = False, confirm_sent = False, pd_msg = None, pd_typed = []\<rparr>"
  let ?p = "pty_child e (drop_privs_to_user_passwd k s) s c passwd_argv"
  obtain d st where l: "change_loop tr n old new ?p ?d = (d, st)" by fastforce
  have "mset (pd_typed (fst (change_loop tr n old new ?p ?d))) \<subseteq># {#old, new, new#}"
    by (rule pwd_typed_bound) simp
  then show ?thesis using l by (simp add: change_own_password_def)
qed


text \<open>A program with that dialogue: \<^verbatim>\<open>ann\<close>'s password is \<^verbatim>\<open>old1\<close> and new ones have at least four characters.\<close>

definition ann_passwd :: pty where
  "ann_passwd =
     Say None ''Changing password for ann.\<newline>'' (\<lambda>_.
     Say None ''Current password: '' (\<lambda>a. if a \<noteq> Some ''old1''
       then Say None ''\<newline>passwd: Authentication token manipulation error\<newline>'' (\<lambda>_. Eof (Some 10))
       else Say None ''\<newline>New password: '' (\<lambda>b. case b of None \<Rightarrow> Quiet None (Eof None) | Some x \<Rightarrow>
         if length x < 4 then Say None ''\<newline>You must choose a longer password\<newline>'' (\<lambda>_. Eof (Some 10))
         else Say None ''\<newline>Retype new password: '' (\<lambda>c. if c \<noteq> b
           then Say None ''\<newline>Sorry, passwords do not match.\<newline>'' (\<lambda>_. Eof (Some 10))
           else Say None ''\<newline>passwd: password updated successfully\<newline>'' (\<lambda>_. Eof (Some 0))))))"

lemma ann_passwd_texts:
  "remark ''Changing password for ann.\<newline>'' = True" "remark ''\<newline>passwd: password updated successfully\<newline>'' = True"
  "is_retype ''\<newline>New password: '' = False"
  by code_simp+

lemma ann_passwd_dialogue: "passwd_dialogue ''old1'' (\<lambda>x. length x \<ge> 4) AskOld ann_passwd"
  unfolding ann_passwd_def
  by (rule pd_remark, simp only: ann_passwd_texts, rule pd_old, simp add: prompts_def)
    (auto intro!: pd_new pd_again pd_remark [OF _ pd_told] simp: ann_passwd_texts prompts_def)


text \<open>
  The words the prompts are recognised by are looked for in everything the program writes. For an account
  whose name contains \<^verbatim>\<open>new\<close> the new password is typed into the prompt for the current one when the
  announcement arrives before that prompt.
\<close>

lemma user_name_taken_for_prompt:
  "pwd_reply old fresh ''Changing password for newton.''
     \<lparr>oldpass_sent = False, newpass_sent = False, confirm_sent = False, pd_msg = None, pd_typed = []\<rparr>
   = (\<lparr>oldpass_sent = False, newpass_sent = True, confirm_sent = False, pd_msg = None, pd_typed = []\<rparr>, Some fresh)"
proof -
  have "is_current ''Changing password for newton.'' = False" "is_new ''Changing password for newton.'' = True"
    by code_simp+
  then show ?thesis by (simp add: pwd_reply_def)
qed

end
