(* ===== verification/Input.thy ===== *)
theory Input
  imports Prelude
begin

text \<open>
  The rescue screen's input: the packets of the mouse device with their synchronisation, the filters
  that keep a click from reaching a window it was not meant for, the two buttons drawn by hand, and
  the keyboard layout. What the keys do is in the theory \<open>Keys\<close>.
\<close>

section \<open>Model\<close>

unbundle bit_operations_syntax

subsection \<open>Mouse packets\<close>

record mouse =
  ms_x :: int
  ms_y :: int
  ms_prev_x :: int
  ms_prev_y :: int
  ms_left :: bool
  ms_prev_left :: bool
  ms_acc :: "8 word list"
  ms_idle :: int
  ms_ignore :: bool

text \<open>A complete packet: buttons and the two signed movements, then the clamping to the screen.\<close>

definition mouse_packet :: "int \<Rightarrow> int \<Rightarrow> 8 word \<Rightarrow> 8 word \<Rightarrow> 8 word \<Rightarrow> mouse \<Rightarrow> mouse" where
  "mouse_packet w h b0 b1 b2 m =
     (let x0 = ms_x m + sint b1;
          y0 = ms_y m - sint b2;
          x1 = (if x0 < 0 then 0 else x0);
          y1 = (if y0 < 0 then 0 else y0);
          x2 = (if x1 \<ge> w then w - 1 else x1);
          y2 = (if y1 \<ge> h then h - 1 else y1)
      in m\<lparr>ms_left := bit b0 0, ms_x := x2, ms_y := y2, ms_acc := []\<rparr>)"

text \<open>One byte; a third byte ends a packet, or shifts the window by one when the first has no sync bit.\<close>

definition mouse_byte :: "int \<Rightarrow> int \<Rightarrow> mouse \<Rightarrow> 8 word \<Rightarrow> mouse" where
  "mouse_byte w h m b =
     (case ms_acc m of
        [b0, b1] \<Rightarrow>
          if b0 AND 0x08 = 0x08 then mouse_packet w h b0 b1 b m
          else m\<lparr>ms_acc := [b1, b]\<rparr>
      | acc \<Rightarrow> m\<lparr>ms_acc := acc @ [b]\<rparr>)"

text \<open>
  The loop over \<^verbatim>\<open>read\<close>. The list holds what the successive reads return, at most 128 bytes each; the
  loop ends at an empty read, and the read after the sixteenth happens before the limit is looked
  at, so that its bytes are dropped.
\<close>

fun mouse_reads :: "int \<Rightarrow> int \<Rightarrow> nat \<Rightarrow> 8 word list list \<Rightarrow> mouse \<Rightarrow> mouse \<times> nat" where
  "mouse_reads w h lim [] m = (m, 0)"
| "mouse_reads w h lim (c # cs) m =
     (if c = [] then (m, 0)
      else if lim < 16
      then (case mouse_reads w h (Suc lim) cs (foldl (mouse_byte w h) m c) of (m', n) \<Rightarrow> (m', n + length c))
      else (m, 0))"

definition mouse_idle :: "nat \<Rightarrow> mouse \<Rightarrow> mouse" where
  "mouse_idle bytes_read m =
     (if bytes_read > 0 then m\<lparr>ms_idle := 0\<rparr>
      else (let idle = ms_idle m + 1;
                m1 = m\<lparr>ms_idle := idle\<rparr>;
                m2 = (if idle > 2 then m1\<lparr>ms_acc := []\<rparr> else m1)
            in if idle > 5 then m2\<lparr>ms_left := False, ms_prev_left := False\<rparr> else m2))"

text \<open>\<open>reads\<close> is \<open>None\<close> when there is no mouse device.\<close>

definition read_mouse :: "int \<Rightarrow> int \<Rightarrow> 8 word list list option \<Rightarrow> mouse \<Rightarrow> mouse" where
  "read_mouse w h reads m =
     (let m0 = m\<lparr>ms_prev_left := ms_left m\<rparr> in
      case reads of
        None \<Rightarrow> mouse_idle 0 m0
      | Some cs \<Rightarrow> (case mouse_reads w h 0 cs m0 of (m1, n) \<Rightarrow> mouse_idle n m1))"

subsection \<open>Clicks\<close>

text \<open>
  The change from keyboard to mouse swallows the click that caused it, and the first frames after a
  dialogue opened swallow every click. The second component is \<^verbatim>\<open>keyboard_active\<close>, the third
  \<^verbatim>\<open>click_cooldown\<close>.
\<close>

definition filter_clicks :: "mouse \<times> bool \<times> int \<Rightarrow> mouse \<times> bool \<times> int" where
  "filter_clicks s =
     (case s of (m, keyboard_active, click_cooldown) \<Rightarrow>
        let moved = (ms_x m \<noteq> ms_prev_x m \<or> ms_y m \<noteq> ms_prev_y m \<or> ms_left m \<noteq> ms_prev_left m);
            m1 = (if moved
                  then m\<lparr>ms_prev_x := ms_x m, ms_prev_y := ms_y m,
                         ms_ignore := ms_ignore m \<or> (keyboard_active \<and> ms_left m)\<rparr> else m);
            m2 = (if ms_ignore m1
                  then (if \<not> ms_left m1 then m1\<lparr>ms_ignore := False\<rparr> else m1\<lparr>ms_left := False\<rparr>)
                  else m1)
        in if click_cooldown > 0
           then (m2\<lparr>ms_left := False, ms_prev_left := False\<rparr>, keyboard_active \<and> \<not> moved, click_cooldown - 1)
           else (m2, keyboard_active \<and> \<not> moved, click_cooldown))"

text \<open>Sizes of the screen, of the two pictures at its lower right corner and of the power menu.\<close>

record layout =
  ly_w :: int
  ly_h :: int
  shutdown_w :: int
  shutdown_h :: int
  terminal_w :: int
  terminal_h :: int
  pm_menu_w :: int

definition in_box :: "mouse \<Rightarrow> int \<Rightarrow> int \<Rightarrow> int \<Rightarrow> int \<Rightarrow> bool" where
  "in_box m x y w h \<longleftrightarrow> x \<le> ms_x m \<and> ms_x m \<le> x + w \<and> y \<le> ms_y m \<and> ms_y m \<le> y + h"

definition btn_shutdown_x :: "layout \<Rightarrow> int" where
  "btn_shutdown_x l = ly_w l - shutdown_w l - 20"

definition btn_shutdown_y :: "layout \<Rightarrow> int" where
  "btn_shutdown_y l = ly_h l - shutdown_h l - 20"

definition btn_terminal_x :: "layout \<Rightarrow> int" where
  "btn_terminal_x l = btn_shutdown_x l - terminal_w l - 4"

definition btn_terminal_y :: "layout \<Rightarrow> int" where
  "btn_terminal_y l = ly_h l - terminal_h l - 20"

text \<open>The action a click on the hand-drawn buttons asks for, and whether the power menu stays open.\<close>

definition manual_buttons :: "layout \<Rightarrow> bool \<Rightarrow> mouse \<Rightarrow> bool \<Rightarrow> int \<times> bool" where
  "manual_buttons l is_modal m show_power_menu =
     (if \<not> is_modal \<and> ms_left m \<and> \<not> ms_prev_left m
      then (if in_box m (btn_terminal_x l) (btn_terminal_y l) (terminal_w l) (terminal_h l) then (7, show_power_menu)
            else if in_box m (btn_shutdown_x l) (btn_shutdown_y l) (shutdown_w l) (shutdown_h l)
            then (8, show_power_menu)
            else if show_power_menu
            then (-1, in_box m (ly_w l - pm_menu_w l - 20) (ly_h l - shutdown_h l - 20 - 180) (pm_menu_w l) 180)
            else (-1, show_power_menu))
      else (-1, show_power_menu))"

subsection \<open>Keyboard layout\<close>

text \<open>Key codes of \<^verbatim>\<open>linux/input-event-codes.h\<close>.\<close>

abbreviation (input) KEY_ESC :: nat where "KEY_ESC \<equiv> 1"
abbreviation (input) KEY_BACKSPACE :: nat where "KEY_BACKSPACE \<equiv> 14"
abbreviation (input) KEY_TAB :: nat where "KEY_TAB \<equiv> 15"
abbreviation (input) KEY_ENTER :: nat where "KEY_ENTER \<equiv> 28"
abbreviation (input) KEY_LEFTSHIFT :: nat where "KEY_LEFTSHIFT \<equiv> 42"
abbreviation (input) KEY_RIGHTSHIFT :: nat where "KEY_RIGHTSHIFT \<equiv> 54"
abbreviation (input) KEY_SPACE :: nat where "KEY_SPACE \<equiv> 57"
abbreviation (input) KEY_KPENTER :: nat where "KEY_KPENTER \<equiv> 96"
abbreviation (input) KEY_UP :: nat where "KEY_UP \<equiv> 103"
abbreviation (input) KEY_LEFT :: nat where "KEY_LEFT \<equiv> 105"
abbreviation (input) KEY_RIGHT :: nat where "KEY_RIGHT \<equiv> 106"
abbreviation (input) KEY_DOWN :: nat where "KEY_DOWN \<equiv> 108"

text \<open>Code, character without and with shift: the digit row and the punctuation keys.\<close>

definition symbol_keys :: "(nat \<times> char \<times> char) list" where
  "symbol_keys =
     [(2, CHR ''1'', CHR ''!''), (3, CHR ''2'', CHR ''@''), (4, CHR ''3'', CHR ''#''), (5, CHR ''4'', CHR ''$''),
      (6, CHR ''5'', CHR ''%''), (7, CHR ''6'', CHR ''^''), (8, CHR ''7'', CHR ''&''), (9, CHR ''8'', CHR ''*''),
      (10, CHR ''9'', CHR ''(''), (11, CHR ''0'', CHR '')''), (12, CHR ''-'', CHR ''_''), (13, CHR ''='', CHR ''+''),
      (26, CHR ''['', CHR ''{''), (27, CHR '']'', CHR ''}''), (39, CHR '';'', CHR '':''), (40, CHR 0x27, CHR 0x22),
      (41, CHR 0x60, CHR ''~''), (43, CHR 0x5C, CHR ''|''), (51, CHR '','', CHR ''<''), (52, CHR ''.'', CHR ''>''),
      (53, CHR ''/'', CHR ''?'')]"

definition letter_keys :: "(nat \<times> char \<times> char) list" where
  "letter_keys =
     [(16, CHR ''q'', CHR ''Q''), (17, CHR ''w'', CHR ''W''), (18, CHR ''e'', CHR ''E''), (19, CHR ''r'', CHR ''R''),
      (20, CHR ''t'', CHR ''T''), (21, CHR ''y'', CHR ''Y''), (22, CHR ''u'', CHR ''U''), (23, CHR ''i'', CHR ''I''),
      (24, CHR ''o'', CHR ''O''), (25, CHR ''p'', CHR ''P''), (30, CHR ''a'', CHR ''A''), (31, CHR ''s'', CHR ''S''),
      (32, CHR ''d'', CHR ''D''), (33, CHR ''f'', CHR ''F''), (34, CHR ''g'', CHR ''G''), (35, CHR ''h'', CHR ''H''),
      (36, CHR ''j'', CHR ''J''), (37, CHR ''k'', CHR ''K''), (38, CHR ''l'', CHR ''L''), (44, CHR ''z'', CHR ''Z''),
      (45, CHR ''x'', CHR ''X''), (46, CHR ''c'', CHR ''C''), (47, CHR ''v'', CHR ''V''), (48, CHR ''b'', CHR ''B''),
      (49, CHR ''n'', CHR ''N''), (50, CHR ''m'', CHR ''M'')]"

text \<open>The space bar and the numeric keypad, which ignore shift.\<close>

definition plain_keys :: "(nat \<times> char) list" where
  "plain_keys =
     [(57, CHR '' ''), (82, CHR ''0''), (79, CHR ''1''), (80, CHR ''2''), (81, CHR ''3''), (75, CHR ''4''),
      (76, CHR ''5''), (77, CHR ''6''), (71, CHR ''7''), (72, CHR ''8''), (73, CHR ''9''), (74, CHR ''-''),
      (78, CHR ''+''), (55, CHR ''*''), (98, CHR ''/''), (83, CHR ''.'')]"

text \<open>The character of a pressed key; \<open>None\<close> is \<^verbatim>\<open>unicode == 0\<close>. The later tables overwrite the earlier one.\<close>

definition key_unicode :: "nat \<Rightarrow> bool \<Rightarrow> char option" where
  "key_unicode code shift =
     (case map_of letter_keys code of
        Some (l, u) \<Rightarrow> Some (if shift then u else l)
      | None \<Rightarrow>
          (case map_of plain_keys code of
             Some c \<Rightarrow> Some c
           | None \<Rightarrow> map_option (\<lambda>(l, u). if shift then u else l) (map_of symbol_keys code)))"

datatype keysym = NoSymbol | SymReturn | SymBackSpace | SymLeft | SymRight | SymUp | SymDown | SymEscape
  | SymTab | SymDelete | SymF nat

definition key_sym :: "nat \<Rightarrow> keysym" where
  "key_sym code =
     (if code = KEY_ENTER \<or> code = KEY_KPENTER then SymReturn
      else if code = KEY_BACKSPACE then SymBackSpace
      else if code = KEY_LEFT then SymLeft
      else if code = KEY_RIGHT then SymRight
      else if code = KEY_UP then SymUp
      else if code = KEY_DOWN then SymDown
      else if code = KEY_ESC then SymEscape
      else if code = KEY_TAB then SymTab
      else if code = 111 then SymDelete
      else if 59 \<le> code \<and> code \<le> 68 then SymF (code - 58)
      else NoSymbol)"

section \<open>Lemmas\<close>

subsection \<open>Packets\<close>

definition synced :: "8 word \<Rightarrow> bool" where
  "synced b \<longleftrightarrow> b AND 0x08 = 0x08"

type_synonym packet = "8 word \<times> 8 word \<times> 8 word"

fun packet_bytes :: "packet \<Rightarrow> 8 word list" where
  "packet_bytes (b0, b1, b2) = [b0, b1, b2]"

fun packet_synced :: "packet \<Rightarrow> bool" where
  "packet_synced (b0, b1, b2) = synced b0"

fun apply_packet :: "int \<Rightarrow> int \<Rightarrow> mouse \<Rightarrow> packet \<Rightarrow> mouse" where
  "apply_packet w h m (b0, b1, b2) = mouse_packet w h b0 b1 b2 m"

abbreviation bytes :: "packet list \<Rightarrow> 8 word list" where
  "bytes ps \<equiv> concat (map packet_bytes ps)"

lemma mouse_packet_acc [simp]: "ms_acc (mouse_packet w h b0 b1 b2 m) = []"
  by (simp add: mouse_packet_def Let_def)

lemma mouse_packet_ignores_acc [simp]: "mouse_packet w h b0 b1 b2 (m\<lparr>ms_acc := a\<rparr>) = mouse_packet w h b0 b1 b2 m"
  by (simp add: mouse_packet_def Let_def)

lemma mouse_byte_simps [simp]:
  "mouse_byte w h (m\<lparr>ms_acc := []\<rparr>) b = m\<lparr>ms_acc := [b]\<rparr>"
  "mouse_byte w h (m\<lparr>ms_acc := [a]\<rparr>) b = m\<lparr>ms_acc := [a, b]\<rparr>"
  "synced a \<Longrightarrow> mouse_byte w h (m\<lparr>ms_acc := [a, a']\<rparr>) b = mouse_packet w h a a' b m"
  "\<not> synced a \<Longrightarrow> mouse_byte w h (m\<lparr>ms_acc := [a, a']\<rparr>) b = m\<lparr>ms_acc := [a', b]\<rparr>"
  by (simp_all add: mouse_byte_def synced_def)

lemma acc_update_id: "ms_acc m = a \<Longrightarrow> m = m\<lparr>ms_acc := a\<rparr>"
  by simp

lemma foldl_packets:
  "ms_acc m = [] \<Longrightarrow> list_all packet_synced ps \<Longrightarrow> foldl (mouse_byte w h) m (bytes ps) = foldl (apply_packet w h) m ps"
proof (induction ps arbitrary: m)
  case (Cons p ps)
  obtain b0 b1 b2 where p: "p = (b0, b1, b2)" by (metis prod_cases3)
  have m: "m = m\<lparr>ms_acc := []\<rparr>" using Cons.prems(1) by simp
  have "foldl (mouse_byte w h) (m\<lparr>ms_acc := []\<rparr>) [b0, b1, b2] = mouse_packet w h b0 b1 b2 m"
    using Cons.prems(2) p by simp
  then have "foldl (mouse_byte w h) m [b0, b1, b2] = mouse_packet w h b0 b1 b2 m" using m by simp
  then show ?case using Cons p by simp
qed simp

lemma foldl_after_junk2:
  assumes "\<not> synced j1" "\<not> synced j2" "list_all (\<lambda>b. \<not> synced b) js" "list_all packet_synced (p # ps)"
  shows "foldl (mouse_byte w h) (m\<lparr>ms_acc := [j1, j2]\<rparr>) (js @ bytes (p # ps)) = foldl (apply_packet w h) m (p # ps)"
  using assms
proof (induction js arbitrary: j1 j2)
  case Nil
  obtain b0 b1 b2 where p: "p = (b0, b1, b2)" by (metis prod_cases3)
  then show ?case using Nil by (simp add: foldl_packets)
qed simp

lemma foldl_after_junk:
  assumes "list_all (\<lambda>b. \<not> synced b) js" "list_all packet_synced (p # ps)" "ms_acc m = []"
  shows "foldl (mouse_byte w h) m (js @ bytes (p # ps)) = foldl (apply_packet w h) m (p # ps)"
proof -
  obtain b0 b1 b2 where p: "p = (b0, b1, b2)" by (metis prod_cases3)
  have m: "m = m\<lparr>ms_acc := []\<rparr>" using assms(3) by simp
  consider "js = []" | j where "js = [j]" | j j' js' where "js = j # j' # js'" by (metis list.exhaust)
  then show ?thesis
  proof cases
    case 1
    then show ?thesis using foldl_packets [OF assms(3,2)] by simp
  next
    case 2
    have "foldl (mouse_byte w h) (m\<lparr>ms_acc := []\<rparr>) (js @ bytes (p # ps)) = foldl (apply_packet w h) m (p # ps)"
      using 2 assms p by (simp add: foldl_packets)
    then show ?thesis using m by simp
  next
    case 3
    have "foldl (mouse_byte w h) (m\<lparr>ms_acc := []\<rparr>) (js @ bytes (p # ps)) = foldl (apply_packet w h) m (p # ps)"
      using 3 assms foldl_after_junk2 [of j j' js' p ps] by simp
    then show ?thesis using m by simp
  qed
qed

lemma mouse_reads_concat:
  "[] \<notin> set cs \<Longrightarrow> lim + length cs \<le> 16 \<Longrightarrow>
   mouse_reads w h lim cs m = (foldl (mouse_byte w h) m (concat cs), length (concat cs))"
proof (induction cs arbitrary: lim m)
  case (Cons c cs)
  then show ?case by (auto simp: Cons.IH [of "Suc lim"])
qed simp

subsection \<open>Invariant\<close>

definition mouse_ok :: "int \<Rightarrow> int \<Rightarrow> mouse \<Rightarrow> bool" where
  "mouse_ok w h m \<longleftrightarrow> 0 \<le> ms_x m \<and> ms_x m < w \<and> 0 \<le> ms_y m \<and> ms_y m < h \<and> length (ms_acc m) \<le> 2"

lemma mouse_packet_ok: "mouse_ok w h m \<Longrightarrow> mouse_ok w h (mouse_packet w h b0 b1 b2 m)"
  by (auto simp: mouse_ok_def mouse_packet_def Let_def)

lemma mouse_byte_ok: "mouse_ok w h m \<Longrightarrow> mouse_ok w h (mouse_byte w h m b)"
  using mouse_packet_ok [of w h m]
  by (auto simp: mouse_byte_def mouse_ok_def split: list.splits)

lemma foldl_mouse_byte_ok: "mouse_ok w h m \<Longrightarrow> mouse_ok w h (foldl (mouse_byte w h) m bs)"
  by (induction bs arbitrary: m) (auto simp: mouse_byte_ok)

lemma mouse_reads_ok: "mouse_ok w h m \<Longrightarrow> mouse_ok w h (fst (mouse_reads w h lim cs m))"
  by (induction w h lim cs m rule: mouse_reads.induct) (auto simp: foldl_mouse_byte_ok split: prod.splits)

lemma mouse_idle_ok: "mouse_ok w h m \<Longrightarrow> mouse_ok w h (mouse_idle n m)"
  by (auto simp: mouse_idle_def mouse_ok_def Let_def)

lemma read_mouse_ok: "mouse_ok w h m \<Longrightarrow> mouse_ok w h (read_mouse w h reads m)"
proof -
  assume "mouse_ok w h m"
  then have "mouse_ok w h (m\<lparr>ms_prev_left := ms_left m\<rparr>)" by (simp add: mouse_ok_def)
  then show ?thesis
    using mouse_reads_ok [of w h "m\<lparr>ms_prev_left := ms_left m\<rparr>" 0]
    by (auto simp: read_mouse_def Let_def mouse_idle_ok split: option.splits prod.splits) (metis fst_conv mouse_idle_ok)
qed

lemma filter_clicks_ok: "mouse_ok w h m \<Longrightarrow> mouse_ok w h (fst (filter_clicks (m, kb, cd)))"
  by (auto simp: filter_clicks_def mouse_ok_def Let_def)

section \<open>Properties\<close>

text \<open>One frame of the mouse: the read, then the filters.\<close>

definition mouse_frame :: "int \<Rightarrow> int \<Rightarrow> 8 word list list option \<Rightarrow> mouse \<times> bool \<times> int \<Rightarrow> mouse \<times> bool \<times> int" where
  "mouse_frame w h reads s = filter_clicks (read_mouse w h reads (fst s), snd s)"

abbreviation reads_step :: "int \<Rightarrow> int \<Rightarrow> mouse \<times> bool \<times> int \<Rightarrow> 8 word list list \<Rightarrow> mouse \<times> bool \<times> int" where
  "reads_step w h s cs \<equiv> mouse_frame w h (Some cs) s"

text \<open>
  The effect of a packet of the device on the place of the pointer: its second and third byte are the
  movements to the right and upwards as two's complement numbers, and the pointer stays on the screen.
\<close>

definition signed_byte :: "8 word \<Rightarrow> int" where
  "signed_byte b = (if unat b < 128 then int (unat b) else int (unat b) - 256)"

fun pointer_moves :: "int \<Rightarrow> int \<Rightarrow> int \<times> int \<Rightarrow> packet \<Rightarrow> int \<times> int" where
  "pointer_moves w h (x, y) (b0, b1, b2) =
     (max 0 (min (w - 1) (x + signed_byte b1)), max 0 (min (h - 1) (y - signed_byte b2)))"

text \<open>At most two frames in a row bring nothing; \<open>i\<close> have brought nothing so far.\<close>

fun short_gaps :: "int \<Rightarrow> 8 word list list list \<Rightarrow> bool" where
  "short_gaps i [] = True"
| "short_gaps i (cs # fs) = (if cs = [] then i < 2 \<and> short_gaps (i + 1) fs else short_gaps 0 fs)"

lemma sint_signed_byte: "sint b = signed_byte b"
proof -
  define n where "n = unat b"
  have u1: "uint b = int n" by (simp add: n_def)
  have "uint b < 256" using uint_lt2p [of b] by simp
  then have u: "uint b = int n" "n < 256" using u1 by linarith+
  have "sint b = int n - 256 * of_bool (bit (int n) 7)"
    using u(2) by (simp add: sint_uint u(1) signed_take_bit_eq_take_bit_minus take_bit_int_eq_self)
  moreover have "bit (int n) 7 \<longleftrightarrow> 128 \<le> n"
  proof -
    have "int n div 128 = (if 128 \<le> n then 1 else 0)" using u(2) by (auto simp: div_pos_geq div_pos_pos_trivial)
    then show ?thesis by (simp add: bit_iff_odd)
  qed
  ultimately show ?thesis unfolding signed_byte_def n_def [symmetric] by (cases "128 \<le> n") simp_all
qed

text \<open>What the next bytes of the device depend on.\<close>

definition mouse_core :: "mouse \<Rightarrow> (int \<times> int) \<times> 8 word list" where
  "mouse_core m = ((ms_x m, ms_y m), ms_acc m)"

lemma core_byte:
  "mouse_core (mouse_byte w h m b) =
    (case ms_acc m of
       [b0, b1] \<Rightarrow> if b0 AND 0x08 = 0x08 then (fst (mouse_core (mouse_packet w h b0 b1 b m)), []) else ((ms_x m, ms_y m), [b1, b])
     | acc \<Rightarrow> ((ms_x m, ms_y m), acc @ [b]))"
  unfolding mouse_byte_def by (simp add: mouse_core_def split: list.split)

lemma core_bytes: "mouse_core m = mouse_core m' \<Longrightarrow>
    mouse_core (foldl (mouse_byte w h) m bs) = mouse_core (foldl (mouse_byte w h) m' bs)"
proof (induction bs arbitrary: m m')
  case (Cons b bs)
  have e: "ms_acc m = ms_acc m'" "ms_x m = ms_x m'" "ms_y m = ms_y m'" using Cons.prems by (simp_all add: mouse_core_def)
  have "fst (mouse_core (mouse_packet w h b0 b1 b m)) = fst (mouse_core (mouse_packet w h b0 b1 b m'))" for b0 b1
    by (simp add: mouse_core_def mouse_packet_def Let_def e)
  then have "mouse_core (mouse_byte w h m b) = mouse_core (mouse_byte w h m' b)"
    unfolding core_byte e by (simp split: list.split)
  then show ?case unfolding foldl_Cons by (rule Cons.IH)
qed simp

lemma core_filter: "mouse_core (fst (filter_clicks (m, kb, cd))) = mouse_core m"
  "ms_idle (fst (filter_clicks (m, kb, cd))) = ms_idle m"
  by (auto simp: mouse_core_def filter_clicks_def Let_def)

lemma mouse_frame_core:
  assumes "[] \<notin> set cs" "length cs \<le> 16" "cs = [] \<Longrightarrow> ms_idle m < 2"
  shows "mouse_core (fst (reads_step w h (m, kb, cd) cs)) = mouse_core (foldl (mouse_byte w h) m (concat cs))"
    "ms_idle (fst (reads_step w h (m, kb, cd) cs)) = (if cs = [] then ms_idle m + 1 else 0)"
proof -
  let ?m = "m\<lparr>ms_prev_left := ms_left m\<rparr>"
  have c: "mouse_core ?m = mouse_core m" by (simp add: mouse_core_def)
  have l: "length (concat cs) > 0 \<longleftrightarrow> cs \<noteq> []" using assms(1) by (cases cs) auto
  have rd: "read_mouse w h (Some cs) m = mouse_idle (length (concat cs)) (foldl (mouse_byte w h) ?m (concat cs))"
    using mouse_reads_concat [OF assms(1), of 0 w h ?m] assms(2) by (simp add: read_mouse_def Let_def)
  have i: "cs = [] \<Longrightarrow> mouse_core (mouse_idle 0 ?m) = mouse_core m \<and> ms_idle (mouse_idle 0 ?m) = ms_idle m + 1"
    "0 < n \<Longrightarrow> mouse_core (mouse_idle n x) = mouse_core x \<and> ms_idle (mouse_idle n x) = 0" for n x
    using assms(3) by (auto simp: mouse_idle_def mouse_core_def Let_def)
  show "mouse_core (fst (reads_step w h (m, kb, cd) cs)) = mouse_core (foldl (mouse_byte w h) m (concat cs))"
    unfolding mouse_frame_def fst_conv snd_conv core_filter rd using i l core_bytes [OF c] by (cases "cs = []") simp_all
  show "ms_idle (fst (reads_step w h (m, kb, cd) cs)) = (if cs = [] then ms_idle m + 1 else 0)"
    unfolding mouse_frame_def fst_conv snd_conv core_filter rd using i l by (cases "cs = []") simp_all
qed

lemma mouse_frames_core:
  assumes "\<forall>cs\<in>set fs. [] \<notin> set cs \<and> length cs \<le> 16" "short_gaps (ms_idle (fst st)) fs"
  shows "mouse_core (fst (foldl (reads_step w h) st fs)) = mouse_core (foldl (mouse_byte w h) (fst st) (concat (concat fs)))"
  using assms
proof (induction fs arbitrary: st)
  case (Cons cs fs)
  obtain m kb cd where st: "st = (m, kb, cd)" by (metis prod_cases3)
  let ?st = "reads_step w h st cs"
  note f = mouse_frame_core [of cs m w h kb cd]
  have f1: "mouse_core (fst ?st) = mouse_core (foldl (mouse_byte w h) m (concat cs))"
    and f2: "ms_idle (fst ?st) = (if cs = [] then ms_idle m + 1 else 0)"
    using f Cons.prems st by (auto split: if_splits)
  have "short_gaps (ms_idle (fst ?st)) fs" using Cons.prems(2) f2 st by (auto split: if_splits)
  then have "mouse_core (fst (foldl (reads_step w h) ?st fs)) =
      mouse_core (foldl (mouse_byte w h) (fst ?st) (concat (concat fs)))"
    using Cons.IH [of ?st] Cons.prems(1) by simp
  also have "\<dots> = mouse_core (foldl (mouse_byte w h) (foldl (mouse_byte w h) m (concat cs)) (concat (concat fs)))"
    by (rule core_bytes [OF f1])
  finally show ?case using st by simp
qed simp

lemma packet_core:
  "0 < w \<Longrightarrow> 0 < h \<Longrightarrow> fst (mouse_core (apply_packet w h m p)) = pointer_moves w h (fst (mouse_core m)) p"
  by (cases p) (auto simp: mouse_core_def mouse_packet_def Let_def sint_signed_byte)

lemma packets_core:
  "0 < w \<Longrightarrow> 0 < h \<Longrightarrow> fst (mouse_core (foldl (apply_packet w h) m ps)) = foldl (pointer_moves w h) (fst (mouse_core m)) ps"
  by (induction ps arbitrary: m) (simp_all add: packet_core)

lemma apply_packets_acc: "ms_acc (foldl (apply_packet w h) m (p # ps)) = []"
proof (induction ps arbitrary: m p)
  case Nil
  then show ?case by (cases p) simp
next
  case (Cons q ps)
  then show ?case by simp
qed

lemma rest_core:
  "ms_acc m = [] \<Longrightarrow> length rest \<le> 2 \<Longrightarrow> mouse_core (foldl (mouse_byte w h) m rest) = (fst (mouse_core m), rest)"
  by (cases rest rule: remdups_adj.cases) (auto simp: mouse_core_def mouse_byte_def)

text \<open>
  C28 (mouse_decodes_packets). Let the bytes of the device over several frames be some bytes without the
  synchronisation bit (the rest of a packet whose beginning was lost), whole packets, and at most two bytes of
  another. However they are cut into frames and reads, as long as no frame takes more than 16 reads and at most two
  frames in a row bring nothing, the pointer ends where the packets move it, and the bytes of the
  unfinished packet are kept for the next frame.
\<close>

theorem mouse_decodes_packets:
  assumes "0 < w" "0 < h" "ms_acc m = []" "list_all (\<lambda>b. \<not> synced b) junk" "list_all packet_synced (p # ps)" "length rest \<le> 2"
    and "concat (concat fs) = junk @ bytes (p # ps) @ rest"
    and "\<forall>cs\<in>set fs. [] \<notin> set cs \<and> length cs \<le> 16" "short_gaps (ms_idle m) fs"
    and "m' = fst (foldl (reads_step w h) (m, kb, cd) fs)"
  shows "(ms_x m', ms_y m') = foldl (pointer_moves w h) (ms_x m, ms_y m) (p # ps) \<and> ms_acc m' = rest"
proof -
  let ?q = "foldl (apply_packet w h) m (p # ps)"
  have "mouse_core m' = mouse_core (foldl (mouse_byte w h) m (concat (concat fs)))"
    unfolding assms(10) using mouse_frames_core [OF assms(8), of "(m, kb, cd)" w h] assms(9) by simp
  also have "foldl (mouse_byte w h) m (concat (concat fs)) = foldl (mouse_byte w h) ?q rest"
    unfolding assms(7) append_assoc [symmetric] foldl_append using foldl_after_junk [OF assms(4,5,3)] by simp
  also have "mouse_core (foldl (mouse_byte w h) ?q rest) = (fst (mouse_core ?q), rest)"
    by (rule rest_core [OF apply_packets_acc assms(6)])
  also have "fst (mouse_core ?q) = foldl (pointer_moves w h) (ms_x m, ms_y m) (p # ps)"
    unfolding packets_core [OF assms(1,2)] by (simp add: mouse_core_def)
  finally show ?thesis by (simp add: mouse_core_def)
qed

definition still :: mouse where
  "still = \<lparr>ms_x = 10, ms_y = 10, ms_prev_x = 10, ms_prev_y = 10, ms_left = False, ms_prev_left = False,
     ms_acc = [], ms_idle = 0, ms_ignore = False\<rparr>"

theorem mouse_decodes_packets_witness:
  "ms_x (fst (foldl (reads_step 640 480) (still, False, 0) [[[0x01, 0x09], [0x05]], [], [[0xFE, 0x08], [0xF0, 0x00, 0x08]]])) = 0
   \<and> ms_y (fst (foldl (reads_step 640 480) (still, False, 0) [[[0x01, 0x09], [0x05]], [], [[0xFE, 0x08], [0xF0, 0x00, 0x08]]])) = 12"
proof -
  let ?fs = "[[[0x01, 0x09], [0x05]], [], [[0xFE, 0x08], [0xF0, 0x00, 0x08]]] :: 8 word list list list"
  have c: "concat (concat ?fs) = [0x01] @ bytes [(0x09, 0x05, 0xFE), (0x08, 0xF0, 0x00)] @ [0x08]" by simp
  have s: "synced 0x09" "synced 0x08" "\<not> synced 0x01" by (simp_all add: synced_def)
  have "(ms_x (fst (foldl (reads_step 640 480) (still, False, 0) ?fs)), ms_y (fst (foldl (reads_step 640 480) (still, False, 0) ?fs)))
      = foldl (pointer_moves 640 480) (ms_x still, ms_y still) [(0x09, 0x05, 0xFE), (0x08, 0xF0, 0x00)]"
    using mouse_decodes_packets [of 640 480 still, OF _ _ _ _ _ _ c _ _ refl, of False 0] s by (simp add: still_def)
  also have "\<dots> = (0, 12)" by (simp add: still_def signed_byte_def)
  finally show ?thesis by simp
qed

text \<open>
  The seventeenth read of a frame is made before the limit is looked at: its bytes are lost.
\<close>

lemma seventeenth_read_lost:
  "fst (mouse_reads w h 16 (c # cs) m) = m"
  by simp

text \<open>The characters of the tables.\<close>

definition typed_chars :: "char list" where
  "typed_chars = concat (map (\<lambda>(_, l, u). [l, u]) (letter_keys @ symbol_keys)) @ map snd plain_keys"

lemma typed_chars_printable:
  "list_all (\<lambda>c. 32 \<le> (of_char c :: nat) \<and> (of_char c :: nat) \<le> 126) typed_chars"
  by code_simp

lemma printable_typed_chars: "list_all (\<lambda>n. char_of n \<in> set typed_chars) [32..<127 :: nat]"
  by code_simp

lemma keys_give_table:
  "list_all (\<lambda>(code, l, u). key_unicode code False = Some l \<and> key_unicode code True = Some u) (letter_keys @ symbol_keys)
   \<and> list_all (\<lambda>(code, c). key_unicode code False = Some c) plain_keys"
  by code_simp

text \<open>
  Over all keys, with and without shift, the layout produces every
  printable ASCII character and nothing else.
\<close>

theorem keys_type_ascii:
  "{c. \<exists>code shift. key_unicode code shift = Some c} = {c. 32 \<le> (of_char c :: nat) \<and> (of_char c :: nat) \<le> 126}"
proof (intro equalityI subsetI)
  fix c assume "c \<in> {c. \<exists>code shift. key_unicode code shift = Some c}"
  then obtain code shift where k: "key_unicode code shift = Some c" by blast
  have "c \<in> set typed_chars"
    using k unfolding key_unicode_def typed_chars_def
    by (auto split: option.splits if_splits dest!: map_of_SomeD simp: split_beta image_iff intro: rev_bexI)
  then show "c \<in> {c. 32 \<le> (of_char c :: nat) \<and> (of_char c :: nat) \<le> 126}"
    using typed_chars_printable by (simp add: list_all_iff)
next
  fix c :: char assume "c \<in> {c. 32 \<le> (of_char c :: nat) \<and> (of_char c :: nat) \<le> 126}"
  then have "of_char c \<in> set [32..<127 :: nat]" by (simp only: set_upt atLeastLessThan_iff mem_Collect_eq) simp
  then have "char_of (of_char c :: nat) \<in> set typed_chars"
    using printable_typed_chars unfolding list_all_iff by (rule bspec [rotated])
  then have "c \<in> set typed_chars" by simp
  then show "c \<in> {c. \<exists>code shift. key_unicode code shift = Some c}"
    using keys_give_table unfolding typed_chars_def by (fastforce simp: list_all_iff)
qed

text \<open>
  The press that turns the keyboard mode off is meant to be swallowed until the button is released.
  The filter stores its result in the variable that holds the state of the button, so one frame
  without a packet looks like a release: a button held down for three frames, still in the second,
  gives a click in the third.
\<close>

lemma ghost_click_delivered:
  "let s1 = mouse_frame 640 480 (Some [[0x09, 0x00, 0x00]]) (still, True, 0);
       s2 = mouse_frame 640 480 (Some []) s1;
       s3 = mouse_frame 640 480 (Some [[0x09, 0x01, 0x00]]) s2
   in \<not> ms_left (fst s1) \<and> ms_left (fst s3) \<and> \<not> ms_prev_left (fst s3)"
  by code_simp

text \<open>A frame during which a dialogue has just opened delivers no click.\<close>

lemma cooldown_no_click: "cd > 0 \<Longrightarrow> \<not> ms_left (fst (filter_clicks (m, kb, cd)))"
  by (simp add: filter_clicks_def Let_def)

end
