(* ===== verification/Gui.thy ===== *)
theory Gui
  imports TaskMgr Auth Input
begin

text \<open>
  The state of the rescue screen, what it does to the outside, and the terminal's shell.

  The windows are drawn with the Nuklear library, the terminal with libtsm; neither is the
  repository's own code. What they tell the program in one frame is a record \<open>frame_env\<close>: which
  buttons report a click, which windows are open for drawing, and what an edit field makes of its
  buffer. The frame's view of the operating system is in the same record. Everything the program
  decides with this is the state \<open>gui\<close>, the variables of \<^verbatim>\<open>main\<close> and the globals of the file, in groups.
  What leaves the program is logged in the order it happens.
\<close>

section \<open>State\<close>

record edit_buf =
  eb_chars :: "char list"
  eb_len :: nat

definition empty_buf :: edit_buf where
  "empty_buf = \<lparr>eb_chars = replicate 256 NUL, eb_len = 0\<rparr>"

text \<open>\<^verbatim>\<open>secure_clear_buffer(buffer, sizeof(buffer)); len = 0;\<close>\<close>

definition clear_buf :: "edit_buf \<Rightarrow> edit_buf" where
  "clear_buf b = \<lparr>eb_chars = the (secure_clear_buffer (Some (eb_chars b)) (length (eb_chars b))), eb_len = 0\<rparr>"

record dialogs =
  show_terminal :: bool
  show_run :: bool
  show_task_manager :: bool
  show_power_menu :: bool
  show_change_password :: bool
  show_switch_user :: bool
  show_password_prompt :: bool

record navigation =
  selected_idx :: int
  pm_selected_idx :: int
  su_focus_idx :: int
  su_selected_idx :: int
  cp_focus_idx :: int
  pwd_focus_idx :: int
  tm_focus_group :: int
  tm_selected_tab :: int
  tm_selected_row :: int
  tm_selected_col :: int

record privileges =
  root_authorized :: bool
  terminal_root_mode :: bool
  taskmgr_root_mode :: bool
  run_as_root :: bool
  pwd_prompt_source :: int

text \<open>
  What reaches the outside: the result of a password check, a shell with or without root's rights,
  signals with the owner of the process they go to, the power and session requests, the command
  left to run after the end.
\<close>

datatype effect =
    Verified bool
  | Shell bool int
  | KillShell int
  | Signal int int nat
  | Sleep
  | Restart
  | Shutdown
  | SignOut
  | LockSession string
  | NewGreeter
  | PasswdChanged int
  | RunCommand bool string

record gui =
  g_mouse :: mouse
  keyboard_active :: bool
  g_shift :: bool
  g_ctrl :: bool
  click_cooldown :: int
  trigger_action :: int
  running :: bool
  g_dlg :: dialogs
  g_nav :: navigation
  g_priv :: privileges
  pwd_enter_pressed :: bool
  cp_enter_pressed :: bool
  show_passwords :: bool
  command_buffer :: edit_buf
  old_pwd_buffer :: edit_buf
  new_pwd_buffer :: edit_buf
  confirm_pwd_buffer :: edit_buf
  root_pwd_buffer :: edit_buf
  search_edit :: edit_buf
  pwd_msg :: string
  root_auth_msg :: string
  run_cmd :: string
  run_command_ready :: bool
  term_pty :: "int option"
  terminal_mode :: int
  sessions :: "session_info list"
  g_tm :: tm_state
  original_vt :: int
  frame_count :: nat
  g_log :: "effect list"

subsection \<open>The frame's surroundings\<close>

text \<open>The buttons, in the order the program draws them.\<close>

datatype widget =
    BtnLock | BtnSwitchUser | BtnSignOut | BtnChangePassword | BtnTaskManager | BtnRunCommand | BtnCancel
  | TermRoot | TermX | TermBash | TermBusybox | TermClose
  | TmRoot | TmX | TmRam | TmCpu | TmSearch | TmKill nat | TmTerminate nat | TmPause nat | TmLabel nat | TmClose
  | RunX | RunRoot | RunGo | RunClose
  | PwdX | PwdSubmit | PwdCancel
  | CpX | CpShow | CpApply | CpClose
  | SuX | SuSession nat | SuNew | SuClose
  | PmSleep | PmRestart | PmShutdown

datatype window =
    WinMenu | WinTermTitle | WinTermMode | WinTermClose
  | WinTmTitle | WinTm | WinTmClose
  | WinRunTitle | WinRun | WinRunClose
  | WinPwdTitle | WinPwd | WinPwdClose
  | WinCpTitle | WinCp | WinCpClose
  | WinSuTitle | WinSu | WinSuList | WinSuClose
  | WinPower

datatype field = FldSearch | FldCommand | FldRootPwd | FldOldPwd | FldNewPwd | FldConfirmPwd

text \<open>What \<^verbatim>\<open>nk_edit_string\<close> leaves in its buffer and length, and the flags it returns.\<close>

record edit_result =
  er_buf :: edit_buf
  er_active :: bool
  er_committed :: bool

record gui_trans =
  tr_pwd :: pwd_trans
  tr_pwd_empty :: string
  tr_pwd_mismatch :: string
  tr_changing_pwd :: string

text \<open>
  \<open>fe_click\<close> is Nuklear's reaction to the pointer's position and button; \<open>fe_press\<close> what it is for
  the pointer the program passes on in this frame.
\<close>

record frame_env =
  fe_world :: world
  fe_auth :: auth_env
  fe_kernel :: cred_ops
  fe_cred :: cred
  fe_session :: user_session
  fe_layout :: layout
  fe_trans :: gui_trans
  fe_click :: "int \<Rightarrow> int \<Rightarrow> bool \<Rightarrow> widget \<Rightarrow> bool"
  fe_press :: "widget \<Rightarrow> bool"
  fe_window :: "window \<Rightarrow> bool"
  fe_edit :: "field \<Rightarrow> edit_buf \<Rightarrow> edit_result"
  fe_mouse :: "8 word list list option"
  fe_keys :: "input_event list option"
  fe_pty_ended :: bool
  fe_term_ready :: bool
  fe_shell_pid :: int
  fe_busybox :: int
  fe_links :: "int \<Rightarrow> (string \<times> string option) list option"
  fe_my_pid :: int
  fe_rescue_vt :: int
  fe_nproc :: int
  fe_ms :: "64 word"
  fe_junk :: process_info
  fe_stack :: string
  fe_tm_h :: int

section \<open>Terminal\<close>

definition emit :: "effect \<Rightarrow> gui \<Rightarrow> gui" where
  "emit e g = g\<lparr>g_log := g_log g @ [e]\<rparr>"

definition close_current_pty :: "gui \<Rightarrow> gui" where
  "close_current_pty g =
     (case term_pty g of
        None \<Rightarrow> g
      | Some child \<Rightarrow> (let g1 = g\<lparr>term_pty := None\<rparr> in if child > 0 then emit (KillShell child) g1 else g1))"

text \<open>The parent's side: the new descriptor, when the terminal could be opened.\<close>

definition launch_terminal_shell :: "frame_env \<Rightarrow> int \<Rightarrow> gui \<Rightarrow> gui" where
  "launch_terminal_shell fe mode g =
     (if fe_shell_pid fe < 0 then g
      else emit (Shell (terminal_root_mode (g_priv g)) mode) (g\<lparr>term_pty := Some (fe_shell_pid fe)\<rparr>))"

text \<open>The entries of the user's environment that the shell of the user keeps.\<close>

definition shell_env :: "user_session \<Rightarrow> string \<Rightarrow> string list" where
  "shell_env s hostname =
     [str_fit 512 (''HOME='' @ us_home s), str_fit 128 (''USER='' @ us_username s),
      str_fit 256 (''HOSTNAME='' @ hostname), command_path, ''TERM=xterm-256color'']
     @ take 505 (filter (\<lambda>p. \<not> starts_with p ''HOME='' \<and> \<not> starts_with p ''PATH='' \<and> \<not> starts_with p ''TERM=''
                          \<and> \<not> starts_with p ''USER='' \<and> \<not> starts_with p ''HOSTNAME='') (raw_entries (us_raw_env s)))"

text \<open>\<^verbatim>\<open>safe_fexecve\<close>: the second attempt is made with the same arguments.\<close>

definition safe_fexecve :: "int \<Rightarrow> string list \<Rightarrow> string list \<Rightarrow> cred \<Rightarrow> exec_call list" where
  "safe_fexecve fd argv env c =
     replicate 2 \<lparr>ex_target = ExecFd fd, ex_argv = argv, ex_env = env, ex_cred = c\<rparr>"

text \<open>\<^verbatim>\<open>setenv("TERM", "xterm-256color", 1)\<close>.\<close>

fun set_term :: "string list \<Rightarrow> string list" where
  "set_term [] = [''TERM=xterm-256color'']"
| "set_term (p # ps) = (if starts_with p ''TERM='' then ''TERM=xterm-256color'' # ps else p # set_term ps)"

text \<open>
  The child's side: the programs it tries to execute, in order, before it exits; \<open>inherited\<close> is the
  environment of the rescue screen, which root's shell keeps.
\<close>

definition shell_child ::
  "cred_ops \<Rightarrow> user_session \<Rightarrow> int \<Rightarrow> cred \<Rightarrow> string \<Rightarrow> string list \<Rightarrow> bool \<Rightarrow> int \<Rightarrow> exec_call list" where
  "shell_child k s busybox_memfd c hostname inherited root mode =
     (if \<not> root
      then (case drop_privs_to_user k s c of
              None \<Rightarrow> []
            | Some c' \<Rightarrow>
                let env = shell_env s hostname in
                if mode = 0
                then [\<lparr>ex_target = ExecPath ''/bin/bash'', ex_argv = [''/bin/bash''], ex_env = env, ex_cred = c'\<rparr>,
                      \<lparr>ex_target = ExecPath ''/bin/sh'', ex_argv = [''/bin/sh''], ex_env = env, ex_cred = c'\<rparr>]
                else if busybox_memfd \<ge> 0 then safe_fexecve busybox_memfd [''sh''] env c' else [])
      else (let env = set_term inherited in
            if mode = 0
            then [\<lparr>ex_target = ExecPath ''/bin/bash'', ex_argv = [''/bin/bash''], ex_env = env, ex_cred = c\<rparr>,
                  \<lparr>ex_target = ExecPath ''/bin/sh'', ex_argv = [''/bin/sh''], ex_env = env, ex_cred = c\<rparr>]
            else if busybox_memfd \<ge> 0
            then safe_fexecve busybox_memfd [''sh'']
                   [''TERM=xterm-256color'', ''HOME=/root'', ''PATH=/sbin:/usr/sbin:/bin:/usr/bin'', ''USER=root'',
                    str_fit 256 (''HOSTNAME='' @ hostname)] c
            else []))"

text \<open>The shell has ended by itself: the descriptor goes and the window closes.\<close>

definition pty_dispatch :: "frame_env \<Rightarrow> gui \<Rightarrow> gui" where
  "pty_dispatch fe g =
     (if term_pty g \<noteq> None \<and> fe_pty_ended fe
      then g\<lparr>term_pty := None, g_dlg := (g_dlg g)\<lparr>show_terminal := False\<rparr>\<rparr> else g)"

subsection \<open>BusyBox in memory\<close>

datatype memfd_write = MWritten nat | MInterrupted | MFailed

text \<open>
  The loop that fills the memory file; the outcomes that are not listed are failures. \<open>None\<close> is the
  failure, after which the descriptor is closed and marked as absent. A write of nothing, which a
  memory file does not give, counts as a failure.
\<close>

fun busybox_loop :: "nat \<Rightarrow> memfd_write list \<Rightarrow> nat option" where
  "busybox_loop remaining [] = (if remaining = 0 then Some 0 else None)"
| "busybox_loop remaining (r # rs) =
     (if remaining = 0 then Some 0
      else (case r of
              MWritten n \<Rightarrow> if n = 0 then None else busybox_loop (remaining - min n remaining) rs
            | MInterrupted \<Rightarrow> busybox_loop remaining rs
            | MFailed \<Rightarrow> None))"

definition init_busybox_memfd :: "int \<Rightarrow> nat \<Rightarrow> memfd_write list \<Rightarrow> int" where
  "init_busybox_memfd fd len ws =
     (if fd < 0 then fd else (case busybox_loop len ws of None \<Rightarrow> -1 | Some _ \<Rightarrow> fd))"

end
