(* ===== verification/Windows.thy ===== *)
theory Windows
  imports Gui
begin

text \<open>
  The windows of one frame, in the order \<^verbatim>\<open>main\<close> draws them: one definition per window, with what each
  button, edit field and keyboard shortcut does to the state. Colours, fonts and positions are left
  out, except where they decide how many rows are shown.
\<close>

section \<open>Main menu\<close>

definition fires :: "frame_env \<Rightarrow> gui \<Rightarrow> widget \<Rightarrow> int \<Rightarrow> bool" where
  "fires fe g b n \<longleftrightarrow> fe_press fe b \<or> trigger_action g = n"

definition scan_tm :: "frame_env \<Rightarrow> gui \<Rightarrow> gui" where
  "scan_tm fe g =
     g\<lparr>g_tm := scan_processes (fe_world fe) (fe_nproc fe) (fe_my_pid fe) (fe_ms fe) (fe_junk fe) (g_tm g)\<rparr>"

definition menu_lock :: "frame_env \<Rightarrow> gui \<Rightarrow> gui" where
  "menu_lock fe g =
     (if fires fe g BtnLock 0 \<and> us_lock_cmd (fe_session fe) \<noteq> []
      then emit (LockSession (us_lock_cmd (fe_session fe))) (g\<lparr>running := False\<rparr>) else g)"

definition menu_switch_user :: "frame_env \<Rightarrow> gui \<Rightarrow> gui" where
  "menu_switch_user fe g =
     (if fires fe g BtnSwitchUser 1
      then (case scan_sessions (fe_world fe) (fe_links fe) (fe_my_pid fe) (fe_rescue_vt fe) (tm_cache (g_tm g)) of
              (ss, cache) \<Rightarrow>
                g\<lparr>sessions := ss,
                  g_tm := (g_tm g)\<lparr>tm_cache := cache\<rparr>,
                  g_dlg := (g_dlg g)\<lparr>show_switch_user := True, show_run := False, show_task_manager := False,
                             show_terminal := False, show_power_menu := False, show_change_password := False\<rparr>,
                  g_nav := (g_nav g)\<lparr>su_focus_idx := 0, su_selected_idx := 0\<rparr>,
                  trigger_action := (if trigger_action g = 1 then -1 else trigger_action g)\<rparr>)
      else g)"

definition menu_sign_out :: "frame_env \<Rightarrow> gui \<Rightarrow> gui" where
  "menu_sign_out fe g =
     (if fires fe g BtnSignOut 2 then emit SignOut (g\<lparr>running := False\<rparr>) else g)"

definition menu_change_password :: "frame_env \<Rightarrow> gui \<Rightarrow> gui" where
  "menu_change_password fe g =
     (if fires fe g BtnChangePassword 3
      then g\<lparr>g_dlg := (g_dlg g)\<lparr>show_change_password := True, show_run := False, show_task_manager := False,
                         show_terminal := False, show_power_menu := False, show_switch_user := False\<rparr>,
             old_pwd_buffer := clear_buf (old_pwd_buffer g),
             new_pwd_buffer := clear_buf (new_pwd_buffer g),
             confirm_pwd_buffer := clear_buf (confirm_pwd_buffer g),
             pwd_msg := [],
             g_nav := (g_nav g)\<lparr>cp_focus_idx := 0\<rparr>,
             trigger_action := (if trigger_action g = 3 then -1 else trigger_action g)\<rparr>
      else g)"

definition menu_task_manager :: "frame_env \<Rightarrow> gui \<Rightarrow> gui" where
  "menu_task_manager fe g =
     (if fires fe g BtnTaskManager 4
      then (let on = (\<not> show_task_manager (g_dlg g));
                g1 = g\<lparr>g_dlg := (g_dlg g)\<lparr>show_task_manager := on\<rparr>\<rparr>;
                g2 = (if on then scan_tm fe g1 else g1)
            in g2\<lparr>g_dlg := (g_dlg g2)\<lparr>show_run := False, show_change_password := False, show_switch_user := False\<rparr>\<rparr>)
      else g)"

definition menu_run_command :: "frame_env \<Rightarrow> gui \<Rightarrow> gui" where
  "menu_run_command fe g =
     (if fires fe g BtnRunCommand 5
      then g\<lparr>g_dlg := (g_dlg g)\<lparr>show_run := \<not> show_run (g_dlg g), show_task_manager := False,
                         show_terminal := False, show_power_menu := False, show_change_password := False,
                         show_switch_user := False\<rparr>,
             trigger_action := (if trigger_action g = 5 then -1 else trigger_action g)\<rparr>
      else g)"

definition menu_cancel :: "frame_env \<Rightarrow> gui \<Rightarrow> gui" where
  "menu_cancel fe g = (if fires fe g BtnCancel 6 then g\<lparr>running := False\<rparr> else g)"

definition main_menu :: "frame_env \<Rightarrow> gui \<Rightarrow> gui" where
  "main_menu fe g =
     (if \<not> show_password_prompt (g_dlg g) \<and> fe_window fe WinMenu
      then (if \<not> show_task_manager (g_dlg g) \<and> \<not> show_terminal (g_dlg g) \<and> \<not> show_run (g_dlg g)
               \<and> \<not> show_change_password (g_dlg g) \<and> \<not> show_switch_user (g_dlg g)
            then menu_cancel fe (menu_run_command fe (menu_task_manager fe (menu_change_password fe
                   (menu_sign_out fe (menu_switch_user fe (menu_lock fe g))))))
            else if 0 \<le> trigger_action g \<and> trigger_action g \<le> 6 then g\<lparr>trigger_action := -1\<rparr> else g)
      else g)"

section \<open>Asking for root's password\<close>

text \<open>What the three switches to root do when root has not been authorised yet.\<close>

definition open_prompt :: "int \<Rightarrow> gui \<Rightarrow> gui" where
  "open_prompt source g =
     g\<lparr>g_dlg := (g_dlg g)\<lparr>show_password_prompt := True\<rparr>,
       g_priv := (g_priv g)\<lparr>pwd_prompt_source := source\<rparr>,
       root_pwd_buffer := clear_buf (root_pwd_buffer g),
       root_auth_msg := [],
       g_nav := (g_nav g)\<lparr>pwd_focus_idx := 0\<rparr>,
       keyboard_active := True\<rparr>"

section \<open>Terminal\<close>

definition term_root :: "frame_env \<Rightarrow> gui \<Rightarrow> gui" where
  "term_root fe g =
     (if fe_press fe TermRoot
      then (if terminal_root_mode (g_priv g)
            then (let g1 = close_current_pty g in
                  launch_terminal_shell fe (terminal_mode g1) (g1\<lparr>g_priv := (g_priv g1)\<lparr>terminal_root_mode := False\<rparr>\<rparr>))
            else if root_authorized (g_priv g)
            then (let g1 = close_current_pty g in
                  launch_terminal_shell fe (terminal_mode g1) (g1\<lparr>g_priv := (g_priv g1)\<lparr>terminal_root_mode := True\<rparr>\<rparr>))
            else open_prompt 1 g)
      else g)"

definition term_close :: "frame_env \<Rightarrow> widget \<Rightarrow> gui \<Rightarrow> gui" where
  "term_close fe b g =
     (if fe_press fe b then g\<lparr>g_dlg := (g_dlg g)\<lparr>show_terminal := False\<rparr>\<rparr> else g)"

text \<open>Another kind of shell replaces the one that runs; 0 is \<^verbatim>\<open>bash\<close>, 1 is \<^verbatim>\<open>busybox\<close>.\<close>

definition term_switch :: "frame_env \<Rightarrow> int \<Rightarrow> gui \<Rightarrow> gui" where
  "term_switch fe mode g =
     (if terminal_mode g \<noteq> mode
      then launch_terminal_shell fe mode (close_current_pty (g\<lparr>terminal_mode := mode\<rparr>)) else g)"

definition term_modes :: "frame_env \<Rightarrow> gui \<Rightarrow> gui" where
  "term_modes fe g =
     (let g1 = (if fe_press fe TermBash then term_switch fe 0 g else g)
      in if fe_busybox fe \<ge> 0 \<and> fe_press fe TermBusybox then term_switch fe 1 g1 else g1)"

definition terminal_window :: "frame_env \<Rightarrow> gui \<Rightarrow> gui" where
  "terminal_window fe g =
     (if show_terminal (g_dlg g) \<and> \<not> show_password_prompt (g_dlg g) \<and> fe_term_ready fe
      then (let g1 = (if fe_window fe WinTermTitle then term_close fe TermX (term_root fe g) else g);
                g2 = (if fe_window fe WinTermMode then term_modes fe g1 else g1)
            in if fe_window fe WinTermClose then term_close fe TermClose g2 else g2)
      else g)"

section \<open>Edit fields\<close>

text \<open>The buffer shown as it is, with the terminator the library does not write.\<close>

definition plain_edit :: "(edit_buf \<Rightarrow> edit_result) \<Rightarrow> edit_buf \<Rightarrow> edit_result" where
  "plain_edit edit b =
     (let r = edit b; b' = er_buf r in r\<lparr>er_buf := b'\<lparr>eb_chars := (eb_chars b')[eb_len b' := NUL]\<rparr>\<rparr>)"

text \<open>
  The buffer shown as stars: the library edits a copy that holds stars, and what it appended past
  the old length is copied back. The rest of the copy is not initialised: it is what the 256 bytes of
  \<open>stack\<close> hold there.
\<close>

definition masked_edit :: "string \<Rightarrow> (edit_buf \<Rightarrow> edit_result) \<Rightarrow> edit_buf \<Rightarrow> edit_result" where
  "masked_edit stack edit b =
     (let old_len = eb_len b;
          r = edit \<lparr>eb_chars = replicate old_len CHR ''*'' @ NUL # drop (Suc old_len) stack, eb_len = old_len\<rparr>;
          n = eb_len (er_buf r);
          chars = (if old_len < n
                   then take old_len (eb_chars b) @ take (n - old_len) (drop old_len (eb_chars (er_buf r)))
                        @ drop n (eb_chars b)
                   else eb_chars b)
      in r\<lparr>er_buf := \<lparr>eb_chars = chars[n := NUL], eb_len = n\<rparr>\<rparr>)"

section \<open>Task manager\<close>

definition tm_root :: "frame_env \<Rightarrow> gui \<Rightarrow> gui" where
  "tm_root fe g =
     (if fe_press fe TmRoot
      then (if taskmgr_root_mode (g_priv g) then g\<lparr>g_priv := (g_priv g)\<lparr>taskmgr_root_mode := False\<rparr>\<rparr>
            else if root_authorized (g_priv g) then g\<lparr>g_priv := (g_priv g)\<lparr>taskmgr_root_mode := True\<rparr>\<rparr>
            else open_prompt 2 g)
      else g)"

definition tm_close :: "gui \<Rightarrow> gui" where
  "tm_close g = g\<lparr>g_dlg := (g_dlg g)\<lparr>show_task_manager := False\<rparr>\<rparr>"

text \<open>A button of this window fires by the pointer or, when the keyboard's focus is on it, by action 100.\<close>

definition tm_fires :: "frame_env \<Rightarrow> gui \<Rightarrow> widget \<Rightarrow> bool \<Rightarrow> bool" where
  "tm_fires fe g b kb \<longleftrightarrow> fe_press fe b \<or> (trigger_action g = 100 \<and> kb)"

definition consume :: "gui \<Rightarrow> gui" where
  "consume g = (if trigger_action g = 100 then g\<lparr>trigger_action := -1\<rparr> else g)"

definition tm_tab :: "frame_env \<Rightarrow> widget \<Rightarrow> int \<Rightarrow> gui \<Rightarrow> gui" where
  "tm_tab fe b mode g =
     (if tm_fires fe g b (keyboard_active g \<and> tm_focus_group (g_nav g) = 0 \<and> tm_selected_tab (g_nav g) = mode)
      then consume (g\<lparr>g_tm := (g_tm g)\<lparr>tm_sort_mode := mode\<rparr>\<rparr>) else g)"

definition tm_tabs :: "frame_env \<Rightarrow> gui \<Rightarrow> gui" where
  "tm_tabs fe g =
     (let g1 = tm_tab fe TmSearch 2 (tm_tab fe TmCpu 1 (tm_tab fe TmRam 0 g))
      in if tm_sort_mode (g_tm g1) \<noteq> tm_sort_mode (g_tm g) then scan_tm fe g1 else g1)"

definition tm_search_field :: "frame_env \<Rightarrow> gui \<Rightarrow> gui" where
  "tm_search_field fe g =
     (if tm_sort_mode (g_tm g) = 2
      then (let b = er_buf (fe_edit fe FldSearch (search_edit g));
                changed = (eb_len b \<noteq> eb_len (search_edit g));
                chars = (if changed then (eb_chars b)[eb_len b := NUL] else eb_chars b);
                g1 = g\<lparr>search_edit := \<lparr>eb_chars = chars, eb_len = eb_len b\<rparr>,
                       g_tm := (g_tm g)\<lparr>tm_search_buffer := c_str chars, tm_search_len := eb_len b\<rparr>\<rparr>
            in if changed then scan_tm fe g1 else g1)
      else g)"

text \<open>The list of the current tab and how it is written back.\<close>

definition tm_list :: "tm_state \<Rightarrow> process_info list \<times> nat" where
  "tm_list t = (if tm_sort_mode t = 0 then tm_mem t else if tm_sort_mode t = 1 then tm_cpu t else tm_search t)"

definition set_tm_proc :: "nat \<Rightarrow> process_info \<Rightarrow> tm_state \<Rightarrow> tm_state" where
  "set_tm_proc i p t =
     (let put = (\<lambda>l. ((fst l)[i := p], snd l)) in
      if tm_sort_mode t = 0 then t\<lparr>tm_mem := put (tm_mem t)\<rparr>
      else if tm_sort_mode t = 1 then t\<lparr>tm_cpu := put (tm_cpu t)\<rparr>
      else t\<lparr>tm_search := put (tm_search t)\<rparr>)"

text \<open>How many rows fit above the bar with the close button.\<close>

definition tm_limit :: "frame_env \<Rightarrow> tm_state \<Rightarrow> nat" where
  "tm_limit fe t =
     (let start_y = (if tm_sort_mode t = 2 then 145 else 97);
          available_space = fe_tm_h fe - 85 - start_y;
          d0 = cdiv available_space 39;
          d1 = (if d0 < 1 then 1 else d0);
          max_display = (if d1 > int MAX_TOP_PROCS then int MAX_TOP_PROCS else d1);
          n_procs = int (snd (tm_list t))
      in nat (if n_procs > max_display then max_display else n_procs))"

definition SIGKILL :: nat where "SIGKILL = 9"
definition SIGTERM :: nat where "SIGTERM = 15"
definition SIGCONT :: nat where "SIGCONT = 18"
definition SIGSTOP :: nat where "SIGSTOP = 19"

definition can_manage :: "frame_env \<Rightarrow> gui \<Rightarrow> process_info \<Rightarrow> bool" where
  "can_manage fe g p \<longleftrightarrow> taskmgr_root_mode (g_priv g) \<or> pi_uid p = us_uid (fe_session fe)"

definition tm_proc :: "nat \<Rightarrow> gui \<Rightarrow> process_info" where
  "tm_proc i g = fst (tm_list (g_tm g)) ! i"

definition row_focus :: "gui \<Rightarrow> nat \<Rightarrow> int \<Rightarrow> bool" where
  "row_focus g i col \<longleftrightarrow> keyboard_active g \<and> tm_focus_group (g_nav g) = 2 \<and> tm_selected_row (g_nav g) = int i
     \<and> tm_selected_col (g_nav g) = col"

text \<open>The three buttons of a row; the rights are decided once, at the start of the row.\<close>

definition row_kill :: "frame_env \<Rightarrow> nat \<Rightarrow> bool \<Rightarrow> gui \<Rightarrow> gui" where
  "row_kill fe i allowed g =
     (if tm_fires fe g (TmKill i) (row_focus g i 0)
      then consume (if allowed
                    then (let p = tm_proc i g in
                          (emit (Signal (pi_pid p) (pi_uid p) SIGKILL) g)
                            \<lparr>g_tm := set_tm_proc i (p\<lparr>pi_pid := -1\<rparr>) (g_tm g)\<rparr>)
                    else g)
      else g)"

definition row_terminate :: "frame_env \<Rightarrow> nat \<Rightarrow> bool \<Rightarrow> gui \<Rightarrow> gui" where
  "row_terminate fe i allowed g =
     (if tm_fires fe g (TmTerminate i) (row_focus g i 1)
      then consume (if allowed
                    then (let p = tm_proc i g in emit (Signal (pi_pid p) (pi_uid p) SIGTERM) g)
                    else g)
      else g)"

definition row_pause :: "frame_env \<Rightarrow> nat \<Rightarrow> bool \<Rightarrow> gui \<Rightarrow> gui" where
  "row_pause fe i allowed g =
     (let p = tm_proc i g; is_paused = (pi_state p = CHR ''T'' \<or> pi_state p = CHR ''t'') in
      if tm_fires fe g (TmPause i) (row_focus g i 2)
      then consume (if allowed
                    then (emit (Signal (pi_pid p) (pi_uid p) (if is_paused then SIGCONT else SIGSTOP)) g)
                           \<lparr>g_tm := set_tm_proc i (p\<lparr>pi_state := (if is_paused then CHR ''R'' else CHR ''T'')\<rparr>) (g_tm g)\<rparr>
                    else g)
      else g)"

definition row_label :: "frame_env \<Rightarrow> nat \<Rightarrow> gui \<Rightarrow> gui" where
  "row_label fe i g = (if tm_fires fe g (TmLabel i) (row_focus g i 3) then consume g else g)"

definition tm_row :: "frame_env \<Rightarrow> gui \<Rightarrow> nat \<Rightarrow> gui" where
  "tm_row fe g i =
     (if pi_pid (tm_proc i g) \<le> 0 then g
      else (let allowed = can_manage fe g (tm_proc i g)
            in row_label fe i (row_pause fe i allowed (row_terminate fe i allowed (row_kill fe i allowed g)))))"

text \<open>\<^verbatim>\<open>if (tm_selected_row >= limit) tm_selected_row = (limit > 0) ? limit - 1 : 0;\<close>\<close>

definition clamp_row :: "nat \<Rightarrow> gui \<Rightarrow> gui" where
  "clamp_row limit g =
     (if tm_selected_row (g_nav g) \<ge> int limit
      then g\<lparr>g_nav := (g_nav g)\<lparr>tm_selected_row := (if limit > 0 then int limit - 1 else 0)\<rparr>\<rparr> else g)"

definition tm_rows :: "frame_env \<Rightarrow> gui \<Rightarrow> gui" where
  "tm_rows fe g =
     (let limit = tm_limit fe (g_tm g) in foldl (tm_row fe) (clamp_row limit g) [0..<limit])"

definition task_manager_window :: "frame_env \<Rightarrow> gui \<Rightarrow> gui" where
  "task_manager_window fe g =
     (if show_task_manager (g_dlg g) \<and> \<not> show_password_prompt (g_dlg g)
      then (let g1 = (if fe_window fe WinTmTitle
                      then (let g0 = tm_root fe g in if fe_press fe TmX then tm_close g0 else g0) else g);
                g2 = (if fe_window fe WinTm then tm_rows fe (tm_search_field fe (tm_tabs fe g1)) else g1);
                g3 = (if fe_window fe WinTmClose
                         \<and> tm_fires fe g2 TmClose (keyboard_active g2 \<and> tm_focus_group (g_nav g2) = 3)
                      then consume (tm_close g2) else g2)
            in consume g3)
      else g)"

text \<open>The text of a row: name, memory or processor share, state and owner; and the number before it.\<close>

definition proc_label :: "string \<Rightarrow> int \<Rightarrow> process_info \<Rightarrow> string" where
  "proc_label unit_mb sort_mode p =
     str_fit 128 (pi_name p @ '' ('' @
       (if sort_mode = 0 \<or> sort_mode = 2
        then dec_string (cdiv (wrap_int (pi_rss_pages p * 4)) 1024) @ '' '' @ unit_mb
        else dec_string (pi_cpu_percent p) @ ''% CPU'') @
       '') ['' @ c_str [pi_state p] @ ''] ['' @ pi_username p @ '']'')"

definition pid_label :: "process_info \<Rightarrow> string" where
  "pid_label p = str_fit 16 (dec_string (pi_pid p) @ '': '')"

definition info_label :: "string \<Rightarrow> sysinfo \<Rightarrow> string" where
  "info_label unit_mb s =
     str_fit 128 (''RAM: '' @ dec_string (wrap_int (uint (used_ram_mb s))) @ '' / ''
       @ dec_string (wrap_int (uint (total_ram_mb s))) @ '' '' @ unit_mb @ ''   |   SWAP: ''
       @ dec_string (wrap_int (uint (used_swap_mb s))) @ '' / '' @ dec_string (wrap_int (uint (total_swap_mb s)))
       @ '' '' @ unit_mb @ ''   |   CPU: '' @ dec_string (global_cpu_percent s) @ ''%'')"

section \<open>Run command\<close>

definition run_root :: "frame_env \<Rightarrow> gui \<Rightarrow> gui" where
  "run_root fe g =
     (if fe_press fe RunRoot
      then (if run_as_root (g_priv g) then g\<lparr>g_priv := (g_priv g)\<lparr>run_as_root := False\<rparr>\<rparr>
            else if root_authorized (g_priv g) then g\<lparr>g_priv := (g_priv g)\<lparr>run_as_root := True\<rparr>\<rparr>
            else open_prompt 3 g)
      else g)"

definition run_close :: "gui \<Rightarrow> gui" where
  "run_close g = g\<lparr>g_dlg := (g_dlg g)\<lparr>show_run := False\<rparr>\<rparr>"

definition run_go :: "frame_env \<Rightarrow> bool \<Rightarrow> gui \<Rightarrow> gui" where
  "run_go fe is_enter_pressed g =
     (if (fe_press fe RunGo \<or> is_enter_pressed) \<and> eb_len (command_buffer g) > 0
      then g\<lparr>run_cmd := str_fit 256 (c_str (eb_chars (command_buffer g))), run_command_ready := True, running := False\<rparr>
      else g)"

text \<open>\<open>snap_run\<close>: the window was open when the frame began.\<close>

definition run_window :: "frame_env \<Rightarrow> bool \<Rightarrow> gui \<Rightarrow> gui" where
  "run_window fe snap_run g =
     (if show_run (g_dlg g) \<and> snap_run \<and> \<not> show_password_prompt (g_dlg g)
      then (let g1 = (if fe_window fe WinRunTitle \<and> fe_press fe RunX then run_close g else g);
                (g2, is_enter_pressed) =
                  (if fe_window fe WinRun
                   then (let r = fe_edit fe FldCommand (command_buffer g1)
                         in (run_root fe (g1\<lparr>command_buffer := er_buf r\<rparr>), er_committed r))
                   else (g1, False))
            in if fe_window fe WinRunClose
               then (let g3 = run_go fe is_enter_pressed g2 in if fe_press fe RunClose then run_close g3 else g3)
               else g2)
      else g)"

section \<open>Root's password\<close>

text \<open>Closing the prompt takes back the choice to run a command as root.\<close>

definition close_prompt :: "gui \<Rightarrow> gui" where
  "close_prompt g =
     g\<lparr>g_dlg := (g_dlg g)\<lparr>show_password_prompt := False\<rparr>,
       g_priv := (if pwd_prompt_source (g_priv g) = 3 then (g_priv g)\<lparr>run_as_root := False\<rparr> else g_priv g)\<rparr>"

definition pwd_field :: "frame_env \<Rightarrow> gui \<Rightarrow> gui" where
  "pwd_field fe g =
     (let r = masked_edit (fe_stack fe) (fe_edit fe FldRootPwd) (root_pwd_buffer g) in
      g\<lparr>root_pwd_buffer := er_buf r,
        g_nav := (if er_active r \<and> \<not> keyboard_active g then (g_nav g)\<lparr>pwd_focus_idx := 0\<rparr> else g_nav g),
        pwd_enter_pressed := pwd_enter_pressed g \<or> er_committed r\<rparr>)"

text \<open>Root is authorised: the change that was asked for takes place.\<close>

definition grant_root :: "frame_env \<Rightarrow> gui \<Rightarrow> gui" where
  "grant_root fe g =
     (let g1 = g\<lparr>g_priv := (g_priv g)\<lparr>root_authorized := True\<rparr>,
                 g_dlg := (g_dlg g)\<lparr>show_password_prompt := False\<rparr>,
                 root_pwd_buffer := clear_buf (root_pwd_buffer g)\<rparr>
      in if pwd_prompt_source (g_priv g1) = 1
         then (let g2 = close_current_pty g1 in
               launch_terminal_shell fe (terminal_mode g2) (g2\<lparr>g_priv := (g_priv g2)\<lparr>terminal_root_mode := True\<rparr>\<rparr>))
         else if pwd_prompt_source (g_priv g1) = 2
         then g1\<lparr>g_priv := (g_priv g1)\<lparr>taskmgr_root_mode := True\<rparr>\<rparr>
         else if pwd_prompt_source (g_priv g1) = 3
         then g1\<lparr>g_priv := (g_priv g1)\<lparr>run_as_root := True\<rparr>\<rparr>
         else g1)"

definition verify_typed :: "frame_env \<Rightarrow> gui \<Rightarrow> bool" where
  "verify_typed fe g \<longleftrightarrow>
     fst (verify_root_password (fe_auth fe) (fe_world fe) (fe_kernel fe) (fe_session fe) (fe_cred fe)
            (c_str (eb_chars (root_pwd_buffer g)))) = 1"

definition pwd_submit :: "frame_env \<Rightarrow> gui \<Rightarrow> gui" where
  "pwd_submit fe g =
     (if fe_press fe PwdSubmit \<or> pwd_enter_pressed g
      then (let g1 = emit (Verified (verify_typed fe g)) (g\<lparr>pwd_enter_pressed := False, root_auth_msg := []\<rparr>)
            in if verify_typed fe g then grant_root fe g1
               else g1\<lparr>root_auth_msg := ''Authentication failed. Try again.'',
                       root_pwd_buffer := clear_buf (root_pwd_buffer g1)\<rparr>)
      else g)"

definition password_window :: "frame_env \<Rightarrow> gui \<Rightarrow> gui" where
  "password_window fe g =
     (if show_password_prompt (g_dlg g)
      then (let g1 = (if fe_window fe WinPwdTitle \<and> fe_press fe PwdX then close_prompt g else g);
                g2 = (if fe_window fe WinPwd then pwd_field fe g1 else g1)
            in if fe_window fe WinPwdClose
               then (let g3 = pwd_submit fe g2 in if fe_press fe PwdCancel then close_prompt g3 else g3)
               else g2)
      else g)"

section \<open>Change password\<close>

definition cp_close :: "gui \<Rightarrow> gui" where
  "cp_close g = g\<lparr>g_dlg := (g_dlg g)\<lparr>show_change_password := False\<rparr>\<rparr>"

definition cp_edit :: "frame_env \<Rightarrow> gui \<Rightarrow> field \<Rightarrow> edit_buf \<Rightarrow> edit_result" where
  "cp_edit fe g f b = (if show_passwords g then plain_edit (fe_edit fe f) b else masked_edit (fe_stack fe) (fe_edit fe f) b)"

text \<open>The focus follows a field that the pointer made active.\<close>

definition cp_focus :: "edit_result \<Rightarrow> int \<Rightarrow> gui \<Rightarrow> gui" where
  "cp_focus r n g =
     (if er_active r \<and> \<not> keyboard_active g then g\<lparr>g_nav := (g_nav g)\<lparr>cp_focus_idx := n\<rparr>\<rparr> else g)"

text \<open>The three fields and the box that shows the passwords; the flag tells that Enter was typed in a field.\<close>

definition cp_fields :: "frame_env \<Rightarrow> gui \<Rightarrow> gui \<times> bool" where
  "cp_fields fe g =
     (let r0 = cp_edit fe g FldOldPwd (old_pwd_buffer g);
          g0 = cp_focus r0 0 (g\<lparr>old_pwd_buffer := er_buf r0\<rparr>);
          r1 = cp_edit fe g0 FldNewPwd (new_pwd_buffer g0);
          g1 = cp_focus r1 1 (g0\<lparr>new_pwd_buffer := er_buf r1\<rparr>);
          r2 = cp_edit fe g1 FldConfirmPwd (confirm_pwd_buffer g1);
          g2 = cp_focus r2 2 (g1\<lparr>confirm_pwd_buffer := er_buf r2\<rparr>);
          g3 = (if fe_press fe CpShow
                then g2\<lparr>show_passwords := \<not> show_passwords g2, g_nav := (g_nav g2)\<lparr>cp_focus_idx := 3\<rparr>\<rparr> else g2)
      in (g3, er_committed r0 \<or> er_committed r1 \<or> er_committed r2))"

definition cp_apply :: "frame_env \<Rightarrow> bool \<Rightarrow> gui \<Rightarrow> gui" where
  "cp_apply fe is_enter_pressed g =
     (if fe_press fe CpApply \<or> is_enter_pressed \<or> cp_enter_pressed g
      then (let g1 = g\<lparr>cp_enter_pressed := False\<rparr>;
                new = c_str (eb_chars (new_pwd_buffer g1)) in
            if eb_len (new_pwd_buffer g1) = 0
            then g1\<lparr>pwd_msg := str_fit 256 (tr_pwd_empty (fe_trans fe))\<rparr>
            else if new \<noteq> c_str (eb_chars (confirm_pwd_buffer g1))
            then g1\<lparr>pwd_msg := str_fit 256 (tr_pwd_mismatch (fe_trans fe))\<rparr>
            else (case change_own_password (fe_auth fe) (tr_pwd (fe_trans fe)) (fe_kernel fe) (fe_session fe)
                         (fe_cred fe) (c_str (eb_chars (old_pwd_buffer g1))) new 256 of
                    (r, m, typed) \<Rightarrow>
                      emit (PasswdChanged r)
                        (g1\<lparr>pwd_msg := (case m of None \<Rightarrow> str_fit 256 (tr_changing_pwd (fe_trans fe)) | Some x \<Rightarrow> x)\<rparr>)))
      else g)"

definition change_password_window :: "frame_env \<Rightarrow> bool \<Rightarrow> gui \<Rightarrow> gui" where
  "change_password_window fe snap_cp g =
     (if show_change_password (g_dlg g) \<and> snap_cp \<and> \<not> show_password_prompt (g_dlg g)
      then (let g1 = (if fe_window fe WinCpTitle \<and> fe_press fe CpX then cp_close g else g);
                (g2, is_enter_pressed) = (if fe_window fe WinCp then cp_fields fe g1 else (g1, False))
            in if fe_window fe WinCpClose
               then (let g3 = cp_apply fe is_enter_pressed g2 in if fe_press fe CpClose then cp_close g3 else g3)
               else g2)
      else g)"

section \<open>Switch user\<close>

definition su_close :: "gui \<Rightarrow> gui" where
  "su_close g = g\<lparr>g_dlg := (g_dlg g)\<lparr>show_switch_user := False\<rparr>\<rparr>"

definition su_key :: "gui \<Rightarrow> int \<Rightarrow> bool" where
  "su_key g n \<longleftrightarrow> keyboard_active g \<and> su_focus_idx (g_nav g) = n \<and> cp_enter_pressed g"

text \<open>The program ends on the terminal of the chosen session.\<close>

definition su_session :: "frame_env \<Rightarrow> gui \<Rightarrow> nat \<Rightarrow> gui" where
  "su_session fe g i =
     (if fe_press fe (SuSession i) \<or> (su_key g 0 \<and> su_selected_idx (g_nav g) = int i)
      then su_close (g\<lparr>original_vt := si_vt (sessions g ! i), running := False\<rparr>) else g)"

definition su_new :: "frame_env \<Rightarrow> gui \<Rightarrow> gui" where
  "su_new fe g =
     (if fe_press fe SuNew \<or> su_key g 1 then su_close (emit NewGreeter (g\<lparr>running := False\<rparr>)) else g)"

definition switch_user_window :: "frame_env \<Rightarrow> bool \<Rightarrow> gui \<Rightarrow> gui" where
  "switch_user_window fe snap_su g =
     (if show_switch_user (g_dlg g) \<and> snap_su \<and> \<not> show_password_prompt (g_dlg g)
      then (let g1 = (if fe_window fe WinSuTitle \<and> fe_press fe SuX then su_close g else g);
                g2 = (if fe_window fe WinSu
                      then su_new fe (if fe_window fe WinSuList
                                      then foldl (su_session fe) g1 [0..<length (sessions g1)] else g1)
                      else g1)
            in if fe_window fe WinSuClose \<and> (fe_press fe SuClose \<or> su_key g2 2) then su_close g2 else g2)
      else g)"

text \<open>The second line of an entry.\<close>

definition session_label :: "string \<Rightarrow> string \<Rightarrow> string \<Rightarrow> string \<Rightarrow> int \<Rightarrow> session_info \<Rightarrow> string" where
  "session_label parent_vt login_screen graphical console orig s =
     str_fit 128 (''VT '' @ dec_string (si_vt s) @ '' | '' @ si_proc_name s
       @ (if si_vt s = orig then '' '' @ parent_vt else [])
       @ '' '' @ (if si_is_dm s then login_screen else if si_is_graphical s then graphical else console))"

section \<open>Power menu\<close>

definition pm_close :: "gui \<Rightarrow> gui" where
  "pm_close g = g\<lparr>g_dlg := (g_dlg g)\<lparr>show_power_menu := False\<rparr>\<rparr>"

definition power_window :: "frame_env \<Rightarrow> gui \<Rightarrow> gui" where
  "power_window fe g =
     (if show_power_menu (g_dlg g) \<and> \<not> show_password_prompt (g_dlg g) \<and> fe_window fe WinPower
      then (let g1 = (if fe_press fe PmSleep then emit Sleep (pm_close g) else g);
                g2 = (if fe_press fe PmRestart then emit Restart ((pm_close g1)\<lparr>running := False\<rparr>) else g1)
            in if fe_press fe PmShutdown then emit Shutdown ((pm_close g2)\<lparr>running := False\<rparr>) else g2)
      else g)"

section \<open>Buttons outside Nuklear\<close>

definition action_terminal :: "frame_env \<Rightarrow> gui \<Rightarrow> gui" where
  "action_terminal fe g =
     (if trigger_action g = 7
      then (let g1 = g\<lparr>g_dlg := (g_dlg g)\<lparr>show_terminal := \<not> show_terminal (g_dlg g), show_task_manager := False,
                                  show_change_password := False, show_switch_user := False,
                                  show_power_menu := False\<rparr>\<rparr>
            in if show_terminal (g_dlg g1) \<and> term_pty g1 = None \<and> fe_term_ready fe
               then (let g2 = launch_terminal_shell fe (terminal_mode g1) g1
                     in if fe_shell_pid fe < 0 then g2\<lparr>g_dlg := (g_dlg g2)\<lparr>show_terminal := False\<rparr>\<rparr> else g2)
               else g1)
      else g)"

definition action_power :: "gui \<Rightarrow> gui" where
  "action_power g =
     (if trigger_action g = 8
      then (let on = (\<not> show_power_menu (g_dlg g)) in
            g\<lparr>g_dlg := (g_dlg g)\<lparr>show_power_menu := on, show_task_manager := False, show_terminal := False,
                         show_run := False, show_change_password := False, show_switch_user := False\<rparr>,
              g_nav := (if on then (g_nav g)\<lparr>pm_selected_idx := 0\<rparr> else g_nav g)\<rparr>)
      else g)"

text \<open>A dialogue that was closed when the frame began and is open now swallows the clicks that follow.\<close>

definition newly_open :: "dialogs \<Rightarrow> dialogs \<Rightarrow> bool" where
  "newly_open snap d \<longleftrightarrow>
     (\<not> show_switch_user snap \<and> show_switch_user d) \<or> (\<not> show_change_password snap \<and> show_change_password d)
     \<or> (\<not> show_run snap \<and> show_run d) \<or> (\<not> show_task_manager snap \<and> show_task_manager d)
     \<or> (\<not> show_terminal snap \<and> show_terminal d) \<or> (\<not> show_power_menu snap \<and> show_power_menu d)
     \<or> (\<not> show_password_prompt snap \<and> show_password_prompt d)"

definition arm_cooldown :: "dialogs \<Rightarrow> gui \<Rightarrow> gui" where
  "arm_cooldown snap g =
     (if newly_open snap (g_dlg g) then g\<lparr>click_cooldown := 3, g_mouse := (g_mouse g)\<lparr>ms_acc := []\<rparr>\<rparr> else g)"

end
