(* ===== verification/Keys.thy ===== *)
theory Keys
  imports Windows
begin

text \<open>
  What the keys do: the loop of \<^verbatim>\<open>main\<close> over the keyboard's events. Events that only reach Nuklear or the
  terminal emulator change nothing here.
\<close>

section \<open>Model\<close>

definition crem :: "int \<Rightarrow> int \<Rightarrow> int" where
  "crem a b = a - b * cdiv a b"

abbreviation is_enter :: "nat \<Rightarrow> bool" where
  "is_enter code \<equiv> code = KEY_ENTER \<or> code = KEY_KPENTER"

definition set_nav :: "(navigation \<Rightarrow> navigation) \<Rightarrow> gui \<Rightarrow> gui" where
  "set_nav f g = g\<lparr>g_nav := f (g_nav g), keyboard_active := True\<rparr>"

text \<open>Escape closes the topmost dialogue, or ends the program when none is open.\<close>

definition key_escape :: "gui \<Rightarrow> gui" where
  "key_escape g =
     (let d = g_dlg g in
      if show_password_prompt d then close_prompt g
      else if show_task_manager d then tm_close g
      else if show_run d then run_close g
      else if show_change_password d then cp_close g
      else if show_switch_user d then su_close g
      else if show_power_menu d then pm_close g
      else g\<lparr>running := False\<rparr>)"

definition cycle :: "bool \<Rightarrow> int \<Rightarrow> int \<Rightarrow> int" where
  "cycle back n i = (if back then crem (i - 1 + n) n else crem (i + 1) n)"

definition key_prompt_enter :: "nat \<Rightarrow> gui \<Rightarrow> gui" where
  "key_prompt_enter code g =
     (let g1 = g\<lparr>keyboard_active := True\<rparr>; i = pwd_focus_idx (g_nav g) in
      if code = KEY_SPACE \<and> i = 2 then close_prompt g1
      else if code = KEY_SPACE \<and> i = 1 then g1\<lparr>pwd_enter_pressed := True\<rparr>
      else if i = 2 \<and> code = KEY_ENTER then close_prompt g1
      else g1\<lparr>pwd_enter_pressed := True\<rparr>)"

definition key_cp_enter :: "nat \<Rightarrow> gui \<Rightarrow> gui" where
  "key_cp_enter code g =
     (let g1 = g\<lparr>keyboard_active := True\<rparr>; i = cp_focus_idx (g_nav g) in
      if i = 3 then g1\<lparr>show_passwords := \<not> show_passwords g1\<rparr>
      else if i = 5 then cp_close g1
      else if code = KEY_SPACE \<and> i \<noteq> 4 then g1
      else g1\<lparr>cp_enter_pressed := True\<rparr>)"

text \<open>The next group of the task manager that can take the focus, at most four steps on.\<close>

fun tm_next_group :: "nat \<Rightarrow> bool \<Rightarrow> bool \<Rightarrow> int \<Rightarrow> int" where
  "tm_next_group 0 searching no_procs grp = grp"
| "tm_next_group (Suc n) searching no_procs grp =
     (let grp' = crem (grp + 1) 4 in
      if n = 0 then grp'
      else if (grp' = 1 \<and> \<not> searching) \<or> (grp' = 2 \<and> no_procs) then tm_next_group n searching no_procs grp'
      else grp')"

definition key_tm_tab :: "gui \<Rightarrow> gui" where
  "key_tm_tab g =
     (let t = g_tm g in
      set_nav (\<lambda>v. v\<lparr>tm_focus_group :=
        tm_next_group 4 (tm_sort_mode t = 2) (snd (tm_list t) = 0) (tm_focus_group v)\<rparr>) g)"

definition key_tm_left :: "navigation \<Rightarrow> navigation" where
  "key_tm_left v =
     (if tm_focus_group v = 0 \<and> tm_selected_tab v > 0 then v\<lparr>tm_selected_tab := tm_selected_tab v - 1\<rparr>
      else if tm_focus_group v = 2 \<and> tm_selected_col v > 0 then v\<lparr>tm_selected_col := tm_selected_col v - 1\<rparr>
      else v)"

definition key_tm_right :: "navigation \<Rightarrow> navigation" where
  "key_tm_right v =
     (if tm_focus_group v = 0 \<and> tm_selected_tab v < 2 then v\<lparr>tm_selected_tab := tm_selected_tab v + 1\<rparr>
      else if tm_focus_group v = 2 \<and> tm_selected_col v < 3 then v\<lparr>tm_selected_col := tm_selected_col v + 1\<rparr>
      else v)"

definition key_tm_up :: "navigation \<Rightarrow> navigation" where
  "key_tm_up v =
     (if tm_focus_group v = 2 \<and> tm_selected_row v > 0 then v\<lparr>tm_selected_row := tm_selected_row v - 1\<rparr> else v)"

definition key_tm_down :: "int \<Rightarrow> navigation \<Rightarrow> navigation" where
  "key_tm_down procs v =
     (if tm_focus_group v = 2 \<and> tm_selected_row v < procs - 1 then v\<lparr>tm_selected_row := tm_selected_row v + 1\<rparr> else v)"

definition key_power_enter :: "gui \<Rightarrow> gui" where
  "key_power_enter g =
     (let i = pm_selected_idx (g_nav g) in
      if i = 0 then pm_close (emit Sleep g)
      else if i = 1 then emit Restart (g\<lparr>running := False\<rparr>)
      else if i = 2 then emit Shutdown (g\<lparr>running := False\<rparr>)
      else g)"

definition key_enter :: "nat \<Rightarrow> gui \<Rightarrow> gui" where
  "key_enter code g =
     (let d = g_dlg g;
          g1 = (if show_task_manager d then g\<lparr>trigger_action := 100\<rparr>
                else if show_power_menu d then key_power_enter g
                else if \<not> show_run d \<and> \<not> show_change_password d \<and> \<not> show_terminal d \<and> \<not> show_switch_user d
                        \<and> code = KEY_ENTER
                then g\<lparr>trigger_action := selected_idx (g_nav g)\<rparr> else g)
      in g1\<lparr>keyboard_active := True\<rparr>)"

definition no_dialog :: "dialogs \<Rightarrow> bool" where
  "no_dialog d \<longleftrightarrow> \<not> show_task_manager d \<and> \<not> show_run d \<and> \<not> show_change_password d \<and> \<not> show_power_menu d
     \<and> \<not> show_terminal d \<and> \<not> show_switch_user d"

text \<open>A key that goes down and is not taken by the terminal; the order of the tests is the code's.\<close>

definition key_down :: "bool \<Rightarrow> nat \<Rightarrow> gui \<Rightarrow> gui" where
  "key_down is_modal code g =
     (let d = g_dlg g; v = g_nav g; tm = (\<not> is_modal \<and> show_task_manager d); pm = (\<not> is_modal \<and> show_power_menu d) in
      if code = KEY_ESC then key_escape g
      else if show_password_prompt d \<and> code = KEY_TAB
      then set_nav (\<lambda>v. v\<lparr>pwd_focus_idx := cycle (g_shift g) 3 (pwd_focus_idx v)\<rparr>) g
      else if show_password_prompt d \<and> (is_enter code \<or> code = KEY_SPACE) then key_prompt_enter code g
      else if show_change_password d \<and> code = KEY_TAB
      then set_nav (\<lambda>v. v\<lparr>cp_focus_idx := cycle (g_shift g) 6 (cp_focus_idx v)\<rparr>) g
      else if show_change_password d \<and> (is_enter code \<or> code = KEY_SPACE) then key_cp_enter code g
      else if show_switch_user d \<and> code = KEY_TAB
      then set_nav (\<lambda>v. v\<lparr>su_focus_idx := cycle (g_shift g) 3 (su_focus_idx v)\<rparr>) g
      else if show_switch_user d \<and> su_focus_idx v = 0 \<and> code = KEY_UP
      then set_nav (\<lambda>v. if su_selected_idx v > 0 then v\<lparr>su_selected_idx := su_selected_idx v - 1\<rparr> else v) g
      else if show_switch_user d \<and> su_focus_idx v = 0 \<and> code = KEY_DOWN
      then set_nav (\<lambda>v. if su_selected_idx v < int (length (sessions g)) - 1
                        then v\<lparr>su_selected_idx := su_selected_idx v + 1\<rparr> else v) g
      else if show_switch_user d \<and> (is_enter code \<or> code = KEY_SPACE)
      then g\<lparr>keyboard_active := True, cp_enter_pressed := True\<rparr>
      else if tm \<and> code = KEY_TAB then key_tm_tab g
      else if tm \<and> code = KEY_LEFT then set_nav key_tm_left g
      else if tm \<and> code = KEY_RIGHT then set_nav key_tm_right g
      else if tm \<and> code = KEY_UP then set_nav key_tm_up g
      else if tm \<and> code = KEY_DOWN then set_nav (key_tm_down (int (snd (tm_list (g_tm g))))) g
      else if \<not> is_modal \<and> no_dialog d \<and> code = KEY_UP
      then set_nav (\<lambda>v. v\<lparr>selected_idx := cycle True 9 (selected_idx v)\<rparr>) g
      else if \<not> is_modal \<and> no_dialog d \<and> code = KEY_DOWN
      then set_nav (\<lambda>v. v\<lparr>selected_idx := cycle False 9 (selected_idx v)\<rparr>) g
      else if pm \<and> code = KEY_UP
      then set_nav (\<lambda>v. v\<lparr>pm_selected_idx := cycle True 3 (pm_selected_idx v)\<rparr>) g
      else if pm \<and> code = KEY_DOWN
      then set_nav (\<lambda>v. v\<lparr>pm_selected_idx := cycle False 3 (pm_selected_idx v)\<rparr>) g
      else if \<not> is_modal \<and> (is_enter code
                 \<or> (show_task_manager d \<and> code = KEY_SPACE \<and> tm_focus_group v \<noteq> 0 \<and> tm_focus_group v \<noteq> 1))
      then key_enter code g
      else g)"

definition key_event :: "frame_env \<Rightarrow> bool \<Rightarrow> gui \<Rightarrow> input_event \<Rightarrow> gui" where
  "key_event fe is_modal g ev =
     (let down = (ev_value ev = 1 \<or> ev_value ev = 2); code = ev_code ev in
      if ev_type ev \<noteq> EV_KEY then g
      else if code = KEY_LEFTSHIFT \<or> code = KEY_RIGHTSHIFT then g\<lparr>g_shift := down\<rparr>
      else if code = Watchdog.KEY_LEFTCTRL \<or> code = Watchdog.KEY_RIGHTCTRL then g\<lparr>g_ctrl := down\<rparr>
      else if down \<and> show_terminal (g_dlg g) \<and> fe_term_ready fe \<and> \<not> is_modal
      then (if key_sym code = SymEscape then g\<lparr>g_dlg := (g_dlg g)\<lparr>show_terminal := False\<rparr>\<rparr> else g)
      else if down then key_down is_modal code g
      else g)"

text \<open>At most 64 events in a frame; the event read after the sixty-fourth is dropped.\<close>

fun key_loop :: "frame_env \<Rightarrow> bool \<Rightarrow> nat \<Rightarrow> input_event list \<Rightarrow> gui \<Rightarrow> gui" where
  "key_loop fe is_modal lim [] g = g"
| "key_loop fe is_modal lim (ev # evs) g =
     (if lim < 64 then key_loop fe is_modal (Suc lim) evs (key_event fe is_modal g ev) else g)"

end
