(* ===== verification/MainLoop.thy ===== *)
theory MainLoop
  imports Keys
begin

text \<open>
  The main loop of the rescue screen: one frame, the frames until the program ends, what it leaves to
  run, and the properties of whole runs.
\<close>

section \<open>Model\<close>

text \<open>The passwords of a dialogue that is closed are erased, when their length says there are any.\<close>

definition clear_passwords :: "gui \<Rightarrow> gui" where
  "clear_passwords g =
     (let g1 = (if \<not> show_change_password (g_dlg g)
                   \<and> (eb_len (old_pwd_buffer g) > 0 \<or> eb_len (new_pwd_buffer g) > 0 \<or> eb_len (confirm_pwd_buffer g) > 0)
                then g\<lparr>old_pwd_buffer := clear_buf (old_pwd_buffer g), new_pwd_buffer := clear_buf (new_pwd_buffer g),
                       confirm_pwd_buffer := clear_buf (confirm_pwd_buffer g)\<rparr> else g)
      in if \<not> show_password_prompt (g_dlg g1) \<and> eb_len (root_pwd_buffer g1) > 0
         then g1\<lparr>root_pwd_buffer := clear_buf (root_pwd_buffer g1)\<rparr> else g1)"

text \<open>The beginning of a frame: the periodic scan, the mouse, the buttons drawn by hand.\<close>

definition frame_begin :: "frame_env \<Rightarrow> gui \<Rightarrow> gui" where
  "frame_begin fe g =
     (let g1 = (if frame_count g mod 60 = 0 \<and> show_task_manager (g_dlg g) then scan_tm fe g else g)
      in g1\<lparr>cp_enter_pressed := False, frame_count := (frame_count g1 + 1) mod 4294967296\<rparr>)"

definition frame_mouse :: "frame_env \<Rightarrow> bool \<Rightarrow> gui \<Rightarrow> gui" where
  "frame_mouse fe is_modal g =
     (let l = fe_layout fe in
      case filter_clicks (read_mouse (ly_w l) (ly_h l) (fe_mouse fe) (g_mouse g), keyboard_active g, click_cooldown g) of
        (m, kb, cd) \<Rightarrow>
          (case manual_buttons l is_modal m (show_power_menu (g_dlg g)) of
             (act, pm) \<Rightarrow>
               g\<lparr>g_mouse := m, keyboard_active := kb, click_cooldown := cd, trigger_action := act,
                 g_dlg := (g_dlg g)\<lparr>show_power_menu := pm\<rparr>\<rparr>))"

text \<open>Without a keyboard neither its events nor the terminal's output are looked at.\<close>

definition frame_keys :: "frame_env \<Rightarrow> bool \<Rightarrow> gui \<Rightarrow> gui" where
  "frame_keys fe is_modal g =
     (case fe_keys fe of None \<Rightarrow> g | Some evs \<Rightarrow> key_loop fe is_modal 0 evs (pty_dispatch fe g))"

text \<open>The pointer is moved off the screen for Nuklear while the keyboard is in use.\<close>

definition frame_press :: "frame_env \<Rightarrow> gui \<Rightarrow> frame_env" where
  "frame_press fe g =
     fe\<lparr>fe_press := (if keyboard_active g then fe_click fe (-1000) (-1000) False
                     else fe_click fe (ms_x (g_mouse g)) (ms_y (g_mouse g)) (ms_left (g_mouse g)))\<rparr>"

definition frame_windows :: "frame_env \<Rightarrow> dialogs \<Rightarrow> gui \<Rightarrow> gui" where
  "frame_windows fe snap g =
     power_window fe (switch_user_window fe (show_switch_user snap)
       (change_password_window fe (show_change_password snap) (password_window fe
         (run_window fe (show_run snap) (task_manager_window fe (terminal_window fe (main_menu fe g)))))))"

definition frame_end :: "bool \<Rightarrow> gui \<Rightarrow> gui" where
  "frame_end prev_show_terminal g =
     (if prev_show_terminal \<and> \<not> show_terminal (g_dlg g) then close_current_pty g else g)"

definition frame :: "frame_env \<Rightarrow> gui \<Rightarrow> gui" where
  "frame fe g =
     (let snap = g_dlg g;
          is_modal = show_password_prompt snap;
          g1 = frame_keys fe is_modal (clear_passwords (frame_mouse fe is_modal (frame_begin fe g)));
          fe1 = frame_press fe g1;
          g2 = arm_cooldown snap (action_power (action_terminal fe1 (frame_windows fe1 snap g1)))
      in frame_end (show_terminal snap) g2)"

fun frames :: "frame_env list \<Rightarrow> gui \<Rightarrow> gui" where
  "frames [] g = g"
| "frames (fe # fes) g = (if running g then frames fes (frame fe g) else g)"

text \<open>After the loop: the shell goes, and a command may be left to run.\<close>

definition gui_exit :: "gui \<Rightarrow> gui" where
  "gui_exit g =
     (let g1 = close_current_pty g in
      if run_command_ready g1 \<and> run_cmd g1 \<noteq> []
      then emit (RunCommand (run_as_root (g_priv g1)) (run_cmd g1)) g1 else g1)"

text \<open>BusyBox's descriptor is closed before the command is run: the programs tried are the system's own.\<close>

definition run_calls :: "frame_env \<Rightarrow> bool \<Rightarrow> string \<Rightarrow> exec_call list" where
  "run_calls fe root cmd =
     (if root then execute_command_safe (fe_kernel fe) (fe_session fe) (-1) (fe_cred fe) (Some cmd) True
      else execute_as_user (fe_kernel fe) (fe_session fe) (-1) (fe_cred fe) (Some cmd))"

text \<open>The variables before the loop; the first shell is started when the terminal's screen exists.\<close>

definition gui_start :: "tm_state \<Rightarrow> int \<Rightarrow> int \<Rightarrow> int \<Rightarrow> gui" where
  "gui_start tm vt w h =
     \<lparr>g_mouse = \<lparr>ms_x = w div 2, ms_y = h div 2, ms_prev_x = w div 2, ms_prev_y = h div 2, ms_left = False,
                 ms_prev_left = False, ms_acc = [], ms_idle = 0, ms_ignore = False\<rparr>,
      keyboard_active = True, g_shift = False, g_ctrl = False, click_cooldown = 0, trigger_action = -1, running = True,
      g_dlg = \<lparr>show_terminal = False, show_run = False, show_task_manager = False, show_power_menu = False,
               show_change_password = False, show_switch_user = False, show_password_prompt = False\<rparr>,
      g_nav = \<lparr>selected_idx = 6, pm_selected_idx = 0, su_focus_idx = 0, su_selected_idx = 0, cp_focus_idx = 0,
               pwd_focus_idx = 0, tm_focus_group = 2, tm_selected_tab = 0, tm_selected_row = 0, tm_selected_col = 0\<rparr>,
      g_priv = \<lparr>root_authorized = False, terminal_root_mode = False, taskmgr_root_mode = False, run_as_root = False,
                pwd_prompt_source = 0\<rparr>,
      pwd_enter_pressed = False, cp_enter_pressed = False, show_passwords = False,
      command_buffer = empty_buf, old_pwd_buffer = empty_buf, new_pwd_buffer = empty_buf,
      confirm_pwd_buffer = empty_buf, root_pwd_buffer = empty_buf,
      search_edit = \<lparr>eb_chars = replicate 64 NUL, eb_len = 0\<rparr>,
      pwd_msg = [], root_auth_msg = [], run_cmd = [], run_command_ready = False,
      term_pty = None, terminal_mode = 0, sessions = [], g_tm = tm, original_vt = vt, frame_count = 0, g_log = []\<rparr>"

definition gui_main :: "frame_env \<Rightarrow> frame_env list \<Rightarrow> tm_state \<Rightarrow> int \<Rightarrow> gui" where
  "gui_main fe fes tm vt =
     (let g0 = gui_start tm vt (ly_w (fe_layout fe)) (ly_h (fe_layout fe));
          g1 = (if fe_term_ready fe then launch_terminal_shell fe (terminal_mode g0) g0 else g0)
      in gui_exit (frames fes g1))"

section \<open>Invariants of runs\<close>

text \<open>
  What Nuklear guarantees of clicks: off the screen nothing is clicked, and a click is on one button
  only. While the windows of a frame are drawn, an action of the keyboard on a row of the task
  manager excludes clicks.
\<close>

definition clicks_single :: "frame_env \<Rightarrow> bool" where
  "clicks_single fe \<longleftrightarrow>
     (\<forall>x y l b b'. fe_click fe x y l b \<longrightarrow> fe_click fe x y l b' \<longrightarrow> b = b') \<and> (\<forall>b. \<not> fe_click fe (-1000) (-1000) False b)"

definition clicks_ok :: "frame_env \<Rightarrow> gui \<Rightarrow> bool" where
  "clicks_ok fe g \<longleftrightarrow> (\<forall>b b'. fe_press fe b \<longrightarrow> fe_press fe b' \<longrightarrow> b = b')
     \<and> (trigger_action g = 100 \<longrightarrow> (\<forall>b. \<not> fe_press fe b))"

lemma clicks_ok_trigger: "clicks_ok fe g \<Longrightarrow> trigger_action g' \<in> {trigger_action g, -1} \<Longrightarrow> clicks_ok fe g'"
  by (auto simp: clicks_ok_def)

text \<open>
  A state predicate that every part of a frame keeps: the interface between the windows and the
  main loop. \<open>U\<close> is what the frames' surroundings have in common.
\<close>

locale frame_invariant =
  fixes U :: "frame_env \<Rightarrow> bool" and I :: "gui \<Rightarrow> bool"
  assumes U_press: "U fe \<Longrightarrow> U (fe\<lparr>fe_press := p\<rparr>)"
    and begin_keeps: "U fe \<Longrightarrow> I g \<Longrightarrow> I (frame_begin fe g)"
    and mouse_keeps: "U fe \<Longrightarrow> I g \<Longrightarrow> I (frame_mouse fe md g)"
    and clear_keeps: "I g \<Longrightarrow> I (clear_passwords g)"
    and dispatch_keeps: "U fe \<Longrightarrow> I g \<Longrightarrow> I (pty_dispatch fe g)"
    and key_keeps: "U fe \<Longrightarrow> I g \<Longrightarrow> I (key_event fe md g ev)"
    and menu_keeps: "U fe \<Longrightarrow> I g \<Longrightarrow> I (main_menu fe g)"
    and terminal_keeps: "U fe \<Longrightarrow> I g \<Longrightarrow> I (terminal_window fe g)"
    and tasks_keep: "U fe \<Longrightarrow> clicks_ok fe g \<Longrightarrow> I g \<Longrightarrow> I (task_manager_window fe g)"
    and run_keeps: "U fe \<Longrightarrow> I g \<Longrightarrow> I (run_window fe sn g)"
    and password_keeps: "U fe \<Longrightarrow> I g \<Longrightarrow> I (password_window fe g)"
    and change_keeps: "U fe \<Longrightarrow> I g \<Longrightarrow> I (change_password_window fe sn g)"
    and switch_keeps: "U fe \<Longrightarrow> I g \<Longrightarrow> I (switch_user_window fe sn g)"
    and power_keeps: "U fe \<Longrightarrow> I g \<Longrightarrow> I (power_window fe g)"
    and action7_keeps: "U fe \<Longrightarrow> I g \<Longrightarrow> I (action_terminal fe g)"
    and action8_keeps: "I g \<Longrightarrow> I (action_power g)"
    and cooldown_keeps: "I g \<Longrightarrow> I (arm_cooldown sn' g)"
    and pty_keeps: "I g \<Longrightarrow> I (close_current_pty g)"
begin

lemma key_loop_keeps: "U fe \<Longrightarrow> I g \<Longrightarrow> I (key_loop fe md lim evs g)"
  by (induction fe md lim evs g rule: key_loop.induct) (auto simp: key_keeps)

lemma frame_keys_keeps: "U fe \<Longrightarrow> I g \<Longrightarrow> I (frame_keys fe md g)"
  by (auto simp: frame_keys_def key_loop_keeps dispatch_keeps split: option.splits)

lemma windows_keep:
  assumes "U fe" "clicks_ok fe (terminal_window fe (main_menu fe g))" "I g"
  shows "I (frame_windows fe snap g)"
  unfolding frame_windows_def
  by (intro power_keeps switch_keeps change_keeps password_keeps run_keeps tasks_keep terminal_keeps menu_keeps assms)

end

subsection \<open>Clicks and keys exclude each other\<close>

lemmas close_defs = close_prompt_def tm_close_def run_close_def cp_close_def su_close_def pm_close_def

lemmas key_defs = key_escape_def set_nav_def key_prompt_enter_def key_cp_enter_def key_tm_tab_def key_enter_def
  key_power_enter_def close_defs

text \<open>The ranges of the indices that the keys move; \<open>n\<close> is the number of sessions listed.\<close>

definition nav_ok :: "nat \<Rightarrow> navigation \<Rightarrow> bool" where
  "nav_ok n v \<longleftrightarrow> 0 \<le> selected_idx v \<and> selected_idx v < 9 \<and> 0 \<le> pm_selected_idx v \<and> pm_selected_idx v < 3
     \<and> 0 \<le> su_focus_idx v \<and> su_focus_idx v < 3 \<and> 0 \<le> su_selected_idx v
     \<and> (su_selected_idx v = 0 \<or> su_selected_idx v < int n) \<and> 0 \<le> cp_focus_idx v \<and> cp_focus_idx v < 6
     \<and> 0 \<le> pwd_focus_idx v \<and> pwd_focus_idx v < 3 \<and> 0 \<le> tm_focus_group v \<and> tm_focus_group v < 4
     \<and> 0 \<le> tm_selected_tab v \<and> tm_selected_tab v < 3 \<and> 0 \<le> tm_selected_row v
     \<and> 0 \<le> tm_selected_col v \<and> tm_selected_col v < 4"

lemma crem_mod: "0 \<le> a \<Longrightarrow> 0 < b \<Longrightarrow> crem a b = a mod b"
  by (simp add: crem_def minus_mult_div_eq_mod)

lemma cycle_range:
  assumes "0 \<le> i" "i < n"
  shows "0 \<le> cycle back n i" "cycle back n i < n"
proof -
  have "crem (i - 1 + n) n = (i - 1 + n) mod n" "crem (i + 1) n = (i + 1) mod n"
    using assms by (intro crem_mod; simp)+
  then show "0 \<le> cycle back n i" "cycle back n i < n" using assms by (simp_all add: cycle_def)
qed

lemma tm_next_group_range: "0 \<le> grp \<Longrightarrow> grp < 4 \<Longrightarrow> 0 \<le> tm_next_group n s e grp \<and> tm_next_group n s e grp < 4"
proof (induction n s e grp rule: tm_next_group.induct)
  case (2 n s e grp)
  have "crem (grp + 1) 4 = (grp + 1) mod 4" using "2.prems" by (intro crem_mod) simp_all
  then show ?case using 2 by (simp add: Let_def)
qed simp

text \<open>Case analysis over the keys, with what is known of the moves of the focus.\<close>

lemma key_down_cases:
  assumes "P (key_escape g)" "P (key_prompt_enter code g)" "P (key_cp_enter code g)"
    and "P (g\<lparr>keyboard_active := True, cp_enter_pressed := True\<rparr>)" "P (key_enter code g)" "P g"
    and nav: "\<And>f. (\<And>v. nav_ok (length (sessions g)) v \<Longrightarrow> nav_ok (length (sessions g)) (f v)) \<Longrightarrow> P (set_nav f g)"
  shows "P (key_down md code g)"
proof -
  note c = cycle_range
  have 1: "P (set_nav (\<lambda>v. v\<lparr>pwd_focus_idx := cycle b 3 (pwd_focus_idx v)\<rparr>) g)" for b
    by (rule nav) (simp add: nav_ok_def c)
  have 2: "P (set_nav (\<lambda>v. v\<lparr>cp_focus_idx := cycle b 6 (cp_focus_idx v)\<rparr>) g)" for b
    by (rule nav) (simp add: nav_ok_def c)
  have 3: "P (set_nav (\<lambda>v. v\<lparr>su_focus_idx := cycle b 3 (su_focus_idx v)\<rparr>) g)" for b
    by (rule nav) (simp add: nav_ok_def c)
  have 4: "P (set_nav (\<lambda>v. if su_selected_idx v > 0 then v\<lparr>su_selected_idx := su_selected_idx v - 1\<rparr> else v) g)"
    by (rule nav) (auto simp: nav_ok_def)
  have 5: "P (set_nav (\<lambda>v. if su_selected_idx v < int (length (sessions g)) - 1
                        then v\<lparr>su_selected_idx := su_selected_idx v + 1\<rparr> else v) g)"
    by (rule nav) (simp add: nav_ok_def)
  have 6: "P (key_tm_tab g)"
    unfolding key_tm_tab_def Let_def by (rule nav) (simp add: nav_ok_def tm_next_group_range)
  have 7: "P (set_nav key_tm_left g)" "P (set_nav key_tm_right g)" "P (set_nav key_tm_up g)"
    "P (set_nav (key_tm_down n) g)" for n
    by (rule nav; simp add: nav_ok_def key_tm_left_def key_tm_right_def key_tm_up_def key_tm_down_def)+
  have 8: "P (set_nav (\<lambda>v. v\<lparr>selected_idx := cycle b 9 (selected_idx v)\<rparr>) g)" for b
    by (rule nav) (simp add: nav_ok_def c)
  have 9: "P (set_nav (\<lambda>v. v\<lparr>pm_selected_idx := cycle b 3 (pm_selected_idx v)\<rparr>) g)" for b
    by (rule nav) (simp add: nav_ok_def c)
  show ?thesis
    unfolding key_down_def Let_def by (simp only: assms(1-6) 1 2 3 4 5 6 7 8 9 if_split simp_thms)
qed

text \<open>And over the events.\<close>

lemma key_event_cases:
  assumes "P g" "\<And>b. P (g\<lparr>g_shift := b\<rparr>)" "\<And>b. P (g\<lparr>g_ctrl := b\<rparr>)"
    and "P (g\<lparr>g_dlg := (g_dlg g)\<lparr>show_terminal := False\<rparr>\<rparr>)" "\<And>code. P (key_down md code g)"
  shows "P (key_event fe md g ev)"
  unfolding key_event_def Let_def by (simp only: assms if_split simp_thms)

definition keys_active :: "gui \<Rightarrow> bool" where
  "keys_active g \<longleftrightarrow> (trigger_action g = 100 \<longrightarrow> keyboard_active g)"

lemma key_event_active: "keys_active g \<Longrightarrow> keys_active (key_event fe md g ev)"
  by (rule key_event_cases; (rule key_down_cases)?) (simp_all add: keys_active_def key_defs Let_def emit_def)

lemma key_loop_active: "keys_active g \<Longrightarrow> keys_active (key_loop fe md lim evs g)"
  by (induction fe md lim evs g rule: key_loop.induct) (auto simp: key_event_active)

lemma clear_passwords_simps [simp]:
  "trigger_action (clear_passwords g) = trigger_action g" "keyboard_active (clear_passwords g) = keyboard_active g"
  "g_priv (clear_passwords g) = g_priv g" "g_log (clear_passwords g) = g_log g" "g_dlg (clear_passwords g) = g_dlg g"
  "g_nav (clear_passwords g) = g_nav g" "sessions (clear_passwords g) = sessions g" "g_tm (clear_passwords g) = g_tm g"
  by (simp_all add: clear_passwords_def Let_def)

lemma pty_dispatch_simps [simp]:
  "trigger_action (pty_dispatch fe g) = trigger_action g" "keyboard_active (pty_dispatch fe g) = keyboard_active g"
  "g_priv (pty_dispatch fe g) = g_priv g" "g_log (pty_dispatch fe g) = g_log g" "g_nav (pty_dispatch fe g) = g_nav g"
  "sessions (pty_dispatch fe g) = sessions g" "g_tm (pty_dispatch fe g) = g_tm g"
  by (simp_all add: pty_dispatch_def)

lemma manual_buttons_action: "fst (manual_buttons l md m pm) \<in> {-1, 7, 8}"
  by (auto simp: manual_buttons_def)

lemma frame_mouse_trigger: "trigger_action (frame_mouse fe md g) \<in> {-1, 7, 8}"
  using manual_buttons_action [of "fe_layout fe" md]
  by (auto simp: frame_mouse_def Let_def split: prod.splits) (metis fst_conv)+

lemma frame_keys_active: "keys_active (frame_keys fe md (clear_passwords (frame_mouse fe md' g)))"
proof -
  let ?g = "clear_passwords (frame_mouse fe md' g)"
  have "trigger_action ?g \<noteq> 100" using frame_mouse_trigger [of fe md' g] by auto
  then have "keys_active (pty_dispatch fe ?g)" "keys_active ?g" by (simp_all add: keys_active_def)
  then show ?thesis by (auto simp: frame_keys_def key_loop_active split: option.splits)
qed

lemma clicks_ok_press: "clicks_single fe \<Longrightarrow> keys_active g \<Longrightarrow> clicks_ok (frame_press fe g) g"
  unfolding clicks_ok_def clicks_single_def frame_press_def keys_active_def by (auto split: if_splits)

lemmas menu_defs = menu_lock_def menu_switch_user_def menu_sign_out_def menu_change_password_def menu_task_manager_def
  menu_run_command_def menu_cancel_def scan_tm_def emit_def

lemma menu_triggers:
  assumes "trigger_action g \<in> {t, -1}"
  shows "trigger_action (menu_lock fe g) \<in> {t, -1}" "trigger_action (menu_switch_user fe g) \<in> {t, -1}"
    "trigger_action (menu_sign_out fe g) \<in> {t, -1}" "trigger_action (menu_change_password fe g) \<in> {t, -1}"
    "trigger_action (menu_task_manager fe g) \<in> {t, -1}" "trigger_action (menu_run_command fe g) \<in> {t, -1}"
    "trigger_action (menu_cancel fe g) \<in> {t, -1}"
  using assms by (auto simp: menu_defs Let_def split: prod.splits)

text \<open>A predicate that every entry of the menu keeps is kept by the menu.\<close>

lemma main_menu_keeps:
  assumes "P g" "P (g\<lparr>trigger_action := -1\<rparr>)"
    and "\<And>g. P g \<Longrightarrow> P (menu_lock fe g)" "\<And>g. P g \<Longrightarrow> P (menu_switch_user fe g)"
    "\<And>g. P g \<Longrightarrow> P (menu_sign_out fe g)" "\<And>g. P g \<Longrightarrow> P (menu_change_password fe g)"
    "\<And>g. P g \<Longrightarrow> P (menu_task_manager fe g)" "\<And>g. P g \<Longrightarrow> P (menu_run_command fe g)"
    "\<And>g. P g \<Longrightarrow> P (menu_cancel fe g)"
  shows "P (main_menu fe g)"
proof -
  have "P (menu_cancel fe (menu_run_command fe (menu_task_manager fe (menu_change_password fe
                   (menu_sign_out fe (menu_switch_user fe (menu_lock fe g)))))))"
    by (intro assms)
  then show ?thesis using assms(1,2) by (simp add: main_menu_def)
qed

lemma main_menu_trigger: "trigger_action (main_menu fe g) \<in> {trigger_action g, -1}"
  by (rule main_menu_keeps, simp, simp) (rule menu_triggers, assumption)+

lemma terminal_window_keeps:
  assumes "P g" "\<And>g. P g \<Longrightarrow> P (term_root fe g)" "\<And>b g. P g \<Longrightarrow> P (term_close fe b g)"
    "\<And>m g. P g \<Longrightarrow> P (term_switch fe m g)"
  shows "P (terminal_window fe g)"
proof -
  have m: "P g \<Longrightarrow> P (term_modes fe g)" for g using assms(4) by (simp add: term_modes_def Let_def)
  show ?thesis using assms(1-3) m by (simp add: terminal_window_def Let_def)
qed

lemma run_window_keeps:
  assumes "P g" "\<And>g. P g \<Longrightarrow> P (run_close g)" "\<And>g. P g \<Longrightarrow> P (run_root fe g)"
    "\<And>e g. P g \<Longrightarrow> P (run_go fe e g)" "\<And>b g. P g \<Longrightarrow> P (g\<lparr>command_buffer := b\<rparr>)"
  shows "P (run_window fe sn g)"
  using assms by (auto simp: run_window_def Let_def split: prod.splits)

lemma password_window_keeps:
  assumes "P g" "\<And>g. P g \<Longrightarrow> P (close_prompt g)" "\<And>g. P g \<Longrightarrow> P (pwd_field fe g)" "\<And>g. P g \<Longrightarrow> P (pwd_submit fe g)"
  shows "P (password_window fe g)"
  using assms by (simp add: password_window_def Let_def)

lemma change_password_window_keeps:
  assumes "P g" "\<And>g. P g \<Longrightarrow> P (cp_close g)" "\<And>g. P g \<Longrightarrow> P (fst (cp_fields fe g))" "\<And>e g. P g \<Longrightarrow> P (cp_apply fe e g)"
  shows "P (change_password_window fe sn g)"
  using assms by (auto simp: change_password_window_def Let_def split: prod.splits) (metis fst_conv)+

lemma foldl_keeps: "P g \<Longrightarrow> (\<And>g x. x \<in> set xs \<Longrightarrow> P g \<Longrightarrow> P (f g x)) \<Longrightarrow> P (foldl f g xs)"
  by (induction xs arbitrary: g) auto

lemma switch_user_window_keeps:
  assumes "P g" "\<And>g. P g \<Longrightarrow> P (su_close g)" "\<And>g i. P g \<Longrightarrow> P (su_session fe g i)" "\<And>g. P g \<Longrightarrow> P (su_new fe g)"
  shows "P (switch_user_window fe sn g)"
proof -
  have "P g \<Longrightarrow> P (foldl (su_session fe) g xs)" for g xs by (rule foldl_keeps) (auto simp: assms)
  then show ?thesis using assms by (simp add: switch_user_window_def Let_def)
qed

lemma power_window_keeps:
  assumes "P g" "\<And>g. P g \<Longrightarrow> P (pm_close g)" "\<And>g. P g \<Longrightarrow> P (g\<lparr>running := False\<rparr>)"
    "\<And>g e. e \<in> {Sleep, Restart, Shutdown} \<Longrightarrow> P g \<Longrightarrow> P (emit e g)"
  shows "P (power_window fe g)"
  using assms by (simp add: power_window_def Let_def)

lemma consume_trigger: "trigger_action (consume g) \<in> {trigger_action g, -1}"
  by (simp add: consume_def)

lemma row_triggers:
  assumes "trigger_action g \<in> {t, -1}"
  shows "trigger_action (row_kill fe i a g) \<in> {t, -1}" "trigger_action (row_terminate fe i a g) \<in> {t, -1}"
    "trigger_action (row_pause fe i a g) \<in> {t, -1}" "trigger_action (row_label fe i g) \<in> {t, -1}"
  using assms by (simp_all add: row_kill_def row_terminate_def row_pause_def row_label_def consume_def emit_def Let_def)

lemma tm_row_keeps:
  assumes "P g" "\<And>g a. P g \<Longrightarrow> P (row_kill fe i a g)" "\<And>g a. P g \<Longrightarrow> P (row_terminate fe i a g)"
    "\<And>g a. P g \<Longrightarrow> P (row_pause fe i a g)" "\<And>g. P g \<Longrightarrow> P (row_label fe i g)"
  shows "P (tm_row fe g i)"
  using assms by (simp add: tm_row_def Let_def)

lemma tm_row_trigger: "trigger_action (tm_row fe g i) \<in> {trigger_action g, -1}"
  by (rule tm_row_keeps, simp) (rule row_triggers, assumption)+

lemma tm_tabs_keep:
  assumes "P g" "\<And>b m g. P g \<Longrightarrow> P (tm_tab fe b m g)" "\<And>g. P g \<Longrightarrow> P (scan_tm fe g)"
  shows "P (tm_tabs fe g)"
  using assms by (simp add: tm_tabs_def Let_def)

text \<open>In the task manager the invariant is kept together with the exclusion of clicks and keys.\<close>

lemma tm_window_parts_keep:
  assumes "P g" "\<And>g. P g \<Longrightarrow> P (tm_root fe g)" "\<And>g. P g \<Longrightarrow> P (tm_close g)" "\<And>g. P g \<Longrightarrow> P (consume g)"
    "\<And>g. P g \<Longrightarrow> P (tm_tabs fe g)" "\<And>g. P g \<Longrightarrow> P (tm_search_field fe g)" "\<And>g. P g \<Longrightarrow> P (tm_rows fe g)"
  shows "P (task_manager_window fe g)"
  using assms by (simp add: task_manager_window_def Let_def)

lemma tm_triggers:
  "trigger_action (tm_root fe g) = trigger_action g" "trigger_action (tm_close g) = trigger_action g"
  "trigger_action (scan_tm fe g) = trigger_action g" "trigger_action (tm_search_field fe g) = trigger_action g"
  "trigger_action (clamp_row n g) = trigger_action g"
  "trigger_action (tm_tab fe b m g) \<in> {trigger_action g, -1}"
  by (simp_all add: tm_root_def open_prompt_def tm_close_def scan_tm_def tm_search_field_def clamp_row_def tm_tab_def
        consume_def Let_def)

lemma task_manager_window_keeps:
  assumes "clicks_ok fe g" "P g"
    and p: "\<And>g. P g \<Longrightarrow> P (tm_root fe g)" "\<And>g. P g \<Longrightarrow> P (tm_close g)" "\<And>g. P g \<Longrightarrow> P (consume g)"
    "\<And>b m g. P g \<Longrightarrow> P (tm_tab fe b m g)" "\<And>g. P g \<Longrightarrow> P (scan_tm fe g)" "\<And>g. P g \<Longrightarrow> P (tm_search_field fe g)"
    "\<And>n g. P g \<Longrightarrow> P (clamp_row n g)"
    and row: "\<And>g i. clicks_ok fe g \<Longrightarrow> P g \<Longrightarrow> P (tm_row fe g i)"
  shows "P (task_manager_window fe g)"
proof -
  let ?Q = "\<lambda>g. clicks_ok fe g \<and> P g"
  have c: "?Q g \<Longrightarrow> P g' \<Longrightarrow> trigger_action g' \<in> {trigger_action g, -1} \<Longrightarrow> ?Q g'" for g g'
    by (blast intro: clicks_ok_trigger)
  have q: "?Q (tm_root fe g)" "?Q (tm_close g)" "?Q (consume g)" "?Q (tm_tab fe b m g)" "?Q (scan_tm fe g)"
    "?Q (tm_search_field fe g)" "?Q (clamp_row n g)" "?Q (tm_row fe g i)" if "?Q g" for g b m n i
    by (rule c [OF that]; simp add: that p row tm_triggers consume_trigger [simplified] tm_row_trigger [simplified]
          tm_triggers(6) [simplified])+
  have rows: "?Q (tm_rows fe g)" if "?Q g" for g
    unfolding tm_rows_def Let_def by (rule foldl_keeps [of ?Q]) (rule q, rule that, rule q)
  have tabs: "?Q (tm_tabs fe g)" if "?Q g" for g
    by (rule tm_tabs_keep [of ?Q, OF that]) (rule q, assumption)+
  have "?Q g" using assms(1,2) by (rule conjI)
  then have "?Q (task_manager_window fe g)"
    by (rule tm_window_parts_keep [of ?Q]) (rule q tabs rows, assumption)+
  then show ?thesis by blast
qed

lemma pty_trigger [simp]:
  "trigger_action (close_current_pty g) = trigger_action g" "trigger_action (launch_terminal_shell fe m g) = trigger_action g"
  by (simp_all add: close_current_pty_def launch_terminal_shell_def emit_def Let_def split: option.splits)

lemma terminal_window_trigger: "trigger_action (terminal_window fe g) = trigger_action g"
  by (rule terminal_window_keeps [where P = "\<lambda>h. trigger_action h = trigger_action g"])
    (simp_all add: term_root_def term_close_def term_switch_def open_prompt_def Let_def)

context frame_invariant
begin

lemma frame_keeps:
  assumes "U fe" "clicks_single fe" "I g"
  shows "I (frame fe g)"
proof -
  let ?g = "frame_keys fe (show_password_prompt (g_dlg g))
    (clear_passwords (frame_mouse fe (show_password_prompt (g_dlg g)) (frame_begin fe g)))"
  let ?fe = "frame_press fe ?g"
  have u: "U ?fe" using assms(1) by (simp add: frame_press_def U_press)
  have i: "I ?g" by (intro frame_keys_keeps clear_keeps mouse_keeps begin_keeps assms)
  have "clicks_ok ?fe ?g" by (intro clicks_ok_press assms frame_keys_active)
  then have "clicks_ok ?fe (main_menu ?fe ?g)" using main_menu_trigger by (rule clicks_ok_trigger)
  then have "clicks_ok ?fe (terminal_window ?fe (main_menu ?fe ?g))"
    by (rule clicks_ok_trigger) (simp add: terminal_window_trigger)
  then have "I (frame_windows ?fe (g_dlg g) ?g)" by (rule windows_keep [OF u _ i])
  then show ?thesis
    unfolding frame_def frame_end_def Let_def
    by (simp add: pty_keeps cooldown_keeps action8_keeps action7_keeps u)
qed

lemma frames_keep: "(\<And>fe. fe \<in> set fes \<Longrightarrow> U fe \<and> clicks_single fe) \<Longrightarrow> I g \<Longrightarrow> I (frames fes g)"
  by (induction fes arbitrary: g) (auto simp: frame_keeps)

end

section \<open>A concrete run\<close>

text \<open>
  A run for the witnesses: the terminal is opened with the keyboard, its root button clicked, the
  password \<open>pw\<close> typed; \<open>su\<close> wants \<^verbatim>\<open>toor\<close>.
\<close>

definition quiet_env :: frame_env where
  "quiet_env =
     \<lparr>fe_world = passwd_world [], fe_auth = asking_env, fe_kernel = linux_cred_ops, fe_cred = root_cred, fe_session = ann,
      fe_layout = \<lparr>ly_w = 640, ly_h = 480, shutdown_w = 32, shutdown_h = 32, terminal_w = 32, terminal_h = 32, pm_menu_w = 150\<rparr>,
      fe_trans = \<lparr>tr_pwd = \<lparr>err_pwd_short_simple = [], err_pwd_incorrect = [], msg_pwd_changed = [], err_pwd_change_failed = []\<rparr>,
                  tr_pwd_empty = [], tr_pwd_mismatch = [], tr_changing_pwd = []\<rparr>,
      fe_click = (\<lambda>_ _ _ _. False), fe_press = (\<lambda>_. False), fe_window = (\<lambda>_. True),
      fe_edit = (\<lambda>_ b. \<lparr>er_buf = b, er_active = False, er_committed = False\<rparr>),
      fe_mouse = None, fe_keys = Some [], fe_pty_ended = False, fe_term_ready = True, fe_shell_pid = 500, fe_busybox = 3,
      fe_links = (\<lambda>_. None), fe_my_pid = 400, fe_rescue_vt = 9, fe_nproc = 2, fe_ms = 0, fe_junk = junk_proc, fe_stack = replicate 256 NUL, fe_tm_h = 400\<rparr>"

definition key_press :: "nat \<Rightarrow> input_event" where
  "key_press c = \<lparr>ev_type = EV_KEY, ev_code = c, ev_value = 1\<rparr>"

definition typed_edit :: "string \<Rightarrow> field \<Rightarrow> edit_buf \<Rightarrow> edit_result" where
  "typed_edit s f b =
     \<lparr>er_buf = \<lparr>eb_chars = s @ drop (length s) (eb_chars b), eb_len = length s\<rparr>, er_active = True, er_committed = True\<rparr>"

definition root_shell_frames :: "string \<Rightarrow> frame_env list" where
  "root_shell_frames pw =
     [quiet_env\<lparr>fe_keys := Some [key_press KEY_DOWN, key_press KEY_ENTER]\<rparr>,
      quiet_env\<lparr>fe_mouse := Some [[8, 1, 0]], fe_click := (\<lambda>x _ _ b. x \<ge> 0 \<and> b = TermRoot)\<rparr>,
      quiet_env\<lparr>fe_edit := typed_edit pw\<rparr>]"

end
