(* ===== verification/Rights.thy ===== *)
theory Rights
  imports MainLoop
begin

text \<open>
  The rights of the rescue screen over whole runs: what is done as root or to another user's
  processes comes after an accepted password. One interpretation of the main loop's interface.
\<close>

section \<open>Root's rights\<close>

text \<open>
  What an effect needs: root's shell and root's command need an accepted password before them, a
  signal goes to one process, of user \<open>u\<close> unless a password was accepted.
\<close>

fun effect_ok :: "int \<Rightarrow> bool \<Rightarrow> effect \<Rightarrow> bool" where
  "effect_ok u v (Shell root mode) = (root \<longrightarrow> v)"
| "effect_ok u v (RunCommand root cmd) = (root \<longrightarrow> v)"
| "effect_ok u v (Signal pid uid sig) = (pid > 0 \<and> (uid = u \<or> v))"
| "effect_ok u v e = True"

fun log_ok :: "int \<Rightarrow> bool \<Rightarrow> effect list \<Rightarrow> bool" where
  "log_ok u v [] = True"
| "log_ok u v (e # es) = (effect_ok u v e \<and> log_ok u (v \<or> e = Verified True) es)"

lemma log_ok_snoc [simp]:
  "log_ok u v (es @ [e]) = (log_ok u v es \<and> effect_ok u (v \<or> Verified True \<in> set es) e)"
  by (induction es arbitrary: v) (auto simp: disj_assoc eq_commute [of "Verified True"])

definition priv_inv :: "int \<Rightarrow> gui \<Rightarrow> bool" where
  "priv_inv u g \<longleftrightarrow>
     (terminal_root_mode (g_priv g) \<or> taskmgr_root_mode (g_priv g) \<or> run_as_root (g_priv g) \<longrightarrow> root_authorized (g_priv g))
     \<and> (root_authorized (g_priv g) \<longrightarrow> Verified True \<in> set (g_log g)) \<and> log_ok u False (g_log g)"

lemma priv_inv_same: "priv_inv u g \<Longrightarrow> g_priv g' = g_priv g \<Longrightarrow> g_log g' = g_log g \<Longrightarrow> priv_inv u g'"
  by (simp add: priv_inv_def)

lemma priv_inv_updates [simp]:
  "priv_inv u (g\<lparr>running := a\<rparr>) = priv_inv u g" "priv_inv u (g\<lparr>g_dlg := b\<rparr>) = priv_inv u g"
  "priv_inv u (g\<lparr>trigger_action := c\<rparr>) = priv_inv u g" "priv_inv u (g\<lparr>keyboard_active := a\<rparr>) = priv_inv u g"
  "priv_inv u (g\<lparr>g_nav := d\<rparr>) = priv_inv u g" "priv_inv u (g\<lparr>g_tm := e\<rparr>) = priv_inv u g"
  "priv_inv u (g\<lparr>term_pty := f\<rparr>) = priv_inv u g" "priv_inv u (g\<lparr>terminal_mode := c\<rparr>) = priv_inv u g"
  "priv_inv u (g\<lparr>sessions := h\<rparr>) = priv_inv u g" "priv_inv u (g\<lparr>command_buffer := i\<rparr>) = priv_inv u g"
  "priv_inv u (g\<lparr>root_pwd_buffer := i\<rparr>) = priv_inv u g" "priv_inv u (g\<lparr>pwd_enter_pressed := a\<rparr>) = priv_inv u g"
  "priv_inv u (g\<lparr>cp_enter_pressed := a\<rparr>) = priv_inv u g" "priv_inv u (g\<lparr>root_auth_msg := j\<rparr>) = priv_inv u g"
  "priv_inv u (g\<lparr>g_shift := a\<rparr>) = priv_inv u g" "priv_inv u (g\<lparr>g_ctrl := a\<rparr>) = priv_inv u g"
  "priv_inv u (g\<lparr>pwd_msg := j\<rparr>) = priv_inv u g" "priv_inv u (g\<lparr>show_passwords := a\<rparr>) = priv_inv u g"
  "priv_inv u (g\<lparr>original_vt := c\<rparr>) = priv_inv u g" "priv_inv u (g\<lparr>g_mouse := k\<rparr>) = priv_inv u g"
  "priv_inv u (g\<lparr>click_cooldown := c\<rparr>) = priv_inv u g" "priv_inv u (g\<lparr>search_edit := i\<rparr>) = priv_inv u g"
  "priv_inv u (g\<lparr>frame_count := n\<rparr>) = priv_inv u g" "priv_inv u (g\<lparr>old_pwd_buffer := i\<rparr>) = priv_inv u g"
  "priv_inv u (g\<lparr>new_pwd_buffer := i\<rparr>) = priv_inv u g" "priv_inv u (g\<lparr>confirm_pwd_buffer := i\<rparr>) = priv_inv u g"
  "priv_inv u (g\<lparr>run_cmd := j\<rparr>) = priv_inv u g" "priv_inv u (g\<lparr>run_command_ready := a\<rparr>) = priv_inv u g"
  by (simp_all add: priv_inv_def)

lemma priv_inv_emit:
  "priv_inv u g \<Longrightarrow> effect_ok u (Verified True \<in> set (g_log g)) e \<Longrightarrow> priv_inv u (emit e g)"
  by (auto simp: priv_inv_def emit_def)

lemma priv_inv_emit_plain [simp]:
  "priv_inv u g \<Longrightarrow> effect_ok u False e \<Longrightarrow> priv_inv u (emit e g)"
  by (rule priv_inv_emit) (cases e; auto)+

lemma priv_inv_close_pty [simp]: "priv_inv u g \<Longrightarrow> priv_inv u (close_current_pty g)"
  by (simp add: close_current_pty_def Let_def split: option.splits)

lemma priv_inv_launch [simp]: "priv_inv u g \<Longrightarrow> priv_inv u (launch_terminal_shell fe m g)"
  unfolding launch_terminal_shell_def by (auto intro!: priv_inv_emit) (auto simp: priv_inv_def)

lemma priv_inv_close [simp]:
  "priv_inv u g \<Longrightarrow> priv_inv u (close_prompt g)" "priv_inv u g \<Longrightarrow> priv_inv u (run_close g)"
  "priv_inv u g \<Longrightarrow> priv_inv u (cp_close g)" "priv_inv u g \<Longrightarrow> priv_inv u (su_close g)"
  "priv_inv u g \<Longrightarrow> priv_inv u (pm_close g)" "priv_inv u g \<Longrightarrow> priv_inv u (tm_close g)"
  by (simp_all add: close_defs) (simp_all add: priv_inv_def)

lemma priv_inv_open [simp]: "priv_inv u g \<Longrightarrow> priv_inv u (open_prompt n g)"
  by (simp add: open_prompt_def) (simp add: priv_inv_def)

lemma priv_inv_scan [simp]: "priv_inv u (scan_tm fe g) = priv_inv u g"
  by (simp add: scan_tm_def)

subsection \<open>The parts of a frame\<close>

lemma priv_inv_prompt_switches [simp]:
  assumes "priv_inv u g"
  shows "priv_inv u (term_root fe g)" "priv_inv u (tm_root fe g)" "priv_inv u (run_root fe g)"
proof -
  have t: "priv_inv u (g\<lparr>g_priv := (g_priv g)\<lparr>terminal_root_mode := b\<rparr>\<rparr>)"
    "priv_inv u (g\<lparr>g_priv := (g_priv g)\<lparr>taskmgr_root_mode := b\<rparr>\<rparr>)"
    "priv_inv u (g\<lparr>g_priv := (g_priv g)\<lparr>run_as_root := b\<rparr>\<rparr>)"
    if "b \<longrightarrow> root_authorized (g_priv g)" "priv_inv u g" for b g
    using that by (auto simp: priv_inv_def)
  have c: "g_priv (close_current_pty g) = g_priv g"
    by (simp add: close_current_pty_def emit_def Let_def split: option.splits)
  show "priv_inv u (term_root fe g)"
    using assms t(1) [of _ "close_current_pty g"] by (simp add: term_root_def Let_def c)
  show "priv_inv u (tm_root fe g)" "priv_inv u (run_root fe g)"
    using assms by (simp_all add: tm_root_def run_root_def t)
qed

lemma priv_inv_menu [simp]: "priv_inv u g \<Longrightarrow> priv_inv u (main_menu fe g)"
  by (rule main_menu_keeps) (simp_all add: menu_defs(1-7) Let_def split: prod.splits)

lemma priv_inv_terminal [simp]: "priv_inv u g \<Longrightarrow> priv_inv u (terminal_window fe g)"
  by (rule terminal_window_keeps) (simp_all add: term_close_def term_switch_def)

lemma priv_inv_run [simp]: "priv_inv u g \<Longrightarrow> priv_inv u (run_window fe sn g)"
  by (rule run_window_keeps) (simp_all add: run_go_def)

lemma priv_inv_grant: "priv_inv u g \<Longrightarrow> Verified True \<in> set (g_log g) \<Longrightarrow> priv_inv u (grant_root fe g)"
proof -
  assume a: "priv_inv u g" "Verified True \<in> set (g_log g)"
  have s: "priv_inv u (h\<lparr>g_priv := q\<rparr>)" if "priv_inv u h" "Verified True \<in> set (g_log h)" "root_authorized q" for h q
    using that by (simp add: priv_inv_def)
  have c: "Verified True \<in> set (g_log (close_current_pty h)) \<longleftrightarrow> Verified True \<in> set (g_log h)"
    "g_priv (close_current_pty h) = g_priv h" for h
    by (auto simp: close_current_pty_def emit_def Let_def split: option.splits)
  show ?thesis using a by (simp add: grant_root_def Let_def s c)
qed

lemma priv_inv_password [simp]: "priv_inv u g \<Longrightarrow> priv_inv u (password_window fe g)"
proof (rule password_window_keeps)
  fix g assume "priv_inv u g"
  then have "priv_inv u (emit (Verified b) (g\<lparr>pwd_enter_pressed := False, root_auth_msg := []\<rparr>))" for b by simp
  moreover have "Verified True \<in> set (g_log (emit (Verified True) h))" for h by (simp add: emit_def)
  ultimately show "priv_inv u (pwd_submit fe g)"
    using \<open>priv_inv u g\<close> by (simp add: pwd_submit_def Let_def priv_inv_grant)
qed (simp_all add: pwd_field_def Let_def)

lemma priv_inv_change [simp]: "priv_inv u g \<Longrightarrow> priv_inv u (change_password_window fe sn g)"
  by (rule change_password_window_keeps)
    (simp_all add: cp_fields_def cp_focus_def cp_apply_def Let_def split: prod.splits)

lemma priv_inv_switch [simp]: "priv_inv u g \<Longrightarrow> priv_inv u (switch_user_window fe sn g)"
  by (rule switch_user_window_keeps) (simp_all add: su_session_def su_new_def)

lemma priv_inv_power [simp]: "priv_inv u g \<Longrightarrow> priv_inv u (power_window fe g)"
  by (rule power_window_keeps) auto

lemma priv_inv_key [simp]: "priv_inv u g \<Longrightarrow> priv_inv u (key_event fe md g ev)"
  by (rule key_event_cases; (rule key_down_cases)?)
    (simp_all add: key_escape_def key_prompt_enter_def key_cp_enter_def key_enter_def key_power_enter_def set_nav_def Let_def)

text \<open>In a row of the task manager one button at most does something.\<close>

lemma fires_once:
  assumes "clicks_ok fe g" "tm_fires fe g b k" "trigger_action h = trigger_action (consume g)" "b' \<noteq> b"
  shows "\<not> tm_fires fe h b' k'"
  using assms by (auto simp: clicks_ok_def tm_fires_def consume_def split: if_splits)

lemma tm_row_once:
  assumes "clicks_ok fe g" "pi_pid (tm_proc i g) > 0"
  shows "\<exists>s t. tm_row fe g i = row_label fe i g \<or>
    (can_manage fe g (tm_proc i g)
     \<and> tm_row fe g i = row_label fe i (consume ((emit (Signal (pi_pid (tm_proc i g)) (pi_uid (tm_proc i g)) s) g)\<lparr>g_tm := t\<rparr>)))
    \<or> tm_row fe g i = row_label fe i (consume g)"
proof -
  let ?a = "can_manage fe g (tm_proc i g)"
  define k where "k = row_kill fe i ?a g"
  define h where "h = row_terminate fe i ?a k"
  have q: "trigger_action (consume (h\<lparr>g_tm := t\<rparr>)) = trigger_action (consume h)" for t h by (simp add: consume_def)
  have e: "trigger_action (consume (emit e h)) = trigger_action (consume h)" for e h by (simp add: consume_def emit_def)
  have row: "tm_row fe g i = row_label fe i (row_pause fe i ?a h)"
    using assms(2) by (simp add: tm_row_def Let_def k_def h_def)
  consider "tm_fires fe g (TmKill i) (row_focus g i 0)"
    | "\<not> tm_fires fe g (TmKill i) (row_focus g i 0)" "tm_fires fe g (TmTerminate i) (row_focus g i 1)"
    | "\<not> tm_fires fe g (TmKill i) (row_focus g i 0)" "\<not> tm_fires fe g (TmTerminate i) (row_focus g i 1)" by blast
  then show ?thesis
  proof cases
    case 1
    then have "trigger_action k = trigger_action (consume g)" by (simp add: k_def row_kill_def q e Let_def)
    then have "\<not> tm_fires fe k (TmTerminate i) f" "\<not> tm_fires fe k (TmPause i) f" for f
      using fires_once [OF assms(1) 1] by simp_all
    then have "row_pause fe i ?a h = k" by (simp add: h_def row_terminate_def row_pause_def Let_def)
    then show ?thesis using 1 row by (cases ?a) (auto simp: k_def row_kill_def Let_def)
  next
    case 2
    then have "k = g" by (simp add: k_def row_kill_def)
    then have h: "h = (if ?a then consume (emit (Signal (pi_pid (tm_proc i g)) (pi_uid (tm_proc i g)) SIGTERM) g) else consume g)"
      using 2 by (simp add: h_def row_terminate_def Let_def)
    then have "trigger_action h = trigger_action (consume g)" by (simp add: e)
    then have "\<not> tm_fires fe h (TmPause i) f" for f using fires_once [OF assms(1) 2(2)] by simp
    then have "tm_row fe g i = row_label fe i h" using row by (simp add: row_pause_def Let_def)
    moreover have "emit x g = (emit x g)\<lparr>g_tm := g_tm g\<rparr>" for x by (simp add: emit_def)
    ultimately show ?thesis using h by (metis (full_types))
  next
    case 3
    then have "h = g" by (simp add: h_def k_def row_kill_def row_terminate_def)
    then show ?thesis using row by (cases ?a) (auto simp: row_pause_def Let_def)
  qed
qed

lemma priv_inv_consume [simp]: "priv_inv u (consume g) = priv_inv u g"
  by (simp add: consume_def)

lemma priv_inv_row:
  assumes "us_uid (fe_session fe) = u" "clicks_ok fe g" "priv_inv u g"
  shows "priv_inv u (tm_row fe g i)"
proof (cases "pi_pid (tm_proc i g) > 0")
  case True
  have l: "priv_inv u h \<Longrightarrow> priv_inv u (row_label fe i h)" for h by (simp add: row_label_def)
  have "priv_inv u (emit (Signal (pi_pid (tm_proc i g)) (pi_uid (tm_proc i g)) s) g)"
    if "can_manage fe g (tm_proc i g)" for s
    using that assms(1,3) True by (intro priv_inv_emit) (auto simp: can_manage_def priv_inv_def)
  then show ?thesis using tm_row_once [OF assms(2) True] assms(3) l by auto
qed (simp add: tm_row_def assms(3))

lemma priv_inv_tasks:
  assumes "us_uid (fe_session fe) = u" "clicks_ok fe g" "priv_inv u g"
  shows "priv_inv u (task_manager_window fe g)"
  using assms(2,3)
  by (rule task_manager_window_keeps)
    (simp_all add: priv_inv_row assms(1) tm_tab_def tm_search_field_def clamp_row_def Let_def)

interpretation rights: frame_invariant "\<lambda>fe. us_uid (fe_session fe) = u" "priv_inv u" for u
proof unfold_locales
  fix fe :: frame_env and g md
  show "us_uid (fe_session fe) = u \<Longrightarrow> priv_inv u g \<Longrightarrow> priv_inv u (frame_mouse fe md g)"
    by (simp add: frame_mouse_def Let_def split: prod.splits)
qed (simp_all add: priv_inv_tasks frame_begin_def clear_passwords_def pty_dispatch_def action_terminal_def
       action_power_def arm_cooldown_def Let_def)

lemma start_priv_inv: "priv_inv u (gui_start tm vt w h)"
  by (simp add: gui_start_def priv_inv_def)

lemma gui_exit_priv_inv: "priv_inv u g \<Longrightarrow> priv_inv u (gui_exit g)"
  unfolding gui_exit_def Let_def
  by (auto intro!: priv_inv_emit) (metis priv_inv_close_pty priv_inv_def)

section \<open>Properties\<close>



text \<open>
  C17 (user_shell_unprivileged). Without root mode every program the terminal's child tries to
  execute is started with the credentials of the detected user, who is not root, unable to gain
  privileges, and with exactly one \<^verbatim>\<open>HOME\<close>, \<^verbatim>\<open>PATH\<close> and \<^verbatim>\<open>TERM\<close> entry in its environment, the program's
  own; when the privileges cannot be dropped nothing is executed.
\<close>

theorem user_shell_unprivileged:
  assumes "s = detect_user_session w u s0" "e \<in> set (shell_child k s bb c hostname inherited False mode)"
  shows "c_uid (ex_cred e) = us_uid s \<and> c_euid (ex_cred e) = us_uid s \<and> us_uid s \<noteq> 0
    \<and> c_gid (ex_cred e) = us_gid s \<and> c_egid (ex_cred e) = us_gid s \<and> c_no_new_privs (ex_cred e)
    \<and> filter (\<lambda>p. starts_with p ''PATH='') (ex_env e) = [command_path]
    \<and> filter (\<lambda>p. starts_with p ''HOME='') (ex_env e) = [str_fit 512 (''HOME='' @ us_home s)]
    \<and> filter (\<lambda>p. starts_with p ''TERM='') (ex_env e) = [''TERM=xterm-256color'']
    \<and> length (ex_env e) \<le> 510"
proof -
  define rest where "rest = take 505 (filter (\<lambda>p. \<not> starts_with p ''HOME='' \<and> \<not> starts_with p ''PATH='' \<and> \<not> starts_with p ''TERM=''
                          \<and> \<not> starts_with p ''USER='' \<and> \<not> starts_with p ''HOSTNAME='') (raw_entries (us_raw_env s)))"
  obtain c' where d: "drop_privs_to_user k s c = Some c'" and c': "ex_cred e = c'" and env: "ex_env e = shell_env s hostname"
    using assms(2) by (cases "drop_privs_to_user k s c") (auto simp: shell_child_def safe_fexecve_def Let_def split: if_splits)
  have cr: "c_uid c' = us_uid s \<and> c_euid c' = us_uid s \<and> us_uid s \<noteq> 0 \<and> c_gid c' = us_gid s \<and> c_egid c' = us_gid s \<and> c_no_new_privs c'"
    using drop_privs_result [OF d] detect_user_session_not_root [of w u s0] assms(1) by simp
  have r: "filter (\<lambda>p. starts_with p ''PATH='') rest = []" "filter (\<lambda>p. starts_with p ''HOME='') rest = []"
    "filter (\<lambda>p. starts_with p ''TERM='') rest = []"
    unfolding rest_def by (rule filter_take_filter_none, blast)+
  have rl: "length rest \<le> 505" unfolding rest_def by (rule length_take_le)
  have e: "shell_env s hostname = [str_fit 512 (''HOME='' @ us_home s), str_fit 128 (''USER='' @ us_username s),
      str_fit 256 (''HOSTNAME='' @ hostname), command_path, ''TERM=xterm-256color''] @ rest"
    unfolding shell_env_def rest_def by (rule refl)
  show ?thesis unfolding env c' e using cr r rl
    by (simp add: starts_with_def str_fit_def command_path_def)
qed

theorem user_shell_unprivileged_witness:
  "\<exists>e\<in>set (shell_child linux_cred_ops (detect_user_session (passwd_world '''') (Some ''ann'') no_session) 7 root_cred ''box'' [] False 1).
     c_uid (ex_cred e) = 1000 \<and> filter (\<lambda>p. starts_with p ''PATH='') (ex_env e) = [command_path]"
proof -
  let ?w = "passwd_world ''''"
  define s where "s = detect_user_session ?w (Some ''ann'') no_session"
  have "resolve_user ?w (Some ''ann'') no_session =
      no_session\<lparr>us_uid := 1000, us_gid := 1000, us_username := ''user'', us_home := ''/home/user''\<rparr>"
    by (simp add: resolve_user_def read_buf_def passwd_world_def no_session_def)
  then have s: "us_uid s = 1000" "us_gid s = 1000"
    unfolding s_def detect_user_session_def Let_def by (simp_all add: passwd_world_def)
  let ?l = "shell_child linux_cred_ops s 7 root_cred ''box'' [] False 1"
  have ne: "hd ?l \<in> set ?l"
    by (simp add: shell_child_def safe_fexecve_def drop_privs_to_user_def drop_checked_def linux_cred_ops_def root_cred_def s
        numeral_eq_Suc Let_def)
  from user_shell_unprivileged [OF s_def ne] s ne show ?thesis unfolding s_def [symmetric] by metis
qed

end
