(* ===== verification/TermDraw.thy ===== *)
theory TermDraw
  imports Prelude
begin

text \<open>
  One cell of the terminal (\<open>terminal_draw_cb\<close> of \<^verbatim>\<open>src/cad_rescue_gui.c\<close>), which libtsm calls for every cell of its screen:
  the rectangles and the text that are drawn, in order. A cell is named by its column and row; the
  pixels it covers are Nuklear's business. The conversion of a character to UTF-8 is libtsm's and a
  parameter.
\<close>

section \<open>Definitions\<close>

type_synonym color = "nat \<times> nat \<times> nat"

record tsm_screen_attr =
  at_fg :: color
  at_bg :: color
  at_inverse :: bool

datatype cell_cmd = FillCells nat nat nat color | CellText nat nat nat string color

abbreviation black :: color where
  "black \<equiv> (0, 0, 0)"

text \<open>
  The loop that fills the buffer of 16 bytes: it stops when fewer than four bytes and the end mark would be left.
\<close>

fun utf8_loop :: "(nat \<Rightarrow> string) \<Rightarrow> nat list \<Rightarrow> string \<Rightarrow> string" where
  "utf8_loop conv [] acc = acc"
| "utf8_loop conv (c # cs) acc =
     (let acc' = acc @ conv c in if length acc' \<ge> 16 - 4 then acc' else utf8_loop conv cs acc')"

definition cell_background :: "tsm_screen_attr \<Rightarrow> color" where
  "cell_background a = (if at_inverse a then at_fg a else at_bg a)"

definition terminal_draw_cb ::
  "(nat \<Rightarrow> string) \<Rightarrow> nat \<times> nat \<Rightarrow> nat list \<Rightarrow> nat \<Rightarrow> nat \<Rightarrow> nat \<Rightarrow> tsm_screen_attr \<Rightarrow> cell_cmd list" where
  "terminal_draw_cb conv cursor ch width posx posy a =
     (let bg_color = cell_background a;
          back = (if bg_color \<noteq> black \<or> at_inverse a
                  then [FillCells posx posy (if width > 0 then width else 1) bg_color] else []) in
      if ch = []
      then back @ (if (posx, posy) = cursor then [FillCells posx posy 1 (at_fg a)] else [])
      else (let fg_color = (if at_inverse a then at_bg a else at_fg a) in
            back
            @ (if (posx, posy) = cursor then [FillCells posx posy 1 fg_color] else [])
            @ [CellText posx posy width (utf8_loop conv ch []) (if (posx, posy) = cursor then bg_color else fg_color)]))"

section \<open>What is seen\<close>

text \<open>The colour of the cell itself and, when there is text, of the text, on a black window.\<close>

fun seen_after :: "nat \<Rightarrow> nat \<Rightarrow> cell_cmd \<Rightarrow> color \<times> color option \<Rightarrow> color \<times> color option" where
  "seen_after x y (FillCells cx cy n c) s = (if cy = y \<and> cx \<le> x \<and> x < cx + n then (c, None) else s)"
| "seen_after x y (CellText cx cy n t c) s = (if cy = y \<and> cx \<le> x \<and> x < cx + n then (fst s, Some c) else s)"

definition seen :: "nat \<Rightarrow> nat \<Rightarrow> cell_cmd list \<Rightarrow> color \<times> color option" where
  "seen x y cs = fold (seen_after x y) cs (black, None)"

lemma utf8_loop_length:
  assumes "\<And>c. length (conv c) \<le> 4" "length acc < 12"
  shows "length (utf8_loop conv cs acc) \<le> 15"
  using assms(2)
proof (induction cs arbitrary: acc)
  case (Cons c cs)
  then show ?case using assms(1) [of c] Cons.IH [of "acc @ conv c"] by (auto simp: Let_def)
qed simp

section \<open>Properties\<close>

text \<open>
  For a cell with text the text and its end mark fit the buffer of 16 bytes, however
  many combining characters the cell has, as long as one character takes at most four bytes. Cell and
  text have the two colours of the attributes, exchanged when the cell is inverse or under the
  cursor, and not when it is both.
\<close>

theorem cell_drawn:
  assumes "\<forall>c. length (conv c) \<le> 4" "ch \<noteq> []" "0 < width" "cmds = terminal_draw_cb conv cursor ch width posx posy a"
  shows "(\<forall>x y n t c. CellText x y n t c \<in> set cmds \<longrightarrow> Suc (length t) \<le> 16)
    \<and> seen posx posy cmds = (if at_inverse a \<noteq> ((posx, posy) = cursor) then (at_fg a, Some (at_bg a)) else (at_bg a, Some (at_fg a)))"
proof
  show "\<forall>x y n t c. CellText x y n t c \<in> set cmds \<longrightarrow> Suc (length t) \<le> 16"
    using utf8_loop_length [of conv "[]" ch] assms(1,2,4) by (auto simp: terminal_draw_cb_def Let_def)
  show "seen posx posy cmds = (if at_inverse a \<noteq> ((posx, posy) = cursor) then (at_fg a, Some (at_bg a)) else (at_bg a, Some (at_fg a)))"
    using assms(2-4) by (auto simp: terminal_draw_cb_def seen_def cell_background_def Let_def)
qed

theorem cell_drawn_witness:
  "seen 3 0 (terminal_draw_cb (\<lambda>c. [char_of c]) (3, 0) [65, 66] 1 3 0 \<lparr>at_fg = (255, 255, 255), at_bg = (0, 0, 0), at_inverse = False\<rparr>)
     = ((255, 255, 255), Some (0, 0, 0))"
proof -
  have "\<forall>c :: nat. length [char_of c :: char] \<le> 4" by simp
  from cell_drawn [OF this, of "[65, 66]" 1 _ "(3, 0)" 3 0 "\<lparr>at_fg = (255, 255, 255), at_bg = (0, 0, 0), at_inverse = False\<rparr>", OF _ _ refl]
  show ?thesis by simp
qed

text \<open>On an empty inverse cell the cursor has the colour of the cell and cannot be seen.\<close>

lemma cursor_lost_on_inverse:
  assumes "at_inverse a"
  shows "seen posx posy (terminal_draw_cb conv (posx, posy) [] width posx posy a) = (at_fg a, None)"
    "cursor \<noteq> (posx, posy) \<Longrightarrow> seen posx posy (terminal_draw_cb conv cursor [] width posx posy a) = (at_fg a, None)"
  using assms by (auto simp: terminal_draw_cb_def seen_def cell_background_def Let_def)

end
