(* ===== verification/PowerActions.thy ===== *)
theory PowerActions
  imports Gui
begin

text \<open>
  Sleep, restart, shutdown and sign out. Each function is the list of what it does to the outside, in
  order, with the pauses in milliseconds and the waits for children, which block unless they carry
  \<^verbatim>\<open>WNOHANG\<close>; the answers of the system to its questions are arguments.
\<close>

section \<open>Model\<close>

text \<open>The descriptors that the screen keeps open.\<close>

record journal =
  j_drm_fd :: int
  j_kbd_fd :: int
  j_mouse_fd :: int
  j_rescue_tty_fd :: int
  j_tty_fd :: int

text \<open>
  \<open>Wait pid nohang\<close> is a call of \<^verbatim>\<open>waitpid\<close>, \<open>StatUid path r\<close> a call of \<^verbatim>\<open>stat\<close> with the owner it reported.
  \<open>SyncDisks\<close>, \<open>Execs\<close> and \<open>Loginctl\<close> are what a child does that was started.
\<close>

datatype power_act =
    Pause nat
  | Wait int bool
  | StatUid string "int option"
  | IgnoreTerm
  | DropMaster int
  | CloseFd int
  | SyncDisks
  | KillPid int nat
  | Execs "exec_call list"
  | SysRq char
  | RebootCall bool
  | SuspendMem
  | SetCrtc int
  | Loginctl "string list"

definition trigger_sysrq :: "bool \<Rightarrow> char \<Rightarrow> power_act list" where
  "trigger_sysrq opened key = (if opened then [SysRq key] else [])"

definition drop_drm :: "journal \<Rightarrow> power_act list" where
  "drop_drm j = (if j_drm_fd j \<ge> 0 then [DropMaster (j_drm_fd j), CloseFd (j_drm_fd j)] else [])"

definition close_fd :: "int \<Rightarrow> power_act list" where
  "close_fd fd = (if fd \<ge> 0 then [CloseFd fd] else [])"

definition release_fds :: "journal \<Rightarrow> power_act list" where
  "release_fds j =
     drop_drm j @ close_fd (j_kbd_fd j) @ close_fd (j_mouse_fd j) @ close_fd (j_rescue_tty_fd j) @ close_fd (j_tty_fd j)"

subsection \<open>Synchronising the disks\<close>

text \<open>
  The polls of a child: after each that does not find its end a pause follows. \<open>ended i\<close> tells that
  poll \<open>i\<close> of the child returned its number or that there is no such child.
\<close>

fun poll_child :: "int \<Rightarrow> nat \<Rightarrow> nat \<Rightarrow> (nat \<Rightarrow> bool) \<Rightarrow> nat \<Rightarrow> power_act list" where
  "poll_child pid 0 ms ended i = []"
| "poll_child pid (Suc n) ms ended i =
     Wait pid True # (if ended i then [] else Pause ms # poll_child pid n ms ended (Suc i))"

text \<open>\<open>pid\<close> is what \<^verbatim>\<open>fork\<close> returned for the child that runs \<^verbatim>\<open>sync\<close>.\<close>

definition sync_disks :: "int \<Rightarrow> (nat \<Rightarrow> bool) \<Rightarrow> power_act list" where
  "sync_disks pid ended =
     (if pid < 0 then [] else [SyncDisks])
     @ poll_child pid 20 100 ended 0
     @ (if pid > 0 then KillPid pid 9 # poll_child pid 50 1 ended 20 else [])"

subsection \<open>Sleep\<close>

record power_env =
  pe_journal :: journal
  pe_kernel :: cred_ops
  pe_session :: user_session
  pe_cred :: cred
  pe_busybox :: int
  pe_inherited :: "string list"
  pe_sync :: "nat \<Rightarrow> int \<times> (nat \<Rightarrow> bool)"
  pe_fork :: int
  pe_opened :: "string \<Rightarrow> bool"
  pe_setcrtc :: "nat \<Rightarrow> bool"

definition as_user :: "power_env \<Rightarrow> string \<Rightarrow> power_act" where
  "as_user pe cmd =
     Execs (execute_as_user (pe_kernel pe) (pe_session pe) (pe_busybox pe) (pe_cred pe) (Some cmd))"

definition execute_sleep :: "power_env \<Rightarrow> int \<Rightarrow> power_act list" where
  "execute_sleep pe active_fb_id =
     (let lock = us_lock_cmd (pe_session pe); (pid, ended) = pe_sync pe 0 in
      (if lock \<noteq> [] then [as_user pe lock, Pause 200] else [])
      @ sync_disks pid ended
      @ (if pe_opened pe ''/sys/power/state'' then [SuspendMem] else [])
      @ (if j_drm_fd (pe_journal pe) \<ge> 0
         then [Pause 100, SetCrtc active_fb_id]
              @ (if pe_setcrtc pe 0 then [] else [Pause 500, SetCrtc active_fb_id])
         else []))"

subsection \<open>Restart and shutdown\<close>

text \<open>The graceful command in a child; \<open>pe_fork\<close> is what \<^verbatim>\<open>fork\<close> returned, and a failure is not noticed.\<close>

definition graceful :: "power_env \<Rightarrow> string \<Rightarrow> power_act list" where
  "graceful pe cmd =
     (let argv = [''sh'', ''-c'', cmd] in
      if pe_fork pe < 0 then []
      else [Execs ((if pe_busybox pe \<ge> 0
              then safe_fexecve (pe_busybox pe) argv [''PATH=/sbin:/usr/sbin:/bin:/usr/bin''] (pe_cred pe) else [])
             @ [\<lparr>ex_target = ExecPath ''/bin/sh'', ex_argv = argv, ex_env = pe_inherited pe, ex_cred = pe_cred pe\<rparr>])])"

definition execute_restart :: "power_env \<Rightarrow> power_act list" where
  "execute_restart pe =
     (let (pid1, ended1) = pe_sync pe 0; (pid2, ended2) = pe_sync pe 1 in
      [IgnoreTerm] @ release_fds (pe_journal pe)
      @ sync_disks pid1 ended1
      @ graceful pe ''systemctl reboot || reboot'' @ [Pause 6000]
      @ sync_disks pid2 ended2
      @ [Pause 1000] @ trigger_sysrq (pe_opened pe ''/proc/sysrq-trigger'') CHR ''u'' @ [Pause 1000, RebootCall False])"

definition execute_shutdown :: "power_env \<Rightarrow> power_act list" where
  "execute_shutdown pe =
     (let (pid1, ended1) = pe_sync pe 0; (pid2, ended2) = pe_sync pe 1 in
      [IgnoreTerm] @ release_fds (pe_journal pe)
      @ sync_disks pid1 ended1
      @ graceful pe ''systemctl poweroff || poweroff'' @ [Pause 6000]
      @ sync_disks pid2 ended2
      @ [Pause 1000] @ trigger_sysrq (pe_opened pe ''/proc/sysrq-trigger'') CHR ''u'' @ [Pause 1000, RebootCall True])"

subsection \<open>Sign out\<close>

text \<open>The command with which each desktop ends its session.\<close>

definition logout_command :: "string \<Rightarrow> string option" where
  "logout_command de =
     (if contains de ''TDE'' \<or> contains de ''Trinity'' then Some ''dcop ksmserver ksmserver logout 0 0 0''
      else if contains de ''KDE'' \<or> contains de ''PLASMA'' then Some ''qdbus org.kde.ksmserver /KSMServer logout 0 0 0''
      else if contains de ''GNOME'' \<or> contains de ''UNITY'' \<or> contains de ''PANTHEON'' \<or> contains de ''Budgie''
              \<or> contains de ''BUDGIE''
      then Some ''gnome-session-quit --logout --no-prompt --force''
      else if contains de ''XFCE'' then Some ''xfce4-session-logout --logout --fast''
      else if contains de ''CINNAMON'' then Some ''cinnamon-session-quit --logout --no-prompt''
      else if contains de ''MATE'' then Some ''mate-session-save --logout --force-logout''
      else if contains de ''LXQT'' then Some ''lxqt-leave --logout''
      else if contains de ''LXDE'' then Some ''pkill lxsession''
      else if contains de ''sway'' then Some ''swaymsg exit''
      else if contains de ''Hyprland'' then Some ''hyprctl dispatch exit''
      else if contains de ''i3'' then Some ''i3-msg exit''
      else if contains de ''openbox'' then Some ''openbox --exit''
      else if contains de ''ENLIGHTENMENT'' then Some ''enlightenment_remote -logout''
      else None)"

text \<open>
  The processes of the user in the entries of \<^verbatim>\<open>/proc\<close>, without the program itself and its parent, in
  directory order.
\<close>

definition user_entry :: "world \<Rightarrow> int \<Rightarrow> int \<Rightarrow> int \<Rightarrow> string \<Rightarrow> bool" where
  "user_entry w uid self parent name \<longleftrightarrow>
     name \<noteq> [] \<and> is_digit (hd name) \<and> hd name \<noteq> CHR ''0''
     \<and> w_stat_uid w (str_fit 256 (''/proc/'' @ name)) = Some uid
     \<and> str_to_int (Some name) \<noteq> self \<and> str_to_int (Some name) \<noteq> parent"

definition user_pids :: "world \<Rightarrow> int \<Rightarrow> int \<Rightarrow> int \<Rightarrow> int list" where
  "user_pids w uid self parent =
     (case w_dir w ''/proc'' of
        None \<Rightarrow> []
      | Some names \<Rightarrow> map (\<lambda>n. str_to_int (Some n)) (filter (user_entry w uid self parent) names))"

text \<open>The count stops at the third process.\<close>

fun count_procs :: "world \<Rightarrow> int \<Rightarrow> int \<Rightarrow> int \<Rightarrow> nat \<Rightarrow> string list \<Rightarrow> nat" where
  "count_procs w uid self parent n [] = n"
| "count_procs w uid self parent n (e # es) =
     (if user_entry w uid self parent e
      then (if Suc n > 2 then Suc n else count_procs w uid self parent (Suc n) es)
      else count_procs w uid self parent n es)"

definition user_procs :: "world \<Rightarrow> int \<Rightarrow> int \<Rightarrow> int \<Rightarrow> nat" where
  "user_procs w uid self parent =
     (case w_dir w ''/proc'' of None \<Rightarrow> 0 | Some names \<Rightarrow> count_procs w uid self parent 0 names)"

text \<open>
  The waits: pause and look, at most \<open>n\<close> times. The result tells whether the last look succeeded, and
  gives the number of the next look; \<open>look i\<close> is what look \<open>i\<close> sees.
\<close>

fun pause_until :: "(nat \<Rightarrow> bool) \<Rightarrow> nat \<Rightarrow> nat \<Rightarrow> power_act list \<times> bool \<times> nat" where
  "pause_until look 0 i = ([], False, i)"
| "pause_until look (Suc n) i =
     (if look i then ([Pause 100], True, Suc i)
      else (case pause_until look n (Suc i) of (acts, r) \<Rightarrow> (Pause 100 # acts, r)))"

text \<open>
  The wait for the session's terminal looks first and pauses after it; a look that finds it breaks out
  without the pause.
\<close>

fun wait_vt :: "(nat \<Rightarrow> int option) \<Rightarrow> int \<Rightarrow> nat \<Rightarrow> nat \<Rightarrow> power_act list" where
  "wait_vt active vt 0 i = []"
| "wait_vt active vt (Suc n) i = (if active i = Some vt then [] else Pause 100 # wait_vt active vt n (Suc i))"

record signout_env =
  se_power :: power_env
  se_active_vt :: "nat \<Rightarrow> int option"
  se_original_vt :: int
  se_proc :: "nat \<Rightarrow> world"
  se_fork :: int
  se_wait :: "(int \<times> int option) option"
  se_self :: int
  se_parent :: int

abbreviation se_pids :: "signout_env \<Rightarrow> nat \<Rightarrow> int list" where
  "se_pids se i \<equiv> user_pids (se_proc se i) (us_uid (pe_session (se_power se))) (se_self se) (se_parent se)"

abbreviation few_procs :: "signout_env \<Rightarrow> nat \<Rightarrow> bool" where
  "few_procs se i \<equiv> user_procs (se_proc se i) (us_uid (pe_session (se_power se))) (se_self se) (se_parent se) \<le> 2"

text \<open>The desktop's own command, with up to 15 seconds for the session to end.\<close>

definition native_logout :: "signout_env \<Rightarrow> nat \<Rightarrow> power_act list \<times> bool \<times> nat" where
  "native_logout se i =
     (case logout_command (us_de_name (pe_session (se_power se))) of
        None \<Rightarrow> ([], False, i)
      | Some cmd \<Rightarrow>
          (case pause_until (few_procs se) 150 i of (acts, r) \<Rightarrow> (as_user (se_power se) cmd # acts, r)))"

definition loginctl_argv :: "user_session \<Rightarrow> string list" where
  "loginctl_argv s =
     ''/usr/bin/loginctl''
     # (if us_session_id s \<noteq> [] then [''terminate-session'', us_session_id s] else [''terminate-user'', us_username s])"

text \<open>
  \<open>se_fork\<close> is what \<^verbatim>\<open>fork\<close> returned for the child that runs \<^verbatim>\<open>loginctl\<close>; \<open>se_wait\<close> is what the blocking
  \<^verbatim>\<open>waitpid\<close> on it gives, the number it returns and the exit status its status word shows, or \<open>None\<close>
  when it never returns. The result is then \<open>None\<close> too.
\<close>

definition loginctl_logout :: "signout_env \<Rightarrow> nat \<Rightarrow> power_act list \<times> bool option \<times> nat" where
  "loginctl_logout se i =
     (let s = pe_session (se_power se);
          start = (if se_fork se < 0 then [] else [Loginctl (loginctl_argv s)]) @ [Wait (se_fork se) False] in
      if us_session_id s \<noteq> [] \<or> us_username s \<noteq> []
      then (case se_wait se of
              None \<Rightarrow> (start, None, i)
            | Some (ret, status) \<Rightarrow>
                (case (if ret = se_fork se \<and> status = Some 0 then pause_until (few_procs se) 100 i else ([], False, i)) of
                   (acts, b, k) \<Rightarrow> (start @ acts, Some b, k)))
      else ([], Some False, i))"

text \<open>One pass over \<^verbatim>\<open>/proc\<close> that signals the user's processes.\<close>

primrec kill_loop :: "world \<Rightarrow> int \<Rightarrow> int \<Rightarrow> int \<Rightarrow> nat \<Rightarrow> string list \<Rightarrow> power_act list" where
  "kill_loop w uid self parent sig [] = []"
| "kill_loop w uid self parent sig (e # es) =
     (if e \<noteq> [] \<and> is_digit (hd e) \<and> hd e \<noteq> CHR ''0''
      then StatUid (str_fit 256 (''/proc/'' @ e)) (w_stat_uid w (str_fit 256 (''/proc/'' @ e)))
           # (if user_entry w uid self parent e then [KillPid (str_to_int (Some e)) sig] else [])
      else [])
     @ kill_loop w uid self parent sig es"

definition kill_pass :: "signout_env \<Rightarrow> nat \<Rightarrow> nat \<Rightarrow> power_act list" where
  "kill_pass se sig i =
     (case w_dir (se_proc se i) ''/proc'' of
        None \<Rightarrow> []
      | Some names \<Rightarrow>
          kill_loop (se_proc se i) (us_uid (pe_session (se_power se))) (se_self se) (se_parent se) sig names)"

definition kill_user_procs :: "signout_env \<Rightarrow> nat \<Rightarrow> power_act list" where
  "kill_user_procs se i =
     (case pause_until (\<lambda>k. se_pids se k = []) 30 (Suc i) of
        (acts, _, k) \<Rightarrow> kill_pass se 15 i @ acts @ kill_pass se 9 k)"

definition execute_sign_out :: "signout_env \<Rightarrow> power_act list" where
  "execute_sign_out se =
     (let j = pe_journal (se_power se) in
      drop_drm j @ close_fd (j_kbd_fd j) @ close_fd (j_mouse_fd j) @ close_fd (j_rescue_tty_fd j)
      @ wait_vt (se_active_vt se) (se_original_vt se) 50 0
      @ close_fd (j_tty_fd j) @ [Pause 500]
      @ (case native_logout se 0 of
           (acts1, True, _) \<Rightarrow> acts1
         | (acts1, False, i) \<Rightarrow>
             acts1 @ (case loginctl_logout se i of
                        (acts2, Some False, k) \<Rightarrow> acts2 @ kill_user_procs se k
                      | (acts2, _, _) \<Rightarrow> acts2)))"

section \<open>Lemmas\<close>

text \<open>The time spent in pauses.\<close>

fun pause_ms :: "power_act \<Rightarrow> nat" where
  "pause_ms (Pause n) = n"
| "pause_ms a = 0"

abbreviation total_ms :: "power_act list \<Rightarrow> nat" where
  "total_ms acts \<equiv> sum_list (map pause_ms acts)"

lemma poll_child_ms: "total_ms (poll_child pid n ms ended i) \<le> n * ms"
  by (induction pid n ms ended i rule: poll_child.induct) auto

lemma sync_disks_ms: "total_ms (sync_disks pid ended) \<le> 2050"
  using poll_child_ms [of pid 20 100 ended 0] poll_child_ms [of pid 50 1 ended 20]
  by (cases "pid < 0"; cases "pid = 0") (simp_all add: sync_disks_def)

lemma release_fds_ms [simp]: "total_ms (drop_drm j) = 0" "total_ms (close_fd fd) = 0" "total_ms (release_fds j) = 0"
  by (auto simp: release_fds_def drop_drm_def close_fd_def)

lemma pause_until_ms: "total_ms (fst (pause_until look n i)) \<le> 100 * n"
  by (induction look n i rule: pause_until.induct) (auto split: prod.splits)

lemma wait_vt_ms: "total_ms (wait_vt active vt n i) \<le> 100 * n"
  by (induction active vt n i rule: wait_vt.induct) auto

lemma poll_child_acts: "set (poll_child pid n ms ended i) \<subseteq> {Pause ms, Wait pid True}"
  by (induction pid n ms ended i rule: poll_child.induct) auto

lemma pause_until_pauses: "set (fst (pause_until look n i)) \<subseteq> {Pause 100}"
  by (induction look n i rule: pause_until.induct) (auto split: prod.splits)

lemma wait_vt_pauses: "set (wait_vt active vt n i) \<subseteq> {Pause 100}"
  by (induction active vt n i rule: wait_vt.induct) auto

lemma pause_until_found: "pause_until look n i = (acts, True, k) \<Longrightarrow> i < k \<and> k \<le> i + n \<and> look (k - 1)"
  by (induction look n i arbitrary: acts rule: pause_until.induct) (auto split: if_splits prod.splits)

lemma pause_until_missed: "pause_until look n i = (acts, False, k) \<Longrightarrow> k = i + n \<and> (\<forall>m. i \<le> m \<longrightarrow> m < k \<longrightarrow> \<not> look m)"
proof (induction look n i arbitrary: acts rule: pause_until.induct)
  case (2 look n i)
  then show ?case by (auto split: if_splits prod.splits) (metis Suc_leI le_eq_less_or_eq)
qed simp

lemma sti_loop_ge: "0 \<le> r \<Longrightarrow> r \<le> 2147483647 \<Longrightarrow> r \<le> sti_loop cs 1 r"
proof (induction cs arbitrary: r)
  case Nil
  then show ?case by (simp add: wrap_int_def)
next
  case (Cons c cs)
  then show ?case using Cons.IH [of "r * 10 + digit_val c"] digit_val_range [of c]
    by (fastforce simp: Let_def wrap_int_def)
qed

lemma zero_digit: "is_digit c \<Longrightarrow> c \<noteq> CHR ''0'' \<Longrightarrow> 0 < digit_val c"
proof (rule ccontr)
  assume a: "is_digit c" "c \<noteq> CHR ''0''" "\<not> 0 < digit_val c"
  then have "of_char c = (48 :: nat)" by (simp add: digit_val_def is_digit_def)
  moreover have "of_char (CHR ''0'') = (48 :: nat)" by simp
  ultimately have "of_char c = (of_char (CHR ''0'') :: nat)" by (simp only:)
  then show False using a(2) by (simp only: of_char_eq_iff)
qed

text \<open>A name that begins with a digit from 1 to 9 never gives the special process numbers 0 and below.\<close>

lemma user_entry_pid: "user_entry w uid self parent name \<Longrightarrow> 0 < str_to_int (Some name)"
proof -
  assume "user_entry w uid self parent name"
  then obtain c cs where n: "name = c # cs" "is_digit c" "c \<noteq> CHR ''0''"
    by (cases name) (auto simp: user_entry_def)
  have v: "0 < digit_val c" "digit_val c \<le> 9"
    using n(2,3) digit_val_range [of c] by (simp_all add: zero_digit)
  have "str_to_int (Some name) = sti_loop cs 1 (digit_val c)"
    using n v digit_not_sign [OF n(2)] by (simp add: str_to_int_def Let_def)
  then show ?thesis using sti_loop_ge [of "digit_val c" cs] v by simp
qed

text \<open>The count that stops early decides the same as the full list.\<close>

lemma count_procs_few:
  "n \<le> 2 \<Longrightarrow> count_procs w uid self parent n es \<le> 2 \<longleftrightarrow> n + length (filter (user_entry w uid self parent) es) \<le> 2"
  by (induction w uid self parent n es rule: count_procs.induct) auto

lemma user_procs_few: "user_procs w uid self parent \<le> 2 \<longleftrightarrow> length (user_pids w uid self parent) \<le> 2"
  by (simp add: user_procs_def user_pids_def count_procs_few split: option.splits)

section \<open>Properties\<close>

text \<open>The child that synchronises the disks is killed even when a poll has already found its end.\<close>

lemma sync_killed_after_end: "0 < pid \<Longrightarrow> sync_disks pid (\<lambda>_. True) = [SyncDisks, Wait pid True, KillPid pid 9, Wait pid True]"
  by (simp add: sync_disks_def numeral_eq_Suc)

text \<open>
  How long an act can keep its caller: a pause its time, a wait for a child and the suspension of the
  machine without bound unless the wait carries \<^verbatim>\<open>WNOHANG\<close>, the other calls no time.
\<close>

fun act_ms :: "power_act \<Rightarrow> nat option" where
  "act_ms (Pause n) = Some n"
| "act_ms (Wait pid nohang) = (if nohang then Some 0 else None)"
| "act_ms SuspendMem = None"
| "act_ms a = Some 0"

abbreviation unblocked :: "power_act list \<Rightarrow> bool" where
  "unblocked acts \<equiv> None \<notin> act_ms ` set acts"

lemma sync_disks_unblocked: "unblocked (sync_disks pid ended)"
proof -
  have "unblocked (poll_child pid n ms ended i)" for n ms i
    using poll_child_acts [of pid n ms ended i] by fastforce
  then show ?thesis by (auto simp: sync_disks_def)
qed

text \<open>
  Whatever the children that synchronise the disks do, whether they hang, end or cannot be started, a
  restart or shutdown waits for none of them without bound, pauses for at most 12.1 seconds, and ends
  with the system call for the requested action.
\<close>

lemma power_request_completes:
  "unblocked (execute_restart pe) \<and> total_ms (execute_restart pe) \<le> 12100 \<and> last (execute_restart pe) = RebootCall False
   \<and> unblocked (execute_shutdown pe) \<and> total_ms (execute_shutdown pe) \<le> 12100
   \<and> last (execute_shutdown pe) = RebootCall True"
proof -
  obtain p1 e1 where s1: "pe_sync pe 0 = (p1, e1)" by fastforce
  obtain p2 e2 where s2: "pe_sync pe (Suc 0) = (p2, e2)" by fastforce
  have g: "total_ms (graceful pe c) = 0" "unblocked (graceful pe c)" for c by (simp_all add: graceful_def Let_def)
  have q: "total_ms (trigger_sysrq b c) = 0" "unblocked (trigger_sysrq b c)" for b c
    by (auto simp: trigger_sysrq_def)
  have f: "unblocked (release_fds j)" for j by (auto simp: release_fds_def drop_drm_def close_fd_def)
  have "total_ms (execute_restart pe) \<le> 12100" "total_ms (execute_shutdown pe) \<le> 12100"
    using sync_disks_ms [of p1 e1] sync_disks_ms [of p2 e2]
    by (simp_all add: execute_restart_def execute_shutdown_def s1 s2 g q del: sum_list_eq_0_iff)
  moreover have "unblocked (execute_restart pe)" "unblocked (execute_shutdown pe)"
    using sync_disks_unblocked [of p1 e1] sync_disks_unblocked [of p2 e2] g(2) q(2) f
    by (auto simp: execute_restart_def execute_shutdown_def s1 s2 image_Un)
  ultimately show ?thesis by (simp add: execute_restart_def execute_shutdown_def s1 s2)
qed

text \<open>A look at the entry of a process in \<^verbatim>\<open>/proc\<close> that found it to be the user's, and a process other than the program and its parent.\<close>

definition owned_look :: "signout_env \<Rightarrow> power_act \<Rightarrow> int \<Rightarrow> bool" where
  "owned_look se a p \<longleftrightarrow> 0 < p \<and> p \<noteq> se_self se \<and> p \<noteq> se_parent se
     \<and> (\<exists>i name. let path = str_fit 256 (''/proc/'' @ name) in
          a = StatUid path (w_stat_uid (se_proc se i) path) \<and> p = str_to_int (Some name)
          \<and> w_stat_uid (se_proc se i) path = Some (us_uid (pe_session (se_power se))))"

definition owner_checked :: "signout_env \<Rightarrow> power_act list \<Rightarrow> bool" where
  "owner_checked se acts \<longleftrightarrow> (\<forall>n p sig. n < length acts \<longrightarrow> acts ! n = KillPid p sig \<longrightarrow>
     sig \<in> {15, 9} \<and> 0 < n \<and> owned_look se (acts ! (n - 1)) p)"

lemma owner_checked_append:
  assumes "owner_checked se xs" "owner_checked se ys"
  shows "owner_checked se (xs @ ys)"
  unfolding owner_checked_def
proof (intro allI impI)
  fix n p sig
  assume n: "n < length (xs @ ys)" "(xs @ ys) ! n = KillPid p sig"
  show "sig \<in> {15, 9} \<and> 0 < n \<and> owned_look se ((xs @ ys) ! (n - 1)) p"
  proof (cases "n < length xs")
    case True
    then show ?thesis
      using assms(1) [unfolded owner_checked_def, rule_format, of n p sig] n by (auto simp: nth_append)
  next
    case False
    define m where "m = n - length xs"
    have m: "n = length xs + m" "m < length ys" "ys ! m = KillPid p sig" using False n by (auto simp: m_def nth_append)
    then have o: "sig \<in> {15, 9} \<and> 0 < m \<and> owned_look se (ys ! (m - 1)) p"
      using assms(2) unfolding owner_checked_def by blast
    moreover have "(xs @ ys) ! (n - 1) = ys ! (m - 1)" using o m(1) by (cases m) (simp_all add: nth_append)
    ultimately show ?thesis using m(1) by simp
  qed
qed

lemma owner_checked_none: "(\<And>p sig. KillPid p sig \<notin> set acts) \<Longrightarrow> owner_checked se acts"
  unfolding owner_checked_def by (metis nth_mem)

lemma owner_checked_pauses: "set acts \<subseteq> {Pause ms} \<Longrightarrow> owner_checked se acts"
  by (rule owner_checked_none) auto

lemma kill_loop_checked:
  assumes "sig \<in> {15, 9}"
  shows "owner_checked se (kill_loop (se_proc se i) (us_uid (pe_session (se_power se))) (se_self se) (se_parent se) sig names)"
proof (induction names)
  case (Cons e es)
  let ?path = "str_fit 256 (''/proc/'' @ e)" and ?w = "se_proc se i" and ?uid = "us_uid (pe_session (se_power se))"
  have "owner_checked se [StatUid ?path (w_stat_uid ?w ?path), KillPid (str_to_int (Some e)) sig]"
    if u: "user_entry ?w ?uid (se_self se) (se_parent se) e"
  proof -
    have "owned_look se (StatUid ?path (w_stat_uid ?w ?path)) (str_to_int (Some e))"
      using user_entry_pid [OF u] u unfolding owned_look_def Let_def user_entry_def by blast
    then show ?thesis using assms by (auto simp: owner_checked_def less_Suc_eq)
  qed
  moreover have "owner_checked se [StatUid ?path (w_stat_uid ?w ?path)]" "owner_checked se []"
    by (simp_all add: owner_checked_none)
  ultimately have "owner_checked se (if e \<noteq> [] \<and> is_digit (hd e) \<and> hd e \<noteq> CHR ''0''
      then StatUid ?path (w_stat_uid ?w ?path)
           # (if user_entry ?w ?uid (se_self se) (se_parent se) e then [KillPid (str_to_int (Some e)) sig] else [])
      else [])"
    by (simp split: if_splits)
  then show ?case unfolding kill_loop.simps using Cons by (rule owner_checked_append)
qed (simp add: owner_checked_none)

lemma kill_pass_checked: "sig \<in> {15, 9} \<Longrightarrow> owner_checked se (kill_pass se sig i)"
  by (auto simp: kill_pass_def kill_loop_checked owner_checked_none split: option.splits)

lemma kill_user_procs_checked: "owner_checked se (kill_user_procs se i)"
  using owner_checked_pauses [OF pause_until_pauses, of se "\<lambda>k. se_pids se k = []" 30 "Suc i"]
  by (auto simp: kill_user_procs_def kill_pass_checked owner_checked_append split: prod.splits)

lemma native_logout_acts:
  assumes "native_logout se 0 = (acts, b, i)"
  shows "KillPid p sig \<notin> set acts"
    "\<not> b \<Longrightarrow> if logout_command (us_de_name (pe_session (se_power se))) = None then i = 0
            else i = 150 \<and> (\<forall>n<150. 2 < length (se_pids se n))"
  using assms pause_until_pauses [of "few_procs se" 150 0] pause_until_missed [of "few_procs se" 150 0]
  by (auto simp: native_logout_def as_user_def user_procs_few not_le split: option.splits prod.splits)

lemma loginctl_logout_acts:
  assumes "loginctl_logout se i = (acts, b, k)"
  shows "KillPid p sig \<notin> set acts"
    "b = Some False \<Longrightarrow> us_session_id (pe_session (se_power se)) = [] \<and> us_username (pe_session (se_power se)) = []
       \<or> se_wait se \<notin> {None, Some (se_fork se, Some 0)} \<or> (\<forall>n<100. 2 < length (se_pids se (i + n)))"
  using assms pause_until_pauses [of "few_procs se" 100 i] pause_until_missed [of "few_procs se" 100 i]
  by (auto simp: loginctl_logout_def Let_def user_procs_few not_le split: option.splits prod.splits if_splits)

lemma sign_out_end:
  assumes "native_logout se 0 = (a1, b1, i)" "loginctl_logout se i = (a2, b2, k)"
  obtains pre where "\<And>p sig. KillPid p sig \<notin> set pre"
    "execute_sign_out se = pre @ a1 @ (if b1 then [] else a2 @ (if b2 = Some False then kill_user_procs se k else []))"
proof
  let ?j = "pe_journal (se_power se)"
  let ?pre = "drop_drm ?j @ close_fd (j_kbd_fd ?j) @ close_fd (j_mouse_fd ?j) @ close_fd (j_rescue_tty_fd ?j)
      @ wait_vt (se_active_vt se) (se_original_vt se) 50 0 @ close_fd (j_tty_fd ?j) @ [Pause 500]"
  show "KillPid p sig \<notin> set ?pre" for p sig
    using wait_vt_pauses [of "se_active_vt se" "se_original_vt se" 50 0]
    by (auto simp: drop_drm_def close_fd_def)
  show "execute_sign_out se = ?pre @ a1 @ (if b1 then [] else a2 @ (if b2 = Some False then kill_user_procs se k else []))"
    by (simp add: execute_sign_out_def Let_def assms split: bool.splits option.splits)
qed

text \<open>
  C16 (sign_out_kills_user_only). Every signal of a sign out is \<^verbatim>\<open>SIGTERM\<close> or \<^verbatim>\<open>SIGKILL\<close> for one process, never
  a group or all, and comes right after a look at \<^verbatim>\<open>/proc\<close> that showed this very process as the user's own; the program
  itself and its parent get none. Signals are sent only after the desktop's own logout command, where
  there is one, left more than two processes of the user at each of 150 looks, and when \<^verbatim>\<open>loginctl\<close> could
  not be called (neither a session nor a user is known), its wait did not report success, or it left
  more than two processes at each of 100 further looks.
\<close>

theorem sign_out_kills_user_only:
  assumes "n < length (execute_sign_out se)" "execute_sign_out se ! n = KillPid p sig"
  shows "sig \<in> {15, 9} \<and> 0 < n \<and> owned_look se (execute_sign_out se ! (n - 1)) p
    \<and> (logout_command (us_de_name (pe_session (se_power se))) \<noteq> None \<longrightarrow> (\<forall>i<150. 2 < length (se_pids se i)))
    \<and> (us_session_id (pe_session (se_power se)) = [] \<and> us_username (pe_session (se_power se)) = []
       \<or> se_wait se \<notin> {None, Some (se_fork se, Some 0)}
       \<or> (\<exists>start\<in>{0, 150}. \<forall>i<100. 2 < length (se_pids se (start + i))))"
proof -
  obtain a1 b1 i where m: "native_logout se 0 = (a1, b1, i)" by (metis prod_cases3)
  obtain a2 b2 k where l: "loginctl_logout se i = (a2, b2, k)" by (metis prod_cases3)
  obtain pre where pre: "\<And>p sig. KillPid p sig \<notin> set pre"
    "execute_sign_out se = pre @ a1 @ (if b1 then [] else a2 @ (if b2 = Some False then kill_user_procs se k else []))"
    using sign_out_end [OF m l] by blast
  have "owner_checked se (execute_sign_out se)"
    using owner_checked_none [OF pre(1)] owner_checked_none [OF native_logout_acts(1) [OF m]]
      owner_checked_none [OF loginctl_logout_acts(1) [OF l]] kill_user_procs_checked
    unfolding pre(2) by (simp add: owner_checked_append del: append_assoc)
  then have o: "sig \<in> {15, 9} \<and> 0 < n \<and> owned_look se (execute_sign_out se ! (n - 1)) p"
    using assms unfolding owner_checked_def by blast
  have "KillPid p sig \<in> set (execute_sign_out se)" using assms nth_mem by metis
  then have "\<not> b1 \<and> b2 = Some False"
    using pre native_logout_acts(1) [OF m] loginctl_logout_acts(1) [OF l] by (auto split: if_splits)
  then show ?thesis
    using o native_logout_acts(2) [OF m] loginctl_logout_acts(2) [OF l] by (auto split: if_splits)
qed

definition ann_power :: power_env where
  "ann_power = \<lparr>pe_journal = \<lparr>j_drm_fd = 3, j_kbd_fd = 4, j_mouse_fd = 5, j_rescue_tty_fd = 6, j_tty_fd = 7\<rparr>,
     pe_kernel = linux_cred_ops, pe_session = ann, pe_cred = root_cred, pe_busybox = 8, pe_inherited = [],
     pe_sync = (\<lambda>_. (50, \<lambda>_. False)), pe_fork = 51, pe_opened = (\<lambda>_. True), pe_setcrtc = (\<lambda>_. True)\<rparr>"

definition ann_sign_out :: signout_env where
  "ann_sign_out = \<lparr>se_power = ann_power, se_active_vt = (\<lambda>_. Some 2), se_original_vt = 2,
     se_proc = (\<lambda>_. (passwd_world [])\<lparr>w_dir := (\<lambda>_. Some [''.'', ''1'', ''12'', ''99'', ''irq'']),
                       w_stat_uid := (\<lambda>p. if p = ''/proc/1'' then Some 0 else Some 1001)\<rparr>),
     se_fork = 52, se_wait = Some (-1, None), se_self = 99, se_parent = 98\<rparr>"

theorem sign_out_kills_user_only_witness:
  "execute_sign_out ann_sign_out ! 9 = KillPid 12 15 \<and> owned_look ann_sign_out (execute_sign_out ann_sign_out ! 8) 12
   \<and> KillPid 1 15 \<notin> set (execute_sign_out ann_sign_out) \<and> KillPid 99 15 \<notin> set (execute_sign_out ann_sign_out)"
proof -
  have m: "execute_sign_out ann_sign_out ! 9 = KillPid 12 15" "9 < length (execute_sign_out ann_sign_out)"
    "KillPid 1 15 \<notin> set (execute_sign_out ann_sign_out)" "KillPid 99 15 \<notin> set (execute_sign_out ann_sign_out)"
    by code_simp+
  then show ?thesis using sign_out_kills_user_only [OF m(2,1)] by simp
qed

end
