(* ===== verification/Display.thy ===== *)
theory Display
  imports PowerActions
begin

text \<open>
  How the screen is taken and given back: the backlight, the magic keys, the virtual terminal, the
  graphics card, and the keyboard device.

  The record \<open>display\<close> holds the program's variables and, after them, the part of the machine they are
  about: integer files of the kernel, the active terminal, the buffers that exist in the card. What
  the kernel answers is the record \<open>system\<close>.
\<close>

section \<open>Model\<close>

record backlight_saved_state =
  bl_path :: string
  saved_brightness :: int
  enforced_brightness :: int
  has_enforced :: bool

datatype mapping = MapNull | MapFailed | Mapped

record drm_state =
  dm_conn_id :: nat
  dm_crtc_id :: nat
  dm_width :: nat
  dm_height :: nat
  dm_pitch :: nat
  dm_size :: nat
  dm_handle :: "nat list"
  dm_buffer :: "mapping list"
  dm_fb_id :: "nat list"
  dm_saved_crtc :: nat
  dm_double :: bool

datatype drm_act = ShowFb nat | ShowSaved nat

record display =
  d_original_vt :: int
  d_rescue_vt :: int
  d_journal :: journal
  d_saved_sysrq :: int
  d_backlights :: "backlight_saved_state list"
  d_vt_restored :: bool
  d_drm :: drm_state
  d_files :: "string \<Rightarrow> string option"
  d_active_vt :: int
  d_text_mode :: bool
  d_tty_open :: bool
  d_master :: bool
  d_handles :: "nat list"
  d_fbs :: "nat list"
  d_maps :: "nat list"
  d_log :: "drm_act list"

record connector =
  cn_connected :: bool
  cn_modes :: nat
  cn_alloc :: bool
  cn_second :: "((nat \<times> nat) \<times> nat) option"

record card =
  cd_fd :: int
  cd_dumb :: bool
  cd_res :: "(nat list \<times> nat list) option"
  cd_alloc :: bool
  cd_res2 :: bool
  cd_conn :: "nat \<Rightarrow> connector option"
  cd_enc :: "nat \<Rightarrow> nat option"

record system =
  sy_writable :: "string \<Rightarrow> bool"
  sy_write :: "string \<Rightarrow> string \<Rightarrow> int"
  sy_backlights :: "string list option"
  sy_tty0 :: int
  sy_getstate :: bool
  sy_openqry :: "int option"
  sy_rescue_fd :: "string \<Rightarrow> int"
  sy_activate :: "int \<Rightarrow> bool"
  sy_card :: "string \<Rightarrow> card"
  sy_master :: bool
  sy_create :: "nat \<Rightarrow> (nat \<times> nat \<times> nat) option"
  sy_addfb :: "nat \<Rightarrow> nat option"
  sy_map :: "nat \<Rightarrow> bool"
  sy_mmap :: "nat \<Rightarrow> bool"
  sy_setcrtc :: bool

subsection \<open>Integer files\<close>

definition read_int_from_file :: "(string \<Rightarrow> string option) \<Rightarrow> string \<Rightarrow> int option" where
  "read_int_from_file fs path =
     (case fs path of
        None \<Rightarrow> None
      | Some s \<Rightarrow> if take 31 s = [] then None else Some (str_to_int (Some (c_str (take 31 s)))))"

text \<open>
  The loop over \<^verbatim>\<open>write\<close>, given the result of writing a text, ends at the first error. What it got
  written is what an integer file of the kernel holds then.
\<close>

function write_loop :: "(string \<Rightarrow> int) \<Rightarrow> string \<Rightarrow> string" where
  "write_loop wr rest =
     (if rest = [] then []
      else (let ret = wr rest
            in if ret \<le> 0 then [] else take (nat ret) rest @ write_loop wr (drop (nat ret) rest)))"
  by pat_completeness auto
termination by (relation "measure (\<lambda>(wr, rest). length rest)") auto

declare write_loop.simps [simp del]

definition write_int_to_file :: "system \<Rightarrow> string \<Rightarrow> int \<Rightarrow> display \<Rightarrow> display" where
  "write_int_to_file sy path v d =
     (if sy_writable sy path
      then (let done_text = write_loop (sy_write sy path) (str_fit 32 (dec_string v @ [LF]))
            in if done_text = [] then d else d\<lparr>d_files := (d_files d)(path := Some done_text)\<rparr>)
      else d)"

subsection \<open>Backlight\<close>

definition MAX_BACKLIGHTS :: nat where "MAX_BACKLIGHTS = 4"

definition backlight_path :: "string \<Rightarrow> string \<Rightarrow> string" where
  "backlight_path name file = str_fit 256 (''/sys/class/backlight/'' @ name @ file)"

definition force_one :: "system \<Rightarrow> display \<Rightarrow> string \<Rightarrow> display" where
  "force_one sy d name =
     (if starts_with name ''.'' \<or> length (d_backlights d) \<ge> MAX_BACKLIGHTS then d
      else (let path_cur = backlight_path name ''/brightness'' in
            case (read_int_from_file (d_files d) (backlight_path name ''/max_brightness''),
                  read_int_from_file (d_files d) path_cur) of
              (Some max_b, Some cur_b) \<Rightarrow>
                if cur_b \<le> cdiv max_b 20
                then (let safe_b = (if cdiv max_b 3 = 0 then 1 else cdiv max_b 3)
                      in write_int_to_file sy path_cur safe_b
                           (d\<lparr>d_backlights := d_backlights d @ [\<lparr>bl_path = path_cur, saved_brightness = cur_b,
                                enforced_brightness = safe_b, has_enforced = True\<rparr>]\<rparr>))
                else d\<lparr>d_backlights := d_backlights d @ [\<lparr>bl_path = path_cur, saved_brightness = cur_b,
                                enforced_brightness = cur_b, has_enforced = True\<rparr>]\<rparr>
            | _ \<Rightarrow> d))"

definition force_backlight :: "system \<Rightarrow> display \<Rightarrow> display" where
  "force_backlight sy d =
     (case sy_backlights sy of None \<Rightarrow> d | Some names \<Rightarrow> foldl (force_one sy) d names)"

definition maintain_one :: "system \<Rightarrow> display \<Rightarrow> backlight_saved_state \<Rightarrow> display" where
  "maintain_one sy d b =
     (if has_enforced b
      then (case read_int_from_file (d_files d) (bl_path b) of
              None \<Rightarrow> d
            | Some cur_b \<Rightarrow> if cur_b \<noteq> enforced_brightness b
                            then write_int_to_file sy (bl_path b) (enforced_brightness b) d else d)
      else d)"

definition maintain_backlight :: "system \<Rightarrow> display \<Rightarrow> display" where
  "maintain_backlight sy d = foldl (maintain_one sy) d (d_backlights d)"

definition restore_backlight :: "system \<Rightarrow> display \<Rightarrow> display" where
  "restore_backlight sy d =
     foldl (\<lambda>d b. write_int_to_file sy (bl_path b) (saved_brightness b) d) d (d_backlights d)"

subsection \<open>Magic keys\<close>

definition sysrq_path :: string where "sysrq_path = ''/proc/sys/kernel/sysrq''"

definition disable_sysrq :: "system \<Rightarrow> display \<Rightarrow> display" where
  "disable_sysrq sy d =
     (case read_int_from_file (d_files d) sysrq_path of
        None \<Rightarrow> d
      | Some v \<Rightarrow> write_int_to_file sy sysrq_path 0 (d\<lparr>d_saved_sysrq := v\<rparr>))"

definition restore_sysrq :: "system \<Rightarrow> display \<Rightarrow> display" where
  "restore_sysrq sy d =
     (if d_saved_sysrq d \<ge> 0
      then (write_int_to_file sy sysrq_path (d_saved_sysrq d) d)\<lparr>d_saved_sysrq := -1\<rparr> else d)"

subsection \<open>Virtual terminal\<close>

text \<open>\<^verbatim>\<open>ioctl(tty_fd, VT_ACTIVATE, vt)\<close>: it works on an open descriptor, for a terminal the kernel has.\<close>

definition vt_activate :: "system \<Rightarrow> int \<Rightarrow> display \<Rightarrow> display" where
  "vt_activate sy vt d = (if d_tty_open d \<and> sy_activate sy vt then d\<lparr>d_active_vt := vt\<rparr> else d)"

definition rescue_tty_path :: "int \<Rightarrow> string" where
  "rescue_tty_path vt = str_fit 32 (''/dev/tty'' @ dec_string vt)"

text \<open>The descriptors are closed when it fails, but the journal keeps their numbers.\<close>

definition steal_vt :: "system \<Rightarrow> display \<Rightarrow> display \<times> int" where
  "steal_vt sy d =
     (let d1 = d\<lparr>d_journal := (d_journal d)\<lparr>j_tty_fd := sy_tty0 sy\<rparr>\<rparr> in
      if sy_tty0 sy < 0 then (d1, -1)
      else if \<not> sy_getstate sy then (d1\<lparr>d_tty_open := False\<rparr>, -1)
      else (let free_vt = (case sy_openqry sy of None \<Rightarrow> 12 | Some v \<Rightarrow> v);
                d2 = d1\<lparr>d_tty_open := True, d_original_vt := d_active_vt d1, d_rescue_vt := free_vt,
                        d_journal := (d_journal d1)\<lparr>j_rescue_tty_fd := sy_rescue_fd sy (rescue_tty_path free_vt)\<rparr>\<rparr>
            in if \<not> sy_activate sy free_vt then (d2\<lparr>d_tty_open := False\<rparr>, -1)
               else (let d3 = vt_activate sy free_vt d2
                     in (if j_rescue_tty_fd (d_journal d3) \<ge> 0 then d3\<lparr>d_text_mode := False\<rparr> else d3, 0))))"

definition restore_vt :: "system \<Rightarrow> display \<Rightarrow> display" where
  "restore_vt sy d =
     (if d_vt_restored d then d
      else (let d1 = d\<lparr>d_vt_restored := True\<rparr>;
                d2 = (if j_rescue_tty_fd (d_journal d1) \<ge> 0
                      then d1\<lparr>d_text_mode := True, d_journal := (d_journal d1)\<lparr>j_rescue_tty_fd := -1\<rparr>\<rparr> else d1)
            in if j_tty_fd (d_journal d2) \<ge> 0
               then (restore_sysrq sy (restore_backlight sy (vt_activate sy (d_original_vt d2) d2)))
                      \<lparr>d_tty_open := False, d_journal := (d_journal d2)\<lparr>j_tty_fd := -1\<rparr>\<rparr>
               else d2))"

text \<open>The signal handler; of the saved value it writes one digit.\<close>

definition emergency_restore :: "system \<Rightarrow> display \<Rightarrow> display" where
  "emergency_restore sy d =
     (let j = d_journal d;
          d1 = (if j_rescue_tty_fd j \<ge> 0 \<or> j_tty_fd j \<ge> 0 then d\<lparr>d_text_mode := True\<rparr> else d);
          d2 = (if (j_tty_fd j \<ge> 0 \<or> j_rescue_tty_fd j \<ge> 0) \<and> d_original_vt d1 > 0
                then vt_activate sy (d_original_vt d1) d1 else d1)
      in if d_saved_sysrq d2 \<ge> 0 \<and> sy_writable sy sysrq_path
            \<and> sy_write sy sysrq_path [digit_char (nat (d_saved_sysrq d2 mod 10))] > 0
         then d2\<lparr>d_files := (d_files d2)(sysrq_path \<mapsto> [digit_char (nat (d_saved_sysrq d2 mod 10))])\<rparr> else d2)"

subsection \<open>Graphics card\<close>

text \<open>Giving the card's buffers back; without an open card nothing happens, not even to the terminal.\<close>

definition cleanup_buffer :: "display \<Rightarrow> nat \<Rightarrow> display" where
  "cleanup_buffer d i =
     (let d1 = (if dm_buffer (d_drm d) ! i = Mapped then d\<lparr>d_maps := removeAll i (d_maps d)\<rparr> else d);
          d2 = d1\<lparr>d_drm := (d_drm d1)\<lparr>dm_buffer := (dm_buffer (d_drm d1))[i := MapNull]\<rparr>\<rparr>;
          d3 = (if dm_fb_id (d_drm d2) ! i \<noteq> 0
                then d2\<lparr>d_fbs := removeAll (dm_fb_id (d_drm d2) ! i) (d_fbs d2),
                        d_drm := (d_drm d2)\<lparr>dm_fb_id := (dm_fb_id (d_drm d2))[i := 0]\<rparr>\<rparr> else d2)
      in if dm_handle (d_drm d3) ! i \<noteq> 0
         then d3\<lparr>d_handles := removeAll (dm_handle (d_drm d3) ! i) (d_handles d3),
                 d_drm := (d_drm d3)\<lparr>dm_handle := (dm_handle (d_drm d3))[i := 0]\<rparr>\<rparr> else d3)"

definition cleanup_drm :: "system \<Rightarrow> display \<Rightarrow> display" where
  "cleanup_drm sy d =
     (if j_drm_fd (d_journal d) < 0 then d
      else (let d1 = (if dm_saved_crtc (d_drm d) \<noteq> 0 then d\<lparr>d_log := d_log d @ [ShowSaved (dm_saved_crtc (d_drm d))]\<rparr> else d);
                d2 = foldl cleanup_buffer (d1\<lparr>d_master := False\<rparr>) [0, 1]
            in restore_vt sy (d2\<lparr>d_journal := (d_journal d2)\<lparr>j_drm_fd := -1\<rparr>\<rparr>)))"

text \<open>One connector: the first mode, and the controller of its encoder or else the first one.\<close>

definition probe_connector :: "card \<Rightarrow> nat list \<Rightarrow> nat \<Rightarrow> drm_state \<Rightarrow> drm_state \<times> bool" where
  "probe_connector c crtcs cid m =
     (case cd_conn c cid of
        None \<Rightarrow> (m, False)
      | Some cn \<Rightarrow>
          if cn_connected cn \<and> cn_modes cn > 0 \<and> cn_alloc cn
          then (case cn_second cn of
                  None \<Rightarrow> (m, False)
                | Some ((w, h), enc) \<Rightarrow>
                    let m1 = m\<lparr>dm_conn_id := cid, dm_width := w, dm_height := h\<rparr> in
                    case (if enc = 0 then None else cd_enc c enc) of
                      Some crtc \<Rightarrow> if crtc \<noteq> 0 then (m1\<lparr>dm_crtc_id := crtc\<rparr>, True)
                                  else if crtcs \<noteq> [] then (m1\<lparr>dm_crtc_id := hd crtcs\<rparr>, True) else (m1, False)
                    | None \<Rightarrow> if crtcs \<noteq> [] then (m1\<lparr>dm_crtc_id := hd crtcs\<rparr>, True) else (m1, False))
          else (m, False))"

fun probe_connectors :: "card \<Rightarrow> nat list \<Rightarrow> nat list \<Rightarrow> drm_state \<Rightarrow> drm_state \<times> bool" where
  "probe_connectors c crtcs [] m = (m, False)"
| "probe_connectors c crtcs (cid # cids) m =
     (case probe_connector c crtcs cid m of
        (m', True) \<Rightarrow> (m', True)
      | (m', False) \<Rightarrow> probe_connectors c crtcs cids m')"

definition probe_card :: "system \<Rightarrow> card \<Rightarrow> display \<Rightarrow> display \<times> bool" where
  "probe_card sy c d =
     (let gone = d\<lparr>d_journal := (d_journal d)\<lparr>j_drm_fd := -1\<rparr>\<rparr> in
      if cd_fd c < 0 then (d\<lparr>d_journal := (d_journal d)\<lparr>j_drm_fd := cd_fd c\<rparr>\<rparr>, False)
      else if \<not> cd_dumb c then (gone, False)
      else (case cd_res c of
              None \<Rightarrow> (gone, False)
            | Some (conns, crtcs) \<Rightarrow>
                if conns = [] \<or> \<not> cd_alloc c \<or> \<not> cd_res2 c then (gone, False)
                else (case probe_connectors c crtcs conns (d_drm d) of
                        (m, True) \<Rightarrow> (d\<lparr>d_journal := (d_journal d)\<lparr>j_drm_fd := cd_fd c\<rparr>, d_drm := m,
                                        d_master := sy_master sy\<rparr>, True)
                      | (m, False) \<Rightarrow> (gone\<lparr>d_drm := m\<rparr>, False))))"

definition card_path :: "nat \<Rightarrow> string" where
  "card_path i = str_fit 32 (''/dev/dri/card'' @ dec_string (int i))"

fun find_card :: "system \<Rightarrow> nat list \<Rightarrow> display \<Rightarrow> display \<times> bool" where
  "find_card sy [] d = (d, False)"
| "find_card sy (i # is) d =
     (case probe_card sy (sy_card sy (card_path i)) d of
        (d', True) \<Rightarrow> (d', True)
      | (d', False) \<Rightarrow> find_card sy is d')"

text \<open>One of the two buffers: created, given a frame buffer, mapped. The result tells that it is there.\<close>

definition create_buffer :: "system \<Rightarrow> nat \<Rightarrow> display \<Rightarrow> display \<times> bool" where
  "create_buffer sy i d =
     (case sy_create sy i of
        None \<Rightarrow> (d, False)
      | Some (h, pitch, sz) \<Rightarrow>
          let m = d_drm d;
              d1 = d\<lparr>d_handles := h # d_handles d,
                     d_drm := m\<lparr>dm_pitch := pitch, dm_size := sz, dm_handle := (dm_handle m)[i := h]\<rparr>\<rparr> in
          case sy_addfb sy i of
            None \<Rightarrow> (d1, False)
          | Some fb \<Rightarrow>
              let d2 = d1\<lparr>d_fbs := fb # d_fbs d1, d_drm := (d_drm d1)\<lparr>dm_fb_id := (dm_fb_id (d_drm d1))[i := fb]\<rparr>\<rparr> in
              if \<not> sy_map sy i then (d2, False)
              else if \<not> sy_mmap sy i
              then (d2\<lparr>d_drm := (d_drm d2)\<lparr>dm_buffer := (dm_buffer (d_drm d2))[i := MapFailed]\<rparr>\<rparr>, False)
              else (d2\<lparr>d_maps := i # d_maps d2,
                       d_drm := (d_drm d2)\<lparr>dm_buffer := (dm_buffer (d_drm d2))[i := Mapped]\<rparr>\<rparr>, True))"

text \<open>What the second buffer's failure gives back before the fall back to one buffer.\<close>

definition drop_second :: "display \<Rightarrow> display" where
  "drop_second d =
     (let d1 = (if dm_fb_id (d_drm d) ! 1 \<noteq> 0
                then d\<lparr>d_fbs := removeAll (dm_fb_id (d_drm d) ! 1) (d_fbs d),
                       d_drm := (d_drm d)\<lparr>dm_fb_id := (dm_fb_id (d_drm d))[1 := 0]\<rparr>\<rparr> else d);
          d2 = (if dm_handle (d_drm d1) ! 1 \<noteq> 0
                then d1\<lparr>d_handles := removeAll (dm_handle (d_drm d1) ! 1) (d_handles d1),
                        d_drm := (d_drm d1)\<lparr>dm_handle := (dm_handle (d_drm d1))[1 := 0]\<rparr>\<rparr> else d1)
      in d2\<lparr>d_drm := (d_drm d2)\<lparr>dm_double := False\<rparr>\<rparr>)"

definition init_buffers :: "system \<Rightarrow> display \<Rightarrow> display \<times> bool" where
  "init_buffers sy d =
     (case create_buffer sy 0 (d\<lparr>d_drm := (d_drm d)\<lparr>dm_double := True\<rparr>\<rparr>) of
        (d1, False) \<Rightarrow> (cleanup_drm sy d1, False)
      | (d1, True) \<Rightarrow>
          (case create_buffer sy 1 d1 of
             (d2, True) \<Rightarrow> (d2, True)
           | (d2, False) \<Rightarrow> (drop_second d2, True)))"

definition init_drm :: "system \<Rightarrow> display \<Rightarrow> display \<times> int" where
  "init_drm sy d =
     (case steal_vt sy d of
        (d1, r) \<Rightarrow>
          if r < 0 then (d1, -1)
          else (case find_card sy [0..<16] d1 of
                  (d2, False) \<Rightarrow> (restore_vt sy d2, -1)
                | (d2, True) \<Rightarrow>
                    (case init_buffers sy d2 of
                       (d3, False) \<Rightarrow> (d3, -1)
                     | (d3, True) \<Rightarrow>
                         let d4 = d3\<lparr>d_drm := (d_drm d3)\<lparr>dm_saved_crtc := dm_crtc_id (d_drm d3)\<rparr>\<rparr> in
                         if sy_setcrtc sy then (d4\<lparr>d_log := d_log d4 @ [ShowFb (dm_fb_id (d_drm d4) ! 0)]\<rparr>, 0)
                         else (cleanup_drm sy d4, -1))))"

subsection \<open>Keyboard device and control groups\<close>

text \<open>
  The first event device that has both Enter and Escape. A device is what opening it and its two
  queries give: the descriptor and the two bit maps.
\<close>

record gui_input_dev =
  id_fd :: int
  id_evbit :: "64 word option"
  id_keybit :: "64 word list option"

definition is_keyboard :: "gui_input_dev \<Rightarrow> bool" where
  "is_keyboard dv \<longleftrightarrow>
     (case id_evbit dv of
        None \<Rightarrow> False
      | Some ev \<Rightarrow> bit ev 1 \<and>
          (case id_keybit dv of
             None \<Rightarrow> False
           | Some kb \<Rightarrow> bit (kb ! (KEY_ENTER div 64)) (KEY_ENTER mod 64) \<and> bit (kb ! (KEY_ESC div 64)) (KEY_ESC mod 64)))"

text \<open>The result is the keyboard's descriptor and the descriptors that were closed again.\<close>

fun gui_find_keyboard_loop :: "(string \<Rightarrow> gui_input_dev) \<Rightarrow> string list \<Rightarrow> int list \<Rightarrow> int \<times> int list" where
  "gui_find_keyboard_loop dev [] closed = (-1, closed)"
| "gui_find_keyboard_loop dev (name # names) closed =
     (if starts_with name ''event''
      then (let dv = dev (str_fit 256 (''/dev/input/'' @ name)) in
            if id_fd dv < 0 then gui_find_keyboard_loop dev names closed
            else if is_keyboard dv then (id_fd dv, closed)
            else gui_find_keyboard_loop dev names (closed @ [id_fd dv]))
      else gui_find_keyboard_loop dev names closed)"

definition gui_find_keyboard :: "string list option \<Rightarrow> (string \<Rightarrow> gui_input_dev) \<Rightarrow> int \<times> int list" where
  "gui_find_keyboard dir dev = (case dir of None \<Rightarrow> (-1, []) | Some names \<Rightarrow> gui_find_keyboard_loop dev names [])"

definition cgroup_paths :: "string list" where
  "cgroup_paths = [''/sys/fs/cgroup/cgroup.procs'', ''/sys/fs/cgroup/system.slice/cgroup.procs'',
     ''/sys/fs/cgroup/memory/cgroup.procs'', ''/sys/fs/cgroup/cpu/cgroup.procs'']"

definition escape_cgroups :: "(string \<Rightarrow> bool) \<Rightarrow> int \<Rightarrow> (string \<times> string) list" where
  "escape_cgroups writable pid =
     map (\<lambda>p. (p, str_fit 32 (dec_string pid @ [LF]))) (filter writable cgroup_paths)"

subsection \<open>Language\<close>

definition lower_ascii :: "char \<Rightarrow> char" where
  "lower_ascii c = (let n = (of_char c :: nat) in if 65 \<le> n \<and> n \<le> 90 then char_of (n + 32) else c)"

text \<open>The index of the translation; \<open>en\<close> is the index of English.\<close>

definition choose_language :: "(string \<Rightarrow> string option) \<Rightarrow> string list \<Rightarrow> nat \<Rightarrow> nat" where
  "choose_language env codes en =
     (let lang = (case env ''CAD_LANG'' of Some l \<Rightarrow> Some l | None \<Rightarrow> env ''LANG'') in
      case lang of
        Some (a # b # _) \<Rightarrow>
          (case find (\<lambda>i. codes ! i = [lower_ascii a, lower_ascii b]) [0..<length codes] of
             Some i \<Rightarrow> i | None \<Rightarrow> en)
      | _ \<Rightarrow> en)"

subsection \<open>Taking and giving back\<close>

definition take_screen :: "system \<Rightarrow> display \<Rightarrow> display \<times> int" where
  "take_screen sy d = init_drm sy (force_backlight sy (disable_sysrq sy d))"

text \<open>The end of \<^verbatim>\<open>main\<close>: the card is given back when it was taken, and \<^verbatim>\<open>restore_vt\<close> is called at exit.\<close>

definition leave_screen :: "system \<Rightarrow> display \<times> int \<Rightarrow> display" where
  "leave_screen sy r = restore_vt sy (if snd r = 0 then cleanup_drm sy (fst r) else fst r)"

section \<open>Lemmas\<close>

subsection \<open>Integer files\<close>

lemma read_written: "is_c_int v \<Longrightarrow> read_int_from_file (fs(p := Some (str_fit 32 (dec_string v @ [LF])))) p = Some v"
proof -
  assume v: "is_c_int v"
  have l: "length (dec_string v) \<le> 11" using v by (rule length_dec_string)
  then have "str_fit 32 (dec_string v @ [LF]) = dec_string v @ [LF]" by (simp add: str_fit_def)
  moreover have "c_str (dec_string v @ [LF]) = dec_string v @ [LF]" using dec_string_no_nul [of v] by (auto simp: c_str_def)
  moreover have "str_to_int (Some (dec_string v @ [LF])) = v"
    by (rule str_to_int_dec_string [OF v]) (simp add: is_digit_def)
  ultimately show ?thesis using l by (simp add: read_int_from_file_def)
qed

lemma read_int_range: "read_int_from_file fs p = Some v \<Longrightarrow> is_c_int v"
  by (auto simp: read_int_from_file_def str_to_int_range split: option.splits if_splits)

lemma write_int_other: "q \<noteq> p \<Longrightarrow> d_files (write_int_to_file sy p v d) q = d_files d q"
  by (simp add: write_int_to_file_def Let_def)

lemma write_int_simps [simp]:
  "d_saved_sysrq (write_int_to_file sy p v d) = d_saved_sysrq d"
  "d_backlights (write_int_to_file sy p v d) = d_backlights d"
  by (simp_all add: write_int_to_file_def Let_def)

text \<open>A file that takes every text whole, and a kernel whose files take every text whole or none.\<close>

definition takes :: "system \<Rightarrow> string \<Rightarrow> bool" where
  "takes sy p \<longleftrightarrow> sy_writable sy p \<and> (\<forall>t. sy_write sy p t = int (length t))"

definition whole_writes :: "system \<Rightarrow> bool" where
  "whole_writes sy \<longleftrightarrow> (\<forall>p. sy_writable sy p \<longrightarrow> takes sy p \<or> (\<forall>t. sy_write sy p t \<le> 0))"

lemma write_int_whole:
  "whole_writes sy \<Longrightarrow> write_int_to_file sy p v d =
     (if takes sy p then d\<lparr>d_files := (d_files d)(p := Some (str_fit 32 (dec_string v @ [LF])))\<rparr> else d)"
proof (cases "takes sy p")
  case True
  have "str_fit 32 (dec_string v @ [LF]) \<noteq> []" by (simp add: str_fit_def)
  moreover have "write_loop (sy_write sy p) t = t" for t
    using True write_loop.simps [of "sy_write sy p" t] write_loop.simps [of "sy_write sy p" "[]"]
    by (simp add: takes_def)
  ultimately show ?thesis using True by (simp add: write_int_to_file_def takes_def)
next
  case False
  assume "whole_writes sy"
  then have "sy_writable sy p \<Longrightarrow> write_loop (sy_write sy p) t = []" for t
    using False unfolding whole_writes_def by (subst write_loop.simps) (auto simp: Let_def)
  then show ?thesis using False by (simp add: write_int_to_file_def)
qed

text \<open>
  What is known of the files while the screen is held, against the files \<open>F\<close> before: what was changed
  is saved, and what cannot be written is unchanged.
\<close>

definition files_held :: "system \<Rightarrow> (string \<Rightarrow> string option) \<Rightarrow> display \<Rightarrow> bool" where
  "files_held sy F d \<longleftrightarrow> whole_writes sy
     \<and> distinct (map bl_path (d_backlights d))
     \<and> (\<forall>b\<in>set (d_backlights d). read_int_from_file F (bl_path b) = Some (saved_brightness b) \<and> bl_path b \<noteq> sysrq_path)
     \<and> (d_saved_sysrq d \<ge> 0 \<longrightarrow> read_int_from_file F sysrq_path = Some (d_saved_sysrq d))
     \<and> (\<forall>p. d_files d p \<noteq> F p \<longrightarrow> takes sy p
            \<and> (p \<in> bl_path ` set (d_backlights d) \<or> (p = sysrq_path \<and> d_saved_sysrq d \<ge> 0)))"

abbreviation files_back :: "(string \<Rightarrow> string option) \<Rightarrow> display \<Rightarrow> bool" where
  "files_back F d \<equiv> \<forall>p. read_int_from_file (d_files d) p = read_int_from_file F p"

lemma read_int_cong: "fs p = fs' p \<Longrightarrow> read_int_from_file fs p = read_int_from_file fs' p"
  by (simp add: read_int_from_file_def)

text \<open>Writing the saved values, each of which is what the file contained.\<close>

definition put_saved :: "system \<Rightarrow> display \<Rightarrow> backlight_saved_state \<Rightarrow> display" where
  "put_saved sy d b = write_int_to_file sy (bl_path b) (saved_brightness b) d"

lemma restore_backlight_fold: "restore_backlight sy d = foldl (put_saved sy) d (d_backlights d)"
  unfolding restore_backlight_def put_saved_def by (rule refl)

lemma put_saved_read:
  assumes "whole_writes sy" "\<forall>b\<in>set bs. read_int_from_file F (bl_path b) = Some (saved_brightness b)"
  shows "read_int_from_file (d_files (foldl (put_saved sy) d bs)) p =
    (if p \<in> bl_path ` set bs \<and> takes sy p then read_int_from_file F p else read_int_from_file (d_files d) p)"
  using assms
proof (induction bs arbitrary: d)
  case (Cons b bs)
  have c: "is_c_int (saved_brightness b)" using Cons.prems read_int_range by fastforce
  have s: "read_int_from_file (d_files (put_saved sy d b)) p =
      (if p = bl_path b \<and> takes sy p then Some (saved_brightness b) else read_int_from_file (d_files d) p)"
  proof (cases "p = bl_path b")
    case True
    then show ?thesis using Cons.prems(1) by (simp add: put_saved_def write_int_whole read_written [OF c] del: fun_upd_apply)
  next
    case False
    then show ?thesis by (simp add: put_saved_def) (rule read_int_cong, rule write_int_other, simp)
  qed
  show ?case using Cons.IH [of "put_saved sy d b"] Cons.prems s by auto
qed simp

lemma put_saved_simps [simp]:
  "d_saved_sysrq (foldl (put_saved sy) d bs) = d_saved_sysrq d"
  "d_backlights (foldl (put_saved sy) d bs) = d_backlights d"
  by (induction bs arbitrary: d) (simp_all add: put_saved_def)

lemma files_restored:
  assumes "files_held sy F d"
  shows "files_back F (restore_sysrq sy (restore_backlight sy d))"
proof
  fix p
  let ?d = "restore_backlight sy d"
  have b: "\<forall>b\<in>set (d_backlights d). read_int_from_file F (bl_path b) = Some (saved_brightness b) \<and> bl_path b \<noteq> sysrq_path"
    and s: "d_saved_sysrq d \<ge> 0 \<Longrightarrow> read_int_from_file F sysrq_path = Some (d_saved_sysrq d)"
    and w: "whole_writes sy"
    and c: "\<And>p. d_files d p \<noteq> F p \<Longrightarrow> takes sy p
            \<and> (p \<in> bl_path ` set (d_backlights d) \<or> (p = sysrq_path \<and> d_saved_sysrq d \<ge> 0))"
    using assms by (auto simp: files_held_def)
  have r: "read_int_from_file (d_files ?d) p = (if p \<in> bl_path ` set (d_backlights d) \<and> takes sy p
      then read_int_from_file F p else read_int_from_file (d_files d) p)" for p
    unfolding restore_backlight_fold by (rule put_saved_read [OF w]) (use b in blast)
  have e: "d_saved_sysrq ?d = d_saved_sysrq d" by (simp add: restore_backlight_fold)
  show "read_int_from_file (d_files (restore_sysrq sy ?d)) p = read_int_from_file F p"
  proof (cases "p = sysrq_path \<and> d_saved_sysrq d \<ge> 0 \<and> takes sy p")
    case True
    then have "takes sy sysrq_path" by auto
    then show ?thesis
      using True s read_int_range [of F sysrq_path]
      by (simp add: restore_sysrq_def e write_int_whole [OF w] read_written del: fun_upd_apply)
  next
    case False
    then have "read_int_from_file (d_files (restore_sysrq sy ?d)) p = read_int_from_file (d_files ?d) p"
      by (auto simp: restore_sysrq_def e write_int_whole [OF w] intro!: read_int_cong)
    then show ?thesis using r [of p] c [of p] False read_int_cong [of "d_files d" p F] by auto
  qed
qed

subsection \<open>The backlight is saved\<close>

lemma held_disable_sysrq:
  assumes "whole_writes sy" "d_saved_sysrq d = -1" "d_backlights d = []" "\<And>v. read_int_from_file (d_files d) sysrq_path = Some v \<Longrightarrow> 0 \<le> v"
  shows "files_held sy (d_files d) (disable_sysrq sy d)"
  using assms by (auto simp: files_held_def disable_sysrq_def write_int_whole split: option.splits if_splits)

lemma held_files_same:
  "files_held sy F d \<Longrightarrow> p \<notin> bl_path ` set (d_backlights d) \<Longrightarrow> p \<noteq> sysrq_path \<Longrightarrow> d_files d p = F p"
  unfolding files_held_def by blast

lemma held_save_one:
  assumes "files_held sy F d" "p \<notin> bl_path ` set (d_backlights d)" "p \<noteq> sysrq_path" "read_int_from_file (d_files d) p = Some v"
    and "d_backlights d' = d_backlights d @ [\<lparr>bl_path = p, saved_brightness = v, enforced_brightness = e, has_enforced = True\<rparr>]"
    and "d_saved_sysrq d' = d_saved_sysrq d" "\<And>q. q \<noteq> p \<Longrightarrow> d_files d' q = d_files d q"
    and "d_files d' p \<noteq> d_files d p \<Longrightarrow> takes sy p"
  shows "files_held sy F d'"
proof -
  have f: "d_files d p = F p" using held_files_same [OF assms(1-3)] .
  then have "read_int_from_file F p = Some v" using assms(4) by (simp add: read_int_from_file_def)
  then show ?thesis using assms f by (auto simp: files_held_def) metis+
qed

lemma brightness_path_not_sysrq: "backlight_path n file \<noteq> sysrq_path"
proof
  assume "backlight_path n file = sysrq_path"
  then have "take 2 (backlight_path n file) = take 2 sysrq_path" by simp
  then show False by (simp add: backlight_path_def sysrq_path_def str_fit_def min_def)
qed

lemma held_force_one:
  assumes "files_held sy F d" "backlight_path n ''/brightness'' \<notin> bl_path ` set (d_backlights d)"
  shows "files_held sy F (force_one sy d n)
    \<and> bl_path ` set (d_backlights (force_one sy d n)) \<subseteq> insert (backlight_path n ''/brightness'') (bl_path ` set (d_backlights d))"
proof -
  let ?p = "backlight_path n ''/brightness''"
  note one = held_save_one [OF assms(1,2) brightness_path_not_sysrq]
  have w: "whole_writes sy" using assms(1) by (simp add: files_held_def)
  show ?thesis
  proof (cases "starts_with n ''.'' \<or> length (d_backlights d) \<ge> MAX_BACKLIGHTS")
    case False
    then show ?thesis
    proof (cases "read_int_from_file (d_files d) (backlight_path n ''/max_brightness'')")
      case (Some mx)
      note mx = Some
      show ?thesis
      proof (cases "read_int_from_file (d_files d) ?p")
        case (Some cur)
        have "files_held sy F (force_one sy d n)"
          using False mx Some
          by (auto simp: force_one_def Let_def intro!: one [OF Some])
            (auto simp: write_int_whole [OF w] split: if_splits)
        then show ?thesis using False mx Some by (auto simp: force_one_def Let_def)
      qed (use assms(1) False mx in \<open>auto simp: force_one_def Let_def\<close>)
    qed (use assms(1) False in \<open>auto simp: force_one_def Let_def\<close>)
  qed (use assms(1) in \<open>auto simp: force_one_def\<close>)
qed

lemma held_force_fold:
  assumes "files_held sy F d" "distinct (map (\<lambda>n. backlight_path n ''/brightness'') ns)"
    and "\<And>n. n \<in> set ns \<Longrightarrow> backlight_path n ''/brightness'' \<notin> bl_path ` set (d_backlights d)"
  shows "files_held sy F (foldl (force_one sy) d ns)"
  using assms
proof (induction ns arbitrary: d)
  case (Cons n ns)
  have h: "files_held sy F (force_one sy d n)"
    and s: "bl_path ` set (d_backlights (force_one sy d n)) \<subseteq> insert (backlight_path n ''/brightness'') (bl_path ` set (d_backlights d))"
    using held_force_one [of sy F d n] Cons.prems by simp_all
  show ?case
    using Cons.IH [OF h] Cons.prems s by (auto simp del: foldl_Cons simp: foldl_Cons)
      (metis (no_types, lifting) Cons.IH h image_eqI insertE subsetD)
qed simp

lemma held_maintain: "files_held sy F d \<Longrightarrow> files_held sy F (maintain_backlight sy d)"
proof -
  assume h: "files_held sy F d"
  have "files_held sy F (foldl (maintain_one sy) e bs)" if "files_held sy F e" "set bs \<subseteq> set (d_backlights e)" for bs e
    using that
  proof (induction bs arbitrary: e)
    case (Cons b bs)
    have "files_held sy F (write_int_to_file sy (bl_path b) v e)" for v
      using Cons.prems by (auto simp: files_held_def write_int_whole)
    then have "files_held sy F (maintain_one sy e b)" using Cons.prems(1) by (simp add: maintain_one_def split: option.splits)
    moreover have "d_backlights (maintain_one sy e b) = d_backlights e" by (simp add: maintain_one_def split: option.splits)
    ultimately show ?case using Cons by simp
  qed simp
  then show ?thesis using h by (simp add: maintain_backlight_def)
qed

text \<open>The part of the state that these operations change.\<close>

definition files_step :: "display \<Rightarrow> display \<Rightarrow> bool" where
  "files_step d d' \<longleftrightarrow> (\<exists>fs bs s. d' = d\<lparr>d_files := fs, d_backlights := bs, d_saved_sysrq := s\<rparr>)"

lemma files_step_refl [simp]: "files_step d d"
  unfolding files_step_def by (rule exI [of _ "d_files d"], rule exI [of _ "d_backlights d"], rule exI [of _ "d_saved_sysrq d"]) simp

lemma files_step_trans: "files_step d d' \<Longrightarrow> files_step d' d'' \<Longrightarrow> files_step d d''"
  unfolding files_step_def by (elim exE, simp only:) (intro exI, simp)

lemma files_step_write [simp]: "files_step d (write_int_to_file sy p v d)"
proof -
  have "write_int_to_file sy p v d =
      d\<lparr>d_files := d_files (write_int_to_file sy p v d), d_backlights := d_backlights d, d_saved_sysrq := d_saved_sysrq d\<rparr>"
    by (simp add: write_int_to_file_def Let_def)
  then show ?thesis unfolding files_step_def by blast
qed

lemma files_step_fold: "(\<And>d x. files_step d (f d x)) \<Longrightarrow> files_step d (foldl f d xs)"
  by (induction xs arbitrary: d) (auto intro: files_step_trans)

lemma files_step_upd [simp]:
  "files_step d (d\<lparr>d_backlights := bs\<rparr>)" "files_step d (d\<lparr>d_saved_sysrq := s\<rparr>)"
proof -
  have "d\<lparr>d_backlights := bs\<rparr> = d\<lparr>d_files := d_files d, d_backlights := bs, d_saved_sysrq := d_saved_sysrq d\<rparr>"
    "d\<lparr>d_saved_sysrq := s\<rparr> = d\<lparr>d_files := d_files d, d_backlights := d_backlights d, d_saved_sysrq := s\<rparr>" by simp_all
  then show "files_step d (d\<lparr>d_backlights := bs\<rparr>)" "files_step d (d\<lparr>d_saved_sysrq := s\<rparr>)" unfolding files_step_def by blast+
qed

lemma files_step_ops:
  "files_step d (force_backlight sy d)" "files_step d (maintain_backlight sy d)"
  "files_step d (restore_backlight sy d)" "files_step d (disable_sysrq sy d)" "files_step d (restore_sysrq sy d)"
proof -
  have "files_step d (force_one sy d n)" for d n
    unfolding force_one_def Let_def
    by (auto split: option.splits intro: files_step_trans [OF files_step_upd(1) files_step_write])
  then show "files_step d (force_backlight sy d)" by (auto simp: force_backlight_def files_step_fold split: option.splits)
  have "files_step d (maintain_one sy d b)" for d b by (auto simp: maintain_one_def split: option.splits)
  then show "files_step d (maintain_backlight sy d)" by (simp add: maintain_backlight_def files_step_fold)
  show "files_step d (restore_backlight sy d)" unfolding restore_backlight_def by (rule files_step_fold) simp
  show "files_step d (disable_sysrq sy d)" "files_step d (restore_sysrq sy d)"
    by (auto simp: disable_sysrq_def restore_sysrq_def split: option.splits
        intro: files_step_trans [OF files_step_upd(2) files_step_write] files_step_trans [OF files_step_write files_step_upd(2)])
qed

lemma files_step_same:
  assumes "files_step d d'"
  shows "d_original_vt d' = d_original_vt d" "d_journal d' = d_journal d" "d_vt_restored d' = d_vt_restored d"
    "d_drm d' = d_drm d" "d_active_vt d' = d_active_vt d" "d_text_mode d' = d_text_mode d" "d_tty_open d' = d_tty_open d"
    "d_master d' = d_master d" "d_handles d' = d_handles d" "d_fbs d' = d_fbs d" "d_maps d' = d_maps d"
  using assms by (auto simp: files_step_def)

subsection \<open>The card's resources\<close>

text \<open>Every handle, frame buffer and mapping that exists is recorded, so that it can be given back.\<close>

definition res_ok :: "display \<Rightarrow> bool" where
  "res_ok d \<longleftrightarrow>
     length (dm_handle (d_drm d)) = 2 \<and> length (dm_fb_id (d_drm d)) = 2 \<and> length (dm_buffer (d_drm d)) = 2
     \<and> set (d_handles d) \<subseteq> set (dm_handle (d_drm d)) - {0} \<and> set (d_fbs d) \<subseteq> set (dm_fb_id (d_drm d)) - {0}
     \<and> (\<forall>i\<in>set (d_maps d). i < 2 \<and> dm_buffer (d_drm d) ! i = Mapped)"

definition nothing_held :: "display \<Rightarrow> bool" where
  "nothing_held d \<longleftrightarrow> d_handles d = [] \<and> d_fbs d = [] \<and> d_maps d = [] \<and> \<not> d_master d \<and> j_drm_fd (d_journal d) < 0"

text \<open>What the kernel gives out is not 0.\<close>

definition ids_positive :: "system \<Rightarrow> bool" where
  "ids_positive sy \<longleftrightarrow>
     (\<forall>i h p s. sy_create sy i = Some (h, p, s) \<longrightarrow> h \<noteq> 0) \<and> (\<forall>i f. sy_addfb sy i = Some f \<longrightarrow> f \<noteq> 0)"

lemma length_2: "length xs = 2 \<longleftrightarrow> (\<exists>a b. xs = [a, b])"
  by (auto simp: numeral_2_eq_2 length_Suc_conv)

lemma cleanup_buffer_effect:
  "set (d_handles (cleanup_buffer d i)) = set (d_handles d) - ({dm_handle (d_drm d) ! i} - {0})"
  "set (d_fbs (cleanup_buffer d i)) = set (d_fbs d) - ({dm_fb_id (d_drm d) ! i} - {0})"
  "set (d_maps (cleanup_buffer d i)) = set (d_maps d) - (if dm_buffer (d_drm d) ! i = Mapped then {i} else {})"
  "j \<noteq> i \<Longrightarrow> dm_handle (d_drm (cleanup_buffer d i)) ! j = dm_handle (d_drm d) ! j"
  "j \<noteq> i \<Longrightarrow> dm_fb_id (d_drm (cleanup_buffer d i)) ! j = dm_fb_id (d_drm d) ! j"
  "j \<noteq> i \<Longrightarrow> dm_buffer (d_drm (cleanup_buffer d i)) ! j = dm_buffer (d_drm d) ! j"
  by (simp_all add: cleanup_buffer_def Let_def)

lemma set_2: "length xs = 2 \<Longrightarrow> set xs = {xs ! 0, xs ! 1}"
  by (auto simp: length_2)

lemma res_ok_cleanup:
  assumes "res_ok d"
  shows "d_handles (foldl cleanup_buffer d [0, 1]) = [] \<and> d_fbs (foldl cleanup_buffer d [0, 1]) = []
    \<and> d_maps (foldl cleanup_buffer d [0, 1]) = []"
proof -
  let ?d = "cleanup_buffer (cleanup_buffer d 0) 1"
  have s: "set (dm_handle (d_drm d)) = {dm_handle (d_drm d) ! 0, dm_handle (d_drm d) ! 1}"
    "set (dm_fb_id (d_drm d)) = {dm_fb_id (d_drm d) ! 0, dm_fb_id (d_drm d) ! 1}"
    using assms by (simp_all add: res_ok_def set_2)
  have "set (d_handles ?d) = {}" using assms s(1) by (auto simp: cleanup_buffer_effect res_ok_def)
  moreover have "set (d_fbs ?d) = {}" using assms s(2) by (auto simp: cleanup_buffer_effect res_ok_def)
  moreover have m: "i \<notin> set (d_maps ?d)" for i
    using assms by (fastforce simp: cleanup_buffer_effect res_ok_def less_2_cases_iff split: if_splits)
  have "set (d_maps ?d) = {}" by (rule equals0I) (rule notE [OF m])
  ultimately show ?thesis by simp
qed

lemma cleanup_buffer_keeps:
  "d_journal (cleanup_buffer d i) = d_journal d" "d_vt_restored (cleanup_buffer d i) = d_vt_restored d"
  "d_original_vt (cleanup_buffer d i) = d_original_vt d" "d_active_vt (cleanup_buffer d i) = d_active_vt d"
  "d_tty_open (cleanup_buffer d i) = d_tty_open d" "d_text_mode (cleanup_buffer d i) = d_text_mode d"
  "d_files (cleanup_buffer d i) = d_files d" "d_saved_sysrq (cleanup_buffer d i) = d_saved_sysrq d"
  "d_backlights (cleanup_buffer d i) = d_backlights d" "d_master (cleanup_buffer d i) = d_master d"
  by (simp_all add: cleanup_buffer_def Let_def)

lemma res_ok_create:
  assumes "res_ok d" "ids_positive sy" "i < 2" "dm_handle (d_drm d) ! i = 0" "dm_fb_id (d_drm d) ! i = 0" "i \<notin> set (d_maps d)"
  shows "res_ok (fst (create_buffer sy i d))"
proof (cases "sy_create sy i")
  case (Some hps)
  obtain h p s where c: "sy_create sy i = Some (h, p, s)" using Some by (cases hps) auto
  have h: "h \<noteq> 0" using assms(2) c unfolding ids_positive_def by blast
  have i: "i = 0 \<or> i = 1" using assms(3) by auto
  obtain h0 h1 f0 f1 b0 b1 where l: "dm_handle (d_drm d) = [h0, h1]" "dm_fb_id (d_drm d) = [f0, f1]" "dm_buffer (d_drm d) = [b0, b1]"
    using assms(1) unfolding res_ok_def length_2 by blast
  show ?thesis
  proof (cases "sy_addfb sy i")
    case None
    then show ?thesis using assms c h i by (auto simp: create_buffer_def res_ok_def l Let_def)
  next
    case (Some f)
    then have "f \<noteq> 0" using assms(2) unfolding ids_positive_def by blast
    then show ?thesis using assms c h i Some
      by (auto simp: create_buffer_def res_ok_def l Let_def less_2_cases_iff) 
  qed
qed (use assms in \<open>simp add: create_buffer_def\<close>)

lemma res_ok_drop_second:
  assumes "res_ok d" "dm_buffer (d_drm d) ! 1 \<noteq> Mapped"
  shows "res_ok (drop_second d)"
proof -
  obtain h0 h1 f0 f1 b0 b1 where l: "dm_handle (d_drm d) = [h0, h1]" "dm_fb_id (d_drm d) = [f0, f1]" "dm_buffer (d_drm d) = [b0, b1]"
    using assms(1) unfolding res_ok_def length_2 by blast
  show ?thesis using assms by (auto simp: drop_second_def res_ok_def l Let_def)
qed

lemma create_buffer_other:
  assumes "j \<noteq> i"
  shows "dm_handle (d_drm (fst (create_buffer sy i d))) ! j = dm_handle (d_drm d) ! j"
    "dm_fb_id (d_drm (fst (create_buffer sy i d))) ! j = dm_fb_id (d_drm d) ! j"
    "dm_buffer (d_drm (fst (create_buffer sy i d))) ! j = dm_buffer (d_drm d) ! j"
    "j \<in> set (d_maps (fst (create_buffer sy i d))) \<longleftrightarrow> j \<in> set (d_maps d)"
  using assms by (auto simp: create_buffer_def Let_def split: option.splits)

lemma create_buffer_failed:
  "\<not> snd (create_buffer sy i d) \<Longrightarrow> dm_buffer (d_drm d) ! i \<noteq> Mapped \<Longrightarrow> i < length (dm_buffer (d_drm d))
    \<Longrightarrow> dm_buffer (d_drm (fst (create_buffer sy i d))) ! i \<noteq> Mapped"
  by (auto simp: create_buffer_def Let_def split: option.splits)

subsection \<open>The terminal\<close>

text \<open>The part of the state that concerns the terminal and the files.\<close>

definition core ::
  "display \<Rightarrow> int \<times> int \<times> int \<times> bool \<times> (string \<Rightarrow> string option) \<times> int \<times> backlight_saved_state list \<times> int \<times> bool \<times> bool" where
  "core d = (d_original_vt d, j_tty_fd (d_journal d), j_rescue_tty_fd (d_journal d), d_vt_restored d, d_files d,
     d_saved_sysrq d, d_backlights d, d_active_vt d, d_text_mode d, d_tty_open d)"

definition ready :: "system \<Rightarrow> (string \<Rightarrow> string option) \<Rightarrow> int \<Rightarrow> display \<Rightarrow> bool" where
  "ready sy F v d \<longleftrightarrow> \<not> d_vt_restored d \<and> 0 \<le> j_tty_fd (d_journal d) \<and> files_held sy F d
     \<and> (d_text_mode d \<or> 0 \<le> j_rescue_tty_fd (d_journal d))
     \<and> (if d_tty_open d then d_original_vt d = v else d_active_vt d = v)"

definition vt_back :: "(string \<Rightarrow> string option) \<Rightarrow> int \<Rightarrow> display \<Rightarrow> bool" where
  "vt_back F v d \<longleftrightarrow> d_vt_restored d \<and> d_active_vt d = v \<and> d_text_mode d \<and> files_back F d
     \<and> j_tty_fd (d_journal d) < 0 \<and> j_rescue_tty_fd (d_journal d) < 0"

lemma ready_core: "core d = core d' \<Longrightarrow> ready sy F v d = ready sy F v d'"
  by (simp add: core_def ready_def files_held_def)

lemma vt_back_core: "core d = core d' \<Longrightarrow> vt_back F v d = vt_back F v d'"
  by (simp add: core_def vt_back_def)

lemma core_ops:
  "core (fst (create_buffer sy i d)) = core d" "core (drop_second d) = core d" "core (cleanup_buffer d i) = core d"
  "core (fst (probe_card sy c d)) = core d"
  by (simp_all add: core_def create_buffer_def drop_second_def cleanup_buffer_def probe_card_def Let_def
      split: option.splits prod.splits bool.splits)

lemma core_find_card: "core (fst (find_card sy xs d)) = core d"
proof (induction xs arbitrary: d)
  case (Cons i xs)
  obtain d' b where p: "probe_card sy (sy_card sy (card_path i)) d = (d', b)" by fastforce
  then have "core d' = core d" using core_ops(4) [of sy "sy_card sy (card_path i)" d] by simp
  then show ?case using Cons.IH [of d'] p by (cases b) simp_all
qed simp

lemma restore_vt_back:
  assumes "ready sy F v d" "sy_activate sy v"
  shows "vt_back F v (restore_vt sy d)"
proof -
  define e where "e = vt_activate sy (d_original_vt d)
     ((if j_rescue_tty_fd (d_journal d) \<ge> 0
       then (d\<lparr>d_vt_restored := True\<rparr>)\<lparr>d_text_mode := True, d_journal := (d_journal d)\<lparr>j_rescue_tty_fd := -1\<rparr>\<rparr>
       else d\<lparr>d_vt_restored := True\<rparr>))"
  have h: "files_held sy F e" and a: "d_active_vt e = v" and t: "d_text_mode e" "d_vt_restored e"
    using assms by (auto simp: e_def ready_def vt_activate_def files_held_def split: if_splits)
  let ?r = "restore_sysrq sy (restore_backlight sy e)"
  have s: "files_step e ?r" using files_step_ops files_step_trans by blast
  have f: "files_back F ?r" using files_restored [OF h] .
  have r: "restore_vt sy d = ?r\<lparr>d_tty_open := False, d_journal := (if j_rescue_tty_fd (d_journal d) \<ge> 0
      then (d_journal d)\<lparr>j_rescue_tty_fd := -1\<rparr> else d_journal d)\<lparr>j_tty_fd := -1\<rparr>\<rparr>"
    using assms(1) by (simp add: restore_vt_def Let_def ready_def e_def)
  show ?thesis using f files_step_same [OF s] a t unfolding r vt_back_def by auto
qed

lemma restore_vt_resources:
  "d_handles (restore_vt sy d) = d_handles d" "d_fbs (restore_vt sy d) = d_fbs d" "d_maps (restore_vt sy d) = d_maps d"
  "d_master (restore_vt sy d) = d_master d" "j_drm_fd (d_journal (restore_vt sy d)) = j_drm_fd (d_journal d)"
proof -
  have "files_step e (restore_sysrq sy (restore_backlight sy e))" for e using files_step_ops files_step_trans by blast
  note s = files_step_same [OF this]
  show "d_handles (restore_vt sy d) = d_handles d" "d_fbs (restore_vt sy d) = d_fbs d" "d_maps (restore_vt sy d) = d_maps d"
    "d_master (restore_vt sy d) = d_master d" "j_drm_fd (d_journal (restore_vt sy d)) = j_drm_fd (d_journal d)"
    by (simp_all add: restore_vt_def Let_def s vt_activate_def)
qed

lemma restore_vt_done: "d_vt_restored d \<Longrightarrow> restore_vt sy d = d"
  by (simp add: restore_vt_def)

lemma cleanup_drm_back:
  assumes "ready sy F v d" "sy_activate sy v" "res_ok d" "0 \<le> j_drm_fd (d_journal d)"
  shows "vt_back F v (cleanup_drm sy d) \<and> nothing_held (cleanup_drm sy d)"
proof -
  define e where "e = (if dm_saved_crtc (d_drm d) \<noteq> 0 then d\<lparr>d_log := d_log d @ [ShowSaved (dm_saved_crtc (d_drm d))]\<rparr> else d)
      \<lparr>d_master := False\<rparr>"
  define f where "f = foldl cleanup_buffer e [0, 1]"
  have c: "core f = core d" by (simp add: f_def e_def core_ops) (simp add: core_def)
  have ro: "res_ok e" using assms(3) by (simp add: e_def res_ok_def)
  have m: "\<not> d_master f" by (simp add: f_def cleanup_buffer_keeps) (simp add: e_def)
  have eq: "cleanup_drm sy d = restore_vt sy (f\<lparr>d_journal := (d_journal f)\<lparr>j_drm_fd := -1\<rparr>\<rparr>)"
    using assms(4) by (simp add: cleanup_drm_def Let_def e_def f_def)
  have "core (f\<lparr>d_journal := (d_journal f)\<lparr>j_drm_fd := -1\<rparr>\<rparr>) = core d" using c by (simp add: core_def)
  then have "vt_back F v (cleanup_drm sy d)" using assms(1,2) eq ready_core restore_vt_back by metis
  moreover have "nothing_held (cleanup_drm sy d)"
    using res_ok_cleanup [OF ro] m by (simp add: eq nothing_held_def restore_vt_resources f_def)
  ultimately show ?thesis by blast
qed

subsection \<open>The whole initialisation\<close>

lemma probe_connector_keeps:
  "dm_handle (fst (probe_connector c crtcs i m)) = dm_handle m" "dm_fb_id (fst (probe_connector c crtcs i m)) = dm_fb_id m"
  "dm_buffer (fst (probe_connector c crtcs i m)) = dm_buffer m"
  by (simp_all add: probe_connector_def Let_def split: option.splits prod.splits)

lemma probe_connectors_keep:
  "dm_handle (fst (probe_connectors c crtcs xs m)) = dm_handle m
   \<and> dm_fb_id (fst (probe_connectors c crtcs xs m)) = dm_fb_id m
   \<and> dm_buffer (fst (probe_connectors c crtcs xs m)) = dm_buffer m"
proof (induction xs arbitrary: m)
  case (Cons x xs)
  obtain m' b where p: "probe_connector c crtcs x m = (m', b)" by fastforce
  then show ?case using Cons.IH [of m'] probe_connector_keeps [of c crtcs x m] by (cases b) simp_all
qed simp

text \<open>The resources before the buffers are made, and what a search for a card leaves of them.\<close>

definition no_buffers :: "display \<Rightarrow> bool" where
  "no_buffers d \<longleftrightarrow> d_handles d = [] \<and> d_fbs d = [] \<and> d_maps d = [] \<and> dm_handle (d_drm d) = [0, 0]
     \<and> dm_fb_id (d_drm d) = [0, 0] \<and> dm_buffer (d_drm d) = [MapNull, MapNull]"

lemma probe_card_result:
  assumes "no_buffers d" "probe_card sy c d = (d', b)"
  shows "no_buffers d' \<and> (if b then 0 \<le> j_drm_fd (d_journal d') else j_drm_fd (d_journal d') < 0 \<and> d_master d' = d_master d)"
  using assms probe_connectors_keep [of c] unfolding probe_card_def no_buffers_def Let_def
  by (auto split: option.splits prod.splits bool.splits if_splits) (metis fst_conv)+

lemma find_card_result:
  assumes "no_buffers d" "j_drm_fd (d_journal d) < 0" "\<not> d_master d" "find_card sy xs d = (d', b)"
  shows "no_buffers d' \<and> (if b then 0 \<le> j_drm_fd (d_journal d') else j_drm_fd (d_journal d') < 0 \<and> \<not> d_master d')"
  using assms
proof (induction xs arbitrary: d)
  case (Cons i xs)
  obtain e c where p: "probe_card sy (sy_card sy (card_path i)) d = (e, c)" by fastforce
  note r = probe_card_result [OF Cons.prems(1) p]
  show ?case
  proof (cases c)
    case True
    then show ?thesis using Cons.prems(4) p r by simp
  next
    case False
    then show ?thesis using Cons.IH [of e] Cons.prems(3,4) p r by simp
  qed
qed simp

lemma no_buffers_res_ok: "no_buffers d \<Longrightarrow> res_ok d"
  by (simp add: no_buffers_def res_ok_def)

lemma create_buffer_drm_fd: "d_journal (fst (create_buffer sy i d)) = d_journal d"
  by (simp add: create_buffer_def Let_def split: option.splits)

lemma init_buffers_result:
  assumes "no_buffers d" "ids_positive sy" "ready sy F v d" "sy_activate sy v" "0 \<le> j_drm_fd (d_journal d)"
    and "init_buffers sy d = (d', b)"
  shows "if b then res_ok d' \<and> core d' = core d \<and> 0 \<le> j_drm_fd (d_journal d')
    else vt_back F v d' \<and> nothing_held d'"
proof -
  let ?d = "d\<lparr>d_drm := (d_drm d)\<lparr>dm_double := True\<rparr>\<rparr>"
  have n: "no_buffers ?d" "core ?d = core d" using assms(1) by (simp_all add: no_buffers_def core_def)
  obtain e c where e: "create_buffer sy 0 ?d = (e, c)" by fastforce
  have re: "res_ok e" and ce: "core e = core d" and fe: "d_journal e = d_journal d"
    using res_ok_create [of ?d sy 0] no_buffers_res_ok [OF n(1)] assms(2) n e core_ops(1) [of sy 0 ?d] create_buffer_drm_fd [of sy 0 ?d]
    by (simp_all add: no_buffers_def)
  show ?thesis
  proof (cases c)
    case False
    then show ?thesis
      using assms(3,4,5,6) e re ce fe cleanup_drm_back [of sy F v e] ready_core [OF ce] by (simp add: init_buffers_def)
  next
    case True
    obtain f g where f: "create_buffer sy 1 e = (f, g)" by fastforce
    have o: "dm_handle (d_drm e) ! 1 = 0" "dm_fb_id (d_drm e) ! 1 = 0" "dm_buffer (d_drm e) ! 1 = MapNull" "1 \<notin> set (d_maps e)"
      using create_buffer_other [of 1 0 sy ?d] e n(1) by (simp_all add: no_buffers_def)
    have rf: "res_ok f" and cf: "core f = core d" and ff: "d_journal f = d_journal d"
      using res_ok_create [OF re assms(2) _ o(1,2,4)] f ce fe core_ops(1) [of sy 1 e] create_buffer_drm_fd [of sy 1 e] by simp_all
    have "\<not> g \<Longrightarrow> res_ok (drop_second f)"
      using create_buffer_failed [of sy 1 e] f o(3) re rf res_ok_drop_second [of f] by (simp add: res_ok_def)
    moreover have "d_journal (drop_second f) = d_journal f" by (simp add: drop_second_def Let_def)
    ultimately show ?thesis
      using assms(5,6) e f True rf cf ff core_ops(2) [of f] by (cases g) (auto simp: init_buffers_def)
  qed
qed

lemma steal_vt_result:
  assumes "\<not> d_vt_restored d" "files_held sy F d" "d_text_mode d" "\<not> d_tty_open d" "0 \<le> sy_tty0 sy" "steal_vt sy d = (d', r)"
  shows "ready sy F (d_active_vt d) d' \<and> (r = 0 \<longleftrightarrow> d_tty_open d') \<and> r \<le> 0 \<and> d_drm d' = d_drm d \<and> d_handles d' = d_handles d
    \<and> d_fbs d' = d_fbs d \<and> d_maps d' = d_maps d \<and> d_master d' = d_master d
    \<and> j_drm_fd (d_journal d') = j_drm_fd (d_journal d)"
proof -
  have h: "files_held sy F d'" using assms(2,6) by (auto simp: steal_vt_def vt_activate_def files_held_def Let_def split: if_splits)
  show ?thesis using assms h
    by (auto simp: steal_vt_def ready_def vt_activate_def Let_def split: if_splits)
qed

lemma init_drm_result:
  assumes "no_buffers d" "j_drm_fd (d_journal d) < 0" "\<not> d_master d" "\<not> d_vt_restored d" "files_held sy F d" "d_text_mode d"
    and "\<not> d_tty_open d" "0 \<le> sy_tty0 sy" "ids_positive sy" "sy_activate sy (d_active_vt d)" "init_drm sy d = (d', r)"
  shows "if r = 0 then ready sy F (d_active_vt d) d' \<and> d_tty_open d' \<and> res_ok d' \<and> 0 \<le> j_drm_fd (d_journal d')
    else (vt_back F (d_active_vt d) d' \<or> ready sy F (d_active_vt d) d') \<and> nothing_held d'"
proof -
  let ?v = "d_active_vt d"
  obtain d1 r1 where s: "steal_vt sy d = (d1, r1)" by fastforce
  note st = steal_vt_result [OF assms(4-8) s]
  have nb: "no_buffers d1" using st assms(1) by (simp add: no_buffers_def)
  show ?thesis
  proof (cases "r1 < 0")
    case True
    then show ?thesis using assms(1,2,3,11) st s by (auto simp: init_drm_def nothing_held_def no_buffers_def)
  next
    case False
    then have o: "d_tty_open d1" using st by auto
    obtain d2 b where f: "find_card sy [0..<16] d1 = (d2, b)" by fastforce
    have c2: "core d2 = core d1" using core_find_card [of sy "[0..<16]" d1] f by simp
    then have r2: "ready sy F ?v d2" "d_tty_open d2" using st o ready_core [OF c2] by (simp_all add: core_def)
    have fr: "no_buffers d2 \<and> (if b then 0 \<le> j_drm_fd (d_journal d2) else j_drm_fd (d_journal d2) < 0 \<and> \<not> d_master d2)"
      using find_card_result [OF nb _ _ f] st assms(2,3) by simp
    show ?thesis
    proof (cases b)
      case False
      have e: "d' = restore_vt sy d2 \<and> r = -1" using assms(11) s f False \<open>\<not> r1 < 0\<close> by (simp add: init_drm_def)
      then show ?thesis using restore_vt_back [OF r2(1) assms(10)] fr False
        by (simp add: nothing_held_def restore_vt_resources no_buffers_def)
    next
      case True
      obtain d3 g where i: "init_buffers sy d2 = (d3, g)" by fastforce
      note ib = init_buffers_result [OF _ assms(9) r2(1) assms(10) _ i]
      define d4 where "d4 = d3\<lparr>d_drm := (d_drm d3)\<lparr>dm_saved_crtc := dm_crtc_id (d_drm d3)\<rparr>\<rparr>"
      have e: "(d', r) = (if g then (if sy_setcrtc sy then (d4\<lparr>d_log := d_log d4 @ [ShowFb (dm_fb_id (d_drm d4) ! 0)]\<rparr>, 0)
                         else (cleanup_drm sy d4, -1)) else (d3, -1))"
        using assms(11) s f i True \<open>\<not> r1 < 0\<close> by (cases g) (auto simp: init_drm_def d4_def Let_def)
      show ?thesis
      proof (cases g)
        case False
        then show ?thesis using ib fr True e by simp
      next
        case gt: True
        have 3: "res_ok d3" "core d3 = core d2" "0 \<le> j_drm_fd (d_journal d3)" using ib fr True gt by simp_all
        then have 4: "res_ok d4" "core d4 = core d2" "0 \<le> j_drm_fd (d_journal d4)"
          by (simp_all add: d4_def res_ok_def core_def)
        then have r4: "ready sy F ?v d4" "d_tty_open d4" using r2 ready_core [OF 4(2)] by (simp_all add: core_def)
        show ?thesis
        proof (cases "sy_setcrtc sy")
          case True
          then show ?thesis using e gt 4 r4 by (auto simp: res_ok_def ready_def files_held_def)
        next
          case False
          then show ?thesis using e gt cleanup_drm_back [OF r4(1) assms(10) 4(1,3)] by simp
        qed
      qed
    qed
  qed
qed

section \<open>Properties\<close>

definition fresh_display :: "(string \<Rightarrow> string option) \<Rightarrow> int \<Rightarrow> display" where
  "fresh_display files active =
     \<lparr>d_original_vt = -1, d_rescue_vt = -1,
      d_journal = \<lparr>j_drm_fd = -1, j_kbd_fd = -1, j_mouse_fd = -1, j_rescue_tty_fd = -1, j_tty_fd = -1\<rparr>,
      d_saved_sysrq = -1, d_backlights = [], d_vt_restored = False,
      d_drm = \<lparr>dm_conn_id = 0, dm_crtc_id = 0, dm_width = 0, dm_height = 0, dm_pitch = 0, dm_size = 0, dm_handle = [0, 0],
               dm_buffer = [MapNull, MapNull], dm_fb_id = [0, 0], dm_saved_crtc = 0, dm_double = False\<rparr>,
      d_files = files, d_active_vt = active, d_text_mode = True, d_tty_open = False, d_master = False, d_handles = [],
      d_fbs = [], d_maps = [], d_log = []\<rparr>"

text \<open>
  What the kernel promises: values of the magic keys are not negative, handles and frame buffers are
  not 0, and the entries of the backlight directory have different names.
\<close>

definition kernel_ok :: "system \<Rightarrow> (string \<Rightarrow> string option) \<Rightarrow> bool" where
  "kernel_ok sy files \<longleftrightarrow> ids_positive sy \<and> whole_writes sy
     \<and> (\<forall>v. read_int_from_file files sysrq_path = Some v \<longrightarrow> 0 \<le> v)
     \<and> (\<forall>names. sy_backlights sy = Some names \<longrightarrow> distinct (map (\<lambda>n. backlight_path n ''/brightness'') names))"

text \<open>While the screen is in use: the backlight is maintained, another session's terminal may be chosen.\<close>

definition use_screen :: "system \<Rightarrow> nat \<Rightarrow> int \<Rightarrow> display \<times> int \<Rightarrow> display \<times> int" where
  "use_screen sy n vt r =
     (if snd r = 0 then (((maintain_backlight sy ^^ n) (fst r))\<lparr>d_original_vt := vt\<rparr>, 0) else r)"

lemma maintain_many:
  "files_held sy F d \<Longrightarrow> files_held sy F ((maintain_backlight sy ^^ n) d) \<and> files_step d ((maintain_backlight sy ^^ n) d)"
  by (induction n) (auto simp: held_maintain intro: files_step_trans files_step_ops)


definition pc_files :: "string \<Rightarrow> string option" where
  "pc_files = [sysrq_path \<mapsto> ''438'' @ [LF], backlight_path ''lcd'' ''/max_brightness'' \<mapsto> ''900'' @ [LF],
     backlight_path ''lcd'' ''/brightness'' \<mapsto> ''0'' @ [LF]]"

definition pc :: system where
  "pc = \<lparr>sy_writable = (\<lambda>_. True), sy_write = (\<lambda>_ t. int (length t)),
     sy_backlights = Some [''.'', ''lcd''], sy_tty0 = 4, sy_getstate = True, sy_openqry = Some 9,
     sy_rescue_fd = (\<lambda>_. 5), sy_activate = (\<lambda>_. True),
     sy_card = (\<lambda>_. \<lparr>cd_fd = 6, cd_dumb = True, cd_res = Some ([31], [41]), cd_alloc = True, cd_res2 = True,
       cd_conn = (\<lambda>_. Some \<lparr>cn_connected = True, cn_modes = 1, cn_alloc = True, cn_second = Some ((640, 480), 51)\<rparr>),
       cd_enc = (\<lambda>_. Some 41)\<rparr>),
     sy_master = True, sy_create = (\<lambda>i. Some (i + 1, 2560, 1228800)), sy_addfb = (\<lambda>i. if i = 0 then Some 71 else None),
     sy_map = (\<lambda>_. True), sy_mmap = (\<lambda>_. True), sy_setcrtc = True\<rparr>"


text \<open>When \<^verbatim>\<open>/dev/tty0\<close> cannot be opened the program ends and leaves the magic keys disabled.\<close>

lemma sysrq_left_disabled:
  assumes "sy_tty0 sy < 0" "read_int_from_file files sysrq_path = Some v" "0 < v" "takes sy sysrq_path" "whole_writes sy"
    and "sy_backlights sy = None"
  shows "read_int_from_file (d_files (leave_screen sy (take_screen sy (fresh_display files active)))) sysrq_path = Some 0"
proof -
  have "read_int_from_file (files(sysrq_path := Some (str_fit 32 (dec_string 0 @ [LF])))) sysrq_path = Some 0"
    by (rule read_written) (simp add: is_c_int_def INT_MIN_def INT_MAX_def)
  then show ?thesis
    using assms
    by (simp add: leave_screen_def take_screen_def init_drm_def steal_vt_def force_backlight_def disable_sysrq_def
        write_int_whole restore_vt_def fresh_display_def Let_def del: fun_upd_apply)
qed

text \<open>The signal handler writes the last digit of the saved value only.\<close>

lemma emergency_sysrq_digit:
  assumes "d_saved_sysrq d = 438" "takes sy sysrq_path"
  shows "d_files (emergency_restore sy d) sysrq_path = Some ''8''"
proof -
  have "digit_char 8 = CHR ''8''" by code_simp
  then show ?thesis using assms by (simp add: emergency_restore_def vt_activate_def takes_def Let_def)
qed

text \<open>An answer of the kernel that there is no free terminal is used as a terminal's number.\<close>

lemma no_free_vt_used:
  assumes "0 \<le> sy_tty0 sy" "sy_getstate sy" "sy_openqry sy = Some (-1)"
  shows "d_rescue_vt (fst (steal_vt sy d)) = -1"
  using assms by (simp add: steal_vt_def vt_activate_def Let_def)

end
