(* ===== verification/Startup.thy ===== *)
theory Startup
  imports Display PowerActions
begin

text \<open>
  The start of the rescue screen in \<open>main\<close>: protection against the kernel, signals, the retry of interrupted
  system calls, the sizes that depend on the language, and emptying the mouse and the keyboard before the first frame.
\<close>

section \<open>Definitions\<close>

subsection \<open>Protection\<close>

record start_env =
  st_oom_open :: bool
  st_oom_write :: int
  st_ioprio :: bool
  st_realtime :: bool
  st_setpriority :: bool

record gui_protection =
  gp_oom_immune :: bool
  gp_io_first :: bool
  gp_realtime :: bool
  gp_nice20 :: bool

definition protect_gui :: "start_env \<Rightarrow> gui_protection" where
  "protect_gui e =
     \<lparr>gp_oom_immune = (st_oom_open e \<and> st_oom_write e > 0), gp_io_first = st_ioprio e, gp_realtime = st_realtime e,
      gp_nice20 = (\<not> st_realtime e \<and> st_setpriority e)\<rparr>"

subsection \<open>Signals\<close>

datatype sig_action = SigDfl | SigIgn | SigEmergency | SigAutoReap

text \<open>The calls of \<^verbatim>\<open>sigaction\<close>, in order.\<close>

definition gui_sigactions :: "(string \<times> sig_action) list" where
  "gui_sigactions =
     map (\<lambda>s. (s, SigEmergency)) [''SIGSEGV'', ''SIGABRT'', ''SIGTERM'', ''SIGINT'', ''SIGBUS'', ''SIGFPE'', ''SIGILL'']
     @ [(''SIGPIPE'', SigIgn), (''SIGCHLD'', SigAutoReap)]"

definition disposition :: "(string \<times> sig_action) list \<Rightarrow> string \<Rightarrow> sig_action" where
  "disposition as s = (case map_of (rev as) s of None \<Rightarrow> SigDfl | Some a \<Rightarrow> a)"

text \<open>
  What \<^verbatim>\<open>waitpid(pid, &status, 0)\<close> reports of a child that exits, the returned number and the status: with
  \<^verbatim>\<open>SA_NOCLDWAIT\<close> the kernel keeps no status and the call fails.
\<close>

definition wait_child :: "sig_action \<Rightarrow> int \<Rightarrow> int option \<Rightarrow> int \<times> int option" where
  "wait_child a pid status = (if a = SigAutoReap \<or> a = SigIgn then (-1, None) else (pid, status))"

subsection \<open>Loops\<close>

datatype errno = EINTR | EAGAIN | EOther int

text \<open>\<open>answer k\<close> is what call \<open>k\<close> of \<^verbatim>\<open>ioctl\<close> returns, with \<^verbatim>\<open>errno\<close> after it.\<close>

partial_function (option) drm_ioctl :: "(nat \<Rightarrow> int \<times> errno) \<Rightarrow> nat \<Rightarrow> int option" where
  "drm_ioctl answer k =
     (case answer k of
        (ret, e) \<Rightarrow> if ret = -1 \<and> (e = EINTR \<or> e = EAGAIN) then drm_ioctl answer (Suc k) else Some ret)"

text \<open>\<^verbatim>\<open>while (read(mouse_fd, discard, ...) > 0) {}\<close>; the result is the number of reads.\<close>

partial_function (option) flush_mouse :: "(nat \<Rightarrow> int) \<Rightarrow> nat \<Rightarrow> nat option" where
  "flush_mouse reads k = (if reads k > 0 then flush_mouse reads (Suc k) else Some (Suc k))"

text \<open>\<^verbatim>\<open>while (read(kbd_fd, &ev, sizeof(ev)) > 0 && flush_limit++ < 128) {}\<close>\<close>

function flush_keyboard :: "(nat \<Rightarrow> int) \<Rightarrow> nat \<Rightarrow> nat \<Rightarrow> nat" where
  "flush_keyboard reads k flush_limit =
     (if reads k > 0 \<and> flush_limit < 128 then flush_keyboard reads (Suc k) (Suc flush_limit) else Suc k)"
  by pat_completeness auto
termination
  by (relation "measure (\<lambda>(reads, k, flush_limit). 128 - flush_limit)") auto

declare flush_keyboard.simps [simp del]

subsection \<open>Sizes\<close>

text \<open>The widths of the texts are the font's, cut to whole pixels.\<close>

definition power_menu_width :: "int \<Rightarrow> int \<Rightarrow> int \<Rightarrow> int" where
  "power_menu_width w0 w1 w2 =
     (let m0 = w0; m1 = (if w1 > m0 then w1 else m0); m2 = (if w2 > m1 then w2 else m1); w = m2 + 100
      in if w < 230 then 230 else w)"

definition root_button_width :: "int \<Rightarrow> int \<Rightarrow> int" where
  "root_button_width w_root w_user =
     (let m = (if w_root > w_user then w_root else w_user); w = m + 16 in if w < 110 then 110 else w)"

section \<open>Lemmas\<close>

lemma widths_cover:
  "max w0 (max w1 w2) + 100 \<le> power_menu_width w0 w1 w2" "230 \<le> power_menu_width w0 w1 w2"
  "max w_root w_user + 16 \<le> root_button_width w_root w_user" "110 \<le> root_button_width w_root w_user"
  by (simp_all add: power_menu_width_def root_button_width_def Let_def)

lemma fatal_signals_handled:
  "list_all (\<lambda>s. disposition gui_sigactions s = SigEmergency)
     [''SIGSEGV'', ''SIGABRT'', ''SIGTERM'', ''SIGINT'', ''SIGBUS'', ''SIGFPE'', ''SIGILL'']"
  by (simp add: disposition_def gui_sigactions_def)

lemma flush_keyboard_bound: "l \<le> 128 \<Longrightarrow> flush_keyboard reads k l \<le> k + 129 - l"
proof (induction reads k l rule: flush_keyboard.induct)
  case (1 reads k l)
  show ?case
  proof (cases "reads k > 0 \<and> l < 128")
    case True
    then have "flush_keyboard reads k l = flush_keyboard reads (Suc k) (Suc l)" by (simp add: flush_keyboard.simps [of reads k l])
    then show ?thesis using "1.IH" [OF True] True by simp
  next
    case False
    then have "flush_keyboard reads k l = Suc k" by (subst flush_keyboard.simps) (rule if_not_P)
    then show ?thesis using "1.prems" by simp
  qed
qed

lemma flush_mouse_ends: "reads (k + n) \<le> 0 \<Longrightarrow> \<forall>i<n. reads (k + i) > 0 \<Longrightarrow> flush_mouse reads k = Some (Suc (k + n))"
proof (induction n arbitrary: k)
  case 0
  then show ?case by (subst flush_mouse.simps) simp
next
  case (Suc n)
  have "reads k > 0" "\<forall>i<n. reads (Suc k + i) > 0" using Suc.prems(2) by (force, auto)
  then show ?case using Suc.IH [of "Suc k"] Suc.prems(1) by (subst flush_mouse.simps) simp
qed

lemma flush_mouse_result:
  assumes "flush_mouse reads k = Some y"
  shows "\<exists>n. reads n \<le> 0"
proof (rule flush_mouse.raw_induct [of "\<lambda>reads k y. \<exists>n. reads n \<le> 0", OF _ assms])
  fix rec reads k y
  assume ih: "\<And>reads k y. rec reads k = Some y \<Longrightarrow> \<exists>n. reads n \<le> (0 :: int)"
    and step: "(if reads k > (0 :: int) then rec reads (Suc k) else Some (Suc k)) = Some y"
  show "\<exists>n. reads n \<le> 0"
  proof (cases "reads k > 0")
    case True
    then show ?thesis using ih step by simp
  next
    case False
    then show ?thesis using not_less by blast
  qed
qed

lemma flush_keyboard_empties:
  "reads (k + n) \<le> 0 \<Longrightarrow> \<forall>i<n. reads (k + i) > 0 \<Longrightarrow> l + n \<le> 128 \<Longrightarrow> flush_keyboard reads k l = Suc (k + n)"
proof (induction n arbitrary: k l)
  case 0
  then show ?case by (subst flush_keyboard.simps) simp
next
  case (Suc n)
  have "reads k > 0" "\<forall>i<n. reads (Suc k + i) > 0" using Suc.prems(2) by (force, auto)
  then show ?case using Suc.IH [of "Suc k" "Suc l"] Suc.prems(1,3) by (subst flush_keyboard.simps) simp
qed

text \<open>The first answer that is not an interruption is the result.\<close>

lemma drm_ioctl_first:
  "\<forall>i<n. \<exists>e\<in>{EINTR, EAGAIN}. answer (k + i) = (-1, e) \<Longrightarrow> answer (k + n) = (r, e)
   \<Longrightarrow> r \<noteq> -1 \<or> e \<notin> {EINTR, EAGAIN} \<Longrightarrow> drm_ioctl answer k = Some r"
proof (induction n arbitrary: k)
  case 0
  then show ?case by (subst drm_ioctl.simps) auto
next
  case (Suc n)
  have "\<exists>e\<in>{EINTR, EAGAIN}. answer k = (-1, e)" "\<forall>i<n. \<exists>e\<in>{EINTR, EAGAIN}. answer (Suc k + i) = (-1, e)"
    using Suc.prems(1) by (force, auto)
  then show ?case using Suc.IH [of "Suc k"] Suc.prems(2,3) by (subst drm_ioctl.simps) auto
qed

section \<open>Properties\<close>

text \<open>
  The screen runs with \<^verbatim>\<open>SA_NOCLDWAIT\<close>, so that the sign out never learns that \<^verbatim>\<open>loginctl\<close> succeeded: it does not wait for the
  session to close but goes on to kill the user's processes at once.
\<close>

lemma loginctl_success_unseen:
  assumes "se_wait se = Some (wait_child (disposition gui_sigactions ''SIGCHLD'') (se_fork se) (Some 0))" "0 < se_fork se"
    and "us_session_id (pe_session (se_power se)) \<noteq> []"
  shows "loginctl_logout se i =
    ([Loginctl (loginctl_argv (pe_session (se_power se))), Wait (se_fork se) False], Some False, i)"
proof -
  have "disposition gui_sigactions ''SIGCHLD'' = SigAutoReap" by (simp add: disposition_def gui_sigactions_def)
  then show ?thesis using assms by (simp add: wait_child_def loginctl_logout_def Let_def)
qed

end
