(* ===== verification/Draw.thy ===== *)
theory Draw
  imports Prelude
begin

text \<open>
  Drawing into the frame buffer: \<^verbatim>\<open>draw_cursor\<close>, \<^verbatim>\<open>draw_rect\<close> and \<^verbatim>\<open>draw_image\<close>. The frame buffer is the
  array of 32-bit pixels the program maps; a row has \<^verbatim>\<open>pitch / 4\<close> of them, of which the screen shows
  the first \<open>cv_w\<close>. An access outside the array or outside an image is the result \<open>None\<close>.

  The three functions share one clipping loop. It is proved once to give every visible pixel of the
  drawn rectangle its new value exactly once and to leave every other pixel alone.
\<close>

section \<open>Model\<close>

unbundle bit_operations_syntax

record canvas =
  cv_w :: int
  cv_h :: int
  cv_pitch :: int
  cv_px :: "32 word list"

definition cv_stride :: "canvas \<Rightarrow> int" where
  "cv_stride cv = cv_pitch cv div 4"

text \<open>\<^verbatim>\<open>for (int i = ...; i < ...; i++)\<close> over \<open>n\<close> values, with a body that may fail.\<close>

fun for_loop :: "int \<Rightarrow> nat \<Rightarrow> (int \<Rightarrow> 'a \<Rightarrow> 'a option) \<Rightarrow> 'a \<Rightarrow> 'a option" where
  "for_loop i 0 body s = Some s"
| "for_loop i (Suc n) body s = (case body i s of None \<Rightarrow> None | Some s' \<Rightarrow> for_loop (i + 1) n body s')"

text \<open>\<^verbatim>\<open>dst[sy * stride + sx] = ...\<close>, with the unsigned 32-bit index; \<open>f\<close> gives the new pixel from the old.\<close>

definition put_pixel :: "canvas \<Rightarrow> int \<Rightarrow> int \<Rightarrow> (32 word \<Rightarrow> 32 word option) \<Rightarrow> canvas option" where
  "put_pixel cv sy sx f =
     (let i = nat ((sy * cv_stride cv + sx) mod 4294967296) in
      if i < length (cv_px cv)
      then map_option (\<lambda>p. cv\<lparr>cv_px := (cv_px cv)[i := p]\<rparr>) (f (cv_px cv ! i))
      else None)"

definition draw_row ::
  "int \<Rightarrow> int \<Rightarrow> int \<Rightarrow> (int \<Rightarrow> int \<Rightarrow> 32 word \<Rightarrow> 32 word option) \<Rightarrow> int \<Rightarrow> canvas \<Rightarrow> canvas option" where
  "draw_row x y w pix cy cv =
     (let sy = wrap_int (y + cy) in
      if sy < 0 \<or> sy \<ge> wrap_int (cv_h cv) then Some cv
      else for_loop 0 (nat w)
             (\<lambda>cx cv. let sx = wrap_int (x + cx) in
                if sx < 0 \<or> sx \<ge> wrap_int (cv_w cv) then Some cv
                else put_pixel cv sy sx (pix cx cy)) cv)"

definition draw_clipped ::
  "int \<Rightarrow> int \<Rightarrow> int \<Rightarrow> int \<Rightarrow> (int \<Rightarrow> int \<Rightarrow> 32 word \<Rightarrow> 32 word option) \<Rightarrow> canvas \<Rightarrow> canvas option" where
  "draw_clipped x y w h pix cv = for_loop 0 (nat h) (draw_row x y w pix) cv"

definition draw_rect :: "canvas \<Rightarrow> int \<Rightarrow> int \<Rightarrow> int \<Rightarrow> int \<Rightarrow> 32 word \<Rightarrow> canvas option" where
  "draw_rect cv x y w h color = draw_clipped x y w h (\<lambda>cx cy old. Some color) cv"

text \<open>The pixel of an image of width \<open>w\<close>.\<close>

definition image_at :: "32 word list \<Rightarrow> int \<Rightarrow> int \<Rightarrow> int \<Rightarrow> 32 word option" where
  "image_at img w cx cy = (let i = nat (cy * w + cx) in if i < length img then Some (img ! i) else None)"

definition channel :: "nat \<Rightarrow> 32 word \<Rightarrow> 32 word" where
  "channel n p = drop_bit n p AND 0xFF"

definition pack_rgb :: "32 word \<Rightarrow> 32 word \<Rightarrow> 32 word \<Rightarrow> 32 word" where
  "pack_rgb r g b = push_bit 16 r OR push_bit 8 g OR b"

definition blend_image :: "32 word \<Rightarrow> 32 word \<Rightarrow> 32 word" where
  "blend_image cpx bg =
     (let alpha = channel 24 cpx in
      if alpha = 255 then cpx AND 0xFFFFFF
      else if alpha > 0
      then (let inv_alpha = 255 - alpha in
            pack_rgb ((channel 16 cpx * alpha + channel 16 bg * inv_alpha) div 255)
                     ((channel 8 cpx * alpha + channel 8 bg * inv_alpha) div 255)
                     ((channel 0 cpx * alpha + channel 0 bg * inv_alpha) div 255))
      else bg)"

definition draw_image :: "canvas \<Rightarrow> int \<Rightarrow> int \<Rightarrow> int \<Rightarrow> int \<Rightarrow> 32 word list \<Rightarrow> canvas option" where
  "draw_image cv x y img_w img_h img =
     draw_clipped x y img_w img_h
       (\<lambda>cx cy old. map_option (\<lambda>cpx. blend_image cpx old) (image_at img img_w cx cy)) cv"

text \<open>The cursor's picture is a generated table: its size and hot spot are fields of a record.\<close>

record cursor =
  cur_w :: int
  cur_h :: int
  cur_hot_x :: int
  cur_hot_y :: int
  cur_data :: "32 word list"

definition blend_cursor :: "32 word \<Rightarrow> 32 word \<Rightarrow> 32 word" where
  "blend_cursor cpx bg =
     (let alpha = channel 24 cpx in
      if alpha = 0 then bg
      else if alpha = 255 then pack_rgb (channel 16 cpx) (channel 8 cpx) (channel 0 cpx)
      else (let inv_alpha = 255 - alpha in
            pack_rgb ((channel 16 cpx * 255 + channel 16 bg * inv_alpha) div 255)
                     ((channel 8 cpx * 255 + channel 8 bg * inv_alpha) div 255)
                     ((channel 0 cpx * 255 + channel 0 bg * inv_alpha) div 255)))"

definition draw_cursor :: "cursor \<Rightarrow> canvas \<Rightarrow> int \<Rightarrow> int \<Rightarrow> canvas option" where
  "draw_cursor cur cv mx my =
     draw_clipped (mx - cur_hot_x cur) (my - cur_hot_y cur) (cur_w cur) (cur_h cur)
       (\<lambda>cx cy old. map_option (\<lambda>cpx. blend_cursor cpx old) (image_at (cur_data cur) (cur_w cur) cx cy)) cv"

section \<open>Lemmas\<close>

subsection \<open>The clipping loop\<close>

lemma for_loop_invariant:
  assumes "I i s"
    and "\<And>j s. i \<le> j \<Longrightarrow> j < i + int n \<Longrightarrow> I j s \<Longrightarrow> \<exists>s'. body j s = Some s' \<and> I (j + 1) s'"
  shows "\<exists>s'. for_loop i n body s = Some s' \<and> I (i + int n) s'"
  using assms
proof (induction n arbitrary: i s)
  case (Suc n)
  obtain s' where s': "body i s = Some s'" "I (i + 1) s'" using Suc.prems(2) [of i s] Suc.prems(1) by auto
  have "\<exists>t. for_loop (i + 1) n body s' = Some t \<and> I (i + 1 + int n) t"
    using Suc.IH [OF s'(2)] Suc.prems(2) by simp
  then show ?case using s' by (simp add: algebra_simps)
qed simp

text \<open>A frame buffer that covers the screen and whose pixel numbers fit 32 bits.\<close>

definition canvas_ok :: "canvas \<Rightarrow> bool" where
  "canvas_ok cv \<longleftrightarrow> 0 \<le> cv_w cv \<and> cv_w cv \<le> cv_stride cv \<and> 0 < cv_stride cv \<and> 0 \<le> cv_h cv
     \<and> is_c_int (cv_w cv) \<and> is_c_int (cv_h cv) \<and> cv_h cv * cv_stride cv \<le> 4294967296
     \<and> int (length (cv_px cv)) = cv_h cv * cv_stride cv"

definition rect_ok :: "int \<Rightarrow> int \<Rightarrow> int \<Rightarrow> int \<Rightarrow> bool" where
  "rect_ok x y w h \<longleftrightarrow> is_c_int x \<and> is_c_int y \<and> is_c_int (x + w) \<and> is_c_int (y + h)"

definition pix_total :: "(int \<Rightarrow> int \<Rightarrow> 32 word \<Rightarrow> 32 word option) \<Rightarrow> int \<Rightarrow> int \<Rightarrow> bool" where
  "pix_total pix w h \<longleftrightarrow>
     (\<forall>cx cy old. 0 \<le> cx \<longrightarrow> cx < w \<longrightarrow> 0 \<le> cy \<longrightarrow> cy < h \<longrightarrow> pix cx cy old \<noteq> None)"

text \<open>The canvas after the points of the set \<open>D\<close>, relative to the rectangle's corner, were drawn.\<close>

definition painted ::
  "int \<Rightarrow> int \<Rightarrow> (int \<Rightarrow> int \<Rightarrow> 32 word \<Rightarrow> 32 word option) \<Rightarrow> (int \<Rightarrow> int \<Rightarrow> bool) \<Rightarrow> canvas \<Rightarrow> canvas \<Rightarrow> bool" where
  "painted x y pix D cv0 cv \<longleftrightarrow>
     (\<exists>px. cv = cv0\<lparr>cv_px := px\<rparr> \<and> length px = length (cv_px cv0)
       \<and> (\<forall>i < length px.
            (let sx = int i mod cv_stride cv0; sy = int i div cv_stride cv0 in
             px ! i = (if sx < cv_w cv0 \<and> D (sx - x) (sy - y)
                       then the (pix (sx - x) (sy - y) (cv_px cv0 ! i)) else cv_px cv0 ! i))))"

lemma div_less_of_mult: "i < h * s \<Longrightarrow> 0 < s \<Longrightarrow> i div s < (h :: int)"
proof (rule ccontr)
  assume "i < h * s" "0 < s" "\<not> i div s < h"
  then have "h * s \<le> i div s * s" by (simp add: mult_right_mono)
  also have "\<dots> \<le> i" using \<open>0 < s\<close> pos_mod_sign [of s i] div_mult_mod_eq [of i s] by linarith
  finally show False using \<open>i < h * s\<close> by simp
qed

lemma painted_start: "(\<And>a b. \<not> D a b) \<Longrightarrow> painted x y pix D cv cv"
  unfolding painted_def by (intro exI [of _ "cv_px cv"]) (simp add: Let_def)

lemma painted_cong: "painted x y pix D cv0 cv \<Longrightarrow>
   (\<And>a b. 0 \<le> x + a \<Longrightarrow> x + a < cv_w cv0 \<Longrightarrow> 0 \<le> y + b \<Longrightarrow> y + b < cv_h cv0 \<Longrightarrow> D a b = D' a b) \<Longrightarrow>
   canvas_ok cv0 \<Longrightarrow> painted x y pix D' cv0 cv"
proof -
  assume p: "painted x y pix D cv0 cv" and ok: "canvas_ok cv0"
    and e: "\<And>a b. 0 \<le> x + a \<Longrightarrow> x + a < cv_w cv0 \<Longrightarrow> 0 \<le> y + b \<Longrightarrow> y + b < cv_h cv0 \<Longrightarrow> D a b = D' a b"
  have d: "D (int i mod cv_stride cv0 - x) (int i div cv_stride cv0 - y)
        = D' (int i mod cv_stride cv0 - x) (int i div cv_stride cv0 - y)"
    if i: "i < length (cv_px cv0)" "int i mod cv_stride cv0 < cv_w cv0" for i
  proof -
    have s: "0 < cv_stride cv0" using ok by (simp add: canvas_ok_def)
    have "int i < cv_h cv0 * cv_stride cv0" using ok i(1) by (simp add: canvas_ok_def)
    then have "int i div cv_stride cv0 < cv_h cv0" using s by (rule div_less_of_mult)
    then show ?thesis using s i(2) by (intro e) (simp_all add: pos_imp_zdiv_nonneg_iff)
  qed
  from p obtain px where px: "cv = cv0\<lparr>cv_px := px\<rparr>" "length px = length (cv_px cv0)"
    and v: "\<forall>i < length px. (let sx = int i mod cv_stride cv0; sy = int i div cv_stride cv0 in
             px ! i = (if sx < cv_w cv0 \<and> D (sx - x) (sy - y)
                       then the (pix (sx - x) (sy - y) (cv_px cv0 ! i)) else cv_px cv0 ! i))"
    unfolding painted_def by blast
  show ?thesis unfolding painted_def
    using px v d by (intro exI [of _ px]) (auto simp: Let_def)
qed

lemma painted_put:
  assumes "canvas_ok cv0" "painted x y pix D cv0 cv"
    and "0 \<le> x + a" "x + a < cv_w cv0" "0 \<le> y + b" "y + b < cv_h cv0"
    and "\<not> D a b" "\<And>old. pix a b old \<noteq> None"
  shows "\<exists>cv'. put_pixel cv (y + b) (x + a) (pix a b) = Some cv'
    \<and> painted x y pix (\<lambda>c d. D c d \<or> (c = a \<and> d = b)) cv0 cv'"
proof -
  let ?s = "cv_stride cv0"
  obtain px where px: "cv = cv0\<lparr>cv_px := px\<rparr>" "length px = length (cv_px cv0)"
    and v: "\<forall>i < length px. (let sx = int i mod ?s; sy = int i div ?s in
             px ! i = (if sx < cv_w cv0 \<and> D (sx - x) (sy - y)
                       then the (pix (sx - x) (sy - y) (cv_px cv0 ! i)) else cv_px cv0 ! i))"
    using assms(2) unfolding painted_def by blast
  have s: "0 < ?s" "x + a < ?s" using assms(1,4) by (auto simp: canvas_ok_def)
  define j where "j = nat ((y + b) * ?s + (x + a))"
  have nn: "0 \<le> (y + b) * ?s + (x + a)" using assms(3,5) s by simp
  have "(y + b + 1) * ?s \<le> cv_h cv0 * ?s" using assms(6) s by (intro mult_right_mono) auto
  then have lt: "(y + b) * ?s + (x + a) < int (length px)"
    using s(2) px(2) assms(1) by (simp add: canvas_ok_def algebra_simps)
  then have j: "j < length px" "int j = (y + b) * ?s + (x + a)" using nn by (auto simp: j_def)
  have idx: "nat (((y + b) * cv_stride cv + (x + a)) mod 4294967296) = j"
    using lt nn px assms(1) by (simp add: j_def cv_stride_def canvas_ok_def)
  have jd: "int j mod ?s = x + a" "int j div ?s = y + b" using j(2) assms(3) s by simp_all
  have jold: "px ! j = cv_px cv0 ! j" using v j(1) jd assms(7) by (simp add: Let_def)
  obtain p where p: "pix a b (px ! j) = Some p" using assms(8) by blast
  have put: "put_pixel cv (y + b) (x + a) (pix a b) = Some (cv0\<lparr>cv_px := px[j := p]\<rparr>)"
    unfolding put_pixel_def idx Let_def using j(1) px(1) p by simp
  have other: "\<not> (int i mod ?s - x = a \<and> int i div ?s - y = b)" if "i \<noteq> j" for i
  proof
    assume "int i mod ?s - x = a \<and> int i div ?s - y = b"
    then have "int i = (y + b) * ?s + (x + a)" using div_mult_mod_eq [of "int i" ?s] by (auto simp: algebra_simps)
    then show False using j(2) that by simp
  qed
  have "painted x y pix (\<lambda>c d. D c d \<or> (c = a \<and> d = b)) cv0 (cv0\<lparr>cv_px := px[j := p]\<rparr>)"
    unfolding painted_def
  proof (intro exI [of _ "px[j := p]"] conjI allI impI)
    fix i assume i: "i < length (px[j := p])"
    show "let sx = int i mod ?s; sy = int i div ?s in
          px[j := p] ! i = (if sx < cv_w cv0 \<and> (D (sx - x) (sy - y) \<or> (sx - x = a \<and> sy - y = b))
                 then the (pix (sx - x) (sy - y) (cv_px cv0 ! i)) else cv_px cv0 ! i)"
    proof (cases "i = j")
      case True
      then show ?thesis using i jd assms(4) p jold by (simp add: Let_def)
    next
      case False
      then show ?thesis using v i other [OF False] by (auto simp: Let_def)
    qed
  qed (use px in simp_all)
  then show ?thesis using put by blast
qed

lemma painted_same: "painted x y pix D cv0 cv \<Longrightarrow> cv_w cv = cv_w cv0 \<and> cv_h cv = cv_h cv0"
  by (auto simp: painted_def)

lemma draw_row_painted:
  assumes ok: "canvas_ok cv0" "rect_ok x y w h" "pix_total pix w h"
    and cy: "0 \<le> cy" "cy < h" and 0: "0 \<le> w"
    and p: "painted x y pix (\<lambda>a b. 0 \<le> a \<and> a < w \<and> 0 \<le> b \<and> b < cy) cv0 cv"
  shows "\<exists>cv'. draw_row x y w pix cy cv = Some cv'
    \<and> painted x y pix (\<lambda>a b. 0 \<le> a \<and> a < w \<and> 0 \<le> b \<and> b < cy + 1) cv0 cv'"
proof -
  have wy: "wrap_int (y + cy) = y + cy" using ok(2) cy by (intro wrap_int_id) (auto simp: rect_ok_def is_c_int_def)
  have wx: "wrap_int (x + j) = x + j" if "0 \<le> j" "j < w" for j
    using ok(2) that by (intro wrap_int_id) (auto simp: rect_ok_def is_c_int_def)
  have dims: "wrap_int (cv_w cv0) = cv_w cv0" "wrap_int (cv_h cv0) = cv_h cv0" using ok(1) by (auto simp: canvas_ok_def)
  have same: "cv_w cv = cv_w cv0" "cv_h cv = cv_h cv0" using painted_same [OF p] by auto
  show ?thesis
  proof (cases "y + cy < 0 \<or> y + cy \<ge> cv_h cv0")
    case True
    then have "painted x y pix (\<lambda>a b. 0 \<le> a \<and> a < w \<and> 0 \<le> b \<and> b < cy + 1) cv0 cv"
      by (intro painted_cong [OF p _ ok(1)]) auto
    then show ?thesis using True by (simp add: draw_row_def wy same dims)
  next
    case False
    let ?D = "\<lambda>j a b. (0 \<le> a \<and> a < w \<and> 0 \<le> b \<and> b < cy) \<or> (0 \<le> a \<and> a < j \<and> b = cy)"
    let ?body = "\<lambda>cx cv. let sx = wrap_int (x + cx) in
                if sx < 0 \<or> sx \<ge> wrap_int (cv_w cv) then Some cv
                else put_pixel cv (y + cy) sx (pix cx cy)"
    have "\<exists>cv'. for_loop 0 (nat w) ?body cv = Some cv' \<and> painted x y pix (?D (0 + int (nat w))) cv0 cv'"
    proof (rule for_loop_invariant [where I = "\<lambda>j. painted x y pix (?D j) cv0"])
      show "painted x y pix (?D 0) cv0 cv" by (rule painted_cong [OF p _ ok(1)]) auto
    next
      fix j s assume j: "0 \<le> j" "j < 0 + int (nat w)" and s: "painted x y pix (?D j) cv0 s"
      have jw: "j < w" using j 0 by simp
      show "\<exists>s'. ?body j s = Some s' \<and> painted x y pix (?D (j + 1)) cv0 s'"
      proof (cases "x + j < 0 \<or> x + j \<ge> cv_w cv0")
        case True
        then have "painted x y pix (?D (j + 1)) cv0 s" by (intro painted_cong [OF s _ ok(1)]) auto
        then show ?thesis using True painted_same [OF s] by (simp add: wx [OF j(1) jw] dims)
      next
        case on: False
        have "\<And>old. pix j cy old \<noteq> None" using ok(3) j(1) jw cy by (simp add: pix_total_def)
        then have "\<exists>s'. put_pixel s (y + cy) (x + j) (pix j cy) = Some s'
            \<and> painted x y pix (\<lambda>c d. ?D j c d \<or> (c = j \<and> d = cy)) cv0 s'"
          using on False by (intro painted_put [OF ok(1) s]) auto
        moreover have "(\<lambda>c d. ?D j c d \<or> (c = j \<and> d = cy)) = ?D (j + 1)" using j(1) by (auto intro!: ext)
        ultimately show ?thesis using on painted_same [OF s] by (auto simp: wx [OF j(1) jw] wy dims)
      qed
    qed
    moreover have "?D (0 + int (nat w)) = (\<lambda>a b. 0 \<le> a \<and> a < w \<and> 0 \<le> b \<and> b < cy + 1)"
      using cy 0 by (auto intro!: ext)
    ultimately show ?thesis using False by (simp add: draw_row_def wy same dims)
  qed
qed

lemma draw_clipped_painted:
  assumes "canvas_ok cv" "rect_ok x y w h" "pix_total pix w h" "0 \<le> w" "0 \<le> h"
  shows "\<exists>cv'. draw_clipped x y w h pix cv = Some cv'
    \<and> painted x y pix (\<lambda>a b. 0 \<le> a \<and> a < w \<and> 0 \<le> b \<and> b < h) cv cv'"
proof -
  let ?I = "\<lambda>j. painted x y pix (\<lambda>a b. 0 \<le> a \<and> a < w \<and> 0 \<le> b \<and> b < j) cv"
  have "\<exists>s'. for_loop 0 (nat h) (draw_row x y w pix) cv = Some s' \<and> ?I (0 + int (nat h)) s'"
  proof (rule for_loop_invariant [where I = ?I])
    show "?I 0 cv" by (rule painted_start) auto
  next
    fix j s assume "0 \<le> j" "j < 0 + int (nat h)" "?I j s"
    then show "\<exists>s'. draw_row x y w pix j s = Some s' \<and> ?I (j + 1) s'"
      by (intro draw_row_painted [OF assms(1-3)]) (use assms(4,5) in auto)
  qed
  then show ?thesis using assms(5) by (simp add: draw_clipped_def)
qed

subsection \<open>Colours\<close>

lemma uint_channel: "uint (channel n p) = (uint p div 2 ^ n) mod 256"
proof -
  have "channel n p = take_bit 8 (drop_bit n p)"
    unfolding channel_def by (simp add: take_bit_eq_mask mask_numeral)
  moreover have "take_bit 32 (uint p) = uint p"
    using uint_lt2p [of p] by (intro take_bit_int_eq_self) simp_all
  ultimately have "uint (channel n p) = take_bit 8 (drop_bit n (uint p))"
    by (simp add: unsigned_take_bit_eq unsigned_drop_bit_eq)
  then show ?thesis by (simp add: take_bit_eq_mod drop_bit_eq_div)
qed

lemma uint_pack_rgb:
  assumes "uint r < 256" "uint g < 256" "uint b < 256"
  shows "uint (pack_rgb r g b) = uint r * 65536 + uint g * 256 + uint b"
proof -
  have b: "r = take_bit 8 r" "g = take_bit 8 g" "b = take_bit 8 b"
    using assms by (simp_all add: word_uint_eq_iff unsigned_take_bit_eq take_bit_int_eq_self)
  have nz: "\<not> bit r n" "\<not> bit g n" "\<not> bit b n" if "8 \<le> n" for n
    using that b by (metis bit_take_bit_iff not_less)+
  have "push_bit 8 g OR b = push_bit 8 g + b"
    by (rule disjunctive_add [symmetric]) (auto simp: bit_push_bit_iff dest: nz)
  moreover have "push_bit 16 r OR (push_bit 8 g OR b) = push_bit 16 r + (push_bit 8 g OR b)"
  proof (rule disjunctive_add [symmetric])
    fix n
    have "\<not> bit g (n - 8) \<and> \<not> bit b n" if "16 \<le> n" using that by (auto intro!: nz)
    then show "\<not> bit (push_bit 16 r) n \<or> \<not> bit (push_bit 8 g OR b) n" by (auto simp: bit_push_bit_iff bit_or_iff)
  qed
  ultimately have "pack_rgb r g b = push_bit 16 r + push_bit 8 g + b" by (simp add: pack_rgb_def or.assoc add.assoc)
  then have "pack_rgb r g b = r * 65536 + g * 256 + b" by (simp add: push_bit_eq_mult)
  then show ?thesis using assms by (simp add: uint_word_ariths)
qed

lemma channel_less: "uint (channel n p) < 256" "0 \<le> uint (channel n p)"
  by (simp_all add: uint_channel)

lemma uint_mix:
  assumes "uint r < 256" "uint a < 256" "uint b < 256" "uint i < 256"
  shows "uint ((r * a + b * i) div (255 :: 32 word)) = (uint r * uint a + uint b * uint i) div 255"
proof -
  have m: "uint r * uint a \<le> 255 * 255" "uint b * uint i \<le> 255 * 255"
    using assms by (intro mult_mono; simp)+
  have nn: "0 \<le> uint r * uint a" "0 \<le> uint b * uint i" by simp_all
  have "uint (r * a) = uint r * uint a" "uint (b * i) = uint b * uint i"
    using m nn by (simp_all add: uint_word_ariths)
  then have "uint (r * a + b * i) = uint r * uint a + uint b * uint i"
    using m nn by (simp add: uint_word_ariths)
  then show ?thesis by (simp add: uint_div)
qed

lemma uint_inverse: "uint a < 256 \<Longrightarrow> uint (255 - a :: 32 word) = 255 - uint a"
proof -
  assume "uint a < 256"
  moreover have "0 \<le> uint a" by simp
  ultimately have "0 \<le> 255 - uint a" "255 - uint a < 4294967296" by linarith+
  then have "(255 - uint a) mod 4294967296 = 255 - uint a" by (rule mod_pos_pos_trivial)
  then show ?thesis by (simp add: uint_word_ariths)
qed

lemma mix_less:
  fixes c a b :: int
  assumes "0 \<le> c" "c < 256" "0 \<le> a" "a < 256" "0 \<le> b" "b < 256"
  shows "(c * a + b * (255 - a)) div 255 < 256"
proof -
  have "c * a \<le> 255 * a" "b * (255 - a) \<le> 255 * (255 - a)" using assms by (intro mult_right_mono; simp)+
  then have "c * a + b * (255 - a) \<le> 255 * 255" by simp
  then have "(c * a + b * (255 - a)) div 255 \<le> (255 * 255) div 255" by (rule zdiv_mono1) simp
  then show ?thesis by simp
qed

lemma byte_split: "0 \<le> b \<Longrightarrow> b < 256 \<Longrightarrow> (a * 256 + b) div 256 = a \<and> (a * 256 + b) mod 256 = (b :: int)"
  by simp

lemma channel_pack_rgb:
  assumes "uint r < 256" "uint g < 256" "uint b < 256"
  shows "uint (channel 16 (pack_rgb r g b)) = uint r" "uint (channel 8 (pack_rgb r g b)) = uint g"
    "uint (channel 0 (pack_rgb r g b)) = uint b"
proof -
  let ?p = "(uint r * 256 + uint g) * 256 + uint b"
  have p: "uint (pack_rgb r g b) = ?p" unfolding uint_pack_rgb [OF assms] by simp
  have d: "?p div 256 = uint r * 256 + uint g" "?p mod 256 = uint b" using byte_split [of "uint b" "uint r * 256 + uint g"] assms(3) by simp_all
  have e: "(uint r * 256 + uint g) div 256 = uint r" "(uint r * 256 + uint g) mod 256 = uint g"
    using byte_split [of "uint g" "uint r"] assms(2) by simp_all
  have "?p div 65536 = ?p div 256 div 256" by (simp add: zdiv_zmult2_eq [symmetric])
  then show "uint (channel 16 (pack_rgb r g b)) = uint r"
    unfolding uint_channel p using d(1) e(1) assms(1) by simp
  show "uint (channel 8 (pack_rgb r g b)) = uint g" unfolding uint_channel p using d(1) e(2) by simp
  show "uint (channel 0 (pack_rgb r g b)) = uint b" unfolding uint_channel p using d(2) by simp
qed

lemma channel_mask24: "n \<in> {0, 8, 16} \<Longrightarrow> channel n (p AND 0xFFFFFF) = channel n p"
proof -
  assume n: "n \<in> {0, 8, 16}"
  have c: "channel n q = take_bit 8 (drop_bit n q)" for q
    unfolding channel_def by (simp add: take_bit_eq_mask mask_numeral)
  have "p AND 0xFFFFFF = take_bit 24 p" by (simp add: take_bit_eq_mask mask_numeral)
  then show ?thesis using n by (auto simp: c drop_bit_take_bit)
qed

lemma blend_image_channels:
  assumes "n \<in> {16, 8, 0}"
  shows "uint (channel n (blend_image cpx bg)) =
    (uint (channel n cpx) * uint (channel 24 cpx) + uint (channel n bg) * (255 - uint (channel 24 cpx))) div 255"
proof -
  define a where "a = channel 24 cpx"
  have a: "uint a < 256" unfolding a_def by (rule channel_less)
  consider "a = 255" | "a = 0" | "a \<noteq> 255" "a > 0" using word_gt_0 by blast
  then show ?thesis
  proof cases
    case 1
    then show ?thesis using assms channel_mask24 [of n cpx] by (auto simp: blend_image_def a_def [symmetric])
  next
    case 2
    then show ?thesis by (simp add: blend_image_def a_def [symmetric])
  next
    case 3
    let ?mix = "\<lambda>n. (channel n cpx * a + channel n bg * (255 - a)) div 255"
    have inv: "uint (255 - a) = 255 - uint a" by (rule uint_inverse [OF a])
    have "0 \<le> uint a" by simp
    then have il: "uint (255 - a) < 256" unfolding inv by linarith
    have mix: "uint (?mix n) = (uint (channel n cpx) * uint a + uint (channel n bg) * (255 - uint a)) div 255" for n
      using uint_mix [OF channel_less(1) a channel_less(1) il, of n cpx n bg] unfolding inv .
    have lt: "uint (?mix n) < 256" for n
      unfolding mix using channel_less a by (intro mix_less) simp_all
    have b: "blend_image cpx bg = pack_rgb (?mix 16) (?mix 8) (?mix 0)"
      unfolding blend_image_def Let_def a_def [symmetric] using 3 by simp
    have "uint (channel n (blend_image cpx bg)) = uint (?mix n)"
      using assms unfolding b by (auto simp: channel_pack_rgb [OF lt lt lt])
    then show ?thesis unfolding mix a_def [symmetric] .
  qed
qed

lemma draw_clipped_pixels:
  assumes "canvas_ok cv" "rect_ok x y w h" "pix_total pix w h" "0 \<le> w" "0 \<le> h"
  shows "\<exists>px. draw_clipped x y w h pix cv = Some (cv\<lparr>cv_px := px\<rparr>) \<and> length px = length (cv_px cv)
    \<and> (\<forall>i < length px. px ! i =
      (if int i mod cv_stride cv < cv_w cv \<and> x \<le> int i mod cv_stride cv \<and> int i mod cv_stride cv < x + w
          \<and> y \<le> int i div cv_stride cv \<and> int i div cv_stride cv < y + h
       then the (pix (int i mod cv_stride cv - x) (int i div cv_stride cv - y) (cv_px cv ! i)) else cv_px cv ! i))"
proof -
  have e: "(0 \<le> a - x \<and> a - x < w \<and> 0 \<le> b - y \<and> b - y < h) = (x \<le> a \<and> a < x + w \<and> y \<le> b \<and> b < y + h)" for a b
    by auto
  obtain cv' where "draw_clipped x y w h pix cv = Some cv'"
    "painted x y pix (\<lambda>a b. 0 \<le> a \<and> a < w \<and> 0 \<le> b \<and> b < h) cv cv'"
    using draw_clipped_painted [OF assms] by blast
  then show ?thesis unfolding painted_def Let_def e by blast
qed

lemma image_at_in:
  assumes "int (length img) = w * h" "0 \<le> a" "a < w" "0 \<le> b" "b < h"
  shows "image_at img w a b = Some (img ! nat (b * w + a))"
proof -
  have "b * w + a < (b + 1) * w" using assms by (simp add: algebra_simps)
  also have "\<dots> \<le> h * w" using assms by (intro mult_right_mono) auto
  finally have "b * w + a < int (length img)" using assms(1) by (simp add: mult.commute)
  moreover have "0 \<le> b * w" using assms by simp
  ultimately show ?thesis using assms by (simp add: image_at_def Let_def nat_less_iff)
qed

lemma image_total:
  "int (length img) = w * h \<Longrightarrow> pix_total (\<lambda>cx cy old. map_option (\<lambda>p. f p old) (image_at img w cx cy)) w h"
  by (simp add: pix_total_def image_at_in)

section \<open>Properties\<close>

text \<open>
  C12 (draw_rect_exact). Drawing a rectangle gives its colour to exactly the screen pixels inside
  it, wherever it lies and however far it reaches past the screen, changes no other cell of the frame
  buffer, the unseen end of each row included, and never writes outside it.
\<close>

theorem draw_rect_exact:
  assumes "canvas_ok cv" "rect_ok x y w h" "0 \<le> w" "0 \<le> h"
  shows "\<exists>px. draw_rect cv x y w h color = Some (cv\<lparr>cv_px := px\<rparr>) \<and> length px = length (cv_px cv)
    \<and> (\<forall>i < length px. px ! i =
         (let sx = int i mod cv_stride cv; sy = int i div cv_stride cv in
          if sx < cv_w cv \<and> x \<le> sx \<and> sx < x + w \<and> y \<le> sy \<and> sy < y + h then color else cv_px cv ! i))"
proof -
  have "pix_total (\<lambda>cx cy old. Some color) w h" by (simp add: pix_total_def)
  from draw_clipped_pixels [OF assms(1,2) this assms(3,4)]
  show ?thesis unfolding draw_rect_def Let_def option.sel .
qed

definition small_canvas :: canvas where
  "small_canvas = \<lparr>cv_w = 3, cv_h = 2, cv_pitch = 16, cv_px = [1, 2, 3, 0, 4, 5, 6, 0]\<rparr>"

theorem draw_rect_exact_witness:
  "draw_rect small_canvas (-1) 1 3 9 7 = Some (small_canvas\<lparr>cv_px := [1, 2, 3, 0, 7, 7, 6, 0]\<rparr>)"
proof -
  let ?px = "[1, 2, 3, 0, 7, 7, 6, 0] :: 32 word list"
  have ok: "canvas_ok small_canvas" by (simp add: canvas_ok_def small_canvas_def cv_stride_def is_c_int_def INT_MIN_def INT_MAX_def)
  have "rect_ok (-1) 1 3 9" by (simp add: rect_ok_def is_c_int_def INT_MIN_def INT_MAX_def)
  from draw_rect_exact [OF ok this, of 7] obtain px where
    px: "draw_rect small_canvas (-1) 1 3 9 7 = Some (small_canvas\<lparr>cv_px := px\<rparr>)" "length px = length (cv_px small_canvas)"
      "\<forall>i < length px. px ! i =
         (let sx = int i mod cv_stride small_canvas; sy = int i div cv_stride small_canvas in
          if sx < cv_w small_canvas \<and> -1 \<le> sx \<and> sx < -1 + 3 \<and> 1 \<le> sy \<and> sy < 1 + 9 then 7 else cv_px small_canvas ! i)"
    by (auto simp: Let_def)
  have "px = ?px"
  proof (rule nth_equalityI)
    show l: "length px = length ?px" using px(2) by (simp add: small_canvas_def)
    fix i assume "i < length px"
    then have "i \<in> {0, 1, 2, 3, 4, 5, 6, 7}" using l by auto
    then show "px ! i = ?px ! i" using px(3) l by (auto simp: Let_def small_canvas_def cv_stride_def)
  qed
  then show ?thesis using px(1) by simp
qed

text \<open>
  C32 (draw_image_exact). Drawing an image blends each of its pixels once into the screen pixel under
  it, and touches nothing else; each colour channel becomes the average of image and background
  weighted by the image's opacity, rounded down.
\<close>

theorem draw_image_exact:
  assumes "canvas_ok cv" "rect_ok x y w h" "0 \<le> w" "0 \<le> h" "int (length img) = w * h"
  shows "\<exists>px. draw_image cv x y w h img = Some (cv\<lparr>cv_px := px\<rparr>) \<and> length px = length (cv_px cv)
    \<and> (\<forall>i < length px.
         (let sx = int i mod cv_stride cv; sy = int i div cv_stride cv; old = cv_px cv ! i;
              cpx = img ! nat ((sy - y) * w + (sx - x)); a = uint (channel 24 cpx) in
          if sx < cv_w cv \<and> x \<le> sx \<and> sx < x + w \<and> y \<le> sy \<and> sy < y + h
          then list_all (\<lambda>n. uint (channel n (px ! i)) =
                 (uint (channel n cpx) * a + uint (channel n old) * (255 - a)) div 255) [16, 8, 0]
          else px ! i = old))"
proof -
  let ?pix = "\<lambda>cx cy old. map_option (\<lambda>cpx. blend_image cpx old) (image_at img w cx cy)"
  note at = image_at_in [OF assms(5)]
  have "pix_total ?pix w h" using assms(5) by (rule image_total)
  from draw_clipped_pixels [OF assms(1,2) this assms(3,4)] obtain px where
    px: "draw_image cv x y w h img = Some (cv\<lparr>cv_px := px\<rparr>)" "length px = length (cv_px cv)" and
    v: "\<forall>i < length px. px ! i =
      (if int i mod cv_stride cv < cv_w cv \<and> x \<le> int i mod cv_stride cv \<and> int i mod cv_stride cv < x + w
          \<and> y \<le> int i div cv_stride cv \<and> int i div cv_stride cv < y + h
       then the (?pix (int i mod cv_stride cv - x) (int i div cv_stride cv - y) (cv_px cv ! i)) else cv_px cv ! i)"
    unfolding draw_image_def by blast
  show ?thesis
  proof (intro exI [of _ px] conjI allI impI)
    fix i assume i: "i < length px"
    let ?sx = "int i mod cv_stride cv" let ?sy = "int i div cv_stride cv"
    show "let sx = ?sx; sy = ?sy; old = cv_px cv ! i;
              cpx = img ! nat ((sy - y) * w + (sx - x)); a = uint (channel 24 cpx) in
          if sx < cv_w cv \<and> x \<le> sx \<and> sx < x + w \<and> y \<le> sy \<and> sy < y + h
          then list_all (\<lambda>n. uint (channel n (px ! i)) =
                 (uint (channel n cpx) * a + uint (channel n old) * (255 - a)) div 255) [16, 8, 0]
          else px ! i = old"
      using v [rule_format, OF i] at [of "?sx - x" "?sy - y"] by (auto simp: Let_def blend_image_channels)
  qed (use px in auto)
qed

theorem draw_image_exact_witness:
  "\<exists>px. draw_image small_canvas 2 0 2 1 [0x80C86400, 0xFF000000] = Some (small_canvas\<lparr>cv_px := px\<rparr>)
     \<and> uint (channel 16 (px ! 2)) = 100 \<and> uint (channel 0 (px ! 2)) = 1 \<and> px ! 3 = 0"
proof -
  have ok: "canvas_ok small_canvas"
    by (simp add: canvas_ok_def small_canvas_def cv_stride_def is_c_int_def INT_MIN_def INT_MAX_def)
  have r: "rect_ok 2 0 2 1" by (simp add: rect_ok_def is_c_int_def INT_MIN_def INT_MAX_def)
  have c: "cv_stride small_canvas = 4" "cv_w small_canvas = 3" "length (cv_px small_canvas) = 8"
    "cv_px small_canvas ! 2 = 3" "cv_px small_canvas ! 3 = 0"
    by (simp_all add: small_canvas_def cv_stride_def)
  obtain px where
    d: "draw_image small_canvas 2 0 2 1 [0x80C86400, 0xFF000000] = Some (small_canvas\<lparr>cv_px := px\<rparr>)" and
    l: "length px = length (cv_px small_canvas)" and
    v: "\<forall>i < length px.
         (let sx = int i mod cv_stride small_canvas; sy = int i div cv_stride small_canvas; old = cv_px small_canvas ! i;
              cpx = [0x80C86400, 0xFF000000] ! nat ((sy - 0) * 2 + (sx - 2)); a = uint (channel 24 cpx) in
          if sx < cv_w small_canvas \<and> 2 \<le> sx \<and> sx < 2 + 2 \<and> 0 \<le> sy \<and> sy < 0 + 1
          then list_all (\<lambda>n. uint (channel n (px ! i)) =
                 (uint (channel n cpx) * a + uint (channel n old) * (255 - a)) div 255) [16, 8, 0]
          else px ! i = old)"
    using draw_image_exact [OF ok r, of "[0x80C86400, 0xFF000000]"] by auto
  have "uint (channel 16 (px ! 2)) = 100 \<and> uint (channel 0 (px ! 2)) = 1"
    using v [rule_format, of 2] l by (simp add: c Let_def uint_channel)
  moreover have "px ! 3 = 0" using v [rule_format, of 3] l by (simp add: c Let_def)
  ultimately show ?thesis using d by blast
qed

end
