(* ===== verification/Screen.thy ===== *)
theory Screen
  imports MainLoop
begin

text \<open>
  The rescue screen's own state over whole runs: the pointer stays on the screen, the indices of the
  keyboard's focus stay in their lists, and the dialogues exclude each other but for two pairs.
\<close>

section \<open>Invariant\<close>

text \<open>
  Of task manager, run dialogue, password change, session list, terminal and power menu at most one is
  open, but for two pairs: the terminal over the run dialogue and the task manager over the power
  menu. The prompt for root's password, which lies over the window it was opened from, is not among
  them.
\<close>

definition dialogs_ok :: "dialogs \<Rightarrow> bool" where
  "dialogs_ok d \<longleftrightarrow>
     \<not> (show_task_manager d \<and> (show_run d \<or> show_change_password d \<or> show_switch_user d))
     \<and> \<not> (show_run d \<and> (show_change_password d \<or> show_switch_user d))
     \<and> \<not> (show_change_password d \<and> show_switch_user d)
     \<and> (show_terminal d \<longrightarrow> \<not> show_task_manager d \<and> \<not> show_change_password d \<and> \<not> show_switch_user d)
     \<and> (show_power_menu d \<longrightarrow> \<not> show_run d \<and> \<not> show_change_password d \<and> \<not> show_switch_user d \<and> \<not> show_terminal d)"

definition screen_ok :: "int \<Rightarrow> int \<Rightarrow> gui \<Rightarrow> bool" where
  "screen_ok w h g \<longleftrightarrow> mouse_ok w h (g_mouse g) \<and> nav_ok (length (sessions g)) (g_nav g) \<and> dialogs_ok (g_dlg g)
     \<and> 0 \<le> click_cooldown g \<and> click_cooldown g \<le> 3"

abbreviation on_screen :: "int \<Rightarrow> int \<Rightarrow> frame_env \<Rightarrow> bool" where
  "on_screen w h fe \<equiv> ly_w (fe_layout fe) = w \<and> ly_h (fe_layout fe) = h"

lemma screen_ok_same:
  "screen_ok w h g \<Longrightarrow> g_mouse g' = g_mouse g \<Longrightarrow> g_nav g' = g_nav g \<Longrightarrow> sessions g' = sessions g
    \<Longrightarrow> g_dlg g' = g_dlg g \<Longrightarrow> click_cooldown g' = click_cooldown g \<Longrightarrow> screen_ok w h g'"
  by (simp add: screen_ok_def)

lemma screen_ok_updates [simp]:
  "screen_ok w h (g\<lparr>running := a\<rparr>) = screen_ok w h g" "screen_ok w h (g\<lparr>g_priv := b\<rparr>) = screen_ok w h g"
  "screen_ok w h (g\<lparr>trigger_action := c\<rparr>) = screen_ok w h g" "screen_ok w h (g\<lparr>keyboard_active := a\<rparr>) = screen_ok w h g"
  "screen_ok w h (g\<lparr>g_tm := e\<rparr>) = screen_ok w h g" "screen_ok w h (g\<lparr>g_log := d\<rparr>) = screen_ok w h g"
  "screen_ok w h (g\<lparr>term_pty := f\<rparr>) = screen_ok w h g" "screen_ok w h (g\<lparr>terminal_mode := c\<rparr>) = screen_ok w h g"
  "screen_ok w h (g\<lparr>command_buffer := i\<rparr>) = screen_ok w h g" "screen_ok w h (g\<lparr>root_pwd_buffer := i\<rparr>) = screen_ok w h g"
  "screen_ok w h (g\<lparr>pwd_enter_pressed := a\<rparr>) = screen_ok w h g" "screen_ok w h (g\<lparr>cp_enter_pressed := a\<rparr>) = screen_ok w h g"
  "screen_ok w h (g\<lparr>root_auth_msg := j\<rparr>) = screen_ok w h g" "screen_ok w h (g\<lparr>g_shift := a\<rparr>) = screen_ok w h g"
  "screen_ok w h (g\<lparr>g_ctrl := a\<rparr>) = screen_ok w h g" "screen_ok w h (g\<lparr>pwd_msg := j\<rparr>) = screen_ok w h g"
  "screen_ok w h (g\<lparr>show_passwords := a\<rparr>) = screen_ok w h g" "screen_ok w h (g\<lparr>original_vt := c\<rparr>) = screen_ok w h g"
  "screen_ok w h (g\<lparr>search_edit := i\<rparr>) = screen_ok w h g" "screen_ok w h (g\<lparr>frame_count := n\<rparr>) = screen_ok w h g"
  "screen_ok w h (g\<lparr>old_pwd_buffer := i\<rparr>) = screen_ok w h g" "screen_ok w h (g\<lparr>new_pwd_buffer := i\<rparr>) = screen_ok w h g"
  "screen_ok w h (g\<lparr>confirm_pwd_buffer := i\<rparr>) = screen_ok w h g" "screen_ok w h (g\<lparr>run_cmd := j\<rparr>) = screen_ok w h g"
  "screen_ok w h (g\<lparr>run_command_ready := a\<rparr>) = screen_ok w h g"
  by (simp_all add: screen_ok_def)

lemma screen_ok_nav [simp]:
  assumes "screen_ok w h g"
  shows "screen_ok w h (g\<lparr>g_nav := (g_nav g)\<lparr>pwd_focus_idx := 0\<rparr>\<rparr>)"
    "screen_ok w h (g\<lparr>g_nav := (g_nav g)\<lparr>pm_selected_idx := 0\<rparr>\<rparr>)"
    "0 \<le> n \<Longrightarrow> n < 6 \<Longrightarrow> screen_ok w h (g\<lparr>g_nav := (g_nav g)\<lparr>cp_focus_idx := n\<rparr>\<rparr>)"
    "0 \<le> r \<Longrightarrow> screen_ok w h (g\<lparr>g_nav := (g_nav g)\<lparr>tm_selected_row := r\<rparr>\<rparr>)"
  using assms by (simp_all add: screen_ok_def nav_ok_def)

lemma screen_ok_hide [simp]:
  assumes "screen_ok w h g"
  shows "screen_ok w h (g\<lparr>g_dlg := (g_dlg g)\<lparr>show_terminal := False\<rparr>\<rparr>)"
    "screen_ok w h (g\<lparr>g_dlg := (g_dlg g)\<lparr>show_run := False\<rparr>\<rparr>)"
    "screen_ok w h (g\<lparr>g_dlg := (g_dlg g)\<lparr>show_task_manager := False\<rparr>\<rparr>)"
    "screen_ok w h (g\<lparr>g_dlg := (g_dlg g)\<lparr>show_change_password := False\<rparr>\<rparr>)"
    "screen_ok w h (g\<lparr>g_dlg := (g_dlg g)\<lparr>show_switch_user := False\<rparr>\<rparr>)"
    "screen_ok w h (g\<lparr>g_dlg := (g_dlg g)\<lparr>show_power_menu := False\<rparr>\<rparr>)"
    "screen_ok w h (g\<lparr>g_dlg := (g_dlg g)\<lparr>show_password_prompt := p\<rparr>\<rparr>)"
  using assms by (auto simp: screen_ok_def dialogs_ok_def)

lemma screen_ok_emit [simp]: "screen_ok w h (emit e g) = screen_ok w h g"
  by (simp add: emit_def)

lemma screen_ok_pty [simp]:
  "screen_ok w h (close_current_pty g) = screen_ok w h g" "screen_ok w h (launch_terminal_shell fe m g) = screen_ok w h g"
  by (simp_all add: close_current_pty_def launch_terminal_shell_def Let_def split: option.splits)

lemma screen_ok_close [simp]:
  assumes "screen_ok w h g"
  shows "screen_ok w h (close_prompt g)" "screen_ok w h (run_close g)" "screen_ok w h (cp_close g)"
    "screen_ok w h (su_close g)" "screen_ok w h (pm_close g)" "screen_ok w h (tm_close g)"
  using assms by (simp_all add: close_defs)

lemma screen_ok_open [simp]: "screen_ok w h g \<Longrightarrow> screen_ok w h (open_prompt n g)"
  by (simp add: open_prompt_def) (simp add: screen_ok_def nav_ok_def dialogs_ok_def)

lemma screen_ok_misc [simp]: "screen_ok w h (scan_tm fe g) = screen_ok w h g" "screen_ok w h (consume g) = screen_ok w h g"
  by (simp_all add: scan_tm_def consume_def)

subsection \<open>The parts of a frame\<close>

text \<open>The menu acts only when no dialogue is open; whatever several of its entries do in a row, one is open after it.\<close>

definition menu_free :: "int \<Rightarrow> int \<Rightarrow> gui \<Rightarrow> bool" where
  "menu_free w h g \<longleftrightarrow> screen_ok w h g \<and> \<not> show_terminal (g_dlg g)"

lemma menu_free_steps:
  assumes "menu_free w h g"
  shows "menu_free w h (menu_lock fe g)" "menu_free w h (menu_switch_user fe g)" "menu_free w h (menu_sign_out fe g)"
    "menu_free w h (menu_change_password fe g)" "menu_free w h (menu_task_manager fe g)"
    "menu_free w h (menu_run_command fe g)" "menu_free w h (menu_cancel fe g)"
  using assms
  by (auto simp: menu_free_def menu_defs Let_def screen_ok_def nav_ok_def dialogs_ok_def split: prod.splits)

lemma screen_ok_menu [simp]:
  assumes "screen_ok w h g"
  shows "screen_ok w h (main_menu fe g)"
proof (cases "show_terminal (g_dlg g)")
  case False
  then have "menu_free w h g" "menu_free w h (g\<lparr>trigger_action := -1\<rparr>)" using assms by (simp_all add: menu_free_def)
  then have "menu_free w h (main_menu fe g)" by (rule main_menu_keeps) (rule menu_free_steps, assumption)+
  then show ?thesis by (simp add: menu_free_def)
qed (simp add: main_menu_def assms)

lemma screen_ok_terminal [simp]: "screen_ok w h g \<Longrightarrow> screen_ok w h (terminal_window fe g)"
  by (rule terminal_window_keeps) (simp_all add: term_root_def term_close_def term_switch_def Let_def)

lemma screen_ok_run [simp]: "screen_ok w h g \<Longrightarrow> screen_ok w h (run_window fe sn g)"
  by (rule run_window_keeps) (simp_all add: run_go_def run_root_def)

lemma screen_ok_grant [simp]: "screen_ok w h g \<Longrightarrow> screen_ok w h (grant_root fe g)"
  unfolding grant_root_def Let_def by simp (simp add: screen_ok_def dialogs_ok_def)

lemma screen_ok_password [simp]: "screen_ok w h g \<Longrightarrow> screen_ok w h (password_window fe g)"
proof (rule password_window_keeps)
  show "screen_ok w h (pwd_field fe g)" if "screen_ok w h g" for g
    using that by (simp add: pwd_field_def Let_def screen_ok_def nav_ok_def)
qed (simp_all add: pwd_submit_def Let_def)

lemma screen_ok_cp_focus [simp]: "screen_ok w h g \<Longrightarrow> 0 \<le> n \<Longrightarrow> n < 6 \<Longrightarrow> screen_ok w h (cp_focus r n g)"
  by (simp add: cp_focus_def)

lemma screen_ok_change [simp]: "screen_ok w h g \<Longrightarrow> screen_ok w h (change_password_window fe sn g)"
proof (rule change_password_window_keeps)
  have s: "screen_ok w h (g\<lparr>show_passwords := b, g_nav := (g_nav g)\<lparr>cp_focus_idx := 3\<rparr>\<rparr>)" if "screen_ok w h g" for g b
    using that by (simp add: screen_ok_def nav_ok_def)
  show "screen_ok w h (fst (cp_fields fe g))" if "screen_ok w h g" for g using that by (simp add: cp_fields_def Let_def s)
qed (simp_all add: cp_apply_def Let_def split: prod.splits)

lemma screen_ok_switch [simp]: "screen_ok w h g \<Longrightarrow> screen_ok w h (switch_user_window fe sn g)"
  by (rule switch_user_window_keeps) (simp_all add: su_session_def su_new_def)

lemma screen_ok_power [simp]: "screen_ok w h g \<Longrightarrow> screen_ok w h (power_window fe g)"
  by (rule power_window_keeps) auto

lemma screen_ok_key [simp]: "screen_ok w h g \<Longrightarrow> screen_ok w h (key_event fe md g ev)"
proof (rule key_event_cases; (rule key_down_cases)?)
  fix f assume "screen_ok w h g" "\<And>v. nav_ok (length (sessions g)) v \<Longrightarrow> nav_ok (length (sessions g)) (f v)"
  then show "screen_ok w h (set_nav f g)" by (simp add: set_nav_def) (simp add: screen_ok_def)
qed (simp_all add: key_escape_def key_prompt_enter_def key_cp_enter_def key_enter_def key_power_enter_def Let_def)

lemma screen_ok_tasks [simp]: "clicks_ok fe g \<Longrightarrow> screen_ok w h g \<Longrightarrow> screen_ok w h (task_manager_window fe g)"
proof (rule task_manager_window_keeps)
  show "screen_ok w h (tm_row fe g i)" if "screen_ok w h g" for g i
    using that
    by (rule tm_row_keeps) (simp_all add: row_kill_def row_terminate_def row_pause_def row_label_def Let_def)
qed (simp_all add: tm_root_def tm_tab_def tm_search_field_def clamp_row_def Let_def)

lemma screen_ok_mouse:
  assumes "on_screen w h fe" "screen_ok w h g"
  shows "screen_ok w h (frame_mouse fe md g)"
proof -
  let ?m = "read_mouse w h (fe_mouse fe) (g_mouse g)"
  obtain m kb cd where f: "filter_clicks (?m, keyboard_active g, click_cooldown g) = (m, kb, cd)" by (metis prod_cases3)
  obtain act pm where b: "manual_buttons (fe_layout fe) md m (show_power_menu (g_dlg g)) = (act, pm)" by (metis prod.exhaust)
  have "mouse_ok w h m"
    using filter_clicks_ok [of w h ?m "keyboard_active g" "click_cooldown g"] read_mouse_ok [of w h "g_mouse g"] assms(2) f
    by (simp add: screen_ok_def)
  moreover have "0 \<le> cd \<and> cd \<le> 3" using assms(2) f by (auto simp: filter_clicks_def screen_ok_def Let_def split: if_splits)
  moreover have "pm \<longrightarrow> show_power_menu (g_dlg g)" using b by (auto simp: manual_buttons_def split: if_splits)
  ultimately show ?thesis using assms f b by (auto simp: frame_mouse_def Let_def screen_ok_def dialogs_ok_def)
qed

lemma screen_ok_action: "screen_ok w h g \<Longrightarrow> screen_ok w h (action_terminal fe g)"
proof -
  assume a: "screen_ok w h g"
  define d where "d b = (g_dlg g)\<lparr>show_terminal := b, show_task_manager := False, show_change_password := False,
                        show_switch_user := False, show_power_menu := False\<rparr>" for b
  have s: "screen_ok w h (g\<lparr>g_dlg := d b\<rparr>)" for b using a by (auto simp: screen_ok_def dialogs_ok_def d_def)
  then have "screen_ok w h (launch_terminal_shell fe m (g\<lparr>g_dlg := d b\<rparr>))" for m b by simp
  then show ?thesis using a s unfolding action_terminal_def Let_def d_def [symmetric] by auto
qed

interpretation screen: frame_invariant "on_screen w h" "screen_ok w h" for w h
proof unfold_locales
  fix g sn'
  show "screen_ok w h g \<Longrightarrow> screen_ok w h (action_power g)"
    by (auto simp: action_power_def Let_def screen_ok_def dialogs_ok_def nav_ok_def)
  fix fe show "screen_ok w h g \<Longrightarrow> screen_ok w h (pty_dispatch fe g)"
    by (auto simp: pty_dispatch_def screen_ok_def dialogs_ok_def)
  show "screen_ok w h g \<Longrightarrow> screen_ok w h (arm_cooldown sn' g)"
    by (simp add: arm_cooldown_def screen_ok_def mouse_ok_def)
qed (simp_all add: screen_ok_mouse screen_ok_action frame_begin_def clear_passwords_def Let_def)

lemma start_screen_ok: "0 < w \<Longrightarrow> 0 < h \<Longrightarrow> screen_ok w h (gui_start tm vt w h)"
  by (auto simp: gui_start_def screen_ok_def mouse_ok_def nav_ok_def dialogs_ok_def)

section \<open>Properties\<close>



text \<open>The button of the terminal leaves the run dialogue open.\<close>

lemma terminal_over_run:
  assumes "trigger_action g = 7" "show_run (g_dlg g)" "\<not> show_terminal (g_dlg g)" "term_pty g = Some p"
  shows "show_run (g_dlg (action_terminal fe g)) \<and> show_terminal (g_dlg (action_terminal fe g))"
  using assms by (simp add: action_terminal_def Let_def)

text \<open>The entry of the task manager is the only one of the menu that leaves the power menu open.\<close>

lemma tasks_over_power:
  assumes "fires fe g BtnTaskManager 4" "show_power_menu (g_dlg g)" "\<not> show_task_manager (g_dlg g)"
  shows "show_power_menu (g_dlg (menu_task_manager fe g)) \<and> show_task_manager (g_dlg (menu_task_manager fe g))"
  using assms by (simp add: menu_task_manager_def scan_tm_def Let_def)

text \<open>
  The run dialogue copies its buffer up to the first NUL, not up to the length of the text: what was
  deleted from the field is run too.
\<close>

lemma run_go_stale:
  assumes "fe_press fe RunGo" "command_buffer g = \<lparr>eb_chars = ''reboot'' @ replicate 250 NUL, eb_len = 3\<rparr>"
  shows "run_cmd (run_go fe False g) = ''reboot''"
proof -
  have "c_str (''reboot'' @ replicate 250 NUL) = ''reboot''" by (simp add: c_str_def numeral_eq_Suc)
  then show ?thesis using assms by (simp add: run_go_def str_fit_def)
qed

text \<open>With the focus on the field of root's password, the space bar submits it.\<close>

lemma space_submits_password:
  assumes "show_password_prompt (g_dlg g)" "pwd_focus_idx (g_nav g) = 0"
  shows "pwd_enter_pressed (key_down True KEY_SPACE g)"
  using assms by (simp add: key_down_def key_prompt_enter_def Let_def)

end
