(* ===== verification/Present.thy ===== *)
theory Present
  imports Draw Display Screen
begin

text \<open>
  The end of a frame: the two buttons and the pointer drawn by hand over what Nuklear rendered, and the
  buffer brought to the screen. Two buffers take turns with page flips; when the second one could
  not be made or a flip is refused, one buffer is drawn and shown.

  A page flip takes effect at the next vertical blank. The record \<open>scanout\<close> holds the program's
  variables and what the card does: the buffer it shows and the one that waits for the blank; \<open>so_pic\<close>
  gives for each buffer the number of the frame drawn into it last, and \<open>so_flushed\<close> the frame that was
  in the first buffer at the last DIRTYFB, with which the one buffer is brought to the screen.
\<close>

section \<open>Definitions\<close>

subsection \<open>Buttons and pointer\<close>

record pictures =
  terminal_data :: "32 word list"
  shutdown_data :: "32 word list"
  cursor_picture :: cursor
  THEME_COLOR_HOVER_HEX :: "32 word"

definition terminal_hovered :: "layout \<Rightarrow> gui \<Rightarrow> bool" where
  "terminal_hovered l g \<longleftrightarrow>
     \<not> keyboard_active g \<and> in_box (g_mouse g) (btn_terminal_x l) (btn_terminal_y l) (terminal_w l) (terminal_h l)
     \<or> show_terminal (g_dlg g) \<or> keyboard_active g \<and> selected_idx (g_nav g) = 7"

definition shutdown_hovered :: "layout \<Rightarrow> gui \<Rightarrow> bool" where
  "shutdown_hovered l g \<longleftrightarrow>
     \<not> keyboard_active g \<and> in_box (g_mouse g) (btn_shutdown_x l) (btn_shutdown_y l) (shutdown_w l) (shutdown_h l)
     \<or> show_power_menu (g_dlg g) \<or> keyboard_active g \<and> selected_idx (g_nav g) = 8"

definition draw_button :: "bool \<Rightarrow> 32 word \<Rightarrow> int \<Rightarrow> int \<Rightarrow> int \<Rightarrow> int \<Rightarrow> 32 word list \<Rightarrow> canvas \<Rightarrow> canvas option" where
  "draw_button hovered color x y w h img cv =
     do { cv1 \<leftarrow> (if hovered then draw_rect cv x y w h color else Some cv); draw_image cv1 x y w h img }"

text \<open>\<open>is_modal\<close> is whether the password prompt was open when the frame began.\<close>

definition draw_overlay :: "pictures \<Rightarrow> layout \<Rightarrow> bool \<Rightarrow> gui \<Rightarrow> canvas \<Rightarrow> canvas option" where
  "draw_overlay p l is_modal g cv =
     do {
       cv1 \<leftarrow> (if \<not> is_modal
         then do {
           cv1 \<leftarrow> draw_button (terminal_hovered l g) (THEME_COLOR_HOVER_HEX p) (btn_terminal_x l) (btn_terminal_y l)
                    (terminal_w l) (terminal_h l) (terminal_data p) cv;
           draw_button (shutdown_hovered l g) (THEME_COLOR_HOVER_HEX p) (btn_shutdown_x l) (btn_shutdown_y l)
             (shutdown_w l) (shutdown_h l) (shutdown_data p) cv1 }
         else Some cv);
       (if \<not> keyboard_active g then draw_cursor (cursor_picture p) cv1 (ms_x (g_mouse g)) (ms_y (g_mouse g)) else Some cv1)
     }"

subsection \<open>Buffers\<close>

text \<open>
  What the kernel answers in one frame: whether SETCRTC and the page flip succeed, and whether the
  vertical blank has come since the last frame.
\<close>

record flip_env =
  fv_crtc :: bool
  fv_flip :: bool
  fv_vblank :: bool

record scanout =
  so_double :: bool
  so_front :: nat
  so_count :: nat
  so_shown :: nat
  so_queued :: "nat option"
  so_pic :: "nat \<Rightarrow> nat"
  so_drawn :: nat
  so_flushed :: nat

definition back_buf :: "scanout \<Rightarrow> nat" where
  "back_buf s = (if so_double s then (if so_front s = 0 then 1 else 0) else 0)"

text \<open>
  SETCRTC, when it succeeds, leaves the given buffer on the screen and no flip waiting; when it fails,
  which the program does not notice, nothing changes.
\<close>

definition set_crtc :: "bool \<Rightarrow> nat \<Rightarrow> scanout \<Rightarrow> scanout" where
  "set_crtc ok b s = (if ok then s\<lparr>so_shown := b, so_queued := None\<rparr> else s)"

text \<open>\<open>frame_count\<close> is an unsigned int; it was incremented when the frame began.\<close>

definition present :: "flip_env \<Rightarrow> scanout \<Rightarrow> scanout" where
  "present e s =
     (let back = back_buf s;
          s1 = (if so_double s
                then (if so_count s = 1 then set_crtc (fv_crtc e) back s
                      else if fv_flip e then s\<lparr>so_queued := Some back\<rparr>
                      else set_crtc (fv_crtc e) 0 (s\<lparr>so_double := False\<rparr>))
                else s);
          s2 = (if so_double s1 then s1 else s1\<lparr>so_flushed := so_pic s1 0\<rparr>)
      in s2\<lparr>so_front := back\<rparr>)"

definition vblank :: "scanout \<Rightarrow> scanout" where
  "vblank s = (case so_queued s of None \<Rightarrow> s | Some b \<Rightarrow> s\<lparr>so_shown := b, so_queued := None\<rparr>)"

definition draw_frame :: "scanout \<Rightarrow> scanout" where
  "draw_frame s =
     s\<lparr>so_count := Suc (so_count s) mod 2 ^ 32, so_drawn := Suc (so_drawn s), so_pic := (so_pic s)(back_buf s := Suc (so_drawn s))\<rparr>"

definition show_frame :: "scanout \<Rightarrow> flip_env \<Rightarrow> scanout" where
  "show_frame s e = present e (draw_frame (if fv_vblank e then vblank s else s))"

definition show_frames :: "flip_env list \<Rightarrow> scanout \<Rightarrow> scanout" where
  "show_frames es s = foldl show_frame s es"

definition scan_start :: "display \<Rightarrow> scanout" where
  "scan_start d = \<lparr>so_double = dm_double (d_drm d), so_front = 0, so_count = 0, so_shown = 0, so_queued = None,
     so_pic = (\<lambda>_. 0), so_drawn = 0, so_flushed = 0\<rparr>"

text \<open>The number of the frame that is on the screen, or will be at the next blank.\<close>

definition visible :: "scanout \<Rightarrow> nat" where
  "visible s = so_pic s (case so_queued s of Some b \<Rightarrow> b | None \<Rightarrow> so_shown s)"

section \<open>Lemmas\<close>

subsection \<open>Drawing\<close>

text \<open>The canvas keeps its size.\<close>

definition same_canvas :: "canvas \<Rightarrow> canvas \<Rightarrow> bool" where
  "same_canvas cv cv' \<longleftrightarrow> (\<exists>px. cv' = cv\<lparr>cv_px := px\<rparr> \<and> length px = length (cv_px cv))"

lemma same_canvas_refl [simp]: "same_canvas cv cv"
  unfolding same_canvas_def by (rule exI [of _ "cv_px cv"]) simp

lemma same_canvas_trans: "same_canvas a b \<Longrightarrow> same_canvas b c \<Longrightarrow> same_canvas a c"
  by (auto simp: same_canvas_def)

lemma same_canvas_ok: "same_canvas a b \<Longrightarrow> canvas_ok a \<Longrightarrow> canvas_ok b"
  by (auto simp: same_canvas_def canvas_ok_def cv_stride_def)

lemma draw_clipped_same:
  assumes "canvas_ok cv" "rect_ok x y w h" "pix_total pix w h" "0 \<le> w" "0 \<le> h"
  shows "\<exists>cv'. draw_clipped x y w h pix cv = Some cv' \<and> same_canvas cv cv'"
  using draw_clipped_pixels [OF assms] by (auto simp: same_canvas_def)

lemma draw_button_same:
  assumes "canvas_ok cv" "rect_ok x y w h" "0 \<le> w" "0 \<le> h" "int (length img) = w * h"
  shows "\<exists>cv'. draw_button hv color x y w h img cv = Some cv' \<and> same_canvas cv cv'"
proof -
  obtain cv1 where 1: "(if hv then draw_rect cv x y w h color else Some cv) = Some cv1" "same_canvas cv cv1"
    using draw_clipped_same [OF assms(1,2) _ assms(3,4), of "\<lambda>cx cy old. Some color"]
    by (cases hv) (auto simp: draw_rect_def pix_total_def)
  obtain cv2 where "draw_image cv1 x y w h img = Some cv2" "same_canvas cv1 cv2"
    using draw_clipped_same [OF same_canvas_ok [OF 1(2) assms(1)] assms(2) image_total [OF assms(5)] assms(3,4)]
    by (auto simp: draw_image_def)
  then show ?thesis using 1 same_canvas_trans by (auto simp: draw_button_def)
qed

text \<open>The sizes of the screen and the pictures, and that the tables have them.\<close>

definition pictures_ok :: "pictures \<Rightarrow> layout \<Rightarrow> bool" where
  "pictures_ok p l \<longleftrightarrow> list_all (\<lambda>n. 0 \<le> n \<and> n \<le> 65535)
       [ly_w l, ly_h l, terminal_w l, terminal_h l, shutdown_w l, shutdown_h l, cur_w (cursor_picture p), cur_h (cursor_picture p),
        cur_hot_x (cursor_picture p), cur_hot_y (cursor_picture p)]
     \<and> int (length (terminal_data p)) = terminal_w l * terminal_h l
     \<and> int (length (shutdown_data p)) = shutdown_w l * shutdown_h l
     \<and> int (length (cur_data (cursor_picture p))) = cur_w (cursor_picture p) * cur_h (cursor_picture p)"

lemma draw_overlay_same:
  assumes "pictures_ok p l" "canvas_ok cv" "mouse_ok (ly_w l) (ly_h l) (g_mouse g)"
  shows "\<exists>cv'. draw_overlay p l md g cv = Some cv' \<and> same_canvas cv cv'"
proof -
  let ?t = "draw_button (terminal_hovered l g) (THEME_COLOR_HOVER_HEX p) (btn_terminal_x l) (btn_terminal_y l)
              (terminal_w l) (terminal_h l) (terminal_data p)"
  let ?s = "draw_button (shutdown_hovered l g) (THEME_COLOR_HOVER_HEX p) (btn_shutdown_x l) (btn_shutdown_y l)
              (shutdown_w l) (shutdown_h l) (shutdown_data p)"
  have "rect_ok (btn_terminal_x l) (btn_terminal_y l) (terminal_w l) (terminal_h l)"
    "rect_ok (btn_shutdown_x l) (btn_shutdown_y l) (shutdown_w l) (shutdown_h l)"
    using assms(1) by (auto simp: pictures_ok_def rect_ok_def is_c_int_def INT_MIN_def INT_MAX_def btn_terminal_x_def
        btn_terminal_y_def btn_shutdown_x_def btn_shutdown_y_def)
  then have b: "canvas_ok c \<Longrightarrow> \<exists>c'. ?t c = Some c' \<and> same_canvas c c'" "canvas_ok c \<Longrightarrow> \<exists>c'. ?s c = Some c' \<and> same_canvas c c'" for c
    using draw_button_same assms(1) by (simp_all add: pictures_ok_def)
  have "\<exists>c. (if \<not> md then do { c \<leftarrow> ?t cv; ?s c } else Some cv) = Some c \<and> same_canvas cv c"
  proof (cases md)
    case False
    obtain c1 where c1: "?t cv = Some c1" "same_canvas cv c1" using b(1) [OF assms(2)] by blast
    then obtain c2 where "?s c1 = Some c2" "same_canvas c1 c2" using b(2) [OF same_canvas_ok [OF c1(2) assms(2)]] by blast
    then show ?thesis using c1 False same_canvas_trans by auto
  qed simp
  then obtain c where c: "(if \<not> md then do { c \<leftarrow> ?t cv; ?s c } else Some cv) = Some c" "same_canvas cv c" by blast
  have "\<exists>c'. draw_cursor (cursor_picture p) c (ms_x (g_mouse g)) (ms_y (g_mouse g)) = Some c' \<and> same_canvas c c'"
    unfolding draw_cursor_def
    by (rule draw_clipped_same [OF same_canvas_ok [OF c(2) assms(2)] _ image_total])
      (use assms in \<open>auto simp: pictures_ok_def mouse_ok_def rect_ok_def is_c_int_def INT_MIN_def INT_MAX_def\<close>)
  then show ?thesis using c same_canvas_trans unfolding draw_overlay_def by auto
qed

subsection \<open>Buffers\<close>

text \<open>Whatever happens, the program's variables and the card agree; \<open>n\<close> frames have been drawn.\<close>

definition scan_inv :: "bool \<Rightarrow> scanout \<Rightarrow> bool" where
  "scan_inv two s \<longleftrightarrow> (so_double s \<longrightarrow> two) \<and> so_front s \<le> 1 \<and> so_shown s \<le> 1 \<and> (\<not> two \<longrightarrow> so_front s = 0)
     \<and> so_pic s (so_front s) = so_drawn s
     \<and> (case so_queued s of Some b \<Rightarrow> so_double s \<and> b = so_front s
        | None \<Rightarrow> if so_double s then so_shown s = so_front s else so_shown s = 0)
     \<and> (\<not> so_double s \<and> so_front s = 1 \<longrightarrow> so_drawn s = Suc (so_pic s 0))
     \<and> (\<not> so_double s \<longrightarrow> so_flushed s = so_pic s 0)"

lemma scan_inv_start: "scan_inv (dm_double (d_drm d)) (scan_start d)"
  by (simp add: scan_inv_def scan_start_def)

lemma scan_inv_vblank: "scan_inv two s \<Longrightarrow> scan_inv two (vblank s)"
  by (auto simp: scan_inv_def vblank_def split: option.splits)

lemma scan_inv_show:
  assumes "scan_inv two s" "fv_crtc e"
  shows "scan_inv two (present e (draw_frame s))"
proof (cases "so_double s")
  case True
  then have "so_front s = 0 \<or> so_front s = 1" using assms(1) by (auto simp: scan_inv_def)
  then show ?thesis
    using assms True by (auto simp: scan_inv_def present_def draw_frame_def back_buf_def set_crtc_def Let_def split: option.splits)
next
  case False
  then show ?thesis
    using assms by (auto simp: scan_inv_def present_def draw_frame_def back_buf_def Let_def split: option.splits)
qed

lemma scan_inv_frames:
  assumes "\<forall>e\<in>set es. fv_crtc e" "scan_inv two s"
  shows "scan_inv two (show_frames es s) \<and> so_drawn (show_frames es s) = so_drawn s + length es"
  using assms
proof (induction es arbitrary: s)
  case (Cons e es)
  have i: "scan_inv two (show_frame s e)"
    using Cons.prems scan_inv_show [of two _ e] scan_inv_vblank by (simp add: show_frame_def)
  have "so_drawn (show_frame s e) = Suc (so_drawn s)"
    by (simp add: show_frame_def present_def draw_frame_def set_crtc_def vblank_def Let_def split: option.splits)
  then show ?case using Cons.IH [OF _ i] Cons.prems(1) by (simp add: show_frames_def)
qed (simp add: show_frames_def)

lemma scan_inv_visible:
  "scan_inv two s \<Longrightarrow> visible s = so_drawn s \<or> \<not> so_double s \<and> Suc (visible s) = so_drawn s"
  by (auto simp: scan_inv_def visible_def le_Suc_eq split: option.splits if_splits)

lemma create_buffer_mapped:
  assumes "create_buffer sy i d = (d', True)" "i < length (dm_buffer (d_drm d))"
  shows "dm_buffer (d_drm d') = (dm_buffer (d_drm d))[i := Mapped] \<and> dm_double (d_drm d') = dm_double (d_drm d)"
  using assms by (auto simp: create_buffer_def Let_def split: option.splits if_splits)

lemma create_buffer_failed_other:
  assumes "create_buffer sy i d = (d', False)" "j \<noteq> i"
  shows "dm_buffer (d_drm d') ! j = dm_buffer (d_drm d) ! j"
  using assms by (auto simp: create_buffer_def Let_def split: option.splits if_splits)

text \<open>Every buffer the frames draw into is mapped.\<close>

lemma init_buffers_mapped:
  assumes "init_buffers sy d = (d', True)" "length (dm_buffer (d_drm d)) = 2"
  shows "dm_buffer (d_drm d') ! 0 = Mapped \<and> (dm_double (d_drm d') \<longrightarrow> dm_buffer (d_drm d') ! 1 = Mapped)"
proof -
  obtain d1 where d1: "create_buffer sy 0 (d\<lparr>d_drm := (d_drm d)\<lparr>dm_double := True\<rparr>\<rparr>) = (d1, True)"
    using assms(1) by (auto simp: init_buffers_def split: prod.splits bool.splits)
  have m: "dm_buffer (d_drm d1) = (dm_buffer (d_drm d))[0 := Mapped]" using create_buffer_mapped [OF d1] assms(2) by simp
  obtain d2 b where d2: "create_buffer sy 1 d1 = (d2, b)" by fastforce
  show ?thesis
  proof (cases b)
    case True
    then show ?thesis using create_buffer_mapped [of sy 1 d1 d2] d1 d2 m assms by (simp add: init_buffers_def)
  next
    case False
    have "dm_buffer (d_drm d2) ! 0 = Mapped"
      using create_buffer_failed_other [of sy 1 d1 d2 0] d2 False m assms(2) by simp
    then show ?thesis using d1 d2 False assms(1) by (auto simp: init_buffers_def drop_second_def Let_def)
  qed
qed

lemma init_drm_mapped:
  assumes "init_drm sy d = (d', 0)" "no_buffers d" "j_drm_fd (d_journal d) < 0" "\<not> d_master d"
  shows "dm_buffer (d_drm d') ! 0 = Mapped \<and> (dm_double (d_drm d') \<longrightarrow> dm_buffer (d_drm d') ! 1 = Mapped)"
proof -
  obtain d1 r where s: "steal_vt sy d = (d1, r)" by fastforce
  have d1: "d_drm d1 = d_drm d" "d_handles d1 = d_handles d" "d_fbs d1 = d_fbs d" "d_maps d1 = d_maps d"
    "d_master d1 = d_master d" "j_drm_fd (d_journal d1) = j_drm_fd (d_journal d)"
    using s by (auto simp: steal_vt_def vt_activate_def Let_def split: if_splits)
  obtain d2 b where f: "find_card sy [0..<16] d1 = (d2, b)" by fastforce
  have "no_buffers d1" using assms(2) d1 by (simp add: no_buffers_def)
  then have "no_buffers d2" using find_card_result [OF _ _ _ f] assms(3,4) d1 by simp
  then have l: "length (dm_buffer (d_drm d2)) = 2" by (simp add: no_buffers_def)
  obtain d3 g where i: "init_buffers sy d2 = (d3, g)" by fastforce
  have "g \<and> dm_buffer (d_drm d') = dm_buffer (d_drm d3) \<and> dm_double (d_drm d') = dm_double (d_drm d3)"
    using assms(1) s f i by (auto simp: init_drm_def Let_def split: if_splits bool.splits)
  then show ?thesis using init_buffers_mapped [of sy d2 d3] i l by simp
qed

section \<open>Properties\<close>


text \<open>
  In every state a run of the screen reaches, drawing the buttons and the
  pointer changes pixels of the frame buffer only: no write and no read of a picture is out of bounds,
  wherever the pointer is.
\<close>

theorem overlay_in_bounds:
  assumes "\<forall>fe\<in>set fes. fe_layout fe = l \<and> clicks_single fe" "0 < ly_w l" "0 < ly_h l" "pictures_ok p l" "canvas_ok cv"
    and "g = frames fes (gui_start tm vt (ly_w l) (ly_h l))"
  shows "\<exists>px. draw_overlay p l is_modal g cv = Some (cv\<lparr>cv_px := px\<rparr>) \<and> length px = length (cv_px cv)"
proof -
  have "screen_ok (ly_w l) (ly_h l) g"
    unfolding assms(6) by (rule screen.frames_keep) (use assms(1-3) in \<open>simp_all add: start_screen_ok\<close>)
  then have "mouse_ok (ly_w l) (ly_h l) (g_mouse g)" by (simp add: screen_ok_def)
  from draw_overlay_same [OF assms(4,5) this] show ?thesis by (auto simp: same_canvas_def)
qed

text \<open>
  A frame that comes before the blank finds its flip refused, since the last one still waits; the program
  then gives up double buffering for good. Frames are 16 ms apart, blanks at 60 Hz 16.7 ms.
\<close>

lemma late_blank_ends_double_buffering:
  assumes "so_double s" "so_queued s = Some b" "Suc (so_count s) mod 2 ^ 32 \<noteq> 1" "\<not> fv_vblank e" "\<not> fv_flip e"
  shows "\<not> so_double (show_frames es (show_frame s e))"
proof -
  have "\<not> so_double (show_frame s e)"
    using assms by (simp add: show_frame_def present_def draw_frame_def set_crtc_def Let_def)
  moreover have "\<not> so_double t \<Longrightarrow> \<not> so_double (show_frames es t)" for t
    by (induction es arbitrary: t)
      (auto simp: show_frames_def show_frame_def present_def draw_frame_def vblank_def Let_def split: option.splits)
  ultimately show ?thesis by simp
qed

definition demo_pictures :: pictures where
  "demo_pictures = \<lparr>terminal_data = replicate 1024 0, shutdown_data = replicate 1024 0,
     cursor_picture = \<lparr>cur_w = 16, cur_h = 16, cur_hot_x = 3, cur_hot_y = 2, cur_data = replicate 256 0\<rparr>,
     THEME_COLOR_HOVER_HEX = 0x426B94\<rparr>"


theorem overlay_in_bounds_witness:
  "\<exists>px. draw_overlay demo_pictures (fe_layout quiet_env) False
      (frames (root_shell_frames ''toor'') (gui_start start_tm 2 640 480))
      \<lparr>cv_w = 640, cv_h = 480, cv_pitch = 2560, cv_px = replicate 307200 0\<rparr> =
      Some \<lparr>cv_w = 640, cv_h = 480, cv_pitch = 2560, cv_px = px\<rparr> \<and> length px = 307200"
proof -
  let ?cv = "\<lparr>cv_w = 640, cv_h = 480, cv_pitch = 2560, cv_px = replicate 307200 (0 :: 32 word)\<rparr>"
  have l: "\<forall>fe\<in>set (root_shell_frames ''toor''). fe_layout fe = fe_layout quiet_env \<and> clicks_single fe"
    by (simp add: root_shell_frames_def quiet_env_def clicks_single_def)
  have s: "ly_w (fe_layout quiet_env) = 640" "ly_h (fe_layout quiet_env) = 480" by (simp_all add: quiet_env_def)
  have p: "pictures_ok demo_pictures (fe_layout quiet_env)" by (simp add: pictures_ok_def demo_pictures_def quiet_env_def)
  have c: "canvas_ok ?cv" by (simp add: canvas_ok_def cv_stride_def is_c_int_def INT_MIN_def INT_MAX_def)
  from overlay_in_bounds [OF l _ _ p c refl, of False start_tm 2] show ?thesis by (simp add: s)
qed

end
