(* ===== verification/RawFb.thy ===== *)
theory RawFb
  imports Draw "HOL-Library.Monad_Syntax"
begin

text \<open>
  The software renderer behind Nuklear, \<^verbatim>\<open>nuklear_rawfb.h\<close>, which the program adapted to draw into the mapped
  buffer of the graphics card: pixel formats, pixels, scissors and lines. An image is the array of bytes at
  \<^verbatim>\<open>pixels\<close>; a store or a load outside it has the result \<open>None\<close>. Pixels are stored in the byte order of the
  machine, least significant byte first.

  Coordinates are \<^verbatim>\<open>short\<close>. The scissors are \<^verbatim>\<open>float\<close>s in the source, but hold whole numbers: they are computed from \<^verbatim>\<open>short\<close>
  values and the size of the screen by sums, minimum and maximum, all exact below \<open>2\<^sup>2\<^sup>4\<close>.

  The locale \<open>raster\<close> says what a shape may rely on when it sets pixels. The properties of the shapes
  are proved in it once, for what is drawn and against accesses outside the image.
\<close>

section \<open>Model\<close>

unbundle bit_operations_syntax

subsection \<open>Bytes\<close>

definition wrap_short :: "int \<Rightarrow> int" where
  "wrap_short x = (x + 32768) mod 65536 - 32768"

definition store_bytes :: "8 word list \<Rightarrow> int \<Rightarrow> 8 word list \<Rightarrow> 8 word list option" where
  "store_bytes m a bs =
     (if 0 \<le> a \<and> a + int (length bs) \<le> int (length m)
      then Some (take (nat a) m @ bs @ drop (nat a + length bs) m) else None)"

definition load_bytes :: "8 word list \<Rightarrow> int \<Rightarrow> nat \<Rightarrow> 8 word list option" where
  "load_bytes m a n =
     (if 0 \<le> a \<and> a + int n \<le> int (length m) then Some (take n (drop (nat a) m)) else None)"

definition le_bytes :: "nat \<Rightarrow> 32 word \<Rightarrow> 8 word list" where
  "le_bytes n c = map (\<lambda>i. ucast (drop_bit (8 * i) c)) [0..<n]"

definition of_le_bytes :: "8 word list \<Rightarrow> 32 word" where
  "of_le_bytes bs = foldr (\<lambda>b c. ucast b OR push_bit 8 c) bs 0"

subsection \<open>Colours\<close>

record nk_color =
  nk_r :: "8 word"
  nk_g :: "8 word"
  nk_b :: "8 word"
  nk_a :: "8 word"

record rawfb_pl =
  pl_bpp :: nat
  pl_rshift :: nat
  pl_gshift :: nat
  pl_bshift :: nat
  pl_ashift :: nat
  pl_rloss :: nat
  pl_gloss :: nat
  pl_bloss :: nat
  pl_aloss :: nat

definition put_chan :: "8 word \<Rightarrow> nat \<Rightarrow> nat \<Rightarrow> 32 word" where
  "put_chan v loss shft = push_bit shft (drop_bit loss (ucast v))"

definition get_chan :: "32 word \<Rightarrow> nat \<Rightarrow> nat \<Rightarrow> 8 word" where
  "get_chan i loss shft = (if loss = 8 then 0xFF else ucast (push_bit loss (drop_bit shft i) AND 0xFF))"

definition nk_rawfb_color2int :: "nk_color \<Rightarrow> rawfb_pl \<Rightarrow> 32 word" where
  "nk_rawfb_color2int c pl =
     put_chan (nk_r c) (pl_rloss pl) (pl_rshift pl) OR put_chan (nk_g c) (pl_gloss pl) (pl_gshift pl)
     OR put_chan (nk_b c) (pl_bloss pl) (pl_bshift pl) OR put_chan (nk_a c) (pl_aloss pl) (pl_ashift pl)"

definition nk_rawfb_int2color :: "32 word \<Rightarrow> rawfb_pl \<Rightarrow> nk_color" where
  "nk_rawfb_int2color i pl =
     \<lparr>nk_r = get_chan i (pl_rloss pl) (pl_rshift pl), nk_g = get_chan i (pl_gloss pl) (pl_gshift pl),
      nk_b = get_chan i (pl_bloss pl) (pl_bshift pl), nk_a = get_chan i (pl_aloss pl) (pl_ashift pl)\<rparr>"

subsection \<open>Images and the context\<close>

record rawfb_image =
  im_pixels :: "8 word list"
  im_w :: int
  im_h :: int
  im_pitch :: int
  im_pl :: rawfb_pl

record nk_rect =
  rc_x :: int
  rc_y :: int
  rc_w :: int
  rc_h :: int

record rawfb_context =
  scissors :: nk_rect
  fb :: rawfb_image
  font_tex :: rawfb_image

text \<open>The size of the pointer type chosen by \<^verbatim>\<open>bytesPerPixel\<close>.\<close>

definition px_size :: "rawfb_pl \<Rightarrow> nat" where
  "px_size pl = (if pl_bpp pl = 4 then 4 else if pl_bpp pl = 2 then 2 else 1)"

definition nk_rawfb_ctx_setpixel :: "32 word \<Rightarrow> int \<Rightarrow> int \<Rightarrow> rawfb_context \<Rightarrow> rawfb_context option" where
  "nk_rawfb_ctx_setpixel col x y ctx =
     (let x0 = wrap_short x; y0 = wrap_short y; s = scissors ctx; im = fb ctx; k = px_size (im_pl im) in
      if y0 < rc_h s \<and> y0 \<ge> rc_y s \<and> x0 \<ge> rc_x s \<and> x0 < rc_w s
      then map_option (\<lambda>m. ctx\<lparr>fb := im\<lparr>im_pixels := m\<rparr>\<rparr>)
             (store_bytes (im_pixels im) (y0 * im_pitch im + int k * x0) (le_bytes k col))
      else Some ctx)"

text \<open>The buffer \<^verbatim>\<open>c[16 * 4]\<close> of the horizontal line; \<open>junk\<close> is what the stack held before.\<close>

definition line_pattern :: "8 word list \<Rightarrow> nat \<Rightarrow> 32 word \<Rightarrow> 8 word list" where
  "line_pattern junk bpp col =
     (if bpp = 4 then concat (replicate (64 div bpp) (le_bytes 4 col))
      else if bpp = 2 then concat (replicate (64 div bpp) (le_bytes 2 col))
      else concat (replicate (64 div bpp) (le_bytes 1 col)) @ drop (64 div bpp) junk)"

function hline_copy :: "8 word list \<Rightarrow> nat \<Rightarrow> int \<Rightarrow> 8 word list \<Rightarrow> 8 word list option" where
  "hline_copy c n p m =
     (if n > 64 then store_bytes m p (take 64 c) \<bind> hline_copy c (n - 64) (p + 64)
      else for_loop 0 n (\<lambda>i m. store_bytes m (p + i) [c ! nat i]) m)"
  by pat_completeness auto
termination
  by (relation "measure (\<lambda>(c, n, p, m). n)") auto

declare hline_copy.simps [simp del]

definition nk_rawfb_line_horizontal :: "8 word list \<Rightarrow> int \<Rightarrow> int \<Rightarrow> int \<Rightarrow> 32 word \<Rightarrow> rawfb_context \<Rightarrow> rawfb_context option" where
  "nk_rawfb_line_horizontal junk x0 y x1 col ctx =
     (let im = fb ctx; bpp = pl_bpp (im_pl im);
          p = (y * im_pitch im + x0 * int bpp) mod 4294967296;
          n = nat ((x1 - x0) * int bpp mod 4294967296)
      in map_option (\<lambda>m. ctx\<lparr>fb := im\<lparr>im_pixels := m\<rparr>\<rparr>)
           (hline_copy (line_pattern junk bpp col) n p (im_pixels im)))"

definition nk_rawfb_img_setpixel :: "rawfb_image \<Rightarrow> int \<Rightarrow> int \<Rightarrow> nk_color \<Rightarrow> rawfb_image option" where
  "nk_rawfb_img_setpixel img x0 y0 col =
     (let k = px_size (im_pl img) in
      if y0 < im_h img \<and> y0 \<ge> 0 \<and> x0 \<ge> 0 \<and> x0 < im_w img
      then map_option (\<lambda>m. img\<lparr>im_pixels := m\<rparr>)
             (store_bytes (im_pixels img) (im_pitch img * y0 + int k * x0)
               (le_bytes k (nk_rawfb_color2int col (im_pl img))))
      else Some img)"

definition nk_rawfb_img_getpixel :: "rawfb_image \<Rightarrow> int \<Rightarrow> int \<Rightarrow> nk_color option" where
  "nk_rawfb_img_getpixel img x0 y0 =
     (let k = px_size (im_pl img) in
      if y0 < im_h img \<and> y0 \<ge> 0 \<and> x0 \<ge> 0 \<and> x0 < im_w img
      then map_option (\<lambda>bs. nk_rawfb_int2color (of_le_bytes bs) (im_pl img))
             (load_bytes (im_pixels img) (im_pitch img * y0 + int k * x0) k)
      else Some \<lparr>nk_r = 0, nk_g = 0, nk_b = 0, nk_a = 0\<rparr>)"

text \<open>\<^verbatim>\<open>(c * a + c2 * inv_a) >> 8\<close>, stored into a byte.\<close>

definition blend_chan :: "8 word \<Rightarrow> 8 word \<Rightarrow> 8 word \<Rightarrow> 8 word" where
  "blend_chan a c c2 = of_int ((uint c * uint a + uint c2 * uint (0xFF - a)) div 256)"

definition nk_rawfb_img_blendpixel :: "rawfb_image \<Rightarrow> int \<Rightarrow> int \<Rightarrow> nk_color \<Rightarrow> rawfb_image option" where
  "nk_rawfb_img_blendpixel img x0 y0 col =
     (if nk_a col = 0 then Some img
      else do {
        col2 \<leftarrow> nk_rawfb_img_getpixel img x0 y0;
        nk_rawfb_img_setpixel img x0 y0
          (col\<lparr>nk_r := blend_chan (nk_a col) (nk_r col) (nk_r col2),
               nk_g := blend_chan (nk_a col) (nk_g col) (nk_g col2),
               nk_b := blend_chan (nk_a col) (nk_b col) (nk_b col2)\<rparr>)
      })"

definition nk_rawfb_scissor :: "int \<Rightarrow> int \<Rightarrow> int \<Rightarrow> int \<Rightarrow> rawfb_context \<Rightarrow> rawfb_context" where
  "nk_rawfb_scissor x y w h ctx =
     ctx\<lparr>scissors := \<lparr>rc_x = min (max x 0) (im_w (fb ctx)), rc_y = min (max y 0) (im_h (fb ctx)),
                      rc_w = min (max (w + x) 0) (im_w (fb ctx)), rc_h = min (max (h + y) 0) (im_h (fb ctx))\<rparr>\<rparr>"

subsection \<open>Lines\<close>

text \<open>
  The two loops of \<^verbatim>\<open>nk_rawfb_stroke_line\<close> are one loop with the coordinates exchanged: \<open>m\<close> is the coordinate
  that moves in every step, towards \<open>m1\<close>, and \<open>n\<close> the other one.
\<close>

partial_function (option) line_loop ::
  "(int \<Rightarrow> int \<Rightarrow> 's \<Rightarrow> 's option) \<Rightarrow> int \<Rightarrow> int \<Rightarrow> int \<Rightarrow> int \<Rightarrow> int \<Rightarrow> int \<Rightarrow> int \<Rightarrow> int \<Rightarrow> 's \<Rightarrow> 's option" where
  "line_loop put stepm stepn dm dn m1 m n fraction s =
     (if m \<noteq> m1
      then Option.bind
             (put (wrap_short (m + stepm)) (if fraction \<ge> 0 then wrap_short (n + stepn) else n) s)
             (line_loop put stepm stepn dm dn m1 (wrap_short (m + stepm))
               (if fraction \<ge> 0 then wrap_short (n + stepn) else n)
               ((if fraction \<ge> 0 then fraction - dm else fraction) + dn))
      else Some s)"

text \<open>The part of \<^verbatim>\<open>nk_rawfb_stroke_line\<close> after the fast path.\<close>

definition slanted_line :: "(int \<Rightarrow> int \<Rightarrow> 's \<Rightarrow> 's option) \<Rightarrow> int \<Rightarrow> int \<Rightarrow> int \<Rightarrow> int \<Rightarrow> 's \<Rightarrow> 's option" where
  "slanted_line put x0 y0 x1 y1 s =
     (let stepy = (if y1 - y0 < 0 then -1 else 1); stepx = (if x1 - x0 < 0 then -1 else 1);
          dy = 2 * \<bar>y1 - y0\<bar>; dx = 2 * \<bar>x1 - x0\<bar>
      in do {
        s \<leftarrow> put x0 y0 s;
        if dx > dy then line_loop put stepx stepy dx dy x1 x0 y0 (dy - dx div 2) s
        else line_loop (\<lambda>y x. put x y) stepy stepx dy dx y1 y0 x0 (dx - dy div 2) s
      })"

definition nk_rawfb_stroke_line ::
  "8 word list \<Rightarrow> int \<Rightarrow> int \<Rightarrow> int \<Rightarrow> int \<Rightarrow> 32 word \<Rightarrow> rawfb_context \<Rightarrow> rawfb_context option" where
  "nk_rawfb_stroke_line junk a0 b0 a1 b1 col ctx =
     (let x0 = wrap_short a0; y0 = wrap_short b0; x1 = wrap_short a1; y1 = wrap_short b1; s = scissors ctx in
      if y1 - y0 = 0
      then (if x1 - x0 = 0 \<or> y0 \<ge> rc_h s \<or> y0 < rc_y s then Some ctx
            else (let xr = (if x1 - x0 < 0 then x0 else x1); xl = (if x1 - x0 < 0 then x1 else x0)
                  in nk_rawfb_line_horizontal junk (max (rc_x s) (min (rc_w s) xl)) y0
                       (max (rc_x s) (min (rc_w s) xr)) col ctx))
      else slanted_line (nk_rawfb_ctx_setpixel col) x0 y0 x1 y1 ctx)"

section \<open>What a shape relies on\<close>

text \<open>
  Setting a pixel never fails in a good state; it changes at most that pixel, if it is inside the
  scissors. \<open>draws s s' S\<close>: exactly the pixels of \<open>S\<close> inside the scissors were given the colour.
\<close>

locale raster =
  fixes put :: "int \<Rightarrow> int \<Rightarrow> 's \<Rightarrow> 's option"
    and good :: "'s \<Rightarrow> bool"
    and seen :: "'s \<Rightarrow> (int \<times> int) set"
    and look :: "'s \<Rightarrow> int \<times> int \<Rightarrow> 'p"
    and ink :: 'p
  assumes put_good: "good s \<Longrightarrow> \<exists>s'. put x y s = Some s' \<and> good s' \<and> seen s' = seen s
    \<and> look s' = (\<lambda>p. if p = (wrap_short x, wrap_short y) \<and> p \<in> seen s then ink else look s p)"
begin

definition draws :: "'s \<Rightarrow> 's \<Rightarrow> (int \<times> int) set \<Rightarrow> bool" where
  "draws s s' S \<longleftrightarrow> good s' \<and> seen s' = seen s \<and> look s' = (\<lambda>p. if p \<in> S \<and> p \<in> seen s then ink else look s p)"

lemma draws_good: "draws s s' S \<Longrightarrow> good s'"
  by (simp add: draws_def)

lemma draws_none: "good s \<Longrightarrow> draws s s {}"
  by (simp add: draws_def)

lemma draws_seq: "draws s s' S \<Longrightarrow> draws s' s'' T \<Longrightarrow> draws s s'' (S \<union> T)"
  by (auto simp: draws_def fun_eq_iff)

lemma draws_put: "good s \<Longrightarrow> \<exists>s'. put x y s = Some s' \<and> draws s s' {(wrap_short x, wrap_short y)}"
  using put_good [of s x y] by (auto simp: draws_def)

lemma draws_loop:
  assumes "good s" and "\<And>j s. i \<le> j \<Longrightarrow> j < i + int n \<Longrightarrow> good s \<Longrightarrow> \<exists>s'. body j s = Some s' \<and> draws s s' (S j)"
  shows "\<exists>s'. for_loop i n body s = Some s' \<and> draws s s' (\<Union>j\<in>{i..<i + int n}. S j)"
proof (rule for_loop_invariant [of "\<lambda>k s'. draws s s' (\<Union>j\<in>{i..<k}. S j)"])
  show "draws s s (\<Union>j\<in>{i..<i}. S j)" using draws_none assms(1) by simp
next
  fix j s' assume j: "i \<le> j" "j < i + int n" and d: "draws s s' (\<Union>j\<in>{i..<j}. S j)"
  obtain s'' where s'': "body j s' = Some s''" "draws s' s'' (S j)" using assms(2) [OF j draws_good [OF d]] by blast
  have "{i..<j + 1} = insert j {i..<j}" using j by auto
  then have "(\<Union>j\<in>{i..<j}. S j) \<union> S j = (\<Union>j\<in>{i..<j + 1}. S j)" by auto
  then show "\<exists>s''. body j s' = Some s'' \<and> draws s s'' (\<Union>j\<in>{i..<j + 1}. S j)"
    using s'' draws_seq [OF d s''(2)] by auto
qed

end

section \<open>Slanted lines\<close>

text \<open>
  The exact line moves by \<open>E / D\<close> in the minor coordinate for each step of the major one. The pixel of step \<open>k\<close> is
  the nearest one: \<open>k * E / D\<close> rounded, half a pixel up.
\<close>

definition nearest :: "int \<Rightarrow> int \<Rightarrow> int \<Rightarrow> int" where
  "nearest D E k = (2 * E * k + D) div (2 * D)"

definition line_points :: "int \<Rightarrow> int \<Rightarrow> int \<Rightarrow> int \<Rightarrow> (int \<times> int) set" where
  "line_points x0 y0 x1 y1 =
     (let dx = \<bar>x1 - x0\<bar>; dy = \<bar>y1 - y0\<bar>; sx = (if x1 < x0 then -1 else 1); sy = (if y1 < y0 then -1 else 1) in
      if dx > dy then (\<lambda>k. (x0 + sx * k, y0 + sy * nearest dx dy k)) ` {0..dx}
      else (\<lambda>k. (x0 + sx * nearest dy dx k, y0 + sy * k)) ` {0..dy})"

lemma wrap_short_id [simp]: "- 32768 \<le> x \<Longrightarrow> x \<le> 32767 \<Longrightarrow> wrap_short x = x"
  by (simp add: wrap_short_def)

lemma wrap_short_range: "- 32768 \<le> wrap_short x" "wrap_short x \<le> 32767"
  using pos_mod_bound [of 65536 "x + 32768"] pos_mod_sign [of 65536 "x + 32768"] by (simp_all add: wrap_short_def)

lemma wrap_short_idem [simp]: "wrap_short (wrap_short x) = wrap_short x"
  by (rule wrap_short_id) (rule wrap_short_range)+

lemma nearest_0: "0 < D \<Longrightarrow> nearest D E 0 = 0"
  by (simp add: nearest_def)

lemma nearest_all: "0 < D \<Longrightarrow> nearest D E D = E"
  unfolding nearest_def by (rule int_div_pos_eq [of _ _ _ D]) (simp_all add: algebra_simps)

lemma nearest_rest:
  assumes "0 < D"
  shows "2 * D * nearest D E k \<le> 2 * E * k + D" "2 * E * k + D < 2 * D * nearest D E k + 2 * D"
proof -
  have "2 * E * k + D = 2 * D * nearest D E k + (2 * E * k + D) mod (2 * D)" by (simp add: nearest_def)
  moreover have "0 \<le> (2 * E * k + D) mod (2 * D)" "(2 * E * k + D) mod (2 * D) < 2 * D" using assms by simp_all
  ultimately show "2 * D * nearest D E k \<le> 2 * E * k + D" "2 * E * k + D < 2 * D * nearest D E k + 2 * D" by linarith+
qed

lemma nearest_step:
  assumes "0 < D" "0 \<le> E" "E \<le> D"
  shows "nearest D E (k + 1) = (if 2 * E * (k + 1) - D - 2 * D * nearest D E k \<ge> 0 then nearest D E k + 1 else nearest D E k)"
proof -
  define j where "j = nearest D E k"
  have r: "2 * (D * j) \<le> 2 * (E * k) + D" "2 * (E * k) + D < 2 * (D * j) + 2 * D"
    using nearest_rest [OF assms(1), of E k] by (simp_all add: j_def)
  have "nearest D E (k + 1) = j + 1" if "2 * E * (k + 1) - D - 2 * D * j \<ge> 0"
    unfolding nearest_def
    by (rule int_div_pos_eq [of _ _ _ "2 * E * (k + 1) + D - 2 * D * (j + 1)"]) (use that r assms in \<open>auto simp: algebra_simps\<close>)
  moreover have "nearest D E (k + 1) = j" if "\<not> 2 * E * (k + 1) - D - 2 * D * j \<ge> 0"
    unfolding nearest_def
    by (rule int_div_pos_eq [of _ _ _ "2 * E * (k + 1) + D - 2 * D * j"]) (use that r assms in \<open>auto simp: algebra_simps\<close>)
  ultimately show ?thesis unfolding j_def by simp
qed

lemma nearest_range:
  assumes "0 < D" "0 \<le> E" "0 \<le> k" "k \<le> D"
  shows "0 \<le> nearest D E k" "nearest D E k \<le> E"
proof -
  show "0 \<le> nearest D E k" using assms by (simp add: nearest_def pos_imp_zdiv_nonneg_iff)
  have "E * k \<le> E * D" using assms by (simp add: mult_left_mono)
  then have "nearest D E k \<le> nearest D E D" unfolding nearest_def using assms by (intro zdiv_mono1) simp_all
  then show "nearest D E k \<le> E" using nearest_all [OF assms(1)] by simp
qed

context raster
begin

lemma line_loop_draws:
  assumes put: "\<And>m n s. good s \<Longrightarrow> \<exists>s'. P m n s = Some s' \<and> draws s s' {pt (wrap_short m) (wrap_short n)}"
    and D: "0 < D" "0 \<le> E" "E \<le> D" and steps: "\<bar>sm\<bar> = 1" "\<bar>sn\<bar> = 1"
    and short: "\<And>i. 0 \<le> i \<Longrightarrow> i \<le> D \<Longrightarrow> wrap_short (m0 + sm * i) = m0 + sm * i"
      "\<And>i. 0 \<le> i \<Longrightarrow> i \<le> E \<Longrightarrow> wrap_short (n0 + sn * i) = n0 + sn * i"
    and k: "0 \<le> k" "k \<le> D" and s: "good s"
  shows "\<exists>s'. line_loop P sm sn (2 * D) (2 * E) (m0 + sm * D) (m0 + sm * k) (n0 + sn * nearest D E k)
            (2 * E * (k + 1) - D - 2 * D * nearest D E k) s = Some s'
           \<and> draws s s' ((\<lambda>i. pt (m0 + sm * i) (n0 + sn * nearest D E i)) ` {k + 1..D})"
  using k s
proof (induction "nat (D - k)" arbitrary: k s)
  case 0
  then show ?case using draws_none by (subst line_loop.simps) auto
next
  case (Suc c)
  let ?n = "n0 + sn * nearest D E k" and ?f = "2 * E * (k + 1) - D - 2 * D * nearest D E k"
  have k: "0 \<le> k + 1" "k + 1 \<le> D" "c = nat (D - (k + 1))" using Suc.hyps(2) Suc.prems by auto
  have m: "wrap_short (m0 + sm * k + sm) = m0 + sm * (k + 1)" using short(1) [OF k(1,2)] by (simp add: algebra_simps)
  have range: "0 \<le> nearest D E (k + 1)" "nearest D E (k + 1) \<le> E" using nearest_range [OF D(1,2) k(1,2)] .
  have w: "wrap_short (n0 + sn * nearest D E (k + 1)) = n0 + sn * nearest D E (k + 1)" using short(2) [OF range] .
  have n: "(if ?f \<ge> 0 then wrap_short (?n + sn) else ?n) = n0 + sn * nearest D E (k + 1)"
    using w nearest_step [OF D, of k] by (simp add: algebra_simps split: if_splits)
  have f: "(if ?f \<ge> 0 then ?f - 2 * D else ?f) + 2 * E = 2 * E * (k + 1 + 1) - D - 2 * D * nearest D E (k + 1)"
    using nearest_step [OF D, of k] by (simp add: algebra_simps)
  obtain s1 where s1: "P (m0 + sm * (k + 1)) (n0 + sn * nearest D E (k + 1)) s = Some s1"
      "draws s s1 {pt (m0 + sm * (k + 1)) (n0 + sn * nearest D E (k + 1))}"
    using put [OF Suc.prems(3), of "m0 + sm * (k + 1)" "n0 + sn * nearest D E (k + 1)"] short(1) [OF k(1,2)] w by auto
  obtain s2 where s2: "line_loop P sm sn (2 * D) (2 * E) (m0 + sm * D) (m0 + sm * (k + 1)) (n0 + sn * nearest D E (k + 1))
        (2 * E * (k + 1 + 1) - D - 2 * D * nearest D E (k + 1)) s1 = Some s2"
      "draws s1 s2 ((\<lambda>i. pt (m0 + sm * i) (n0 + sn * nearest D E i)) ` {k + 1 + 1..D})"
    using Suc.hyps(1) [OF k(3,1,2) draws_good [OF s1(2)]] by blast
  have ne: "m0 + sm * k \<noteq> m0 + sm * D" using steps(1) k by auto
  have "{k + 1..D} = insert (k + 1) {k + 1 + 1..D}" using k by auto
  then have "draws s s2 ((\<lambda>i. pt (m0 + sm * i) (n0 + sn * nearest D E i)) ` {k + 1..D})"
    using draws_seq [OF s1(2) s2(2)] by simp
  then show ?case using ne s1(1) s2(1) by (subst line_loop.simps) (simp only: m n f, simp)
qed

lemma line_draws:
  assumes put: "\<And>m n s. good s \<Longrightarrow> \<exists>s'. P m n s = Some s' \<and> draws s s' {pt (wrap_short m) (wrap_short n)}"
    and D: "0 < D" "0 \<le> E" "E \<le> D" and steps: "\<bar>sm\<bar> = 1" "\<bar>sn\<bar> = 1"
    and short: "\<And>i. 0 \<le> i \<Longrightarrow> i \<le> D \<Longrightarrow> wrap_short (m0 + sm * i) = m0 + sm * i"
      "\<And>i. 0 \<le> i \<Longrightarrow> i \<le> E \<Longrightarrow> wrap_short (n0 + sn * i) = n0 + sn * i"
    and ends: "m1 = m0 + sm * D" and s: "good s"
  shows "\<exists>s1 s'. P m0 n0 s = Some s1 \<and> line_loop P sm sn (2 * D) (2 * E) m1 m0 n0 (2 * E - D) s1 = Some s'
           \<and> draws s s' ((\<lambda>i. pt (m0 + sm * i) (n0 + sn * nearest D E i)) ` {0..D})"
proof -
  let ?p = "\<lambda>i. pt (m0 + sm * i) (n0 + sn * nearest D E i)"
  have p0: "?p 0 = pt m0 n0" by (simp add: nearest_0 [OF D(1)])
  have "wrap_short m0 = m0" "wrap_short n0 = n0" using short(1) [of 0] short(2) [of 0] D by simp_all
  then obtain s1 where s1: "P m0 n0 s = Some s1" "draws s s1 {?p 0}" using put [OF s, of m0 n0] p0 by auto
  obtain s2 where s2: "line_loop P sm sn (2 * D) (2 * E) m1 m0 n0 (2 * E - D) s1 = Some s2" "draws s1 s2 (?p ` {0 + 1..D})"
    using line_loop_draws [of P pt D E sm sn m0 n0 0 s1, OF put D steps short _ _ draws_good [OF s1(2)]] D ends by (auto simp: nearest_0)
  have "{0..D} = insert 0 {0 + 1..D}" using D by auto
  then have "draws s s2 (?p ` {0..D})" using draws_seq [OF s1(2) s2(2)] by simp
  then show ?thesis using s1(1) s2(1) by blast
qed

lemma slanted_line_draws:
  assumes s: "good s" and y: "y1 \<noteq> y0"
    and short: "- 32768 \<le> x0" "x0 \<le> 32767" "- 32768 \<le> y0" "y0 \<le> 32767" "- 32768 \<le> x1" "x1 \<le> 32767" "- 32768 \<le> y1" "y1 \<le> 32767"
  shows "\<exists>s'. slanted_line put x0 y0 x1 y1 s = Some s' \<and> draws s s' (line_points x0 y0 x1 y1)"
proof -
  define sx sy dx dy where d: "sx = (if x1 < x0 then -1 else 1 :: int)" "sy = (if y1 < y0 then -1 else 1 :: int)"
    "dx = \<bar>x1 - x0\<bar>" "dy = \<bar>y1 - y0\<bar>"
  have ends: "x1 = x0 + sx * dx" "y1 = y0 + sy * dy" by (auto simp: d)
  have steps: "\<bar>sx\<bar> = 1" "\<bar>sy\<bar> = 1" by (simp_all add: d)
  have wx: "wrap_short (x0 + sx * i) = x0 + sx * i" if "0 \<le> i" "i \<le> dx" for i
    by (rule wrap_short_id) (use short that in \<open>auto simp: d split: if_splits\<close>)
  have wy: "wrap_short (y0 + sy * i) = y0 + sy * i" if "0 \<le> i" "i \<le> dy" for i
    by (rule wrap_short_id) (use short that in \<open>auto simp: d split: if_splits\<close>)
  have line: "slanted_line put x0 y0 x1 y1 s = Option.bind (put x0 y0 s) (\<lambda>s.
      if dx > dy then line_loop put sx sy (2 * dx) (2 * dy) x1 x0 y0 (2 * dy - dx) s
      else line_loop (\<lambda>y x. put x y) sy sx (2 * dy) (2 * dx) y1 y0 x0 (2 * dx - dy) s)"
    by (simp add: slanted_line_def Let_def d cong: if_cong)
  show ?thesis
  proof (cases "dx > dy")
    case True
    have D: "0 < dx" "0 \<le> dy" "dy \<le> dx" using True by (auto simp: d(4))
    have "line_points x0 y0 x1 y1 = (\<lambda>k. (x0 + sx * k, y0 + sy * nearest dx dy k)) ` {0..dx}"
      using True by (simp add: line_points_def Let_def d)
    then show ?thesis using line_draws [of put Pair dx dy sx sy x0 y0 x1 s, OF draws_put D steps wx wy ends(1) s] True unfolding line by auto
  next
    case False
    have D: "0 < dy" "0 \<le> dx" "dx \<le> dy" using False y by (auto simp: d)
    have "line_points x0 y0 x1 y1 = (\<lambda>k. (x0 + sx * nearest dy dx k, y0 + sy * k)) ` {0..dy}"
      using False by (simp add: line_points_def Let_def d)
    then show ?thesis
      using line_draws [of "\<lambda>y x. put x y" "\<lambda>y x. (x, y)" dy dx sy sx y0 x0 y1 s, OF draws_put D steps(2,1) wy wx ends(2) s] False unfolding line by auto
  qed
qed

end

section \<open>The frame buffer\<close>

subsection \<open>Stores\<close>

lemma length_le_bytes [simp]: "length (le_bytes n c) = n"
  by (simp add: le_bytes_def)

lemma store_bytes_Some:
  "0 \<le> a \<Longrightarrow> a + int (length bs) \<le> int (length m)
   \<Longrightarrow> store_bytes m a bs = Some (take (nat a) m @ bs @ drop (nat a + length bs) m)"
  by (simp add: store_bytes_def)

lemma store_bytes_length: "store_bytes m a bs = Some m' \<Longrightarrow> length m' = length m"
  by (auto simp: store_bytes_def split: if_splits)

lemma store_bytes_append:
  assumes "0 \<le> a" "a + int (length (bs @ cs)) \<le> int (length m)"
  shows "store_bytes m a (bs @ cs) = store_bytes m a bs \<bind> (\<lambda>m. store_bytes m (a + int (length bs)) cs)"
proof -
  have "nat (a + int (length bs)) = nat a + length bs" using assms(1) by simp
  then show ?thesis using assms by (simp add: store_bytes_def algebra_simps)
qed

lemma store_bytes_read:
  assumes "store_bytes m a bs = Some m'"
  shows "take (length bs) (drop (nat a) m') = bs"
    "b + n \<le> nat a \<or> nat a + length bs \<le> b \<Longrightarrow> take n (drop b m') = take n (drop b m)"
proof -
  have m': "m' = take (nat a) m @ bs @ drop (nat a + length bs) m" and a: "nat a + length bs \<le> length m"
    using assms by (auto simp: store_bytes_def split: if_splits)
  show "take (length bs) (drop (nat a) m') = bs" using a by (simp add: m')
  show "take n (drop b m') = take n (drop b m)" if "b + n \<le> nat a \<or> nat a + length bs \<le> b"
    using that
  proof
    assume "b + n \<le> nat a"
    then have "take n (drop b m') = take n (drop b (take (nat a) m))" using a by (simp add: m' take_drop)
    also have "\<dots> = take n (drop b m)" using \<open>b + n \<le> nat a\<close> by (simp add: take_drop min_def)
    finally show ?thesis .
  next
    assume "nat a + length bs \<le> b"
    then have "drop b m' = drop b m" using a by (simp add: m' drop_append)
    then show ?thesis by simp
  qed
qed

lemma byte_loop_stores:
  assumes "0 \<le> p" "0 \<le> i" "nat i + n \<le> length c" "p + i + int n \<le> int (length m)"
  shows "for_loop i n (\<lambda>i m. store_bytes m (p + i) [c ! nat i]) m = store_bytes m (p + i) (take n (drop (nat i) c))"
  using assms
proof (induction n arbitrary: i m)
  case 0
  then show ?case by (simp add: store_bytes_def)
next
  case (Suc n)
  have c: "take (Suc n) (drop (nat i) c) = [c ! nat i] @ take n (drop (nat (i + 1)) c)"
    using Suc.prems by (simp add: Cons_nth_drop_Suc [symmetric] nat_add_distrib)
  obtain m1 where m1: "store_bytes m (p + i) [c ! nat i] = Some m1" using Suc.prems by (simp add: store_bytes_def)
  have "length m1 = length m" using m1 by (rule store_bytes_length)
  then have "for_loop (i + 1) n (\<lambda>i m. store_bytes m (p + i) [c ! nat i]) m1 = store_bytes m1 (p + (i + 1)) (take n (drop (nat (i + 1)) c))"
    using Suc.prems by (intro Suc.IH) (auto simp: nat_add_distrib)
  moreover have "store_bytes m (p + i) (take (Suc n) (drop (nat i) c)) = store_bytes m1 (p + i + 1) (take n (drop (nat (i + 1)) c))"
    unfolding c by (subst store_bytes_append) (use Suc.prems m1 in auto)
  ultimately show ?case using m1 by (simp add: algebra_simps)
qed

text \<open>The copy by pieces of 64 bytes writes the pixel over and over.\<close>

lemma hline_copy_stores:
  assumes "length px * q = 64" "0 \<le> p" "p + int (length px * cnt) \<le> int (length m)"
  shows "hline_copy (concat (replicate q px)) (length px * cnt) p m = store_bytes m p (concat (replicate cnt px))"
  using assms(2,3)
proof (induction cnt arbitrary: p m rule: less_induct)
  case (less cnt)
  let ?c = "concat (replicate q px)"
  have len: "length (concat (replicate j px)) = length px * j" for j by (induction j) simp_all
  show ?case
  proof (cases "length px * cnt > 64")
    case True
    then have q: "q < cnt" using assms(1) by (metis mult_le_mono2 not_le)
    have "q + (cnt - q) = cnt" using q by simp
    then have split: "concat (replicate cnt px) = ?c @ concat (replicate (cnt - q) px)"
      by (metis concat_append replicate_add)
    have rest: "length px * cnt - 64 = length px * (cnt - q)" using assms(1) by (simp add: diff_mult_distrib2)
    have "0 < q" using assms(1) by (cases q) auto
    have "int (length px) * int q = 64" using arg_cong [OF assms(1), of int] by simp
    then have size: "64 + int (length px) * (int cnt - int q) = int (length px) * int cnt" by (simp add: algebra_simps)
    obtain m1 where m1: "store_bytes m p ?c = Some m1"
      using less.prems True len [of q] assms(1) by (auto simp: store_bytes_def)
    have "hline_copy ?c (length px * (cnt - q)) (p + 64) m1 = store_bytes m1 (p + 64) (concat (replicate (cnt - q) px))"
      using less.prems store_bytes_length [OF m1] True rest \<open>0 < q\<close> q by (intro less.IH) (auto simp: assms(1) of_nat_diff simp flip: rest)
    moreover have "store_bytes m p (concat (replicate cnt px)) = store_bytes m1 (p + 64) (concat (replicate (cnt - q) px))"
      unfolding split by (subst store_bytes_append) (use less.prems m1 len assms(1) q size in \<open>auto simp: of_nat_diff\<close>)
    ultimately show ?thesis using True m1 len [of q] assms(1) rest by (subst hline_copy.simps) simp
  next
    case False
    then have q: "cnt \<le> q"
    proof -
      have "length px > 0" using assms(1) by (cases px) auto
      then show ?thesis using False assms(1) by (metis mult_le_cancel1 not_le)
    qed
    then have "cnt + (q - cnt) = q" by simp
    then have split: "?c = concat (replicate cnt px) @ concat (replicate (q - cnt) px)" by (metis concat_append replicate_add)
    have "length px * cnt \<le> 64" using False by simp
    then show ?thesis
      using False less.prems len [of q] len [of cnt] assms(1) byte_loop_stores [of p 0 "length px * cnt" ?c m]
      by (subst hline_copy.simps) (simp add: split)
  qed
qed

subsection \<open>Pixels\<close>

text \<open>
  The buffer holds all rows, a row all its pixels, and sizes are below the limits of \<^verbatim>\<open>short\<close> and \<^verbatim>\<open>int\<close>.
\<close>

definition image_ok :: "rawfb_image \<Rightarrow> bool" where
  "image_ok im \<longleftrightarrow> 0 \<le> im_w im \<and> im_w im \<le> 32767 \<and> 0 \<le> im_h im \<and> im_h im \<le> 32767 \<and> pl_bpp (im_pl im) \<in> {1, 2, 4}
     \<and> int (pl_bpp (im_pl im)) * im_w im \<le> im_pitch im \<and> im_h im * im_pitch im \<le> int (length (im_pixels im))
     \<and> int (length (im_pixels im)) \<le> INT_MAX"

definition pixel_in :: "rawfb_image \<Rightarrow> int \<times> int \<Rightarrow> bool" where
  "pixel_in im p \<longleftrightarrow> 0 \<le> fst p \<and> fst p < im_w im \<and> 0 \<le> snd p \<and> snd p < im_h im"

definition pixel_addr :: "rawfb_image \<Rightarrow> int \<times> int \<Rightarrow> int" where
  "pixel_addr im p = snd p * im_pitch im + int (px_size (im_pl im)) * fst p"

text \<open>The bytes of a pixel.\<close>

definition pixel_at :: "rawfb_image \<Rightarrow> int \<times> int \<Rightarrow> 8 word list" where
  "pixel_at im p =
     (if pixel_in im p then take (px_size (im_pl im)) (drop (nat (pixel_addr im p)) (im_pixels im)) else [])"

lemma px_size_bpp: "image_ok im \<Longrightarrow> px_size (im_pl im) = pl_bpp (im_pl im)"
  by (auto simp: image_ok_def px_size_def)

lemma row_end:
  assumes "image_ok im" "pixel_in im p"
  shows "0 \<le> pixel_addr im p" "pixel_addr im p + int (px_size (im_pl im)) \<le> (snd p + 1) * im_pitch im"
    "snd p * im_pitch im \<le> pixel_addr im p"
proof -
  let ?k = "int (px_size (im_pl im))"
  have p: "0 \<le> fst p" "fst p + 1 \<le> im_w im" "0 \<le> snd p" using assms(2) by (auto simp: pixel_in_def)
  have k: "?k * im_w im \<le> im_pitch im" "0 \<le> ?k" using assms(1) px_size_bpp [OF assms(1)] by (auto simp: image_ok_def)
  then have pitch: "0 \<le> im_pitch im" using p by (smt (verit) mult_nonneg_nonneg)
  have "?k * (fst p + 1) \<le> ?k * im_w im" using k(2) p by (intro mult_left_mono) auto
  then have row: "?k * fst p + ?k \<le> im_pitch im" using k(1) by (simp add: distrib_left)
  have x: "0 \<le> ?k * fst p" "0 \<le> snd p * im_pitch im" using p k(2) pitch by simp_all
  then show "0 \<le> pixel_addr im p" "snd p * im_pitch im \<le> pixel_addr im p" by (simp_all add: pixel_addr_def)
  show "pixel_addr im p + ?k \<le> (snd p + 1) * im_pitch im" using row by (simp add: pixel_addr_def distrib_right)
qed

lemma pitch_nonneg:
  assumes "image_ok im"
  shows "0 \<le> im_pitch im"
proof -
  have "0 \<le> int (pl_bpp (im_pl im)) * im_w im" using assms by (simp add: image_ok_def)
  then show ?thesis using assms unfolding image_ok_def by linarith
qed

lemma pixel_addr_end:
  assumes "image_ok im" "pixel_in im p"
  shows "pixel_addr im p + int (px_size (im_pl im)) \<le> int (length (im_pixels im))"
proof -
  have "(snd p + 1) * im_pitch im \<le> im_h im * im_pitch im"
    using pitch_nonneg [OF assms(1)] assms(2) by (intro mult_right_mono) (auto simp: pixel_in_def)
  then show ?thesis using row_end(2) [OF assms] assms(1) unfolding image_ok_def by linarith
qed

lemma pixels_apart:
  assumes "image_ok im" "pixel_in im p" "pixel_in im q" "p \<noteq> q"
  shows "pixel_addr im p + int (px_size (im_pl im)) \<le> pixel_addr im q \<or> pixel_addr im q + int (px_size (im_pl im)) \<le> pixel_addr im p"
proof -
  let ?k = "int (px_size (im_pl im))"
  have rows: "pixel_addr im r + ?k \<le> pixel_addr im t" if "pixel_in im r" "pixel_in im t" "snd r < snd t" for r t
  proof -
    have "(snd r + 1) * im_pitch im \<le> snd t * im_pitch im" using that(3) pitch_nonneg [OF assms(1)] by (intro mult_right_mono) auto
    then show ?thesis using row_end(2) [OF assms(1) that(1)] row_end(3) [OF assms(1) that(2)] by linarith
  qed
  have cols: "pixel_addr im r + ?k \<le> pixel_addr im t" if "snd r = snd t" "fst r < fst t" for r t
  proof -
    have "?k * (fst r + 1) \<le> ?k * fst t" using that(2) by (intro mult_left_mono) auto
    then show ?thesis using that(1) by (simp add: pixel_addr_def distrib_left)
  qed
  consider "snd p < snd q" | "snd q < snd p" | "snd p = snd q" "fst p < fst q" | "snd p = snd q" "fst q < fst p"
    using assms(4) by (metis linorder_less_linear prod.expand)
  then show ?thesis by cases (use rows assms cols in auto)
qed

text \<open>Storing one pixel.\<close>

lemma store_pixel:
  assumes "image_ok im" "pixel_in im p" "length bs = px_size (im_pl im)"
  obtains m where "store_bytes (im_pixels im) (pixel_addr im p) bs = Some m" "length m = length (im_pixels im)"
    "pixel_at (im\<lparr>im_pixels := m\<rparr>) = (pixel_at im)(p := bs)"
proof -
  let ?im = "\<lambda>m. im\<lparr>im_pixels := m\<rparr>"
  obtain m where m: "store_bytes (im_pixels im) (pixel_addr im p) bs = Some m"
    using row_end(1) [OF assms(1,2)] pixel_addr_end [OF assms(1,2)] assms(3) by (simp add: store_bytes_def)
  have same: "pixel_in (?im m) = pixel_in im" "pixel_addr (?im m) = pixel_addr im"
    by (simp_all add: fun_eq_iff pixel_in_def pixel_addr_def)
  have "pixel_at (?im m) q = ((pixel_at im)(p := bs)) q" for q
  proof (cases "q = p")
    case True
    then show ?thesis using store_bytes_read(1) [OF m] assms(2,3) by (simp add: pixel_at_def same)
  next
    case False
    show ?thesis
    proof (cases "pixel_in im q")
      case True
      have "nat (pixel_addr im q) + px_size (im_pl im) \<le> nat (pixel_addr im p)
          \<or> nat (pixel_addr im p) + length bs \<le> nat (pixel_addr im q)"
        using pixels_apart [OF assms(1) True assms(2) False] row_end(1) [OF assms(1)] assms(2,3) True by fastforce
      then show ?thesis using store_bytes_read(2) [OF m] True False by (simp add: pixel_at_def same)
    qed (use False in \<open>simp add: pixel_at_def same\<close>)
  qed
  then show thesis using that [OF m store_bytes_length [OF m]] by blast
qed

text \<open>What stays when pixels are set: everything but the contents of the buffer.\<close>

definition frame_of :: "rawfb_context \<Rightarrow> rawfb_context \<times> nat" where
  "frame_of ctx = (ctx\<lparr>fb := (fb ctx)\<lparr>im_pixels := []\<rparr>\<rparr>, length (im_pixels (fb ctx)))"

definition scissors_ok :: "rawfb_context \<Rightarrow> bool" where
  "scissors_ok ctx \<longleftrightarrow> 0 \<le> rc_x (scissors ctx) \<and> rc_x (scissors ctx) \<le> im_w (fb ctx)
     \<and> 0 \<le> rc_y (scissors ctx) \<and> rc_y (scissors ctx) \<le> im_h (fb ctx)
     \<and> 0 \<le> rc_w (scissors ctx) \<and> rc_w (scissors ctx) \<le> im_w (fb ctx)
     \<and> 0 \<le> rc_h (scissors ctx) \<and> rc_h (scissors ctx) \<le> im_h (fb ctx)"

definition context_ok :: "rawfb_context \<Rightarrow> bool" where
  "context_ok ctx \<longleftrightarrow> image_ok (fb ctx) \<and> scissors_ok ctx \<and> image_ok (font_tex ctx)"

definition in_scissors :: "rawfb_context \<Rightarrow> (int \<times> int) set" where
  "in_scissors ctx = {rc_x (scissors ctx)..<rc_w (scissors ctx)} \<times> {rc_y (scissors ctx)..<rc_h (scissors ctx)}"

lemma in_scissors_in: "scissors_ok ctx \<Longrightarrow> p \<in> in_scissors ctx \<Longrightarrow> pixel_in (fb ctx) p"
  by (auto simp: in_scissors_def scissors_ok_def pixel_in_def)

lemma new_pixels_ok [simp]:
  assumes "length m = length (im_pixels (fb ctx))"
  shows "context_ok (ctx\<lparr>fb := (fb ctx)\<lparr>im_pixels := m\<rparr>\<rparr>) = context_ok ctx"
    "frame_of (ctx\<lparr>fb := (fb ctx)\<lparr>im_pixels := m\<rparr>\<rparr>) = frame_of ctx"
    "in_scissors (ctx\<lparr>fb := (fb ctx)\<lparr>im_pixels := m\<rparr>\<rparr>) = in_scissors ctx"
  using assms by (simp_all add: context_ok_def image_ok_def scissors_ok_def frame_of_def in_scissors_def)

interpretation fbuf: raster "nk_rawfb_ctx_setpixel col" "\<lambda>ctx. context_ok ctx \<and> frame_of ctx = g" in_scissors "\<lambda>ctx. pixel_at (fb ctx)"
  "le_bytes (px_size (im_pl (fb (fst g)))) col" for col g
proof unfold_locales
  fix ctx x y
  assume ok: "context_ok ctx \<and> frame_of ctx = g"
  let ?p = "(wrap_short x, wrap_short y)" and ?k = "px_size (im_pl (fb ctx))"
  have g: "px_size (im_pl (fb (fst g))) = ?k" using ok by (auto simp: frame_of_def)
  have im: "image_ok (fb ctx)" "scissors_ok ctx" using ok by (simp_all add: context_ok_def)
  show "\<exists>ctx'. nk_rawfb_ctx_setpixel col x y ctx = Some ctx' \<and> (context_ok ctx' \<and> frame_of ctx' = g) \<and> in_scissors ctx' = in_scissors ctx
      \<and> pixel_at (fb ctx') = (\<lambda>p. if p = ?p \<and> p \<in> in_scissors ctx then le_bytes (px_size (im_pl (fb (fst g)))) col else pixel_at (fb ctx) p)"
  proof (cases "?p \<in> in_scissors ctx")
    case True
    obtain m where m: "store_bytes (im_pixels (fb ctx)) (pixel_addr (fb ctx) ?p) (le_bytes ?k col) = Some m"
        "length m = length (im_pixels (fb ctx))" "pixel_at ((fb ctx)\<lparr>im_pixels := m\<rparr>) = (pixel_at (fb ctx))(?p := le_bytes ?k col)"
      by (rule store_pixel [OF im(1) in_scissors_in [OF im(2) True], of "le_bytes ?k col"]) simp_all
    have "nk_rawfb_ctx_setpixel col x y ctx = Some (ctx\<lparr>fb := (fb ctx)\<lparr>im_pixels := m\<rparr>\<rparr>)"
      using True m(1) by (simp add: nk_rawfb_ctx_setpixel_def Let_def in_scissors_def pixel_addr_def)
    then show ?thesis using True m ok g by (auto simp: fun_eq_iff)
  next
    case False
    then have "nk_rawfb_ctx_setpixel col x y ctx = Some ctx"
      by (auto simp: nk_rawfb_ctx_setpixel_def Let_def in_scissors_def)
    then show ?thesis using False ok by (auto simp: fun_eq_iff)
  qed
qed

text \<open>
  The result of drawing a shape in one colour: nothing but the contents of the buffer changes, and there exactly the
  pixels of \<open>S\<close> inside the scissors.
\<close>

definition paints :: "32 word \<Rightarrow> rawfb_context \<Rightarrow> rawfb_context \<Rightarrow> (int \<times> int) set \<Rightarrow> bool" where
  "paints col ctx ctx' S \<longleftrightarrow> context_ok ctx' \<and> frame_of ctx' = frame_of ctx
     \<and> pixel_at (fb ctx') = (\<lambda>p. if p \<in> S \<and> p \<in> in_scissors ctx then le_bytes (px_size (im_pl (fb ctx))) col else pixel_at (fb ctx) p)"

lemma frame_of_eq:
  assumes "frame_of ctx' = frame_of ctx"
  shows "scissors ctx' = scissors ctx" "font_tex ctx' = font_tex ctx" "in_scissors ctx' = in_scissors ctx" "im_pl (fb ctx') = im_pl (fb ctx)"
    "im_w (fb ctx') = im_w (fb ctx)" "im_h (fb ctx') = im_h (fb ctx)" "im_pitch (fb ctx') = im_pitch (fb ctx)"
    "length (im_pixels (fb ctx')) = length (im_pixels (fb ctx))"
proof -
  have eq: "ctx'\<lparr>fb := (fb ctx')\<lparr>im_pixels := []\<rparr>\<rparr> = ctx\<lparr>fb := (fb ctx)\<lparr>im_pixels := []\<rparr>\<rparr>"
    and len: "length (im_pixels (fb ctx')) = length (im_pixels (fb ctx))" using assms by (simp_all add: frame_of_def)
  show "length (im_pixels (fb ctx')) = length (im_pixels (fb ctx))" by (rule len)
  show "scissors ctx' = scissors ctx" using arg_cong [OF eq, of scissors] by simp
  then show "in_scissors ctx' = in_scissors ctx" by (simp add: in_scissors_def)
  show "font_tex ctx' = font_tex ctx" using arg_cong [OF eq, of font_tex] by simp
  show "im_pl (fb ctx') = im_pl (fb ctx)" "im_w (fb ctx') = im_w (fb ctx)" "im_h (fb ctx') = im_h (fb ctx)" "im_pitch (fb ctx') = im_pitch (fb ctx)"
    using arg_cong [OF eq, of "\<lambda>c. im_pl (fb c)"] arg_cong [OF eq, of "\<lambda>c. im_w (fb c)"] arg_cong [OF eq, of "\<lambda>c. im_h (fb c)"]
      arg_cong [OF eq, of "\<lambda>c. im_pitch (fb c)"] by simp_all
qed

lemma paints_none: "context_ok ctx \<Longrightarrow> paints col ctx ctx {}"
  by (simp add: paints_def)

lemma paints_ok: "paints col ctx ctx' S \<Longrightarrow> context_ok ctx'"
  by (simp add: paints_def)

lemma paints_seq:
  assumes "paints col ctx ctx' S" "paints col ctx' ctx'' T"
  shows "paints col ctx ctx'' (S \<union> T)"
proof -
  have "frame_of ctx' = frame_of ctx" using assms(1) by (simp add: paints_def)
  then show ?thesis using assms frame_of_eq [of ctx' ctx] by (auto simp: paints_def fun_eq_iff)
qed

lemma paints_cong: "paints col ctx ctx' S \<Longrightarrow> S \<inter> in_scissors ctx = T \<inter> in_scissors ctx \<Longrightarrow> paints col ctx ctx' T"
  by (auto simp: paints_def fun_eq_iff)

lemma draws_paints:
  assumes "frame_of ctx = g"
  shows "raster.draws (\<lambda>ctx. context_ok ctx \<and> frame_of ctx = g) in_scissors (\<lambda>ctx. pixel_at (fb ctx))
      (le_bytes (px_size (im_pl (fb (fst g)))) col) ctx ctx' S \<longleftrightarrow> paints col ctx ctx' S"
proof -
  have "px_size (im_pl (fb (fst g))) = px_size (im_pl (fb ctx))" using assms by (auto simp: frame_of_def)
  then show ?thesis unfolding fbuf.draws_def paints_def using assms frame_of_eq(3) [of ctx' ctx] by auto
qed

lemma paints_put: "context_ok ctx \<Longrightarrow> \<exists>ctx'. nk_rawfb_ctx_setpixel col x y ctx = Some ctx' \<and> paints col ctx ctx' {(wrap_short x, wrap_short y)}"
  using fbuf.draws_put [of ctx "frame_of ctx" col x y] draws_paints [of ctx "frame_of ctx" col] by simp

lemma paints_loop:
  assumes "context_ok ctx" and "\<And>j s. i \<le> j \<Longrightarrow> j < i + int n \<Longrightarrow> context_ok s \<Longrightarrow> frame_of s = frame_of ctx
      \<Longrightarrow> \<exists>s'. body j s = Some s' \<and> paints col s s' (S j)"
  shows "\<exists>ctx'. for_loop i n body ctx = Some ctx' \<and> paints col ctx ctx' (\<Union>j\<in>{i..<i + int n}. S j)"
  using fbuf.draws_loop [of ctx "frame_of ctx" i n body col S] assms draws_paints by simp

subsection \<open>Horizontal lines\<close>

lemma line_pattern_replicate: "bpp \<in> {1, 2, 4} \<Longrightarrow> length junk = 64 \<Longrightarrow> line_pattern junk bpp col = concat (replicate (64 div bpp) (le_bytes bpp col))"
  by (auto simp: line_pattern_def)

lemma store_run:
  assumes "image_ok im" "0 \<le> y" "y < im_h im" "0 \<le> x" "x + int n \<le> im_w im" "length bs = px_size (im_pl im)"
  shows "\<exists>m. store_bytes (im_pixels im) (pixel_addr im (x, y)) (concat (replicate n bs)) = Some m \<and> length m = length (im_pixels im)
    \<and> pixel_at (im\<lparr>im_pixels := m\<rparr>) = (\<lambda>p. if p \<in> {x..<x + int n} \<times> {y} then bs else pixel_at im p)"
  using assms
proof (induction n arbitrary: im x)
  case 0
  have "0 \<le> pixel_addr im (x, y)" using pitch_nonneg [OF "0.prems"(1)] "0.prems" by (simp add: pixel_addr_def)
  moreover have "y * im_pitch im + int (px_size (im_pl im)) * x \<le> int (length (im_pixels im))"
  proof -
    have "int (px_size (im_pl im)) * x \<le> int (px_size (im_pl im)) * im_w im" using "0.prems" by (intro mult_left_mono) auto
    moreover have "(y + 1) * im_pitch im \<le> im_h im * im_pitch im" using pitch_nonneg [OF "0.prems"(1)] "0.prems" by (intro mult_right_mono) auto
    ultimately show ?thesis using "0.prems"(1) px_size_bpp [OF "0.prems"(1)] by (simp add: image_ok_def distrib_right)
  qed
  ultimately show ?case by (simp add: store_bytes_def pixel_addr_def fun_eq_iff)
next
  case (Suc n)
  have inp: "pixel_in im (x, y)" using Suc.prems by (simp add: pixel_in_def)
  obtain m where m: "store_bytes (im_pixels im) (pixel_addr im (x, y)) bs = Some m" "length m = length (im_pixels im)"
      "pixel_at (im\<lparr>im_pixels := m\<rparr>) = (pixel_at im)((x, y) := bs)"
    using store_pixel [OF Suc.prems(1) inp Suc.prems(6)] by blast
  let ?im = "im\<lparr>im_pixels := m\<rparr>"
  have ok: "image_ok ?im" using Suc.prems(1) m(2) by (simp add: image_ok_def)
  obtain m' where m': "store_bytes m (pixel_addr ?im (x + 1, y)) (concat (replicate n bs)) = Some m'" "length m' = length m"
      "pixel_at (?im\<lparr>im_pixels := m'\<rparr>) = (\<lambda>p. if p \<in> {x + 1..<x + 1 + int n} \<times> {y} then bs else pixel_at ?im p)"
    using Suc.IH [of ?im "x + 1"] ok Suc.prems by auto
  have addr: "pixel_addr ?im (x + 1, y) = pixel_addr im (x, y) + int (length bs)"
    using Suc.prems(6) by (simp add: pixel_addr_def algebra_simps)
  have a0: "0 \<le> pixel_addr im (x, y)" using row_end(1) [OF Suc.prems(1) inp] .
  have fits: "pixel_addr im (x, y) + int (length bs) + int (length (concat (replicate n bs))) \<le> int (length (im_pixels im))"
    using m'(1) m(2) addr by (simp add: store_bytes_def split: if_splits)
  have "store_bytes (im_pixels im) (pixel_addr im (x, y)) (concat (replicate (Suc n) bs)) = Some m'"
    using store_bytes_append [of "pixel_addr im (x, y)" bs "concat (replicate n bs)" "im_pixels im"] a0 fits m(1) m'(1) addr by simp
  moreover have "pixel_at (im\<lparr>im_pixels := m'\<rparr>) = (\<lambda>p. if p \<in> {x..<x + int (Suc n)} \<times> {y} then bs else pixel_at im p)"
    using m'(3) m(3) by (auto simp: fun_eq_iff)
  ultimately show ?case using m'(2) m(2) by auto
qed

lemma line_horizontal_paints:
  assumes ok: "context_ok ctx" and junk: "length junk = 64" and x: "0 \<le> x0" "x0 \<le> x1" "x1 \<le> im_w (fb ctx)" and y: "0 \<le> y" "y < im_h (fb ctx)"
    and clip: "{x0..<x1} \<times> {y} \<subseteq> in_scissors ctx"
  shows "\<exists>ctx'. nk_rawfb_line_horizontal junk x0 y x1 col ctx = Some ctx' \<and> paints col ctx ctx' ({x0..<x1} \<times> {y})"
proof -
  let ?im = "fb ctx" let ?k = "px_size (im_pl ?im)" let ?bs = "le_bytes ?k col"
  have im: "image_ok ?im" using ok by (simp add: context_ok_def)
  have bpp: "pl_bpp (im_pl ?im) = ?k" "?k \<in> {1, 2, 4}" using px_size_bpp [OF im] im by (auto simp: image_ok_def)
  have n: "x0 + int (nat (x1 - x0)) \<le> im_w ?im" using x by simp
  obtain m where m: "store_bytes (im_pixels ?im) (pixel_addr ?im (x0, y)) (concat (replicate (nat (x1 - x0)) ?bs)) = Some m"
      "length m = length (im_pixels ?im)"
      "pixel_at (?im\<lparr>im_pixels := m\<rparr>) = (\<lambda>p. if p \<in> {x0..<x0 + int (nat (x1 - x0))} \<times> {y} then ?bs else pixel_at ?im p)"
    using store_run [OF im y x(1) n, of ?bs] by auto
  have addr: "0 \<le> pixel_addr ?im (x0, y)" "pixel_addr ?im (x0, y) + int (length ?bs * nat (x1 - x0)) \<le> int (length (im_pixels ?im))"
    using m(1) by (auto simp: store_bytes_def length_concat sum_list_replicate mult.commute split: if_splits)
  have top: "int (length (im_pixels ?im)) < 4294967296" using im by (simp add: image_ok_def INT_MAX_def)
  have "pixel_addr ?im (x0, y) < 4294967296" using addr(2) top by linarith
  then have p: "(y * im_pitch ?im + x0 * int ?k) mod 4294967296 = pixel_addr ?im (x0, y)"
    using addr(1) by (simp add: pixel_addr_def mult.commute)
  have "(x1 - x0) * int ?k = int (?k * nat (x1 - x0))" using x by simp
  moreover have "int (?k * nat (x1 - x0)) < 4294967296" using addr top unfolding length_le_bytes by linarith
  ultimately have "nat ((x1 - x0) * int ?k mod 4294967296) = nat (int (?k * nat (x1 - x0)))" by (simp only: mod_pos_pos_trivial of_nat_0_le_iff)
  then have n: "nat ((x1 - x0) * int ?k mod 4294967296) = length ?bs * nat (x1 - x0)" by (simp only: nat_int length_le_bytes)
  have "hline_copy (line_pattern junk ?k col) (length ?bs * nat (x1 - x0)) (pixel_addr ?im (x0, y)) (im_pixels ?im) = Some m"
    using hline_copy_stores [of ?bs "64 div ?k"] bpp(2) addr m(1) line_pattern_replicate [OF bpp(2) junk] by auto
  then have "nk_rawfb_line_horizontal junk x0 y x1 col ctx = Some (ctx\<lparr>fb := ?im\<lparr>im_pixels := m\<rparr>\<rparr>)"
    by (simp add: nk_rawfb_line_horizontal_def Let_def bpp(1) p n)
  moreover have "paints col ctx (ctx\<lparr>fb := ?im\<lparr>im_pixels := m\<rparr>\<rparr>) ({x0..<x1} \<times> {y})"
  proof -
    have "(a, y) \<in> in_scissors ctx" if "x0 \<le> a" "a < x1" for a using that clip by auto
    then show ?thesis using ok m(2,3) x by (auto simp: paints_def fun_eq_iff)
  qed
  ultimately show ?thesis by blast
qed

text \<open>A horizontal line leaves its right end out, a slanted one draws both its ends.\<close>

definition stroke_points :: "int \<Rightarrow> int \<Rightarrow> int \<Rightarrow> int \<Rightarrow> (int \<times> int) set" where
  "stroke_points x0 y0 x1 y1 = (if y1 = y0 then {min x0 x1..<max x0 x1} \<times> {y0} else line_points x0 y0 x1 y1)"

lemma stroke_line_paints:
  assumes "context_ok ctx" "length junk = 64"
  shows "\<exists>ctx'. nk_rawfb_stroke_line junk a0 b0 a1 b1 col ctx = Some ctx'
    \<and> paints col ctx ctx' (stroke_points (wrap_short a0) (wrap_short b0) (wrap_short a1) (wrap_short b1))"
proof -
  define x0 y0 x1 y1 where w: "x0 = wrap_short a0" "y0 = wrap_short b0" "x1 = wrap_short a1" "y1 = wrap_short b1"
  let ?s = "scissors ctx"
  have sc: "0 \<le> rc_x ?s" "rc_x ?s \<le> im_w (fb ctx)" "0 \<le> rc_y ?s" "0 \<le> rc_w ?s" "rc_w ?s \<le> im_w (fb ctx)" "rc_h ?s \<le> im_h (fb ctx)"
    using assms(1) by (simp_all add: context_ok_def scissors_ok_def)
  consider "y1 \<noteq> y0" | "y1 = y0" "x1 - x0 = 0 \<or> y0 \<ge> rc_h ?s \<or> y0 < rc_y ?s" | "y1 = y0" "\<not> (x1 - x0 = 0 \<or> y0 \<ge> rc_h ?s \<or> y0 < rc_y ?s)"
    by blast
  then show ?thesis unfolding w [symmetric]
  proof cases
    case 1
    have "\<exists>ctx'. slanted_line (nk_rawfb_ctx_setpixel col) x0 y0 x1 y1 ctx = Some ctx' \<and> paints col ctx ctx' (line_points x0 y0 x1 y1)"
      using fbuf.slanted_line_draws [of ctx "frame_of ctx" y1 y0 x0 x1 col] assms(1) 1 wrap_short_range draws_paints [of ctx "frame_of ctx" col]
      by (simp add: w)
    then show "\<exists>ctx'. nk_rawfb_stroke_line junk a0 b0 a1 b1 col ctx = Some ctx' \<and> paints col ctx ctx' (stroke_points x0 y0 x1 y1)"
      using 1 by (simp add: nk_rawfb_stroke_line_def Let_def stroke_points_def flip: w)
  next
    case 2
    then have "{min x0 x1..<max x0 x1} \<times> {y0} \<inter> in_scissors ctx = {}" by (auto simp: in_scissors_def)
    then have "paints col ctx ctx (stroke_points x0 y0 x1 y1)"
      using 2 paints_cong [OF paints_none [OF assms(1)]] by (simp add: stroke_points_def)
    then show "\<exists>ctx'. nk_rawfb_stroke_line junk a0 b0 a1 b1 col ctx = Some ctx' \<and> paints col ctx ctx' (stroke_points x0 y0 x1 y1)"
      using 2 by (simp add: nk_rawfb_stroke_line_def Let_def flip: w)
  next
    case 3
    let ?l = "max (rc_x ?s) (min (rc_w ?s) (min x0 x1))" and ?r = "max (rc_x ?s) (min (rc_w ?s) (max x0 x1))"
    have "\<exists>ctx'. nk_rawfb_line_horizontal junk ?l y0 ?r col ctx = Some ctx' \<and> paints col ctx ctx' ({?l..<?r} \<times> {y0})"
      using 3 sc by (intro line_horizontal_paints assms) (auto simp: in_scissors_def)
    moreover have "{?l..<?r} \<times> {y0} \<inter> in_scissors ctx = stroke_points x0 y0 x1 y1 \<inter> in_scissors ctx"
      using 3 by (auto simp: stroke_points_def in_scissors_def)
    ultimately have "\<exists>ctx'. nk_rawfb_line_horizontal junk ?l y0 ?r col ctx = Some ctx' \<and> paints col ctx ctx' (stroke_points x0 y0 x1 y1)"
      using paints_cong by blast
    moreover have "nk_rawfb_stroke_line junk a0 b0 a1 b1 col ctx = nk_rawfb_line_horizontal junk ?l y0 ?r col ctx"
      using 3 by (simp add: nk_rawfb_stroke_line_def Let_def min_def max_def flip: w)
    ultimately show "\<exists>ctx'. nk_rawfb_stroke_line junk a0 b0 a1 b1 col ctx = Some ctx' \<and> paints col ctx ctx' (stroke_points x0 y0 x1 y1)"
      by simp
  qed
qed

section \<open>Colours and stored pixels\<close>

text \<open>The pixel format of the screen, set in \<^verbatim>\<open>main\<close>, and the one of the font texture, set in \<^verbatim>\<open>nk_rawfb_init\<close>.\<close>

definition screen_pl :: rawfb_pl where
  "screen_pl = \<lparr>pl_bpp = 4, pl_rshift = 16, pl_gshift = 8, pl_bshift = 0, pl_ashift = 24,
                pl_rloss = 0, pl_gloss = 0, pl_bloss = 0, pl_aloss = 0\<rparr>"

definition font_pl :: rawfb_pl where
  "font_pl = \<lparr>pl_bpp = 1, pl_rshift = 0, pl_gshift = 0, pl_bshift = 0, pl_ashift = 0,
              pl_rloss = 8, pl_gloss = 8, pl_bloss = 8, pl_aloss = 0\<rparr>"

lemma bit_byte: "bit (v :: 8 word) n \<Longrightarrow> n < 8"
  using bit_imp_le_length [of v n] by simp

lemma and_255: "(x :: 32 word) AND 0xFF = take_bit 8 x"
  by (simp add: take_bit_eq_mask mask_eq_exp_minus_1 and.commute)

lemma chan_inverse:
  assumes "\<And>n. bit i (s + n) \<and> n < 8 \<longleftrightarrow> bit v n"
  shows "get_chan i 0 s = v"
proof (rule bit_eqI)
  fix n
  show "bit (get_chan i 0 s) n = bit v n"
    using assms [of n] bit_imp_le_length [of i "s + n"] by (auto simp: get_chan_def and_255 bit_simps)
qed

lemma bit_put_chan: "bit (put_chan v 0 s) n \<longleftrightarrow> s \<le> n \<and> bit v (n - s) \<and> n < 32"
  by (auto simp: put_chan_def bit_simps dest: bit_byte)

lemma screen_color_roundtrip: "nk_rawfb_int2color (nk_rawfb_color2int c screen_pl) screen_pl = c"
proof -
  have "get_chan (nk_rawfb_color2int c screen_pl) 0 16 = nk_r c" "get_chan (nk_rawfb_color2int c screen_pl) 0 8 = nk_g c"
    "get_chan (nk_rawfb_color2int c screen_pl) 0 0 = nk_b c" "get_chan (nk_rawfb_color2int c screen_pl) 0 24 = nk_a c"
    by (rule chan_inverse; auto simp: nk_rawfb_color2int_def screen_pl_def bit_simps bit_put_chan dest: bit_byte)+
  then show ?thesis by (simp add: nk_rawfb_int2color_def screen_pl_def)
qed

lemma bit_of_le_bytes: "bit (of_le_bytes (b # bs)) m \<longleftrightarrow> (if m < 8 then bit b m else m < 32 \<and> bit (of_le_bytes bs) (m - 8))"
  by (auto simp: of_le_bytes_def bit_simps dest: bit_byte)

lemma bit_ucast_byte: "m < 8 \<Longrightarrow> bit (ucast (drop_bit j (c :: 32 word)) :: 8 word) m = bit c (j + m)"
  using bit_imp_le_length [of c "j + m"] by (auto simp: bit_simps)

lemma of_le_bytes_4: "of_le_bytes (le_bytes 4 c) = c"
proof (rule bit_word_eqI)
  fix n
  assume "n < LENGTH(32)"
  then have n: "n < 32" by simp
  have bytes: "le_bytes 4 c = [ucast (drop_bit 0 c), ucast (drop_bit 8 c), ucast (drop_bit 16 c), ucast (drop_bit 24 c)]"
    by (simp add: le_bytes_def upt_rec)
  consider "n < 8" | "8 \<le> n" "n < 16" | "16 \<le> n" "n < 24" | "24 \<le> n" using n by linarith
  then show "bit (of_le_bytes (le_bytes 4 c)) n = bit c n"
    unfolding bytes using n
    by cases (simp_all add: bit_of_le_bytes bit_ucast_byte [of n 0 c, simplified] bit_ucast_byte less_diff_conv2 less_imp_diff_less)
qed

text \<open>A colour put into a pixel of the screen is read back, and no other pixel changes.\<close>

lemma img_pixel_roundtrip:
  assumes "image_ok im" "im_pl im = screen_pl" "pixel_in im (x, y)"
  shows "\<exists>im'. nk_rawfb_img_setpixel im x y c = Some im' \<and> nk_rawfb_img_getpixel im' x y = Some c
    \<and> (\<forall>p. p \<noteq> (x, y) \<longrightarrow> pixel_at im' p = pixel_at im p)"
proof -
  have k: "px_size (im_pl im) = 4" by (simp add: assms(2) px_size_def screen_pl_def)
  let ?bs = "le_bytes 4 (nk_rawfb_color2int c screen_pl)"
  obtain m where m: "store_bytes (im_pixels im) (pixel_addr im (x, y)) ?bs = Some m" "length m = length (im_pixels im)"
      "pixel_at (im\<lparr>im_pixels := m\<rparr>) = (pixel_at im)((x, y) := ?bs)"
    using store_pixel [OF assms(1,3), of ?bs] k by auto
  let ?im = "im\<lparr>im_pixels := m\<rparr>"
  have inp: "0 \<le> x" "x < im_w im" "0 \<le> y" "y < im_h im" using assms(3) by (simp_all add: pixel_in_def)
  have set: "nk_rawfb_img_setpixel im x y c = Some ?im"
    using m(1) inp k by (simp add: nk_rawfb_img_setpixel_def Let_def assms(2) pixel_addr_def mult.commute)
  have addr: "0 \<le> pixel_addr im (x, y)" "pixel_addr im (x, y) + 4 \<le> int (length m)"
    using row_end(1) [OF assms(1,3)] pixel_addr_end [OF assms(1,3)] k m(2) by simp_all
  have "take 4 (drop (nat (pixel_addr im (x, y))) m) = ?bs" using store_bytes_read(1) [OF m(1)] by simp
  then have "nk_rawfb_img_getpixel ?im x y = Some c"
    using inp k addr by (simp add: nk_rawfb_img_getpixel_def Let_def assms(2) load_bytes_def pixel_addr_def mult.commute
        of_le_bytes_4 screen_color_roundtrip)
  then show ?thesis using set m(3) by auto
qed

lemma opaque_blend_darker:
  assumes "0 < c"
  shows "blend_chan 0xFF c c2 = c - 1"
proof -
  have "uint c < 256" using uint_bounded [of c] by simp
  moreover have "uint (0 :: 8 word) < uint c" using assms by (simp only: word_less_def)
  ultimately have "1 \<le> uint c" "uint c \<le> 255" by simp_all
  then have "uint c * 255 div 256 = uint c - 1" by (intro int_div_pos_eq [of _ _ _ "256 - uint c"]) simp_all
  then show ?thesis by (simp add: blend_chan_def)
qed

section \<open>Properties\<close>

text \<open>
  C33 (stroke_line_exact). A line is drawn without an access outside the frame buffer, and changes exactly the pixels of the
  ideal line that lie inside the scissors: a horizontal line, copied by pieces of 64 bytes, all pixels from its left end
  to before its right one; a slanted one, drawn by integer steps that only add and compare, in every column (or row, when it is steep)
  the pixel nearest to the exact line, from one end to the other.
\<close>

theorem stroke_line_exact:
  assumes "context_ok ctx" "length junk = 64"
  shows "\<exists>ctx'. nk_rawfb_stroke_line junk x0 y0 x1 y1 col ctx = Some ctx' \<and> context_ok ctx' \<and> frame_of ctx' = frame_of ctx
    \<and> (\<forall>p. pixel_at (fb ctx') p =
         (if p \<in> stroke_points (wrap_short x0) (wrap_short y0) (wrap_short x1) (wrap_short y1) \<and> p \<in> in_scissors ctx
          then le_bytes (px_size (im_pl (fb ctx))) col else pixel_at (fb ctx) p))"
  using stroke_line_paints [OF assms, of x0 y0 x1 y1 col] by (auto simp: paints_def)

definition demo_screen :: rawfb_context where
  "demo_screen =
     \<lparr>scissors = \<lparr>rc_x = 0, rc_y = 0, rc_w = 4, rc_h = 3\<rparr>,
      fb = \<lparr>im_pixels = replicate 48 0, im_w = 4, im_h = 3, im_pitch = 16, im_pl = screen_pl\<rparr>,
      font_tex = \<lparr>im_pixels = [0], im_w = 1, im_h = 1, im_pitch = 1, im_pl = font_pl\<rparr>\<rparr>"

lemma demo_screen_ok: "context_ok demo_screen"
  by (simp add: demo_screen_def context_ok_def image_ok_def scissors_ok_def screen_pl_def font_pl_def INT_MAX_def)

theorem stroke_line_exact_witness:
  "\<exists>ctx'. nk_rawfb_stroke_line (replicate 64 0) 0 0 3 2 0xFF demo_screen = Some ctx'
    \<and> pixel_at (fb ctx') (3, 2) = le_bytes 4 0xFF \<and> pixel_at (fb ctx') (3, 0) = pixel_at (fb demo_screen) (3, 0)"
proof -
  have "stroke_points 0 0 3 2 = {(0, 0), (1, 1), (2, 1), (3, 2)}"
  proof -
    have "{0..3 :: int} = {0, 1, 2, 3}" by auto
    then show ?thesis by (simp add: stroke_points_def line_points_def Let_def nearest_def insert_commute)
  qed
  then show ?thesis
    using stroke_line_exact [OF demo_screen_ok, of "replicate 64 0" 0 0 3 2 "0xFF"]
    by (auto simp: demo_screen_def in_scissors_def px_size_def screen_pl_def)
qed

text \<open>
  A colour stored into a pixel of an image in the format of the screen is read back with all four
  channels, and no other pixel changes.
\<close>

theorem pixel_roundtrip:
  assumes "image_ok im" "im_pl im = screen_pl" "0 \<le> x" "x < im_w im" "0 \<le> y" "y < im_h im"
  shows "\<exists>im'. nk_rawfb_img_setpixel im x y c = Some im' \<and> nk_rawfb_img_getpixel im' x y = Some c
    \<and> (\<forall>p. p \<noteq> (x, y) \<longrightarrow> pixel_at im' p = pixel_at im p)"
  using img_pixel_roundtrip [OF assms(1,2), of x y c] assms(3-6) by (simp add: pixel_in_def)

theorem pixel_roundtrip_witness:
  "\<exists>im'. nk_rawfb_img_setpixel (fb demo_screen) 2 1 \<lparr>nk_r = 1, nk_g = 2, nk_b = 3, nk_a = 4\<rparr> = Some im'
    \<and> nk_rawfb_img_getpixel im' 2 1 = Some \<lparr>nk_r = 1, nk_g = 2, nk_b = 3, nk_a = 4\<rparr>"
  using pixel_roundtrip [of "fb demo_screen" 2 1 "\<lparr>nk_r = 1, nk_g = 2, nk_b = 3, nk_a = 4\<rparr>"] demo_screen_ok
  by (auto simp: context_ok_def demo_screen_def)

end
