(* ===== verification/Shapes.thy ===== *)
theory Shapes
  imports RawFb "HOL-Library.Log_Nat" Complex_Main
begin

text \<open>
  The shapes of \<^verbatim>\<open>nuklear_rawfb.h\<close>: filled polygons, ellipses and their quarters, rectangles, triangles, polylines and
  curves, all composed of pixels and lines as in the source.

  A \<^verbatim>\<open>float\<close> is a rational number, and every operation on \<^verbatim>\<open>float\<close>s rounds its result to 24 significant bits (\<open>f32\<close>: to
  the nearest, ties to even). The values that occur are far from the ends of the range of exponents.

  Results: a polygon is filled by the even-odd rule, with the sort of the crossings proved correct; an ellipse
  ends for sizes from 2 to 200 and never for some flat ones.
\<close>

section \<open>Model\<close>

subsection \<open>Floating point\<close>

definition round_half_even :: "rat \<Rightarrow> int" where
  "round_half_even r =
     (let n = \<lfloor>r\<rfloor>; d = r - of_int n in
      if d < 1 / 2 then n else if d > 1 / 2 then n + 1 else if even n then n else n + 1)"

text \<open>The exponent of a positive fraction \<open>p / q\<close>: the greatest \<open>e\<close> with \<open>2\<^sup>e \<le> p / q\<close>.\<close>

definition pow2 :: "int \<Rightarrow> rat" where
  "pow2 e = (if e \<ge> 0 then 2 ^ nat e else 1 / 2 ^ nat (- e))"

definition exponent2 :: "rat \<Rightarrow> int" where
  "exponent2 r =
     (case quotient_of r of (p, q) \<Rightarrow>
        let e = int (floorlog 2 (nat p)) - int (floorlog 2 (nat q)) in if pow2 e \<le> r then e else e - 1)"

definition f32 :: "rat \<Rightarrow> rat" where
  "f32 r =
     (if r = 0 then 0
      else let u = pow2 (exponent2 \<bar>r\<bar> - 23) in of_int (round_half_even (r / u)) * u)"

text \<open>The conversion \<^verbatim>\<open>(int)\<close> drops the fraction.\<close>

definition c_trunc :: "rat \<Rightarrow> int" where
  "c_trunc r = (if r \<ge> 0 then \<lfloor>r\<rfloor> else \<lceil>r\<rceil>)"

subsection \<open>Filled polygons\<close>

type_synonym vec2i = "int \<times> int"

fun poly_bounds :: "vec2i list \<Rightarrow> int \<times> int \<times> int \<times> int \<Rightarrow> int \<times> int \<times> int \<times> int" where
  "poly_bounds [] (lf, tp, rt, bt) = (lf, tp, rt + 1, bt + 1)"
| "poly_bounds ((x, y) # ps) (lf, tp, rt, bt) =
     poly_bounds ps (if lf > x then x else lf, if tp > y then y else tp,
                     if rt < x then x else rt, if bt < y then y else bt)"

text \<open>
  Where the edge between \<open>i\<close> and \<open>j\<close> crosses the row, in single precision with each operation rounded as the C text has
  it. The Makefile's \<^verbatim>\<open>-ffast-math\<close> lets a compiler reorder these operations, which can move a crossing to a
  neighbouring pixel; the theorems below are about the crossings so computed.
\<close>

definition node_x :: "int \<Rightarrow> vec2i \<Rightarrow> vec2i \<Rightarrow> int" where
  "node_x pixelY i j =
     c_trunc (f32 (of_int (fst i) +
       f32 (f32 (f32 (of_int (pixelY - snd i)) / f32 (of_int (snd j - snd i))) * f32 (of_int (fst j - fst i)))))"

fun poly_nodes :: "int \<Rightarrow> vec2i \<Rightarrow> vec2i list \<Rightarrow> int list" where
  "poly_nodes pixelY j [] = []"
| "poly_nodes pixelY j (i # ps) =
     (if snd i < pixelY \<and> snd j \<ge> pixelY \<or> snd j < pixelY \<and> snd i \<ge> pixelY then [node_x pixelY i j] else [])
     @ poly_nodes pixelY i ps"

text \<open>The number of pairs in the wrong order: what the sort below reduces.\<close>

fun inversions :: "int list \<Rightarrow> nat" where
  "inversions [] = 0"
| "inversions (x # xs) = length (filter (\<lambda>y. y < x) xs) + inversions xs"

lemma inversions_mset: "mset xs = mset ys \<Longrightarrow> length (filter P xs) = length (filter P ys)"
  by (metis mset_filter size_mset)

lemma inversions_swap: "b < a \<Longrightarrow> inversions (us @ a # b # vs) = Suc (inversions (us @ b # a # vs))"
proof (induction us)
  case (Cons u us)
  have "length (filter (\<lambda>y. y < u) (us @ a # b # vs)) = length (filter (\<lambda>y. y < u) (us @ b # a # vs))"
    by (rule inversions_mset) simp
  then show ?case using Cons by simp
qed simp

lemma swap_split:
  assumes "Suc i < length xs"
  shows "xs = take i xs @ xs ! i # xs ! Suc i # drop (i + 2) xs"
    "xs[i := xs ! Suc i, Suc i := xs ! i] = take i xs @ xs ! Suc i # xs ! i # drop (i + 2) xs"
proof -
  show eq: "xs = take i xs @ xs ! i # xs ! Suc i # drop (i + 2) xs"
    using assms by (simp add: Cons_nth_drop_Suc)
  have "length (take i xs) = i" using assms by simp
  then have "(take i xs @ a # b # vs)[i := c, Suc i := d] = take i xs @ c # d # vs" for a b c d vs
    by (simp add: list_update_append)
  then show "xs[i := xs ! Suc i, Suc i := xs ! i] = take i xs @ xs ! Suc i # xs ! i # drop (i + 2) xs"
    using eq by metis
qed

lemma swap_inversions:
  assumes "Suc i < length xs" "xs ! i > xs ! Suc i"
  shows "inversions xs = Suc (inversions (xs[i := xs ! Suc i, Suc i := xs ! i]))"
  using swap_split [OF assms(1)] inversions_swap [OF assms(2)] by metis

function sort_nodes :: "nat \<Rightarrow> int list \<Rightarrow> int list" where
  "sort_nodes i xs =
     (if Suc i < length xs
      then (if xs ! i > xs ! Suc i then sort_nodes (i - 1) (xs[i := xs ! Suc i, Suc i := xs ! i]) else sort_nodes (Suc i) xs)
      else xs)"
  by pat_completeness auto
termination
proof (relation "measure (\<lambda>(i, xs). 2 * inversions xs + (length xs - i))", goal_cases)
  case 1
  then show ?case by simp
next
  case (2 i xs)
  then show ?case using swap_inversions [of i xs] by (cases i) auto
next
  case (3 i xs)
  then show ?case by auto
qed

declare sort_nodes.simps [simp del]

text \<open>The spans between pairs of crossings. A last crossing without partner would be a read of an unset entry of \<^verbatim>\<open>nodeX\<close>.\<close>

fun fill_spans :: "(int \<Rightarrow> int \<Rightarrow> 's \<Rightarrow> 's option) \<Rightarrow> int \<Rightarrow> int \<Rightarrow> int \<Rightarrow> int list \<Rightarrow> 's \<Rightarrow> 's option" where
  "fill_spans put lf rt pixelY [] s = Some s"
| "fill_spans put lf rt pixelY [a] s = (if a \<ge> rt then Some s else None)"
| "fill_spans put lf rt pixelY (a # b # rest) s =
     (if a \<ge> rt then Some s
      else do {
        s \<leftarrow> (if b > lf
              then (let a' = (if a < lf then lf else a); b' = (if b > rt then rt else b)
                    in for_loop a' (nat (b' - a')) (\<lambda>pixelX. put pixelX pixelY) s)
              else Some s);
        fill_spans put lf rt pixelY rest s
      })"

definition fill_polygon :: "(int \<Rightarrow> int \<Rightarrow> 's \<Rightarrow> 's option) \<Rightarrow> vec2i list \<Rightarrow> 's \<Rightarrow> 's option" where
  "fill_polygon put pnts0 s =
     (if pnts0 = [] then Some s
      else (let pnts = take 64 pnts0 in
            case poly_bounds pnts (10000, 10000, 0, 0) of (lf, tp, rt, bt) \<Rightarrow>
              for_loop tp (nat (bt - tp))
                (\<lambda>pixelY. fill_spans put lf rt pixelY (sort_nodes 0 (poly_nodes pixelY (last pnts) pnts))) s))"

definition nk_rawfb_fill_polygon :: "vec2i list \<Rightarrow> 32 word \<Rightarrow> rawfb_context \<Rightarrow> rawfb_context option" where
  "nk_rawfb_fill_polygon pnts col = fill_polygon (nk_rawfb_ctx_setpixel col) pnts"

subsection \<open>Ellipses\<close>

text \<open>
  The loop over one half of a quarter of an ellipse. The second half is the same loop with the
  coordinates exchanged. A sum or product that leaves the range of \<^verbatim>\<open>int\<close> wraps around.
\<close>

partial_function (option) ell_loop ::
  "(int \<Rightarrow> int \<Rightarrow> 's \<Rightarrow> 's option) \<Rightarrow> int \<Rightarrow> int \<Rightarrow> int \<Rightarrow> int \<Rightarrow> int \<Rightarrow> int \<Rightarrow> 's \<Rightarrow> 's option" where
  "ell_loop plot p q fq u v sigma s =
     (if wrap_int (p * u) \<le> wrap_int (q * v)
      then Option.bind (plot u v s)
             (ell_loop plot p q fq (wrap_int (u + 1)) (if sigma \<ge> 0 then wrap_int (v - 1) else v)
               (wrap_int ((if sigma \<ge> 0 then sigma + fq * (1 - v) else sigma) + p * (4 * u + 6))))
      else Some s)"

definition ellipse :: "(int \<Rightarrow> int \<Rightarrow> 's \<Rightarrow> 's option) \<Rightarrow> int \<Rightarrow> int \<Rightarrow> 's \<Rightarrow> 's option" where
  "ellipse plot w h s =
     (let a2 = w * w div 4; b2 = h * h div 4; h' = cdiv (h + 1) 2; w' = cdiv (w + 1) 2 in
      do {
        s \<leftarrow> ell_loop plot b2 a2 (4 * a2) 0 h' (wrap_int (2 * b2 + a2 * (1 - 2 * h'))) s;
        ell_loop (\<lambda>y x. plot x y) a2 b2 (4 * b2) 0 w' (wrap_int (2 * a2 + b2 * (1 - 2 * w'))) s
      })"

text \<open>The point of a quarter: \<^verbatim>\<open>s\<close> is its angle.\<close>

definition quarter_point :: "int \<Rightarrow> int \<Rightarrow> int \<Rightarrow> int \<Rightarrow> int \<Rightarrow> vec2i" where
  "quarter_point s x0 y0 x y =
     (if s = 180 then (x0 + x, y0 + y) else if s = 270 then (x0 - x, y0 + y)
      else if s = 0 then (x0 + x, y0 - y) else (x0 - x, y0 - y))"

definition nk_rawfb_stroke_arc :: "int \<Rightarrow> int \<Rightarrow> int \<Rightarrow> int \<Rightarrow> int \<Rightarrow> 32 word \<Rightarrow> rawfb_context \<Rightarrow> rawfb_context option" where
  "nk_rawfb_stroke_arc x y w0 h0 s col ctx =
     (let w = wrap_short w0; h = wrap_short h0; xc = wrap_short (wrap_short x + cdiv (w + 1) 2); yc = wrap_short (wrap_short y + cdiv (h + 1) 2) in
      if s \<notin> {0, 90, 180, 270} \<or> w < 1 \<or> h < 1 then Some ctx
      else ellipse (\<lambda>x y. case quarter_point s xc yc x y of (px, py) \<Rightarrow> nk_rawfb_ctx_setpixel col px py) w h ctx)"

definition nk_rawfb_fill_arc :: "int \<Rightarrow> int \<Rightarrow> int \<Rightarrow> int \<Rightarrow> int \<Rightarrow> 32 word \<Rightarrow> rawfb_context \<Rightarrow> rawfb_context option" where
  "nk_rawfb_fill_arc x y w0 h0 s col ctx =
     (let w = wrap_short w0; h = wrap_short h0; xc = wrap_short (wrap_short x + cdiv (w + 1) 2); yc = wrap_short (wrap_short y + cdiv (h + 1) 2) in
      if s \<notin> {0, 90, 180, 270} \<or> w < 1 \<or> h < 1 then Some ctx
      else map_option fst
             (ellipse (\<lambda>x y (ctx, p2).
                 case quarter_point s xc yc x y of (px, py) \<Rightarrow>
                   let p1 = (wrap_short px, wrap_short py) in
                   map_option (\<lambda>ctx. (ctx, p1)) (nk_rawfb_fill_polygon [(xc, yc), p1, p2] col ctx))
               w h (ctx, (xc, yc))))"

definition nk_rawfb_fill_circle :: "8 word list \<Rightarrow> int \<Rightarrow> int \<Rightarrow> int \<Rightarrow> int \<Rightarrow> 32 word \<Rightarrow> rawfb_context \<Rightarrow> rawfb_context option" where
  "nk_rawfb_fill_circle junk x y w0 h0 col ctx =
     (let w = wrap_short w0; h = wrap_short h0; xc = wrap_short (wrap_short x + cdiv (w + 1) 2); yc = wrap_short (wrap_short y + cdiv (h + 1) 2) in
      ellipse (\<lambda>x y ctx. do {
          ctx \<leftarrow> nk_rawfb_stroke_line junk (xc - x) (yc + y) (xc + x) (yc + y) col ctx;
          nk_rawfb_stroke_line junk (xc - x) (yc - y) (xc + x) (yc - y) col ctx
        }) w h ctx)"

definition nk_rawfb_stroke_circle :: "int \<Rightarrow> int \<Rightarrow> int \<Rightarrow> int \<Rightarrow> 32 word \<Rightarrow> rawfb_context \<Rightarrow> rawfb_context option" where
  "nk_rawfb_stroke_circle x y w0 h0 col ctx =
     (let w = wrap_short w0; h = wrap_short h0; xc = wrap_short (wrap_short x + cdiv (w + 1) 2); yc = wrap_short (wrap_short y + cdiv (h + 1) 2) in
      ellipse (\<lambda>x y ctx. do {
          ctx \<leftarrow> nk_rawfb_ctx_setpixel col (xc + x) (yc + y) ctx;
          ctx \<leftarrow> nk_rawfb_ctx_setpixel col (xc - x) (yc + y) ctx;
          ctx \<leftarrow> nk_rawfb_ctx_setpixel col (xc + x) (yc - y) ctx;
          nk_rawfb_ctx_setpixel col (xc - x) (yc - y) ctx
        }) w h ctx)"

subsection \<open>Rectangles\<close>

definition nk_rawfb_stroke_rect ::
  "8 word list \<Rightarrow> int \<Rightarrow> int \<Rightarrow> int \<Rightarrow> int \<Rightarrow> int \<Rightarrow> 32 word \<Rightarrow> rawfb_context \<Rightarrow> rawfb_context option" where
  "nk_rawfb_stroke_rect junk x' y' w' h' r' col ctx =
     (let x = wrap_short x'; y = wrap_short y'; w = wrap_short w'; h = wrap_short h'; r = wrap_short r';
          line = (\<lambda>a b c d. nk_rawfb_stroke_line junk a b c d col)
      in if r = 0
         then do {
           ctx \<leftarrow> line x y (x + w) y ctx;
           ctx \<leftarrow> line x (y + h) (x + w) (y + h) ctx;
           ctx \<leftarrow> line x y x (y + h) ctx;
           line (x + w) y (x + w) (y + h) ctx
         }
         else (let xc = wrap_short (x + r); yc = wrap_short (y + r); wc = wrap_short (w - 2 * r); hc = wrap_short (h - 2 * r) in
           do {
             ctx \<leftarrow> line xc y (xc + wc) y ctx;
             ctx \<leftarrow> line (x + w) yc (x + w) (yc + hc) ctx;
             ctx \<leftarrow> line xc (y + h) (xc + wc) (y + h) ctx;
             ctx \<leftarrow> line x yc x (yc + hc) ctx;
             ctx \<leftarrow> nk_rawfb_stroke_arc (xc + wc - r) y (r * 2) (r * 2) 0 col ctx;
             ctx \<leftarrow> nk_rawfb_stroke_arc x y (r * 2) (r * 2) 90 col ctx;
             ctx \<leftarrow> nk_rawfb_stroke_arc x (yc + hc - r) (r * 2) (r * 2) 270 col ctx;
             nk_rawfb_stroke_arc (xc + wc - r) (yc + hc - r) (r * 2) (r * 2) 180 col ctx
           }))"

text \<open>The twelve corners of the cross inside a rounded rectangle; the fields of a point are \<^verbatim>\<open>short\<close>.\<close>

definition cross_points :: "int \<Rightarrow> int \<Rightarrow> int \<Rightarrow> int \<Rightarrow> int \<Rightarrow> vec2i list" where
  "cross_points x y w h r =
     (let xc = wrap_short (x + r); yc = wrap_short (y + r); wc = wrap_short (w - 2 * r); hc = wrap_short (h - 2 * r) in
      map (\<lambda>(a, b). (wrap_short a, wrap_short b))
        [(x, yc), (xc, yc), (xc, y), (xc + wc, y), (xc + wc, yc), (x + w, yc), (x + w, yc + hc), (xc + wc, yc + hc),
         (xc + wc, y + h), (xc, y + h), (xc, yc + hc), (x, yc + hc)])"

definition nk_rawfb_fill_rect ::
  "8 word list \<Rightarrow> int \<Rightarrow> int \<Rightarrow> int \<Rightarrow> int \<Rightarrow> int \<Rightarrow> 32 word \<Rightarrow> rawfb_context \<Rightarrow> rawfb_context option" where
  "nk_rawfb_fill_rect junk x' y' w' h' r' col ctx =
     (let x = wrap_short x'; y = wrap_short y'; w = wrap_short w'; h = wrap_short h'; r = wrap_short r'
      in if r = 0 then for_loop 0 (nat h) (\<lambda>i. nk_rawfb_stroke_line junk x (y + i) (x + w) (y + i) col) ctx
         else (let xc = wrap_short (x + r); yc = wrap_short (y + r); wc = wrap_short (w - 2 * r); hc = wrap_short (h - 2 * r) in
           do {
             ctx \<leftarrow> nk_rawfb_fill_polygon (cross_points x y w h r) col ctx;
             ctx \<leftarrow> nk_rawfb_fill_arc (xc + wc - r) y (r * 2) (r * 2) 0 col ctx;
             ctx \<leftarrow> nk_rawfb_fill_arc x y (r * 2) (r * 2) 90 col ctx;
             ctx \<leftarrow> nk_rawfb_fill_arc x (yc + hc - r) (r * 2) (r * 2) 270 col ctx;
             nk_rawfb_fill_arc (xc + wc - r) (yc + hc - r) (r * 2) (r * 2) 180 col ctx
           }))"

definition nk_rawfb_clear :: "8 word list \<Rightarrow> 32 word \<Rightarrow> rawfb_context \<Rightarrow> rawfb_context option" where
  "nk_rawfb_clear junk col ctx = nk_rawfb_fill_rect junk 0 0 (im_w (fb ctx)) (im_h (fb ctx)) 0 col ctx"

subsection \<open>Gradients\<close>

text \<open>
  A channel between two colours, \<open>i\<close> of \<open>n - 1\<close> steps from the first. The quotient and the product are \<^verbatim>\<open>float\<close>s; the
  constant \<^verbatim>\<open>0.5\<close> makes the rest \<^verbatim>\<open>double\<close>, where the sums are exact.
\<close>

definition grad :: "int \<Rightarrow> int \<Rightarrow> 8 word \<Rightarrow> 8 word \<Rightarrow> 8 word" where
  "grad n i a b =
     of_int (c_trunc (f32 (f32 (of_int (uint b - uint a) / of_int (n - 1)) * of_int i) + 1 / 2 + of_int (uint a)))"

definition mix_color :: "int \<Rightarrow> int \<Rightarrow> nk_color \<Rightarrow> nk_color \<Rightarrow> nk_color" where
  "mix_color n i c d =
     \<lparr>nk_r = grad n i (nk_r c) (nk_r d), nk_g = grad n i (nk_g c) (nk_g d),
      nk_b = grad n i (nk_b c) (nk_b d), nk_a = grad n i (nk_a c) (nk_a d)\<rparr>"

text \<open>
  The four edges are computed before the pixels. \<open>None\<close>: a side of one pixel divides by zero and converts the result to a
  byte, a negative one makes the edges overlap. The first argument tells whether \<^verbatim>\<open>malloc\<close> succeeds.
\<close>

definition nk_rawfb_draw_rect_multi_color ::
  "bool \<Rightarrow> int \<Rightarrow> int \<Rightarrow> int \<Rightarrow> int \<Rightarrow> nk_color \<Rightarrow> nk_color \<Rightarrow> nk_color \<Rightarrow> nk_color \<Rightarrow> rawfb_context \<Rightarrow> rawfb_context option" where
  "nk_rawfb_draw_rect_multi_color mal x' y' w' h' c_tl c_tr c_br c_bl ctx =
     (let x = wrap_short x'; y = wrap_short y'; w = wrap_short w'; h = wrap_short h';
          edge_t = (\<lambda>i. mix_color w i c_tl c_tr); edge_b = (\<lambda>i. mix_color w i c_bl c_br);
          edge_l = (\<lambda>i. mix_color h i c_tl c_bl); edge_r = (\<lambda>i. mix_color h i c_tr c_br)
      in if \<not> mal then Some ctx
         else if w < 0 \<or> h < 0 \<or> w = 1 \<or> h = 1 then None
         else for_loop 0 (nat h) (\<lambda>i. for_loop 0 (nat w) (\<lambda>j ctx.
                map_option (\<lambda>im. ctx\<lparr>fb := im\<rparr>)
                  (nk_rawfb_img_blendpixel (fb ctx) (x + j) (y + i)
                    (if i = 0 then edge_t j else if i = h - 1 then edge_b j
                     else if j = 0 then edge_l i else if j = w - 1 then edge_r i
                     else mix_color w j (edge_l i) (edge_r i))))) ctx)"

subsection \<open>Triangles, polygons and curves\<close>

definition nk_rawfb_fill_triangle :: "vec2i \<Rightarrow> vec2i \<Rightarrow> vec2i \<Rightarrow> 32 word \<Rightarrow> rawfb_context \<Rightarrow> rawfb_context option" where
  "nk_rawfb_fill_triangle p0 p1 p2 col =
     nk_rawfb_fill_polygon (map (\<lambda>(a, b). (wrap_short a, wrap_short b)) [p0, p1, p2]) col"

definition line_between :: "8 word list \<Rightarrow> 32 word \<Rightarrow> vec2i \<Rightarrow> vec2i \<Rightarrow> rawfb_context \<Rightarrow> rawfb_context option" where
  "line_between junk col p q = nk_rawfb_stroke_line junk (fst p) (snd p) (fst q) (snd q) col"

definition nk_rawfb_stroke_triangle ::
  "8 word list \<Rightarrow> vec2i \<Rightarrow> vec2i \<Rightarrow> vec2i \<Rightarrow> 32 word \<Rightarrow> rawfb_context \<Rightarrow> rawfb_context option" where
  "nk_rawfb_stroke_triangle junk p0 p1 p2 col ctx =
     do {
       ctx \<leftarrow> line_between junk col p0 p1 ctx;
       ctx \<leftarrow> line_between junk col p1 p2 ctx;
       line_between junk col p2 p0 ctx
     }"

fun nk_rawfb_stroke_polyline :: "8 word list \<Rightarrow> vec2i list \<Rightarrow> 32 word \<Rightarrow> rawfb_context \<Rightarrow> rawfb_context option" where
  "nk_rawfb_stroke_polyline junk (p # q # ps) col ctx =
     line_between junk col p q ctx \<bind> nk_rawfb_stroke_polyline junk (q # ps) col"
| "nk_rawfb_stroke_polyline junk _ col ctx = Some ctx"

text \<open>An empty polygon would be a read before the first point.\<close>

definition nk_rawfb_stroke_polygon :: "8 word list \<Rightarrow> vec2i list \<Rightarrow> 32 word \<Rightarrow> rawfb_context \<Rightarrow> rawfb_context option" where
  "nk_rawfb_stroke_polygon junk pnts col ctx =
     (if pnts = [] then None
      else nk_rawfb_stroke_polyline junk pnts col ctx \<bind> line_between junk col (last pnts) (hd pnts))"

definition curve_coord :: "rat \<Rightarrow> rat \<Rightarrow> rat \<Rightarrow> rat \<Rightarrow> int \<Rightarrow> int \<Rightarrow> int \<Rightarrow> int \<Rightarrow> int" where
  "curve_coord w1 w2 w3 w4 a b c d =
     c_trunc (f32 (f32 (f32 (f32 (w1 * of_int a) + f32 (w2 * of_int b)) + f32 (w3 * of_int c)) + f32 (w4 * of_int d)))"

definition curve_point :: "vec2i \<Rightarrow> vec2i \<Rightarrow> vec2i \<Rightarrow> vec2i \<Rightarrow> rat \<Rightarrow> vec2i" where
  "curve_point p1 p2 p3 p4 t =
     (let u = f32 (1 - t); w1 = f32 (f32 (u * u) * u); w2 = f32 (f32 (f32 (3 * u) * u) * t);
          w3 = f32 (f32 (f32 (3 * u) * t) * t); w4 = f32 (f32 (t * t) * t)
      in (wrap_short (curve_coord w1 w2 w3 w4 (fst p1) (fst p2) (fst p3) (fst p4)),
          wrap_short (curve_coord w1 w2 w3 w4 (snd p1) (snd p2) (snd p3) (snd p4))))"

definition nk_rawfb_stroke_curve ::
  "8 word list \<Rightarrow> vec2i \<Rightarrow> vec2i \<Rightarrow> vec2i \<Rightarrow> vec2i \<Rightarrow> nat \<Rightarrow> 32 word \<Rightarrow> rawfb_context \<Rightarrow> rawfb_context option" where
  "nk_rawfb_stroke_curve junk p1 p2 p3 p4 num_segments col ctx =
     (let segments = max num_segments 1; t_step = f32 (1 / of_nat segments) in
      map_option fst
        (for_loop 1 segments (\<lambda>i (ctx, prev).
           let p = curve_point p1 p2 p3 p4 (f32 (t_step * of_int i))
           in map_option (\<lambda>ctx. (ctx, p)) (line_between junk col prev p ctx)) (ctx, p1)))"

section \<open>Polygons\<close>

lemma sort_nodes_mset: "mset (sort_nodes i xs) = mset xs"
proof (induction i xs rule: sort_nodes.induct)
  case (1 i xs)
  have "mset (xs[i := xs ! Suc i, Suc i := xs ! i]) = mset xs" if "Suc i < length xs"
    using that by (intro mset_swap) auto
  then show ?case using "1.IH" by (subst sort_nodes.simps) auto
qed

lemma sort_nodes_sorted: "sorted (take (Suc i) xs) \<Longrightarrow> sorted (sort_nodes i xs)"
proof (induction i xs rule: sort_nodes.induct)
  case (1 i xs)
  show ?case
  proof (cases "Suc i < length xs")
    case True
    have here: "take (Suc i) xs = take i xs @ [xs ! i]" using True by (simp add: take_Suc_conv_app_nth)
    show ?thesis
    proof (cases "xs ! i > xs ! Suc i")
      case swap: True
      have "sorted (take i xs)" using "1.prems" here by (simp add: sorted_append)
      moreover have "take (Suc (i - 1)) (xs[i := xs ! Suc i, Suc i := xs ! i]) = take i xs" if "0 < i" using that by simp
      moreover have "sorted (take (Suc 0) ys)" for ys :: "int list" by (cases ys) simp_all
      ultimately have "sorted (take (Suc (i - 1)) (xs[i := xs ! Suc i, Suc i := xs ! i]))" by (cases "0 < i") simp_all
      then show ?thesis using "1.IH"(1) [OF True swap] True swap by (subst sort_nodes.simps) simp
    next
      case False
      have "take (Suc (Suc i)) xs = take (Suc i) xs @ [xs ! Suc i]" using True by (simp add: take_Suc_conv_app_nth)
      then have "sorted (take (Suc (Suc i)) xs)" using "1.prems" False unfolding here by (auto simp: sorted_append)
      then show ?thesis using "1.IH"(2) [OF True False] True False by (subst sort_nodes.simps) simp
    qed
  next
    case False
    then show ?thesis using "1.prems" by (subst sort_nodes.simps) simp
  qed
qed

lemma sort_nodes_sort: "sort_nodes 0 xs = sort xs"
proof (rule properties_for_sort [symmetric])
  show "mset (sort_nodes 0 xs) = mset xs" by (rule sort_nodes_mset)
  show "sorted (sort_nodes 0 xs)" by (rule sort_nodes_sorted) (cases xs, simp_all)
qed

text \<open>A closed polygon crosses every row an even number of times.\<close>

lemma poly_nodes_parity: "even (length (poly_nodes y j ps)) \<longleftrightarrow> (snd j < y \<longleftrightarrow> snd (last (j # ps)) < y)"
  by (induction ps arbitrary: j) auto

lemma poly_nodes_even: "ps \<noteq> [] \<Longrightarrow> even (length (poly_nodes y (last ps) ps))"
  by (simp add: poly_nodes_parity)

text \<open>The even-odd rule for one row: an odd number of crossings at or before the pixel.\<close>

definition inside :: "int list \<Rightarrow> int \<Rightarrow> bool" where
  "inside nodes x \<longleftrightarrow> odd (length (filter (\<lambda>n. n \<le> x) nodes))"

lemma inside_step:
  assumes "sorted (a # b # rest)"
  shows "inside (a # b # rest) x \<longleftrightarrow> (a \<le> x \<and> x < b) \<or> inside rest x"
proof -
  have "filter (\<lambda>n. n \<le> x) rest = []" if "x < b" using that assms by (force simp: filter_empty_conv)
  then show ?thesis using assms by (auto simp: inside_def)
qed

lemma inside_sort: "inside (sort xs) x = inside xs x"
  by (simp add: inside_def inversions_mset [of "sort xs" xs])

lemma inside_less: "\<forall>n\<in>set ns. x < n \<Longrightarrow> \<not> inside ns x"
proof -
  assume "\<forall>n\<in>set ns. x < n"
  then have "filter (\<lambda>n. n \<le> x) ns = []" by (force simp: filter_empty_conv)
  then show ?thesis by (simp add: inside_def)
qed

context raster
begin

lemma draws_span:
  assumes "good s" "- 32768 \<le> a" "b \<le> 32768" "- 32768 \<le> y" "y \<le> 32767"
  shows "\<exists>s'. for_loop a (nat (b - a)) (\<lambda>x. put x y) s = Some s' \<and> draws s s' ({a..<b} \<times> {y})"
proof -
  have "\<exists>s'. put x y s = Some s' \<and> draws s s' {(x, y)}" if "a \<le> x" "x < a + int (nat (b - a))" "good s" for x s
    using draws_put [OF that(3), of x y] that assms by auto
  then have "\<exists>s'. for_loop a (nat (b - a)) (\<lambda>x. put x y) s = Some s' \<and> draws s s' (\<Union>x\<in>{a..<a + int (nat (b - a))}. {(x, y)})"
    by (rule draws_loop [OF assms(1)])
  moreover have "(\<Union>x\<in>{a..<a + int (nat (b - a))}. {(x, y)}) = {a..<b} \<times> {y}" by auto
  ultimately show ?thesis by simp
qed

lemma fill_spans_draws:
  assumes "- 32768 \<le> lf" "rt \<le> 32768" "- 32768 \<le> y" "y \<le> 32767"
  shows "good s \<Longrightarrow> sorted ns \<Longrightarrow> even (length ns) \<Longrightarrow>
    \<exists>s'. fill_spans put lf rt y ns s = Some s' \<and> draws s s' ({x. lf \<le> x \<and> x < rt \<and> inside ns x} \<times> {y})"
proof (induction ns arbitrary: s rule: induct_list012)
  case 1
  then show ?case by (simp add: inside_def draws_none)
next
  case (2 a)
  then show ?case by simp
next
  case (3 a b rest)
  have order: "a \<le> b" "\<forall>n\<in>set rest. b \<le> n" "sorted rest" using "3.prems"(2) by auto
  show ?case
  proof (cases "a \<ge> rt")
    case True
    then have "\<not> inside (a # b # rest) x" if "x < rt" for x using that order by (intro inside_less) auto
    then have none: "{x. lf \<le> x \<and> x < rt \<and> inside (a # b # rest) x} = {}" by auto
    show ?thesis unfolding none using True "3.prems"(1) draws_none by simp
  next
    case False
    let ?a = "if a < lf then lf else a" and ?b = "if b > rt then rt else b"
    let ?span = "if b > lf then {?a..<?b} \<times> {y} else {}"
    have "\<exists>s1. (if b > lf then for_loop ?a (nat (?b - ?a)) (\<lambda>x. put x y) s else Some s) = Some s1 \<and> draws s s1 ?span"
      using draws_span [OF "3.prems"(1), of ?a ?b y] draws_none [OF "3.prems"(1)] assms by (cases "b > lf") simp_all
    then obtain s1 where s1: "(if b > lf then for_loop ?a (nat (?b - ?a)) (\<lambda>x. put x y) s else Some s) = Some s1" "draws s s1 ?span" by blast
    obtain s2 where s2: "fill_spans put lf rt y rest s1 = Some s2" "draws s1 s2 ({x. lf \<le> x \<and> x < rt \<and> inside rest x} \<times> {y})"
      using "3.IH"(1) [OF draws_good [OF s1(2)] order(3)] "3.prems"(3) by auto
    have "?span \<union> {x. lf \<le> x \<and> x < rt \<and> inside rest x} \<times> {y} = {x. lf \<le> x \<and> x < rt \<and> inside (a # b # rest) x} \<times> {y}"
      unfolding inside_step [OF "3.prems"(2)] by (cases "b > lf"; cases "a < lf"; cases "b > rt") auto
    then have "draws s s2 ({x. lf \<le> x \<and> x < rt \<and> inside (a # b # rest) x} \<times> {y})" using draws_seq [OF s1(2) s2(2)] by simp
    then show ?thesis using False s1(1) s2(1) by (auto simp: Let_def)
  qed
qed

end

definition short_point :: "vec2i \<Rightarrow> bool" where
  "short_point p \<longleftrightarrow> - 32768 \<le> fst p \<and> fst p \<le> 32767 \<and> - 32768 \<le> snd p \<and> snd p \<le> 32767"

text \<open>The pixels of a polygon: inside its bounds, by the even-odd rule. Points after the 64th are left out.\<close>

definition polygon_pixels :: "vec2i list \<Rightarrow> (int \<times> int) set" where
  "polygon_pixels pnts0 =
     (let pnts = take 64 pnts0 in
      case poly_bounds pnts (10000, 10000, 0, 0) of (lf, tp, rt, bt) \<Rightarrow>
        if pnts = [] then {}
        else {(x, y). lf \<le> x \<and> x < rt \<and> tp \<le> y \<and> y < bt \<and> inside (poly_nodes y (last pnts) pnts) x})"

lemma poly_bounds_short:
  assumes "\<forall>p\<in>set ps. short_point p" "- 32768 \<le> l" "- 32768 \<le> t" "r \<le> 32767" "b \<le> 32767" "poly_bounds ps (l, t, r, b) = (lf, tp, rt, bt)"
  shows "- 32768 \<le> lf" "- 32768 \<le> tp" "rt \<le> 32768" "bt \<le> 32768"
proof -
  have "- 32768 \<le> lf \<and> - 32768 \<le> tp \<and> rt \<le> 32768 \<and> bt \<le> 32768"
    using assms
  proof (induction ps arbitrary: l t r b)
    case Nil
    then show ?case by auto
  next
    case (Cons p ps)
    show ?case by (cases p, rule Cons.IH) (use Cons.prems in \<open>auto simp: short_point_def\<close>)
  qed
  then show "- 32768 \<le> lf" "- 32768 \<le> tp" "rt \<le> 32768" "bt \<le> 32768" by simp_all
qed

context raster
begin

lemma fill_polygon_draws:
  assumes "good s" "\<forall>p\<in>set pnts. short_point p"
  shows "\<exists>s'. fill_polygon put pnts s = Some s' \<and> draws s s' (polygon_pixels pnts)"
proof (cases "pnts = []")
  case True
  then show ?thesis using draws_none [OF assms(1)] by (simp add: fill_polygon_def polygon_pixels_def)
next
  case False
  let ?p = "take 64 pnts"
  have ne: "?p \<noteq> []" using False by simp
  obtain lf tp rt bt where b: "poly_bounds ?p (10000, 10000, 0, 0) = (lf, tp, rt, bt)" by (metis prod_cases4)
  have "\<forall>p\<in>set ?p. short_point p" using assms(2) by (auto dest: in_set_takeD)
  then have short: "- 32768 \<le> lf" "- 32768 \<le> tp" "rt \<le> 32768" "bt \<le> 32768" using poly_bounds_short [OF _ _ _ _ _ b] by simp_all
  define nodes where "nodes y = poly_nodes y (last ?p) ?p" for y
  let ?row = "\<lambda>y. {x. lf \<le> x \<and> x < rt \<and> inside (nodes y) x} \<times> {y}"
  have row: "\<exists>s'. fill_spans put lf rt y (sort_nodes 0 (nodes y)) s = Some s' \<and> draws s s' (?row y)"
    if "tp \<le> y" "y < tp + int (nat (bt - tp))" "good s" for y s
  proof -
    have "- 32768 \<le> y" "y \<le> 32767" using that(1,2) short by linarith+
    then show ?thesis
      using fill_spans_draws [OF short(1,3), of y s "sort (nodes y)"] that(3) poly_nodes_even [OF ne, of y]
      by (simp add: sort_nodes_sort inside_sort nodes_def)
  qed
  have "\<exists>s'. for_loop tp (nat (bt - tp)) (\<lambda>y. fill_spans put lf rt y (sort_nodes 0 (nodes y))) s = Some s'
      \<and> draws s s' (\<Union>y\<in>{tp..<tp + int (nat (bt - tp))}. ?row y)"
    by (rule draws_loop [OF assms(1) row])
  moreover have "(\<Union>y\<in>{tp..<tp + int (nat (bt - tp))}. ?row y) = polygon_pixels pnts"
    using ne b by (auto simp: polygon_pixels_def Let_def nodes_def)
  ultimately show ?thesis using False b by (simp add: fill_polygon_def Let_def nodes_def)
qed

end

lemma fill_polygon_paints:
  assumes "context_ok ctx" "\<forall>p\<in>set pnts. short_point p"
  shows "\<exists>ctx'. nk_rawfb_fill_polygon pnts col ctx = Some ctx' \<and> paints col ctx ctx' (polygon_pixels pnts)"
  using fbuf.fill_polygon_draws [of ctx "frame_of ctx" pnts col] assms draws_paints [of ctx "frame_of ctx" col]
  by (simp add: nk_rawfb_fill_polygon_def)

section \<open>Ellipses\<close>

lemma wrap_int_small: "- 2147483648 \<le> x \<Longrightarrow> x \<le> 2147483647 \<Longrightarrow> wrap_int x = x"
  by (simp add: is_c_int_def INT_MIN_def INT_MAX_def)

text \<open>
  For sizes up to 200 no value leaves the range of \<^verbatim>\<open>int\<close>, and the loop ends: the moving coordinate stays below \<open>q\<close>
  because \<open>p * u \<le> q * v\<close> must hold.
\<close>

lemma ell_loop_ends:
  assumes plot: "\<And>u v s. I s \<Longrightarrow> \<exists>s'. plot u v s = Some s' \<and> I s'"
    and p: "1 \<le> p" "p \<le> 10000" and q: "1 \<le> q" "q \<le> 10000" and V: "0 \<le> V" "V \<le> p" "V \<le> 100"
    and u: "0 \<le> u" "u \<le> q + 1" and v: "- 1 \<le> v" "v \<le> V"
    and sigma: "- 4 * q * V \<le> sigma" "sigma \<le> 4 * q * V + 6 * p + u * (4 * q + 6 * p)" and s: "I s"
  shows "\<exists>s'. ell_loop plot p q (4 * q) u v sigma s = Some s' \<and> I s'"
  using u v sigma s
proof (induction "nat (q + 1 - u)" arbitrary: u v sigma s)
  have qV: "0 \<le> q * V" "q * V \<le> 1000000" using q V mult_mono [of q 10000 V 100] by simp_all
  have pq: "q * V \<le> q * p" using q(1) V(2) by (simp add: mult_left_mono)
  have pu: "wrap_int (p * u) = p * u" if "0 \<le> u" "u \<le> q + 1" for u
  proof -
    have "p * u \<le> 10000 * 10001" using that p q by (intro mult_mono) auto
    moreover have "0 \<le> p * u" using that p by simp
    ultimately show ?thesis by (intro wrap_int_small) auto
  qed
  have qv: "wrap_int (q * v) = q * v" if "- 1 \<le> v" "v \<le> V" for v
  proof -
    have "q * v \<le> q * V" "q * (- 1) \<le> q * v" by (rule mult_left_mono; use that q in simp)+
    then show ?thesis using qV q by (intro wrap_int_small; linarith)
  qed
  {
    case 0
    have "u = q + 1" using 0 by simp
    then have "p * u = q * p + p" by (simp add: algebra_simps)
    moreover have "q * v \<le> q * V" using 0 q by (simp add: mult_left_mono)
    ultimately have "\<not> wrap_int (p * u) \<le> wrap_int (q * v)" using pu [OF 0(2,3)] qv [OF 0(4,5)] pq p by linarith
    then show ?case using 0 by (subst ell_loop.simps) simp
  next
    case (Suc c)
    show ?case
    proof (cases "wrap_int (p * u) \<le> wrap_int (q * v)")
      case False
      then show ?thesis using Suc.prems by (subst ell_loop.simps) simp
    next
      case True
      then have le: "p * u \<le> q * v" using pu [OF Suc.prems(1,2)] qv [OF Suc.prems(3,4)] by simp
      have "q * v \<le> q * V" using Suc.prems(4) q by (simp add: mult_left_mono)
      have u': "u + 1 \<le> q + 1" "c = nat (q + 1 - (u + 1))" using Suc.hyps(2) by simp_all
      have "0 \<le> p * u" using p Suc.prems(1) by simp
      have v0: "0 \<le> v" using le \<open>0 \<le> p * u\<close> q(1) by (smt (verit) mult_pos_neg)
      let ?v = "if sigma \<ge> 0 then v - 1 else v"
      let ?g = "(if sigma \<ge> 0 then sigma + 4 * q * (1 - v) else sigma) + p * (4 * u + 6)"
      have top: "(u + 1) * (4 * q + 6 * p) \<le> 10001 * 100000" using Suc.prems(1) u' p q by (intro mult_mono) auto
      have eqs: "4 * q * (1 - v) = 4 * q - 4 * (q * v)" "p * (4 * u + 6) = 4 * (p * u) + 6 * p"
        "(u + 1) * (4 * q + 6 * p) = u * (4 * q + 6 * p) + 4 * q + 6 * p" "- 4 * q * V = - (4 * (q * V))" "4 * q * V = 4 * (q * V)"
        by (simp_all add: algebra_simps)
      have "0 \<le> u * (4 * q + 6 * p)" using Suc.prems(1) p q by simp
      then have g: "- 4 * q * V \<le> ?g" "?g \<le> 4 * q * V + 6 * p + (u + 1) * (4 * q + 6 * p)"
        using Suc.prems(5,6) le \<open>q * v \<le> q * V\<close> \<open>0 \<le> p * u\<close> p q unfolding eqs
        by (cases "sigma \<ge> 0"; simp only: if_True if_False; linarith)+
      have "wrap_int ?g = ?g" by (rule wrap_int_small) (use g top qV p in \<open>simp_all add: eqs\<close>)
      moreover have "wrap_int (u + 1) = u + 1" by (rule wrap_int_small) (use u' Suc.prems q in auto)
      moreover have "(if sigma \<ge> 0 then wrap_int (v - 1) else v) = ?v" using v0 Suc.prems(4) V(3) by (simp add: wrap_int_small)
      moreover obtain s1 where s1: "plot u v s = Some s1" "I s1" using plot [OF Suc.prems(7)] by blast
      moreover have "\<exists>s'. ell_loop plot p q (4 * q) (u + 1) ?v ?g s1 = Some s' \<and> I s'"
        by (rule Suc.hyps(1) [OF u'(2) _ u'(1) _ _ g s1(2)]) (use Suc.prems v0 in auto)
      ultimately show ?thesis using True by (subst ell_loop.simps) (simp only: if_True simp_thms bind.bind_lunit)
    qed
  }
qed

lemma half_square:
  fixes h :: int
  assumes "2 \<le> h" "h \<le> 200"
  shows "1 \<le> h * h div 4" "h * h div 4 \<le> 10000" "1 \<le> cdiv (h + 1) 2" "cdiv (h + 1) 2 \<le> 100" "cdiv (h + 1) 2 \<le> h * h div 4"
proof -
  have c: "cdiv (h + 1) 2 = (h + 1) div 2" using assms by simp
  have "h * h \<le> 200 * 200" "2 * 2 \<le> h * h" using assms by (intro mult_mono; simp)+
  then show "1 \<le> h * h div 4" "h * h div 4 \<le> 10000" by linarith+
  show "1 \<le> cdiv (h + 1) 2" "cdiv (h + 1) 2 \<le> 100" unfolding c using assms by linarith+
  show "cdiv (h + 1) 2 \<le> h * h div 4"
  proof (cases "h = 2")
    case False
    have "3 * h \<le> h * h" using False assms by (intro mult_right_mono) auto
    then show ?thesis unfolding c using False assms by linarith
  qed (simp add: cdiv_def)
qed

lemma ellipse_half_ends:
  assumes "\<And>u v s. I s \<Longrightarrow> \<exists>s'. plot u v s = Some s' \<and> I s'" "I s"
    and "1 \<le> p" "p \<le> 10000" "1 \<le> q" "q \<le> 10000" "1 \<le> V" "V \<le> p" "V \<le> 100"
  shows "\<exists>s'. ell_loop plot p q (4 * q) 0 V (wrap_int (2 * p + q * (1 - 2 * V))) s = Some s' \<and> I s'"
proof -
  have eq: "q * (1 - 2 * V) = q - 2 * (q * V)" "- 4 * q * V = - (4 * (q * V))" "4 * q * V = 4 * (q * V)" by (simp_all add: algebra_simps)
  have qV: "q \<le> q * V" "q * V \<le> 10000 * 100" using assms by (simp, intro mult_mono, auto)
  have "wrap_int (2 * p + q * (1 - 2 * V)) = 2 * p + q * (1 - 2 * V)"
    unfolding eq by (rule wrap_int_small) (use qV assms in linarith)+
  moreover have "- 4 * q * V \<le> 2 * p + q * (1 - 2 * V)" "2 * p + q * (1 - 2 * V) \<le> 4 * q * V + 6 * p + 0 * (4 * q + 6 * p)"
    unfolding eq using qV assms by linarith+
  ultimately show ?thesis using ell_loop_ends [of I plot p q V 0 V] assms by simp
qed

lemma ellipse_ends:
  assumes plot: "\<And>u v s. I s \<Longrightarrow> \<exists>s'. plot u v s = Some s' \<and> I s'" and s: "I s"
    and w: "2 \<le> w" "w \<le> 200" and h: "2 \<le> h" "h \<le> 200"
  shows "\<exists>s'. ellipse plot w h s = Some s' \<and> I s'"
proof -
  obtain s1 where s1: "ell_loop plot (h * h div 4) (w * w div 4) (4 * (w * w div 4)) 0 (cdiv (h + 1) 2)
      (wrap_int (2 * (h * h div 4) + (w * w div 4) * (1 - 2 * cdiv (h + 1) 2))) s = Some s1" "I s1"
    using ellipse_half_ends [of I plot s "h * h div 4" "w * w div 4" "cdiv (h + 1) 2", OF plot s] half_square [OF w] half_square [OF h] by blast
  obtain s2 where "ell_loop (\<lambda>y x. plot x y) (w * w div 4) (h * h div 4) (4 * (h * h div 4)) 0 (cdiv (w + 1) 2)
      (wrap_int (2 * (w * w div 4) + (h * h div 4) * (1 - 2 * cdiv (w + 1) 2))) s1 = Some s2" "I s2"
    using ellipse_half_ends [of I "\<lambda>y x. plot x y" s1 "w * w div 4" "h * h div 4" "cdiv (w + 1) 2", OF plot s1(2)] half_square [OF w] half_square [OF h] by blast
  then show ?thesis using s1(1) by (simp add: ellipse_def Let_def)
qed

section \<open>Shapes in the frame buffer\<close>

text \<open>Some pixels were drawn in one colour, all of them inside the scissors.\<close>

definition painted_some :: "32 word \<Rightarrow> rawfb_context \<Rightarrow> rawfb_context \<Rightarrow> bool" where
  "painted_some col ctx ctx' \<longleftrightarrow> (\<exists>S. paints col ctx ctx' S)"

lemma painted_some_refl: "context_ok ctx \<Longrightarrow> painted_some col ctx ctx"
  unfolding painted_some_def using paints_none by blast

lemma painted_some_trans: "painted_some col a b \<Longrightarrow> painted_some col b c \<Longrightarrow> painted_some col a c"
  unfolding painted_some_def using paints_seq by blast

lemma painted_some_ok: "painted_some col a b \<Longrightarrow> context_ok b"
  unfolding painted_some_def using paints_ok by blast

text \<open>A shape can be drawn in every good context.\<close>

definition safe_shape :: "32 word \<Rightarrow> (rawfb_context \<Rightarrow> rawfb_context option) \<Rightarrow> bool" where
  "safe_shape col f \<longleftrightarrow> (\<forall>ctx. context_ok ctx \<longrightarrow> (\<exists>ctx'. f ctx = Some ctx' \<and> painted_some col ctx ctx'))"

lemma safe_shapeI: "(\<And>ctx. context_ok ctx \<Longrightarrow> \<exists>ctx'. f ctx = Some ctx' \<and> paints col ctx ctx' (S ctx)) \<Longrightarrow> safe_shape col f"
  unfolding safe_shape_def painted_some_def by blast

lemma safe_shape_skip [intro]: "safe_shape col Some"
  by (simp add: safe_shape_def painted_some_refl)

lemma safe_shape_bind:
  assumes "safe_shape col f" "safe_shape col g"
  shows "safe_shape col (\<lambda>ctx. f ctx \<bind> g)"
  using assms painted_some_trans painted_some_ok unfolding safe_shape_def by (metis bind.bind_lunit)

lemma safe_shape_loop:
  assumes "\<And>j. safe_shape col (body j)"
  shows "safe_shape col (for_loop i n body)"
  unfolding safe_shape_def
proof (intro allI impI)
  fix ctx assume "context_ok ctx"
  then show "\<exists>ctx'. for_loop i n body ctx = Some ctx' \<and> painted_some col ctx ctx'"
    using for_loop_invariant [of "\<lambda>_. painted_some col ctx" i ctx n body] painted_some_refl painted_some_trans painted_some_ok assms
    unfolding safe_shape_def by meson
qed

lemma safe_shape_ellipse:
  assumes "\<And>x y. safe_shape col (plot x y)" "2 \<le> w" "w \<le> 200" "2 \<le> h" "h \<le> 200"
  shows "safe_shape col (ellipse plot w h)"
  unfolding safe_shape_def
proof (intro allI impI)
  fix ctx assume "context_ok ctx"
  then show "\<exists>ctx'. ellipse plot w h ctx = Some ctx' \<and> painted_some col ctx ctx'"
    using ellipse_ends [of "painted_some col ctx" plot ctx w h] painted_some_refl painted_some_trans painted_some_ok assms
    unfolding safe_shape_def by meson
qed

lemma safe_setpixel [intro]: "safe_shape col (nk_rawfb_ctx_setpixel col x y)"
  by (rule safe_shapeI) (rule paints_put)

lemma safe_line [intro]: "length junk = 64 \<Longrightarrow> safe_shape col (nk_rawfb_stroke_line junk x0 y0 x1 y1 col)"
  by (rule safe_shapeI) (rule stroke_line_paints)

lemma safe_line_between [intro]: "length junk = 64 \<Longrightarrow> safe_shape col (line_between junk col p q)"
  unfolding line_between_def by (rule safe_line)

lemma short_wrap [simp]: "short_point (wrap_short a, wrap_short b)"
  by (simp add: short_point_def wrap_short_range)

lemma safe_polygon [intro]: "\<forall>p\<in>set pnts. short_point p \<Longrightarrow> safe_shape col (nk_rawfb_fill_polygon pnts col)"
  by (rule safe_shapeI) (rule fill_polygon_paints)

lemma safe_stroke_circle:
  assumes "2 \<le> wrap_short w" "wrap_short w \<le> 200" "2 \<le> wrap_short h" "wrap_short h \<le> 200"
  shows "safe_shape col (nk_rawfb_stroke_circle x y w h col)"
  unfolding nk_rawfb_stroke_circle_def Let_def
  by (rule safe_shape_ellipse) (use assms in \<open>auto intro!: safe_shape_bind\<close>)

lemma safe_fill_circle:
  assumes "length junk = 64" "2 \<le> wrap_short w" "wrap_short w \<le> 200" "2 \<le> wrap_short h" "wrap_short h \<le> 200"
  shows "safe_shape col (nk_rawfb_fill_circle junk x y w h col)"
  unfolding nk_rawfb_fill_circle_def Let_def
  by (rule safe_shape_ellipse) (use assms in \<open>auto intro!: safe_shape_bind\<close>)

lemma safe_stroke_arc:
  assumes "wrap_short w \<noteq> 1" "wrap_short w \<le> 200" "wrap_short h \<noteq> 1" "wrap_short h \<le> 200"
  shows "safe_shape col (nk_rawfb_stroke_arc x y w h s col)"
proof (cases "s \<notin> {0, 90, 180, 270} \<or> wrap_short w < 1 \<or> wrap_short h < 1")
  case True
  then have "nk_rawfb_stroke_arc x y w h s col = Some" by (auto simp: nk_rawfb_stroke_arc_def Let_def fun_eq_iff)
  then show ?thesis by (simp add: safe_shape_skip)
next
  case False
  let ?xc = "wrap_short (wrap_short x + cdiv (wrap_short w + 1) 2)" and ?yc = "wrap_short (wrap_short y + cdiv (wrap_short h + 1) 2)"
  have "nk_rawfb_stroke_arc x y w h s col =
      ellipse (\<lambda>x y. case quarter_point s ?xc ?yc x y of (px, py) \<Rightarrow> nk_rawfb_ctx_setpixel col px py) (wrap_short w) (wrap_short h)"
    using False by (auto simp: nk_rawfb_stroke_arc_def Let_def fun_eq_iff)
  moreover have "safe_shape col (ellipse (\<lambda>x y. case quarter_point s ?xc ?yc x y of (px, py) \<Rightarrow> nk_rawfb_ctx_setpixel col px py)
      (wrap_short w) (wrap_short h))"
    by (rule safe_shape_ellipse) (use assms False in \<open>auto split: prod.split\<close>)
  ultimately show ?thesis by simp
qed

text \<open>With \<open>p = 0\<close> the condition of the loop never becomes false, for an ellipse of one row or of one pixel.\<close>

definition stuck :: "int \<Rightarrow> int \<Rightarrow> int \<Rightarrow> int \<Rightarrow> bool" where
  "stuck p q v sigma \<longleftrightarrow> p = 0 \<and> (q = 0 \<or> 0 < q \<and> q \<le> 10000 \<and> v = 1 \<and> - 2147483648 \<le> sigma \<and> sigma < 0)"

lemma ell_loop_stuck:
  assumes "stuck p q v sigma"
  shows "ell_loop plot p q fq u v sigma s = None"
proof (rule ccontr)
  assume "ell_loop plot p q fq u v sigma s \<noteq> None"
  then obtain s' where "ell_loop plot p q fq u v sigma s = Some s'" by blast
  then have "\<not> stuck p q v sigma"
  proof (rule ell_loop.raw_induct [of "\<lambda>plot p q fq u v sigma s s'. \<not> stuck p q v sigma", rotated])
    fix rec plot p q fq u v sigma s s'
    assume ih: "\<And>plot p q fq u v sigma s s'. rec plot p q fq u v sigma s = Some s' \<Longrightarrow> \<not> stuck p q v sigma"
      and step: "(if wrap_int (p * u) \<le> wrap_int (q * v)
        then Option.bind (plot u v s) (rec plot p q fq (wrap_int (u + 1)) (if sigma \<ge> 0 then wrap_int (v - 1) else v)
          (wrap_int ((if sigma \<ge> 0 then sigma + fq * (1 - v) else sigma) + p * (4 * u + 6))))
        else Some s) = Some s'"
    show "\<not> stuck p q v sigma"
    proof
      assume st: "stuck p q v sigma"
      have "wrap_int (p * u) \<le> wrap_int (q * v)" using st by (auto simp: stuck_def wrap_int_small)
      then obtain t where "rec plot p q fq (wrap_int (u + 1)) (if sigma \<ge> 0 then wrap_int (v - 1) else v)
          (wrap_int ((if sigma \<ge> 0 then sigma + fq * (1 - v) else sigma) + p * (4 * u + 6))) t = Some s'"
        using step by (auto simp: bind_eq_Some_conv)
      then have "\<not> stuck p q (if sigma \<ge> 0 then wrap_int (v - 1) else v)
          (wrap_int ((if sigma \<ge> 0 then sigma + fq * (1 - v) else sigma) + p * (4 * u + 6)))" by (rule ih)
      moreover have "stuck p q (if sigma \<ge> 0 then wrap_int (v - 1) else v)
          (wrap_int ((if sigma \<ge> 0 then sigma + fq * (1 - v) else sigma) + p * (4 * u + 6)))"
        using st by (auto simp: stuck_def wrap_int_small)
      ultimately show False by contradiction
    qed
  qed
  then show False using assms by contradiction
qed

lemma flat_ellipse_stuck:
  assumes "h = 1" "1 \<le> w" "w \<le> 200"
  shows "ellipse plot w h s = None"
proof -
  have "w * w \<le> 200 * 200" using assms by (intro mult_mono) auto
  moreover have "0 \<le> w * w" by simp
  ultimately have "0 \<le> w * w div 4" "w * w div 4 \<le> 10000" by linarith+
  then have "stuck 0 (w * w div 4) 1 (wrap_int (- (w * w div 4)))" by (auto simp: stuck_def wrap_int_small)
  then show ?thesis using assms by (simp add: ellipse_def Let_def ell_loop_stuck)
qed

lemma safe_fill_arc:
  assumes "wrap_short w \<noteq> 1" "wrap_short w \<le> 200" "wrap_short h \<noteq> 1" "wrap_short h \<le> 200"
  shows "safe_shape col (nk_rawfb_fill_arc x y w h s col)"
  unfolding safe_shape_def
proof (intro allI impI)
  fix ctx assume ok: "context_ok ctx"
  let ?xc = "wrap_short (wrap_short x + cdiv (wrap_short w + 1) 2)" and ?yc = "wrap_short (wrap_short y + cdiv (wrap_short h + 1) 2)"
  let ?plot = "\<lambda>x y (ctx, p2). case quarter_point s ?xc ?yc x y of (px, py) \<Rightarrow>
      let p1 = (wrap_short px, wrap_short py) in map_option (\<lambda>ctx. (ctx, p1)) (nk_rawfb_fill_polygon [(?xc, ?yc), p1, p2] col ctx)"
  define I where "I = (\<lambda>(ctx', p). painted_some col ctx ctx' \<and> short_point p)"
  show "\<exists>ctx'. nk_rawfb_fill_arc x y w h s col ctx = Some ctx' \<and> painted_some col ctx ctx'"
  proof (cases "s \<notin> {0, 90, 180, 270} \<or> wrap_short w < 1 \<or> wrap_short h < 1")
    case True
    then show ?thesis using painted_some_refl [OF ok] by (auto simp: nk_rawfb_fill_arc_def Let_def)
  next
    case False
    have plot: "\<exists>t'. ?plot u v t = Some t' \<and> I t'" if I: "I t" for u v t
    proof -
      obtain c p2 where t: "t = (c, p2)" by (cases t)
      obtain px py where q: "quarter_point s ?xc ?yc u v = (px, py)" by (cases "quarter_point s ?xc ?yc u v")
      have c: "painted_some col ctx c" "short_point p2" using I by (simp_all add: I_def t)
      obtain c' where c': "nk_rawfb_fill_polygon [(?xc, ?yc), (wrap_short px, wrap_short py), p2] col c = Some c'" "painted_some col c c'"
        using safe_polygon [of "[(?xc, ?yc), (wrap_short px, wrap_short py), p2]" col] c painted_some_ok unfolding safe_shape_def by fastforce
      then show ?thesis using painted_some_trans [OF c(1) c'(2)] by (simp add: t q I_def)
    qed
    have "I (ctx, (?xc, ?yc))" using painted_some_refl [OF ok] by (simp add: I_def)
    then obtain c p where "ellipse ?plot (wrap_short w) (wrap_short h) (ctx, (?xc, ?yc)) = Some (c, p)" "I (c, p)"
      using ellipse_ends [of I ?plot "(ctx, (?xc, ?yc))" "wrap_short w" "wrap_short h"] plot assms False by auto
    then have "nk_rawfb_fill_arc x y w h s col ctx = Some c"
      using False by (simp add: nk_rawfb_fill_arc_def Let_def)
    then show ?thesis using \<open>I (c, p)\<close> by (simp add: I_def)
  qed
qed

lemma corner_size:
  assumes "0 \<le> wrap_short r" "wrap_short r \<le> 100"
  shows "wrap_short (wrap_short r * 2) \<noteq> 1" "wrap_short (wrap_short r * 2) \<le> 200"
proof -
  have eq: "wrap_short (wrap_short r * 2) = wrap_short r * 2" by (rule wrap_short_id) (use assms in auto)
  show "wrap_short (wrap_short r * 2) \<noteq> 1" unfolding eq by presburger
  show "wrap_short (wrap_short r * 2) \<le> 200" unfolding eq using assms by simp
qed

lemma safe_stroke_rect:
  assumes "length junk = 64" "0 \<le> wrap_short r" "wrap_short r \<le> 100"
  shows "safe_shape col (nk_rawfb_stroke_rect junk x y w h r col)"
proof (cases "wrap_short r = 0")
  case True
  show ?thesis unfolding nk_rawfb_stroke_rect_def Let_def if_P [OF True] by (intro safe_shape_bind safe_line assms)
next
  case False
  show ?thesis unfolding nk_rawfb_stroke_rect_def Let_def if_not_P [OF False]
    by (intro safe_shape_bind safe_line safe_stroke_arc corner_size assms)
qed

lemma cross_short: "\<forall>p\<in>set (cross_points x y w h r). short_point p"
  by (simp add: cross_points_def Let_def)

lemma safe_fill_rect:
  assumes "length junk = 64" "0 \<le> wrap_short r" "wrap_short r \<le> 100"
  shows "safe_shape col (nk_rawfb_fill_rect junk x y w h r col)"
proof (cases "wrap_short r = 0")
  case True
  show ?thesis unfolding nk_rawfb_fill_rect_def Let_def if_P [OF True] by (intro safe_shape_loop safe_line assms)
next
  case False
  show ?thesis unfolding nk_rawfb_fill_rect_def Let_def if_not_P [OF False]
    by (intro safe_shape_bind safe_polygon cross_short safe_fill_arc corner_size assms)
qed

lemma safe_triangles:
  assumes "length junk = 64"
  shows "safe_shape col (nk_rawfb_fill_triangle p0 p1 p2 col)" "safe_shape col (nk_rawfb_stroke_triangle junk p0 p1 p2 col)"
proof -
  show "safe_shape col (nk_rawfb_fill_triangle p0 p1 p2 col)"
    unfolding nk_rawfb_fill_triangle_def by (rule safe_polygon) (auto split: prod.split)
  show "safe_shape col (nk_rawfb_stroke_triangle junk p0 p1 p2 col)"
    unfolding nk_rawfb_stroke_triangle_def by (intro safe_shape_bind safe_line_between assms)
qed

lemma safe_polyline: "length junk = 64 \<Longrightarrow> safe_shape col (nk_rawfb_stroke_polyline junk pnts col)"
proof (induction pnts rule: induct_list012)
  case (3 p q ps)
  have "nk_rawfb_stroke_polyline junk (p # q # ps) col = (\<lambda>ctx. line_between junk col p q ctx \<bind> nk_rawfb_stroke_polyline junk (q # ps) col)"
    by (simp add: fun_eq_iff)
  then show ?case using safe_shape_bind [OF safe_line_between [OF "3.prems"] "3.IH"(2) [OF "3.prems"]] by simp
qed (simp_all add: safe_shape_def painted_some_refl)

lemma safe_stroke_polygon:
  assumes "length junk = 64" "pnts \<noteq> []"
  shows "safe_shape col (nk_rawfb_stroke_polygon junk pnts col)"
  unfolding nk_rawfb_stroke_polygon_def if_not_P [OF assms(2)] by (intro safe_shape_bind safe_polyline safe_line_between assms)

lemma safe_curve:
  assumes "length junk = 64"
  shows "safe_shape col (nk_rawfb_stroke_curve junk p1 p2 p3 p4 n col)"
  unfolding safe_shape_def
proof (intro allI impI)
  fix ctx assume ok: "context_ok ctx"
  let ?body = "\<lambda>i (ctx, prev). let p = curve_point p1 p2 p3 p4 (f32 (f32 (1 / of_nat (max n 1)) * of_int i))
      in map_option (\<lambda>ctx. (ctx, p)) (line_between junk col prev p ctx)"
  have body: "\<exists>t'. ?body i t = Some t' \<and> painted_some col ctx (fst t')" if t: "painted_some col ctx (fst t)" for i t
  proof -
    obtain c prev where [simp]: "t = (c, prev)" by (cases t)
    obtain c' where "line_between junk col prev (curve_point p1 p2 p3 p4 (f32 (f32 (1 / of_nat (max n 1)) * of_int i))) c = Some c'" "painted_some col c c'"
      using safe_line_between [OF assms] painted_some_ok [OF t] unfolding safe_shape_def by fastforce
    then show ?thesis using t painted_some_trans [of col ctx c c'] by (auto simp: Let_def)
  qed
  have "\<exists>t'. for_loop 1 (max n 1) ?body (ctx, p1) = Some t' \<and> painted_some col ctx (fst t')"
    by (rule for_loop_invariant [of "\<lambda>_ t. painted_some col ctx (fst t)"]) (use painted_some_refl [OF ok] body in auto)
  then show "\<exists>ctx'. nk_rawfb_stroke_curve junk p1 p2 p3 p4 n col ctx = Some ctx' \<and> painted_some col ctx ctx'"
    by (auto simp: nk_rawfb_stroke_curve_def Let_def)
qed

lemma fill_rect_paints:
  assumes "context_ok ctx" "length junk = 64" "- 32768 \<le> x" "- 32768 \<le> y" "0 \<le> w" "w \<le> 32767" "0 \<le> h" "h \<le> 32767" "x + w \<le> 32767" "y + h \<le> 32767"
  shows "\<exists>ctx'. nk_rawfb_fill_rect junk x y w h 0 col ctx = Some ctx' \<and> paints col ctx ctx' ({x..<x + w} \<times> {y..<y + h})"
proof -
  have line: "\<exists>ctx'. nk_rawfb_stroke_line junk x (y + i) (x + w) (y + i) col s = Some ctx' \<and> paints col s ctx' ({x..<x + w} \<times> {y + i})"
    if "0 \<le> i" "i < 0 + int (nat h)" "context_ok s" for i s
    using stroke_line_paints [OF that(3) assms(2), of x "y + i" "x + w" "y + i" col] that(1,2) assms by (simp add: stroke_points_def)
  have "\<exists>ctx'. for_loop 0 (nat h) (\<lambda>i. nk_rawfb_stroke_line junk x (y + i) (x + w) (y + i) col) ctx = Some ctx'
      \<and> paints col ctx ctx' (\<Union>i\<in>{0..<0 + int (nat h)}. {x..<x + w} \<times> {y + i})"
    by (rule paints_loop [OF assms(1)]) (use line in blast)
  moreover have "(\<Union>i\<in>{0..<0 + int (nat h)}. {x..<x + w} \<times> {y + i}) = {x..<x + w} \<times> {y..<y + h}"
  proof -
    have "b \<in> {y..<y + h} \<longleftrightarrow> (\<exists>i\<in>{0..<0 + int (nat h)}. b = y + i)" for b
      using assms(7) by (auto intro: bexI [of _ "b - y"])
    then show ?thesis by auto
  qed
  ultimately show ?thesis using assms by (simp add: nk_rawfb_fill_rect_def Let_def)
qed

text \<open>Blending pixels of different colours.\<close>

definition safe_op :: "(rawfb_context \<Rightarrow> rawfb_context option) \<Rightarrow> bool" where
  "safe_op f \<longleftrightarrow> (\<forall>ctx. context_ok ctx \<longrightarrow> (\<exists>ctx'. f ctx = Some ctx' \<and> context_ok ctx' \<and> frame_of ctx' = frame_of ctx))"

lemma safe_shape_op: "safe_shape col f \<Longrightarrow> safe_op f"
  unfolding safe_shape_def safe_op_def painted_some_def paints_def by blast

lemma safe_op_loop:
  assumes "\<And>j. safe_op (body j)"
  shows "safe_op (for_loop i n body)"
  unfolding safe_op_def
proof (intro allI impI)
  fix ctx assume "context_ok ctx"
  then show "\<exists>ctx'. for_loop i n body ctx = Some ctx' \<and> context_ok ctx' \<and> frame_of ctx' = frame_of ctx"
    using for_loop_invariant [of "\<lambda>_ s. context_ok s \<and> frame_of s = frame_of ctx" i ctx n body] assms
    unfolding safe_op_def by metis
qed

lemma getpixel_total:
  assumes "image_ok im"
  shows "\<exists>c. nk_rawfb_img_getpixel im x y = Some c"
proof (cases "pixel_in im (x, y)")
  case True
  then show ?thesis using row_end(1) [OF assms True] pixel_addr_end [OF assms True]
    by (auto simp: nk_rawfb_img_getpixel_def Let_def pixel_in_def load_bytes_def pixel_addr_def mult.commute)
next
  case False
  then show ?thesis by (auto simp: nk_rawfb_img_getpixel_def Let_def pixel_in_def)
qed

lemma setpixel_total:
  assumes "image_ok im"
  shows "\<exists>m. nk_rawfb_img_setpixel im x y c = Some (im\<lparr>im_pixels := m\<rparr>) \<and> length m = length (im_pixels im)
    \<and> (\<forall>p. p \<noteq> (x, y) \<longrightarrow> pixel_at (im\<lparr>im_pixels := m\<rparr>) p = pixel_at im p)"
proof (cases "pixel_in im (x, y)")
  case True
  let ?bs = "le_bytes (px_size (im_pl im)) (nk_rawfb_color2int c (im_pl im))"
  obtain m where "store_bytes (im_pixels im) (pixel_addr im (x, y)) ?bs = Some m" "length m = length (im_pixels im)"
      "pixel_at (im\<lparr>im_pixels := m\<rparr>) = (pixel_at im)((x, y) := ?bs)"
    using store_pixel [OF assms True, of ?bs] by auto
  then show ?thesis using True by (auto simp: nk_rawfb_img_setpixel_def Let_def pixel_in_def pixel_addr_def mult.commute)
next
  case False
  then have "nk_rawfb_img_setpixel im x y c = Some (im\<lparr>im_pixels := im_pixels im\<rparr>)"
    by (auto simp: nk_rawfb_img_setpixel_def Let_def pixel_in_def)
  then show ?thesis by force
qed

lemma blendpixel_total:
  assumes "image_ok im"
  shows "\<exists>m. nk_rawfb_img_blendpixel im x y c = Some (im\<lparr>im_pixels := m\<rparr>) \<and> length m = length (im_pixels im)
    \<and> (\<forall>p. p \<noteq> (x, y) \<longrightarrow> pixel_at (im\<lparr>im_pixels := m\<rparr>) p = pixel_at im p)"
proof (cases "nk_a c = 0")
  case True
  then have "nk_rawfb_img_blendpixel im x y c = Some (im\<lparr>im_pixels := im_pixels im\<rparr>)" by (simp add: nk_rawfb_img_blendpixel_def)
  then show ?thesis by force
next
  case False
  obtain c2 where "nk_rawfb_img_getpixel im x y = Some c2" using getpixel_total [OF assms] by blast
  then show ?thesis using False setpixel_total [OF assms, of x y] by (simp add: nk_rawfb_img_blendpixel_def)
qed

lemma safe_blend: "safe_op (\<lambda>ctx. map_option (\<lambda>im. ctx\<lparr>fb := im\<rparr>) (nk_rawfb_img_blendpixel (fb ctx) x y c))"
  unfolding safe_op_def
proof (intro allI impI)
  fix ctx assume ok: "context_ok ctx"
  obtain m where "nk_rawfb_img_blendpixel (fb ctx) x y c = Some ((fb ctx)\<lparr>im_pixels := m\<rparr>)" "length m = length (im_pixels (fb ctx))"
    using blendpixel_total [of "fb ctx" x y c] ok by (auto simp: context_ok_def)
  then show "\<exists>ctx'. map_option (\<lambda>im. ctx\<lparr>fb := im\<rparr>) (nk_rawfb_img_blendpixel (fb ctx) x y c) = Some ctx' \<and> context_ok ctx' \<and> frame_of ctx' = frame_of ctx"
    using ok by simp
qed

lemma safe_multi_color:
  assumes "2 \<le> wrap_short w" "2 \<le> wrap_short h"
  shows "safe_op (nk_rawfb_draw_rect_multi_color mal x y w h c_tl c_tr c_br c_bl)"
proof (cases mal)
  case True
  then have "nk_rawfb_draw_rect_multi_color mal x y w h c_tl c_tr c_br c_bl =
      for_loop 0 (nat (wrap_short h)) (\<lambda>i. for_loop 0 (nat (wrap_short w)) (\<lambda>j ctx.
        map_option (\<lambda>im. ctx\<lparr>fb := im\<rparr>) (nk_rawfb_img_blendpixel (fb ctx) (wrap_short x + j) (wrap_short y + i)
          (if i = 0 then mix_color (wrap_short w) j c_tl c_tr else if i = wrap_short h - 1 then mix_color (wrap_short w) j c_bl c_br
           else if j = 0 then mix_color (wrap_short h) i c_tl c_bl else if j = wrap_short w - 1 then mix_color (wrap_short h) i c_tr c_br
           else mix_color (wrap_short w) j (mix_color (wrap_short h) i c_tl c_bl) (mix_color (wrap_short h) i c_tr c_br)))))"
    using assms by (simp add: fun_eq_iff nk_rawfb_draw_rect_multi_color_def Let_def)
  then show ?thesis by (simp only:) (intro safe_op_loop safe_blend)
next
  case False
  then show ?thesis by (simp add: safe_op_def nk_rawfb_draw_rect_multi_color_def Let_def)
qed

section \<open>Properties\<close>

text \<open>
  C34 (fill_polygon_even_odd). Filling a polygon of up to 64 points accesses nothing outside the frame buffer and no unset
  entry of its table of crossings, and colours exactly the pixels inside the scissors and the bounds of the
  polygon that the even-odd rule puts inside: those with an odd number of crossed edges at or left of them in
  their row. The sort of the crossings ends.
\<close>

theorem fill_polygon_even_odd:
  assumes "context_ok ctx" "pnts \<noteq> []" "length pnts \<le> 64" "\<forall>p\<in>set pnts. short_point p"
    and "poly_bounds pnts (10000, 10000, 0, 0) = (lf, tp, rt, bt)"
  shows "\<exists>ctx'. nk_rawfb_fill_polygon pnts col ctx = Some ctx' \<and> context_ok ctx' \<and> frame_of ctx' = frame_of ctx
    \<and> (\<forall>x y. pixel_at (fb ctx') (x, y) =
         (if (x, y) \<in> in_scissors ctx \<and> lf \<le> x \<and> x < rt \<and> tp \<le> y \<and> y < bt
              \<and> odd (length (filter (\<lambda>n. n \<le> x) (poly_nodes y (last pnts) pnts)))
          then le_bytes (px_size (im_pl (fb ctx))) col else pixel_at (fb ctx) (x, y)))"
proof -
  have "polygon_pixels pnts = {(x, y). lf \<le> x \<and> x < rt \<and> tp \<le> y \<and> y < bt \<and> inside (poly_nodes y (last pnts) pnts) x}"
    using assms(2,3,5) by (simp add: polygon_pixels_def)
  then show ?thesis using fill_polygon_paints [OF assms(1,4), of col] by (auto simp: paints_def inside_def)
qed

theorem fill_polygon_even_odd_witness:
  "\<exists>ctx'. nk_rawfb_fill_polygon [(0, 0), (3, 0), (3, 2), (0, 2)] 7 demo_screen = Some ctx'
    \<and> pixel_at (fb ctx') (1, 1) = le_bytes 4 7 \<and> pixel_at (fb ctx') (3, 1) = pixel_at (fb demo_screen) (3, 1)"
proof -
  let ?p = "[(0, 0), (3, 0), (3, 2), (0, 2)] :: vec2i list"
  have b: "poly_bounds ?p (10000, 10000, 0, 0) = (0, 0, 4, 3)" by simp
  have short: "\<forall>p\<in>set ?p. short_point p" by (simp add: short_point_def)
  have n: "poly_nodes 1 (last ?p) ?p = [0, 3]" by code_simp
  obtain ctx' where c: "nk_rawfb_fill_polygon ?p 7 demo_screen = Some ctx'"
      "\<forall>x y. pixel_at (fb ctx') (x, y) =
         (if (x, y) \<in> in_scissors demo_screen \<and> 0 \<le> x \<and> x < 4 \<and> 0 \<le> y \<and> y < 3
              \<and> odd (length (filter (\<lambda>n. n \<le> x) (poly_nodes y (last ?p) ?p)))
          then le_bytes (px_size (im_pl (fb demo_screen))) 7 else pixel_at (fb demo_screen) (x, y))"
    using fill_polygon_even_odd [OF demo_screen_ok _ _ short b, of 7] by auto
  have "pixel_at (fb ctx') (1, 1) = le_bytes 4 7"
    using c(2) [rule_format, of 1 1] unfolding n by (simp add: in_scissors_def demo_screen_def px_size_def screen_pl_def)
  moreover have "pixel_at (fb ctx') (3, 1) = pixel_at (fb demo_screen) (3, 1)"
    using c(2) [rule_format, of 3 1] unfolding n by simp
  ultimately show ?thesis using c(1) by blast
qed

text \<open>A circle one pixel high and up to 200 wide is never finished.\<close>

lemma flat_circle_never_ends:
  assumes "wrap_short h = 1" "1 \<le> wrap_short w" "wrap_short w \<le> 200"
  shows "nk_rawfb_fill_circle junk x y w h col ctx = None" "nk_rawfb_stroke_circle x y w h col ctx = None"
  using assms by (simp_all add: nk_rawfb_fill_circle_def nk_rawfb_stroke_circle_def Let_def flat_ellipse_stuck)

end
