(* ===== verification/Render.thy ===== *)
theory Render
  imports Shapes
begin

text \<open>
  Images, text and the loop over the drawing commands of \<^verbatim>\<open>nuklear_rawfb.h\<close>, with the two functions of \<^verbatim>\<open>nuklear.h\<close> the
  text needs: decoding UTF-8 and finding a glyph of a font. Fonts, images and commands are what Nuklear hands over; the list
  of commands is an argument.

  Results: rendering every list of reasonable commands ends and accesses nothing outside the frame buffer, the
  images, the glyphs and the text; every command but the gradient leaves the pixels outside the scissors alone.
\<close>

section \<open>Model\<close>

subsection \<open>Images\<close>

record frect =
  fr_x :: rat
  fr_y :: rat
  fr_w :: rat
  fr_h :: rat

text \<open>The colour to blend: of a glyph the colour of the text, of an image its own, with the alpha scaled.\<close>

definition tint :: "bool \<Rightarrow> nk_color \<Rightarrow> nk_color \<Rightarrow> nk_color" where
  "tint is_font fg col =
     (if is_font
      then (if nk_r col \<noteq> 0 \<or> nk_g col \<noteq> 0 \<or> nk_b col \<noteq> 0
            then col\<lparr>nk_r := nk_r fg, nk_g := nk_g fg, nk_b := nk_b fg\<rparr> else col)
      else col\<lparr>nk_a := of_int (c_trunc (f32 (of_int (uint (nk_a col) * uint (nk_a fg)) / 255)))\<rparr>)"

definition stretch_row ::
  "rawfb_image \<Rightarrow> frect \<Rightarrow> nk_rect \<Rightarrow> nk_color \<Rightarrow> bool \<Rightarrow> rat \<Rightarrow> rat \<Rightarrow> int \<Rightarrow> rat \<Rightarrow> rawfb_image \<Rightarrow> (rawfb_image \<times> rat) option" where
  "stretch_row src dst_rect sc fg is_font xinc xoff0 py yoff dst =
     for_loop 0 (nat (wrap_short (c_trunc (fr_w dst_rect))))
       (\<lambda>i (im, xoff).
          let px = i + c_trunc (f32 (fr_x dst_rect + 1 / 2)) in
          if px < rc_x sc \<or> px \<ge> rc_w sc \<or> py < rc_y sc \<or> py \<ge> rc_h sc then Some (im, xoff)
          else do {
            col \<leftarrow> nk_rawfb_img_getpixel src (c_trunc xoff) (c_trunc yoff);
            im \<leftarrow> nk_rawfb_img_blendpixel im px py (tint is_font fg col);
            Some (im, f32 (xoff + xinc))
          })
       (dst, xoff0)"

definition nk_rawfb_stretch_image ::
  "rawfb_image \<Rightarrow> frect \<Rightarrow> frect \<Rightarrow> nk_rect \<Rightarrow> nk_color \<Rightarrow> bool \<Rightarrow> rawfb_image \<Rightarrow> rawfb_image option" where
  "nk_rawfb_stretch_image src dst_rect src_rect sc fg is_font dst =
     (let xinc = f32 (fr_w src_rect / fr_w dst_rect); yinc = f32 (fr_h src_rect / fr_h dst_rect) in
      map_option fst
        (for_loop 0 (nat (wrap_short (c_trunc (fr_h dst_rect))))
          (\<lambda>j (im, yoff).
             map_option (\<lambda>r. (fst r, f32 (yoff + yinc)))
               (stretch_row src dst_rect sc fg is_font xinc (fr_x src_rect) (j + c_trunc (f32 (fr_y dst_rect + 1 / 2))) yoff im))
          (dst, fr_y src_rect)))"

text \<open>An image without a handle stands for the font texture.\<close>

record nk_image =
  img_handle :: "rawfb_image option"
  img_region :: nk_rect

definition rect_of :: "int \<Rightarrow> int \<Rightarrow> int \<Rightarrow> int \<Rightarrow> frect" where
  "rect_of x y w h = \<lparr>fr_x = of_int x, fr_y = of_int y, fr_w = of_int w, fr_h = of_int h\<rparr>"

definition nk_rawfb_drawimage ::
  "int \<Rightarrow> int \<Rightarrow> int \<Rightarrow> int \<Rightarrow> nk_image \<Rightarrow> nk_color \<Rightarrow> rawfb_context \<Rightarrow> rawfb_context option" where
  "nk_rawfb_drawimage x y w h img col ctx =
     (let reg = img_region img;
          src = (case img_handle img of Some im \<Rightarrow> im | None \<Rightarrow> font_tex ctx)
      in map_option (\<lambda>im. ctx\<lparr>fb := im\<rparr>)
           (nk_rawfb_stretch_image src (rect_of x y w h) (rect_of (rc_x reg) (rc_y reg) (rc_w reg) (rc_h reg))
             (scissors ctx) col (img_handle img = None) (fb ctx)))"

subsection \<open>UTF-8\<close>

definition nk_utf_table :: "(8 word \<times> 8 word) list" where
  "nk_utf_table = [(0xC0, 0x80), (0x80, 0), (0xE0, 0xC0), (0xF0, 0xE0), (0xF8, 0xF0)]"

fun utf_byte_loop :: "nat \<Rightarrow> (8 word \<times> 8 word) list \<Rightarrow> 8 word \<Rightarrow> 32 word \<times> nat" where
  "utf_byte_loop i [] c = (0, i)"
| "utf_byte_loop i ((m, v) # rest) c =
     (if c AND m = v then (ucast (c AND NOT m), i) else utf_byte_loop (Suc i) rest c)"

definition nk_utf_decode_byte :: "8 word \<Rightarrow> 32 word \<times> nat" where
  "nk_utf_decode_byte c = utf_byte_loop 0 nk_utf_table c"

definition nk_utfmin :: "32 word list" where
  "nk_utfmin = [0, 0, 0x80, 0x800, 0x10000]"

definition nk_utfmax :: "32 word list" where
  "nk_utfmax = [0x10FFFF, 0x7F, 0x7FF, 0xFFFF, 0x10FFFF]"

definition NK_UTF_INVALID :: "32 word" where
  "NK_UTF_INVALID = 0xFFFD"

text \<open>The value \<^verbatim>\<open>*u\<close> after \<^verbatim>\<open>nk_utf_validate\<close>; \<^verbatim>\<open>NK_BETWEEN\<close> leaves its upper bound out.\<close>

definition nk_utf_validate :: "32 word \<Rightarrow> nat \<Rightarrow> 32 word" where
  "nk_utf_validate u i =
     (if \<not> (nk_utfmin ! i \<le> u \<and> u < nk_utfmax ! i) \<or> (0xD800 \<le> u \<and> u < 0xDFFF) then NK_UTF_INVALID else u)"

text \<open>The continuation bytes: \<open>Inl j\<close> for the return inside the loop, \<open>Inr\<close> with \<^verbatim>\<open>j\<close> and \<^verbatim>\<open>udecoded\<close> after it.\<close>

function utf_rest :: "8 word list \<Rightarrow> nat \<Rightarrow> nat \<Rightarrow> nat \<Rightarrow> nat \<Rightarrow> 32 word \<Rightarrow> (nat + nat \<times> 32 word) option" where
  "utf_rest text p clen len j udecoded =
     (if j < clen \<and> j < len
      then (if p + j < length text
            then (case nk_utf_decode_byte (text ! (p + j)) of (v, ty) \<Rightarrow>
                    if ty \<noteq> 0 then Some (Inl j) else utf_rest text p clen len (Suc j) (push_bit 6 udecoded OR v))
            else None)
      else Some (Inr (j, udecoded)))"
  by pat_completeness auto
termination
  by (relation "measure (\<lambda>(text, p, clen, len, j, udecoded). clen - j)") auto

declare utf_rest.simps [simp del]

text \<open>\<^verbatim>\<open>nk_utf_decode(text + p, &u, clen)\<close>: the length, and the value of \<^verbatim>\<open>u\<close> afterwards.\<close>

definition nk_utf_decode :: "8 word list \<Rightarrow> nat \<Rightarrow> 32 word \<Rightarrow> nat \<Rightarrow> (nat \<times> 32 word) option" where
  "nk_utf_decode text p u clen =
     (if clen = 0 then Some (0, u)
      else if p < length text
      then (case nk_utf_decode_byte (text ! p) of (v, len) \<Rightarrow>
              if \<not> (1 \<le> len \<and> len < 5) then Some (1, NK_UTF_INVALID)
              else (case utf_rest text p clen len 1 v of
                      None \<Rightarrow> None
                    | Some (Inl j) \<Rightarrow> Some (j, NK_UTF_INVALID)
                    | Some (Inr (j, udecoded)) \<Rightarrow>
                        if j < len then Some (0, NK_UTF_INVALID) else Some (len, nk_utf_validate udecoded len)))
      else None)"

subsection \<open>Glyphs\<close>

record nk_font_glyph =
  gl_xadvance :: rat
  gl_x0 :: rat
  gl_y0 :: rat
  gl_x1 :: rat
  gl_y1 :: rat
  gl_u0 :: rat
  gl_v0 :: rat
  gl_u1 :: rat
  gl_v1 :: rat

text \<open>\<open>fo_ranges\<close> are the ranges of code points of all configurations of the font, in the order they are visited.\<close>

record nk_font =
  fo_height :: rat
  fo_ranges :: "(32 word \<times> 32 word) list"
  fo_glyphs :: "nk_font_glyph list"
  fo_fallback :: nk_font_glyph

fun find_glyph_loop :: "nk_font \<Rightarrow> 32 word \<Rightarrow> nat \<Rightarrow> (32 word \<times> 32 word) list \<Rightarrow> nk_font_glyph option" where
  "find_glyph_loop font unicode total_glyphs [] = Some (fo_fallback font)"
| "find_glyph_loop font unicode total_glyphs ((f, t) # rest) =
     (if unicode \<ge> f \<and> unicode \<le> t
      then (let k = total_glyphs + unat (unicode - f) in if k < length (fo_glyphs font) then Some (fo_glyphs font ! k) else None)
      else find_glyph_loop font unicode (total_glyphs + unat (t - f) + 1) rest)"

definition nk_font_find_glyph :: "nk_font \<Rightarrow> 32 word \<Rightarrow> nk_font_glyph option" where
  "nk_font_find_glyph font unicode = find_glyph_loop font unicode 0 (fo_ranges font)"

record user_glyph =
  ug_uv0 :: "rat \<times> rat"
  ug_uv1 :: "rat \<times> rat"
  ug_offset :: "rat \<times> rat"
  ug_width :: rat
  ug_height :: rat
  ug_xadvance :: rat

definition nk_rawfb_font_query_font_glyph :: "nk_font \<Rightarrow> rat \<Rightarrow> 32 word \<Rightarrow> user_glyph option" where
  "nk_rawfb_font_query_font_glyph font height codepoint =
     (let scl = f32 (height / fo_height font) in
      map_option (\<lambda>g. \<lparr>ug_uv0 = (gl_u0 g, gl_v0 g), ug_uv1 = (gl_u1 g, gl_v1 g),
                       ug_offset = (f32 (gl_x0 g * scl), f32 (gl_y0 g * scl)),
                       ug_width = f32 (f32 (gl_x1 g - gl_x0 g) * scl), ug_height = f32 (f32 (gl_y1 g - gl_y0 g) * scl),
                       ug_xadvance = f32 (gl_xadvance g * scl)\<rparr>)
        (nk_font_find_glyph font codepoint))"

subsection \<open>Text\<close>

definition glyph_src :: "rawfb_image \<Rightarrow> user_glyph \<Rightarrow> frect" where
  "glyph_src tex g =
     (let x0 = f32 (fst (ug_uv0 g) * of_int (im_w tex)); y0 = f32 (snd (ug_uv0 g) * of_int (im_h tex)) in
      \<lparr>fr_x = x0, fr_y = y0, fr_w = f32 (f32 (fst (ug_uv1 g) * of_int (im_w tex)) - x0),
       fr_h = f32 (f32 (snd (ug_uv1 g) * of_int (im_h tex)) - y0)\<rparr>)"

definition glyph_dst :: "rat \<Rightarrow> frect \<Rightarrow> user_glyph \<Rightarrow> frect" where
  "glyph_dst x rect g =
     \<lparr>fr_x = f32 (f32 (x + fst (ug_offset g)) + fr_x rect), fr_y = f32 (snd (ug_offset g) + fr_y rect),
      fr_w = of_int \<lceil>ug_width g\<rceil>, fr_h = of_int \<lceil>ug_height g\<rceil>\<rparr>"

function text_loop ::
  "nk_font \<Rightarrow> frect \<Rightarrow> 8 word list \<Rightarrow> nat \<Rightarrow> rat \<Rightarrow> nk_color \<Rightarrow> rat \<Rightarrow> nat \<Rightarrow> nat \<Rightarrow> 32 word \<Rightarrow> 32 word
   \<Rightarrow> rawfb_context \<Rightarrow> rawfb_context option" where
  "text_loop font rect text len font_height fg x text_len glyph_len unicode nxt ctx =
     (if text_len < len \<and> glyph_len \<noteq> 0 \<and> unicode \<noteq> NK_UTF_INVALID
      then (case nk_utf_decode text (text_len + glyph_len) nxt (len - text_len) of
              None \<Rightarrow> None
            | Some (next_glyph_len, nxt') \<Rightarrow>
                (case nk_rawfb_font_query_font_glyph font font_height unicode of
                   None \<Rightarrow> None
                 | Some g \<Rightarrow>
                     (case nk_rawfb_stretch_image (font_tex ctx) (glyph_dst x rect g) (glyph_src (font_tex ctx) g)
                             (scissors ctx) fg True (fb ctx) of
                        None \<Rightarrow> None
                      | Some im \<Rightarrow> text_loop font rect text len font_height fg (f32 (x + ug_xadvance g))
                                     (text_len + glyph_len) next_glyph_len nxt' nxt' (ctx\<lparr>fb := im\<rparr>))))
      else Some ctx)"
  by pat_completeness auto
termination
  by (relation "measure (\<lambda>(font, rect, text, len, font_height, fg, x, text_len, glyph_len, unicode, nxt, ctx). len - text_len)") auto

declare text_loop.simps [simp del]

definition nk_rawfb_draw_text ::
  "nk_font \<Rightarrow> frect \<Rightarrow> 8 word list \<Rightarrow> nat \<Rightarrow> rat \<Rightarrow> nk_color \<Rightarrow> rawfb_context \<Rightarrow> rawfb_context option" where
  "nk_rawfb_draw_text font rect text len font_height fg ctx =
     (if len = 0 then Some ctx
      else (case nk_utf_decode text 0 0 len of
              None \<Rightarrow> None
            | Some (glyph_len, unicode) \<Rightarrow>
                if glyph_len = 0 then Some ctx
                else text_loop font rect text len font_height fg 0 0 glyph_len unicode 0 ctx))"

subsection \<open>Commands\<close>

text \<open>
  The text of a command ends with a NUL that its length does not count. With \<^verbatim>\<open>NDEBUG\<close>, as the program is built,
  an arc is ignored.
\<close>

datatype nk_command =
    CmdNop
  | CmdScissor int int int int
  | CmdLine vec2i vec2i nk_color
  | CmdRect int int int int int nk_color
  | CmdRectFilled int int int int int nk_color
  | CmdCircle int int int int nk_color
  | CmdCircleFilled int int int int nk_color
  | CmdTriangle vec2i vec2i vec2i nk_color
  | CmdTriangleFilled vec2i vec2i vec2i nk_color
  | CmdPolygon "vec2i list" nk_color
  | CmdPolygonFilled "vec2i list" nk_color
  | CmdPolyline "vec2i list" nk_color
  | CmdText nk_font int int int int rat "8 word list" nk_color
  | CmdCurve vec2i vec2i vec2i vec2i nk_color
  | CmdRectMultiColor bool int int int int nk_color nk_color nk_color nk_color
  | CmdImage int int int int nk_image nk_color
  | CmdArc
  | CmdArcFilled
  | CmdCustom

fun render_command :: "8 word list \<Rightarrow> nk_command \<Rightarrow> rawfb_context \<Rightarrow> rawfb_context option" where
  "render_command junk CmdNop ctx = Some ctx"
| "render_command junk (CmdScissor x y w h) ctx = Some (nk_rawfb_scissor x y w h ctx)"
| "render_command junk (CmdLine p q c) ctx =
     nk_rawfb_stroke_line junk (fst p) (snd p) (fst q) (snd q) (nk_rawfb_color2int c (im_pl (fb ctx))) ctx"
| "render_command junk (CmdRect x y w h r c) ctx =
     nk_rawfb_stroke_rect junk x y w h r (nk_rawfb_color2int c (im_pl (fb ctx))) ctx"
| "render_command junk (CmdRectFilled x y w h r c) ctx =
     nk_rawfb_fill_rect junk x y w h r (nk_rawfb_color2int c (im_pl (fb ctx))) ctx"
| "render_command junk (CmdCircle x y w h c) ctx =
     nk_rawfb_stroke_circle x y w h (nk_rawfb_color2int c (im_pl (fb ctx))) ctx"
| "render_command junk (CmdCircleFilled x y w h c) ctx =
     nk_rawfb_fill_circle junk x y w h (nk_rawfb_color2int c (im_pl (fb ctx))) ctx"
| "render_command junk (CmdTriangle p0 p1 p2 c) ctx =
     nk_rawfb_stroke_triangle junk p0 p1 p2 (nk_rawfb_color2int c (im_pl (fb ctx))) ctx"
| "render_command junk (CmdTriangleFilled p0 p1 p2 c) ctx =
     nk_rawfb_fill_triangle p0 p1 p2 (nk_rawfb_color2int c (im_pl (fb ctx))) ctx"
| "render_command junk (CmdPolygon ps c) ctx =
     nk_rawfb_stroke_polygon junk ps (nk_rawfb_color2int c (im_pl (fb ctx))) ctx"
| "render_command junk (CmdPolygonFilled ps c) ctx =
     nk_rawfb_fill_polygon ps (nk_rawfb_color2int c (im_pl (fb ctx))) ctx"
| "render_command junk (CmdPolyline ps c) ctx =
     nk_rawfb_stroke_polyline junk ps (nk_rawfb_color2int c (im_pl (fb ctx))) ctx"
| "render_command junk (CmdText font x y w h height str c) ctx =
     nk_rawfb_draw_text font (rect_of x y w h) (str @ [0]) (length str) height c ctx"
| "render_command junk (CmdCurve p1 p2 p3 p4 c) ctx =
     nk_rawfb_stroke_curve junk p1 p2 p3 p4 22 (nk_rawfb_color2int c (im_pl (fb ctx))) ctx"
| "render_command junk (CmdRectMultiColor mal x y w h lc tc rc bc) ctx =
     nk_rawfb_draw_rect_multi_color mal x y w h lc tc rc bc ctx"
| "render_command junk (CmdImage x y w h img c) ctx = nk_rawfb_drawimage x y w h img c ctx"
| "render_command junk CmdArc ctx = Some ctx"
| "render_command junk CmdArcFilled ctx = Some ctx"
| "render_command junk CmdCustom ctx = Some ctx"

fun render_commands :: "8 word list \<Rightarrow> nk_command list \<Rightarrow> rawfb_context \<Rightarrow> rawfb_context option" where
  "render_commands junk [] ctx = Some ctx"
| "render_commands junk (c # cs) ctx = render_command junk c ctx \<bind> render_commands junk cs"

definition nk_rawfb_render :: "8 word list \<Rightarrow> nk_color \<Rightarrow> bool \<Rightarrow> nk_command list \<Rightarrow> rawfb_context \<Rightarrow> rawfb_context option" where
  "nk_rawfb_render junk clear enable_clear cmds ctx =
     do {
       ctx \<leftarrow> (if enable_clear then nk_rawfb_clear junk (nk_rawfb_color2int clear (im_pl (fb ctx))) ctx else Some ctx);
       render_commands junk cmds ctx
     }"

definition nk_rawfb_resize_fb :: "rawfb_image \<Rightarrow> rawfb_context \<Rightarrow> rawfb_context" where
  "nk_rawfb_resize_fb im ctx = ctx\<lparr>fb := im\<rparr>"

text \<open>
  \<^verbatim>\<open>nk_rawfb_init\<close>: the first two arguments tell whether memory for the context and Nuklear's own initialisation succeed,
  \<open>bake\<close> is the atlas Nuklear bakes (\<open>None\<close>: it failed), \<open>mal\<close> whether there is memory for an atlas that does not fit the
  buffer \<open>tex_mem\<close>. The outer \<open>None\<close> is a store outside memory, the inner one the result \<^verbatim>\<open>NULL\<close>.
\<close>

definition nk_rawfb_init ::
  "bool \<Rightarrow> bool \<Rightarrow> (int \<times> int \<times> 8 word list) option \<Rightarrow> bool \<Rightarrow> rawfb_image \<Rightarrow> 8 word list \<Rightarrow> rawfb_context option option" where
  "nk_rawfb_init mem nk bake mal im tex_mem =
     (if \<not> mem \<or> \<not> nk then Some None
      else case bake of
        None \<Rightarrow> Some None
      | Some (w, h, tex) \<Rightarrow>
          let size = w * h in
          map_option (\<lambda>m. Some (nk_rawfb_scissor 0 0 (im_w im) (im_h im)
              \<lparr>scissors = \<lparr>rc_x = 0, rc_y = 0, rc_w = 0, rc_h = 0\<rparr>, fb = im,
               font_tex = \<lparr>im_pixels = m, im_w = w, im_h = h, im_pitch = w, im_pl = font_pl\<rparr>\<rparr>))
            (if size \<le> 4194304 then store_bytes tex_mem 0 (take (nat size) tex)
             else if mal then Some (take (nat size) tex) else None))"

section \<open>Images and text\<close>

definition scissor_box :: "nk_rect \<Rightarrow> (int \<times> int) set" where
  "scissor_box sc = {rc_x sc..<rc_w sc} \<times> {rc_y sc..<rc_h sc}"

text \<open>Only pixels inside the scissors changed.\<close>

definition redrawn :: "nk_rect \<Rightarrow> rawfb_image \<Rightarrow> rawfb_image \<Rightarrow> bool" where
  "redrawn sc im im' \<longleftrightarrow> (\<exists>m. im' = im\<lparr>im_pixels := m\<rparr> \<and> length m = length (im_pixels im))
     \<and> (\<forall>p. p \<notin> scissor_box sc \<longrightarrow> pixel_at im' p = pixel_at im p)"

lemma redrawn_refl: "redrawn sc im im"
  unfolding redrawn_def by (auto intro: exI [of _ "im_pixels im"])

lemma redrawn_trans: "redrawn sc a b \<Longrightarrow> redrawn sc b c \<Longrightarrow> redrawn sc a c"
  unfolding redrawn_def by auto

lemma redrawn_ok: "redrawn sc im im' \<Longrightarrow> image_ok im \<Longrightarrow> image_ok im'"
  by (auto simp: redrawn_def image_ok_def)

lemma blend_redrawn:
  assumes "image_ok im" "(x, y) \<in> scissor_box sc"
  shows "\<exists>im'. nk_rawfb_img_blendpixel im x y c = Some im' \<and> redrawn sc im im'"
  using blendpixel_total [OF assms(1), of x y c] assms(2) unfolding redrawn_def by metis

lemma stretch_row_redrawn:
  assumes "image_ok src" "image_ok dst"
  shows "\<exists>r. stretch_row src dst_rect sc fg is_font xinc xoff0 py yoff dst = Some r \<and> redrawn sc dst (fst r)"
  unfolding stretch_row_def
proof (rule for_loop_invariant [of "\<lambda>_ r. redrawn sc dst (fst r)"], goal_cases)
  case 1
  then show ?case by (simp add: redrawn_refl)
next
  case (2 i r)
  obtain im xoff where r: "r = (im, xoff)" by (cases r)
  let ?px = "i + c_trunc (f32 (fr_x dst_rect + 1 / 2))"
  show ?case
  proof (cases "?px < rc_x sc \<or> ?px \<ge> rc_w sc \<or> py < rc_y sc \<or> py \<ge> rc_h sc")
    case True
    then show ?thesis using 2 by (simp add: r Let_def)
  next
    case False
    obtain col where col: "nk_rawfb_img_getpixel src (c_trunc xoff) (c_trunc yoff) = Some col" using getpixel_total [OF assms(1)] by blast
    have "(?px, py) \<in> scissor_box sc" using False by (auto simp: scissor_box_def)
    moreover have im: "redrawn sc dst im" using 2 by (simp add: r)
    ultimately obtain im' where "nk_rawfb_img_blendpixel im ?px py (tint is_font fg col) = Some im'" "redrawn sc im im'"
      using blend_redrawn redrawn_ok [OF im assms(2)] by blast
    then show ?thesis using False col redrawn_trans [OF im] by (auto simp: r Let_def)
  qed
qed

lemma stretch_image_redrawn:
  assumes "image_ok src" "image_ok dst"
  shows "\<exists>im. nk_rawfb_stretch_image src dst_rect src_rect sc fg is_font dst = Some im \<and> redrawn sc dst im"
proof -
  let ?xinc = "f32 (fr_w src_rect / fr_w dst_rect)" and ?yinc = "f32 (fr_h src_rect / fr_h dst_rect)"
  let ?body = "\<lambda>j (im, yoff). map_option (\<lambda>r. (fst r, f32 (yoff + ?yinc)))
      (stretch_row src dst_rect sc fg is_font ?xinc (fr_x src_rect) (j + c_trunc (f32 (fr_y dst_rect + 1 / 2))) yoff im)"
  have body: "\<exists>r'. ?body j r = Some r' \<and> redrawn sc dst (fst r')" if r: "redrawn sc dst (fst r)" for j r
  proof -
    obtain im yoff where [simp]: "r = (im, yoff)" by (cases r)
    obtain r' where "stretch_row src dst_rect sc fg is_font ?xinc (fr_x src_rect) (j + c_trunc (f32 (fr_y dst_rect + 1 / 2))) yoff im = Some r'"
        "redrawn sc im (fst r')"
      using stretch_row_redrawn [OF assms(1), of im] redrawn_ok [OF r assms(2)] by (simp only: \<open>r = (im, yoff)\<close> fst_conv) blast
    then show ?thesis using redrawn_trans [of sc dst im] r by auto
  qed
  have "\<exists>r. for_loop 0 (nat (wrap_short (c_trunc (fr_h dst_rect)))) ?body (dst, fr_y src_rect) = Some r \<and> redrawn sc dst (fst r)"
    by (rule for_loop_invariant [of "\<lambda>_ r. redrawn sc dst (fst r)"]) (use body redrawn_refl in auto)
  then show ?thesis unfolding nk_rawfb_stretch_image_def Let_def by auto
qed

text \<open>An operation that can be carried out in every good context and changes nothing outside the scissors.\<close>

definition clipped_at :: "rawfb_context \<Rightarrow> rawfb_context option \<Rightarrow> bool" where
  "clipped_at ctx r \<longleftrightarrow> (\<exists>ctx'. r = Some ctx' \<and> context_ok ctx' \<and> frame_of ctx' = frame_of ctx
     \<and> (\<forall>p. p \<notin> in_scissors ctx \<longrightarrow> pixel_at (fb ctx') p = pixel_at (fb ctx) p))"

lemma clipped_refl: "context_ok ctx \<Longrightarrow> clipped_at ctx (Some ctx)"
  by (simp add: clipped_at_def)

lemma clipped_shape: "safe_shape col f \<Longrightarrow> context_ok ctx \<Longrightarrow> clipped_at ctx (f ctx)"
  by (force simp: safe_shape_def painted_some_def paints_def clipped_at_def)

lemma clipped_stretch:
  assumes "context_ok ctx" "image_ok src"
  shows "\<exists>im. nk_rawfb_stretch_image src dr sr (scissors ctx) fg is_font (fb ctx) = Some im \<and> clipped_at ctx (Some (ctx\<lparr>fb := im\<rparr>))"
proof -
  obtain im where im: "nk_rawfb_stretch_image src dr sr (scissors ctx) fg is_font (fb ctx) = Some im" "redrawn (scissors ctx) (fb ctx) im"
    using stretch_image_redrawn [OF assms(2), of "fb ctx"] assms(1) unfolding context_ok_def by blast
  obtain m where "im = (fb ctx)\<lparr>im_pixels := m\<rparr>" "length m = length (im_pixels (fb ctx))" using im(2) by (auto simp: redrawn_def)
  moreover have "scissor_box (scissors ctx) = in_scissors ctx" by (simp add: scissor_box_def in_scissors_def)
  ultimately have "clipped_at ctx (Some (ctx\<lparr>fb := im\<rparr>))" using im(2) assms(1) by (auto simp: clipped_at_def redrawn_def)
  then show ?thesis using im(1) by blast
qed

lemma clipped_step:
  assumes "clipped_at ctx (Some ctx')" "clipped_at ctx' r"
  shows "clipped_at ctx r"
proof -
  have f: "frame_of ctx' = frame_of ctx" using assms(1) by (simp add: clipped_at_def)
  show ?thesis using assms frame_of_eq(3) [OF f] f by (auto simp: clipped_at_def)
qed

lemma clipped_image:
  assumes "context_ok ctx" "\<And>im. img_handle img = Some im \<Longrightarrow> image_ok im"
  shows "clipped_at ctx (nk_rawfb_drawimage x y w h img col ctx)"
proof -
  let ?src = "case img_handle img of Some im \<Rightarrow> im | None \<Rightarrow> font_tex ctx"
  have "image_ok ?src" using assms by (auto simp: context_ok_def split: option.splits)
  then obtain im where "nk_rawfb_stretch_image ?src (rect_of x y w h)
      (rect_of (rc_x (img_region img)) (rc_y (img_region img)) (rc_w (img_region img)) (rc_h (img_region img)))
      (scissors ctx) col (img_handle img = None) (fb ctx) = Some im" "clipped_at ctx (Some (ctx\<lparr>fb := im\<rparr>))"
    using clipped_stretch [OF assms(1)] by blast
  then show ?thesis by (simp only: nk_rawfb_drawimage_def Let_def option.map)
qed

text \<open>Decoding stops at the NUL behind the text at the latest.\<close>

lemma decode_NUL: "nk_utf_decode_byte 0 = (0, 1)"
  by (simp add: nk_utf_decode_byte_def nk_utf_table_def)

lemma utf_rest_bound:
  assumes "p + j \<le> length str"
  shows "(\<exists>k. utf_rest (str @ [0]) p clen len j u = Some (Inl k) \<and> p + k \<le> length str)
    \<or> (\<exists>k v. utf_rest (str @ [0]) p clen len j u = Some (Inr (k, v)) \<and> p + k \<le> length str)"
  using assms
proof (induction "clen - j" arbitrary: j u)
  case 0
  then show ?case by (subst (1 2) utf_rest.simps) auto
next
  case (Suc c)
  obtain v ty where b: "nk_utf_decode_byte ((str @ [0]) ! (p + j)) = (v, ty)" by (cases "nk_utf_decode_byte ((str @ [0]) ! (p + j))")
  show ?case
  proof (cases "j < clen \<and> j < len")
    case False
    then show ?thesis using Suc.prems by (subst (1 2) utf_rest.simps) auto
  next
    case True
    show ?thesis
    proof (cases "ty = 0")
      case False
      then show ?thesis using True Suc.prems b by (subst (1 2) utf_rest.simps) auto
    next
      case cont: True
      have "p + j \<noteq> length str" using cont b decode_NUL by (auto simp: nth_append)
      then have "p + Suc j \<le> length str" using Suc.prems by simp
      then show ?thesis using Suc.hyps(1) [of "Suc j" "push_bit 6 u OR v"] Suc.hyps(2) True Suc.prems b cont
        by (subst (1 2) utf_rest.simps) simp
    qed
  qed
qed

lemma utf_decode_bound:
  assumes "p \<le> length str"
  shows "\<exists>k v. nk_utf_decode (str @ [0]) p u clen = Some (k, v) \<and> (p < length str \<longrightarrow> p + k \<le> length str)"
proof -
  obtain v len where b: "nk_utf_decode_byte ((str @ [0]) ! p) = (v, len)" by (cases "nk_utf_decode_byte ((str @ [0]) ! p)")
  consider "clen = 0" | "clen \<noteq> 0" "\<not> (1 \<le> len \<and> len < 5)" | "clen \<noteq> 0" "1 \<le> len" "len < 5" "p = length str" | "clen \<noteq> 0" "1 \<le> len" "len < 5" "p < length str"
    using assms by linarith
  then show ?thesis
  proof cases
    case 3
    then have "v = 0" "len = 1" using b decode_NUL by (simp_all add: nth_append)
    moreover have "utf_rest (str @ [0]) p clen 1 1 0 = Some (Inr (1, 0))" by (subst utf_rest.simps) simp
    ultimately show ?thesis using 3 b by (simp add: nk_utf_decode_def)
  next
    case 4
    have "(\<exists>k. utf_rest (str @ [0]) p clen len 1 v = Some (Inl k) \<and> p + k \<le> length str)
        \<or> (\<exists>k w. utf_rest (str @ [0]) p clen len 1 v = Some (Inr (k, w)) \<and> p + k \<le> length str)"
      using 4 by (intro utf_rest_bound) simp
    then show ?thesis using 4 b by (auto simp: nk_utf_decode_def)
  qed (use assms b in \<open>auto simp: nk_utf_decode_def\<close>)
qed

text \<open>A font has a glyph for every code point of its ranges.\<close>

definition font_ok :: "nk_font \<Rightarrow> bool" where
  "font_ok font \<longleftrightarrow> list_all (\<lambda>(f, t). f \<le> t) (fo_ranges font)
     \<and> sum_list (map (\<lambda>(f, t). unat (t - f) + 1) (fo_ranges font)) \<le> length (fo_glyphs font)"

lemma find_glyph_loop_total:
  "list_all (\<lambda>(f, t). f \<le> t) ranges \<Longrightarrow> total_glyphs + sum_list (map (\<lambda>(f, t). unat (t - f) + 1) ranges) \<le> length (fo_glyphs font)
   \<Longrightarrow> \<exists>g. find_glyph_loop font u total_glyphs ranges = Some g"
proof (induction font u total_glyphs ranges rule: find_glyph_loop.induct)
  case (2 font u total_glyphs f t rest)
  show ?case
  proof (cases "u \<ge> f \<and> u \<le> t")
    case True
    then have "unat u \<le> unat t" "unat f \<le> unat u" "unat (u - f) = unat u - unat f" "unat (t - f) = unat t - unat f"
      by (simp_all add: word_le_nat_alt unat_sub)
    then have "unat (u - f) \<le> unat (t - f)" by simp
    then show ?thesis using True "2.prems" by (simp add: Let_def)
  next
    case False
    then show ?thesis using "2.IH" "2.prems" by (auto simp: add.assoc)
  qed
qed simp

lemma query_glyph_total: "font_ok font \<Longrightarrow> \<exists>g. nk_rawfb_font_query_font_glyph font height u = Some g"
  using find_glyph_loop_total [of "fo_ranges font" 0 font u]
  by (auto simp: font_ok_def nk_rawfb_font_query_font_glyph_def nk_font_find_glyph_def Let_def)

lemma clipped_text_loop:
  assumes "font_ok font"
  shows "context_ok ctx \<Longrightarrow> text_len < length str \<longrightarrow> text_len + glyph_len \<le> length str
    \<Longrightarrow> clipped_at ctx (text_loop font rect (str @ [0]) (length str) fh fg x text_len glyph_len u nxt ctx)"
proof (induction "length str - text_len" arbitrary: x text_len glyph_len u nxt ctx rule: less_induct)
  case less
  show ?case
  proof (cases "text_len < length str \<and> glyph_len \<noteq> 0 \<and> u \<noteq> NK_UTF_INVALID")
    case False
    then show ?thesis using clipped_refl [OF less.prems(1)] by (subst text_loop.simps) (simp only: if_False)
  next
    case True
    let ?p = "text_len + glyph_len"
    have p: "?p \<le> length str" using True less.prems(2) by blast
    obtain k v where k: "nk_utf_decode (str @ [0]) ?p nxt (length str - text_len) = Some (k, v)" "?p < length str \<longrightarrow> ?p + k \<le> length str"
      using utf_decode_bound [OF p] by blast
    obtain g where g: "nk_rawfb_font_query_font_glyph font fh u = Some g" using query_glyph_total [OF assms] by blast
    obtain im where im: "nk_rawfb_stretch_image (font_tex ctx) (glyph_dst x rect g) (glyph_src (font_tex ctx) g) (scissors ctx) fg True (fb ctx) = Some im"
        "clipped_at ctx (Some (ctx\<lparr>fb := im\<rparr>))"
      using clipped_stretch [OF less.prems(1)] less.prems(1) unfolding context_ok_def by blast
    have ok: "context_ok (ctx\<lparr>fb := im\<rparr>)" using im(2) by (simp add: clipped_at_def)
    have "clipped_at (ctx\<lparr>fb := im\<rparr>) (text_loop font rect (str @ [0]) (length str) fh fg (f32 (x + ug_xadvance g)) ?p k v v (ctx\<lparr>fb := im\<rparr>))"
      by (rule less.hyps [OF _ ok k(2)]) (use True in linarith)
    then have "clipped_at ctx (text_loop font rect (str @ [0]) (length str) fh fg (f32 (x + ug_xadvance g)) ?p k v v (ctx\<lparr>fb := im\<rparr>))"
      using clipped_step [OF im(2)] by blast
    then show ?thesis using True k(1) g im(1) by (subst text_loop.simps) simp
  qed
qed

lemma clipped_text:
  assumes "font_ok font" "context_ok ctx"
  shows "clipped_at ctx (nk_rawfb_draw_text font rect (str @ [0]) (length str) fh fg ctx)"
proof (cases "str = []")
  case True
  then show ?thesis using clipped_refl [OF assms(2)] by (simp add: nk_rawfb_draw_text_def)
next
  case False
  obtain k v where k: "nk_utf_decode (str @ [0]) 0 0 (length str) = Some (k, v)" "0 < length str \<longrightarrow> 0 + k \<le> length str"
    using utf_decode_bound [of 0 str] by blast
  then show ?thesis using clipped_text_loop [OF assms, of 0 str k] clipped_refl [OF assms(2)] False
    by (simp add: nk_rawfb_draw_text_def)
qed

section \<open>Commands\<close>

text \<open>
  What the commands must satisfy: the coordinates are of the types of \<^verbatim>\<open>nuklear.h\<close> (they are converted to \<^verbatim>\<open>short\<close> where
  they are passed on); circles have sizes from 2 to 200, corners radii up to 100, gradients sides of at least 2; a
  polygon has a point; images and fonts are complete.
\<close>

fun command_ok :: "nk_command \<Rightarrow> bool" where
  "command_ok (CmdRect x y w h r c) \<longleftrightarrow> 0 \<le> wrap_short r \<and> wrap_short r \<le> 100"
| "command_ok (CmdRectFilled x y w h r c) \<longleftrightarrow> 0 \<le> wrap_short r \<and> wrap_short r \<le> 100"
| "command_ok (CmdCircle x y w h c) \<longleftrightarrow> 2 \<le> wrap_short w \<and> wrap_short w \<le> 200 \<and> 2 \<le> wrap_short h \<and> wrap_short h \<le> 200"
| "command_ok (CmdCircleFilled x y w h c) \<longleftrightarrow> 2 \<le> wrap_short w \<and> wrap_short w \<le> 200 \<and> 2 \<le> wrap_short h \<and> wrap_short h \<le> 200"
| "command_ok (CmdPolygon ps c) \<longleftrightarrow> ps \<noteq> []"
| "command_ok (CmdPolygonFilled ps c) \<longleftrightarrow> (\<forall>p\<in>set ps. short_point p)"
| "command_ok (CmdText font x y w h height str c) \<longleftrightarrow> font_ok font"
| "command_ok (CmdRectMultiColor mal x y w h lc tc rc bc) \<longleftrightarrow> 2 \<le> wrap_short w \<and> 2 \<le> wrap_short h"
| "command_ok (CmdImage x y w h img c) \<longleftrightarrow> (case img_handle img of None \<Rightarrow> True | Some im \<Rightarrow> image_ok im)"
| "command_ok _ \<longleftrightarrow> True"

fun draws_unclipped :: "nk_command \<Rightarrow> bool" where
  "draws_unclipped (CmdScissor x y w h) \<longleftrightarrow> True"
| "draws_unclipped (CmdRectMultiColor mal x y w h lc tc rc bc) \<longleftrightarrow> True"
| "draws_unclipped _ \<longleftrightarrow> False"

lemma clipped_command:
  assumes "command_ok c" "context_ok ctx" "length junk = 64" "\<not> draws_unclipped c"
  shows "clipped_at ctx (render_command junk c ctx)"
  using assms(1,4)
proof (cases c)
  case (CmdText font x y w h height str col)
  then show ?thesis using assms clipped_text by simp
next
  case (CmdImage x y w h img col)
  then show ?thesis using assms by (auto intro!: clipped_image split: option.splits)
qed (use assms in \<open>auto intro!: clipped_refl clipped_shape [OF safe_line] clipped_shape [OF safe_stroke_rect]
    clipped_shape [OF safe_fill_rect] clipped_shape [OF safe_stroke_circle] clipped_shape [OF safe_fill_circle]
    clipped_shape [OF safe_triangles(1)] clipped_shape [OF safe_triangles(2)] clipped_shape [OF safe_stroke_polygon]
    clipped_shape [OF safe_polygon] clipped_shape [OF safe_polyline] clipped_shape [OF safe_curve]\<close>)

text \<open>What a command keeps: the sizes, the format and the font texture.\<close>

definition same_screen :: "rawfb_context \<Rightarrow> rawfb_context \<Rightarrow> bool" where
  "same_screen ctx ctx' \<longleftrightarrow> (fb ctx')\<lparr>im_pixels := []\<rparr> = (fb ctx)\<lparr>im_pixels := []\<rparr>
     \<and> length (im_pixels (fb ctx')) = length (im_pixels (fb ctx)) \<and> font_tex ctx' = font_tex ctx"

lemma same_screen_refl: "same_screen ctx ctx"
  by (simp add: same_screen_def)

lemma same_screen_trans: "same_screen a b \<Longrightarrow> same_screen b c \<Longrightarrow> same_screen a c"
  by (simp add: same_screen_def)

lemma same_screen_frame:
  assumes "frame_of ctx' = frame_of ctx"
  shows "same_screen ctx ctx'"
proof -
  have "ctx'\<lparr>fb := (fb ctx')\<lparr>im_pixels := []\<rparr>\<rparr> = ctx\<lparr>fb := (fb ctx)\<lparr>im_pixels := []\<rparr>\<rparr>" using assms by (simp add: frame_of_def)
  from arg_cong [OF this, of fb] show ?thesis using frame_of_eq [OF assms] by (simp add: same_screen_def)
qed

lemma scissor_ok:
  assumes "context_ok ctx"
  shows "context_ok (nk_rawfb_scissor x y w h ctx)" "same_screen ctx (nk_rawfb_scissor x y w h ctx)"
  using assms by (auto simp: context_ok_def image_ok_def scissors_ok_def nk_rawfb_scissor_def same_screen_def)

lemma command_safe:
  assumes "command_ok c" "context_ok ctx" "length junk = 64"
  shows "\<exists>ctx'. render_command junk c ctx = Some ctx' \<and> context_ok ctx' \<and> same_screen ctx ctx'"
proof (cases "draws_unclipped c")
  case False
  then show ?thesis using clipped_command [OF assms] same_screen_frame by (auto simp: clipped_at_def)
next
  case True
  then consider x y w h where "c = CmdScissor x y w h" | mal x y w h lc tc rc bc where "c = CmdRectMultiColor mal x y w h lc tc rc bc"
    by (cases c) auto
  then show ?thesis
  proof cases
    case 1
    then show ?thesis using scissor_ok [OF assms(2)] by simp
  next
    case 2
    then show ?thesis using safe_multi_color [of w h mal x y lc tc rc bc] assms same_screen_frame by (auto simp: safe_op_def)
  qed
qed

lemma commands_safe:
  "list_all command_ok cs \<Longrightarrow> context_ok ctx \<Longrightarrow> length junk = 64
   \<Longrightarrow> \<exists>ctx'. render_commands junk cs ctx = Some ctx' \<and> context_ok ctx' \<and> same_screen ctx ctx'"
proof (induction cs arbitrary: ctx)
  case (Cons c cs)
  obtain c1 where c1: "render_command junk c ctx = Some c1" "context_ok c1" "same_screen ctx c1"
    using command_safe [of c ctx junk] Cons.prems by auto
  obtain c2 where c2: "render_commands junk cs c1 = Some c2" "context_ok c2" "same_screen c1 c2"
    using Cons.IH [OF _ c1(2)] Cons.prems by auto
  show ?case using c1(1) c2(1,2) same_screen_trans [OF c1(3) c2(3)] by auto
qed (simp add: same_screen_refl)

lemma clear_paints:
  assumes "context_ok ctx" "length junk = 64"
  shows "\<exists>ctx'. nk_rawfb_clear junk col ctx = Some ctx' \<and> paints col ctx ctx' (in_scissors ctx)"
proof -
  have im: "0 \<le> im_w (fb ctx)" "im_w (fb ctx) \<le> 32767" "0 \<le> im_h (fb ctx)" "im_h (fb ctx) \<le> 32767"
    using assms(1) by (simp_all add: context_ok_def image_ok_def)
  obtain ctx' where "nk_rawfb_clear junk col ctx = Some ctx'" "paints col ctx ctx' ({0..<0 + im_w (fb ctx)} \<times> {0..<0 + im_h (fb ctx)})"
    using fill_rect_paints [OF assms, of 0 0 "im_w (fb ctx)" "im_h (fb ctx)" col] im by (auto simp: nk_rawfb_clear_def)
  moreover have "({0..<0 + im_w (fb ctx)} \<times> {0..<0 + im_h (fb ctx)}) \<inter> in_scissors ctx = in_scissors ctx \<inter> in_scissors ctx"
    using in_scissors_in [of ctx] assms(1) by (auto simp: context_ok_def pixel_in_def)
  ultimately show ?thesis using paints_cong by blast
qed

subsection \<open>Frames\<close>

text \<open>Before each frame \<^verbatim>\<open>main\<close> points the renderer to the buffer that is not shown.\<close>

fun render_frames :: "8 word list \<Rightarrow> nk_color \<Rightarrow> (8 word list \<times> nk_command list) list \<Rightarrow> rawfb_context \<Rightarrow> rawfb_context option" where
  "render_frames junk clear [] ctx = Some ctx"
| "render_frames junk clear ((px, cmds) # rest) ctx =
     nk_rawfb_render junk clear True cmds (ctx\<lparr>fb := (fb ctx)\<lparr>im_pixels := px\<rparr>\<rparr>) \<bind> render_frames junk clear rest"

lemma render_safe:
  assumes "list_all command_ok cmds" "context_ok ctx" "length junk = 64"
  shows "\<exists>ctx'. nk_rawfb_render junk clear en cmds ctx = Some ctx' \<and> context_ok ctx' \<and> same_screen ctx ctx'"
proof (cases en)
  case False
  then show ?thesis using commands_safe [OF assms] by (simp add: nk_rawfb_render_def)
next
  case True
  obtain c1 where c1: "nk_rawfb_clear junk (nk_rawfb_color2int clear (im_pl (fb ctx))) ctx = Some c1" "context_ok c1" "same_screen ctx c1"
    using clear_paints [OF assms(2,3), of "nk_rawfb_color2int clear (im_pl (fb ctx))"] same_screen_frame by (auto simp: paints_def)
  then show ?thesis using True commands_safe [OF assms(1) c1(2) assms(3)] same_screen_trans [OF c1(3)] by (auto simp: nk_rawfb_render_def)
qed

lemma new_buffer_ok:
  assumes "context_ok ctx" "length px = length (im_pixels (fb ctx))"
  shows "context_ok (ctx\<lparr>fb := (fb ctx)\<lparr>im_pixels := px\<rparr>\<rparr>)" "same_screen ctx (ctx\<lparr>fb := (fb ctx)\<lparr>im_pixels := px\<rparr>\<rparr>)"
  using assms by (simp_all add: same_screen_def)

lemma frames_safe:
  "context_ok ctx \<Longrightarrow> length junk = 64 \<Longrightarrow> list_all (\<lambda>(px, cmds). length px = length (im_pixels (fb ctx)) \<and> list_all command_ok cmds) frames
   \<Longrightarrow> \<exists>ctx'. render_frames junk clear frames ctx = Some ctx' \<and> context_ok ctx' \<and> same_screen ctx ctx'"
proof (induction frames arbitrary: ctx)
  case (Cons f frames)
  obtain px cmds where f: "f = (px, cmds)" by (cases f)
  let ?c = "ctx\<lparr>fb := (fb ctx)\<lparr>im_pixels := px\<rparr>\<rparr>"
  have c: "context_ok ?c" "same_screen ctx ?c" using new_buffer_ok Cons.prems f by auto
  obtain c1 where c1: "nk_rawfb_render junk clear True cmds ?c = Some c1" "context_ok c1" "same_screen ?c c1"
    using render_safe [OF _ c(1) Cons.prems(2), of cmds] Cons.prems(3) f by auto
  have "length (im_pixels (fb c1)) = length (im_pixels (fb ctx))" using c1(3) Cons.prems(3) f by (simp add: same_screen_def)
  then obtain c2 where "render_frames junk clear frames c1 = Some c2" "context_ok c2" "same_screen c1 c2"
    using Cons.IH [OF c1(2) Cons.prems(2)] Cons.prems(3) by auto
  then show ?case using c1(1) same_screen_trans [OF c(2) same_screen_trans [OF c1(3)]] by (auto simp: f)
qed (simp add: same_screen_refl)

lemma init_ok:
  assumes im: "image_ok im" and tex: "0 \<le> w" "w \<le> 32767" "0 \<le> h" "h \<le> 32767" "w * h \<le> int (length tex)" "w * h \<le> INT_MAX"
    and mem: "length tex_mem = 4194304" "w * h \<le> 4194304 \<or> mal"
  shows "\<exists>ctx. nk_rawfb_init True True (Some (w, h, tex)) mal im tex_mem = Some (Some ctx) \<and> context_ok ctx \<and> fb ctx = im
    \<and> in_scissors ctx = {0..<im_w im} \<times> {0..<im_h im}"
proof -
  let ?m = "if w * h \<le> 4194304 then store_bytes tex_mem 0 (take (nat (w * h)) tex) else if mal then Some (take (nat (w * h)) tex) else None"
  have wh: "0 \<le> w * h" using tex by simp
  have "nat (w * h) \<le> length tex" using tex(5) by linarith
  then have len: "int (length (take (nat (w * h)) tex)) = w * h" using wh by simp
  have "\<exists>m. ?m = Some m \<and> w * h \<le> int (length m) \<and> int (length m) \<le> INT_MAX"
  proof (cases "w * h \<le> 4194304")
    case True
    then obtain m where m: "store_bytes tex_mem 0 (take (nat (w * h)) tex) = Some m"
      using store_bytes_Some [of 0 "take (nat (w * h)) tex" tex_mem] len mem(1) by simp
    then have "length m = 4194304" using store_bytes_length [OF m] mem(1) by simp
    then show ?thesis using True m by (simp add: INT_MAX_def)
  next
    case False
    then show ?thesis using mem(2) len tex(6) by simp
  qed
  then obtain m where m: "?m = Some m" "w * h \<le> int (length m)" "int (length m) \<le> INT_MAX" by blast
  let ?ctx = "nk_rawfb_scissor 0 0 (im_w im) (im_h im)
      \<lparr>scissors = \<lparr>rc_x = 0, rc_y = 0, rc_w = 0, rc_h = 0\<rparr>, fb = im,
       font_tex = \<lparr>im_pixels = m, im_w = w, im_h = h, im_pitch = w, im_pl = font_pl\<rparr>\<rparr>"
  have "nk_rawfb_init True True (Some (w, h, tex)) mal im tex_mem = Some (Some ?ctx)"
    unfolding nk_rawfb_init_def Let_def using m(1) by simp
  moreover have "image_ok (font_tex ?ctx)" using tex m(2,3) by (simp add: image_ok_def nk_rawfb_scissor_def font_pl_def mult.commute)
  moreover have "0 \<le> im_w im" "0 \<le> im_h im" using im by (simp_all add: image_ok_def)
  then have "scissors_ok ?ctx" "fb ?ctx = im" "in_scissors ?ctx = {0..<im_w im} \<times> {0..<im_h im}"
    by (simp_all add: scissors_ok_def nk_rawfb_scissor_def in_scissors_def)
  ultimately show ?thesis using im by (auto simp: context_ok_def)
qed

section \<open>Properties\<close>

text \<open>
  C13 (render_in_bounds). From \<^verbatim>\<open>nk_rawfb_init\<close> on, any number of frames can be rendered, each into a buffer of the
  size of the screen and from any list of commands that are in order: every frame ends, no access is outside the
  frame buffer, the images, the font texture, the glyphs or the text, and the sizes and the format of the screen and the font texture
  stay as they are.
\<close>

theorem render_in_bounds:
  assumes "image_ok im" "0 \<le> w" "w \<le> 32767" "0 \<le> h" "h \<le> 32767" "w * h \<le> int (length tex)" "w * h \<le> INT_MAX"
    and "length tex_mem = 4194304" "w * h \<le> 4194304 \<or> mal" "length junk = 64"
    and "list_all (\<lambda>(px, cmds). length px = length (im_pixels im) \<and> list_all command_ok cmds) frames"
  shows "\<exists>ctx ctx'. nk_rawfb_init True True (Some (w, h, tex)) mal im tex_mem = Some (Some ctx)
    \<and> render_frames junk clear frames ctx = Some ctx' \<and> context_ok ctx' \<and> same_screen ctx ctx'"
proof -
  obtain ctx where ctx: "nk_rawfb_init True True (Some (w, h, tex)) mal im tex_mem = Some (Some ctx)" "context_ok ctx" "fb ctx = im"
    using init_ok [OF assms(1-9)] by blast
  then show ?thesis using frames_safe [OF ctx(2) assms(10), of frames clear] assms(11) by auto
qed

text \<open>
  C31 (commands_clipped). A command in order changes no pixel outside the scissors, text and images included; the two
  exceptions are the command that sets the scissors and the gradient, which does not look at them.
\<close>

theorem commands_clipped:
  assumes "command_ok c" "context_ok ctx" "length junk = 64"
    and "\<And>x y w h. c \<noteq> CmdScissor x y w h" "\<And>mal x y w h lc tc rc bc. c \<noteq> CmdRectMultiColor mal x y w h lc tc rc bc"
  shows "\<exists>ctx'. render_command junk c ctx = Some ctx' \<and> frame_of ctx' = frame_of ctx
    \<and> (\<forall>p. p \<notin> in_scissors ctx \<longrightarrow> pixel_at (fb ctx') p = pixel_at (fb ctx) p)"
proof -
  have "(\<exists>x y w h. c = CmdScissor x y w h) \<or> (\<exists>mal x y w h lc tc rc bc. c = CmdRectMultiColor mal x y w h lc tc rc bc)"
    if "draws_unclipped c" using that by (cases c) simp_all
  then have "\<not> draws_unclipped c" using assms(4,5) by blast
  then show ?thesis using clipped_command [OF assms(1-3)] by (auto simp: clipped_at_def)
qed

definition demo_picture :: nk_image where
  "demo_picture =
     \<lparr>img_handle = Some \<lparr>im_pixels = [10, 0, 0, 255, 200, 0, 0, 255], im_w = 2, im_h = 1, im_pitch = 8, im_pl = screen_pl\<rparr>,
      img_region = \<lparr>rc_x = 0, rc_y = 0, rc_w = 2, rc_h = 1\<rparr>\<rparr>"

definition demo_white :: nk_color where
  "demo_white = \<lparr>nk_r = 255, nk_g = 255, nk_b = 255, nk_a = 255\<rparr>"

definition demo_font :: nk_font where
  "demo_font = \<lparr>fo_height = 13, fo_ranges = [(32, 32)],
     fo_glyphs = [\<lparr>gl_xadvance = 7, gl_x0 = 0, gl_y0 = 0, gl_x1 = 1, gl_y1 = 1, gl_u0 = 0, gl_v0 = 0, gl_u1 = 1, gl_v1 = 1\<rparr>],
     fo_fallback = \<lparr>gl_xadvance = 7, gl_x0 = 0, gl_y0 = 0, gl_x1 = 1, gl_y1 = 1, gl_u0 = 0, gl_v0 = 0, gl_u1 = 1, gl_v1 = 1\<rparr>\<rparr>"

definition demo_commands :: "nk_command list" where
  "demo_commands =
     [CmdScissor 0 0 4 3, CmdRectFilled 0 0 4 3 1 demo_white, CmdCircleFilled 0 0 3 3 demo_white,
      CmdImage 1 1 2 1 demo_picture demo_white, CmdText demo_font 0 0 4 3 13 [0x41, 0xC3, 0xA9] demo_white]"

lemma demo_commands_ok: "list_all command_ok demo_commands"
  by (simp add: demo_commands_def demo_picture_def demo_font_def font_ok_def image_ok_def screen_pl_def INT_MAX_def)

theorem render_in_bounds_witness:
  "\<exists>ctx ctx'. nk_rawfb_init True True (Some (1, 1, [0])) True (fb demo_screen) (replicate 4194304 0) = Some (Some ctx)
    \<and> render_frames (replicate 64 0) demo_white [(replicate 48 0, demo_commands), (replicate 48 1, demo_commands)] ctx = Some ctx'
    \<and> context_ok ctx' \<and> same_screen ctx ctx'"
  using demo_screen_ok demo_commands_ok
  by (intro render_in_bounds) (simp_all add: context_ok_def demo_screen_def INT_MAX_def)

theorem commands_clipped_witness:
  "\<exists>ctx'. render_command (replicate 64 0) (CmdImage (-1) 1 2 1 demo_picture demo_white) demo_screen = Some ctx'
    \<and> frame_of ctx' = frame_of demo_screen"
  using commands_clipped [of "CmdImage (-1) 1 2 1 demo_picture demo_white" demo_screen "replicate 64 0"] demo_screen_ok demo_commands_ok
  by (auto simp: demo_commands_def)

text \<open>
  A column of an image left of the scissors is skipped without advancing in the image: when the first column is clipped, the
  second pixel shows the first column again instead of the second.
\<close>

lemma left_clip_shifts_image:
  "map_option (\<lambda>ctx. pixel_at (fb ctx) (0, 0)) (nk_rawfb_drawimage (-1) 0 2 1 demo_picture demo_white demo_screen)
   = map_option (\<lambda>ctx. pixel_at (fb ctx) (0, 0)) (nk_rawfb_drawimage 0 0 2 1 demo_picture demo_white demo_screen)"
  "map_option (\<lambda>ctx. pixel_at (fb ctx) (0, 0)) (nk_rawfb_drawimage (-1) 0 2 1 demo_picture demo_white demo_screen)
   \<noteq> map_option (\<lambda>ctx. pixel_at (fb ctx) (1, 0)) (nk_rawfb_drawimage 0 0 2 1 demo_picture demo_white demo_screen)"
  by code_simp+

end
