(* ===== verification/Frame.thy ===== *)
theory Frame
  imports Present Render
begin

text \<open>
  A whole frame of the rescue screen, down to the bytes of the frame buffers: \<^verbatim>\<open>main\<close> points the
  renderer to the buffer that is not shown, handles the input, renders Nuklear's commands, draws the two
  buttons and the pointer over them and brings the buffer to the screen. The parts are those of
  \<open>MainLoop\<close>, \<open>Render\<close> and \<open>Present\<close>; the renderer writes bytes and the hand-drawn part 32-bit pixels, both into
  the same memory.
\<close>

section \<open>Model\<close>

text \<open>
  The memory of a buffer as the 32-bit pixels of \<^verbatim>\<open>draw_rect\<close>, \<^verbatim>\<open>draw_image\<close> and \<^verbatim>\<open>draw_cursor\<close>, and back. Bytes
  after the last row stay as they are.
\<close>

definition words_of :: "8 word list \<Rightarrow> nat \<Rightarrow> 32 word list" where
  "words_of m n = map (\<lambda>i. of_le_bytes (take 4 (drop (4 * i) m))) [0..<n]"

definition bytes_of :: "32 word list \<Rightarrow> 8 word list" where
  "bytes_of ws = concat (map (le_bytes 4) ws)"

definition canvas_of :: "rawfb_image \<Rightarrow> canvas" where
  "canvas_of im = \<lparr>cv_w = im_w im, cv_h = im_h im, cv_pitch = im_pitch im,
     cv_px = words_of (im_pixels im) (nat (im_h im * (im_pitch im div 4)))\<rparr>"

definition store_canvas :: "rawfb_image \<Rightarrow> canvas \<Rightarrow> rawfb_image" where
  "store_canvas im cv = im\<lparr>im_pixels := bytes_of (cv_px cv) @ drop (4 * length (cv_px cv)) (im_pixels im)\<rparr>"

text \<open>\<^verbatim>\<open>nk_rgb(32, 80, 129)\<close>, the colour every frame starts with.\<close>

definition background :: nk_color where
  "background = \<lparr>nk_r = 32, nk_g = 80, nk_b = 129, nk_a = 255\<rparr>"

text \<open>The drawing of one frame into the buffer \<open>px\<close>; the result is the renderer's context with the new contents.\<close>

definition draw_ui ::
  "pictures \<Rightarrow> 8 word list \<Rightarrow> layout \<Rightarrow> bool \<Rightarrow> gui \<Rightarrow> nk_command list \<Rightarrow> 8 word list \<Rightarrow> rawfb_context \<Rightarrow> rawfb_context option" where
  "draw_ui p junk l is_modal g cmds px ctx =
     do {
       ctx \<leftarrow> nk_rawfb_render junk background True cmds (ctx\<lparr>fb := (fb ctx)\<lparr>im_pixels := px\<rparr>\<rparr>);
       cv \<leftarrow> draw_overlay p l is_modal g (canvas_of (fb ctx));
       Some (ctx\<lparr>fb := store_canvas (fb ctx) cv\<rparr>)
     }"

record rescue =
  rs_gui :: gui
  rs_ctx :: rawfb_context
  rs_bufs :: "8 word list list"
  rs_scan :: scanout

text \<open>
  What a frame meets: the surroundings of the main loop, the commands Nuklear collected for its windows and
  the answers of the graphics card.
\<close>

record frame_in =
  fi_env :: frame_env
  fi_cmds :: "nk_command list"
  fi_flip :: flip_env

definition rescue_frame :: "pictures \<Rightarrow> 8 word list \<Rightarrow> frame_in \<Rightarrow> rescue \<Rightarrow> rescue option" where
  "rescue_frame p junk fi r =
     (let s = (if fv_vblank (fi_flip fi) then vblank (rs_scan r) else rs_scan r);
          b = back_buf s;
          is_modal = show_password_prompt (g_dlg (rs_gui r));
          g = frame (fi_env fi) (rs_gui r)
      in if b < length (rs_bufs r)
         then map_option (\<lambda>ctx. \<lparr>rs_gui = g, rs_ctx = ctx, rs_bufs = (rs_bufs r)[b := im_pixels (fb ctx)],
                  rs_scan = present (fi_flip fi) (draw_frame s)\<rparr>)
                (draw_ui p junk (fe_layout (fi_env fi)) is_modal g (fi_cmds fi) (rs_bufs r ! b) (rs_ctx r))
         else None)"

text \<open>The main loop; the second part of the result are the contents drawn, one buffer for each frame.\<close>

fun rescue_frames :: "pictures \<Rightarrow> 8 word list \<Rightarrow> frame_in list \<Rightarrow> rescue \<Rightarrow> (rescue \<times> 8 word list list) option" where
  "rescue_frames p junk [] r = Some (r, [])"
| "rescue_frames p junk (fi # fis) r =
     (if running (rs_gui r)
      then do {
        r1 \<leftarrow> rescue_frame p junk fi r;
        (r2, outs) \<leftarrow> rescue_frames p junk fis r1;
        Some (r2, im_pixels (fb (rs_ctx r1)) # outs)
      } else Some (r, []))"

section \<open>Lemmas\<close>

subsection \<open>Two views of the memory\<close>

lemma le_bytes_of_le_bytes:
  assumes "length bs = 4"
  shows "le_bytes 4 (of_le_bytes bs) = bs"
proof -
  from assms obtain b0 b1 b2 b3 where bs: "bs = [b0, b1, b2, b3]"
    by (auto simp: numeral_eq_Suc length_Suc_conv)
  let ?w = "of_le_bytes [b0, b1, b2, b3]"
  have b: "(ucast (drop_bit (8 * i) ?w) :: 8 word) = [b0, b1, b2, b3] ! i" if "i < 4" for i
  proof (rule bit_word_eqI)
    fix k :: nat
    assume "k < LENGTH(8)"
    then have k: "k < 8" by simp
    consider "i = 0" | "i = 1" | "i = 2" | "i = 3" using \<open>i < 4\<close> by linarith
    then show "bit (ucast (drop_bit (8 * i) ?w) :: 8 word) k = bit ([b0, b1, b2, b3] ! i) k"
      by cases (use k in \<open>simp_all add: bit_of_le_bytes bit_simps\<close>)
  qed
  have "[0..<4] = [0, 1, 2, 3 :: nat]" by (simp add: upt_conv_Cons)
  then show ?thesis using b [of 0] b [of 1] b [of 2] b [of 3] by (simp add: bs le_bytes_def)
qed

lemma length_words_of [simp]: "length (words_of m n) = n"
  by (simp add: words_of_def)

lemma length_bytes_of [simp]: "length (bytes_of ws) = 4 * length ws"
  by (induction ws) (simp_all add: bytes_of_def)

lemma bytes_of_words:
  "4 * n \<le> length m \<Longrightarrow> bytes_of (words_of m n) = take (4 * n) m"
proof (induction n)
  case (Suc n)
  have "le_bytes 4 (of_le_bytes (take 4 (drop (4 * n) m))) = take 4 (drop (4 * n) m)"
    using Suc.prems by (intro le_bytes_of_le_bytes) simp
  moreover have "take (4 * Suc n) m = take (4 * n) m @ take 4 (drop (4 * n) m)"
    by (simp add: take_add [symmetric] add.commute)
  ultimately show ?case using Suc by (simp add: bytes_of_def words_of_def)
qed (simp add: bytes_of_def words_of_def)

subsection \<open>Drawing a frame\<close>

lemma canvas_of_ok:
  assumes "image_ok im" "pl_bpp (im_pl im) = 4" "0 < im_w im"
  shows "canvas_ok (canvas_of im)" "4 * length (cv_px (canvas_of im)) \<le> length (im_pixels im)"
proof -
  let ?s = "im_pitch im div 4"
  have im: "4 * im_w im \<le> im_pitch im" "0 \<le> im_h im" "im_h im \<le> 32767" "im_w im \<le> 32767"
    "im_h im * im_pitch im \<le> int (length (im_pixels im))" "int (length (im_pixels im)) \<le> INT_MAX"
    using assms by (simp_all add: image_ok_def)
  have s: "im_w im \<le> ?s" "0 < ?s" "4 * ?s \<le> im_pitch im" using im(1) assms(3) by linarith+
  have "im_h im * (4 * ?s) \<le> im_h im * im_pitch im" using s(3) im(2) by (rule mult_left_mono)
  then have p: "4 * (im_h im * ?s) \<le> int (length (im_pixels im))" using im(5) by linarith
  have n: "0 \<le> im_h im * ?s" using im(2) s(2) by simp
  show "canvas_ok (canvas_of im)"
    using im assms(3) s n p by (simp add: canvas_ok_def canvas_of_def cv_stride_def is_c_int_def INT_MIN_def INT_MAX_def)
  show "4 * length (cv_px (canvas_of im)) \<le> length (im_pixels im)" using n p by (simp add: canvas_of_def)
qed

text \<open>What is not drawn over keeps the bytes the renderer wrote.\<close>

lemma store_canvas_of:
  assumes "image_ok im" "pl_bpp (im_pl im) = 4" "0 < im_w im"
  shows "store_canvas im (canvas_of im) = im"
  using canvas_of_ok(2) [OF assms] by (simp add: store_canvas_def canvas_of_def bytes_of_words)

lemma store_canvas_same:
  assumes "context_ok ctx" "pl_bpp (im_pl (fb ctx)) = 4" "0 < im_w (fb ctx)" "same_canvas (canvas_of (fb ctx)) cv"
  shows "context_ok (ctx\<lparr>fb := store_canvas (fb ctx) cv\<rparr>)" "same_screen ctx (ctx\<lparr>fb := store_canvas (fb ctx) cv\<rparr>)"
proof -
  have "image_ok (fb ctx)" using assms(1) by (simp add: context_ok_def)
  from canvas_of_ok(2) [OF this assms(2,3)] have "4 * length (cv_px cv) \<le> length (im_pixels (fb ctx))"
    using assms(4) by (auto simp: same_canvas_def)
  then have l: "length (bytes_of (cv_px cv) @ drop (4 * length (cv_px cv)) (im_pixels (fb ctx))) = length (im_pixels (fb ctx))" by simp
  show "context_ok (ctx\<lparr>fb := store_canvas (fb ctx) cv\<rparr>)" "same_screen ctx (ctx\<lparr>fb := store_canvas (fb ctx) cv\<rparr>)"
    unfolding store_canvas_def using new_buffer_ok [OF assms(1) l] by simp_all
qed

lemma same_screen_format:
  assumes "same_screen ctx ctx'"
  shows "im_pl (fb ctx') = im_pl (fb ctx)" "im_w (fb ctx') = im_w (fb ctx)"
proof -
  have "(fb ctx')\<lparr>im_pixels := []\<rparr> = (fb ctx)\<lparr>im_pixels := []\<rparr>" using assms by (simp add: same_screen_def)
  from arg_cong [OF this, of im_pl] arg_cong [OF this, of im_w]
  show "im_pl (fb ctx') = im_pl (fb ctx)" "im_w (fb ctx') = im_w (fb ctx)" by simp_all
qed

lemma draw_ui_safe:
  assumes "context_ok ctx" "pl_bpp (im_pl (fb ctx)) = 4" "0 < im_w (fb ctx)" "length px = length (im_pixels (fb ctx))"
    and "list_all command_ok cmds" "length junk = 64" "pictures_ok p l" "mouse_ok (ly_w l) (ly_h l) (g_mouse g)"
  shows "\<exists>ctx'. draw_ui p junk l md g cmds px ctx = Some ctx' \<and> context_ok ctx' \<and> same_screen ctx ctx'"
proof -
  let ?c = "ctx\<lparr>fb := (fb ctx)\<lparr>im_pixels := px\<rparr>\<rparr>"
  have c: "context_ok ?c" "same_screen ctx ?c" using new_buffer_ok assms(1,4) by auto
  obtain c1 where c1: "nk_rawfb_render junk background True cmds ?c = Some c1" "context_ok c1" "same_screen ?c c1"
    using render_safe [OF assms(5) c(1) assms(6)] by blast
  have s: "same_screen ctx c1" using same_screen_trans [OF c(2) c1(3)] .
  then have i: "pl_bpp (im_pl (fb c1)) = 4" "0 < im_w (fb c1)" using same_screen_format assms(2,3) by simp_all
  have "image_ok (fb c1)" using c1(2) by (simp add: context_ok_def)
  then obtain cv where cv: "draw_overlay p l md g (canvas_of (fb c1)) = Some cv" "same_canvas (canvas_of (fb c1)) cv"
    using draw_overlay_same [OF assms(7) canvas_of_ok(1) assms(8)] i by blast
  show ?thesis
    using c1(1) cv(1) store_canvas_same [OF c1(2) i cv(2)] same_screen_trans [OF s] by (simp add: draw_ui_def)
qed

subsection \<open>Runs\<close>

lemma present_keeps [simp]:
  "so_pic (present e s) = so_pic s" "so_drawn (present e s) = so_drawn s"
  "so_pic (vblank s) = so_pic s" "so_drawn (vblank s) = so_drawn s"
  by (simp_all add: present_def set_crtc_def vblank_def Let_def split: option.splits)

text \<open>The first frame is shown without a flip, so the second buffer is kept at least until the second.\<close>

definition count_inv :: "bool \<Rightarrow> scanout \<Rightarrow> bool" where
  "count_inv two s \<longleftrightarrow> so_count s = so_drawn s mod 2 ^ 32 \<and> (two \<and> so_drawn s \<le> 1 \<longrightarrow> so_double s)"

lemma count_inv_vblank: "count_inv two s \<Longrightarrow> count_inv two (vblank s)"
  by (simp add: count_inv_def vblank_def split: option.splits)

lemma count_inv_show: "count_inv two s \<Longrightarrow> count_inv two (present e (draw_frame s))"
  by (cases "so_drawn s = 0") (auto simp: count_inv_def present_def draw_frame_def set_crtc_def Let_def mod_Suc_eq)

text \<open>The state of a run: \<open>two\<close> buffers or one, each of \<open>n\<close> bytes.\<close>

definition rescue_ok :: "layout \<Rightarrow> bool \<Rightarrow> nat \<Rightarrow> rescue \<Rightarrow> bool" where
  "rescue_ok l two n r \<longleftrightarrow> screen_ok (ly_w l) (ly_h l) (rs_gui r) \<and> context_ok (rs_ctx r) \<and> pl_bpp (im_pl (fb (rs_ctx r))) = 4
     \<and> 0 < im_w (fb (rs_ctx r)) \<and> length (im_pixels (fb (rs_ctx r))) = n
     \<and> length (rs_bufs r) = (if two then 2 else 1) \<and> (\<forall>m\<in>set (rs_bufs r). length m = n) \<and> scan_inv two (rs_scan r) \<and> count_inv two (rs_scan r)"

text \<open>Every buffer holds the frame whose number the card's record gives; \<open>outs\<close> are the frames drawn so far.\<close>

definition holds_frames :: "8 word list list \<Rightarrow> rescue \<Rightarrow> bool" where
  "holds_frames outs r \<longleftrightarrow> so_drawn (rs_scan r) = length outs
     \<and> (\<forall>b < length (rs_bufs r). 0 < so_pic (rs_scan r) b \<longrightarrow>
          so_pic (rs_scan r) b \<le> length outs \<and> rs_bufs r ! b = outs ! (so_pic (rs_scan r) b - 1))"

definition frame_in_ok :: "layout \<Rightarrow> frame_in \<Rightarrow> bool" where
  "frame_in_ok l fi \<longleftrightarrow> fe_layout (fi_env fi) = l \<and> clicks_single (fi_env fi) \<and> list_all command_ok (fi_cmds fi) \<and> fv_crtc (fi_flip fi)"

lemma rescue_frame_step:
  assumes "rescue_ok l two n r" "holds_frames outs r" "frame_in_ok l fi" "pictures_ok p l" "length junk = 64"
  shows "\<exists>r'. rescue_frame p junk fi r = Some r' \<and> rescue_ok l two n r' \<and> holds_frames (outs @ [im_pixels (fb (rs_ctx r'))]) r'"
proof -
  let ?s = "if fv_vblank (fi_flip fi) then vblank (rs_scan r) else rs_scan r"
  let ?b = "back_buf ?s" and ?g = "frame (fi_env fi) (rs_gui r)" and ?md = "show_password_prompt (g_dlg (rs_gui r))"
  have s: "scan_inv two ?s" "count_inv two ?s" using assms(1) scan_inv_vblank count_inv_vblank by (auto simp: rescue_ok_def)
  from s(1) have b: "?b < length (rs_bufs r)" using assms(1) by (auto simp: back_buf_def scan_inv_def rescue_ok_def)
  have l: "fe_layout (fi_env fi) = l" using assms(3) by (simp add: frame_in_ok_def)
  have g: "screen_ok (ly_w l) (ly_h l) ?g"
    using assms(1,3) by (intro screen.frame_keeps) (auto simp: rescue_ok_def frame_in_ok_def)
  then have m: "mouse_ok (ly_w l) (ly_h l) (g_mouse ?g)" by (simp add: screen_ok_def)
  have c: "context_ok (rs_ctx r)" "pl_bpp (im_pl (fb (rs_ctx r))) = 4" "0 < im_w (fb (rs_ctx r))" "list_all command_ok (fi_cmds fi)"
    using assms(1,3) by (simp_all add: rescue_ok_def frame_in_ok_def)
  have "length (rs_bufs r ! ?b) = length (im_pixels (fb (rs_ctx r)))" using assms(1) b by (simp add: rescue_ok_def)
  then obtain ctx where ctx: "draw_ui p junk l ?md ?g (fi_cmds fi) (rs_bufs r ! ?b) (rs_ctx r) = Some ctx" "context_ok ctx"
      "same_screen (rs_ctx r) ctx"
    using draw_ui_safe [OF c(1-3) _ c(4) assms(5,4) m] by blast
  let ?r = "\<lparr>rs_gui = ?g, rs_ctx = ctx, rs_bufs = (rs_bufs r)[?b := im_pixels (fb ctx)], rs_scan = present (fi_flip fi) (draw_frame ?s)\<rparr>"
  have i: "im_pl (fb ctx) = im_pl (fb (rs_ctx r))" "im_w (fb ctx) = im_w (fb (rs_ctx r))" "length (im_pixels (fb ctx)) = n"
    using same_screen_format [OF ctx(3)] ctx(3) assms(1) by (simp_all add: same_screen_def rescue_ok_def)
  have "scan_inv two (present (fi_flip fi) (draw_frame ?s))" using scan_inv_show [OF s(1)] assms(3) by (simp add: frame_in_ok_def)
  moreover have "count_inv two (present (fi_flip fi) (draw_frame ?s))" using count_inv_show [OF s(2)] .
  moreover have "\<forall>m\<in>set ((rs_bufs r)[?b := im_pixels (fb ctx)]). length m = n"
    using assms(1) i(3) set_update_subset_insert [of "rs_bufs r" ?b "im_pixels (fb ctx)"] by (auto simp: rescue_ok_def)
  ultimately have "rescue_ok l two n ?r" using assms(1) g ctx(2) i by (simp add: rescue_ok_def)
  moreover have "holds_frames (outs @ [im_pixels (fb ctx)]) ?r"
    using assms(2) b by (auto simp: holds_frames_def draw_frame_def nth_append nth_list_update le_Suc_eq)
  moreover have "rescue_frame p junk fi r = Some ?r" using b ctx(1) by (simp add: rescue_frame_def l Let_def)
  ultimately show ?thesis by (auto intro: exI [of _ ?r])
qed

lemma rescue_frames_run:
  assumes "list_all (frame_in_ok l) fis" "pictures_ok p l" "length junk = 64"
  shows "rescue_ok l two n r \<Longrightarrow> holds_frames outs r
    \<Longrightarrow> \<exists>r' outs'. rescue_frames p junk fis r = Some (r', outs') \<and> rescue_ok l two n r' \<and> holds_frames (outs @ outs') r'
      \<and> rs_gui r' = frames (map fi_env fis) (rs_gui r)"
  using assms(1)
proof (induction fis arbitrary: r outs)
  case (Cons fi fis)
  show ?case
  proof (cases "running (rs_gui r)")
    case True
    obtain r1 where r1: "rescue_frame p junk fi r = Some r1" "rescue_ok l two n r1" "holds_frames (outs @ [im_pixels (fb (rs_ctx r1))]) r1"
      using rescue_frame_step [OF Cons.prems(1,2) _ assms(2,3), of fi] Cons.prems(3) by auto
    have g: "rs_gui r1 = frame (fi_env fi) (rs_gui r)"
      using r1(1) by (auto simp: rescue_frame_def Let_def split: if_splits)
    obtain r2 outs2 where "rescue_frames p junk fis r1 = Some (r2, outs2)" "rescue_ok l two n r2"
        "holds_frames ((outs @ [im_pixels (fb (rs_ctx r1))]) @ outs2) r2" "rs_gui r2 = frames (map fi_env fis) (rs_gui r1)"
      using Cons.IH [OF r1(2,3)] Cons.prems(3) by auto
    then show ?thesis using True r1(1) g by auto
  qed (use Cons.prems in auto)
qed simp

text \<open>The buffer on the screen, or that will be at the next blank.\<close>

definition visible_buf :: "scanout \<Rightarrow> nat" where
  "visible_buf s = (case so_queued s of Some b \<Rightarrow> b | None \<Rightarrow> so_shown s)"

lemma visible_frame:
  assumes "scan_inv two s" "count_inv two s"
  shows "visible s = so_drawn s \<or> \<not> so_double s \<and> 0 < visible s \<and> Suc (visible s) = so_drawn s"
    "visible_buf s < (if two then 2 else 1)"
proof -
  have n: "visible s = so_drawn s" if "\<not> two" using assms(1) that by (auto simp: scan_inv_def visible_def split: option.splits)
  have "so_double s" if "two" "Suc 0 = so_drawn s" using assms(2) that by (simp add: count_inv_def)
  then show "visible s = so_drawn s \<or> \<not> so_double s \<and> 0 < visible s \<and> Suc (visible s) = so_drawn s"
    using scan_inv_visible [OF assms(1)] n by (cases "visible s = 0") auto
  show "visible_buf s < (if two then 2 else 1)"
    using assms(1) by (auto simp: scan_inv_def visible_buf_def split: option.splits if_splits)
qed

definition rescue_start :: "rawfb_context \<Rightarrow> 8 word list list \<Rightarrow> display \<Rightarrow> gui \<Rightarrow> rescue" where
  "rescue_start ctx bufs d g = \<lparr>rs_gui = g, rs_ctx = ctx, rs_bufs = bufs, rs_scan = scan_start d\<rparr>"

lemma rescue_start_ok:
  assumes "screen_ok (ly_w l) (ly_h l) g" "context_ok ctx" "pl_bpp (im_pl (fb ctx)) = 4" "0 < im_w (fb ctx)"
    and "length bufs = (if dm_double (d_drm d) then 2 else 1)" "\<forall>m\<in>set bufs. length m = length (im_pixels (fb ctx))"
  shows "rescue_ok l (dm_double (d_drm d)) (length (im_pixels (fb ctx))) (rescue_start ctx bufs d g)"
    "holds_frames [] (rescue_start ctx bufs d g)"
  using assms scan_inv_start [of d] by (auto simp: rescue_ok_def rescue_start_def holds_frames_def count_inv_def scan_start_def)

section \<open>Properties\<close>

text \<open>
  C14 (screen_shows_drawn_frames). From the start of the renderer on, any number of frames runs through, whatever the
  input, the commands (in order) and the answers to page flips: no access is outside the buffers, and the buffers keep
  their size. The buffer that is on the screen after the run, or will be at the next blank, holds byte for byte what
  the last frame drew; only when page flips have been given up may it be what the frame before drew. The state of the
  program is the one of the main loop.
\<close>

theorem screen_shows_drawn_frames:
  assumes "image_ok im" "im_pl im = screen_pl" "im_w im = ly_w l" "im_h im = ly_h l" "0 < ly_w l" "0 < ly_h l"
    and "0 \<le> w" "w \<le> 32767" "0 \<le> h" "h \<le> 32767" "w * h \<le> int (length tex)" "w * h \<le> INT_MAX"
    and "length tex_mem = 4194304" "w * h \<le> 4194304 \<or> mal" "length junk = 64"
    and "length bufs = (if dm_double (d_drm d) then 2 else 1)" "\<forall>m\<in>set bufs. length m = length (im_pixels im)"
    and "pictures_ok p l" "list_all (frame_in_ok l) fis"
  shows "\<exists>ctx r outs. nk_rawfb_init True True (Some (w, h, tex)) mal im tex_mem = Some (Some ctx)
    \<and> rescue_frames p junk fis (rescue_start ctx bufs d (gui_start tm vt (ly_w l) (ly_h l))) = Some (r, outs)
    \<and> rs_gui r = frames (map fi_env fis) (gui_start tm vt (ly_w l) (ly_h l))
    \<and> (\<forall>m\<in>set (rs_bufs r). length m = length (im_pixels im))
    \<and> (outs \<noteq> [] \<longrightarrow> rs_bufs r ! visible_buf (rs_scan r) = last outs
        \<or> \<not> so_double (rs_scan r) \<and> 1 < length outs \<and> rs_bufs r ! visible_buf (rs_scan r) = outs ! (length outs - 2))"
proof -
  let ?g = "gui_start tm vt (ly_w l) (ly_h l)" and ?two = "dm_double (d_drm d)"
  obtain ctx where ctx: "nk_rawfb_init True True (Some (w, h, tex)) mal im tex_mem = Some (Some ctx)" "context_ok ctx" "fb ctx = im"
    using init_ok [OF assms(1,7-14)] by blast
  have "screen_ok (ly_w l) (ly_h l) ?g" using start_screen_ok assms(5,6) by blast
  from rescue_start_ok [OF this ctx(2)]
  have st: "rescue_ok l ?two (length (im_pixels im)) (rescue_start ctx bufs d ?g)" "holds_frames [] (rescue_start ctx bufs d ?g)"
    using assms(2,3,5,16,17) ctx(3) by (simp_all add: screen_pl_def)
  obtain r outs where r: "rescue_frames p junk fis (rescue_start ctx bufs d ?g) = Some (r, outs)"
      "rescue_ok l ?two (length (im_pixels im)) r" "holds_frames outs r" "rs_gui r = frames (map fi_env fis) ?g"
    using rescue_frames_run [OF assms(19,18,15) st] by (auto simp: rescue_start_def)
  let ?s = "rs_scan r"
  have i: "scan_inv ?two ?s" "count_inv ?two ?s" "length (rs_bufs r) = (if ?two then 2 else 1)" using r(2) by (simp_all add: rescue_ok_def)
  have v: "visible ?s = so_pic ?s (visible_buf ?s)" by (simp add: visible_def visible_buf_def)
  have d: "so_drawn ?s = length outs" using r(3) by (simp add: holds_frames_def)
  have h: "0 < visible ?s \<Longrightarrow> rs_bufs r ! visible_buf ?s = outs ! (visible ?s - 1)"
    using r(3) visible_frame(2) [OF i(1,2)] i(3) unfolding holds_frames_def v by auto
  have "rs_bufs r ! visible_buf ?s = last outs
      \<or> \<not> so_double ?s \<and> 1 < length outs \<and> rs_bufs r ! visible_buf ?s = outs ! (length outs - 2)" if "outs \<noteq> []"
    using visible_frame(1) [OF i(1,2)]
  proof
    assume "visible ?s = so_drawn ?s"
    then show ?thesis using h d that by (simp add: last_conv_nth)
  next
    assume a: "\<not> so_double ?s \<and> 0 < visible ?s \<and> Suc (visible ?s) = so_drawn ?s"
    then have "visible ?s - 1 = length outs - 2" "1 < length outs" using d by auto
    then show ?thesis using a h by simp
  qed
  then show ?thesis using ctx(1) r(1,2,4) by (auto simp: rescue_ok_def)
qed

definition vga_image :: rawfb_image where
  "vga_image = \<lparr>im_pixels = replicate 1228800 0, im_w = 640, im_h = 480, im_pitch = 2560, im_pl = screen_pl\<rparr>"

definition vga_display :: display where
  "vga_display = (let d = fresh_display pc_files 7 in d\<lparr>d_drm := (d_drm d)\<lparr>dm_double := True\<rparr>\<rparr>)"

definition vga_frames :: "frame_in list" where
  "vga_frames = map (\<lambda>fe. \<lparr>fi_env = fe, fi_cmds = demo_commands, fi_flip = \<lparr>fv_crtc = True, fv_flip = True, fv_vblank = True\<rparr>\<rparr>)
     (root_shell_frames ''toor'')"

theorem screen_shows_drawn_frames_witness:
  "\<exists>ctx r outs. nk_rawfb_init True True (Some (1, 1, [0])) True vga_image (replicate 4194304 0) = Some (Some ctx)
    \<and> rescue_frames demo_pictures (replicate 64 0) vga_frames
        (rescue_start ctx (replicate 2 (im_pixels vga_image)) vga_display (gui_start start_tm 2 640 480)) = Some (r, outs)
    \<and> (outs \<noteq> [] \<longrightarrow> rs_bufs r ! visible_buf (rs_scan r) = last outs \<or> 1 < length outs)"
proof -
  let ?l = "fe_layout quiet_env"
  have l: "ly_w ?l = 640" "ly_h ?l = 480" by (simp_all add: quiet_env_def)
  have im: "image_ok vga_image" "im_pl vga_image = screen_pl" "im_w vga_image = ly_w ?l" "im_h vga_image = ly_h ?l"
    by (simp_all add: vga_image_def image_ok_def screen_pl_def INT_MAX_def l)
  have p: "pictures_ok demo_pictures ?l" by (simp add: pictures_ok_def demo_pictures_def quiet_env_def)
  have f: "list_all (frame_in_ok ?l) vga_frames"
    using demo_commands_ok by (simp add: vga_frames_def list_all_iff frame_in_ok_def root_shell_frames_def quiet_env_def clicks_single_def)
  have b: "length (replicate 2 (im_pixels vga_image)) = (if dm_double (d_drm vga_display) then 2 else 1)"
    "\<forall>m\<in>set (replicate 2 (im_pixels vga_image)). length m = length (im_pixels vga_image)"
    by (simp_all add: vga_display_def Let_def)
  show ?thesis
    using screen_shows_drawn_frames [OF im _ _ _ _ _ _ _ _ _ _ _ b p f,
      of 1 1 "[0]" "replicate 4194304 0" True "replicate 64 0" start_tm 2, unfolded l] by (auto simp: INT_MAX_def)
qed

end
