(* ===== verification/Float32.thy ===== *)
theory Float32
  imports Shapes
begin

text \<open>
  Facts on the rounding \<open>f32\<close> of \<open>Shapes\<close>: it keeps whole numbers up to \<open>2\<^sup>2\<^sup>4\<close>, is monotone, and its relative error is
  at most \<open>2\<^sup>-\<^sup>2\<^sup>4\<close>. With them the quotient of two whole numbers, rounded and cut to an integer, is their integer division.
\<close>

section \<open>Powers and exponents\<close>

lemma pow2_pos [simp]: "0 < pow2 e"
  by (simp add: pow2_def)

lemma pow2_of_nat: "pow2 (int n) = 2 ^ n"
  by (simp add: pow2_def)

lemma pow2_Suc: "pow2 (e + 1) = 2 * pow2 e"
proof (cases "e \<ge> 0")
  case True
  then show ?thesis by (simp add: pow2_def nat_add_distrib)
next
  case False
  then have "nat (- e) = Suc (nat (- (e + 1)))" by simp
  then show ?thesis using False by (auto simp: pow2_def)
qed

lemma pow2_add_nat: "pow2 (e + int n) = pow2 e * 2 ^ n"
proof (induction n)
  case (Suc n)
  then show ?case using pow2_Suc [of "e + int n"] by (simp add: ac_simps)
qed simp

lemma pow2_diff: "pow2 (int a - int b) = 2 ^ a / 2 ^ b"
  using pow2_add_nat [of "int a - int b" b] by (simp add: pow2_of_nat field_simps)

lemma pow2_mono: "d \<le> e \<Longrightarrow> pow2 d \<le> pow2 e"
  using pow2_add_nat [of d "nat (e - d)"] mult_left_mono [of 1 "2 ^ nat (e - d)" "pow2 d"] by (simp add: less_imp_le)

lemma pow2_less: "pow2 d < pow2 e \<Longrightarrow> d < e"
  using pow2_mono [of e d] by linarith

lemma exponent2_bounds:
  assumes "0 < r"
  shows "pow2 (exponent2 r) \<le> r" "r < 2 * pow2 (exponent2 r)"
proof -
  obtain p q where pq: "quotient_of r = (p, q)" by (cases "quotient_of r")
  then have q: "0 < q" and r: "r = of_int p / of_int q" by (auto simp: quotient_of_denom_pos quotient_of_div)
  have p: "0 < p" using assms q r by (simp add: zero_less_divide_iff)
  define a b where "a = floorlog 2 (nat p)" and "b = floorlog 2 (nat q)"
  have ab: "0 < a" "0 < b" using p q by (auto simp: a_def b_def floorlog_def)
  have "2 ^ (a - 1) \<le> nat p" "nat p < 2 ^ a" "2 ^ (b - 1) \<le> nat q" "nat q < 2 ^ b"
    using floorlog_bounds [of "nat p" 2] floorlog_bounds [of "nat q" 2] p q by (simp_all add: a_def b_def)
  then have "(2 :: int) ^ (a - 1) \<le> p" "p < 2 ^ a" "(2 :: int) ^ (b - 1) \<le> q" "q < 2 ^ b"
    using p q by (simp_all add: nat_less_iff le_nat_iff)
  then have "of_int (2 ^ (a - 1)) \<le> (of_int p :: rat)" "(of_int p :: rat) < of_int (2 ^ a)"
      "of_int (2 ^ (b - 1)) \<le> (of_int q :: rat)" "(of_int q :: rat) < of_int (2 ^ b)"
    by (simp_all only: of_int_le_iff of_int_less_iff)
  moreover obtain a' b' where "a = Suc a'" "b = Suc b'" using ab by (metis gr0_implies_Suc)
  ultimately have bd: "(2 :: rat) ^ a \<le> 2 * of_int p" "(of_int p :: rat) < 2 ^ a" "(2 :: rat) ^ b \<le> 2 * of_int q" "(of_int q :: rat) < 2 ^ b"
    by simp_all
  have q': "0 < (of_int q :: rat)" "0 < (of_int p :: rat)" using p q by simp_all
  have up: "r < 2 * pow2 (int a - int b)"
  proof -
    have "of_int p * 2 ^ b < (2 ^ a :: rat) * (2 * of_int q)"
      using bd(2,3) q' by (intro mult_less_le_imp_less) simp_all
    then show ?thesis using q' by (simp add: r pow2_diff field_simps)
  qed
  have lo: "pow2 (int a - int b) < 2 * r"
  proof -
    have "(2 ^ a :: rat) * of_int q < (2 * of_int p) * 2 ^ b"
      using bd(1,4) q' by (intro mult_le_less_imp_less) simp_all
    then show ?thesis using q' by (simp add: r pow2_diff field_simps)
  qed
  have e: "exponent2 r = (if pow2 (int a - int b) \<le> r then int a - int b else int a - int b - 1)"
    by (simp add: exponent2_def pq Let_def a_def b_def)
  have h: "2 * pow2 (int a - int b - 1) = pow2 (int a - int b)" using pow2_Suc [of "int a - int b - 1"] by simp
  show "pow2 (exponent2 r) \<le> r" "r < 2 * pow2 (exponent2 r)" using up lo h e by (auto split: if_splits)
qed

lemma exponent2_mono:
  assumes "0 < r" "r \<le> s"
  shows "exponent2 r \<le> exponent2 s"
proof -
  have "pow2 (exponent2 r) < pow2 (exponent2 s + 1)"
    using exponent2_bounds [of r] exponent2_bounds [of s] assms by (simp add: pow2_Suc)
  then show ?thesis using pow2_less by fastforce
qed

section \<open>Rounding\<close>

lemma round_half_even_int [simp]: "round_half_even (of_int n) = n"
  by (simp add: round_half_even_def)

lemma round_half_even_error: "\<bar>of_int (round_half_even r) - r\<bar> \<le> 1 / 2"
proof -
  have "of_int \<lfloor>r\<rfloor> \<le> r" "r < of_int \<lfloor>r\<rfloor> + 1" by linarith+
  then show ?thesis by (auto simp: round_half_even_def Let_def abs_le_iff)
qed

lemma round_half_even_mono:
  assumes "r \<le> s"
  shows "round_half_even r \<le> round_half_even s"
proof -
  have f: "\<lfloor>r\<rfloor> \<le> \<lfloor>s\<rfloor>" using assms by (rule floor_mono)
  have b: "\<lfloor>x\<rfloor> \<le> round_half_even x" "round_half_even x \<le> \<lfloor>x\<rfloor> + 1" for x by (simp_all add: round_half_even_def Let_def)
  show ?thesis
  proof (cases "\<lfloor>r\<rfloor> = \<lfloor>s\<rfloor>")
    case True
    then show ?thesis using assms by (simp add: round_half_even_def Let_def)
  next
    case False
    then show ?thesis using f b(2) [of r] b(1) [of s] by linarith
  qed
qed

lemma f32_pos: "0 < r \<Longrightarrow> f32 r = of_int (round_half_even (r / pow2 (exponent2 r - 23))) * pow2 (exponent2 r - 23)"
  by (simp add: f32_def Let_def)

lemma pow2_unit: "pow2 e = pow2 (e - 23) * 2 ^ 23"
  using pow2_add_nat [of "e - 23" 23] by simp

text \<open>A rounded value stays between the powers of two around it.\<close>

lemma f32_between:
  assumes "0 < r"
  shows "pow2 (exponent2 r) \<le> f32 r" "f32 r \<le> 2 * pow2 (exponent2 r)"
proof -
  let ?u = "pow2 (exponent2 r - 23)"
  have u: "0 < ?u" by simp
  have "of_int (2 ^ 23) \<le> r / ?u" "r / ?u \<le> of_int (2 ^ 24)"
    using exponent2_bounds [OF assms] pow2_unit [of "exponent2 r"] u by (simp_all add: field_simps)
  from round_half_even_mono [OF this(1)] round_half_even_mono [OF this(2)]
  have "2 ^ 23 \<le> round_half_even (r / ?u)" "round_half_even (r / ?u) \<le> 2 ^ 24" by (simp_all only: round_half_even_int)
  then have "(2 ^ 23 :: rat) \<le> of_int (round_half_even (r / ?u))" "of_int (round_half_even (r / ?u)) \<le> (2 ^ 24 :: rat)" by simp_all
  then have "2 ^ 23 * ?u \<le> of_int (round_half_even (r / ?u)) * ?u" "of_int (round_half_even (r / ?u)) * ?u \<le> 2 ^ 24 * ?u"
    using u by (simp_all add: mult_right_mono del: of_int_le_numeral_iff)
  then show "pow2 (exponent2 r) \<le> f32 r" "f32 r \<le> 2 * pow2 (exponent2 r)"
    using f32_pos [OF assms] pow2_unit [of "exponent2 r"] by simp_all
qed

lemma f32_half: "0 < r \<Longrightarrow> r / 2 < f32 r"
  using f32_between(1) [of r] exponent2_bounds(2) [of r] by linarith

lemma f32_mono:
  assumes "0 \<le> r" "r \<le> s"
  shows "f32 r \<le> f32 s"
proof (cases "r = 0")
  case True
  have "0 \<le> f32 s"
  proof (cases "s = 0")
    case False
    then have "0 < s" using assms True by simp
    from f32_between(1) [OF this] show ?thesis using pow2_pos [of "exponent2 s"] by linarith
  qed (simp add: f32_def)
  then show ?thesis using True by (simp add: f32_def)
next
  case False
  then have p: "0 < r" "0 < s" using assms by simp_all
  show ?thesis
  proof (cases "exponent2 r = exponent2 s")
    case True
    have "round_half_even (r / pow2 (exponent2 s - 23)) \<le> round_half_even (s / pow2 (exponent2 s - 23))"
      using assms(2) by (intro round_half_even_mono divide_right_mono) (simp_all add: less_imp_le)
    then show ?thesis by (simp add: f32_pos p True mult_right_mono less_imp_le)
  next
    case False
    then have "exponent2 r + 1 \<le> exponent2 s" using exponent2_mono [OF p(1) assms(2)] by linarith
    then have "2 * pow2 (exponent2 r) \<le> pow2 (exponent2 s)" using pow2_mono pow2_Suc by metis
    then show ?thesis using f32_between(2) [OF p(1)] f32_between(1) [OF p(2)] by linarith
  qed
qed

lemma f32_error:
  assumes "0 \<le> r"
  shows "f32 r \<le> r + r / 2 ^ 24"
proof (cases "r = 0")
  case False
  then have p: "0 < r" using assms by simp
  let ?u = "pow2 (exponent2 r - 23)"
  have "of_int (round_half_even (r / ?u)) \<le> r / ?u + 1 / 2" using round_half_even_error [of "r / ?u"] by linarith
  then have "of_int (round_half_even (r / ?u)) * ?u \<le> (r / ?u + 1 / 2) * ?u" by (intro mult_right_mono) (simp_all add: less_imp_le)
  also have "\<dots> = r + ?u / 2" by (simp add: distrib_right less_imp_neq [THEN not_sym])
  finally have "f32 r \<le> r + ?u / 2" using f32_pos [OF p] by simp
  moreover have "?u * 2 ^ 23 \<le> r" using exponent2_bounds(1) [OF p] pow2_unit [of "exponent2 r"] by simp
  ultimately show ?thesis by simp
qed (simp add: f32_def)

lemma f32_int:
  assumes "\<bar>n\<bar> < 2 ^ 24"
  shows "f32 (of_int n) = of_int n"
proof (cases "n = 0")
  case False
  define e where "e = exponent2 \<bar>of_int n\<bar>"
  have n: "0 < (\<bar>of_int n\<bar> :: rat)" using False by simp
  have "(of_int \<bar>n\<bar> :: rat) < of_int (2 ^ 24)" using assms by (simp only: of_int_less_iff)
  then have "pow2 e < pow2 24" using exponent2_bounds(1) [OF n] by (simp add: e_def pow2_def)
  then have "e < 24" by (rule pow2_less)
  then have "pow2 (e - 23) * 2 ^ nat (23 - e) = 1"
    using pow2_add_nat [of "e - 23" "nat (23 - e)"] by (simp add: pow2_def)
  then have u: "of_int n / pow2 (e - 23) = of_int (n * 2 ^ nat (23 - e))" "of_int (n * 2 ^ nat (23 - e)) * pow2 (e - 23) = (of_int n :: rat)"
    by (simp_all add: divide_eq_eq less_imp_neq [OF pow2_pos, THEN not_sym] ac_simps)
  have "f32 (of_int n) = of_int (round_half_even (of_int n / pow2 (e - 23))) * pow2 (e - 23)"
    using False by (simp add: f32_def Let_def e_def)
  then show ?thesis by (simp only: u(1) round_half_even_int u(2))
qed (simp add: f32_def)

lemma f32_short: "\<bar>n\<bar> \<le> 32767 \<Longrightarrow> f32 (of_int n) = of_int n"
  by (rule f32_int) simp

text \<open>\<^verbatim>\<open>(int)(a / b)\<close> of whole numbers held in \<^verbatim>\<open>float\<close>s.\<close>

lemma f32_div_trunc:
  assumes "0 \<le> a" "a < 2 ^ 24" "0 < b"
  shows "c_trunc (f32 (of_int a / of_int b)) = a div b"
proof -
  let ?r = "of_int a / of_int b :: rat" and ?k = "a div b"
  have b: "0 < (of_int b :: rat)" using assms(3) by simp
  have k: "0 \<le> ?k" using assms by (simp add: pos_imp_zdiv_nonneg_iff)
  have kb: "?k * b \<le> a" "a + 1 \<le> (?k + 1) * b"
    using div_mult_mod_eq [of a b] pos_mod_bound [OF assms(3), of a] pos_mod_sign [OF assms(3), of a] unfolding distrib_right mult_1 by linarith+
  moreover have "?k * 1 \<le> ?k * b" using k assms(3) by (intro mult_left_mono) simp_all
  ultimately have ka: "?k \<le> a" by linarith
  from kb have "of_int (?k * b) \<le> (of_int a :: rat)" "(of_int (a + 1) :: rat) \<le> of_int ((?k + 1) * b)"
    by (simp_all only: of_int_le_iff)
  then have r: "of_int ?k \<le> ?r" "?r + 1 / of_int b \<le> of_int ?k + 1" using b by (simp_all add: field_simps)
  have r0: "0 \<le> ?r" using r(1) k by (meson of_int_0_le_iff order_trans)
  have "of_int ?k \<le> f32 ?r" using f32_mono [OF _ r(1)] f32_int [of ?k] k ka assms(2) by simp
  moreover have "f32 ?r < of_int ?k + 1"
  proof -
    have "(of_int a :: rat) < of_int (2 ^ 24)" using assms(2) by (simp only: of_int_less_iff)
    then have "?r / 2 ^ 24 < 1 / of_int b" using b by (simp add: field_simps)
    then show ?thesis using f32_error [OF r0] r(2) by linarith
  qed
  ultimately have "\<lfloor>f32 ?r\<rfloor> = ?k" by (simp add: floor_unique)
  moreover have "0 \<le> f32 ?r" using f32_mono [OF order_refl r0] by (simp add: f32_def)
  ultimately show ?thesis by (simp add: c_trunc_def)
qed

end
