(* ===== verification/Theme.thy ===== *)
theory Theme
  imports OS
begin

text \<open>
  The generator of the theme header (\<^verbatim>\<open>src/theme_generator.c\<close>), which runs when the rescue screen is built: it reads
  colours and window sizes from a configuration file and writes them as C macros. The main result is
  that the reader gets back every theme from its written form.
\<close>

section \<open>Definitions\<close>

record ColorRGBA =
  col_r :: int
  col_g :: int
  col_b :: int
  col_a :: int

record SizeInfo =
  sz_nw :: int
  sz_dw :: int
  sz_nh :: int
  sz_dh :: int

definition trim :: "string \<Rightarrow> string" where
  "trim s = rev (dropWhile is_space (rev (dropWhile is_space s)))"

subsection \<open>Scanning numbers\<close>

text \<open>
  \<^verbatim>\<open>%d\<close> of \<^verbatim>\<open>sscanf\<close>: white space, a sign, at least one digit; the value is read as a long and stored in an int.
\<close>

definition scan_int :: "string \<Rightarrow> (int \<times> string) option" where
  "scan_int s0 =
     (let s = dropWhile is_space s0;
          neg = (s \<noteq> [] \<and> hd s = CHR ''-'');
          ds = (if s \<noteq> [] \<and> (hd s = CHR ''-'' \<or> hd s = CHR ''+'') then tl s else s);
          v = digits_value (takeWhile is_digit ds)
      in if takeWhile is_digit ds = [] then None
         else Some (wrap_int (clamp64 (if neg then - v else v)), dropWhile is_digit ds))"

text \<open>\<^verbatim>\<open>sscanf(val, "%d , %d , %d , %d", ...)\<close>: the numbers converted before the first mismatch.\<close>

fun scan_ints :: "nat \<Rightarrow> string \<Rightarrow> int list" where
  "scan_ints 0 s = []"
| "scan_ints (Suc k) s =
     (case scan_int s of
        None \<Rightarrow> []
      | Some (v, rest) \<Rightarrow>
          v # (case dropWhile is_space rest of
                 [] \<Rightarrow> []
               | c # r \<Rightarrow> if c = CHR '','' then scan_ints k r else []))"

definition parse_color :: "string \<Rightarrow> ColorRGBA \<Rightarrow> ColorRGBA" where
  "parse_color val old =
     (case scan_ints 4 val of
        r # g # b # as \<Rightarrow> \<lparr>col_r = r, col_g = g, col_b = b, col_a = (case as of [] \<Rightarrow> 255 | a # _ \<Rightarrow> a)\<rparr>
      | _ \<Rightarrow> old)"

definition parse_size :: "string \<Rightarrow> SizeInfo \<Rightarrow> SizeInfo" where
  "parse_size val old =
     (case scan_ints 4 val of
        nw # dw # hs \<Rightarrow> \<lparr>sz_nw = nw, sz_dw = dw, sz_nh = (case hs of [] \<Rightarrow> 0 | h # _ \<Rightarrow> h),
                        sz_dh = (case hs of _ # d # _ \<Rightarrow> d | _ \<Rightarrow> 0)\<rparr>
      | _ \<Rightarrow> old)"

subsection \<open>The configuration file\<close>

record theme =
  color_bg :: ColorRGBA
  color_title_bg :: ColorRGBA
  color_hover :: ColorRGBA
  color_active :: ColorRGBA
  color_curtain :: ColorRGBA
  size_terminal :: SizeInfo
  size_taskmgr :: SizeInfo
  size_run :: SizeInfo
  size_pwd :: SizeInfo
  size_cp :: SizeInfo
  size_su :: SizeInfo

definition default_theme :: theme where
  "default_theme =
     \<lparr>color_bg = \<lparr>col_r = 20, col_g = 50, col_b = 80, col_a = 240\<rparr>,
      color_title_bg = \<lparr>col_r = 30, col_g = 68, col_b = 105, col_a = 240\<rparr>,
      color_hover = \<lparr>col_r = 66, col_g = 107, col_b = 148, col_a = 255\<rparr>,
      color_active = \<lparr>col_r = 50, col_g = 80, col_b = 110, col_a = 255\<rparr>,
      color_curtain = \<lparr>col_r = 15, col_g = 35, col_b = 55, col_a = 200\<rparr>,
      size_terminal = \<lparr>sz_nw = 5, sz_dw = 9, sz_nh = 5, sz_dh = 9\<rparr>,
      size_taskmgr = \<lparr>sz_nw = 1, sz_dw = 2, sz_nh = 3, sz_dh = 4\<rparr>,
      size_run = \<lparr>sz_nw = 550, sz_dw = 0, sz_nh = 240, sz_dh = 0\<rparr>,
      size_pwd = \<lparr>sz_nw = 450, sz_dw = 0, sz_nh = 240, sz_dh = 0\<rparr>,
      size_cp = \<lparr>sz_nw = 550, sz_dw = 0, sz_nh = 410, sz_dh = 0\<rparr>,
      size_su = \<lparr>sz_nw = 550, sz_dw = 0, sz_nh = 410, sz_dh = 0\<rparr>\<rparr>"

definition set_theme :: "string \<Rightarrow> string \<Rightarrow> theme \<Rightarrow> theme" where
  "set_theme key val t =
     (if key = ''color_bg'' then t\<lparr>color_bg := parse_color val (color_bg t)\<rparr>
      else if key = ''color_title_bg'' then t\<lparr>color_title_bg := parse_color val (color_title_bg t)\<rparr>
      else if key = ''color_hover'' then t\<lparr>color_hover := parse_color val (color_hover t)\<rparr>
      else if key = ''color_active'' then t\<lparr>color_active := parse_color val (color_active t)\<rparr>
      else if key = ''color_curtain'' then t\<lparr>color_curtain := parse_color val (color_curtain t)\<rparr>
      else if key = ''size_terminal'' then t\<lparr>size_terminal := parse_size val (size_terminal t)\<rparr>
      else if key = ''size_taskmgr'' then t\<lparr>size_taskmgr := parse_size val (size_taskmgr t)\<rparr>
      else if key = ''size_run'' then t\<lparr>size_run := parse_size val (size_run t)\<rparr>
      else if key = ''size_pwd'' then t\<lparr>size_pwd := parse_size val (size_pwd t)\<rparr>
      else if key = ''size_cp'' then t\<lparr>size_cp := parse_size val (size_cp t)\<rparr>
      else if key = ''size_su'' then t\<lparr>size_su := parse_size val (size_su t)\<rparr>
      else t)"

definition config_line :: "theme \<Rightarrow> string \<Rightarrow> theme" where
  "config_line t line =
     (let p = trim (c_str line) in
      if p = [] \<or> hd p = CHR ''#'' then t
      else (case cut_at CHR ''='' p of
              (k, None) \<Rightarrow> t
            | (k, Some v) \<Rightarrow> set_theme (trim k) (trim v) t))"

text \<open>\<^verbatim>\<open>fgets(line, 256, f)\<close>: the pieces end after a line feed or after 255 characters.\<close>

function fgets_lines :: "string \<Rightarrow> string list" where
  "fgets_lines s =
     (if s = [] then []
      else (let k = min 255 (case cut_at LF s of (l, None) \<Rightarrow> length l | (l, Some r) \<Rightarrow> Suc (length l))
            in take k s # fgets_lines (drop k s)))"
  by pat_completeness auto
termination
proof (relation "measure length", simp_all, goal_cases)
  case (1 s)
  then show ?case by (cases s) (auto split: option.splits prod.splits)
qed

declare fgets_lines.simps [simp del]

definition theme_config :: "theme \<Rightarrow> string \<Rightarrow> theme" where
  "theme_config t file = foldl config_line t (fgets_lines file)"

subsection \<open>The header\<close>

text \<open>\<^verbatim>\<open>%02X\<close> of an int: the hexadecimal digits of its unsigned value, at least two.\<close>

definition HEX_digit :: "nat \<Rightarrow> char" where
  "HEX_digit d = char_of (if d < 10 then 48 + d else 55 + d)"

fun HEX_nat :: "nat \<Rightarrow> string" where
  "HEX_nat n = (if n < 16 then [HEX_digit n] else HEX_nat (n div 16) @ [HEX_digit (n mod 16)])"

declare HEX_nat.simps [simp del]

definition fmt_02X :: "int \<Rightarrow> string" where
  "fmt_02X v = (let s = HEX_nat (nat (v mod 4294967296)) in if length s < 2 then CHR ''0'' # s else s)"

definition color_macro :: "string \<Rightarrow> ColorRGBA \<Rightarrow> string" where
  "color_macro name c =
     ''#define THEME_COLOR_'' @ name @ '' nk_rgba('' @ dec_string (col_r c) @ '', '' @ dec_string (col_g c) @ '', ''
     @ dec_string (col_b c) @ '', '' @ dec_string (col_a c) @ '')'' @ [LF]"

definition hex_macro :: "ColorRGBA \<Rightarrow> string" where
  "hex_macro c = ''#define THEME_COLOR_HOVER_HEX 0x'' @ fmt_02X (col_r c) @ fmt_02X (col_g c) @ fmt_02X (col_b c) @ [LF]"

definition write_layout_macros :: "string \<Rightarrow> SizeInfo \<Rightarrow> string" where
  "write_layout_macros name s =
     (if sz_dw s > 0
      then ''#define THEME_'' @ name @ ''_W(sw) (((sw) * '' @ dec_string (sz_nw s) @ '') / '' @ dec_string (sz_dw s) @ '')'' @ [LF]
      else ''#define THEME_'' @ name @ ''_W(sw) ('' @ dec_string (sz_nw s) @ '')'' @ [LF])
     @ (if sz_dh s > 0
        then ''#define THEME_'' @ name @ ''_H(sh) (((sh) * '' @ dec_string (sz_nh s) @ '') / '' @ dec_string (sz_dh s) @ '')'' @ [LF]
        else ''#define THEME_'' @ name @ ''_H(sh) ('' @ dec_string (sz_nh s) @ '')'' @ [LF])
     @ ''#define THEME_'' @ name @ ''_X(sw, w) (((sw) - (w)) / 2)'' @ [LF]
     @ (if name = ''SU'' then ''#define THEME_SU_Y(sh, h) (((sh) - ((h) + 85)) / 2)'' @ [LF]
        else ''#define THEME_'' @ name @ ''_Y(sh, h) (((sh) - (h)) / 2)'' @ [LF])
     @ [LF]"

definition theme_header :: "theme \<Rightarrow> string" where
  "theme_header t =
     ''/* Generated automatically by theme_generator - DO NOT EDIT MANUALLY */'' @ [LF]
     @ ''#ifndef CAD_THEME_H'' @ [LF] @ ''#define CAD_THEME_H'' @ [LF, LF]
     @ ''/* Colors */'' @ [LF]
     @ color_macro ''BG'' (color_bg t) @ color_macro ''TITLE_BG'' (color_title_bg t)
     @ color_macro ''HOVER'' (color_hover t) @ hex_macro (color_hover t)
     @ color_macro ''ACTIVE'' (color_active t) @ color_macro ''CURTAIN'' (color_curtain t) @ [LF]
     @ write_layout_macros ''TERM'' (size_terminal t) @ write_layout_macros ''TM'' (size_taskmgr t)
     @ write_layout_macros ''RUN'' (size_run t) @ write_layout_macros ''PWD'' (size_pwd t)
     @ write_layout_macros ''CP'' (size_cp t) @ write_layout_macros ''SU'' (size_su t)
     @ ''#endif /* CAD_THEME_H */'' @ [LF]"

text \<open>The exit status and the header; \<open>conf\<close> is the configuration file, if it can be opened.\<close>

definition generator_main :: "string option \<Rightarrow> bool \<Rightarrow> int \<times> string option" where
  "generator_main conf out_ok =
     (let t = (case conf of None \<Rightarrow> default_theme | Some f \<Rightarrow> theme_config default_theme f)
      in if out_ok then (0, Some (theme_header t)) else (1, None))"

section \<open>Lemmas\<close>

subsection \<open>Numbers\<close>

lemma digit_no_sign: "is_digit c \<Longrightarrow> \<not> is_space c \<and> c \<noteq> CHR ''-'' \<and> c \<noteq> CHR ''+'' \<and> c \<noteq> CHR '','' \<and> c \<noteq> CHR ''='' \<and> c \<noteq> LF"
  by (auto simp: is_digit_def is_space_def)

lemma wrap_clamp: "is_c_int v \<Longrightarrow> wrap_int (clamp64 v) = v"
  by (simp add: clamp64_def wrap_int_def is_c_int_def INT_MIN_def INT_MAX_def)

lemma digits_span:
  assumes "\<forall>c\<in>set ds. is_digit c" "rest = [] \<or> \<not> is_digit (hd rest)"
  shows "takeWhile is_digit (ds @ rest) = ds" "dropWhile is_digit (ds @ rest) = rest"
  using assms by (auto simp: takeWhile_append2 dropWhile_append2 takeWhile_eq_Nil_iff dropWhile_eq_self_iff)

lemma scan_int_dec:
  assumes "is_c_int v" "rest = [] \<or> \<not> is_digit (hd rest)" "list_all is_space sp"
  shows "scan_int (sp @ dec_string v @ rest) = Some (v, rest)"
proof -
  define n where "n = nat (if v < 0 then - v else v)"
  have d: "\<forall>c\<in>set (dec_nat n). is_digit c" using dec_nat_digits by blast
  obtain x xs where x: "dec_nat n = x # xs" by (cases "dec_nat n") auto
  have h: "is_digit x" "\<not> is_space x" "x \<noteq> CHR ''-''" "x \<noteq> CHR ''+''" using d x digit_no_sign [of x] by auto
  have e: "dec_string v = (if v < 0 then CHR ''-'' # x # xs else x # xs)" using x by (auto simp: dec_string_def n_def)
  have m: "\<not> is_space CHR ''-''" by (simp add: is_space_def)
  have s: "dropWhile is_space (sp @ dec_string v @ rest) = dec_string v @ rest"
    using assms(3) h(2) m by (simp add: dropWhile_append2 list_all_iff e)
  have w: "takeWhile is_digit (x # xs @ rest) = x # xs" "dropWhile is_digit (x # xs @ rest) = rest"
    using digits_span [OF d assms(2)] x by auto
  have v: "digits_value (x # xs) = int n" using digits_value_dec_nat [of n] x by simp
  show ?thesis
  proof (cases "v < 0")
    case True
    then show ?thesis using assms(1) s w v wrap_clamp [OF assms(1)] by (simp add: scan_int_def Let_def e n_def)
  next
    case False
    then show ?thesis using assms(1) s w v h wrap_clamp [OF assms(1)] by (simp add: scan_int_def Let_def e n_def)
  qed
qed

text \<open>Four numbers as they are written in the file.\<close>

definition show_ints :: "int \<Rightarrow> int \<Rightarrow> int \<Rightarrow> int \<Rightarrow> string" where
  "show_ints a b c d = dec_string a @ '', '' @ dec_string b @ '', '' @ dec_string c @ '', '' @ dec_string d"

lemma scan_ints_show:
  assumes "is_c_int a" "is_c_int b" "is_c_int c" "is_c_int d"
  shows "scan_ints 4 (show_ints a b c d) = [a, b, c, d]"
proof -
  let ?sp = "'' ''"
  have sp: "list_all is_space ?sp" "list_all is_space []" by (simp_all add: is_space_def)
  have c: "\<not> is_digit CHR '',''" "\<not> is_space CHR '',''" by (simp_all add: is_digit_def is_space_def)
  have a: "scan_int (dec_string a @ CHR '','' # r) = Some (a, CHR '','' # r)" for r
    using scan_int_dec [OF assms(1) _ sp(2), of "CHR '','' # r"] c by simp
  have m: "scan_int (CHR '' '' # dec_string v @ CHR '','' # r) = Some (v, CHR '','' # r)" if "is_c_int v" for v r
    using scan_int_dec [OF that _ sp(1), of "CHR '','' # r"] c by simp
  have e: "scan_int (CHR '' '' # dec_string d) = Some (d, [])" using scan_int_dec [OF assms(4) _ sp(1), of "[]"] by simp
  show ?thesis using a m [OF assms(2)] m [OF assms(3)] e c by (simp add: show_ints_def numeral_eq_Suc)
qed

subsection \<open>Lines\<close>

lemma trim_id: "s \<noteq> [] \<Longrightarrow> \<not> is_space (hd s) \<Longrightarrow> \<not> is_space (last s) \<Longrightarrow> trim s = s"
  by (simp add: trim_def hd_rev dropWhile_eq_self_iff [THEN iffD2])

lemma trim_snoc: "is_space c \<Longrightarrow> \<exists>x\<in>set s. \<not> is_space x \<Longrightarrow> trim (s @ [c]) = trim s"
  by (auto simp: trim_def dropWhile_append)

lemma trim_Cons: "is_space c \<Longrightarrow> trim (c # s) = trim s"
  by (simp add: trim_def)

text \<open>A key or a value: no white space at its ends, no end mark, no line feed.\<close>

definition plain :: "string \<Rightarrow> bool" where
  "plain s \<longleftrightarrow> s \<noteq> [] \<and> \<not> is_space (hd s) \<and> \<not> is_space (last s) \<and> NUL \<notin> set s \<and> LF \<notin> set s"

definition entry :: "string \<Rightarrow> string \<Rightarrow> string" where
  "entry key val = key @ '' = '' @ val @ [LF]"

lemma config_line_entry:
  assumes "plain key" "plain val" "CHR ''='' \<notin> set key" "hd key \<noteq> CHR ''#''"
  shows "config_line t (entry key val) = set_theme key val t"
proof -
  have sp: "is_space LF" "is_space CHR '' ''" by (simp_all add: is_space_def)
  let ?s = "key @ '' = '' @ val"
  have n: "c_str (entry key val) = ?s @ [LF]" using assms(1,2) by (auto simp: c_str_def entry_def plain_def takeWhile_eq_all_conv)
  have "hd key \<in> set ?s" using assms(1) by (simp add: plain_def)
  then have "\<exists>x\<in>set ?s. \<not> is_space x" using assms(1) unfolding plain_def by blast
  then have "trim (?s @ [LF]) = trim ?s" by (rule trim_snoc [OF sp(1)])
  also have "\<dots> = ?s" using assms(1,2) by (intro trim_id) (auto simp: plain_def)
  finally have p: "trim (c_str (entry key val)) = ?s" using n by simp
  have c: "cut_at CHR ''='' ?s = (key @ '' '', Some (CHR '' '' # val))"
    using cut_at_append [of "CHR ''=''" "key @ '' ''" "CHR '' '' # val"] assms(3) by simp
  have k: "trim key = key" "trim val = val" using assms(1,2) by (simp_all add: plain_def trim_id)
  have "\<exists>x\<in>set key. \<not> is_space x" using assms(1) by (auto simp: plain_def intro!: bexI [of _ "hd key"])
  then have "trim (key @ '' '') = key" using trim_snoc [OF sp(2)] k by simp
  moreover have "trim (CHR '' '' # val) = val" using trim_Cons [OF sp(2)] k by simp
  moreover have "?s \<noteq> [] \<and> hd ?s \<noteq> CHR ''#''" using assms(1,4) by (auto simp: plain_def)
  ultimately show ?thesis using p c by (simp add: config_line_def Let_def del: append_Cons append.simps)
qed

lemma fgets_entry:
  assumes "LF \<notin> set l" "length l < 255"
  shows "fgets_lines (l @ LF # rest) = (l @ [LF]) # fgets_lines rest"
proof -
  have "min 255 (Suc (length l)) = Suc (length l)" using assms(2) by simp
  then show ?thesis using assms(1) by (subst fgets_lines.simps) (simp add: cut_at_append)
qed

definition entry_ok :: "string \<times> string \<Rightarrow> bool" where
  "entry_ok kv \<longleftrightarrow> plain (fst kv) \<and> plain (snd kv) \<and> CHR ''='' \<notin> set (fst kv) \<and> hd (fst kv) \<noteq> CHR ''#''
     \<and> length (fst kv) + length (snd kv) < 250"

lemma config_entries:
  "list_all entry_ok kvs \<Longrightarrow>
   theme_config t (concat (map (\<lambda>(k, v). entry k v) kvs)) = foldl (\<lambda>t (k, v). set_theme k v t) t kvs"
proof (induction kvs arbitrary: t)
  case Nil
  then show ?case by (simp add: theme_config_def fgets_lines.simps)
next
  case (Cons kv kvs)
  obtain k v where kv: "kv = (k, v)" by (cases kv)
  have ok: "plain k" "plain v" "CHR ''='' \<notin> set k" "hd k \<noteq> CHR ''#''" "length k + length v < 250"
    using Cons.prems kv by (simp_all add: entry_ok_def)
  let ?l = "k @ '' = '' @ v" and ?r = "concat (map (\<lambda>(k, v). entry k v) kvs)"
  have "fgets_lines (?l @ LF # ?r) = (?l @ [LF]) # fgets_lines ?r"
    using ok by (intro fgets_entry) (auto simp: plain_def)
  then have "theme_config t (entry k v @ ?r) = theme_config (config_line t (entry k v)) ?r"
    by (simp add: theme_config_def entry_def)
  then show ?case using Cons.IH Cons.prems kv config_line_entry [OF ok(1-4)] by simp
qed

definition color_text :: "ColorRGBA \<Rightarrow> string" where
  "color_text c = show_ints (col_r c) (col_g c) (col_b c) (col_a c)"

definition size_text :: "SizeInfo \<Rightarrow> string" where
  "size_text s = show_ints (sz_nw s) (sz_dw s) (sz_nh s) (sz_dh s)"

definition color_ints :: "ColorRGBA \<Rightarrow> bool" where
  "color_ints c \<longleftrightarrow> is_c_int (col_r c) \<and> is_c_int (col_g c) \<and> is_c_int (col_b c) \<and> is_c_int (col_a c)"

definition size_ints :: "SizeInfo \<Rightarrow> bool" where
  "size_ints s \<longleftrightarrow> is_c_int (sz_nw s) \<and> is_c_int (sz_dw s) \<and> is_c_int (sz_nh s) \<and> is_c_int (sz_dh s)"

lemma parse_texts [simp]:
  "color_ints c \<Longrightarrow> parse_color (color_text c) old = c" "size_ints s \<Longrightarrow> parse_size (size_text s) old' = s"
  by (simp_all add: color_ints_def size_ints_def parse_color_def parse_size_def color_text_def size_text_def scan_ints_show)

lemma plain_show_ints:
  assumes "is_c_int a" "is_c_int b" "is_c_int c" "is_c_int d"
  shows "plain (show_ints a b c d) \<and> length (show_ints a b c d) \<le> 50"
proof -
  have n: "dec_string v \<noteq> []" for v by (simp add: dec_string_def)
  have d: "\<not> is_space x \<and> x \<noteq> LF \<and> x \<noteq> NUL" if "x \<in> set (dec_string v)" for x v
    using dec_string_digits [OF that] digit_no_sign [of x] dec_string_no_nul [of v] that by (auto simp: is_space_def)
  then have "\<not> is_space (hd (dec_string a))" "\<not> is_space (last (dec_string d))" "LF \<notin> set (dec_string v)" "NUL \<notin> set (dec_string v)" for v
    using d [OF hd_in_set [OF n [of a]]] d [OF last_in_set [OF n [of d]]] by auto
  then have "plain (show_ints a b c d)" by (auto simp: plain_def show_ints_def n)
  moreover have "length (show_ints a b c d) \<le> 50"
    using assms [THEN length_dec_string] by (simp add: show_ints_def)
  ultimately show ?thesis ..
qed

lemma text_ok:
  "color_ints c \<Longrightarrow> plain (color_text c) \<and> length (color_text c) \<le> 50" "size_ints s \<Longrightarrow> plain (size_text s) \<and> length (size_text s) \<le> 50"
  using plain_show_ints by (simp_all add: color_ints_def size_ints_def color_text_def size_text_def)

section \<open>Properties\<close>

definition theme_entries :: "theme \<Rightarrow> (string \<times> string) list" where
  "theme_entries t =
     [(''color_bg'', color_text (color_bg t)), (''color_title_bg'', color_text (color_title_bg t)),
      (''color_hover'', color_text (color_hover t)), (''color_active'', color_text (color_active t)),
      (''color_curtain'', color_text (color_curtain t)), (''size_terminal'', size_text (size_terminal t)),
      (''size_taskmgr'', size_text (size_taskmgr t)), (''size_run'', size_text (size_run t)),
      (''size_pwd'', size_text (size_pwd t)), (''size_cp'', size_text (size_cp t)), (''size_su'', size_text (size_su t))]"

definition theme_file :: "theme \<Rightarrow> string" where
  "theme_file t = concat (map (\<lambda>(k, v). entry k v) (theme_entries t))"

definition theme_ints :: "theme \<Rightarrow> bool" where
  "theme_ints t \<longleftrightarrow> list_all color_ints [color_bg t, color_title_bg t, color_hover t, color_active t, color_curtain t]
     \<and> list_all size_ints [size_terminal t, size_taskmgr t, size_run t, size_pwd t, size_cp t, size_su t]"

lemma theme_entries_ok: "theme_ints t \<Longrightarrow> list_all entry_ok (theme_entries t)"
proof -
  assume "theme_ints t"
  moreover have keys: "list_all (\<lambda>k. plain k \<and> CHR ''='' \<notin> set k \<and> hd k \<noteq> CHR ''#'' \<and> length k < 20)
      [''color_bg'', ''color_title_bg'', ''color_hover'', ''color_active'', ''color_curtain'', ''size_terminal'', ''size_taskmgr'',
       ''size_run'', ''size_pwd'', ''size_cp'', ''size_su'']" (is "list_all _ ?ks")
    by code_simp
  moreover have "entry_ok (k, color_text c)"
    if "color_ints c" "k \<in> set ?ks" for k c
    using keys that(2) text_ok(1) [OF that(1)] by (auto simp: entry_ok_def list_all_iff simp del: set_simps list.set)
  moreover have "entry_ok (k, size_text s)"
    if "size_ints s" "k \<in> set ?ks" for k s
    using keys that(2) text_ok(2) [OF that(1)] by (auto simp: entry_ok_def list_all_iff simp del: set_simps list.set)
  ultimately show ?thesis by (simp add: theme_entries_def theme_ints_def)
qed

text \<open>
  C36 (theme_file_read). Every theme is read back exactly from its file, whatever was set before: lines,
  keys, white space and the four numbers of each entry.
\<close>

theorem theme_file_read:
  assumes "theme_ints t"
  shows "theme_config t0 (theme_file t) = t"
  using config_entries [OF theme_entries_ok [OF assms], of t0] assms
  by (simp add: theme_file_def theme_entries_def theme_ints_def set_theme_def)

theorem theme_file_read_witness:
  "theme_config (default_theme\<lparr>size_run := \<lparr>sz_nw = -7, sz_dw = 2147483647, sz_nh = 0, sz_dh = 1\<rparr>\<rparr>) (theme_file default_theme)
     = default_theme"
  by (rule theme_file_read)
    (simp add: theme_ints_def default_theme_def color_ints_def size_ints_def is_c_int_def INT_MIN_def INT_MAX_def)

text \<open>
  A colour in range has two digits for each part. The reader does not check the range, and \<^verbatim>\<open>nk_rgba\<close>
  clamps what it gets, but the macro of the colour drawn by hand shifts the parts.
\<close>

lemma fmt_02X_length: "0 \<le> v \<Longrightarrow> v \<le> 255 \<Longrightarrow> length (fmt_02X v) = 2"
proof -
  assume v: "0 \<le> v" "v \<le> 255"
  then have "nat (v mod 4294967296) div 16 < 16" by simp
  then show ?thesis by (simp add: fmt_02X_def Let_def HEX_nat.simps)
qed

lemma hover_hex_shifted:
  "config_line default_theme (''color_hover = 0, 256, 0'' @ [LF]) = default_theme\<lparr>color_hover := \<lparr>col_r = 0, col_g = 256, col_b = 0, col_a = 255\<rparr>\<rparr>"
  "hex_macro \<lparr>col_r = 0, col_g = 256, col_b = 0, col_a = 255\<rparr> = ''#define THEME_COLOR_HOVER_HEX 0x0010000'' @ [LF]"
  by code_simp+

end
