(* ===== verification/Layout.thy ===== *)
theory Layout
  imports Float32 Theme Render Input
begin

text \<open>
  Where the windows of the rescue screen are. The sizes and positions are computed by the macros of the
  generated header \<^verbatim>\<open>cad_theme.h\<close> (written by \<^verbatim>\<open>theme_generator.c\<close>, theory \<open>Theme\<close>) from the width and height of the
  screen, which are \<^verbatim>\<open>uint32_t\<close>: differences wrap around before they are converted to \<^verbatim>\<open>int\<close> or \<^verbatim>\<open>float\<close>. A sum or
  difference of \<^verbatim>\<open>int\<close>s outside the type has the result \<open>None\<close>. The literals of the macros are taken as \<^verbatim>\<open>int\<close>s, which
  they are but for the least \<^verbatim>\<open>int\<close>.
\<close>

section \<open>Model\<close>

subsection \<open>The macros of the theme\<close>

definition THEME_W :: "SizeInfo \<Rightarrow> 32 word \<Rightarrow> int" where
  "THEME_W s sw = (if sz_dw s > 0 then sint ((sw * word_of_int (sz_nw s)) div word_of_int (sz_dw s)) else sz_nw s)"

definition THEME_H :: "SizeInfo \<Rightarrow> 32 word \<Rightarrow> int" where
  "THEME_H s sh = (if sz_dh s > 0 then sint ((sh * word_of_int (sz_nh s)) div word_of_int (sz_dh s)) else sz_nh s)"

definition THEME_X :: "32 word \<Rightarrow> int \<Rightarrow> int" where
  "THEME_X sw w = sint ((sw - word_of_int w) div 2)"

definition THEME_Y :: "32 word \<Rightarrow> int \<Rightarrow> int" where
  "THEME_Y sh h = sint ((sh - word_of_int h) div 2)"

text \<open>The window of the sessions is moved up.\<close>

definition THEME_SU_Y :: "32 word \<Rightarrow> int \<Rightarrow> int" where
  "THEME_SU_Y sh h = sint ((sh - word_of_int (h + 85)) div 2)"

subsection \<open>Windows\<close>

type_synonym window = "string \<times> frect"

definition c_int :: "int \<Rightarrow> int option" where
  "c_int v = (if is_c_int v then Some v else None)"

text \<open>\<^verbatim>\<open>nk_rect\<close> takes \<^verbatim>\<open>float\<close>s.\<close>

definition int_rect :: "int \<Rightarrow> int \<Rightarrow> int \<Rightarrow> int \<Rightarrow> frect" where
  "int_rect x y w h = \<lparr>fr_x = f32 (of_int x), fr_y = f32 (of_int y), fr_w = f32 (of_int w), fr_h = f32 (of_int h)\<rparr>"

text \<open>A dialogue is three windows: its title, its contents and the row with the button that closes it.\<close>

definition dialog_rects :: "string \<Rightarrow> int \<Rightarrow> int \<Rightarrow> int \<Rightarrow> int \<Rightarrow> window list option" where
  "dialog_rects name x y w h =
     do {
       main_h \<leftarrow> c_int (h - 85);
       title_y \<leftarrow> c_int (y - 36);
       close_y \<leftarrow> c_int (y + main_h);
       Some [(name @ ''Title'', int_rect x title_y w 36), (name, int_rect x y w main_h), (name @ ''Close'', int_rect x close_y w 85)]
     }"

definition terminal_rects :: "theme \<Rightarrow> 32 word \<Rightarrow> 32 word \<Rightarrow> window list option" where
  "terminal_rects t sw sh =
     (let w = THEME_W (size_terminal t) sw; h = THEME_H (size_terminal t) sh; x = THEME_X sw w; y = THEME_Y sh h in
      do {
        main_h \<leftarrow> c_int (h - 85);
        title_y \<leftarrow> c_int (y - 84);
        mode_y \<leftarrow> c_int (y - 48);
        close_y \<leftarrow> c_int (y + main_h);
        Some [(''TerminalTitle'', int_rect x title_y w 36), (''TerminalMode'', int_rect x mode_y w 48),
              (''Terminal'', int_rect x y w main_h), (''TerminalClose'', int_rect x close_y w 85)]
      })"

definition tm_rects :: "theme \<Rightarrow> 32 word \<Rightarrow> 32 word \<Rightarrow> window list option" where
  "tm_rects t sw sh =
     (let w = THEME_W (size_taskmgr t) sw; h = THEME_H (size_taskmgr t) sh
      in dialog_rects ''TaskManager'' (THEME_X sw w) (THEME_Y sh h) w h)"

definition run_rects :: "theme \<Rightarrow> 32 word \<Rightarrow> 32 word \<Rightarrow> window list option" where
  "run_rects t sw sh =
     (let w = THEME_W (size_run t) sw; h = THEME_H (size_run t) sh
      in dialog_rects ''RunCommand'' (THEME_X sw w) (THEME_Y sh h) w h)"

definition pwd_rects :: "theme \<Rightarrow> 32 word \<Rightarrow> 32 word \<Rightarrow> window list option" where
  "pwd_rects t sw sh =
     (let w = THEME_W (size_pwd t) sw; h = THEME_H (size_pwd t) sh
      in dialog_rects ''RootPassword'' (THEME_X sw w) (THEME_Y sh h) w h)"

definition cp_rects :: "theme \<Rightarrow> 32 word \<Rightarrow> 32 word \<Rightarrow> window list option" where
  "cp_rects t sw sh =
     (let w = THEME_W (size_cp t) sw; h = THEME_H (size_cp t) sh
      in dialog_rects ''ChangePassword'' (THEME_X sw w) (THEME_Y sh h) w h)"

definition su_rects :: "theme \<Rightarrow> 32 word \<Rightarrow> 32 word \<Rightarrow> window list option" where
  "su_rects t sw sh =
     (let w = THEME_W (size_su t) sw; h = THEME_H (size_su t) sh
      in dialog_rects ''SwitchUser'' (THEME_X sw w) (THEME_SU_Y sh h) w h)"

definition theme_windows :: "theme \<Rightarrow> 32 word \<Rightarrow> 32 word \<Rightarrow> window list list option" where
  "theme_windows t sw sh =
     do {
       te \<leftarrow> terminal_rects t sw sh;
       tm \<leftarrow> tm_rects t sw sh;
       ru \<leftarrow> run_rects t sw sh;
       pw \<leftarrow> pwd_rects t sw sh;
       cp \<leftarrow> cp_rects t sw sh;
       su \<leftarrow> su_rects t sw sh;
       Some [te, tm, ru, pw, cp, su]
     }"

subsection \<open>The main menu\<close>

text \<open>The widths of the six texts are the font's.\<close>

definition menu_width :: "rat \<Rightarrow> rat list \<Rightarrow> int" where
  "menu_width w0 ws =
     (let max_w = foldl (\<lambda>m w. if w > m then w else m) w0 ws; menu_w = c_trunc max_w + 60
      in if menu_w < 300 then 300 else menu_w)"

text \<open>The corner is computed without a sign and converted to \<^verbatim>\<open>float\<close> as it is.\<close>

definition menu_rect :: "32 word \<Rightarrow> 32 word \<Rightarrow> int \<Rightarrow> frect" where
  "menu_rect sw sh menu_w =
     \<lparr>fr_x = f32 (of_int (uint (sw div 2 - word_of_int (menu_w div 2)))), fr_y = f32 (of_int (uint (sh div 2 - 250))),
      fr_w = f32 (of_int menu_w), fr_h = 600\<rparr>"

text \<open>The power menu touches the button that opens it.\<close>

definition power_rect :: "32 word \<Rightarrow> 32 word \<Rightarrow> int \<Rightarrow> int \<Rightarrow> frect" where
  "power_rect sw sh pm_w SHUTDOWN_H =
     int_rect (sint (sw - word_of_int pm_w - 20)) (sint (sh - word_of_int SHUTDOWN_H - 20 - 180)) pm_w 180"

subsection \<open>The grid of the terminal\<close>

text \<open>Columns and rows, for a character of the size \<open>cell_w\<close>, \<open>cell_h\<close>; the window is taken to be 5/9 of the screen.\<close>

definition to_unsigned :: "rat \<Rightarrow> int option" where
  "to_unsigned r = (let n = c_trunc r in if 0 \<le> n \<and> n < 2 ^ 32 then Some n else None)"

definition terminal_grid :: "32 word \<Rightarrow> 32 word \<Rightarrow> rat \<Rightarrow> rat \<Rightarrow> (int \<times> int) option" where
  "terminal_grid sw sh cell_w cell_h =
     (let term_w = sint ((sw * 5) div 9); term_h = sint ((sh * 5) div 9) in
      do {
        main_h \<leftarrow> c_int (term_h - 85);
        cols \<leftarrow> to_unsigned (f32 (f32 (of_int term_w) / cell_w));
        rows \<leftarrow> to_unsigned (f32 (f32 (of_int main_h) / cell_h));
        Some (cols, rows)
      })"

section \<open>Lemmas\<close>

subsection \<open>Unsigned sizes\<close>

lemma uint_small: "0 \<le> v \<Longrightarrow> v < 4294967296 \<Longrightarrow> uint (word_of_int v :: 32 word) = v"
  by (simp add: uint_word_of_int)

lemma sint_small: "0 \<le> v \<Longrightarrow> v < 2147483648 \<Longrightarrow> sint (word_of_int v :: 32 word) = v"
  by (simp add: signed_of_int signed_take_bit_int_eq_self)

lemma word_div_small:
  assumes "0 \<le> a" "a < 4294967296" "0 < b" "b < 4294967296"
  shows "(word_of_int a :: 32 word) div word_of_int b = word_of_int (a div b)"
  using assms by (simp add: word_div_def uint_small)

text \<open>The size a theme asks for.\<close>

definition part_of :: "int \<Rightarrow> int \<Rightarrow> int \<Rightarrow> int" where
  "part_of n num den = (if den > 0 then n * num div den else num)"

definition size_ok :: "SizeInfo \<Rightarrow> int \<Rightarrow> int \<Rightarrow> bool" where
  "size_ok s sw sh \<longleftrightarrow> 0 \<le> sz_nw s \<and> 0 \<le> sz_nh s \<and> sz_dw s \<le> INT_MAX \<and> sz_dh s \<le> INT_MAX
     \<and> sw * sz_nw s < 4294967296 \<and> sh * sz_nh s < 4294967296
     \<and> part_of sw (sz_nw s) (sz_dw s) \<le> sw \<and> 85 \<le> part_of sh (sz_nh s) (sz_dh s)"

lemma theme_size:
  assumes "size_ok s sw sh" "0 \<le> sw" "sw \<le> 32767" "0 \<le> sh" "sh \<le> 32767" "part_of sh (sz_nh s) (sz_dh s) \<le> sh"
  shows "THEME_W s (word_of_int sw) = part_of sw (sz_nw s) (sz_dw s)" "THEME_H s (word_of_int sh) = part_of sh (sz_nh s) (sz_dh s)"
    "0 \<le> part_of sw (sz_nw s) (sz_dw s)"
proof -
  have s: "0 \<le> sz_nw s" "0 \<le> sz_nh s" "sz_dw s < 4294967296" "sz_dh s < 4294967296" "sw * sz_nw s < 4294967296"
    "sh * sz_nh s < 4294967296" "part_of sw (sz_nw s) (sz_dw s) \<le> sw" "85 \<le> part_of sh (sz_nh s) (sz_dh s)"
    using assms(1) by (simp_all add: size_ok_def INT_MAX_def)
  have n: "0 \<le> sw * sz_nw s" "0 \<le> sh * sz_nh s" using assms(2,4) s by simp_all
  show w0: "0 \<le> part_of sw (sz_nw s) (sz_dw s)" using n(1) s(1) by (simp add: part_of_def pos_imp_zdiv_nonneg_iff)
  show "THEME_W s (word_of_int sw) = part_of sw (sz_nw s) (sz_dw s)"
  proof (cases "sz_dw s > 0")
    case True
    have "(word_of_int sw * word_of_int (sz_nw s) :: 32 word) div word_of_int (sz_dw s) = word_of_int (sw * sz_nw s div sz_dw s)"
      using word_div_small [OF n(1) s(5) True s(3)] by simp
    then show ?thesis using True s(7) w0 assms(3) by (simp add: THEME_W_def part_of_def sint_small)
  qed (simp add: THEME_W_def part_of_def)
  show "THEME_H s (word_of_int sh) = part_of sh (sz_nh s) (sz_dh s)"
  proof (cases "sz_dh s > 0")
    case True
    have "(word_of_int sh * word_of_int (sz_nh s) :: 32 word) div word_of_int (sz_dh s) = word_of_int (sh * sz_nh s div sz_dh s)"
      using word_div_small [OF n(2) s(6) True s(4)] by simp
    then show ?thesis using True s(8) assms(5,6) by (simp add: THEME_H_def part_of_def sint_small)
  qed (simp add: THEME_H_def part_of_def)
qed

lemma half_word:
  assumes "0 \<le> a" "a \<le> n" "n \<le> 32767"
  shows "sint ((word_of_int n - word_of_int a :: 32 word) div 2) = (n - a) div 2"
proof -
  have "(word_of_int n - word_of_int a :: 32 word) div 2 = word_of_int ((n - a) div 2)"
    using word_div_small [of "n - a" 2] assms by simp
  then show ?thesis using assms by (simp add: sint_small)
qed

lemma centre:
  fixes w sw :: int
  assumes "0 \<le> w" "w \<le> sw"
  shows "0 \<le> (sw - w) div 2" "(sw - w) div 2 + w \<le> sw"
  using assms by linarith+

subsection \<open>Stacks of windows\<close>

text \<open>Windows below each other, of the same width, without a gap and without overlap.\<close>

definition below :: "frect \<Rightarrow> frect \<Rightarrow> bool" where
  "below a b \<longleftrightarrow> fr_x b = fr_x a \<and> fr_w b = fr_w a \<and> fr_y b = fr_y a + fr_h a"

fun stacked :: "frect list \<Rightarrow> bool" where
  "stacked (a # b # rs) \<longleftrightarrow> below a b \<and> stacked (b # rs)"
| "stacked _ \<longleftrightarrow> True"

definition inside_screen :: "int \<Rightarrow> int \<Rightarrow> frect \<Rightarrow> bool" where
  "inside_screen sw sh r \<longleftrightarrow> 0 \<le> fr_x r \<and> 0 \<le> fr_y r \<and> 0 \<le> fr_w r \<and> 0 \<le> fr_h r
     \<and> fr_x r + fr_w r \<le> of_int sw \<and> fr_y r + fr_h r \<le> of_int sh"

definition centred :: "int \<Rightarrow> frect \<Rightarrow> bool" where
  "centred sw r \<longleftrightarrow> 2 * fr_x r + fr_w r \<in> {of_int sw - 1, of_int sw}"

definition good_stack :: "int \<Rightarrow> int \<Rightarrow> window list \<Rightarrow> bool" where
  "good_stack sw sh ws \<longleftrightarrow> stacked (map snd ws) \<and> (\<forall>w\<in>set ws. inside_screen sw sh (snd w) \<and> centred sw (snd w))"

lemma int_rect_small:
  "\<bar>x\<bar> \<le> 32767 \<Longrightarrow> \<bar>y\<bar> \<le> 32767 \<Longrightarrow> \<bar>w\<bar> \<le> 32767 \<Longrightarrow> \<bar>h\<bar> \<le> 32767
   \<Longrightarrow> int_rect x y w h = \<lparr>fr_x = of_int x, fr_y = of_int y, fr_w = of_int w, fr_h = of_int h\<rparr>"
  by (simp add: int_rect_def f32_short)

lemma of_int_add_le: "a + b \<le> c \<Longrightarrow> (of_int a + of_int b :: rat) \<le> of_int c"
  by (simp only: of_int_add [symmetric] of_int_le_iff)

lemma good_rect:
  assumes "0 \<le> w" "w \<le> sw" "sw \<le> 32767" "0 \<le> y" "0 \<le> h" "y + h \<le> sh" "sh \<le> 32767"
  shows "inside_screen sw sh (int_rect ((sw - w) div 2) y w h)" "centred sw (int_rect ((sw - w) div 2) y w h)"
proof -
  have x: "0 \<le> (sw - w) div 2" "(sw - w) div 2 + w \<le> sw" using centre assms(1,2) by blast+
  have r: "int_rect ((sw - w) div 2) y w h = \<lparr>fr_x = of_int ((sw - w) div 2), fr_y = of_int y, fr_w = of_int w, fr_h = of_int h\<rparr>"
    using x assms by (intro int_rect_small) simp_all
  show "inside_screen sw sh (int_rect ((sw - w) div 2) y w h)"
    using x(1) of_int_add_le [OF x(2)] of_int_add_le [OF assms(6)] assms by (simp add: r inside_screen_def)
  have "2 * ((sw - w) div 2) + w = sw - 1 \<or> 2 * ((sw - w) div 2) + w = sw" by presburger
  then have "(of_int (2 * ((sw - w) div 2) + w) :: rat) = of_int (sw - 1) \<or> (of_int (2 * ((sw - w) div 2) + w) :: rat) = of_int sw" by metis
  then show "centred sw (int_rect ((sw - w) div 2) y w h)" by (simp add: r centred_def)
qed

lemma below_rects:
  assumes "\<bar>x\<bar> \<le> 32767" "\<bar>w\<bar> \<le> 32767" "0 \<le> y" "0 \<le> h" "0 \<le> h'" "y + h + h' \<le> 32767" "y' = y + h"
  shows "below (int_rect x y w h) (int_rect x y' w h')"
  using assms by (simp add: int_rect_small below_def)

lemma dialog_stack:
  assumes "0 \<le> w" "w \<le> sw" "sw \<le> 32767" "36 \<le> y" "85 \<le> h" "y + h \<le> sh" "sh \<le> 32767"
  shows "\<exists>ws. dialog_rects name ((sw - w) div 2) y w h = Some ws \<and> good_stack sw sh ws"
proof -
  let ?x = "(sw - w) div 2"
  let ?ws = "[(name @ ''Title'', int_rect ?x (y - 36) w 36), (name, int_rect ?x y w (h - 85)), (name @ ''Close'', int_rect ?x (y + (h - 85)) w 85)]"
  have x: "0 \<le> ?x" "?x + w \<le> sw" using centre assms(1,2) by blast+
  have "is_c_int (h - 85)" "is_c_int (y - 36)" "is_c_int (y + (h - 85))" using assms by auto
  then have "dialog_rects name ?x y w h = Some ?ws" by (simp add: dialog_rects_def c_int_def)
  moreover have "stacked (map snd ?ws)"
    using below_rects [of ?x w "y - 36" 36 "h - 85" y] below_rects [of ?x w y "h - 85" 85 "y + (h - 85)"] assms x by simp
  moreover have "inside_screen sw sh (snd v) \<and> centred sw (snd v)" if "v \<in> set ?ws" for v
    using that good_rect [OF assms(1-3) _ _ _ assms(7)] assms by auto
  ultimately show ?thesis by (auto simp: good_stack_def)
qed

lemma terminal_stack:
  assumes "size_ok (size_terminal t) sw sh" "0 \<le> sw" "sw \<le> 32767" "sh \<le> 32767"
    and "part_of sh (sz_nh (size_terminal t)) (sz_dh (size_terminal t)) + 168 \<le> sh"
  shows "\<exists>ws. terminal_rects t (word_of_int sw) (word_of_int sh) = Some ws \<and> good_stack sw sh ws"
proof -
  define w h where "w = part_of sw (sz_nw (size_terminal t)) (sz_dw (size_terminal t))"
    and "h = part_of sh (sz_nh (size_terminal t)) (sz_dh (size_terminal t))"
  have s: "w \<le> sw" "85 \<le> h" "h + 168 \<le> sh" using assms(1,5) by (simp_all add: size_ok_def w_def h_def)
  have e: "THEME_W (size_terminal t) (word_of_int sw) = w" "THEME_H (size_terminal t) (word_of_int sh) = h" "0 \<le> w"
    using theme_size [OF assms(1-3) _ assms(4)] s by (simp_all add: w_def h_def)
  define x y where "x = (sw - w) div 2" and "y = (sh - h) div 2"
  have x: "0 \<le> x" "x + w \<le> sw" "THEME_X (word_of_int sw) w = x"
    using centre [OF e(3) s(1)] half_word [OF e(3) s(1) assms(3)] by (simp_all add: x_def THEME_X_def)
  have y: "84 \<le> y" "y + h \<le> sh" "THEME_Y (word_of_int sh) h = y"
    using s half_word [of h sh] assms(4) by (simp_all add: y_def THEME_Y_def)
  let ?ws = "[(''TerminalTitle'', int_rect x (y - 84) w 36), (''TerminalMode'', int_rect x (y - 48) w 48),
              (''Terminal'', int_rect x y w (h - 85)), (''TerminalClose'', int_rect x (y + (h - 85)) w 85)]"
  have "is_c_int (h - 85)" "is_c_int (y - 84)" "is_c_int (y - 48)" "is_c_int (y + (h - 85))" using s y assms(4) by auto
  then have "terminal_rects t (word_of_int sw) (word_of_int sh) = Some ?ws"
    using e x y by (simp add: terminal_rects_def c_int_def Let_def)
  moreover have "below (int_rect x (y - 84) w 36) (int_rect x (y - 48) w 48)" "below (int_rect x (y - 48) w 48) (int_rect x y w (h - 85))"
      "below (int_rect x y w (h - 85)) (int_rect x (y + (h - 85)) w 85)"
    by (rule below_rects; use s x(1,2) y(1,2) e(3) assms(3,4) in linarith)+
  moreover have "inside_screen sw sh (snd v) \<and> centred sw (snd v)" if "v \<in> set ?ws" for v
    using that good_rect [OF e(3) s(1) assms(3) _ _ _ assms(4)] s y by (auto simp: x_def)
  ultimately show ?thesis by (simp add: good_stack_def)
qed

lemma theme_dialog_stack:
  assumes "size_ok s sw sh" "0 \<le> sw" "sw \<le> 32767" "sh \<le> 32767" "part_of sh (sz_nh s) (sz_dh s) + 72 \<le> sh"
  shows "\<exists>ws. dialog_rects name (THEME_X (word_of_int sw) (THEME_W s (word_of_int sw))) (THEME_Y (word_of_int sh) (THEME_H s (word_of_int sh)))
      (THEME_W s (word_of_int sw)) (THEME_H s (word_of_int sh)) = Some ws \<and> good_stack sw sh ws"
    "part_of sh (sz_nh s) (sz_dh s) + 157 \<le> sh \<Longrightarrow>
     \<exists>ws. dialog_rects name (THEME_X (word_of_int sw) (THEME_W s (word_of_int sw))) (THEME_SU_Y (word_of_int sh) (THEME_H s (word_of_int sh)))
      (THEME_W s (word_of_int sw)) (THEME_H s (word_of_int sh)) = Some ws \<and> good_stack sw sh ws"
proof -
  define w h where "w = part_of sw (sz_nw s) (sz_dw s)" and "h = part_of sh (sz_nh s) (sz_dh s)"
  have s: "w \<le> sw" "85 \<le> h" "h + 72 \<le> sh" using assms(1,5) by (simp_all add: size_ok_def w_def h_def)
  have e: "THEME_W s (word_of_int sw) = w" "THEME_H s (word_of_int sh) = h" "0 \<le> w"
    using theme_size [OF assms(1-3) _ assms(4)] s by (simp_all add: w_def h_def)
  have x: "THEME_X (word_of_int sw) w = (sw - w) div 2" using half_word [OF e(3) s(1) assms(3)] by (simp add: THEME_X_def)
  have y: "36 \<le> (sh - h) div 2" "(sh - h) div 2 + h \<le> sh" "THEME_Y (word_of_int sh) h = (sh - h) div 2"
    using s half_word [of h sh] assms(4) by (simp_all add: THEME_Y_def)
  from dialog_stack [OF e(3) s(1) assms(3) y(1) s(2) y(2) assms(4)]
  show "\<exists>ws. dialog_rects name (THEME_X (word_of_int sw) (THEME_W s (word_of_int sw))) (THEME_Y (word_of_int sh) (THEME_H s (word_of_int sh)))
      (THEME_W s (word_of_int sw)) (THEME_H s (word_of_int sh)) = Some ws \<and> good_stack sw sh ws" by (simp add: e x y)
  assume "part_of sh (sz_nh s) (sz_dh s) + 157 \<le> sh"
  then have h: "h + 157 \<le> sh" by (simp add: h_def)
  have "36 \<le> (sh - (h + 85)) div 2" "(sh - (h + 85)) div 2 + h \<le> sh" "THEME_SU_Y (word_of_int sh) h = (sh - (h + 85)) div 2"
    using s h half_word [of "h + 85" sh] assms(4) by (simp_all add: THEME_SU_Y_def)
  with dialog_stack [OF e(3) s(1) assms(3) this(1) s(2) this(2) assms(4)]
  show "\<exists>ws. dialog_rects name (THEME_X (word_of_int sw) (THEME_W s (word_of_int sw))) (THEME_SU_Y (word_of_int sh) (THEME_H s (word_of_int sh)))
      (THEME_W s (word_of_int sw)) (THEME_H s (word_of_int sh)) = Some ws \<and> good_stack sw sh ws" by (simp add: e x)
qed

text \<open>The sizes of a theme leave room for the titles above the windows.\<close>

definition theme_fits :: "theme \<Rightarrow> int \<Rightarrow> int \<Rightarrow> bool" where
  "theme_fits t sw sh \<longleftrightarrow>
     list_all (\<lambda>(s, room). size_ok s sw sh \<and> part_of sh (sz_nh s) (sz_dh s) + room \<le> sh)
       [(size_terminal t, 168), (size_taskmgr t, 72), (size_run t, 72), (size_pwd t, 72), (size_cp t, 72), (size_su t, 157)]"

lemma default_theme_fits:
  assumes "600 \<le> sw" "sw \<le> 32767" "567 \<le> sh" "sh \<le> 32767"
  shows "theme_fits default_theme sw sh"
  using assms by (simp add: theme_fits_def size_ok_def default_theme_def part_of_def INT_MAX_def) linarith

subsection \<open>The main menu\<close>

text \<open>With the menu open, the click test of \<open>Input\<close> closes it exactly when the click is outside the rectangle drawn.\<close>

lemma power_menu_click:
  assumes "0 \<le> pm_menu_w l" "0 \<le> shutdown_h l" "pm_menu_w l \<le> 10000" "shutdown_h l \<le> 10000"
    and "0 \<le> ly_w l" "ly_w l \<le> 32767" "0 \<le> ly_h l" "ly_h l \<le> 32767"
    and "ms_left m" "\<not> ms_prev_left m" "fst (manual_buttons l False m True) = -1"
    and "r = power_rect (word_of_int (ly_w l)) (word_of_int (ly_h l)) (pm_menu_w l) (shutdown_h l)"
  shows "snd (manual_buttons l False m True) \<longleftrightarrow>
    fr_x r \<le> of_int (ms_x m) \<and> of_int (ms_x m) \<le> fr_x r + fr_w r \<and> fr_y r \<le> of_int (ms_y m) \<and> of_int (ms_y m) \<le> fr_y r + fr_h r"
proof -
  let ?x = "ly_w l - pm_menu_w l - 20" and ?y = "ly_h l - shutdown_h l - 20 - 180"
  have s: "sint (word_of_int v :: 32 word) = v" if "\<bar>v\<bar> \<le> 32767" for v
    using that by (simp add: signed_of_int signed_take_bit_int_eq_self)
  have b: "\<bar>?x\<bar> \<le> 32767" "\<bar>?y\<bar> \<le> 32767" using assms(1-8) by linarith+
  have "(word_of_int (ly_w l) - word_of_int (pm_menu_w l) - 20 :: 32 word) = word_of_int ?x"
      "(word_of_int (ly_h l) - word_of_int (shutdown_h l) - 20 - 180 :: 32 word) = word_of_int ?y" by simp_all
  then have "r = int_rect ?x ?y (pm_menu_w l) 180"
    unfolding assms(12) power_rect_def by (simp only: s [OF b(1)] s [OF b(2)])
  then have r: "fr_x r = of_int ?x" "fr_y r = of_int ?y" "fr_w r = of_int (pm_menu_w l)" "fr_h r = of_int 180"
    using int_rect_small [OF b, of "pm_menu_w l" 180] assms(1,3) by simp_all
  have "snd (manual_buttons l False m True) = in_box m ?x ?y (pm_menu_w l) 180"
    using assms(9-11) by (auto simp: manual_buttons_def split: if_splits)
  then show ?thesis unfolding r in_box_def by (simp only: of_int_add [symmetric] of_int_le_iff)
qed

lemma menu_on_screen:
  assumes "300 \<le> menu_w" "menu_w \<le> sw" "sw \<le> 32767" "500 \<le> sh" "sh \<le> 32767"
  shows "menu_rect (word_of_int sw) (word_of_int sh) menu_w = rect_of (sw div 2 - menu_w div 2) (sh div 2 - 250) menu_w 600"
proof -
  have d: "(word_of_int v :: 32 word) div 2 = word_of_int (v div 2)" if "0 \<le> v" "v \<le> 32767" for v
    using word_div_small [of v 2] that by simp
  have "uint (word_of_int (sw div 2 - menu_w div 2) :: 32 word) = sw div 2 - menu_w div 2" using assms by (intro uint_small) linarith+
  moreover have "uint (word_of_int (sh div 2 - 250) :: 32 word) = sh div 2 - 250" using assms by (intro uint_small) linarith+
  ultimately have "uint ((word_of_int sw :: 32 word) div 2 - word_of_int (menu_w div 2)) = sw div 2 - menu_w div 2"
      "uint ((word_of_int sh :: 32 word) div 2 - 250) = sh div 2 - 250"
    using d [of sw] d [of sh] assms by simp_all
  moreover have "f32 (of_int (sw div 2 - menu_w div 2)) = of_int (sw div 2 - menu_w div 2)" "f32 (of_int (sh div 2 - 250)) = of_int (sh div 2 - 250)"
      "f32 (of_int menu_w) = of_int menu_w"
    by (rule f32_short; use assms in linarith)+
  ultimately show ?thesis by (simp only: menu_rect_def rect_of_def) simp
qed

text \<open>
  On a screen of fewer than 500 rows, such as 640 x 480, the unsigned difference wraps around and the main menu is
  far below the screen.
\<close>

lemma menu_off_screen:
  assumes "0 \<le> sh" "sh < 500"
  shows "1073741824 \<le> fr_y (menu_rect sw (word_of_int sh) menu_w)"
proof -
  have "(word_of_int sh :: 32 word) div 2 - 250 = word_of_int (4294967296 + (sh div 2 - 250))"
    using word_div_small [of sh 2] assms by simp
  moreover have "uint (word_of_int (4294967296 + (sh div 2 - 250)) :: 32 word) = 4294967296 + (sh div 2 - 250)"
    using assms by (intro uint_small) linarith+
  ultimately have u: "uint ((word_of_int sh :: 32 word) div 2 - 250) = 4294967296 + (sh div 2 - 250)" by simp
  have "(2147483648 :: int) \<le> 4294967296 + (sh div 2 - 250)" using assms by linarith
  then have "(of_int 2147483648 :: rat) \<le> of_int (4294967296 + (sh div 2 - 250))" by (simp only: of_int_le_iff)
  then have "1073741824 \<le> f32 (of_int (4294967296 + (sh div 2 - 250)))"
    using f32_half [of "of_int (4294967296 + (sh div 2 - 250))"] by (simp del: of_int_add)
  then show ?thesis by (simp only: menu_rect_def u frect.simps)
qed

text \<open>On such a screen the position of the window of the sessions leaves the type \<^verbatim>\<open>int\<close>.\<close>

lemma sessions_overflow: "su_rects default_theme (word_of_int 640) (word_of_int 480) = None"
  by code_simp

section \<open>Properties\<close>

text \<open>
  C37 (windows_on_screen). When the sizes of the theme leave room for the titles, the windows of all six dialogues are
  computed without overflow, lie inside the screen and are centred, and the windows of a dialogue are stacked
  without gap or overlap.
\<close>

theorem windows_on_screen:
  assumes "theme_fits t sw sh" "0 \<le> sw" "sw \<le> 32767" "sh \<le> 32767"
  shows "\<exists>wss. theme_windows t (word_of_int sw) (word_of_int sh) = Some wss \<and> length wss = 6 \<and> (\<forall>ws\<in>set wss. good_stack sw sh ws)"
proof -
  let ?sw = "word_of_int sw :: 32 word" and ?sh = "word_of_int sh :: 32 word"
  note d = theme_dialog_stack [OF _ assms(2-4)]
  have "\<exists>ws. terminal_rects t ?sw ?sh = Some ws \<and> good_stack sw sh ws"
    using terminal_stack [OF _ assms(2-4)] assms(1) by (simp add: theme_fits_def)
  moreover have "\<exists>ws. tm_rects t ?sw ?sh = Some ws \<and> good_stack sw sh ws" "\<exists>ws. run_rects t ?sw ?sh = Some ws \<and> good_stack sw sh ws"
    "\<exists>ws. pwd_rects t ?sw ?sh = Some ws \<and> good_stack sw sh ws" "\<exists>ws. cp_rects t ?sw ?sh = Some ws \<and> good_stack sw sh ws"
    "\<exists>ws. su_rects t ?sw ?sh = Some ws \<and> good_stack sw sh ws"
    unfolding tm_rects_def run_rects_def pwd_rects_def cp_rects_def su_rects_def Let_def
    using assms(1) by (auto simp: theme_fits_def intro!: d)
  ultimately show ?thesis by (auto simp: theme_windows_def)
qed

text \<open>
  With the sizes of the built-in theme and characters of whole pixels, the terminal gets as
  many columns and rows as its window holds, on every screen of at least 153 rows: the \<^verbatim>\<open>float\<close> divisions lose nothing.
\<close>

theorem terminal_grid_fills:
  assumes "0 \<le> sw" "sw \<le> 32767" "153 \<le> sh" "sh \<le> 32767" "0 < cw" "0 < ch"
  shows "\<exists>cols rows. terminal_grid (word_of_int sw) (word_of_int sh) (of_int cw) (of_int ch) = Some (cols, rows)
    \<and> cols * cw \<le> THEME_W (size_terminal default_theme) (word_of_int sw)
    \<and> THEME_W (size_terminal default_theme) (word_of_int sw) < (cols + 1) * cw
    \<and> rows * ch \<le> THEME_H (size_terminal default_theme) (word_of_int sh) - 85
    \<and> THEME_H (size_terminal default_theme) (word_of_int sh) - 85 < (rows + 1) * ch"
proof -
  define W H where "W = sw * 5 div 9" and "H = sh * 5 div 9 - 85"
  have b: "0 \<le> W" "W \<le> 32767" "0 \<le> H" "H \<le> 32767" using assms by (simp_all add: W_def H_def)
  have s: "sint ((word_of_int v * 5 :: 32 word) div 9) = v * 5 div 9" if "0 \<le> v" "v \<le> 32767" for v
    using word_div_small [of "v * 5" 9] that by (simp add: sint_small)
  have t: "to_unsigned (f32 (of_int v / of_int c)) = Some (v div c)" if "0 \<le> v" "v \<le> 32767" "0 < c" for v c
  proof -
    have "v div c \<le> v" using that zdiv_mono2 [of v 1 c] by simp
    then show ?thesis using f32_div_trunc [of v c] that by (simp add: to_unsigned_def pos_imp_zdiv_nonneg_iff)
  qed
  have "terminal_grid (word_of_int sw) (word_of_int sh) (of_int cw) (of_int ch) = Some (W div cw, H div ch)"
    using s [of sw] s [of sh] t [of W cw] t [of H ch] b assms
    by (simp add: terminal_grid_def Let_def f32_int c_int_def flip: W_def H_def)
  moreover have "THEME_W (size_terminal default_theme) (word_of_int sw) = W" "THEME_H (size_terminal default_theme) (word_of_int sh) - 85 = H"
    using s [of sw] s [of sh] assms by (simp_all add: THEME_W_def THEME_H_def default_theme_def W_def H_def)
  moreover have "v div c * c \<le> v" "v < (v div c + 1) * c" if "0 < c" for v c :: int
    using div_mult_mod_eq [of v c] pos_mod_bound [OF that, of v] pos_mod_sign [OF that, of v] unfolding distrib_right mult_1 by linarith+
  ultimately show ?thesis using assms(5,6) by simp
qed

theorem windows_on_screen_witness:
  "\<exists>wss. theme_windows default_theme (word_of_int 1024) (word_of_int 768) = Some wss \<and> length wss = 6 \<and> (\<forall>ws\<in>set wss. good_stack 1024 768 ws)"
  by (rule windows_on_screen) (simp_all add: default_theme_fits)

theorem terminal_grid_fills_witness:
  "\<exists>cols rows. terminal_grid (word_of_int 1024) (word_of_int 768) (of_int 7) (of_int 13) = Some (cols, rows)
    \<and> cols * 7 \<le> THEME_W (size_terminal default_theme) (word_of_int 1024)"
  using terminal_grid_fills [of 1024 768 7 13] by auto

text \<open>
  The grid does not follow the theme: with a smaller terminal in the configuration file it keeps its size, and columns
  and rows are outside the window.
\<close>

lemma grid_ignores_theme:
  "case terminal_grid (word_of_int 1024) (word_of_int 768) 7 13 of
     Some (cols, rows) \<Rightarrow> cols * 7 > THEME_W \<lparr>sz_nw = 1, sz_dw = 3, sz_nh = 1, sz_dh = 3\<rparr> (word_of_int 1024)
       \<and> rows * 13 > THEME_H \<lparr>sz_nw = 1, sz_dw = 3, sz_nh = 1, sz_dh = 3\<rparr> (word_of_int 768) - 85
   | None \<Rightarrow> False"
  by code_simp

end
