(* ===== verification/Utf8.thy ===== *)
theory Utf8
  imports Render
begin

text \<open>
  Text on its way into Nuklear: \<^verbatim>\<open>main\<close> passes each character of the keyboard to \<^verbatim>\<open>nk_input_unicode\<close>, which encodes it in
  UTF-8, decodes it again and appends it to the 16 bytes of text a frame can hold (\<^verbatim>\<open>NK_INPUT_MAX\<close>). The decoder is
  the one of \<open>Render\<close>, which draws text with it.
\<close>

section \<open>Model\<close>

unbundle bit_operations_syntax

text \<open>\<^verbatim>\<open>for (i = 1; *u > nk_utfmax[i]; ++i);\<close> over the rest of the table; \<open>None\<close> is an access behind it.\<close>

fun utf_size_loop :: "nat \<Rightarrow> 32 word list \<Rightarrow> 32 word \<Rightarrow> nat option" where
  "utf_size_loop i [] u = None"
| "utf_size_loop i (m # ms) u = (if u > m then utf_size_loop (Suc i) ms u else Some i)"

definition nk_utf_size :: "32 word \<Rightarrow> nat option" where
  "nk_utf_size u = utf_size_loop 1 (tl nk_utfmax) u"

definition nk_utf_encode_byte :: "32 word \<Rightarrow> nat \<Rightarrow> 8 word" where
  "nk_utf_encode_byte u i = (case nk_utf_table ! i of (m, v) \<Rightarrow> v OR (ucast u AND NOT m))"

text \<open>The bytes after the first, from the last on.\<close>

fun utf_encode_rest :: "nat \<Rightarrow> 32 word \<Rightarrow> 8 word list \<Rightarrow> 32 word \<times> 8 word list" where
  "utf_encode_rest 0 u acc = (u, acc)"
| "utf_encode_rest (Suc i) u acc = utf_encode_rest i (drop_bit 6 u) (nk_utf_encode_byte u 0 # acc)"

text \<open>The bytes written; none when the result is 0.\<close>

definition nk_utf_encode :: "32 word \<Rightarrow> nat \<Rightarrow> 8 word list option" where
  "nk_utf_encode u0 clen =
     (let u = nk_utf_validate u0 0 in
      case nk_utf_size u of
        None \<Rightarrow> None
      | Some len \<Rightarrow>
          if clen < len \<or> len = 0 \<or> len > 4 then Some []
          else (case utf_encode_rest (len - 1) u [] of (u1, bs) \<Rightarrow> Some (nk_utf_encode_byte u1 len # bs)))"

text \<open>\<^verbatim>\<open>nk_utf_len\<close>, the number of characters in the first \<open>len\<close> bytes.\<close>

partial_function (option) utf_len_loop :: "8 word list \<Rightarrow> nat \<Rightarrow> nat \<Rightarrow> 32 word \<Rightarrow> nat \<Rightarrow> nat \<Rightarrow> nat option" where
  "utf_len_loop str len src_len unicode glyph_len glyphs =
     (if glyph_len \<noteq> 0 \<and> src_len < len
      then (case nk_utf_decode str (src_len + glyph_len) unicode (len - (src_len + glyph_len)) of
              None \<Rightarrow> None
            | Some (n, u) \<Rightarrow> utf_len_loop str len (src_len + glyph_len) u n (Suc glyphs))
      else Some glyphs)"

definition nk_utf_len :: "8 word list \<Rightarrow> nat \<Rightarrow> nat option" where
  "nk_utf_len str len =
     (if len = 0 then Some 0
      else (case nk_utf_decode str 0 0 len of None \<Rightarrow> None | Some (n, u) \<Rightarrow> utf_len_loop str len 0 u n 0))"

record nk_keyboard =
  kb_text :: "8 word list"
  kb_text_len :: nat

text \<open>Bytes written over an array from a position on; \<open>None\<close> when they do not fit.\<close>

definition write_at :: "nat \<Rightarrow> 8 word list \<Rightarrow> 8 word list \<Rightarrow> 8 word list option" where
  "write_at p bs a = (if p + length bs \<le> length a then Some (take p a @ bs @ drop (p + length bs) a) else None)"

definition nk_input_glyph :: "8 word list \<Rightarrow> nk_keyboard \<Rightarrow> nk_keyboard option" where
  "nk_input_glyph glyph kb =
     (case nk_utf_decode glyph 0 0 4 of
        None \<Rightarrow> None
      | Some (len, unicode) \<Rightarrow>
          if len \<noteq> 0 \<and> kb_text_len kb + len < 16
          then do {
            bs \<leftarrow> nk_utf_encode unicode (16 - kb_text_len kb);
            text \<leftarrow> write_at (kb_text_len kb) bs (kb_text kb);
            Some \<lparr>kb_text = text, kb_text_len = kb_text_len kb + len\<rparr>
          } else Some kb)"

text \<open>The local array \<^verbatim>\<open>rune\<close> is not set before; \<open>junk\<close> is what it held.\<close>

definition nk_input_unicode :: "8 word list \<Rightarrow> 32 word \<Rightarrow> nk_keyboard \<Rightarrow> nk_keyboard option" where
  "nk_input_unicode junk unicode kb =
     do {
       bs \<leftarrow> nk_utf_encode unicode 4;
       rune \<leftarrow> write_at 0 bs junk;
       nk_input_glyph rune kb
     }"

section \<open>Lemmas\<close>

subsection \<open>Bytes\<close>

lemma masks: "(- 193 :: 8 word) = 0x3F" "(- 129 :: 8 word) = 0x7F" "(- 225 :: 8 word) = 0x1F" "(- 241 :: 8 word) = 0x0F" "(- 249 :: 8 word) = 0x07"
  by simp_all

lemma byte_parts:
  "nk_utf_encode_byte u 0 = 0x80 OR (ucast u AND 0x3F)" "nk_utf_encode_byte u (Suc 0) = ucast u AND 0x7F"
  "nk_utf_encode_byte u 2 = 0xC0 OR (ucast u AND 0x1F)" "nk_utf_encode_byte u 3 = 0xE0 OR (ucast u AND 0x0F)"
  "nk_utf_encode_byte u 4 = 0xF0 OR (ucast u AND 0x07)"
  by (simp_all add: nk_utf_encode_byte_def nk_utf_table_def masks numeral_eq_Suc)

lemma decode_byte_cases:
  "nk_utf_decode_byte c =
     (if c AND 0xC0 = 0x80 then (ucast (c AND 0x3F), 0) else if c AND 0x80 = 0 then (ucast (c AND 0x7F), 1)
      else if c AND 0xE0 = 0xC0 then (ucast (c AND 0x1F), 2) else if c AND 0xF0 = 0xE0 then (ucast (c AND 0x0F), 3)
      else if c AND 0xF8 = 0xF0 then (ucast (c AND 0x07), 4) else (0, 5))"
  by (simp add: nk_utf_decode_byte_def nk_utf_table_def masks numeral_eq_Suc)

lemma and_or_const: "((v OR (x AND k)) AND m :: 8 word) = (v AND m) OR (x AND (k AND m))"
  by (simp add: bit.conj_disj_distrib2 and.assoc)

lemma ucast_low:
  "ucast (ucast u AND 0x3F :: 8 word) = (take_bit 6 u :: 32 word)" "ucast (ucast u AND 0x7F :: 8 word) = (take_bit 7 u :: 32 word)"
  "ucast (ucast u AND 0x1F :: 8 word) = (take_bit 5 u :: 32 word)" "ucast (ucast u AND 0x0F :: 8 word) = (take_bit 4 u :: 32 word)"
  "ucast (ucast u AND 0x07 :: 8 word) = (take_bit 3 u :: 32 word)"
proof -
  have "ucast (ucast u AND mask n :: 8 word) = (take_bit n u :: 32 word)" if "n \<le> 8" for n
    using that by (intro bit_word_eqI) (auto simp: bit_simps)
  from this [of 6] this [of 7] this [of 5] this [of 4] this [of 3]
  show "ucast (ucast u AND 0x3F :: 8 word) = (take_bit 6 u :: 32 word)" "ucast (ucast u AND 0x7F :: 8 word) = (take_bit 7 u :: 32 word)"
    "ucast (ucast u AND 0x1F :: 8 word) = (take_bit 5 u :: 32 word)" "ucast (ucast u AND 0x0F :: 8 word) = (take_bit 4 u :: 32 word)"
    "ucast (ucast u AND 0x07 :: 8 word) = (take_bit 3 u :: 32 word)"
    by (simp_all add: mask_eq_exp_minus_1)
qed

lemma cont_decode: "nk_utf_decode_byte (nk_utf_encode_byte u 0) = (take_bit 6 u, 0)"
  by (simp add: byte_parts decode_byte_cases and_or_const ucast_low)

lemma and_conflict: "a AND b = b \<Longrightarrow> c AND b = 0 \<Longrightarrow> b \<noteq> 0 \<Longrightarrow> x AND c \<noteq> (a :: 8 word)"
  by (metis and.assoc and.commute and_zero_eq)

lemma lead_decode:
  "nk_utf_decode_byte (nk_utf_encode_byte u (Suc 0)) = (take_bit 7 u, Suc 0)"
  "nk_utf_decode_byte (nk_utf_encode_byte u 2) = (take_bit 5 u, 2)"
  "nk_utf_decode_byte (nk_utf_encode_byte u 3) = (take_bit 4 u, 3)"
  "nk_utf_decode_byte (nk_utf_encode_byte u 4) = (take_bit 3 u, 4)"
  using and_conflict [of "0x80" "0x80" "0x40" "ucast u"]
  by (simp_all add: byte_parts decode_byte_cases and_or_const and.assoc ucast_low)

subsection \<open>Characters\<close>

text \<open>Characters that are encoded and decoded again to themselves: the upper bound of each size is not.\<close>

definition plain_rune :: "32 word \<Rightarrow> bool" where
  "plain_rune u \<longleftrightarrow> u < 0x10FFFF \<and> \<not> (0xD800 \<le> u \<and> u < 0xDFFF) \<and> u \<notin> {0x7F, 0x7FF, 0xFFFF}"

lemma size_cases:
  "nk_utf_size u = (if u \<le> 0x7F then Some 1 else if u \<le> 0x7FF then Some 2 else if u \<le> 0xFFFF then Some 3
     else if u \<le> 0x10FFFF then Some 4 else None)"
  by (simp add: nk_utf_size_def nk_utfmax_def not_le [symmetric])

lemma join6: "push_bit 6 (drop_bit 6 u) OR take_bit 6 u = (u :: 32 word)"
  by (rule bit_word_eqI) (auto simp: bit_simps)

lemma take_small: "(u :: 32 word) < 2 ^ n \<Longrightarrow> take_bit n u = u"
  by (simp add: take_bit_eq_mask less_mask_eq)

lemma drop6_less: "unat (u :: 32 word) < 64 * n \<Longrightarrow> unat (drop_bit 6 u) < n"
  by (simp only: unat_drop_bit_eq) (simp add: drop_bit_eq_div less_mult_imp_div_less)

lemma rest_decode:
  assumes "text = pre @ nk_utf_encode_byte u 0 # suf" "p + j = length pre" "j < clen" "j < len"
  shows "utf_rest text p clen len j v = utf_rest text p clen len (Suc j) (push_bit 6 v OR take_bit 6 u)"
  using assms by (subst utf_rest.simps) (simp add: cont_decode)

text \<open>The bytes of a character of each size.\<close>

fun utf_bytes :: "nat \<Rightarrow> 32 word \<Rightarrow> 8 word list" where
  "utf_bytes n u = (case utf_encode_rest (n - 1) u [] of (u1, bs) \<Rightarrow> nk_utf_encode_byte u1 n # bs)"

lemma utf_bytes_sizes:
  "utf_bytes (Suc 0) u = [nk_utf_encode_byte u (Suc 0)]" "utf_bytes 2 u = [nk_utf_encode_byte (drop_bit 6 u) 2, nk_utf_encode_byte u 0]"
  "utf_bytes 3 u = [nk_utf_encode_byte (drop_bit 6 (drop_bit 6 u)) 3, nk_utf_encode_byte (drop_bit 6 u) 0, nk_utf_encode_byte u 0]"
  "utf_bytes 4 u = [nk_utf_encode_byte (drop_bit 6 (drop_bit 6 (drop_bit 6 u))) 4, nk_utf_encode_byte (drop_bit 6 (drop_bit 6 u)) 0,
     nk_utf_encode_byte (drop_bit 6 u) 0, nk_utf_encode_byte u 0]"
  by (simp_all add: numeral_eq_Suc del: drop_bit_drop_bit)

lemma take_bits:
  "unat (u :: 32 word) < 128 \<Longrightarrow> take_bit 7 u = u" "unat u < 32 \<Longrightarrow> take_bit 5 u = u" "unat u < 16 \<Longrightarrow> take_bit 4 u = u"
  "unat u < 8 \<Longrightarrow> take_bit 3 u = u"
  using take_small [of u 7] take_small [of u 5] take_small [of u 4] take_small [of u 3] by (simp_all add: word_less_nat_alt)

lemma decode_first:
  assumes "nk_utf_decode_byte (text ! p) = (w, n)" "p < length text" "0 < clen" "0 < n" "n < 5" "utf_rest text p clen n 1 w = Some (Inr (n, u))"
  shows "nk_utf_decode text p v clen = Some (n, nk_utf_validate u n)"
  using assms by (simp add: nk_utf_decode_def)

lemma decode_sizes:
  assumes "length (utf_bytes n u) \<le> clen" "n = Suc 0 \<and> unat u < 128 \<or> n = 2 \<and> unat u < 2048 \<or> n = 3 \<and> unat u < 65536 \<or> n = 4 \<and> unat u < 2097152"
  shows "nk_utf_decode (pre @ utf_bytes n u @ suf) (length pre) v clen = Some (n, nk_utf_validate u n)"
proof -
  let ?d = "drop_bit 6" and ?t = "pre @ utf_bytes n u @ suf"
  have d: "unat (?d u) < 32" if "unat u < 2048" using drop6_less [of u 32] that by simp
  have dd: "unat (?d (?d u)) < 16" if "unat u < 65536" using drop6_less [of u 1024] drop6_less [of "?d u" 16] that by simp
  have ddd: "unat (?d (?d (?d u))) < 8" if "unat u < 2097152"
    using drop6_less [of u 32768] drop6_less [of "?d u" 512] drop6_less [of "?d (?d u)" 8] that by simp
  note [simp del] = utf_bytes.simps drop_bit_drop_bit
  have step: "utf_rest ?t (length pre) clen n j (?d w) = utf_rest ?t (length pre) clen n (Suc j) w"
    if "?t = (pre @ ls) @ nk_utf_encode_byte w 0 # suf'" "length ls = j" "j < n" "n \<le> clen" for ls w suf' j
    using rest_decode [OF that(1), of "length pre" j clen n "?d w"] that by (simp add: join6)
  note step1 = step [of _ _ _ 1, unfolded Suc_1] and step2 = step [of _ _ _ 2, simplified Suc_numeral] and step3 = step [of _ _ _ 3, simplified Suc_numeral]
  have fin: "utf_rest ?t (length pre) clen n n u = Some (Inr (n, u))" by (subst utf_rest.simps) simp
  have c: "n \<le> clen" using assms by (auto simp: utf_bytes_sizes)
  from assms(2) consider "n = Suc 0" "unat u < 128" | "n = 2" "unat u < 2048" | "n = 3" "unat u < 65536" | "n = 4" "unat u < 2097152" by blast
  then show ?thesis
  proof cases
    case 1
    then show ?thesis using decode_first [of ?t "length pre" u n clen u] fin c
      by (simp add: utf_bytes_sizes lead_decode take_bits nth_append)
  next
    case 2
    then have "utf_rest ?t (length pre) clen n 1 (?d u) = Some (Inr (n, u))"
      using step1 [of "[nk_utf_encode_byte (?d u) 2]" u suf] fin c by (simp add: utf_bytes_sizes)
    then show ?thesis using decode_first [of ?t "length pre" "?d u" n clen u] 2 d c
      by (simp add: utf_bytes_sizes lead_decode take_bits nth_append)
  next
    case 3
    then have "utf_rest ?t (length pre) clen n 1 (?d (?d u)) = Some (Inr (n, u))"
      using step1 [of "[nk_utf_encode_byte (?d (?d u)) 3]" "?d u" "nk_utf_encode_byte u 0 # suf"]
        step2 [of "[nk_utf_encode_byte (?d (?d u)) 3, nk_utf_encode_byte (?d u) 0]" u suf] fin c by (simp add: utf_bytes_sizes)
    then show ?thesis using decode_first [of ?t "length pre" "?d (?d u)" n clen u] 3 dd c
      by (simp add: utf_bytes_sizes lead_decode take_bits nth_append)
  next
    case 4
    then have "utf_rest ?t (length pre) clen n 1 (?d (?d (?d u))) = Some (Inr (n, u))"
      using step1 [of "[nk_utf_encode_byte (?d (?d (?d u))) 4]" "?d (?d u)" "nk_utf_encode_byte (?d u) 0 # nk_utf_encode_byte u 0 # suf"]
        step2 [of "[nk_utf_encode_byte (?d (?d (?d u))) 4, nk_utf_encode_byte (?d (?d u)) 0]" "?d u" "nk_utf_encode_byte u 0 # suf"]
        step3 [of "[nk_utf_encode_byte (?d (?d (?d u))) 4, nk_utf_encode_byte (?d (?d u)) 0, nk_utf_encode_byte (?d u) 0]" u suf]
        fin c by (simp add: utf_bytes_sizes)
    then show ?thesis using decode_first [of ?t "length pre" "?d (?d (?d u))" n clen u] 4 ddd c
      by (simp add: utf_bytes_sizes lead_decode take_bits nth_append)
  qed
qed

lemma plain_sizes:
  assumes "plain_rune u"
  obtains n where "nk_utf_size u = Some n" "0 < n" "n \<le> 4" "nk_utf_validate u 0 = u" "nk_utf_validate u n = u" "length (utf_bytes n u) = n"
    "n = Suc 0 \<and> unat u < 128 \<or> n = 2 \<and> unat u < 2048 \<or> n = 3 \<and> unat u < 65536 \<or> n = 4 \<and> unat u < 2097152"
proof -
  have l: "length (utf_bytes (Suc 0) u) = 1" "length (utf_bytes 2 u) = 2" "length (utf_bytes 3 u) = 3" "length (utf_bytes 4 u) = 4"
    by (simp_all add: utf_bytes_sizes del: utf_bytes.simps)
  have u: "u < 0x10FFFF" "\<not> (0xD800 \<le> u \<and> u < 0xDFFF)" "u \<noteq> 0x7F" "u \<noteq> 0x7FF" "u \<noteq> 0xFFFF" using assms by (auto simp: plain_rune_def)
  have v: "nk_utf_validate u 0 = u" using u by (auto simp: nk_utf_validate_def nk_utfmin_def nk_utfmax_def)
  consider "u \<le> 0x7F" | "\<not> u \<le> 0x7F" "u \<le> 0x7FF" | "\<not> u \<le> 0x7FF" "u \<le> 0xFFFF" | "\<not> u \<le> 0xFFFF" by blast
  then show thesis
  proof cases
    case 1
    then have "nk_utf_validate u (Suc 0) = u" using u by (auto simp: nk_utf_validate_def nk_utfmin_def nk_utfmax_def)
    then show ?thesis using that [of "Suc 0"] 1 v l by (simp add: size_cases word_le_nat_alt)
  next
    case 2
    then have "0x80 \<le> u" by (simp add: word_le_nat_alt)
    moreover have "u < 0x7FF" using 2 u by (simp add: order.strict_iff_order)
    ultimately have "nk_utf_validate u 2 = u" using u by (auto simp: nk_utf_validate_def nk_utfmin_def nk_utfmax_def)
    then show ?thesis using that [of 2] 2 v l by (simp add: size_cases word_le_nat_alt)
  next
    case 3
    then have "0x800 \<le> u" by (simp add: word_le_nat_alt)
    moreover have "u < 0xFFFF" using 3 u by (simp add: order.strict_iff_order)
    ultimately have "nk_utf_validate u 3 = u" using u by (auto simp: nk_utf_validate_def nk_utfmin_def nk_utfmax_def)
    then show ?thesis using that [of 3] 3 v l by (simp add: size_cases word_le_nat_alt)
  next
    case 4
    then have "0x10000 \<le> u" by (simp add: word_le_nat_alt)
    moreover have "u < 0x10FFFF" using 4 u by (simp add: order.strict_iff_order)
    ultimately have "nk_utf_validate u 4 = u" using u by (auto simp: nk_utf_validate_def nk_utfmin_def nk_utfmax_def)
    then show ?thesis using that [of 4] 4 u(1) v l by (simp add: size_cases word_le_nat_alt word_less_nat_alt)
  qed
qed

lemma encode_plain:
  assumes "plain_rune u"
  obtains bs where "\<And>clen. length bs \<le> clen \<Longrightarrow> nk_utf_encode u clen = Some bs" "0 < length bs" "length bs \<le> 4"
    "\<And>pre suf v clen. length bs \<le> clen \<Longrightarrow> nk_utf_decode (pre @ bs @ suf) (length pre) v clen = Some (length bs, u)"
proof -
  obtain n where n: "nk_utf_size u = Some n" "0 < n" "n \<le> 4" "nk_utf_validate u 0 = u" "nk_utf_validate u n = u" "length (utf_bytes n u) = n"
    "n = Suc 0 \<and> unat u < 128 \<or> n = 2 \<and> unat u < 2048 \<or> n = 3 \<and> unat u < 65536 \<or> n = 4 \<and> unat u < 2097152"
    using plain_sizes [OF assms] by blast
  show thesis
  proof (rule that [of "utf_bytes n u"])
    show "nk_utf_encode u clen = Some (utf_bytes n u)" if "length (utf_bytes n u) \<le> clen" for clen
      using that n(1-4,6) by (simp add: nk_utf_encode_def Let_def split: prod.splits)
    show "nk_utf_decode (pre @ utf_bytes n u @ suf) (length pre) v clen = Some (length (utf_bytes n u), u)"
      if "length (utf_bytes n u) \<le> clen" for pre suf v clen
      using decode_sizes [OF that n(7)] n(5,6) by (simp del: utf_bytes.simps)
  qed (use n in \<open>simp_all del: utf_bytes.simps\<close>)
qed

text \<open>What a decoded character can be: one that passes the check of Nuklear, or the replacement character.\<close>

definition rune_ok :: "32 word \<Rightarrow> bool" where
  "rune_ok u \<longleftrightarrow> u = NK_UTF_INVALID \<or> u < 0x10FFFF \<and> \<not> (0xD800 \<le> u \<and> u < 0xDFFF)"

lemma validate_ok:
  assumes "n \<le> 4"
  shows "rune_ok (nk_utf_validate u n)"
proof -
  from assms have "n \<in> {0, 1, 2, 3, 4}" by auto
  then have "nk_utfmax ! n \<le> 0x10FFFF" by (auto simp: nk_utfmax_def)
  then show ?thesis by (auto simp: nk_utf_validate_def rune_ok_def)
qed

lemma utf_rest_type:
  assumes "utf_rest text p clen len j u = Some r" "j \<le> clen" "j \<le> len"
  shows "(\<exists>k. r = Inl k \<and> k < clen \<and> k < len) \<or> (\<exists>k w. r = Inr (k, w) \<and> k \<le> clen \<and> k \<le> len)"
  using assms
proof (induction "text" p clen len j u arbitrary: r rule: utf_rest.induct)
  case (1 "text" p clen len j u)
  have "utf_rest text p clen len j u = Some r" using "1.prems" by simp
  then show ?case using "1.IH" "1.prems"(2,3) by (subst (asm) utf_rest.simps) (auto split: if_splits prod.splits)
qed

lemma decode_type_aux:
  assumes "nk_utf_decode text p u clen = Some (n, r)" "0 < clen"
  shows "n \<le> 4 \<and> n \<le> clen \<and> rune_ok r"
proof -
  have i: "rune_ok NK_UTF_INVALID" by (simp add: rune_ok_def)
  show ?thesis
    using assms utf_rest_type [of "text" p clen _ 1] i validate_ok
    by (fastforce simp: nk_utf_decode_def split: if_splits prod.splits option.splits sum.splits)
qed

subsection \<open>Typing\<close>

text \<open>The calls of one frame.\<close>

fun type_all :: "8 word list \<Rightarrow> 32 word list \<Rightarrow> nk_keyboard \<Rightarrow> nk_keyboard option" where
  "type_all junk [] kb = Some kb"
| "type_all junk (u # us) kb = nk_input_unicode junk u kb \<bind> type_all junk us"

definition keyboard_ok :: "nk_keyboard \<Rightarrow> bool" where
  "keyboard_ok kb \<longleftrightarrow> length (kb_text kb) = 16 \<and> kb_text_len kb < 16"

lemma utf_rest_total: "p + clen \<le> length text \<Longrightarrow> \<exists>r. utf_rest text p clen len j u = Some r"
proof (induction "text" p clen len j u rule: utf_rest.induct)
  case (1 "text" p clen len j u)
  show ?case by (subst utf_rest.simps) (use 1 in \<open>auto split: prod.splits\<close>)
qed

lemma decode_total:
  assumes "p + clen \<le> length text"
  shows "\<exists>n r. nk_utf_decode text p u clen = Some (n, r)"
proof -
  obtain v len where b: "nk_utf_decode_byte (text ! p) = (v, len)" by fastforce
  obtain r where "utf_rest text p clen len 1 v = Some r" using utf_rest_total [OF assms] by blast
  then show ?thesis using assms b by (auto simp: nk_utf_decode_def split: sum.splits)
qed

lemma encode_total: "\<exists>bs. nk_utf_encode u clen = Some bs \<and> length bs \<le> clen"
proof -
  let ?u = "nk_utf_validate u 0"
  have "?u \<le> 0x10FFFF" using validate_ok [of 0 u] by (auto simp: rune_ok_def NK_UTF_INVALID_def)
  then have "\<exists>n. nk_utf_size ?u = Some n \<and> n \<in> {Suc 0, 2, 3, 4}" by (simp add: size_cases)
  then obtain n where n: "nk_utf_size ?u = Some n" "n \<in> {Suc 0, 2, 3, 4}" by blast
  then have "length (utf_bytes n ?u) = n" by (auto simp: utf_bytes_sizes simp del: utf_bytes.simps)
  then show ?thesis using n(1) by (auto simp: nk_utf_encode_def Let_def split: prod.splits)
qed

lemma write_at_Some: "p + length bs \<le> length a \<Longrightarrow> \<exists>a'. write_at p bs a = Some a' \<and> length a' = length a"
  by (simp add: write_at_def)

lemma input_unicode_safe:
  assumes "keyboard_ok kb" "length junk = 4"
  shows "\<exists>kb'. nk_input_unicode junk u kb = Some kb' \<and> keyboard_ok kb' \<and> kb_text_len kb \<le> kb_text_len kb'"
proof -
  obtain bs where bs: "nk_utf_encode u 4 = Some bs" "length bs \<le> 4" using encode_total by blast
  then obtain g where g: "write_at 0 bs junk = Some g" "length g = 4" using write_at_Some [of 0 bs junk] assms(2) by auto
  then obtain n r where d: "nk_utf_decode g 0 0 4 = Some (n, r)" using decode_total [of 0 4 g 0] by auto
  obtain cs where cs: "nk_utf_encode r (16 - kb_text_len kb) = Some cs" "length cs \<le> 16 - kb_text_len kb" using encode_total by blast
  have k: "length (kb_text kb) = 16" "kb_text_len kb < 16" using assms(1) by (simp_all add: keyboard_ok_def)
  have "kb_text_len kb + length cs \<le> 16" using cs(2) k(2) by linarith
  then obtain t where t: "write_at (kb_text_len kb) cs (kb_text kb) = Some t" "length t = 16"
    using write_at_Some [of "kb_text_len kb" cs "kb_text kb"] k by auto
  show ?thesis using bs(1) g(1) d cs(1) t assms(1) by (simp add: nk_input_unicode_def nk_input_glyph_def keyboard_ok_def)
qed

lemma input_unicode_plain:
  assumes "keyboard_ok kb" "length junk = 4" "plain_rune u" "nk_utf_encode u 4 = Some bs" "kb_text_len kb + length bs < 16"
  obtains kb' where "nk_input_unicode junk u kb = Some kb'" "keyboard_ok kb'" "kb_text_len kb' = kb_text_len kb + length bs"
    "take (kb_text_len kb') (kb_text kb') = take (kb_text_len kb) (kb_text kb) @ bs"
proof -
  obtain bs' where e: "\<And>clen. length bs' \<le> clen \<Longrightarrow> nk_utf_encode u clen = Some bs'" "0 < length bs'" "length bs' \<le> 4"
      "\<And>pre suf v clen. length bs' \<le> clen \<Longrightarrow> nk_utf_decode (pre @ bs' @ suf) (length pre) v clen = Some (length bs', u)"
    using encode_plain [OF assms(3)] by blast
  then have [simp]: "bs' = bs" using assms(4) e(1) [of 4] by simp
  have g: "write_at 0 bs junk = Some (bs @ drop (length bs) junk)" using e(3) assms(2) by (simp add: write_at_def)
  have d: "nk_utf_decode (bs @ drop (length bs) junk) 0 0 4 = Some (length bs, u)" using e(4) [of 4 "[]"] e(3) by simp
  have k: "length (kb_text kb) = 16" using assms(1) by (simp add: keyboard_ok_def)
  let ?p = "kb_text_len kb"
  let ?t = "take ?p (kb_text kb) @ bs @ drop (?p + length bs) (kb_text kb)"
  have "write_at ?p bs (kb_text kb) = Some ?t" using assms(5) k by (simp add: write_at_def)
  moreover have "nk_utf_encode u (16 - ?p) = Some bs" using e(1) [of "16 - ?p"] assms(5) by simp
  ultimately have "nk_input_unicode junk u kb = Some \<lparr>kb_text = ?t, kb_text_len = ?p + length bs\<rparr>"
    using assms(4,5) g d e(2) by (auto simp: nk_input_unicode_def nk_input_glyph_def)
  then show thesis by (rule that) (use assms(5) k in \<open>simp_all add: keyboard_ok_def\<close>)
qed

definition utf8 :: "32 word \<Rightarrow> 8 word list" where
  "utf8 u = the (nk_utf_encode u 4)"

lemma type_all_plain:
  assumes "length junk = 4"
  shows "keyboard_ok kb \<Longrightarrow> list_all plain_rune us \<Longrightarrow> kb_text_len kb + length (concat (map utf8 us)) < 16 \<Longrightarrow>
    \<exists>kb'. type_all junk us kb = Some kb' \<and> kb_text_len kb' = kb_text_len kb + length (concat (map utf8 us))
      \<and> take (kb_text_len kb') (kb_text kb') = take (kb_text_len kb) (kb_text kb) @ concat (map utf8 us)"
proof (induction us arbitrary: kb)
  case (Cons u us)
  obtain bs where bs: "nk_utf_encode u 4 = Some bs" using encode_total by blast
  then have u: "utf8 u = bs" by (simp add: utf8_def)
  obtain k1 where k1: "nk_input_unicode junk u kb = Some k1" "keyboard_ok k1" "kb_text_len k1 = kb_text_len kb + length bs"
      "take (kb_text_len k1) (kb_text k1) = take (kb_text_len kb) (kb_text kb) @ bs"
    using input_unicode_plain [OF Cons.prems(1) assms _ bs] Cons.prems u by auto
  then show ?case using Cons.IH [OF k1(2)] Cons.prems u by auto
qed simp


subsection \<open>Counting\<close>

declare utf_len_loop.simps [code]

lemma utf8_decode:
  assumes "plain_rune u" "length (utf8 u) \<le> clen"
  shows "nk_utf_decode (pre @ utf8 u @ suf) (length pre) v clen = Some (length (utf8 u), u)" "0 < length (utf8 u)"
proof -
  obtain bs where e: "\<And>clen. length bs \<le> clen \<Longrightarrow> nk_utf_encode u clen = Some bs" "0 < length bs" "length bs \<le> 4"
      "\<And>pre suf v clen. length bs \<le> clen \<Longrightarrow> nk_utf_decode (pre @ bs @ suf) (length pre) v clen = Some (length bs, u)"
    using encode_plain [OF assms(1)] by blast
  then have b: "utf8 u = bs" using e(1) [of 4] by (simp add: utf8_def)
  show "nk_utf_decode (pre @ utf8 u @ suf) (length pre) v clen = Some (length (utf8 u), u)" "0 < length (utf8 u)"
    using e(2,4) assms(2) by (simp_all add: b)
qed

lemma utf_len_loop_counts:
  "list_all plain_rune (u # us) \<Longrightarrow> len = length pre + length (concat (map utf8 (u # us)))
   \<Longrightarrow> utf_len_loop (pre @ concat (map utf8 (u # us)) @ suf) len (length pre) v (length (utf8 u)) k = Some (k + length (u # us))"
proof (induction us arbitrary: u pre v k)
  case Nil
  have p: "0 < length (utf8 u)" using utf8_decode(2) Nil.prems by auto
  have e: "utf_len_loop t n n' w 0 m = Some m" for t n n' w m by (subst utf_len_loop.simps) simp
  show ?case using p Nil.prems by (subst utf_len_loop.simps) (simp add: nk_utf_decode_def e)
next
  case (Cons u' us)
  have p: "0 < length (utf8 u)" using utf8_decode(2) [of u] Cons.prems by auto
  let ?t = "pre @ concat (map utf8 (u # u' # us)) @ suf" and ?p = "length pre + length (utf8 u)"
  have t: "?t = (pre @ utf8 u) @ concat (map utf8 (u' # us)) @ suf" by simp
  have "nk_utf_decode ((pre @ utf8 u) @ utf8 u' @ concat (map utf8 us) @ suf) (length (pre @ utf8 u)) v (len - ?p) = Some (length (utf8 u'), u')"
    using Cons.prems by (intro utf8_decode) auto
  then have d: "nk_utf_decode ?t ?p v (len - ?p) = Some (length (utf8 u'), u')" by simp
  have "utf_len_loop ?t len (length pre) v (length (utf8 u)) k = utf_len_loop ?t len ?p u' (length (utf8 u')) (Suc k)"
    using p d Cons.prems(2) by (subst utf_len_loop.simps) simp
  also have "\<dots> = Some (Suc k + length (u' # us))"
    using Cons.IH [of u' "pre @ utf8 u" u' "Suc k"] Cons.prems unfolding t by simp
  finally show ?case by simp
qed

subsection \<open>UTF-8\<close>

text \<open>The encoding of RFC 3629, by arithmetic.\<close>

definition rfc3629 :: "nat \<Rightarrow> 8 word list" where
  "rfc3629 n = map of_nat
     (if n < 0x80 then [n]
      else if n < 0x800 then [0xC0 + n div 64, 0x80 + n mod 64]
      else if n < 0x10000 then [0xE0 + n div 4096, 0x80 + n div 64 mod 64, 0x80 + n mod 64]
      else [0xF0 + n div 262144, 0x80 + n div 4096 mod 64, 0x80 + n div 64 mod 64, 0x80 + n mod 64])"

definition byte_kind :: "nat \<Rightarrow> nat \<times> nat" where
  "byte_kind n =
     (if n < 128 then (n, 1) else if n < 192 then (n - 128, 0) else if n < 224 then (n - 192, 2)
      else if n < 240 then (n - 224, 3) else if n < 248 then (n - 240, 4) else (0, 5))"

lemma byte_kind_table:
  "list_all (\<lambda>n. nk_utf_decode_byte (of_nat n) = (case byte_kind n of (v, l) \<Rightarrow> (of_nat v, l))) [0..<256]"
  by code_simp

lemma decode_byte_kind:
  assumes "nk_utf_decode_byte b = (v, l)"
  shows "byte_kind (unat b) = (unat v, l)"
proof -
  have n: "unat b < 256" using unsigned_less [of b] by simp
  then have "nk_utf_decode_byte (of_nat (unat b)) = (case byte_kind (unat b) of (v, l) \<Rightarrow> (of_nat v, l))"
    using byte_kind_table unfolding list_all_iff by (metis atLeastLessThan_iff set_upt zero_le)
  moreover obtain v' l' where k: "byte_kind (unat b) = (v', l')" by fastforce
  ultimately have "v = of_nat v'" "l = l'" using assms by simp_all
  moreover have "v' < 256" using k n by (auto simp: byte_kind_def split: if_splits)
  ultimately show ?thesis using k by (simp add: unat_of_nat take_bit_nat_eq_self)
qed

lemma unat_join6:
  fixes v w :: "32 word"
  assumes "unat v < 2 ^ 26" "unat w < 64"
  shows "unat (push_bit 6 v OR w) = unat v * 64 + unat w"
proof -
  have w: "take_bit 6 w = w" using assms(2) by (intro take_small) (simp add: word_less_nat_alt)
  have "push_bit 6 v AND take_bit 6 w = 0" by (rule bit_word_eqI) (auto simp: bit_simps)
  then have "push_bit 6 v OR w = push_bit 6 v + w" using w by (metis disjunctive_add_eq_or)
  moreover have "unat (push_bit 6 v) = unat v * 64"
    using assms(1) by (simp add: push_bit_eq_mult unat_word_ariths)
  ultimately show ?thesis using assms by (simp add: unat_word_ariths)
qed

lemma utf_rest_value:
  assumes "utf_rest str p clen len j v = Some (Inr (len, ud))" "j \<le> len" "len \<le> 4" "0 < j" "unat v < 8 * 64 ^ j"
  shows "\<exists>ks. length ks = len - j \<and> (\<forall>k\<in>set ks. k < 64) \<and> take (len - j) (drop (p + j) str) = map (\<lambda>k. of_nat (128 + k)) ks
    \<and> unat ud = foldl (\<lambda>a k. a * 64 + k) (unat v) ks"
  using assms
proof (induction "len - j" arbitrary: j v)
  case 0
  then show ?case by (subst (asm) utf_rest.simps) auto
next
  case (Suc d)
  then have j: "j < len" by simp
  have r: "j < clen" "p + j < length str" using Suc.prems(1) j by (subst (asm) utf_rest.simps, auto split: if_splits)+
  obtain w l where w: "nk_utf_decode_byte (str ! (p + j)) = (w, l)" by fastforce
  have s: "l = 0" "utf_rest str p clen len (Suc j) (push_bit 6 v OR w) = Some (Inr (len, ud))"
    using Suc.prems(1) j r w by (subst (asm) utf_rest.simps, auto split: if_splits)+
  have k: "128 \<le> unat (str ! (p + j))" "unat (str ! (p + j)) < 192" "unat w = unat (str ! (p + j)) - 128"
    using decode_byte_kind [OF w] s(1) by (auto simp: byte_kind_def split: if_splits)
  have "j \<le> 3" using j Suc.prems(3) by simp
  then have "(64 :: nat) ^ j \<le> 64 ^ 3" by (intro power_increasing) simp_all
  then have "unat v < 2 ^ 26" using Suc.prems(5) by simp
  then have u: "unat (push_bit 6 v OR w) = unat v * 64 + unat w" using k by (intro unat_join6) auto
  have "unat v * 64 + unat w < 8 * 64 ^ Suc j" using Suc.prems(5) k by simp
  moreover have "d = len - Suc j" using Suc.hyps(2) by simp
  ultimately obtain ks where ks: "length ks = len - Suc j" "\<forall>k\<in>set ks. k < 64"
      "take (len - Suc j) (drop (p + Suc j) str) = map (\<lambda>k. of_nat (128 + k)) ks"
      "unat ud = foldl (\<lambda>a k. a * 64 + k) (unat v * 64 + unat w) ks"
    using Suc.hyps(1) [OF _ s(2)] Suc.prems(3) j u by auto
  have "take (len - j) (drop (p + j) str) = str ! (p + j) # take (len - Suc j) (drop (p + Suc j) str)"
    using j r(2) by (simp add: Cons_nth_drop_Suc [symmetric] Suc_diff_Suc [symmetric])
  also have "str ! (p + j) = of_nat (128 + unat w)" using k by simp
  finally show ?case using ks k(2,3) j by (intro exI [of _ "unat w # ks"]) auto
qed

lemma decode_parts:
  assumes "nk_utf_decode str p u clen = Some (n, r)" "0 < clen" "r \<noteq> NK_UTF_INVALID"
  obtains v where "p < length str" "nk_utf_decode_byte (str ! p) = (v, n)" "1 \<le> n" "n \<le> 4"
    "utf_rest str p clen n 1 v = Some (Inr (n, r))" "nk_utfmin ! n \<le> r" "r < nk_utfmax ! n"
proof -
  have p: "p < length str" using assms(1,2) by (auto simp: nk_utf_decode_def split: if_splits)
  obtain v len where v: "nk_utf_decode_byte (str ! p) = (v, len)" by fastforce
  have l: "1 \<le> len" "len \<le> 4" using assms p v by (auto simp: nk_utf_decode_def split: if_splits)
  obtain j ud where ud: "utf_rest str p clen len 1 v = Some (Inr (j, ud))" "\<not> j < len" "n = len" "r = nk_utf_validate ud len"
    using assms p v l by (auto simp: nk_utf_decode_def split: option.splits sum.splits prod.splits if_splits)
  have "j \<le> len" using utf_rest_type [OF ud(1)] assms(2) l(1) by auto
  then have "j = len" using ud(2) by simp
  moreover have "ud = r" "nk_utfmin ! len \<le> ud" "ud < nk_utfmax ! len"
    using ud(4) assms(3) by (auto simp: nk_utf_validate_def split: if_splits)
  ultimately show thesis using that [of v] p v l ud(1,3) by simp
qed

lemma div_mod_64:
  assumes "(k :: nat) < 64"
  shows "(a * 64 + k) div 64 = a" "(a * 64 + k) mod 64 = k" "(a * 64 + k) div 4096 = a div 64" "(a * 64 + k) div 262144 = a div 4096"
proof -
  show 1: "(a * 64 + k) div 64 = a" "(a * 64 + k) mod 64 = k" using assms by simp_all
  have "(a * 64 + k) div 4096 = (a * 64 + k) div 64 div 64" "(a * 64 + k) div 262144 = (a * 64 + k) div 64 div 4096"
    by (simp_all add: div_mult2_eq [symmetric])
  then show "(a * 64 + k) div 4096 = a div 64" "(a * 64 + k) div 262144 = a div 4096" using 1 by simp_all
qed

lemma rfc3629_join:
  "k1 < 64 \<Longrightarrow> 0x80 \<le> a * 64 + k1 \<Longrightarrow> a * 64 + k1 < 0x800 \<Longrightarrow> rfc3629 (a * 64 + k1) = map of_nat [0xC0 + a, 128 + k1]"
  "k1 < 64 \<Longrightarrow> k2 < 64 \<Longrightarrow> 0x800 \<le> (a * 64 + k1) * 64 + k2 \<Longrightarrow> (a * 64 + k1) * 64 + k2 < 0x10000 \<Longrightarrow>
     rfc3629 ((a * 64 + k1) * 64 + k2) = map of_nat [0xE0 + a, 128 + k1, 128 + k2]"
  "k1 < 64 \<Longrightarrow> k2 < 64 \<Longrightarrow> k3 < 64 \<Longrightarrow> 0x10000 \<le> ((a * 64 + k1) * 64 + k2) * 64 + k3 \<Longrightarrow>
     rfc3629 (((a * 64 + k1) * 64 + k2) * 64 + k3) = map of_nat [0xF0 + a, 128 + k1, 128 + k2, 128 + k3]"
  unfolding rfc3629_def by (simp_all only: div_mod_64 not_less [symmetric] if_False if_True) (simp_all add: div_mod_64)

lemma decode_shortest:
  assumes "nk_utf_decode str p u clen = Some (n, r)" "0 < clen" "r \<noteq> NK_UTF_INVALID"
  shows "take n (drop p str) = rfc3629 (unat r)"
proof -
  obtain v where v: "p < length str" "nk_utf_decode_byte (str ! p) = (v, n)" "1 \<le> n" "n \<le> 4"
      "utf_rest str p clen n 1 v = Some (Inr (n, r))" "nk_utfmin ! n \<le> r" "r < nk_utfmax ! n"
    using decode_parts [OF assms] by blast
  have k: "byte_kind (unat (str ! p)) = (unat v, n)" by (rule decode_byte_kind [OF v(2)])
  have b: "unat (str ! p) < 256" using unsigned_less [of "str ! p"] by simp
  have "unat v < 8 * 64 ^ 1" using k b by (auto simp: byte_kind_def split: if_splits)
  then obtain ks where ks: "length ks = n - 1" "\<forall>k\<in>set ks. k < 64" "take (n - 1) (drop (p + 1) str) = map (\<lambda>k. of_nat (128 + k)) ks"
      "unat r = foldl (\<lambda>a k. a * 64 + k) (unat v) ks"
    using utf_rest_value [OF v(5) v(3,4) zero_less_one] by blast
  have h: "take n (drop p str) = str ! p # map (\<lambda>k. of_nat (128 + k)) ks"
    using ks(3) v(1,3) by (cases n) (simp_all add: Cons_nth_drop_Suc [symmetric])
  have m: "unat (nk_utfmin ! n) \<le> unat r" "unat r < unat (nk_utfmax ! n)" using v(6,7) by (simp_all add: word_le_nat_alt word_less_nat_alt)
  have c: "str ! p = of_nat (unat (str ! p))" by simp
  consider "n = 1" | "n = 2" | "n = 3" | "n = 4" using v(3,4) by linarith
  then show ?thesis
  proof cases
    case 1
    then have "ks = []" "unat v = unat (str ! p)" "unat v < 128" using ks(1) k by (auto simp: byte_kind_def split: if_splits)
    then show ?thesis using ks(4) h c by (simp add: rfc3629_def)
  next
    case 2
    then obtain k1 where ks': "ks = [k1]" "k1 < 64" using ks(1,2) by (cases ks) auto
    have r: "unat r = unat v * 64 + k1" using ks(4) ks'(1) by simp
    have "0x80 \<le> unat r" "unat r < 0x800" using m 2 by (simp_all add: nk_utfmin_def nk_utfmax_def)
    then have "rfc3629 (unat r) = map of_nat [0xC0 + unat v, 128 + k1]" unfolding r by (rule rfc3629_join(1) [OF ks'(2)])
    moreover have "unat (str ! p) = 192 + unat v" using 2 k by (auto simp: byte_kind_def split: if_splits)
    ultimately show ?thesis using h ks'(1) c by simp
  next
    case 3
    then obtain k1 k2 where ks': "ks = [k1, k2]" "k1 < 64" "k2 < 64" using ks(1,2) by (cases ks; cases "tl ks") auto
    have r: "unat r = (unat v * 64 + k1) * 64 + k2" using ks(4) ks'(1) by simp
    have "0x800 \<le> unat r" "unat r < 0x10000" using m 3 by (simp_all add: nk_utfmin_def nk_utfmax_def)
    then have "rfc3629 (unat r) = map of_nat [0xE0 + unat v, 128 + k1, 128 + k2]" unfolding r by (rule rfc3629_join(2) [OF ks'(2,3)])
    moreover have "unat (str ! p) = 224 + unat v" using 3 k by (auto simp: byte_kind_def split: if_splits)
    ultimately show ?thesis using h ks'(1) c by simp
  next
    case 4
    then obtain k1 k2 k3 where ks': "ks = [k1, k2, k3]" "k1 < 64" "k2 < 64" "k3 < 64"
      using ks(1,2) by (cases ks; cases "tl ks"; cases "tl (tl ks)") auto
    have r: "unat r = ((unat v * 64 + k1) * 64 + k2) * 64 + k3" using ks(4) ks'(1) by simp
    have "0x10000 \<le> unat r" using m 4 by (simp add: nk_utfmin_def)
    then have "rfc3629 (unat r) = map of_nat [0xF0 + unat v, 128 + k1, 128 + k2, 128 + k3]"
      unfolding r by (rule rfc3629_join(3) [OF ks'(2-4)])
    moreover have "unat (str ! p) = 240 + unat v" using 4 k by (auto simp: byte_kind_def split: if_splits)
    ultimately show ?thesis using h ks'(1) c by simp
  qed
qed

lemma utf8_rfc:
  assumes "plain_rune u"
  shows "utf8 u = rfc3629 (unat u)"
proof (cases "u = NK_UTF_INVALID")
  case True
  have "utf8 0xFFFD = [0xEF, 0xBF, 0xBD]" by code_simp
  then show ?thesis using True by (simp add: NK_UTF_INVALID_def rfc3629_def)
next
  case False
  have "nk_utf_decode ([] @ utf8 u @ []) (length ([] :: 8 word list)) 0 (length (utf8 u)) = Some (length (utf8 u), u)"
    using assms by (intro utf8_decode) auto
  moreover have "0 < length (utf8 u)" using utf8_decode(2) [OF assms] by auto
  ultimately show ?thesis using decode_shortest [of "utf8 u" 0 0 "length (utf8 u)" "length (utf8 u)" u] False by simp
qed

section \<open>Properties\<close>

text \<open>
  C40 (decoded_rune_valid). Decoding reads only the bytes it is given and ends. Either it yields the replacement character, or the
  bytes it takes are exactly the UTF-8 encoding of the character it yields, so that no longer form than the shortest is
  accepted; that character is below \<open>U+10FFFF\<close> and none of the surrogates \<open>U+D800\<close> to \<open>U+DFFE\<close>.
\<close>

theorem decoded_rune_valid:
  assumes "p + clen \<le> length str" "0 < clen"
  shows "\<exists>n r. nk_utf_decode str p u clen = Some (n, r) \<and> n \<le> 4 \<and> n \<le> clen
    \<and> (r = 0xFFFD \<or> take n (drop p str) = rfc3629 (unat r) \<and> unat r < 0x10FFFF \<and> \<not> (0xD800 \<le> unat r \<and> unat r < 0xDFFF))"
proof -
  obtain n r where d: "nk_utf_decode str p u clen = Some (n, r)" using decode_total [OF assms(1), of u] by auto
  have t: "n \<le> 4 \<and> n \<le> clen \<and> rune_ok r" by (rule decode_type_aux [OF d assms(2)])
  show ?thesis
    using d t decode_shortest [OF d assms(2)] by (auto simp: rune_ok_def NK_UTF_INVALID_def word_less_nat_alt word_le_nat_alt)
qed

text \<open>
  C38 (utf8_roundtrip). Every character below \<open>U+10FFFF\<close> other than \<open>U+007F\<close>, \<open>U+07FF\<close>, \<open>U+FFFF\<close> and the surrogates \<open>U+D800\<close> to \<open>U+DFFE\<close> is
  encoded as RFC 3629 says and decoded again to itself, wherever the bytes stand in a text and whatever follows them; the
  number of characters of a text is counted right.
\<close>

theorem utf8_roundtrip:
  assumes "list_all plain_rune us" "us \<noteq> []"
  shows "\<exists>bss. list_all2 (\<lambda>u bs. nk_utf_encode u 4 = Some bs \<and> bs = rfc3629 (unat u)
      \<and> (\<forall>pre suf v. nk_utf_decode (pre @ bs @ suf) (length pre) v (length bs) = Some (length bs, u))) us bss
    \<and> nk_utf_len (concat bss @ rest) (length (concat bss)) = Some (length us)"
proof (intro exI conjI)
  show "list_all2 (\<lambda>u bs. nk_utf_encode u 4 = Some bs \<and> bs = rfc3629 (unat u)
      \<and> (\<forall>pre suf v. nk_utf_decode (pre @ bs @ suf) (length pre) v (length bs) = Some (length bs, u))) us (map utf8 us)"
    using assms(1)
  proof (induction us)
    case (Cons u us)
    obtain bs where bs: "nk_utf_encode u 4 = Some bs" using encode_total by blast
    then have "utf8 u = bs" by (simp add: utf8_def)
    moreover have "utf8 u = rfc3629 (unat u)" using utf8_rfc Cons.prems by simp
    ultimately show ?case using Cons bs utf8_decode [of u "length bs"] by auto
  qed simp
  obtain u us' where us: "us = u # us'" using assms(2) by (cases us) auto
  let ?t = "concat (map utf8 us) @ rest" and ?n = "length (concat (map utf8 us))"
  have "nk_utf_decode ([] @ utf8 u @ concat (map utf8 us') @ rest) (length ([] :: 8 word list)) 0 ?n = Some (length (utf8 u), u)"
    using assms(1) us by (intro utf8_decode) auto
  then have "nk_utf_decode ?t 0 0 ?n = Some (length (utf8 u), u)" by (simp add: us)
  moreover have "0 < ?n" using utf8_decode(2) [of u] assms(1) us by auto
  moreover have "utf_len_loop ?t ?n 0 u (length (utf8 u)) 0 = Some (length us)"
    using utf_len_loop_counts [of u us' ?n "[]" rest u 0] assms(1) us by simp
  ultimately show "nk_utf_len ?t ?n = Some (length us)" by (auto simp: nk_utf_len_def)
qed

text \<open>
  C39 (typed_text_kept). Whatever characters a frame brings, the text of the keyboard stays inside its 16 bytes; as long as
  they fit with one byte to spare, characters that are no upper bound of a size are appended in UTF-8, in order.
\<close>

theorem typed_text_kept:
  assumes "length (kb_text kb) = 16" "kb_text_len kb < 16" "length junk = 4"
  shows "\<exists>kb'. type_all junk us kb = Some kb' \<and> length (kb_text kb') = 16 \<and> kb_text_len kb' < 16
    \<and> (list_all plain_rune us \<and> kb_text_len kb + length (concat (map utf8 us)) < 16
       \<longrightarrow> take (kb_text_len kb') (kb_text kb') = take (kb_text_len kb) (kb_text kb) @ concat (map utf8 us))"
proof -
  have safe: "keyboard_ok kb \<Longrightarrow> \<exists>kb'. type_all junk us kb = Some kb' \<and> keyboard_ok kb'" for kb
  proof (induction us arbitrary: kb)
    case (Cons u us)
    then show ?case using input_unicode_safe [OF Cons.prems assms(3), of u] by auto
  qed simp
  have k: "keyboard_ok kb" using assms(1,2) by (simp add: keyboard_ok_def)
  obtain kb' where kb': "type_all junk us kb = Some kb'" "keyboard_ok kb'" using safe [OF k] by blast
  then show ?thesis using type_all_plain [OF assms(3) k, of us] by (auto simp: keyboard_ok_def)
qed

theorem decoded_rune_valid_witness:
  "\<exists>n r. nk_utf_decode [0xC3, 0xA9, 0x41] 0 0 3 = Some (n, r) \<and> take n [0xC3, 0xA9, 0x41] = rfc3629 (unat r) \<and> r \<noteq> 0xFFFD"
proof -
  have "nk_utf_decode [0xC3, 0xA9, 0x41] 0 0 3 = Some (2, 0xE9)" by code_simp
  then show ?thesis using decoded_rune_valid [of 0 3 "[0xC3, 0xA9, 0x41]" 0] by auto
qed

theorem utf8_roundtrip_witness:
  "\<exists>bss. list_all2 (\<lambda>u bs. nk_utf_encode u 4 = Some bs \<and> bs = rfc3629 (unat u)
      \<and> (\<forall>pre suf v. nk_utf_decode (pre @ bs @ suf) (length pre) v (length bs) = Some (length bs, u))) [0x41, 0xE9, 0x20AC, 0x1F600] bss
    \<and> nk_utf_len (concat bss @ [0]) (length (concat bss)) = Some (length [0x41, 0xE9, 0x20AC, 0x1F600 :: 32 word])"
  by (rule utf8_roundtrip) (simp_all add: plain_rune_def)

theorem typed_text_kept_witness:
  "\<exists>kb'. type_all [0, 0, 0, 0] [0x65, 0xE9] \<lparr>kb_text = replicate 16 0, kb_text_len = 0\<rparr> = Some kb' \<and> kb_text_len kb' < 16
    \<and> take (kb_text_len kb') (kb_text kb') = [0x65, 0xC3, 0xA9]"
proof -
  have u: "concat (map utf8 [0x65, 0xE9]) = [0x65, 0xC3, 0xA9]" by code_simp
  have "list_all plain_rune [0x65, 0xE9]" by (simp add: plain_rune_def)
  then show ?thesis
    using typed_text_kept [of "\<lparr>kb_text = replicate 16 0, kb_text_len = 0\<rparr>" "[0, 0, 0, 0]" "[0x65, 0xE9]", unfolded u] by auto
qed

text \<open>
  The upper bounds are lost: \<open>U+07FF\<close> is encoded in two bytes, decoded to the replacement character, and of its three
  bytes only two are counted as text, which then is no UTF-8. The surrogate \<open>U+DFFF\<close> is accepted.
\<close>

lemma upper_bound_truncated:
  "map_option (\<lambda>kb. take (kb_text_len kb) (kb_text kb)) (nk_input_unicode [0, 0, 0, 0] 0x7FF \<lparr>kb_text = replicate 16 0, kb_text_len = 0\<rparr>)
   = Some [0xEF, 0xBF]"
  "nk_utf_encode 0xDFFF 4 \<bind> (\<lambda>bs. nk_utf_decode bs 0 0 3) = Some (3, 0xDFFF)"
  by code_simp+

end
