(* ===== verification/Edit.thy ===== *)
theory Edit
  imports Utf8 Windows
begin

text \<open>
  The edit fields of the dialogues: \<^verbatim>\<open>nk_edit_string\<close> of \<^verbatim>\<open>nuklear.h\<close> with the text operations below it, on the bytes
  of the fixed buffer the program passes. A load or a store outside an array has the result \<open>None\<close>.

  The program passes four keys to the fields (Backspace, Enter, Left and Right) and never the shift state, and its
  fields are \<^verbatim>\<open>NK_EDIT_FIELD\<close>: one line, always in insert mode. Left out are the undo history, which \<^verbatim>\<open>nk_edit_string\<close>
  clears in every call and no key of the program reaches, the clip board, whose keys the program does not pass, and
  the preferred column of fields with several lines. Where the mouse points in the text is an input.

  The characters the keyboard tables give are ASCII; for these the fields are shown to refine an editor on lists of
  characters.
\<close>

section \<open>Model\<close>

unbundle bit_operations_syntax

subsection \<open>Strings in a fixed buffer\<close>

record nk_str =
  st_mem :: "8 word list"
  st_size :: nat
  st_alloc :: nat
  st_len :: nat

partial_function (option) at_rune_loop :: "8 word list \<Rightarrow> nat \<Rightarrow> nat \<Rightarrow> nat \<Rightarrow> nat \<Rightarrow> nat \<Rightarrow> nat \<Rightarrow> 32 word \<Rightarrow> (nat \<times> nat) option" where
  "at_rune_loop mem base text_len pos i src_len glyph_len u =
     (if glyph_len \<noteq> 0
      then (if i = pos then Some (i, src_len)
            else (case nk_utf_decode mem (base + src_len + glyph_len) u (text_len - (src_len + glyph_len)) of
                    None \<Rightarrow> None
                  | Some (n, u') \<Rightarrow> at_rune_loop mem base text_len pos (Suc i) (src_len + glyph_len) n u'))
      else Some (i, src_len))"

text \<open>\<^verbatim>\<open>nk_str_at_rune\<close> on the text at \<open>base\<close>; the inner \<open>None\<close> is the result \<^verbatim>\<open>NULL\<close>.\<close>

definition nk_str_at_rune :: "8 word list \<Rightarrow> nat \<Rightarrow> nat \<Rightarrow> nat \<Rightarrow> nat option option" where
  "nk_str_at_rune mem base text_len pos =
     (case nk_utf_decode mem base 0 text_len of
        None \<Rightarrow> None
      | Some (n, u) \<Rightarrow>
          map_option (\<lambda>(i, src_len). if i \<noteq> pos then None else Some (base + src_len))
            (at_rune_loop mem base text_len pos 0 0 n u))"

text \<open>\<^verbatim>\<open>str\<close> are the bytes at the pointer.\<close>

definition nk_str_append_text_char :: "8 word list \<Rightarrow> nat \<Rightarrow> nk_str \<Rightarrow> nk_str option" where
  "nk_str_append_text_char str len s =
     (if len = 0 \<or> st_alloc s + len > st_size s then Some s
      else if length str < len then None
      else do {
        mem \<leftarrow> write_at (st_alloc s) (take len str) (st_mem s);
        n \<leftarrow> nk_utf_len str len;
        Some (s\<lparr>st_mem := mem, st_alloc := st_alloc s + len, st_len := st_len s + n\<rparr>)
      })"

text \<open>\<^verbatim>\<open>*dst-- = *src--\<close>, \<open>n\<close> times, from the end of the text on.\<close>

fun move_up :: "nat \<Rightarrow> nat \<Rightarrow> nat \<Rightarrow> 8 word list \<Rightarrow> 8 word list option" where
  "move_up 0 pos len mem = Some mem"
| "move_up (Suc n) pos len mem =
     (if pos + len + n < length mem then move_up n pos len (mem[pos + len + n := mem ! (pos + n)]) else None)"

definition nk_str_insert_at_char :: "nat \<Rightarrow> 8 word list \<Rightarrow> nat \<Rightarrow> nk_str \<Rightarrow> nk_str option" where
  "nk_str_insert_at_char pos str len s =
     (if len = 0 \<or> pos > st_alloc s \<or> st_alloc s + len \<ge> st_size s then Some s
      else if st_alloc s - pos = 0 then nk_str_append_text_char str len s
      else if length str < len then None
      else do {
        m1 \<leftarrow> move_up (st_alloc s - pos) pos len (st_mem s);
        m2 \<leftarrow> write_at pos (take len str) m1;
        n \<leftarrow> nk_utf_len m2 (st_alloc s + len);
        Some (s\<lparr>st_mem := m2, st_alloc := st_alloc s + len, st_len := n\<rparr>)
      })"

definition nk_str_insert_at_rune :: "nat \<Rightarrow> 8 word list \<Rightarrow> nat \<Rightarrow> nk_str \<Rightarrow> nk_str option" where
  "nk_str_insert_at_rune pos cstr len s =
     (if len = 0 then Some s
      else do {
        beg \<leftarrow> nk_str_at_rune (st_mem s) 0 (st_alloc s) pos;
        if st_len s = 0 then nk_str_append_text_char cstr len s
        else (case beg of None \<Rightarrow> Some s | Some b \<Rightarrow> nk_str_insert_at_char b cstr len s)
      })"

text \<open>\<^verbatim>\<open>nk_str_insert_text_utf8(str, pos, text + p, 1)\<close>; the result is 1 whether the character was inserted or not.\<close>

definition nk_str_insert_text_utf8 :: "nat \<Rightarrow> 8 word list \<Rightarrow> nat \<Rightarrow> nk_str \<Rightarrow> nk_str option" where
  "nk_str_insert_text_utf8 pos text p s =
     (case nk_utf_decode text p 0 4 of
        None \<Rightarrow> None
      | Some (byte_len, u) \<Rightarrow> nk_str_insert_at_rune pos (drop p text) byte_len s)"

definition nk_str_remove_chars :: "nat \<Rightarrow> nk_str \<Rightarrow> nk_str option" where
  "nk_str_remove_chars len s =
     (if len > st_alloc s then Some s
      else map_option (\<lambda>n. s\<lparr>st_alloc := st_alloc s - len, st_len := n\<rparr>) (nk_utf_len (st_mem s) (st_alloc s - len)))"

text \<open>\<^verbatim>\<open>nk_memcopy\<close> copies upwards when the destination is below the source, so that the ranges may overlap.\<close>

definition copy_down :: "nat \<Rightarrow> nat \<Rightarrow> nat \<Rightarrow> 8 word list \<Rightarrow> 8 word list option" where
  "copy_down dst src n mem =
     (if src + n \<le> length mem then write_at dst (take n (drop src mem)) mem else None)"

definition nk_str_delete_chars :: "nat \<Rightarrow> nat \<Rightarrow> nk_str \<Rightarrow> nk_str option" where
  "nk_str_delete_chars pos len s =
     (if len = 0 \<or> pos > st_alloc s \<or> pos + len > st_alloc s then Some s
      else do {
        s1 \<leftarrow> (if pos + len < st_alloc s
               then map_option (\<lambda>m. s\<lparr>st_mem := m, st_alloc := st_alloc s - len\<rparr>)
                      (copy_down pos (pos + len) (st_alloc s - (pos + len)) (st_mem s))
               else nk_str_remove_chars len s);
        n \<leftarrow> nk_utf_len (st_mem s1) (st_alloc s1);
        Some (s1\<lparr>st_len := n\<rparr>)
      })"

text \<open>The end is sought from there on with the length of the whole text.\<close>

definition nk_str_delete_runes :: "nat \<Rightarrow> nat \<Rightarrow> nk_str \<Rightarrow> nk_str option" where
  "nk_str_delete_runes pos len0 s =
     (let len = (if st_len s < pos + len0 then st_len s - pos else len0) in
      if len = 0 then Some s
      else do {
        beg \<leftarrow> nk_str_at_rune (st_mem s) 0 (st_alloc s) pos;
        (case beg of
           None \<Rightarrow> Some s
         | Some b \<Rightarrow> do {
             fin \<leftarrow> nk_str_at_rune (st_mem s) b (st_alloc s) len;
             (case fin of None \<Rightarrow> Some s | Some e \<Rightarrow> nk_str_delete_chars b (e - b) s)
           })
      })"

subsection \<open>The text editor\<close>

datatype nk_text_edit_mode = ModeView | ModeInsert | ModeReplace

record nk_text_edit =
  te_str :: nk_str
  te_cursor :: nat
  te_start :: nat
  te_end :: nat
  te_mode :: nk_text_edit_mode
  te_single :: bool
  te_active :: bool

definition has_selection :: "nk_text_edit \<Rightarrow> bool" where
  "has_selection t \<longleftrightarrow> te_start t \<noteq> te_end t"

definition nk_textedit_clamp :: "nk_text_edit \<Rightarrow> nk_text_edit" where
  "nk_textedit_clamp t =
     (let n = st_len (te_str t);
          t1 = (if has_selection t
                then (let u = t\<lparr>te_start := (if te_start t > n then n else te_start t), te_end := (if te_end t > n then n else te_end t)\<rparr>
                      in if te_start u = te_end u then u\<lparr>te_cursor := te_start u\<rparr> else u)
                else t)
      in if te_cursor t1 > n then t1\<lparr>te_cursor := n\<rparr> else t1)"

definition nk_textedit_delete :: "nat \<Rightarrow> nat \<Rightarrow> nk_text_edit \<Rightarrow> nk_text_edit option" where
  "nk_textedit_delete pos len t = map_option (\<lambda>s. t\<lparr>te_str := s\<rparr>) (nk_str_delete_runes pos len (te_str t))"

definition nk_textedit_delete_selection :: "nk_text_edit \<Rightarrow> nk_text_edit option" where
  "nk_textedit_delete_selection t0 =
     (let t = nk_textedit_clamp t0 in
      if has_selection t
      then (if te_start t < te_end t
            then map_option (\<lambda>u. u\<lparr>te_end := te_start t, te_cursor := te_start t\<rparr>) (nk_textedit_delete (te_start t) (te_end t - te_start t) t)
            else map_option (\<lambda>u. u\<lparr>te_start := te_end t, te_cursor := te_end t\<rparr>) (nk_textedit_delete (te_end t) (te_start t - te_end t) t))
      else Some t)"

definition nk_textedit_sortselection :: "nk_text_edit \<Rightarrow> nk_text_edit" where
  "nk_textedit_sortselection t = (if te_end t < te_start t then t\<lparr>te_start := te_end t, te_end := te_start t\<rparr> else t)"

definition nk_textedit_move_to_first :: "nk_text_edit \<Rightarrow> nk_text_edit" where
  "nk_textedit_move_to_first t =
     (if has_selection t then (let u = nk_textedit_sortselection t in u\<lparr>te_cursor := te_start u, te_end := te_start u\<rparr>) else t)"

definition nk_textedit_move_to_last :: "nk_text_edit \<Rightarrow> nk_text_edit" where
  "nk_textedit_move_to_last t =
     (if has_selection t
      then (let u = nk_textedit_clamp (nk_textedit_sortselection t) in u\<lparr>te_cursor := te_end u, te_start := te_end u\<rparr>) else t)"

text \<open>One character of the text; the filter of the fields accepts every character.\<close>

definition textedit_char :: "8 word list \<Rightarrow> nat \<Rightarrow> 32 word \<Rightarrow> nk_text_edit \<Rightarrow> nk_text_edit option" where
  "textedit_char text p unicode t =
     (if unicode = 127 \<or> unicode = 10 \<and> te_single t then Some t
      else if \<not> has_selection t \<and> te_cursor t < st_len (te_str t)
      then do {
        s1 \<leftarrow> (if te_mode t = ModeReplace then nk_str_delete_runes (te_cursor t) 1 (te_str t) else Some (te_str t));
        s2 \<leftarrow> nk_str_insert_text_utf8 (te_cursor t) text p s1;
        Some (t\<lparr>te_str := s2, te_cursor := te_cursor t + 1\<rparr>)
      }
      else do {
        u \<leftarrow> nk_textedit_delete_selection t;
        s \<leftarrow> nk_str_insert_text_utf8 (te_cursor u) text p (te_str u);
        Some (u\<lparr>te_str := s, te_cursor := min (te_cursor u + 1) (st_len s)\<rparr>)
      })"

partial_function (option) textedit_loop :: "8 word list \<Rightarrow> nat \<Rightarrow> nat \<Rightarrow> nat \<Rightarrow> 32 word \<Rightarrow> nk_text_edit \<Rightarrow> nk_text_edit option" where
  "textedit_loop text total_len text_len glyph_len unicode t =
     (if text_len < total_len \<and> glyph_len \<noteq> 0
      then do {
        t1 \<leftarrow> textedit_char text text_len unicode t;
        (n, u) \<leftarrow> nk_utf_decode text (text_len + glyph_len) unicode (total_len - (text_len + glyph_len));
        textedit_loop text total_len (text_len + glyph_len) n u t1
      }
      else Some t)"

definition nk_textedit_text :: "8 word list \<Rightarrow> nat \<Rightarrow> nk_text_edit \<Rightarrow> nk_text_edit option" where
  "nk_textedit_text text total_len t =
     (if total_len = 0 \<or> te_mode t = ModeView then Some t
      else do {
        (n, u) \<leftarrow> nk_utf_decode text 0 0 total_len;
        textedit_loop text total_len 0 n u t
      })"

text \<open>The keys the program passes, without shift.\<close>

datatype edit_key = KeyBackspace | KeyLeft | KeyRight

fun nk_textedit_key :: "edit_key \<Rightarrow> nk_text_edit \<Rightarrow> nk_text_edit option" where
  "nk_textedit_key KeyBackspace t =
     (if te_mode t = ModeView then Some t
      else if has_selection t then nk_textedit_delete_selection t
      else (let u = nk_textedit_clamp t in
            if te_cursor u > 0
            then map_option (\<lambda>v. v\<lparr>te_cursor := te_cursor u - 1\<rparr>) (nk_textedit_delete (te_cursor u - 1) 1 u)
            else Some u))"
| "nk_textedit_key KeyLeft t =
     Some (if has_selection t then nk_textedit_move_to_first t
           else if te_cursor t > 0 then t\<lparr>te_cursor := te_cursor t - 1\<rparr> else t)"
| "nk_textedit_key KeyRight t =
     Some (nk_textedit_clamp (if has_selection t then nk_textedit_move_to_last t else t\<lparr>te_cursor := te_cursor t + 1\<rparr>))"

subsection \<open>A field\<close>

text \<open>
  The input of a frame: a left click (inside the field or not), the place in the text a click or a drag over the text
  area points to, the keys pressed, the text of the keyboard and the key Enter.
\<close>

datatype edit_mouse = NoMouse | MouseClick nat | MouseDrag nat

record edit_input =
  ei_click :: "bool option"
  ei_mouse :: edit_mouse
  ei_pressed :: "edit_key \<Rightarrow> bool"
  ei_text :: nk_keyboard
  ei_enter :: bool

definition press_key :: "edit_input \<Rightarrow> edit_key \<Rightarrow> nk_text_edit \<Rightarrow> nk_text_edit option" where
  "press_key ei k t = (if ei_pressed ei k then nk_textedit_key k t else Some t)"

definition place_cursor :: "edit_mouse \<Rightarrow> nk_text_edit \<Rightarrow> nk_text_edit" where
  "place_cursor m t =
     (case m of
        NoMouse \<Rightarrow> t
      | MouseClick p \<Rightarrow> t\<lparr>te_cursor := p, te_start := p, te_end := p\<rparr>
      | MouseDrag p \<Rightarrow> t\<lparr>te_start := (if te_start t = te_end t then te_cursor t else te_start t), te_cursor := p, te_end := p\<rparr>)"

definition nk_textedit_clear_state :: "nk_text_edit \<Rightarrow> nk_text_edit" where
  "nk_textedit_clear_state t = t\<lparr>te_end := 0, te_start := 0, te_cursor := 0, te_single := True, te_mode := ModeView\<rparr>"

text \<open>
  \<^verbatim>\<open>nk_do_edit\<close> up to the drawing: the editor and whether Enter was pressed. Without input (\<open>None\<close>, a window that is not the
  active one) nothing changes. In the search field, which does not signal Enter and whose result is not read, the key types
  a line feed, which a field of one line ignores.
\<close>

definition edit_active :: "edit_input option \<Rightarrow> nk_text_edit \<Rightarrow> nk_text_edit" where
  "edit_active inp t0 =
     (let active = (case inp of None \<Rightarrow> te_active t0 | Some ei \<Rightarrow> (case ei_click ei of None \<Rightarrow> te_active t0 | Some hit \<Rightarrow> hit));
          t1 = t0\<lparr>te_active := active\<rparr>;
          t2 = (if \<not> te_active t0 \<and> active then nk_textedit_clear_state t1
                else if \<not> active then t1\<lparr>te_mode := ModeView\<rparr> else t1)
      in t2\<lparr>te_mode := ModeInsert\<rparr>)"

definition nk_do_edit :: "edit_input option \<Rightarrow> nk_text_edit \<Rightarrow> (nk_text_edit \<times> bool) option" where
  "nk_do_edit inp t0 =
     (let t3 = edit_active inp t0 in
      case inp of
        None \<Rightarrow> Some (t3, False)
      | Some ei \<Rightarrow>
          if te_active t3
          then do {
            t4 \<leftarrow> press_key ei KeyBackspace (place_cursor (ei_mouse ei) t3);
            t5 \<leftarrow> press_key ei KeyLeft t4;
            t6 \<leftarrow> press_key ei KeyRight t5;
            t7 \<leftarrow> nk_textedit_text (kb_text (ei_text ei)) (kb_text_len (ei_text ei)) t6;
            Some (t7, ei_enter ei)
          }
          else Some (t3, False))"

text \<open>What a window keeps of its edit fields, which are numbered in the order they are drawn.\<close>

record edit_state =
  we_active :: bool
  we_name :: nat
  we_seq :: nat
  we_cursor :: nat
  we_start :: nat
  we_end :: nat

definition nk_edit_focus :: "edit_state \<Rightarrow> edit_state" where
  "nk_edit_focus w = w\<lparr>we_active := True, we_name := we_seq w\<rparr>"

definition nk_edit_unfocus :: "edit_state \<Rightarrow> edit_state" where
  "nk_edit_unfocus w = w\<lparr>we_active := False, we_name := 0\<rparr>"

text \<open>
  \<^verbatim>\<open>nk_edit_string\<close> and \<^verbatim>\<open>nk_edit_buffer\<close>: the window, the memory, the length, and whether the field is active and
  was committed. The field is one Nuklear shows: for a row outside the window the call returns at once. An active field
  consumes the text of the keyboard; after a click no other field of the window is active, and without one only the
  field with the focus.
\<close>

definition nk_edit_string ::
  "edit_input option \<Rightarrow> nat \<Rightarrow> edit_state \<Rightarrow> 8 word list \<Rightarrow> nat \<Rightarrow> (edit_state \<times> 8 word list \<times> nat \<times> bool \<times> bool) option" where
  "nk_edit_string inp max0 w mem len0 =
     (let hot = (we_active w \<and> we_seq w = we_name w); size = max 1 max0; len = min len0 (size - 1) in
      do {
        n \<leftarrow> nk_utf_len mem len;
        (t, committed) \<leftarrow> nk_do_edit inp
          \<lparr>te_str = \<lparr>st_mem = mem, st_size = size, st_alloc = len, st_len = n\<rparr>,
           te_cursor = (if hot then we_cursor w else 0), te_start = (if hot then we_start w else 0), te_end = (if hot then we_end w else 0),
           te_mode = ModeInsert, te_single = True, te_active = hot\<rparr>;
        let w1 = w\<lparr>we_seq := Suc (we_seq w)\<rparr>;
            w2 = (if te_active t \<and> \<not> hot then w1\<lparr>we_active := True, we_name := we_seq w\<rparr>
                  else if hot \<and> \<not> te_active t then w1\<lparr>we_active := False\<rparr> else w1);
            w3 = (if te_active t then w2\<lparr>we_cursor := te_cursor t, we_start := te_start t, we_end := te_end t\<rparr> else w2)
        in Some (w3, st_mem (te_str t), st_alloc (te_str t), te_active t, committed)
      })"

section \<open>ASCII text\<close>

definition ascii :: "8 word list \<Rightarrow> bool" where
  "ascii bs \<longleftrightarrow> (\<forall>b\<in>set bs. b < 0x80)"

lemma ascii_simps [simp]:
  "ascii []" "ascii (b # bs) \<longleftrightarrow> b < 0x80 \<and> ascii bs" "ascii (bs @ cs) \<longleftrightarrow> ascii bs \<and> ascii cs"
  by (auto simp: ascii_def)

lemma ascii_nth: "ascii bs \<Longrightarrow> i < length bs \<Longrightarrow> bs ! i < 0x80"
  by (simp add: ascii_def)

lemma ascii_take_drop: "ascii bs \<Longrightarrow> ascii (take n bs)" "ascii bs \<Longrightarrow> ascii (drop n bs)"
  by (auto simp: ascii_def dest: in_set_takeD in_set_dropD)

lemma ascii_update: "ascii bs \<Longrightarrow> b < 0x80 \<Longrightarrow> ascii (bs[i := b])"
  using set_update_subset_insert [of bs i b] by (auto simp: ascii_def)

lemma decode_ascii:
  assumes "p < length mem" "0 < clen" "mem ! p < 0x80"
  shows "nk_utf_decode mem p u clen = Some (1, nk_utf_validate (ucast (mem ! p)) 1)"
proof -
  let ?c = "mem ! p"
  have c: "unat ?c < 128" using assms(3) by (simp add: word_less_nat_alt)
  have "?c AND mask 7 = ?c" using assms(3) by (intro less_mask_eq) simp
  moreover have "(ucast (ucast ?c :: 32 word) :: 8 word) = ?c" by (rule bit_word_eqI) (auto simp: bit_simps)
  ultimately have "nk_utf_encode_byte (ucast ?c) (Suc 0) = ?c" by (simp add: byte_parts mask_eq_exp_minus_1)
  then have "utf_bytes (Suc 0) (ucast ?c) = [?c]" by (simp add: utf_bytes_sizes del: utf_bytes.simps)
  moreover have "unat (ucast ?c :: 32 word) < 128" using c by (simp add: unsigned_ucast_eq take_bit_nat_eq_self)
  moreover have "mem = take p mem @ [?c] @ drop (Suc p) mem" using assms(1) by (simp add: id_take_nth_drop [symmetric])
  ultimately show ?thesis
    using decode_sizes [of "Suc 0" "ucast ?c" clen "take p mem" "drop (Suc p) mem" u] assms(1,2) by (simp del: utf_bytes.simps)
qed

lemma decode_end [simp]: "nk_utf_decode mem p u 0 = Some (0, u)"
  by (simp add: nk_utf_decode_def)

lemma utf_len_loop_end [simp]: "utf_len_loop mem len src u 0 k = Some k"
  by (subst utf_len_loop.simps) simp

lemma utf_len_loop_ascii:
  "src < len \<Longrightarrow> len \<le> length mem \<Longrightarrow> (\<And>i. i < len \<Longrightarrow> mem ! i < 0x80) \<Longrightarrow> utf_len_loop mem len src u (Suc 0) k = Some (k + (len - src))"
proof (induction "len - src" arbitrary: src u k)
  case (Suc d)
  show ?case
  proof (cases "Suc src < len")
    case True
    then have "utf_len_loop mem len src u (Suc 0) k = utf_len_loop mem len (Suc src) (nk_utf_validate (ucast (mem ! Suc src)) 1) (Suc 0) (Suc k)"
      using Suc.prems by (subst utf_len_loop.simps) (simp add: decode_ascii)
    then show ?thesis using Suc.hyps(1) [of "Suc src"] Suc.hyps(2) Suc.prems True by simp
  next
    case False
    then show ?thesis using Suc.prems by (subst utf_len_loop.simps) simp
  qed
qed simp

lemma utf_len_ascii:
  assumes "len \<le> length mem" "\<And>i. i < len \<Longrightarrow> mem ! i < 0x80"
  shows "nk_utf_len mem len = Some len"
proof (cases "len = 0")
  case False
  then have "mem ! 0 < 0x80" using assms(2) by simp
  then have "nk_utf_decode mem 0 0 len = Some (1, nk_utf_validate (ucast (mem ! 0)) 1)" using False assms(1) by (intro decode_ascii) auto
  then show ?thesis using False assms utf_len_loop_ascii [of 0 len mem] by (simp add: nk_utf_len_def)
qed (simp add: nk_utf_len_def)

lemma at_rune_loop_ascii:
  "i \<le> pos \<Longrightarrow> pos \<le> text_len \<Longrightarrow> base + pos < length mem \<Longrightarrow> (\<And>i. i \<le> base + pos \<Longrightarrow> mem ! i < 0x80)
   \<Longrightarrow> at_rune_loop mem base text_len pos i i (if i < text_len then Suc 0 else 0) u = Some (pos, pos)"
proof (induction "pos - i" arbitrary: i u)
  case 0
  then show ?case by (subst at_rune_loop.simps) simp
next
  case (Suc d)
  then have i: "i < pos" "i < text_len" by simp_all
  let ?g = "if Suc i < text_len then Suc 0 else 0"
  have "nk_utf_decode mem (base + i + Suc 0) u (text_len - (i + Suc 0)) = Some (?g, if Suc i < text_len then nk_utf_validate (ucast (mem ! Suc (base + i))) 1 else u)"
    using i Suc.prems by (auto simp: decode_ascii)
  then have "at_rune_loop mem base text_len pos i i (Suc 0) u
      = at_rune_loop mem base text_len pos (Suc i) (Suc i) ?g (if Suc i < text_len then nk_utf_validate (ucast (mem ! Suc (base + i))) 1 else u)"
    using i by (subst at_rune_loop.simps) simp
  then show ?case using Suc.hyps(1) [of "Suc i"] Suc.hyps(2) Suc.prems i by simp
qed

lemma at_rune_ascii:
  assumes "pos \<le> text_len" "base + pos < length mem" "ascii mem"
  shows "nk_str_at_rune mem base text_len pos = Some (Some (base + pos))"
proof -
  have a: "\<And>i. i \<le> base + pos \<Longrightarrow> mem ! i < 0x80" using assms(2,3) ascii_nth [of mem] by simp
  have "nk_utf_decode mem base 0 text_len = Some (if 0 < text_len then Suc 0 else 0, if 0 < text_len then nk_utf_validate (ucast (mem ! base)) 1 else 0)"
    using assms a [of base] by (auto simp: decode_ascii)
  then show ?thesis
    using at_rune_loop_ascii [OF _ assms(1,2) a, of 0] by (simp add: nk_str_at_rune_def)
qed

section \<open>Strings\<close>

text \<open>The string holds the ASCII text \<open>us\<close>; there is room for at least one character and the byte after the text.\<close>

definition str_holds :: "nk_str \<Rightarrow> 8 word list \<Rightarrow> bool" where
  "str_holds s us \<longleftrightarrow> st_alloc s = length us \<and> st_len s = length us \<and> take (length us) (st_mem s) = us \<and> ascii (st_mem s)
     \<and> st_size s \<le> length (st_mem s) \<and> length us < st_size s \<and> 2 \<le> st_size s"

definition same_buffer :: "nk_str \<Rightarrow> nk_str \<Rightarrow> bool" where
  "same_buffer s s' \<longleftrightarrow> st_size s' = st_size s \<and> length (st_mem s') = length (st_mem s)"

lemma same_buffer_refl [simp]: "same_buffer s s"
  by (simp add: same_buffer_def)

lemma str_holds_ascii: "str_holds s us \<Longrightarrow> ascii us"
  using ascii_take_drop(1) [of "st_mem s" "length us"] by (simp add: str_holds_def)

lemma str_holdsI:
  assumes "length us = n" "take n mem = us" "ascii mem" "st_size s \<le> length mem" "n < st_size s" "2 \<le> st_size s"
  shows "nk_utf_len mem n = Some n" "str_holds (s\<lparr>st_mem := mem, st_alloc := n, st_len := n\<rparr>) us"
  using assms utf_len_ascii [of n mem] ascii_nth [OF assms(3)] by (simp_all add: str_holds_def)

lemma move_up_result:
  "pos + len + n \<le> length mem \<Longrightarrow>
   \<exists>r. move_up n pos len mem = Some r \<and> length r = length mem
     \<and> (\<forall>i < length mem. r ! i = (if pos + len \<le> i \<and> i < pos + len + n then mem ! (i - len) else mem ! i))"
proof (induction n arbitrary: mem)
  case (Suc n)
  let ?m = "mem[pos + len + n := mem ! (pos + n)]"
  obtain r where r: "move_up n pos len ?m = Some r" "length r = length ?m"
      "\<forall>i < length ?m. r ! i = (if pos + len \<le> i \<and> i < pos + len + n then ?m ! (i - len) else ?m ! i)"
    using Suc.IH [of ?m] Suc.prems by auto
  have "r ! i = (if pos + len \<le> i \<and> i < pos + len + Suc n then mem ! (i - len) else mem ! i)" if "i < length mem" for i
  proof (cases "i = pos + len + n")
    case False
    then show ?thesis using r(3) that by (cases "len = 0") (auto simp: nth_list_update)
  qed (use r(3) that in simp)
  then show ?case using r(1,2) Suc.prems by auto
qed auto

lemma move_up_one:
  assumes "Suc pos + n \<le> length mem"
  shows "\<exists>r. move_up n pos 1 mem = Some r \<and> length r = length mem \<and> take pos r = take pos mem \<and> take n (drop (Suc pos) r) = take n (drop pos mem)
    \<and> (ascii mem \<longrightarrow> ascii r)"
proof -
  obtain r where r: "move_up n pos 1 mem = Some r" "length r = length mem"
      "\<forall>i < length mem. r ! i = (if pos + 1 \<le> i \<and> i < pos + 1 + n then mem ! (i - 1) else mem ! i)"
    using move_up_result [of pos 1 n mem] assms by auto
  have "take pos r = take pos mem" using r(2,3) by (intro nth_equalityI) auto
  moreover have "take n (drop (Suc pos) r) = take n (drop pos mem)" using r(2,3) assms by (intro nth_equalityI) auto
  moreover have "ascii r" if "ascii mem"
    using r(2,3) ascii_nth [OF that] by (auto simp: ascii_def in_set_conv_nth)
  ultimately show ?thesis using r(1,2) by blast
qed

definition insert_char :: "nat \<Rightarrow> nat \<Rightarrow> 8 word \<Rightarrow> 8 word list \<Rightarrow> 8 word list" where
  "insert_char sz pos b us = (if length us + 1 < sz then take pos us @ b # drop pos us else us)"

lemma append_holds:
  assumes "str_holds s us" "b < 0x80" "length us + 1 < st_size s"
  shows "\<exists>s'. nk_str_append_text_char (b # cs) 1 s = Some s' \<and> str_holds s' (us @ [b]) \<and> same_buffer s s'"
proof -
  have s: "st_alloc s = length us" "st_len s = length us" "take (length us) (st_mem s) = us" "ascii (st_mem s)" "st_size s \<le> length (st_mem s)"
    "2 \<le> st_size s" using assms(1) by (simp_all add: str_holds_def)
  let ?m = "us @ b # drop (Suc (length us)) (st_mem s)"
  have w: "write_at (length us) [b] (st_mem s) = Some ?m" using s assms(3) by (simp add: write_at_def)
  have "nk_utf_len (b # cs) 1 = Some 1" using assms(2) by (intro utf_len_ascii) auto
  moreover have "length ?m = length (st_mem s)" using s assms(3) by simp
  moreover have "ascii ?m" using str_holds_ascii [OF assms(1)] ascii_take_drop(2) [OF s(4)] assms(2) by simp
  ultimately show ?thesis using w s assms by (simp add: nk_str_append_text_char_def str_holds_def same_buffer_def)
qed

lemma insert_at_char_holds:
  assumes "str_holds s us" "b < 0x80" "pos \<le> length us"
  shows "\<exists>s'. nk_str_insert_at_char pos (b # cs) 1 s = Some s' \<and> str_holds s' (insert_char (st_size s) pos b us) \<and> same_buffer s s'"
proof -
  have s: "st_alloc s = length us" "st_len s = length us" "take (length us) (st_mem s) = us" "ascii (st_mem s)" "st_size s \<le> length (st_mem s)"
    "2 \<le> st_size s" "length us < st_size s" using assms(1) by (simp_all add: str_holds_def)
  show ?thesis
  proof (cases "length us + 1 < st_size s")
    case False
    then show ?thesis using assms(1) s by (auto simp: nk_str_insert_at_char_def insert_char_def)
  next
    case True
    show ?thesis
    proof (cases "pos = length us")
      case last: True
      then show ?thesis using append_holds [OF assms(1,2) True, of cs] s True by (simp add: nk_str_insert_at_char_def insert_char_def)
    next
      case False
      then have p: "pos < length us" using assms(3) by simp
      let ?n = "length us - pos" and ?m = "st_mem s"
      obtain r where r: "move_up ?n pos 1 ?m = Some r" "length r = length ?m" "take pos r = take pos ?m"
          "take ?n (drop (Suc pos) r) = take ?n (drop pos ?m)" "ascii r"
        using move_up_one [of pos ?n ?m] p s True by auto
      let ?r = "take pos r @ b # drop (Suc pos) r" and ?us = "take pos us @ b # drop pos us"
      have w: "write_at pos [b] r = Some ?r" using p s True r(2) by (simp add: write_at_def)
      have us: "take pos us = take pos ?m" "drop pos us = take ?n (drop pos ?m)"
        using s(3) p by (metis min.strict_order_iff take_take, metis drop_take)
      have "take (length us + 1) ?r = ?us" using us r(3,4) p s True r(2) by (simp add: Suc_diff_le)
      moreover have "ascii ?r" using ascii_take_drop r(5) assms(2) by simp
      moreover have "length ?r = length ?m" using r(2) p s True by simp
      ultimately have "nk_utf_len ?r (length us + 1) = Some (length us + 1)"
          "str_holds (s\<lparr>st_mem := ?r, st_alloc := length us + 1, st_len := length us + 1\<rparr>) ?us"
        using str_holdsI [of ?us "length us + 1" ?r s] s p True by simp_all
      then show ?thesis
        using p s True r(1) w \<open>length ?r = length ?m\<close> by (auto simp add: nk_str_insert_at_char_def insert_char_def same_buffer_def)
    qed
  qed
qed

lemma insert_text_holds:
  assumes "str_holds s us" "p < length text" "text ! p < 0x80" "pos \<le> length us"
  shows "\<exists>s'. nk_str_insert_text_utf8 pos text p s = Some s' \<and> str_holds s' (insert_char (st_size s) pos (text ! p) us) \<and> same_buffer s s'"
proof -
  let ?b = "text ! p"
  have t: "drop p text = ?b # drop (Suc p) text" using assms(2) by (rule Cons_nth_drop_Suc [symmetric])
  have s: "st_alloc s = length us" "st_len s = length us" "ascii (st_mem s)" "length us < length (st_mem s)" "2 \<le> st_size s" "length us < st_size s"
    using assms(1) by (simp_all add: str_holds_def)
  have "nk_str_at_rune (st_mem s) 0 (st_alloc s) pos = Some (Some pos)"
    using at_rune_ascii [of pos "st_alloc s" 0 "st_mem s"] s assms(4) by simp
  moreover have "nk_utf_decode text p 0 4 = Some (1, nk_utf_validate (ucast ?b) 1)" using assms(2,3) by (intro decode_ascii) auto
  ultimately have e: "nk_str_insert_text_utf8 pos text p s =
      (if st_len s = 0 then nk_str_append_text_char (?b # drop (Suc p) text) 1 s else nk_str_insert_at_char pos (?b # drop (Suc p) text) 1 s)"
    by (simp add: nk_str_insert_text_utf8_def nk_str_insert_at_rune_def t)
  show ?thesis
  proof (cases "us = []")
    case True
    then show ?thesis using append_holds [OF assms(1,3)] s e assms(4) by (simp add: insert_char_def)
  next
    case False
    then show ?thesis using insert_at_char_holds [OF assms(1,3,4)] s e by simp
  qed
qed

definition delete_range :: "nat \<Rightarrow> nat \<Rightarrow> 8 word list \<Rightarrow> 8 word list" where
  "delete_range pos len us = take pos us @ drop (pos + len) us"

lemma delete_chars_holds:
  assumes "str_holds s us" "pos + len \<le> length us" "0 < len"
  shows "\<exists>s'. nk_str_delete_chars pos len s = Some s' \<and> str_holds s' (delete_range pos len us) \<and> same_buffer s s'"
proof -
  have s: "st_alloc s = length us" "st_len s = length us" "take (length us) (st_mem s) = us" "ascii (st_mem s)" "st_size s \<le> length (st_mem s)"
    "2 \<le> st_size s" "length us < st_size s" using assms(1) by (simp_all add: str_holds_def)
  let ?us = "delete_range pos len us" and ?n = "length us - len"
  have l: "length ?us = ?n" using assms(2) by (simp add: delete_range_def)
  show ?thesis
  proof (cases "pos + len < length us")
    case True
    let ?k = "length us - (pos + len)"
    let ?m = "take pos (st_mem s) @ take ?k (drop (pos + len) (st_mem s)) @ drop (pos + ?k) (st_mem s)"
    have c: "copy_down pos (pos + len) ?k (st_mem s) = Some ?m" "length ?m = length (st_mem s)"
      using s True by (simp_all add: copy_down_def write_at_def)
    have us: "take pos us = take pos (st_mem s)" "drop (pos + len) us = take ?k (drop (pos + len) (st_mem s))"
      using s(3) True by (metis add_leD1 less_imp_le_nat min.absorb1 take_take, metis drop_take)
    have "take ?n ?m = ?us" using l us c(2) True s by (simp add: delete_range_def add.commute)
    moreover have "ascii ?m" using ascii_take_drop s(4) by simp
    ultimately have "nk_utf_len ?m ?n = Some ?n" "str_holds (s\<lparr>st_mem := ?m, st_alloc := ?n, st_len := ?n\<rparr>) ?us"
      using str_holdsI [OF l, of ?m s] s c(2) by simp_all
    then show ?thesis using c s True assms(3) by (simp add: nk_str_delete_chars_def same_buffer_def)
  next
    case False
    then have e: "pos + len = length us" using assms(2) by simp
    then have p: "?us = take pos us" "?n = pos" by (simp_all add: delete_range_def)
    have "take pos (st_mem s) = take pos us" using s(3) e by (metis le_add1 min.absorb1 take_take)
    then have "nk_utf_len (st_mem s) pos = Some pos" "str_holds (s\<lparr>st_mem := st_mem s, st_alloc := pos, st_len := pos\<rparr>) (take pos us)"
      using str_holdsI [of "take pos us" pos "st_mem s" s] s e by simp_all
    moreover have "s\<lparr>st_mem := st_mem s, st_alloc := pos, st_len := pos\<rparr> = s\<lparr>st_alloc := pos, st_len := pos\<rparr>" by simp
    ultimately show ?thesis
      using s e p assms(3) by (auto simp: nk_str_delete_chars_def nk_str_remove_chars_def same_buffer_def)
  qed
qed

lemma delete_runes_holds:
  assumes "str_holds s us"
  shows "\<exists>s'. nk_str_delete_runes pos len s = Some s' \<and> str_holds s' (delete_range pos len us) \<and> same_buffer s s'"
proof -
  have s: "st_alloc s = length us" "st_len s = length us" "ascii (st_mem s)" "length us < length (st_mem s)"
    using assms by (simp_all add: str_holds_def)
  define k where "k = (if length us < pos + len then length us - pos else len)"
  have k: "delete_range pos k us = delete_range pos len us" by (auto simp: k_def delete_range_def)
  have e: "nk_str_delete_runes pos len s =
      (if k = 0 then Some s
       else do {
         beg \<leftarrow> nk_str_at_rune (st_mem s) 0 (length us) pos;
         (case beg of None \<Rightarrow> Some s
          | Some b \<Rightarrow> do { fin \<leftarrow> nk_str_at_rune (st_mem s) b (length us) k;
               (case fin of None \<Rightarrow> Some s | Some e \<Rightarrow> nk_str_delete_chars b (e - b) s) }) })"
    by (simp only: nk_str_delete_runes_def Let_def k_def s)
  show ?thesis
  proof (cases "k = 0")
    case True
    then have "delete_range pos len us = us" using k by (simp add: delete_range_def)
    then show ?thesis using True assms e by simp
  next
    case False
    then have p: "pos + k \<le> length us" "0 < k" by (auto simp: k_def split: if_splits)
    then have "nk_str_at_rune (st_mem s) 0 (length us) pos = Some (Some pos)" "nk_str_at_rune (st_mem s) pos (length us) k = Some (Some (pos + k))"
      using at_rune_ascii [of pos "length us" 0 "st_mem s"] at_rune_ascii [of k "length us" pos "st_mem s"] s by simp_all
    then have "nk_str_delete_runes pos len s = nk_str_delete_chars pos k s" using False e by simp
    then show ?thesis using delete_chars_holds [OF assms p] k by simp
  qed
qed

section \<open>An editor on lists of characters\<close>

record editor =
  ed_text :: "8 word list"
  ed_cursor :: nat
  ed_start :: nat
  ed_end :: nat

definition ed_clamp :: "editor \<Rightarrow> editor" where
  "ed_clamp e =
     (let n = length (ed_text e) in
      if ed_start e = ed_end e then e\<lparr>ed_cursor := min (ed_cursor e) n\<rparr>
      else (let a = min (ed_start e) n; b = min (ed_end e) n
            in e\<lparr>ed_start := a, ed_end := b, ed_cursor := (if a = b then a else min (ed_cursor e) n)\<rparr>))"

definition ed_delete_selection :: "editor \<Rightarrow> editor" where
  "ed_delete_selection e0 =
     (let e = ed_clamp e0; a = min (ed_start e) (ed_end e); b = max (ed_start e) (ed_end e) in
      if a = b then e else e\<lparr>ed_text := take a (ed_text e) @ drop b (ed_text e), ed_cursor := a, ed_start := a, ed_end := a\<rparr>)"

text \<open>
  A character replaces the selection. A full field keeps its text; a line feed is ignored.
\<close>

definition ed_type :: "nat \<Rightarrow> 8 word \<Rightarrow> editor \<Rightarrow> editor" where
  "ed_type sz b e =
     (if b = 10 then e
      else if ed_start e = ed_end e \<and> ed_cursor e < length (ed_text e)
      then e\<lparr>ed_text := insert_char sz (ed_cursor e) b (ed_text e), ed_cursor := ed_cursor e + 1\<rparr>
      else (let d = ed_delete_selection e; us = insert_char sz (ed_cursor d) b (ed_text d)
            in d\<lparr>ed_text := us, ed_cursor := min (ed_cursor d + 1) (length us)\<rparr>))"

fun ed_key :: "edit_key \<Rightarrow> editor \<Rightarrow> editor" where
  "ed_key KeyBackspace e =
     (if ed_start e \<noteq> ed_end e then ed_delete_selection e
      else (let c = min (ed_cursor e) (length (ed_text e)) in
            if c > 0 then e\<lparr>ed_text := delete_range (c - 1) 1 (ed_text e), ed_cursor := c - 1\<rparr> else e\<lparr>ed_cursor := c\<rparr>))"
| "ed_key KeyLeft e =
     (if ed_start e \<noteq> ed_end e then (let a = min (ed_start e) (ed_end e) in e\<lparr>ed_cursor := a, ed_start := a, ed_end := a\<rparr>)
      else e\<lparr>ed_cursor := ed_cursor e - 1\<rparr>)"
| "ed_key KeyRight e =
     (let n = length (ed_text e) in
      if ed_start e \<noteq> ed_end e
      then (let b = min (max (ed_start e) (ed_end e)) n in e\<lparr>ed_cursor := b, ed_start := b, ed_end := b\<rparr>)
      else e\<lparr>ed_cursor := min (ed_cursor e + 1) n\<rparr>)"

definition edits :: "nk_text_edit \<Rightarrow> editor \<Rightarrow> bool" where
  "edits t e \<longleftrightarrow> str_holds (te_str t) (ed_text e) \<and> te_cursor t = ed_cursor e \<and> te_start t = ed_start e \<and> te_end t = ed_end e
     \<and> te_mode t = ModeInsert \<and> te_single t \<and> te_active t"

text \<open>The step of the editor is carried out, in the same buffer.\<close>

definition simulates :: "nk_text_edit \<Rightarrow> nk_text_edit option \<Rightarrow> editor \<Rightarrow> bool" where
  "simulates t r e \<longleftrightarrow> (\<exists>t'. r = Some t' \<and> edits t' e \<and> same_buffer (te_str t) (te_str t'))"

lemma st_len_edits: "edits t e \<Longrightarrow> st_len (te_str t) = length (ed_text e)"
  by (simp add: edits_def str_holds_def)

lemma clamp_edits: "edits t e \<Longrightarrow> edits (nk_textedit_clamp t) (ed_clamp e) \<and> te_str (nk_textedit_clamp t) = te_str t"
  by (auto simp: edits_def nk_textedit_clamp_def ed_clamp_def has_selection_def Let_def str_holds_def)

lemma delete_edits:
  assumes "edits t e"
  shows "simulates t (nk_textedit_delete pos len t) (e\<lparr>ed_text := delete_range pos len (ed_text e)\<rparr>)"
  using delete_runes_holds [of "te_str t" "ed_text e" pos len] assms by (auto simp: simulates_def nk_textedit_delete_def edits_def)

lemma delete_selection_edits:
  assumes "edits t e"
  shows "simulates t (nk_textedit_delete_selection t) (ed_delete_selection e)"
proof -
  let ?t = "nk_textedit_clamp t" and ?e = "ed_clamp e"
  have c: "edits ?t ?e" "te_str ?t = te_str t" using clamp_edits [OF assms] by auto
  have s: "te_start ?t = ed_start ?e" "te_end ?t = ed_end ?e" using c(1) by (simp_all add: edits_def)
  consider "ed_start ?e = ed_end ?e" | "ed_start ?e < ed_end ?e" | "ed_end ?e < ed_start ?e" by linarith
  then show ?thesis
  proof cases
    case 1
    then show ?thesis using c s
      by (simp add: simulates_def nk_textedit_delete_selection_def ed_delete_selection_def has_selection_def Let_def)
  next
    case 2
    then show ?thesis using c s delete_edits [OF c(1), of "ed_start ?e" "ed_end ?e - ed_start ?e"]
      by (auto simp: simulates_def nk_textedit_delete_selection_def ed_delete_selection_def has_selection_def Let_def edits_def delete_range_def)
  next
    case 3
    then show ?thesis using c s delete_edits [OF c(1), of "ed_end ?e" "ed_start ?e - ed_end ?e"]
      by (auto simp: simulates_def nk_textedit_delete_selection_def ed_delete_selection_def has_selection_def Let_def edits_def delete_range_def)
  qed
qed

lemma clamp_cursor: "ed_cursor (ed_clamp e) \<le> length (ed_text e)" "ed_text (ed_clamp e) = ed_text e"
  by (simp_all add: ed_clamp_def Let_def)

lemma delete_selection_cursor: "ed_cursor (ed_delete_selection e) \<le> length (ed_text (ed_delete_selection e))"
  using clamp_cursor [of e] by (auto simp: ed_delete_selection_def Let_def ed_clamp_def min_def max_def)

lemma insert_edits:
  assumes "edits t e" "p < length text" "text ! p < 0x80" "ed_cursor e \<le> length (ed_text e)"
  obtains s where "nk_str_insert_text_utf8 (ed_cursor e) text p (te_str t) = Some s"
    "str_holds s (insert_char (st_size (te_str t)) (ed_cursor e) (text ! p) (ed_text e))" "same_buffer (te_str t) s"
  using insert_text_holds [of "te_str t" "ed_text e" p "text" "ed_cursor e"] assms by (auto simp: edits_def)

lemma ascii_rune:
  assumes "(b :: 8 word) < 0x80"
  shows "nk_utf_validate (ucast b) 1 \<noteq> 127" "nk_utf_validate (ucast b) 1 = 10 \<longleftrightarrow> b = 10"
proof -
  have "unat (ucast b :: 32 word) = unat b" using assms by (simp add: unsigned_ucast_eq take_bit_nat_eq_self word_less_nat_alt)
  then have u: "(ucast b :: 32 word) = 10 \<longleftrightarrow> b = 10" by (simp add: word_unat_eq_iff)
  show "nk_utf_validate (ucast b) 1 \<noteq> 127" by (auto simp: nk_utf_validate_def nk_utfmin_def nk_utfmax_def NK_UTF_INVALID_def)
  have "(10 :: 32 word) < 0x7F" by simp
  then show "nk_utf_validate (ucast b) 1 = 10 \<longleftrightarrow> b = 10"
    using u by (auto simp: nk_utf_validate_def nk_utfmin_def nk_utfmax_def NK_UTF_INVALID_def)
qed

lemma char_edits:
  assumes "edits t e" "p < length text" "text ! p < 0x80"
  shows "simulates t (textedit_char text p (nk_utf_validate (ucast (text ! p)) 1) t) (ed_type (st_size (te_str t)) (text ! p) e)"
proof -
  have t: "te_single t" "te_mode t = ModeInsert" "te_cursor t = ed_cursor e" "has_selection t \<longleftrightarrow> ed_start e \<noteq> ed_end e"
    using assms(1) by (simp_all add: edits_def has_selection_def)
  note u = ascii_rune [OF assms(3)]
  show ?thesis
  proof (cases "text ! p = 10")
    case True
    then show ?thesis using u t assms(1) by (simp add: textedit_char_def ed_type_def simulates_def)
  next
    case False
    show ?thesis
    proof (cases "ed_start e = ed_end e \<and> ed_cursor e < length (ed_text e)")
      case True
      then obtain s where "nk_str_insert_text_utf8 (ed_cursor e) text p (te_str t) = Some s"
          "str_holds s (insert_char (st_size (te_str t)) (ed_cursor e) (text ! p) (ed_text e))" "same_buffer (te_str t) s"
        using insert_edits [OF assms] by (metis less_imp_le_nat)
      then show ?thesis using True False u t st_len_edits [OF assms(1)] assms(1)
        by (simp add: textedit_char_def ed_type_def simulates_def edits_def)
    next
      case no: False
      let ?d = "ed_delete_selection e"
      obtain d where d: "nk_textedit_delete_selection t = Some d" "edits d ?d" "same_buffer (te_str t) (te_str d)"
        using delete_selection_edits [OF assms(1)] by (auto simp: simulates_def)
      obtain s where s: "nk_str_insert_text_utf8 (ed_cursor ?d) text p (te_str d) = Some s"
          "str_holds s (insert_char (st_size (te_str d)) (ed_cursor ?d) (text ! p) (ed_text ?d))" "same_buffer (te_str d) s"
        using insert_edits [OF d(2) assms(2,3) delete_selection_cursor] by metis
      have "st_size (te_str d) = st_size (te_str t)" using d(3) by (simp add: same_buffer_def)
      moreover have "te_cursor d = ed_cursor ?d" using d(2) by (simp add: edits_def)
      moreover have "st_len s = length (insert_char (st_size (te_str d)) (ed_cursor ?d) (text ! p) (ed_text ?d))" using s(2) by (simp add: str_holds_def)
      ultimately show ?thesis using no False u t st_len_edits [OF assms(1)] d s
        by (auto simp: textedit_char_def ed_type_def simulates_def edits_def same_buffer_def Let_def)
    qed
  qed
qed

lemma key_edits:
  assumes "edits t e"
  shows "simulates t (nk_textedit_key k t) (ed_key k e)"
proof (cases k)
  case KeyBackspace
  have t: "te_mode t = ModeInsert" "has_selection t \<longleftrightarrow> ed_start e \<noteq> ed_end e" using assms by (simp_all add: edits_def has_selection_def)
  show ?thesis
  proof (cases "ed_start e = ed_end e")
    case False
    then show ?thesis using delete_selection_edits [OF assms] t KeyBackspace by simp
  next
    case True
    let ?t = "nk_textedit_clamp t" and ?e = "ed_clamp e" and ?c = "min (ed_cursor e) (length (ed_text e))"
    have c: "edits ?t ?e" "te_str ?t = te_str t" "te_cursor ?t = ?c"
      using clamp_edits [OF assms] True by (auto simp: edits_def ed_clamp_def Let_def)
    have e: "?e = e\<lparr>ed_cursor := ?c\<rparr>" using True by (simp add: ed_clamp_def Let_def)
    show ?thesis
    proof (cases "?c > 0")
      case True
      obtain d where "nk_textedit_delete (?c - 1) 1 ?t = Some d" "edits d (?e\<lparr>ed_text := delete_range (?c - 1) 1 (ed_text ?e)\<rparr>)" "same_buffer (te_str t) (te_str d)"
        using delete_edits [OF c(1), of "?c - 1" 1] c(2) by (auto simp: simulates_def)
      then show ?thesis using True \<open>ed_start e = ed_end e\<close> t c(3) KeyBackspace e
        by (simp add: simulates_def Let_def edits_def)
    next
      case False
      then show ?thesis using \<open>ed_start e = ed_end e\<close> t c KeyBackspace e by (auto simp: simulates_def)
    qed
  qed
qed (use assms in \<open>auto simp: simulates_def edits_def nk_textedit_move_to_first_def nk_textedit_move_to_last_def nk_textedit_clamp_def
      nk_textedit_sortselection_def has_selection_def str_holds_def Let_def min_def max_def\<close>)

lemma loop_edits:
  "edits t e \<Longrightarrow> i < tl_len \<Longrightarrow> tl_len \<le> length text \<Longrightarrow> (\<And>j. j < tl_len \<Longrightarrow> text ! j < 0x80) \<Longrightarrow> st_size (te_str t) = sz
   \<Longrightarrow> simulates t (textedit_loop text tl_len i (Suc 0) (nk_utf_validate (ucast (text ! i)) 1) t) (fold (ed_type sz) (drop i (take tl_len text)) e)"
proof (induction "tl_len - i" arbitrary: i t e)
  case (Suc d)
  obtain t1 where t1: "textedit_char text i (nk_utf_validate (ucast (text ! i)) 1) t = Some t1" "edits t1 (ed_type sz (text ! i) e)"
      "same_buffer (te_str t) (te_str t1)"
    using char_edits [OF Suc.prems(1), of i "text"] Suc.prems by (auto simp: simulates_def)
  have f: "drop i (take tl_len text) = text ! i # drop (Suc i) (take tl_len text)"
    using Suc.prems by (simp add: Cons_nth_drop_Suc [symmetric])
  show ?case
  proof (cases "Suc i < tl_len")
    case True
    have "nk_utf_decode text (i + Suc 0) (nk_utf_validate (ucast (text ! i)) 1) (tl_len - (i + Suc 0)) = Some (Suc 0, nk_utf_validate (ucast (text ! Suc i)) 1)"
      using True Suc.prems by (simp add: decode_ascii)
    then have "textedit_loop text tl_len i (Suc 0) (nk_utf_validate (ucast (text ! i)) 1) t
        = textedit_loop text tl_len (Suc i) (Suc 0) (nk_utf_validate (ucast (text ! Suc i)) 1) t1"
      using t1(1) Suc.prems(2) by (subst textedit_loop.simps) simp
    moreover have "st_size (te_str t1) = sz" using t1(3) Suc.prems(5) by (simp add: same_buffer_def)
    then have "simulates t1 (textedit_loop text tl_len (Suc i) (Suc 0) (nk_utf_validate (ucast (text ! Suc i)) 1) t1)
        (fold (ed_type sz) (drop (Suc i) (take tl_len text)) (ed_type sz (text ! i) e))"
      using Suc.hyps(1) [of "Suc i" t1] Suc.hyps(2) Suc.prems t1(2) True by simp
    ultimately show ?thesis using t1(3) f by (auto simp: simulates_def same_buffer_def)
  next
    case False
    then have "drop (Suc i) (take tl_len text) = []" by simp
    moreover have "textedit_loop text tl_len k 0 u t1 = Some t1" for k u by (subst textedit_loop.simps) simp
    then have "textedit_loop text tl_len i (Suc 0) (nk_utf_validate (ucast (text ! i)) 1) t = Some t1"
      using t1(1) False Suc.prems(2) by (subst textedit_loop.simps) simp
    ultimately show ?thesis using t1 f by (simp add: simulates_def)
  qed
qed simp

lemma text_edits:
  assumes "edits t e" "tl_len \<le> length text" "\<And>j. j < tl_len \<Longrightarrow> text ! j < 0x80"
  shows "simulates t (nk_textedit_text text tl_len t) (fold (ed_type (st_size (te_str t))) (take tl_len text) e)"
proof (cases "tl_len = 0")
  case False
  then have "text ! 0 < 0x80" using assms(3) by simp
  then have "nk_utf_decode text 0 0 tl_len = Some (1, nk_utf_validate (ucast (text ! 0)) 1)" using False assms(2) by (intro decode_ascii) auto
  moreover have "te_mode t = ModeInsert" using assms(1) by (simp add: edits_def)
  ultimately show ?thesis using False loop_edits [OF assms(1) _ assms(2,3), of 0] by (simp add: nk_textedit_text_def)
qed (use assms(1) in \<open>simp add: nk_textedit_text_def simulates_def\<close>)

definition ed_place :: "edit_mouse \<Rightarrow> editor \<Rightarrow> editor" where
  "ed_place m e =
     (case m of
        NoMouse \<Rightarrow> e
      | MouseClick p \<Rightarrow> e\<lparr>ed_cursor := p, ed_start := p, ed_end := p\<rparr>
      | MouseDrag p \<Rightarrow> e\<lparr>ed_start := (if ed_start e = ed_end e then ed_cursor e else ed_start e), ed_cursor := p, ed_end := p\<rparr>)"

text \<open>One frame: the mouse, the keys in the order of Nuklear, the text.\<close>

definition ed_frame :: "nat \<Rightarrow> edit_input \<Rightarrow> editor \<Rightarrow> editor" where
  "ed_frame sz ei e =
     (let press = (\<lambda>k e. if ei_pressed ei k then ed_key k e else e);
          text = take (kb_text_len (ei_text ei)) (kb_text (ei_text ei))
      in fold (ed_type sz) text (press KeyRight (press KeyLeft (press KeyBackspace (ed_place (ei_mouse ei) e)))))"

lemma press_edits:
  assumes "edits t e"
  shows "simulates t (press_key ei k t) (if ei_pressed ei k then ed_key k e else e)"
  using key_edits [OF assms] assms by (simp add: press_key_def simulates_def)

definition keyboard_ascii :: "nk_keyboard \<Rightarrow> bool" where
  "keyboard_ascii kb \<longleftrightarrow> kb_text_len kb \<le> length (kb_text kb) \<and> (\<forall>j < kb_text_len kb. kb_text kb ! j < 0x80)"

lemma frame_edits:
  assumes "edits t e" "keyboard_ascii (ei_text ei)"
  shows "simulates t (do { t4 \<leftarrow> press_key ei KeyBackspace (place_cursor (ei_mouse ei) t); t5 \<leftarrow> press_key ei KeyLeft t4; t6 \<leftarrow> press_key ei KeyRight t5;
      nk_textedit_text (kb_text (ei_text ei)) (kb_text_len (ei_text ei)) t6 }) (ed_frame (st_size (te_str t)) ei e)"
proof -
  let ?t = "place_cursor (ei_mouse ei) t" and ?e = "ed_place (ei_mouse ei) e"
  have p: "edits ?t ?e" "te_str ?t = te_str t" using assms(1) by (auto simp: edits_def place_cursor_def ed_place_def split: edit_mouse.splits)
  have k: "kb_text_len (ei_text ei) \<le> length (kb_text (ei_text ei))" "\<And>j. j < kb_text_len (ei_text ei) \<Longrightarrow> kb_text (ei_text ei) ! j < 0x80"
    using assms(2) by (auto simp: keyboard_ascii_def)
  let ?k = "\<lambda>k e. if ei_pressed ei k then ed_key k e else e" and ?text = "nk_textedit_text (kb_text (ei_text ei)) (kb_text_len (ei_text ei))"
  obtain t4 where t4: "press_key ei KeyBackspace ?t = Some t4" "edits t4 (?k KeyBackspace ?e)" "same_buffer (te_str ?t) (te_str t4)"
    using press_edits [OF p(1)] by (meson simulates_def)
  obtain t5 where t5: "press_key ei KeyLeft t4 = Some t5" "edits t5 (?k KeyLeft (?k KeyBackspace ?e))" "same_buffer (te_str t4) (te_str t5)"
    using press_edits [OF t4(2)] by (meson simulates_def)
  obtain t6 where t6: "press_key ei KeyRight t5 = Some t6" "edits t6 (?k KeyRight (?k KeyLeft (?k KeyBackspace ?e)))" "same_buffer (te_str t5) (te_str t6)"
    using press_edits [OF t5(2)] by (meson simulates_def)
  have b: "same_buffer (te_str t) (te_str t6)" "st_size (te_str t6) = st_size (te_str t)"
    using t4(3) t5(3) t6(3) p(2) by (simp_all add: same_buffer_def)
  obtain t7 where "?text t6 = Some t7" "edits t7 (ed_frame (st_size (te_str t)) ei e)" "same_buffer (te_str t6) (te_str t7)"
    using text_edits [OF t6(2) k] unfolding simulates_def ed_frame_def Let_def b(2) by blast
  moreover from this(3) b(1) have "same_buffer (te_str t) (te_str t7)" by (simp add: same_buffer_def)
  ultimately show ?thesis using t4(1) t5(1) t6(1) by (simp add: simulates_def)
qed

lemma inactive_edit:
  "\<not> te_active (edit_active (Some ei) t) \<Longrightarrow> nk_do_edit (Some ei) t = Some (edit_active (Some ei) t, False)"
  by (simp add: nk_do_edit_def Let_def)

lemma edit_active_str: "te_str (edit_active inp t) = te_str t"
  by (simp add: edit_active_def nk_textedit_clear_state_def Let_def)

lemma active_edits:
  assumes "edits t e" "keyboard_ascii (ei_text ei)"
  shows "\<exists>t'. do { t4 \<leftarrow> press_key ei KeyBackspace (place_cursor (ei_mouse ei) t); t5 \<leftarrow> press_key ei KeyLeft t4; t6 \<leftarrow> press_key ei KeyRight t5;
      t7 \<leftarrow> nk_textedit_text (kb_text (ei_text ei)) (kb_text_len (ei_text ei)) t6; Some (t7, ei_enter ei) } = Some (t', ei_enter ei)
    \<and> edits t' (ed_frame (st_size (te_str t)) ei e) \<and> same_buffer (te_str t) (te_str t')"
  using frame_edits [OF assms] by (auto simp: simulates_def bind_eq_Some_conv)

lemma edit_string_edits:
  assumes "ascii mem" "2 \<le> sz" "sz \<le> length mem" "len0 < sz" "keyboard_ascii (ei_text ei)"
    and hot: "hot = (we_active w \<and> we_seq w = we_name w)"
    and act: "act = (case ei_click ei of None \<Rightarrow> hot | Some hit \<Rightarrow> hit)"
    and E: "E = ed_frame sz ei \<lparr>ed_text = take len0 mem, ed_cursor = (if hot then we_cursor w else 0),
                ed_start = (if hot then we_start w else 0), ed_end = (if hot then we_end w else 0)\<rparr>"
  shows "\<exists>w' mem' len'. nk_edit_string (Some ei) sz w mem len0 = Some (w', mem', len', act, act \<and> ei_enter ei)
    \<and> length mem' = length mem \<and> len' < sz \<and> we_seq w' = Suc (we_seq w) \<and> we_active w' = (if act \<or> hot then act else we_active w)
    \<and> (if act then take len' mem' = ed_text E \<and> ascii mem' \<and> we_cursor w' = ed_cursor E \<and> we_start w' = ed_start E \<and> we_end w' = ed_end E
         \<and> we_name w' = we_seq w
       else mem' = mem \<and> len' = len0)"
proof -
  let ?s = "\<lparr>st_mem = mem, st_size = sz, st_alloc = len0, st_len = len0\<rparr>"
  let ?t = "\<lparr>te_str = ?s, te_cursor = (if hot then we_cursor w else 0), te_start = (if hot then we_start w else 0),
      te_end = (if hot then we_end w else 0), te_mode = ModeInsert, te_single = True, te_active = hot\<rparr>"
  let ?e = "\<lparr>ed_text = take len0 mem, ed_cursor = (if hot then we_cursor w else 0),
      ed_start = (if hot then we_start w else 0), ed_end = (if hot then we_end w else 0)\<rparr>"
  have n: "nk_utf_len mem len0 = Some len0" and h: "str_holds ?s (take len0 mem)"
    using str_holdsI [of "take len0 mem" len0 mem ?s] assms(1-4) by simp_all
  have sz: "max 1 sz = sz" "min len0 (sz - 1) = len0" using assms(2,4) by simp_all
  have call: "nk_edit_string (Some ei) sz w mem len0 =
      (do { (t, committed) \<leftarrow> nk_do_edit (Some ei) ?t;
        let w1 = w\<lparr>we_seq := Suc (we_seq w)\<rparr>;
            w2 = (if te_active t \<and> \<not> hot then w1\<lparr>we_active := True, we_name := we_seq w\<rparr>
                  else if hot \<and> \<not> te_active t then w1\<lparr>we_active := False\<rparr> else w1);
            w3 = (if te_active t then w2\<lparr>we_cursor := te_cursor t, we_start := te_start t, we_end := te_end t\<rparr> else w2)
        in Some (w3, st_mem (te_str t), st_alloc (te_str t), te_active t, committed) })"
    unfolding nk_edit_string_def Let_def hot [symmetric] sz n by simp
  have a: "te_active (edit_active (Some ei) ?t) = act"
    by (simp add: edit_active_def nk_textedit_clear_state_def Let_def act split: option.splits)
  show ?thesis
  proof (cases act)
    case False
    then have "nk_do_edit (Some ei) ?t = Some (edit_active (Some ei) ?t, False)" using a by (intro inactive_edit) simp
    then show ?thesis using False a assms(4) by (simp add: call edit_active_str Let_def)
  next
    case True
    have "edits (edit_active (Some ei) ?t) ?e"
      using True h act by (auto simp: edits_def edit_active_def nk_textedit_clear_state_def Let_def split: option.splits)
    from active_edits [OF this assms(5)] obtain t' where t': "nk_do_edit (Some ei) ?t = Some (t', ei_enter ei)" "edits t' E" "same_buffer ?s (te_str t')"
      using a True unfolding nk_do_edit_def Let_def E by (auto simp: edit_active_str)
    have m: "length (st_mem (te_str t')) = length mem" "st_size (te_str t') = sz" using t'(3) by (simp_all add: same_buffer_def)
    have "take (st_alloc (te_str t')) (st_mem (te_str t')) = ed_text E" "ascii (st_mem (te_str t'))" "st_alloc (te_str t') < sz"
      using t'(2) m by (simp_all add: edits_def str_holds_def)
    then show ?thesis using True t' m hot by (auto simp: call edits_def Let_def)
  qed
qed

text \<open>
  C15 (edit_field_refines). A frame of an edit field implements one step of the editor on lists of characters. Let the
  buffer have the \<open>sz\<close> bytes the call names, hold ASCII text shorter than that and let the text typed be ASCII. Then the call
  stays inside the buffer and the text still leaves room for the terminating NUL. The field is active afterwards if a
  click hit it, or nothing was clicked and it had the focus. An active field holds the text, the cursor and the selection that
  the mouse, Backspace, Left, Right and the characters typed give, in this order; Enter commits it. The cursor of a field that
  has just become active starts at 0. A field that is not active is left as it was.
\<close>

theorem edit_field_refines:
  assumes "ascii mem" "2 \<le> sz" "sz \<le> length mem" "len0 < sz" "keyboard_ascii (ei_text ei)"
    and hot: "hot = (we_active w \<and> we_seq w = we_name w)"
    and act: "act = (case ei_click ei of None \<Rightarrow> hot | Some hit \<Rightarrow> hit)"
    and E: "E = ed_frame sz ei \<lparr>ed_text = take len0 mem, ed_cursor = (if hot then we_cursor w else 0),
                ed_start = (if hot then we_start w else 0), ed_end = (if hot then we_end w else 0)\<rparr>"
  shows "\<exists>w' mem' len'. nk_edit_string (Some ei) sz w mem len0 = Some (w', mem', len', act, act \<and> ei_enter ei)
    \<and> length mem' = length mem \<and> len' < sz \<and> we_seq w' = Suc (we_seq w) \<and> we_active w' = (if act \<or> hot then act else we_active w)
    \<and> (if act then take len' mem' = ed_text E \<and> ascii mem' \<and> we_cursor w' = ed_cursor E \<and> we_start w' = ed_start E \<and> we_end w' = ed_end E
         \<and> we_name w' = we_seq w
       else mem' = mem \<and> len' = len0)"
  using edit_string_edits [OF assms(1-5) hot act E] .

definition typing :: "bool option \<Rightarrow> (edit_key \<Rightarrow> bool) \<Rightarrow> 8 word list \<Rightarrow> edit_input" where
  "typing click keys bs =
     \<lparr>ei_click = click, ei_mouse = NoMouse, ei_pressed = keys, ei_text = \<lparr>kb_text = bs @ replicate (16 - length bs) 0, kb_text_len = length bs\<rparr>,
      ei_enter = False\<rparr>"

text \<open>A field with the text \<open>ab\<close> and the cursor behind it: Left and an \<open>x\<close> give \<open>axb\<close>.\<close>

theorem edit_field_refines_witness:
  "\<exists>w' mem' len'. nk_edit_string (Some (typing None (\<lambda>k. k = KeyLeft) [0x78])) 8
       \<lparr>we_active = True, we_name = 0, we_seq = 0, we_cursor = 2, we_start = 0, we_end = 0\<rparr> ([0x61, 0x62] @ replicate 6 0) 2
     = Some (w', mem', len', True, False)
   \<and> take len' mem' = [0x61, 0x78, 0x62] \<and> we_cursor w' = 2"
proof -
  let ?ei = "typing None (\<lambda>k. k = KeyLeft) [0x78]" and ?mem = "[0x61, 0x62] @ replicate 6 (0 :: 8 word)"
  let ?w = "\<lparr>we_active = True, we_name = 0, we_seq = 0, we_cursor = 2, we_start = 0, we_end = 0\<rparr>"
  have 1: "ascii ?mem" by (simp add: ascii_def)
  have 2: "(2 :: nat) \<le> 8" "8 \<le> length ?mem" "(2 :: nat) < 8" by simp_all
  have 3: "keyboard_ascii (ei_text ?ei)" by (simp add: keyboard_ascii_def typing_def)
  have 4: "ed_frame 8 ?ei \<lparr>ed_text = take 2 ?mem, ed_cursor = 2, ed_start = 0, ed_end = 0\<rparr>
      = \<lparr>ed_text = [0x61, 0x78, 0x62], ed_cursor = 2, ed_start = 0, ed_end = 0\<rparr>"
    by (simp add: ed_frame_def typing_def ed_place_def ed_type_def insert_char_def Let_def)
  show ?thesis
    using edit_field_refines [OF 1 2 3, of True ?w True] 4 by (auto simp: typing_def)
qed

section \<open>Masked fields\<close>

text \<open>
  The password fields edit a copy of stars. \<open>string_field\<close> is the field as the windows call it; the case without a
  result does not occur (\<open>masked_field\<close>).
\<close>

definition byte_of :: "char \<Rightarrow> 8 word" where
  "byte_of c = of_nat (of_char c)"

definition char_of_byte :: "8 word \<Rightarrow> char" where
  "char_of_byte b = char_of (unat b)"

definition string_field :: "edit_input \<Rightarrow> edit_state \<Rightarrow> edit_buf \<Rightarrow> edit_result" where
  "string_field ei w b =
     (case nk_edit_string (Some ei) 255 w (map byte_of (eb_chars b)) (eb_len b) of
        None \<Rightarrow> \<lparr>er_buf = b, er_active = False, er_committed = False\<rparr>
      | Some (w', mem', len', act, com) \<Rightarrow>
          \<lparr>er_buf = \<lparr>eb_chars = map char_of_byte mem', eb_len = len'\<rparr>, er_active = act, er_committed = com\<rparr>)"

definition password :: "edit_buf \<Rightarrow> char list" where
  "password b = take (eb_len b) (eb_chars b)"

lemma masked_field:
  assumes "length (eb_chars b) = 256" "eb_len b < 255" "length stack = 256" "ascii (map byte_of stack)"
    and "keyboard_ascii (ei_text ei)"
    and "we_active w" "we_seq w = we_name w" "ei_click ei = None"
    and E: "E = ed_frame 255 ei \<lparr>ed_text = replicate (eb_len b) 0x2A, ed_cursor = we_cursor w, ed_start = we_start w, ed_end = we_end w\<rparr>"
  shows "password (er_buf (masked_edit stack (string_field ei w) b))
    = take (length (ed_text E)) (password b @ map char_of_byte (drop (eb_len b) (ed_text E)))"
    and "er_active (masked_edit stack (string_field ei w) b)"
proof -
  let ?old = "eb_len b" and ?n = "length (ed_text E)"
  let ?stars = "\<lparr>eb_chars = replicate ?old CHR ''*'' @ NUL # drop (Suc ?old) stack, eb_len = ?old\<rparr>"
  let ?mem = "replicate ?old (0x2A :: 8 word) @ 0 # map byte_of (drop (Suc ?old) stack)"
  have 1: "ascii ?mem" using assms(4) by (auto simp: ascii_def dest: in_set_dropD)
  have 2: "(2 :: nat) \<le> 255" "255 \<le> length ?mem" "?old < 255" using assms(2,3) by simp_all
  have "take ?old ?mem = replicate ?old 0x2A" by simp
  then obtain w' mem' len' where r: "nk_edit_string (Some ei) 255 w ?mem ?old = Some (w', mem', len', True, ei_enter ei)"
      "length mem' = length ?mem" "len' < 255" "take len' mem' = ed_text E"
    using edit_string_edits [OF 1 2 assms(5), of True w True E] assms(6-8) E by auto
  have n: "len' = ?n" "length mem' = 256" using r(2-4) assms(2,3) by (auto simp flip: r(4))
  have f: "string_field ei w ?stars = \<lparr>er_buf = \<lparr>eb_chars = map char_of_byte mem', eb_len = ?n\<rparr>, er_active = True, er_committed = ei_enter ei\<rparr>"
    using r(1) n(1) by (simp add: string_field_def byte_of_def)
  show "er_active (masked_edit stack (string_field ei w) b)" using f by (simp add: masked_edit_def Let_def)
  have d: "drop ?old (ed_text E) = take (?n - ?old) (drop ?old mem')" using r(4) n(1) by (metis drop_take)
  show "password (er_buf (masked_edit stack (string_field ei w) b)) = take ?n (password b @ map char_of_byte (drop ?old (ed_text E)))"
    using f assms(1,2) n r(3) by (simp add: masked_edit_def password_def Let_def d take_map drop_map)
qed

lemma type_at_end:
  assumes "length us + length bs < sz" "10 \<notin> set bs"
  shows "fold (ed_type sz) bs \<lparr>ed_text = us, ed_cursor = length us, ed_start = s, ed_end = s\<rparr>
    = \<lparr>ed_text = us @ bs, ed_cursor = length us + length bs, ed_start = s, ed_end = s\<rparr>"
  using assms
proof (induction bs arbitrary: us)
  case (Cons b bs)
  have "ed_type sz b \<lparr>ed_text = us, ed_cursor = length us, ed_start = s, ed_end = s\<rparr>
      = \<lparr>ed_text = us @ [b], ed_cursor = length (us @ [b]), ed_start = s, ed_end = s\<rparr>"
    using Cons.prems by (simp add: ed_type_def ed_delete_selection_def ed_clamp_def insert_char_def Let_def)
  then show ?case using Cons.IH [of "us @ [b]"] Cons.prems by simp
qed simp

text \<open>As long as the cursor is at the end, a password field takes the characters typed.\<close>

lemma masked_append:
  assumes "length (eb_chars b) = 256" "eb_len b + length bs < 255" "ascii bs" "10 \<notin> set bs" "length bs \<le> 16"
    and st: "length stack = 256" "ascii (map byte_of stack)"
    and "we_active w" "we_seq w = we_name w" "we_cursor w = eb_len b" "we_start w = we_end w"
  shows "password (er_buf (masked_edit stack (string_field (typing None (\<lambda>k. False) bs) w) b)) = password b @ map char_of_byte bs"
proof -
  let ?ei = "typing None (\<lambda>k. False) bs"
  have k: "keyboard_ascii (ei_text ?ei)" using assms(3,5) by (auto simp: keyboard_ascii_def typing_def nth_append ascii_nth)
  have "ed_frame 255 ?ei \<lparr>ed_text = replicate (eb_len b) 0x2A, ed_cursor = we_cursor w, ed_start = we_start w, ed_end = we_end w\<rparr>
      = \<lparr>ed_text = replicate (eb_len b) 0x2A @ bs, ed_cursor = eb_len b + length bs, ed_start = we_end w, ed_end = we_end w\<rparr>"
    using type_at_end [of "replicate (eb_len b) 0x2A" bs 255] assms(2,4,10,11) by (simp add: ed_frame_def typing_def ed_place_def)
  then show ?thesis using masked_field(1) [OF assms(1) _ st k assms(8,9)] assms(1,2) by (simp add: typing_def password_def)
qed

text \<open>
  Elsewhere it does not. With the cursor moved left, a star of the copy becomes part of the password in place of the
  character typed. When Backspace and a character arrive in one frame the length is the old one, and the character is
  lost.
\<close>

definition ab_buf :: edit_buf where
  "ab_buf = \<lparr>eb_chars = ''ab'' @ replicate 254 NUL, eb_len = 2\<rparr>"

definition cursor_at :: "nat \<Rightarrow> edit_state" where
  "cursor_at c = \<lparr>we_active = True, we_name = 0, we_seq = 0, we_cursor = c, we_start = 0, we_end = 0\<rparr>"

lemma masked_insert:
  assumes st: "length stack = 256" "ascii (map byte_of stack)"
  shows
  "password (er_buf (masked_edit stack (string_field (typing None (\<lambda>k. False) [0x78]) (cursor_at 1)) ab_buf)) = ''ab*''"
  "password (er_buf (masked_edit stack (string_field (typing None (\<lambda>k. k = KeyBackspace) [0x78]) (cursor_at 2)) ab_buf)) = ''ab''"
proof -
  have k: "keyboard_ascii (ei_text (typing None f [0x78]))" for f by (simp add: keyboard_ascii_def typing_def)
  have b: "length (eb_chars ab_buf) = 256" "eb_len ab_buf < 255" by (simp_all add: ab_buf_def)
  have two: "replicate 2 x = [x, x]" for x :: "8 word" by (simp add: numeral_2_eq_2)
  have star: "char_of_byte 0x2A = CHR ''*''" by (simp add: char_of_byte_def char_of_def bit_0)
  note m = masked_field(1) [OF b st k _ _ _ refl]
  show "password (er_buf (masked_edit stack (string_field (typing None (\<lambda>k. False) [0x78]) (cursor_at 1)) ab_buf)) = ''ab*''"
    by (subst m) (simp_all add: cursor_at_def typing_def ab_buf_def password_def ed_frame_def ed_place_def ed_type_def insert_char_def
        two star)
  show "password (er_buf (masked_edit stack (string_field (typing None (\<lambda>k. k = KeyBackspace) [0x78]) (cursor_at 2)) ab_buf)) = ''ab''"
    by (subst m) (simp_all add: cursor_at_def typing_def ab_buf_def password_def ed_frame_def ed_place_def ed_type_def insert_char_def
        delete_range_def ed_delete_selection_def ed_clamp_def two Let_def)
qed

end
